(* ===== verification/Prelude.thy ===== *)
theory Prelude
  imports Main "HOL-Library.Word" "HOL-Library.Monad_Syntax" "HOL-Library.Multiset"
begin

text \<open>
  Shared vocabulary of the development: how C strings, sizes, faults and raw memory copies are
  modelled, and the list lemmas and simp collections that the component theories share.

  A C string argument is the list of its bytes before the terminating NUL, so \<open>strlen\<close> is
  \<open>length\<close> and \<open>strcmp\<close>/\<open>memcmp\<close> on equal lengths is list equality. A \<open>size_t\<close> is a natural
  number; where the code relies on its wrap-around at 64 bits, the \<open>mod 2 ^ 64\<close> is written out.
\<close>

section \<open>Faults and results\<close>

text \<open>
  What ends a run of the C code early: \<open>panic\<close> (the process aborts with a message), or an
  operation that C leaves undefined, named by what the code did.
\<close>

datatype fault = Panic string | Undefined string

type_synonym 'a result = "fault + 'a"

definition size_max :: nat where
  "size_max = 2 ^ 64 - 1"

section \<open>Simp collections\<close>

named_theorems mem_simps \<open>raw memory copies on lists\<close>
named_theorems heap_simps \<open>frame rules of the pointer structures\<close>
named_theorems int_simps \<open>fixed-width integers\<close>

section \<open>Raw memory on lists\<close>

text \<open>
  \<open>blit dst d xs\<close> is \<open>memcpy(dst + d, xs, n)\<close> (or \<open>memmove\<close> with the source read before the
  write): the cells \<open>d, \<dots>, d + length xs - 1\<close> of \<open>dst\<close> are replaced by \<open>xs\<close>.
\<close>

definition blit :: "'a list \<Rightarrow> nat \<Rightarrow> 'a list \<Rightarrow> 'a list" where
  "blit dst d xs = take d dst @ xs @ drop (d + length xs) dst"

text \<open>\<open>slice xs i n\<close>: the \<open>n\<close> cells from index \<open>i\<close>.\<close>

definition slice :: "'a list \<Rightarrow> nat \<Rightarrow> nat \<Rightarrow> 'a list" where
  "slice xs i n = take n (drop i xs)"

lemma length_blit [mem_simps]: "d + length xs \<le> length dst \<Longrightarrow> length (blit dst d xs) = length dst"
  by (simp add: blit_def)

lemma length_slice [mem_simps]: "i + n \<le> length xs \<Longrightarrow> length (slice xs i n) = n"
  by (simp add: slice_def)

lemma take_blit_below [mem_simps]: "n \<le> d \<Longrightarrow> d \<le> length dst \<Longrightarrow> take n (blit dst d xs) = take n dst"
  by (simp add: blit_def)

lemma take_blit_exact [mem_simps]:
  "d \<le> length dst \<Longrightarrow> take (d + length xs) (blit dst d xs) = take d dst @ xs"
  by (simp add: blit_def)

lemma blit_0 [mem_simps]: "blit dst 0 xs = xs @ drop (length xs) dst"
  by (simp add: blit_def)

lemma nth_slice: "k < n \<Longrightarrow> i + n \<le> length xs \<Longrightarrow> slice xs i n ! k = xs ! (i + k)"
  by (simp add: slice_def)

section \<open>Maps and options\<close>

lemma bind_Some_iff: "Option.bind x f = Some y \<longleftrightarrow> (\<exists>a. x = Some a \<and> f a = Some y)"
  by (cases x) auto

lemma takeWhile_append_stop:
  "\<forall>x \<in> set xs. P x \<Longrightarrow> \<not> P y \<Longrightarrow> takeWhile P (xs @ y # ys) = xs"
  by (induction xs) auto

lemma dropWhile_append_stop:
  "\<forall>x \<in> set xs. P x \<Longrightarrow> \<not> P y \<Longrightarrow> dropWhile P (xs @ y # ys) = y # ys"
  by (induction xs) auto

section \<open>Characters as numbers\<close>

lemma of_char_int_eq: "(of_char c :: int) = of_char d \<longleftrightarrow> c = d"
  by (metis of_char_eq_iff of_nat_of_char of_nat_eq_iff)

lemma of_char_nonneg: "0 \<le> (of_char c :: int)"
  by (simp add: of_char_def)

end
