(* ===== verification/FfiCond.thy ===== *)
theory FfiCond
  imports Prelude
begin

text \<open>
  The condition suffix of FFI declarations (\<open>src/core/ffi_cond.c\<close>): the process-wide table of
  injected keys and the little language \<open>KEY == "value" && (\<dots>) || \<dots>\<close> that prunes
  \<open>extern lib\<close> declarations. The table is an association list in insertion order; the parser
  state is the C struct \<open>ffi_parse_t\<close>, with the error buffer replaced by the first error and
  its offset (the code formats that error into the caller's buffer and ignores later ones).
\<close>

section \<open>The table of injected keys\<close>

definition FFI_DEFINES_MAX :: nat where "FFI_DEFINES_MAX = 64"
definition FFI_DEFINES_KEY_MAX :: nat where "FFI_DEFINES_KEY_MAX = 64"
definition FFI_DEFINES_VALUE_MAX :: nat where "FFI_DEFINES_VALUE_MAX = 256"

record ffi_defines =
  g_defines :: "(string \<times> string) list"
  g_defines_ready :: bool

definition char_between :: "char \<Rightarrow> char \<Rightarrow> char \<Rightarrow> bool" where
  "char_between lo hi c \<longleftrightarrow> (of_char lo :: nat) \<le> of_char c \<and> of_char c \<le> (of_char hi :: nat)"

definition is_ident_start :: "char \<Rightarrow> bool" where
  "is_ident_start c \<longleftrightarrow> char_between CHR ''A'' CHR ''Z'' c \<or> char_between CHR ''a'' CHR ''z'' c
     \<or> c = CHR ''_''"

definition is_ident_char :: "char \<Rightarrow> bool" where
  "is_ident_char c \<longleftrightarrow> is_ident_start c \<or> char_between CHR ''0'' CHR ''9'' c"

fun is_ident :: "string option \<Rightarrow> bool" where
  "is_ident None = False"
| "is_ident (Some []) = False"
| "is_ident (Some (c # cs)) \<longleftrightarrow> is_ident_start c \<and> list_all is_ident_char cs"

text \<open>\<open>snprintf(buf, cap, "%s", s)\<close> keeps the first \<open>cap - 1\<close> bytes.\<close>

definition snprintf_s :: "nat \<Rightarrow> string \<Rightarrow> string" where
  "snprintf_s cap s = take (cap - 1) s"

fun overwrite :: "string \<Rightarrow> string \<Rightarrow> (string \<times> string) list \<Rightarrow> (string \<times> string) list option" where
  "overwrite key v [] = None"
| "overwrite key v ((k, w) # ds) =
     (if k = key then Some ((k, snprintf_s FFI_DEFINES_VALUE_MAX v) # ds)
      else map_option ((#) (k, w)) (overwrite key v ds))"

text \<open>The C result code is 0 for success and 1 for a refused key, value or a full table.\<close>

definition defines_put :: "ffi_defines \<Rightarrow> string option \<Rightarrow> string option \<Rightarrow> nat \<times> ffi_defines" where
  "defines_put st key value =
     (if \<not> is_ident key \<or> length (the key) \<ge> FFI_DEFINES_KEY_MAX then (1, st)
      else let v = (case value of None \<Rightarrow> '''' | Some w \<Rightarrow> w) in
        if length v \<ge> FFI_DEFINES_VALUE_MAX then (1, st)
        else case overwrite (the key) v (g_defines st) of
          Some ds \<Rightarrow> (0, st\<lparr>g_defines := ds\<rparr>)
        | None \<Rightarrow>
            if length (g_defines st) \<ge> FFI_DEFINES_MAX then (1, st)
            else (0, st\<lparr>g_defines := g_defines st @
                   [(snprintf_s FFI_DEFINES_KEY_MAX (the key), snprintf_s FFI_DEFINES_VALUE_MAX v)]\<rparr>))"

text \<open>The predefined macros of the C compiler that select the built-in values.\<close>

record target =
  def_win32 :: bool
  ptr_size :: nat
  def_apple :: bool
  def_linux :: bool
  def_bsd :: bool
  def_x86_64 :: bool
  def_aarch64 :: bool
  def_i386 :: bool
  def_arm :: bool

definition os_type_of :: "target \<Rightarrow> string" where
  "os_type_of t = (if def_win32 t then (if ptr_size t = 8 then ''WIN64'' else ''WIN32'')
     else if def_apple t then ''MACOS'' else if def_linux t then ''LINUX''
     else if def_bsd t then ''BSD'' else ''UNKNOWN'')"

definition os_arch_of :: "target \<Rightarrow> string" where
  "os_arch_of t = (if def_x86_64 t then ''X64'' else if def_aarch64 t then ''ARM64''
     else if def_i386 t then ''X86'' else if def_arm t then ''ARM'' else ''UNKNOWN'')"

definition ffi_defines_add_builtins :: "target \<Rightarrow> ffi_defines \<Rightarrow> ffi_defines" where
  "ffi_defines_add_builtins t st =
     (let st1 = snd (defines_put st (Some ''OS_TYPE'') (Some (os_type_of t)));
          st2 = snd (defines_put st1 (Some ''OS_ARCH'') (Some (os_arch_of t)))
      in st2\<lparr>g_defines_ready := True\<rparr>)"

definition ffi_defines_reset :: "target \<Rightarrow> ffi_defines \<Rightarrow> ffi_defines" where
  "ffi_defines_reset t st =
     ffi_defines_add_builtins t (st\<lparr>g_defines := [], g_defines_ready := False\<rparr>)"

definition defines_ensure_ready :: "target \<Rightarrow> ffi_defines \<Rightarrow> ffi_defines" where
  "defines_ensure_ready t st = (if \<not> g_defines_ready st then ffi_defines_add_builtins t st else st)"

definition ffi_defines_add :: "target \<Rightarrow> ffi_defines \<Rightarrow> string option \<Rightarrow> string option
    \<Rightarrow> nat \<times> ffi_defines" where
  "ffi_defines_add t st key value = defines_put (defines_ensure_ready t st) key value"

text \<open>\<open>strchr\<close>: the suffix that starts at the first occurrence of the character.\<close>

definition strchr :: "string \<Rightarrow> char \<Rightarrow> string option" where
  "strchr s c = (case dropWhile (\<lambda>x. x \<noteq> c) s of [] \<Rightarrow> None | t \<Rightarrow> Some t)"

definition ffi_defines_add_kv :: "target \<Rightarrow> ffi_defines \<Rightarrow> string option \<Rightarrow> nat \<times> ffi_defines" where
  "ffi_defines_add_kv t st kv =
     (case kv of None \<Rightarrow> (1, st)
      | Some s \<Rightarrow>
        if s = [] then (1, st)
        else case strchr s CHR ''='' of None \<Rightarrow> (1, st)
        | Some eq \<Rightarrow>
          let klen = length s - length eq in
          if klen = 0 then (1, st)
          else if klen \<ge> FFI_DEFINES_KEY_MAX then (1, st)
          else ffi_defines_add t st (Some (take klen s)) (Some (tl eq)))"

definition ffi_defines_get :: "target \<Rightarrow> ffi_defines \<Rightarrow> string option \<Rightarrow> string option \<times> ffi_defines" where
  "ffi_defines_get t st key =
     (case key of None \<Rightarrow> (None, st)
      | Some k \<Rightarrow> let st' = defines_ensure_ready t st in (map_of (g_defines st') k, st'))"

definition ffi_defines_count :: "ffi_defines \<Rightarrow> nat" where
  "ffi_defines_count st = length (g_defines st)"

definition ffi_defines_key_at :: "ffi_defines \<Rightarrow> nat \<Rightarrow> string option" where
  "ffi_defines_key_at st i =
     (if i \<ge> length (g_defines st) then None else Some (fst (g_defines st ! i)))"

section \<open>Tokens of the condition language\<close>

datatype ffi_tok = FFI_TOK_END | FFI_TOK_IDENT | FFI_TOK_STRING | FFI_TOK_EQ | FFI_TOK_NE
  | FFI_TOK_AND | FFI_TOK_OR | FFI_TOK_LPAREN | FFI_TOK_RPAREN | FFI_TOK_ERROR

text \<open>\<open>tk_text\<close> is the \<open>len\<close> bytes at \<open>begin\<close> (empty where the code leaves \<open>begin\<close> NULL).\<close>

record ffi_token =
  tk_kind :: ffi_tok
  tk_text :: string
  tk_pos :: nat

datatype cond_error = Unterminated_string | Unexpected_character char | Expected_rparen
  | Expected_key | Expected_op string | Expected_string bool | Unknown_define string
  | Trailing_token | Empty_condition

record ffi_parse =
  p_text :: string
  p_pos :: nat
  p_cur :: ffi_token
  p_check_keys :: bool
  p_err :: "(cond_error \<times> nat) option"
  p_failed :: bool

definition cond_err :: "ffi_parse \<Rightarrow> nat \<Rightarrow> cond_error \<Rightarrow> ffi_parse" where
  "cond_err p pos e = (if p_failed p then p else p\<lparr>p_failed := True, p_err := Some (e, pos)\<rparr>)"

definition is_ws :: "char \<Rightarrow> bool" where
  "is_ws c \<longleftrightarrow> c = CHR '' '' \<or> c = CHR 0x09 \<or> c = CHR 0x0D \<or> c = CHR 0x0A"

definition skip_ws :: "ffi_parse \<Rightarrow> ffi_parse" where
  "skip_ws p = p\<lparr>p_pos := p_pos p + length (takeWhile is_ws (drop (p_pos p) (p_text p)))\<rparr>"

text \<open>
  One token, read from the \<open>remain\<close> bytes at the cursor: its kind, its content, the bytes it
  takes, and the error it raises (the two error cases consume nothing).
\<close>

definition scan_token :: "string \<Rightarrow> ffi_tok \<times> string \<times> nat \<times> cond_error option" where
  "scan_token s =
     (if s = [] then (FFI_TOK_END, [], 0, None)
      else if is_ident_start (hd s) then
        let w = takeWhile is_ident_char s in (FFI_TOK_IDENT, w, length w, None)
      else if hd s = CHR 0x22 then
        let w = takeWhile (\<lambda>c. c \<noteq> CHR 0x22) (tl s); n = 1 + length w in
        if n \<ge> length s then (FFI_TOK_ERROR, [], 0, Some Unterminated_string)
        else (FFI_TOK_STRING, w, n + 1, None)
      else if take 2 s = ''=='' then (FFI_TOK_EQ, [], 2, None)
      else if take 2 s = ''!='' then (FFI_TOK_NE, [], 2, None)
      else if take 2 s = ''&&'' then (FFI_TOK_AND, [], 2, None)
      else if take 2 s = ''||'' then (FFI_TOK_OR, [], 2, None)
      else if hd s = CHR ''('' then (FFI_TOK_LPAREN, [], 1, None)
      else if hd s = CHR '')'' then (FFI_TOK_RPAREN, [], 1, None)
      else (FFI_TOK_ERROR, [], 0, Some (Unexpected_character (hd s))))"

definition next_token :: "ffi_parse \<Rightarrow> ffi_parse" where
  "next_token p0 =
     (let p = skip_ws p0; pos = p_pos p in
      case scan_token (drop pos (p_text p)) of (k, t, n, e) \<Rightarrow>
        (case e of None \<Rightarrow> p | Some err \<Rightarrow> cond_err p pos err)
          \<lparr>p_cur := \<lparr>tk_kind = k, tk_text = t, tk_pos = pos\<rparr>, p_pos := pos + n\<rparr>)"

section \<open>Recursive-descent evaluation\<close>

text \<open>
  The C functions return a success flag and write the value through \<open>out\<close>; here a result is
  \<open>(Some value, state)\<close> on success and \<open>(None, state)\<close> on failure. The mutual recursion and the
  two \<open>while\<close> loops spend one unit of fuel per call; \<open>None\<close> of the outer option is "out of fuel",
  excluded for the fuel \<open>cond_run\<close> supplies by \<open>parse_or_enough\<close>.
\<close>

type_synonym cond_res = "bool option \<times> ffi_parse"

text \<open>The key test of \<open>parse_cmp\<close>, after the three tokens have been read.\<close>

definition cmp_value :: "(string \<Rightarrow> string option) \<Rightarrow> string \<Rightarrow> nat \<Rightarrow> bool \<Rightarrow> string \<Rightarrow> ffi_parse
    \<Rightarrow> cond_res" where
  "cmp_value env key key_pos want_equal value p =
     (if \<not> p_check_keys p then (Some True, p)
      else case env key of
        None \<Rightarrow> (None, cond_err p key_pos (Unknown_define key))
      | Some actual \<Rightarrow>
          let equal = (actual = value) in (Some (if want_equal then equal else \<not> equal), p))"

definition parse_key :: "(string \<Rightarrow> string option) \<Rightarrow> ffi_parse \<Rightarrow> cond_res" where
  "parse_key env p =
     (if tk_kind (p_cur p) \<noteq> FFI_TOK_IDENT
      then (None, cond_err p (tk_pos (p_cur p)) Expected_key)
      else let key = take (FFI_DEFINES_KEY_MAX - 1) (tk_text (p_cur p));
               key_pos = tk_pos (p_cur p); p1 = next_token p in
        if tk_kind (p_cur p1) \<noteq> FFI_TOK_EQ \<and> tk_kind (p_cur p1) \<noteq> FFI_TOK_NE
        then (None, cond_err p1 (tk_pos (p_cur p1)) (Expected_op key))
        else let want_equal = (tk_kind (p_cur p1) = FFI_TOK_EQ); p2 = next_token p1 in
          if tk_kind (p_cur p2) \<noteq> FFI_TOK_STRING
          then (None, cond_err p2 (tk_pos (p_cur p2)) (Expected_string want_equal))
          else let value = take (FFI_DEFINES_VALUE_MAX - 1) (tk_text (p_cur p2));
                   p3 = next_token p2 in
            cmp_value env key key_pos want_equal value p3)"

fun parse_cmp :: "nat \<Rightarrow> (string \<Rightarrow> string option) \<Rightarrow> ffi_parse \<Rightarrow> cond_res option"
and parse_and :: "nat \<Rightarrow> (string \<Rightarrow> string option) \<Rightarrow> ffi_parse \<Rightarrow> cond_res option"
and and_loop :: "nat \<Rightarrow> (string \<Rightarrow> string option) \<Rightarrow> bool \<Rightarrow> ffi_parse \<Rightarrow> cond_res option"
and parse_or :: "nat \<Rightarrow> (string \<Rightarrow> string option) \<Rightarrow> ffi_parse \<Rightarrow> cond_res option"
and or_loop :: "nat \<Rightarrow> (string \<Rightarrow> string option) \<Rightarrow> bool \<Rightarrow> ffi_parse \<Rightarrow> cond_res option"
where
  "parse_cmp 0 env p = None"
| "parse_cmp (Suc f) env p =
     (if p_failed p then Some (None, p)
      else if tk_kind (p_cur p) = FFI_TOK_LPAREN then
        (case parse_or f env (next_token p) of
           None \<Rightarrow> None
         | Some (None, p1) \<Rightarrow> Some (None, p1)
         | Some (Some v, p1) \<Rightarrow>
             if tk_kind (p_cur p1) \<noteq> FFI_TOK_RPAREN
             then Some (None, cond_err p1 (tk_pos (p_cur p1)) Expected_rparen)
             else Some (Some v, next_token p1))
      else Some (parse_key env p))"
| "parse_and 0 env p = None"
| "parse_and (Suc f) env p =
     (case parse_cmp f env p of
        None \<Rightarrow> None
      | Some (None, p1) \<Rightarrow> Some (None, p1)
      | Some (Some lhs, p1) \<Rightarrow> and_loop f env lhs p1)"
| "and_loop 0 env lhs p = None"
| "and_loop (Suc f) env lhs p =
     (if tk_kind (p_cur p) = FFI_TOK_AND \<and> \<not> p_failed p then
        (case parse_cmp f env (next_token p) of
           None \<Rightarrow> None
         | Some (None, p1) \<Rightarrow> Some (None, p1)
         | Some (Some rhs, p1) \<Rightarrow> and_loop f env (lhs \<and> rhs) p1)
      else Some (Some lhs, p))"
| "parse_or 0 env p = None"
| "parse_or (Suc f) env p =
     (case parse_and f env p of
        None \<Rightarrow> None
      | Some (None, p1) \<Rightarrow> Some (None, p1)
      | Some (Some lhs, p1) \<Rightarrow> or_loop f env lhs p1)"
| "or_loop 0 env lhs p = None"
| "or_loop (Suc f) env lhs p =
     (if tk_kind (p_cur p) = FFI_TOK_OR \<and> \<not> p_failed p then
        (case parse_and f env (next_token p) of
           None \<Rightarrow> None
         | Some (None, p1) \<Rightarrow> Some (None, p1)
         | Some (Some rhs, p1) \<Rightarrow> or_loop f env (lhs \<or> rhs) p1)
      else Some (Some lhs, p))"

definition cond_start :: "string \<Rightarrow> bool \<Rightarrow> ffi_parse" where
  "cond_start text check_keys =
     \<lparr>p_text = text, p_pos = 0, p_cur = \<lparr>tk_kind = FFI_TOK_END, tk_text = [], tk_pos = 0\<rparr>,
      p_check_keys = check_keys, p_err = None, p_failed = False\<rparr>"

text \<open>\<open>Inl\<close> is the error the code leaves in the caller's buffer, \<open>Inr\<close> the value of \<open>*out\<close>.\<close>

definition cond_run :: "(string \<Rightarrow> string option) \<Rightarrow> string option \<Rightarrow> bool
    \<Rightarrow> (cond_error \<times> nat) option + bool" where
  "cond_run env text check_keys =
     (case text of None \<Rightarrow> Inl (Some (Empty_condition, 0))
      | Some s \<Rightarrow>
        if s = [] then Inl (Some (Empty_condition, 0))
        else case parse_or (10 * length s + 15) env (next_token (cond_start s check_keys)) of
          None \<Rightarrow> Inl None
        | Some (None, p) \<Rightarrow> Inl (p_err p)
        | Some (Some v, p) \<Rightarrow>
            let p' = (if \<not> p_failed p \<and> tk_kind (p_cur p) \<noteq> FFI_TOK_END
                      then cond_err p (tk_pos (p_cur p)) Trailing_token else p) in
            if p_failed p' then Inl (p_err p') else Inr v)"

definition ffi_cond_validate :: "string option \<Rightarrow> (cond_error \<times> nat) option + bool" where
  "ffi_cond_validate text = cond_run (\<lambda>_. None) text False"

text \<open>
  Evaluation reads the table through \<open>ffi_defines_get\<close>, which writes the built-in keys first if
  that has not happened yet; the table it leaves does not depend on how many keys are read.
\<close>

definition ffi_cond_eval :: "target \<Rightarrow> ffi_defines \<Rightarrow> string option
    \<Rightarrow> (cond_error \<times> nat) option + bool" where
  "ffi_cond_eval t st text = cond_run (\<lambda>k. fst (ffi_defines_get t st (Some k))) text True"


section \<open>Fuel\<close>

lemma skip_ws_fields [simp]:
  "p_text (skip_ws p) = p_text p" "p_check_keys (skip_ws p) = p_check_keys p"
  "p_failed (skip_ws p) = p_failed p" "p_err (skip_ws p) = p_err p" "p_cur (skip_ws p) = p_cur p"
  "p_pos p \<le> p_pos (skip_ws p)"
  by (simp_all add: skip_ws_def)

lemma cond_err_fields [simp]:
  "p_text (cond_err p n e) = p_text p" "p_check_keys (cond_err p n e) = p_check_keys p"
  "p_pos (cond_err p n e) = p_pos p" "p_cur (cond_err p n e) = p_cur p" "p_failed (cond_err p n e)"
  by (simp_all add: cond_err_def)

lemma next_token_fields [simp]:
  "p_text (next_token p) = p_text p" "p_check_keys (next_token p) = p_check_keys p"
  by (simp_all add: next_token_def Let_def split: prod.splits option.splits)

definition stops :: "ffi_tok \<Rightarrow> bool" where
  "stops k \<longleftrightarrow> k = FFI_TOK_END \<or> k = FFI_TOK_ERROR"

definition left :: "ffi_parse \<Rightarrow> nat" where
  "left p = 2 * (length (p_text p) - p_pos p) + (if stops (tk_kind (p_cur p)) then 0 else 1)"

lemma scan_token_advances:
  "scan_token s = (k, t, n, e) \<Longrightarrow> stops k \<or> 0 < n \<and> s \<noteq> []"
  by (cases s) (auto simp: scan_token_def Let_def stops_def is_ident_char_def split: if_splits)

lemma next_token_advances:
  "p_pos p \<le> p_pos (next_token p) \<and>
   (stops (tk_kind (p_cur (next_token p))) \<or>
    p_pos p < p_pos (next_token p) \<and> p_pos p < length (p_text p))"
proof -
  obtain k t n e where sc: "scan_token (drop (p_pos (skip_ws p)) (p_text p)) = (k, t, n, e)"
    by (metis prod_cases4)
  have pos: "p_pos (next_token p) = p_pos (skip_ws p) + n" and kind: "tk_kind (p_cur (next_token p)) = k"
    by (simp_all add: next_token_def Let_def sc split: option.splits)
  have "p_pos (skip_ws p) = p_pos p + length (takeWhile is_ws (drop (p_pos p) (p_text p)))"
    by (simp add: skip_ws_def)
  with scan_token_advances [OF sc] pos kind show ?thesis by auto
qed

lemma left_next: "\<not> stops (tk_kind (p_cur p)) \<Longrightarrow> left (next_token p) < left p"
  using next_token_advances [of p] by (auto simp: left_def)

lemma parse_key_left: "parse_key env p = (Some v, p') \<Longrightarrow> left p' \<le> left p"
proof -
  assume r: "parse_key env p = (Some v, p')"
  let ?p1 = "next_token p" let ?p2 = "next_token ?p1" let ?p3 = "next_token ?p2"
  from r have k: "tk_kind (p_cur p) = FFI_TOK_IDENT"
      "tk_kind (p_cur ?p1) = FFI_TOK_EQ \<or> tk_kind (p_cur ?p1) = FFI_TOK_NE"
      "tk_kind (p_cur ?p2) = FFI_TOK_STRING" and p': "p' = ?p3"
    by (auto simp: parse_key_def cmp_value_def Let_def split: if_splits option.splits)
  from k have "left ?p1 < left p" "left ?p2 < left ?p1" "left ?p3 < left ?p2"
    by (auto intro!: left_next simp: stops_def)
  with p' show ?thesis by simp
qed

lemma parse_enough:
  "(5 * left p + 1 \<le> f \<longrightarrow> (\<exists>r p'. parse_cmp f env p = Some (r, p') \<and> (r \<noteq> None \<longrightarrow> left p' \<le> left p))) \<and>
   (5 * left p + 2 \<le> f \<longrightarrow> (\<exists>r p'. parse_and f env p = Some (r, p') \<and> (r \<noteq> None \<longrightarrow> left p' \<le> left p))) \<and>
   (5 * left p + 1 \<le> f \<longrightarrow> (\<exists>r p'. and_loop f env v p = Some (r, p') \<and> (r \<noteq> None \<longrightarrow> left p' \<le> left p))) \<and>
   (5 * left p + 3 \<le> f \<longrightarrow> (\<exists>r p'. parse_or f env p = Some (r, p') \<and> (r \<noteq> None \<longrightarrow> left p' \<le> left p))) \<and>
   (5 * left p + 1 \<le> f \<longrightarrow> (\<exists>r p'. or_loop f env v p = Some (r, p') \<and> (r \<noteq> None \<longrightarrow> left p' \<le> left p)))"
proof (induction f arbitrary: p v)
  case 0
  then show ?case by simp
next
  case (Suc f)
  note cmp = Suc.IH [THEN conjunct1, rule_format]
  note conj = Suc.IH [THEN conjunct2, THEN conjunct1, rule_format]
  note cl = Suc.IH [THEN conjunct2, THEN conjunct2, THEN conjunct1, rule_format]
  note disj = Suc.IH [THEN conjunct2, THEN conjunct2, THEN conjunct2, THEN conjunct1, rule_format]
  note dl = Suc.IH [THEN conjunct2, THEN conjunct2, THEN conjunct2, THEN conjunct2, rule_format]
  have step: "left (next_token q) < left q" if "tk_kind (p_cur q) \<in> {FFI_TOK_LPAREN, FFI_TOK_RPAREN, FFI_TOK_AND, FFI_TOK_OR}" for q
    using that by (intro left_next) (auto simp: stops_def)
  have c1: "\<exists>r p'. parse_cmp (Suc f) env p = Some (r, p') \<and> (r \<noteq> None \<longrightarrow> left p' \<le> left p)"
    if "5 * left p + 1 \<le> Suc f"
  proof (cases "tk_kind (p_cur p) = FFI_TOK_LPAREN \<and> \<not> p_failed p")
    case True
    with step have lt: "left (next_token p) < left p" by auto
    with that disj [of "next_token p"] obtain r p1 where
      r: "parse_or f env (next_token p) = Some (r, p1)" "r \<noteq> None \<longrightarrow> left p1 \<le> left (next_token p)"
      by auto
    show ?thesis
      using True r lt step [of p1] by (cases r) (auto intro: less_imp_le dest: order.strict_trans)
  next
    case False
    then show ?thesis
      by (cases "parse_key env p") (auto dest: parse_key_left)
  qed
  have c2: "\<exists>r p'. parse_and (Suc f) env p = Some (r, p') \<and> (r \<noteq> None \<longrightarrow> left p' \<le> left p)"
    if "5 * left p + 2 \<le> Suc f"
  proof -
    from that cmp [of p] obtain r p1 where
      r: "parse_cmp f env p = Some (r, p1)" "r \<noteq> None \<longrightarrow> left p1 \<le> left p" by auto
    show ?thesis
      using that r cl [of p1] by (cases r) (fastforce)+
  qed
  have c3: "\<exists>r p'. and_loop (Suc f) env v p = Some (r, p') \<and> (r \<noteq> None \<longrightarrow> left p' \<le> left p)"
    if "5 * left p + 1 \<le> Suc f"
  proof (cases "tk_kind (p_cur p) = FFI_TOK_AND \<and> \<not> p_failed p")
    case True
    with step have lt: "left (next_token p) < left p" by auto
    with that cmp [of "next_token p"] obtain r p1 where
      r: "parse_cmp f env (next_token p) = Some (r, p1)" "r \<noteq> None \<longrightarrow> left p1 \<le> left (next_token p)"
      by auto
    show ?thesis
      using True that r lt cl [of p1] by (cases r) (fastforce)+
  next
    case False
    then show ?thesis by auto
  qed
  have c4: "\<exists>r p'. parse_or (Suc f) env p = Some (r, p') \<and> (r \<noteq> None \<longrightarrow> left p' \<le> left p)"
    if "5 * left p + 3 \<le> Suc f"
  proof -
    from that conj [of p] obtain r p1 where
      r: "parse_and f env p = Some (r, p1)" "r \<noteq> None \<longrightarrow> left p1 \<le> left p" by auto
    show ?thesis
      using that r dl [of p1] by (cases r) (fastforce)+
  qed
  have c5: "\<exists>r p'. or_loop (Suc f) env v p = Some (r, p') \<and> (r \<noteq> None \<longrightarrow> left p' \<le> left p)"
    if "5 * left p + 1 \<le> Suc f"
  proof (cases "tk_kind (p_cur p) = FFI_TOK_OR \<and> \<not> p_failed p")
    case True
    with step have lt: "left (next_token p) < left p" by auto
    with that conj [of "next_token p"] obtain r p1 where
      r: "parse_and f env (next_token p) = Some (r, p1)" "r \<noteq> None \<longrightarrow> left p1 \<le> left (next_token p)"
      by auto
    show ?thesis
      using True that r lt dl [of p1] by (cases r) (fastforce)+
  next
    case False
    then show ?thesis by auto
  qed
  from c1 c2 c3 c4 c5 show ?case by blast
qed

lemma parse_or_enough:
  "5 * left p + 3 \<le> f \<Longrightarrow> \<exists>r p'. parse_or f env p = Some (r, p')"
  using parse_enough [of p f env] by blast

lemma start_enough:
  "\<exists>r p'. parse_or (10 * length s + 15) env (next_token (cond_start s b)) = Some (r, p')"
proof -
  have "left (next_token (cond_start s b)) \<le> 2 * length s + 1"
    by (auto simp: left_def cond_start_def intro: le_SucI)
  then show ?thesis by (intro parse_or_enough) simp
qed

lemmas parse_unfold = parse_cmp.simps(2) parse_and.simps(2) and_loop.simps(2) parse_or.simps(2)
  or_loop.simps(2)

declare parse_cmp.simps(2) [simp del] parse_and.simps(2) [simp del] and_loop.simps(2) [simp del]
  parse_or.simps(2) [simp del] or_loop.simps(2) [simp del]

text \<open>\<open>fuel_le f g\<close>: every result reached with fuel \<open>f\<close> is reached with fuel \<open>g\<close>.\<close>

definition fuel_le :: "(string \<Rightarrow> string option) \<Rightarrow> nat \<Rightarrow> nat \<Rightarrow> bool" where
  "fuel_le env f g \<longleftrightarrow>
     (\<forall>p r. parse_cmp f env p = Some r \<longrightarrow> parse_cmp g env p = Some r) \<and>
     (\<forall>p r. parse_and f env p = Some r \<longrightarrow> parse_and g env p = Some r) \<and>
     (\<forall>v p r. and_loop f env v p = Some r \<longrightarrow> and_loop g env v p = Some r) \<and>
     (\<forall>p r. parse_or f env p = Some r \<longrightarrow> parse_or g env p = Some r) \<and>
     (\<forall>v p r. or_loop f env v p = Some r \<longrightarrow> or_loop g env v p = Some r)"

lemma fuel_leD:
  assumes "fuel_le env f g"
  shows "parse_cmp f env p = Some r \<Longrightarrow> parse_cmp g env p = Some r"
    and "parse_and f env p = Some r \<Longrightarrow> parse_and g env p = Some r"
    and "and_loop f env v p = Some r \<Longrightarrow> and_loop g env v p = Some r"
    and "parse_or f env p = Some r \<Longrightarrow> parse_or g env p = Some r"
    and "or_loop f env v p = Some r \<Longrightarrow> or_loop g env v p = Some r"
  using assms unfolding fuel_le_def by blast+

lemma fuel_le_Suc:
  assumes "fuel_le env f g"
  shows "fuel_le env (Suc f) (Suc g)"
proof -
  note IH = fuel_leD [OF assms]
  show ?thesis
    unfolding fuel_le_def parse_unfold
    by (intro conjI allI impI; auto split: if_splits option.split_asm prod.split_asm dest!: IH)
qed

lemma fuel_le_mono: "f \<le> g \<Longrightarrow> fuel_le env f g"
proof (induction f arbitrary: g)
  case 0
  then show ?case by (simp add: fuel_le_def)
next
  case (Suc f)
  then obtain g' where "g = Suc g'" "f \<le> g'" by (cases g) auto
  then show ?case by (auto intro: fuel_le_Suc Suc.IH)
qed

lemma parse_or_det:
  assumes "parse_or f env p = Some r" and "parse_or g env p = Some r'"
  shows "r = r'"
proof -
  have "parse_or (f + g) env p = Some r" "parse_or (f + g) env p = Some r'"
    using fuel_leD(4) [OF fuel_le_mono] assms by (meson le_add1 le_add2)+
  then show ?thesis by simp
qed

section \<open>The language: conditions, their meaning, their text\<close>

text \<open>
  \<open>Key_cmp k True v\<close> is \<open>k == "v"\<close>, with \<open>False\<close> it is \<open>k != "v"\<close>. The meaning is strict in
  unknown keys: a condition that mentions one has no value, also where C's \<open>||\<close> would not look
  at it.
\<close>

datatype cond = Key_cmp string bool string | Conj cond cond | Disj cond cond

fun cond_value :: "(string \<Rightarrow> string option) \<Rightarrow> cond \<Rightarrow> bool option" where
  "cond_value env (Key_cmp k eq v) =
     (case env k of None \<Rightarrow> None | Some w \<Rightarrow> Some (if eq then w = v else w \<noteq> v))"
| "cond_value env (Conj a b) =
     (case (cond_value env a, cond_value env b) of (Some x, Some y) \<Rightarrow> Some (x \<and> y) | _ \<Rightarrow> None)"
| "cond_value env (Disj a b) =
     (case (cond_value env a, cond_value env b) of (Some x, Some y) \<Rightarrow> Some (x \<or> y) | _ \<Rightarrow> None)"

fun cond_keys :: "cond \<Rightarrow> string set" where
  "cond_keys (Key_cmp k eq v) = {k}"
| "cond_keys (Conj a b) = cond_keys a \<union> cond_keys b"
| "cond_keys (Disj a b) = cond_keys a \<union> cond_keys b"

text \<open>The conditions whose keys and values fit the parser's buffers.\<close>

fun cond_fits :: "cond \<Rightarrow> bool" where
  "cond_fits (Key_cmp k eq v) \<longleftrightarrow> is_ident (Some k) \<and> length k < FFI_DEFINES_KEY_MAX
     \<and> CHR 0x22 \<notin> set v \<and> length v < FFI_DEFINES_VALUE_MAX"
| "cond_fits (Conj a b) \<longleftrightarrow> cond_fits a \<and> cond_fits b"
| "cond_fits (Disj a b) \<longleftrightarrow> cond_fits a \<and> cond_fits b"

text \<open>
  The text of a condition at precedence level \<open>d\<close> (0: \<open>||\<close>, 1: \<open>&&\<close>, 2: comparison), with
  parentheses only where the level asks for them, followed by the text \<open>r\<close>.
\<close>

fun cond_text :: "nat \<Rightarrow> cond \<Rightarrow> string \<Rightarrow> string" where
  "cond_text d (Key_cmp k eq v) r =
     k @ (if eq then '' == '' else '' != '') @ CHR 0x22 # v @ CHR 0x22 # r"
| "cond_text d (Conj a b) r =
     (if d > 1 then ''('' @ cond_text 1 a ('' && '' @ cond_text 2 b ('')'' @ r))
      else cond_text 1 a ('' && '' @ cond_text 2 b r))"
| "cond_text d (Disj a b) r =
     (if d > 0 then ''('' @ cond_text 0 a ('' || '' @ cond_text 1 b ('')'' @ r))
      else cond_text 0 a ('' || '' @ cond_text 1 b r))"

text \<open>The tokens of that text, and what it means that a parser state is about to read them.\<close>

fun cond_toks :: "nat \<Rightarrow> cond \<Rightarrow> (ffi_tok \<times> string) list \<Rightarrow> (ffi_tok \<times> string) list" where
  "cond_toks d (Key_cmp k eq v) ts =
     (FFI_TOK_IDENT, k) # (if eq then FFI_TOK_EQ else FFI_TOK_NE, []) # (FFI_TOK_STRING, v) # ts"
| "cond_toks d (Conj a b) ts =
     (if d > 1 then (FFI_TOK_LPAREN, []) #
        cond_toks 1 a ((FFI_TOK_AND, []) # cond_toks 2 b ((FFI_TOK_RPAREN, []) # ts))
      else cond_toks 1 a ((FFI_TOK_AND, []) # cond_toks 2 b ts))"
| "cond_toks d (Disj a b) ts =
     (if d > 0 then (FFI_TOK_LPAREN, []) #
        cond_toks 0 a ((FFI_TOK_OR, []) # cond_toks 1 b ((FFI_TOK_RPAREN, []) # ts))
      else cond_toks 0 a ((FFI_TOK_OR, []) # cond_toks 1 b ts))"

fun feeds :: "(ffi_tok \<times> string) list \<Rightarrow> ffi_parse \<Rightarrow> bool" where
  "feeds [] p \<longleftrightarrow> tk_kind (p_cur p) = FFI_TOK_END \<and> \<not> p_failed p"
| "feeds ((k, t) # ts) p \<longleftrightarrow> tk_kind (p_cur p) = k \<and> tk_text (p_cur p) = t \<and> \<not> p_failed p
     \<and> feeds ts (next_token p)"

definition lexes :: "string \<Rightarrow> (ffi_tok \<times> string) list \<Rightarrow> bool" where
  "lexes s ts \<longleftrightarrow> (\<forall>p. \<not> p_failed p \<longrightarrow> drop (p_pos p) (p_text p) = s \<longrightarrow> feeds ts (next_token p))"

lemma lexes_Nil: "lexes [] []"
  by (simp add: lexes_def next_token_def skip_ws_def scan_token_def)

lemma lexes_space: "lexes s ts \<Longrightarrow> lexes (CHR '' '' # s) ts"
proof -
  assume s: "lexes s ts"
  have "feeds ts (next_token p)"
    if "\<not> p_failed p" and d: "drop (p_pos p) (p_text p) = CHR '' '' # s" for p
  proof -
    let ?q = "p\<lparr>p_pos := p_pos p + 1\<rparr>"
    have dq: "drop (p_pos ?q) (p_text ?q) = s"
      using d by (metis Suc_eq_plus1 drop_Suc ext_inject list.sel(3) surjective tl_drop update_convs(2))
    have "skip_ws p = skip_ws ?q"
      using d dq by (simp add: skip_ws_def is_ws_def)
    then have "next_token p = next_token ?q" by (simp add: next_token_def)
    with s dq that(1) show ?thesis by (simp add: lexes_def)
  qed
  then show ?thesis by (simp add: lexes_def)
qed

lemma lexes_scan:
  assumes "scan_token (u @ s) = (k, t, length u, None)" and "u \<noteq> []" and "\<not> is_ws (hd u)"
    and "lexes s ts"
  shows "lexes (u @ s) ((k, t) # ts)"
proof -
  have "feeds ((k, t) # ts) (next_token p)"
    if nf: "\<not> p_failed p" and d: "drop (p_pos p) (p_text p) = u @ s" for p
  proof -
    have skip: "skip_ws p = p"
      using d assms(2,3) by (cases u) (simp_all add: skip_ws_def)
    have nt: "next_token p = p\<lparr>p_cur := \<lparr>tk_kind = k, tk_text = t, tk_pos = p_pos p\<rparr>,
        p_pos := p_pos p + length u\<rparr>"
      by (simp add: next_token_def Let_def skip d assms(1))
    have "drop (p_pos p + length u) (p_text p) = s"
      using d by (metis add.commute append_eq_conv_conj drop_drop)
    with nf assms(4) show ?thesis by (simp add: nt lexes_def)
  qed
  then show ?thesis by (simp add: lexes_def)
qed

lemma lexes_lparen: "lexes s ts \<Longrightarrow> lexes (CHR ''('' # s) ((FFI_TOK_LPAREN, []) # ts)"
  using lexes_scan [of "''(''" s] by (simp add: scan_token_def is_ident_start_def char_between_def is_ws_def)

lemma lexes_rparen: "lexes s ts \<Longrightarrow> lexes (CHR '')'' # s) ((FFI_TOK_RPAREN, []) # ts)"
  using lexes_scan [of "'')''" s] by (simp add: scan_token_def is_ident_start_def char_between_def is_ws_def)

lemma lexes_op2:
  "lexes s ts \<Longrightarrow> lexes (''=='' @ s) ((FFI_TOK_EQ, []) # ts)"
  "lexes s ts \<Longrightarrow> lexes (''!='' @ s) ((FFI_TOK_NE, []) # ts)"
  "lexes s ts \<Longrightarrow> lexes (''&&'' @ s) ((FFI_TOK_AND, []) # ts)"
  "lexes s ts \<Longrightarrow> lexes (''||'' @ s) ((FFI_TOK_OR, []) # ts)"
  by (rule lexes_scan; simp add: scan_token_def is_ident_start_def char_between_def is_ws_def)+

lemma lexes_string:
  assumes "CHR 0x22 \<notin> set v" and "lexes s ts"
  shows "lexes (CHR 0x22 # v @ CHR 0x22 # s) ((FFI_TOK_STRING, v) # ts)"
proof -
  have "takeWhile (\<lambda>c. c \<noteq> CHR 0x22) (v @ CHR 0x22 # s) = v"
    using assms(1) by (intro takeWhile_append_stop) auto
  then have "scan_token ((CHR 0x22 # v @ [CHR 0x22]) @ s) =
      (FFI_TOK_STRING, v, length (CHR 0x22 # v @ [CHR 0x22]), None)"
    by (simp add: scan_token_def is_ident_start_def char_between_def)
  from lexes_scan [OF this _ _ assms(2)] show ?thesis by (simp add: is_ws_def)
qed

lemma not_ws_ident_start: "is_ident_start c \<Longrightarrow> \<not> is_ws c"
  by (auto simp: is_ident_start_def is_ws_def char_between_def)

lemma lexes_ident:
  assumes "is_ident (Some k)" and "\<not> is_ident_char c" and "lexes (c # s) ts"
  shows "lexes (k @ c # s) ((FFI_TOK_IDENT, k) # ts)"
proof -
  obtain x xs where k: "k = x # xs" "is_ident_start x" "list_all is_ident_char xs"
    using assms(1) by (cases k) auto
  have "takeWhile is_ident_char (k @ c # s) = k"
    using k assms(2) by (intro takeWhile_append_stop) (auto simp: is_ident_char_def list_all_iff)
  with k have "scan_token (k @ c # s) = (FFI_TOK_IDENT, k, length k, None)"
    by (simp add: scan_token_def)
  from lexes_scan [OF this _ _ assms(3)] k show ?thesis by (simp add: not_ws_ident_start)
qed

lemma lexes_key:
  assumes "is_ident (Some k)" and "CHR 0x22 \<notin> set v" and "lexes r ts"
  shows "lexes (cond_text d (Key_cmp k eq v) r) (cond_toks d (Key_cmp k eq v) ts)"
proof -
  have sp: "\<not> is_ident_char CHR '' ''"
    by (simp add: is_ident_char_def is_ident_start_def char_between_def)
  have str: "lexes (CHR '' '' # CHR 0x22 # v @ CHR 0x22 # r) ((FFI_TOK_STRING, v) # ts)"
    using assms by (intro lexes_space lexes_string) auto
  have "lexes (CHR '' '' # (if eq then ''=='' else ''!='') @ CHR '' '' # CHR 0x22 # v @ CHR 0x22 # r)
      ((if eq then FFI_TOK_EQ else FFI_TOK_NE, []) # (FFI_TOK_STRING, v) # ts)"
    using lexes_op2(1,2) [OF str] by (intro lexes_space) simp
  from lexes_ident [OF assms(1) sp this] show ?thesis by (cases eq) auto
qed

lemma lexes_cond_text:
  "cond_fits c \<Longrightarrow> lexes r ts \<Longrightarrow> lexes (cond_text d c r) (cond_toks d c ts)"
proof (induction c arbitrary: d r ts)
  case (Key_cmp k eq v)
  then show ?case using lexes_key [of k v r ts d eq] by (simp del: cond_text.simps cond_toks.simps)
next
  case (Conj a b)
  have rb: "lexes (cond_text 2 b r') (cond_toks 2 b ts')" if "lexes r' ts'" for r' ts'
    using Conj that by simp
  have ab: "lexes (cond_text 1 a ('' && '' @ cond_text 2 b r'))
      (cond_toks 1 a ((FFI_TOK_AND, []) # cond_toks 2 b ts'))" if "lexes r' ts'" for r' ts'
    using Conj.prems Conj.IH(1) lexes_space [OF lexes_op2(3) [OF lexes_space [OF rb [OF that]]]] by simp
  show ?case
    using ab [OF Conj.prems(2)] lexes_lparen [OF ab [OF lexes_rparen [OF Conj.prems(2)]]] by simp
next
  case (Disj a b)
  have rb: "lexes (cond_text 1 b r') (cond_toks 1 b ts')" if "lexes r' ts'" for r' ts'
    using Disj that by simp
  have ab: "lexes (cond_text 0 a ('' || '' @ cond_text 1 b r'))
      (cond_toks 0 a ((FFI_TOK_OR, []) # cond_toks 1 b ts'))" if "lexes r' ts'" for r' ts'
    using Disj.prems Disj.IH(1) lexes_space [OF lexes_op2(4) [OF lexes_space [OF rb [OF that]]]] by simp
  show ?case
    using ab [OF Disj.prems(2)] lexes_lparen [OF ab [OF lexes_rparen [OF Disj.prems(2)]]] by simp
qed

section \<open>Composing parser runs\<close>

lemma max_fuel:
  shows "parse_cmp f env p = Some r \<Longrightarrow> parse_cmp (max f g) env p = Some r"
    and "parse_and f env p = Some r \<Longrightarrow> parse_and (max f g) env p = Some r"
    and "parse_or f env p = Some r \<Longrightarrow> parse_or (max f g) env p = Some r"
    and "and_loop g env v p = Some r \<Longrightarrow> and_loop (max f g) env v p = Some r"
    and "or_loop g env v p = Some r \<Longrightarrow> or_loop (max f g) env v p = Some r"
  by (rule fuel_leD [OF fuel_le_mono, rotated], assumption, simp)+

lemma and_intro:
  "parse_cmp f env p = Some (Some v, p1) \<Longrightarrow> and_loop g env v p1 = Some r \<Longrightarrow>
   \<exists>h. parse_and h env p = Some r"
  by (rule exI [of _ "Suc (max f g)"]) (simp add: parse_unfold max_fuel)

lemma or_intro:
  "parse_and f env p = Some (Some v, p1) \<Longrightarrow> or_loop g env v p1 = Some r \<Longrightarrow>
   \<exists>h. parse_or h env p = Some r"
  by (rule exI [of _ "Suc (max f g)"]) (simp add: parse_unfold max_fuel)

lemma and_loop_intro:
  "tk_kind (p_cur p) = FFI_TOK_AND \<Longrightarrow> \<not> p_failed p \<Longrightarrow>
   parse_cmp f env (next_token p) = Some (Some w, p1) \<Longrightarrow> and_loop g env (v \<and> w) p1 = Some r \<Longrightarrow>
   \<exists>h. and_loop h env v p = Some r"
  by (rule exI [of _ "Suc (max f g)"]) (simp add: parse_unfold max_fuel)

lemma or_loop_intro:
  "tk_kind (p_cur p) = FFI_TOK_OR \<Longrightarrow> \<not> p_failed p \<Longrightarrow>
   parse_and f env (next_token p) = Some (Some w, p1) \<Longrightarrow> or_loop g env (v \<or> w) p1 = Some r \<Longrightarrow>
   \<exists>h. or_loop h env v p = Some r"
  by (rule exI [of _ "Suc (max f g)"]) (simp add: parse_unfold max_fuel)

lemma fail_intro:
  "parse_cmp f env p = Some (None, p1) \<Longrightarrow> \<exists>h. parse_and h env p = Some (None, p1)"
  "parse_and f env p = Some (None, p1) \<Longrightarrow> \<exists>h. parse_or h env p = Some (None, p1)"
  "tk_kind (p_cur p) = FFI_TOK_AND \<Longrightarrow> \<not> p_failed p \<Longrightarrow>
   parse_cmp f env (next_token p) = Some (None, p1) \<Longrightarrow> \<exists>h. and_loop h env v p = Some (None, p1)"
  "tk_kind (p_cur p) = FFI_TOK_OR \<Longrightarrow> \<not> p_failed p \<Longrightarrow>
   parse_and f env (next_token p) = Some (None, p1) \<Longrightarrow> \<exists>h. or_loop h env v p = Some (None, p1)"
  by (rule exI [of _ "Suc f"], simp add: parse_unfold)+

lemma loop_stops:
  "tk_kind (p_cur p) \<noteq> FFI_TOK_AND \<Longrightarrow> and_loop (Suc 0) env v p = Some (Some v, p)"
  "tk_kind (p_cur p) \<noteq> FFI_TOK_OR \<Longrightarrow> or_loop (Suc 0) env v p = Some (Some v, p)"
  by (simp_all add: parse_unfold)

section \<open>The parser computes the meaning\<close>

text \<open>
  The failure of a condition with an unknown key, and the three levels of the parser on the
  tokens of a condition. At the two loop levels the statement is about whatever the loop does
  next, so that a left-nested chain composes.
\<close>

definition unknown_key :: "(string \<Rightarrow> string option) \<Rightarrow> cond \<Rightarrow> ffi_parse \<Rightarrow> bool" where
  "unknown_key env c p \<longleftrightarrow>
     (\<exists>k n. p_err p = Some (Unknown_define k, n) \<and> k \<in> cond_keys c \<and> env k = None)"

definition ready :: "(ffi_tok \<times> string) list \<Rightarrow> ffi_parse \<Rightarrow> bool" where
  "ready ts p \<longleftrightarrow> feeds ts p \<and> p_check_keys p \<and> p_err p = None"

definition cmp_ok :: "(string \<Rightarrow> string option) \<Rightarrow> cond \<Rightarrow> bool" where
  "cmp_ok env c \<longleftrightarrow> (\<forall>p ts. ready (cond_toks 2 c ts) p \<longrightarrow>
     (case cond_value env c of
        Some v \<Rightarrow> \<exists>f p'. parse_cmp f env p = Some (Some v, p') \<and> ready ts p'
      | None \<Rightarrow> \<exists>f p'. parse_cmp f env p = Some (None, p') \<and> unknown_key env c p'))"

definition and_ok :: "(string \<Rightarrow> string option) \<Rightarrow> cond \<Rightarrow> bool" where
  "and_ok env c \<longleftrightarrow> (\<forall>p ts. ready (cond_toks 1 c ts) p \<longrightarrow>
     (case cond_value env c of
        Some v \<Rightarrow> \<exists>p'. ready ts p' \<and>
          (\<forall>g r. and_loop g env v p' = Some r \<longrightarrow> (\<exists>h. parse_and h env p = Some r))
      | None \<Rightarrow> \<exists>f p'. parse_and f env p = Some (None, p') \<and> unknown_key env c p'))"

definition or_ok :: "(string \<Rightarrow> string option) \<Rightarrow> cond \<Rightarrow> bool" where
  "or_ok env c \<longleftrightarrow> (\<forall>p ts. ready (cond_toks 0 c ts) p \<longrightarrow> (\<forall>t ts'. ts = t # ts' \<longrightarrow> fst t \<noteq> FFI_TOK_AND) \<longrightarrow>
     (case cond_value env c of
        Some v \<Rightarrow> \<exists>p'. ready ts p' \<and>
          (\<forall>g r. or_loop g env v p' = Some r \<longrightarrow> (\<exists>h. parse_or h env p = Some r))
      | None \<Rightarrow> \<exists>f p'. parse_or f env p = Some (None, p') \<and> unknown_key env c p'))"

lemma next_token_err: "\<not> p_failed (next_token p) \<Longrightarrow> p_err (next_token p) = p_err p"
  by (auto simp: next_token_def Let_def split: prod.splits option.splits)

lemma ready_Cons:
  "ready ((k, t) # ts) p \<longleftrightarrow>
   tk_kind (p_cur p) = k \<and> tk_text (p_cur p) = t \<and> \<not> p_failed p \<and> p_check_keys p
   \<and> p_err p = None \<and> ready ts (next_token p)"
proof -
  have "feeds ts q \<Longrightarrow> \<not> p_failed q" for q by (cases ts) auto
  then show ?thesis by (auto simp: ready_def next_token_err)
qed

lemma ready_not_failed: "ready ts p \<Longrightarrow> \<not> p_failed p"
  by (cases ts) (auto simp: ready_def)

lemma ready_stops:
  assumes "ready ts p" and "\<And>t ts'. ts = t # ts' \<Longrightarrow> fst t \<noteq> k" and "k \<noteq> FFI_TOK_END"
  shows "tk_kind (p_cur p) \<noteq> k"
  using assms by (cases ts) (auto simp: ready_def)

lemma cmp_ok_Key:
  assumes "cond_fits (Key_cmp k eq v)"
  shows "cmp_ok env (Key_cmp k eq v)"
proof -
  have key: "take (FFI_DEFINES_KEY_MAX - 1) k = k" and val: "take (FFI_DEFINES_VALUE_MAX - 1) v = v"
    using assms by (auto simp: FFI_DEFINES_KEY_MAX_def FFI_DEFINES_VALUE_MAX_def)
  show ?thesis
    unfolding cmp_ok_def
  proof (intro allI impI)
    fix p ts assume r: "ready (cond_toks 2 (Key_cmp k eq v) ts) p"
    let ?q = "next_token (next_token (next_token p))"
    have q: "ready ts ?q" "p_check_keys ?q"
      using r by (simp_all add: ready_Cons)
    then have nf: "\<not> p_failed ?q" by (simp add: ready_not_failed)
    have run: "parse_cmp (Suc 0) env p = Some (cmp_value env k (tk_pos (p_cur p)) eq v ?q)"
      using r key val by (cases eq) (simp_all add: parse_unfold parse_key_def ready_Cons Let_def)
    show "case cond_value env (Key_cmp k eq v) of
        Some w \<Rightarrow> \<exists>f p'. parse_cmp f env p = Some (Some w, p') \<and> ready ts p'
      | None \<Rightarrow> \<exists>f p'. parse_cmp f env p = Some (None, p') \<and> unknown_key env (Key_cmp k eq v) p'"
    proof (cases "env k")
      case None
      then have "parse_cmp (Suc 0) env p = Some (None, cond_err ?q (tk_pos (p_cur p)) (Unknown_define k))"
        using run q by (simp add: cmp_value_def)
      moreover have "unknown_key env (Key_cmp k eq v) (cond_err ?q (tk_pos (p_cur p)) (Unknown_define k))"
        using None nf by (simp add: unknown_key_def cond_err_def)
      ultimately show ?thesis using None by auto
    next
      case (Some w)
      then have "parse_cmp (Suc 0) env p = Some (Some (if eq then w = v else w \<noteq> v), ?q)"
        using run q by (simp add: cmp_value_def)
      with Some q(1) show ?thesis by (cases eq) (simp, blast)+
    qed
  qed
qed

lemma cmp_okD:
  assumes "cmp_ok env c" and "ready (cond_toks 2 c ts) p"
  shows "cond_value env c = Some v \<Longrightarrow> \<exists>f p'. parse_cmp f env p = Some (Some v, p') \<and> ready ts p'"
    and "cond_value env c = None \<Longrightarrow> \<exists>f p'. parse_cmp f env p = Some (None, p') \<and> unknown_key env c p'"
  using assms by (force simp: cmp_ok_def)+

lemma and_okD:
  assumes "and_ok env c" and "ready (cond_toks 1 c ts) p"
  shows "cond_value env c = Some v \<Longrightarrow> \<exists>p'. ready ts p' \<and>
          (\<forall>g r. and_loop g env v p' = Some r \<longrightarrow> (\<exists>h. parse_and h env p = Some r))"
    and "cond_value env c = None \<Longrightarrow> \<exists>f p'. parse_and f env p = Some (None, p') \<and> unknown_key env c p'"
  using assms by (force simp: and_ok_def)+

lemma or_okD:
  assumes "or_ok env c" and "ready (cond_toks 0 c ts) p" and "\<And>t ts'. ts = t # ts' \<Longrightarrow> fst t \<noteq> FFI_TOK_AND"
  shows "cond_value env c = Some v \<Longrightarrow> \<exists>p'. ready ts p' \<and>
          (\<forall>g r. or_loop g env v p' = Some r \<longrightarrow> (\<exists>h. parse_or h env p = Some r))"
    and "cond_value env c = None \<Longrightarrow> \<exists>f p'. parse_or f env p = Some (None, p') \<and> unknown_key env c p'"
  using assms by (force simp: or_ok_def)+

lemma cmp_and_ok:
  assumes "cmp_ok env c" and "\<And>ts. cond_toks 1 c ts = cond_toks 2 c ts"
  shows "and_ok env c"
  unfolding and_ok_def
proof (intro allI impI)
  fix p ts assume "ready (cond_toks 1 c ts) p"
  with assms(2) have r: "ready (cond_toks 2 c ts) p" by simp
  show "case cond_value env c of Some v \<Rightarrow> \<exists>p'. ready ts p' \<and>
          (\<forall>g r. and_loop g env v p' = Some r \<longrightarrow> (\<exists>h. parse_and h env p = Some r))
      | None \<Rightarrow> \<exists>f p'. parse_and f env p = Some (None, p') \<and> unknown_key env c p'"
    using cmp_okD [OF assms(1) r]
    by (cases "cond_value env c") (fastforce intro: and_intro dest: fail_intro)+
qed

text \<open>A finished \<open>&&\<close> chain: the loop stops on a token other than \<open>&&\<close>.\<close>

lemma and_ok_stop:
  assumes "and_ok env c" and "ready (cond_toks 1 c ts) p" and "cond_value env c = Some v"
    and "\<And>t ts'. ts = t # ts' \<Longrightarrow> fst t \<noteq> FFI_TOK_AND"
  shows "\<exists>f p'. parse_and f env p = Some (Some v, p') \<and> ready ts p'"
proof -
  obtain p' where p': "ready ts p'"
      "\<And>g r. and_loop g env v p' = Some r \<Longrightarrow> \<exists>h. parse_and h env p = Some r"
    using and_okD(1) [OF assms(1,2,3)] by blast
  have "tk_kind (p_cur p') \<noteq> FFI_TOK_AND"
    using p'(1) assms(4) by (rule ready_stops) auto
  from p'(2) [OF loop_stops(1) [OF this]] p'(1) show ?thesis by blast
qed

lemma or_ok_stop:
  assumes "or_ok env c" and "ready (cond_toks 0 c ts) p" and "cond_value env c = Some v"
    and "\<And>t ts'. ts = t # ts' \<Longrightarrow> fst t \<noteq> FFI_TOK_AND" and "\<And>t ts'. ts = t # ts' \<Longrightarrow> fst t \<noteq> FFI_TOK_OR"
  shows "\<exists>f p'. parse_or f env p = Some (Some v, p') \<and> ready ts p'"
proof -
  obtain p' where p': "ready ts p'"
      "\<And>g r. or_loop g env v p' = Some r \<Longrightarrow> \<exists>h. parse_or h env p = Some r"
    using or_okD(1) [OF assms(1,2) _ assms(3)] assms(4) by blast
  have "tk_kind (p_cur p') \<noteq> FFI_TOK_OR"
    using p'(1) assms(5) by (rule ready_stops) auto
  from p'(2) [OF loop_stops(2) [OF this]] p'(1) show ?thesis by blast
qed

lemma and_or_ok:
  assumes "and_ok env c" and "\<And>ts. cond_toks 0 c ts = cond_toks 1 c ts"
  shows "or_ok env c"
  unfolding or_ok_def
proof (intro allI impI)
  fix p ts assume "ready (cond_toks 0 c ts) p"
    and nand: "\<forall>t ts'. ts = t # ts' \<longrightarrow> fst t \<noteq> FFI_TOK_AND"
  with assms(2) have r: "ready (cond_toks 1 c ts) p" by simp
  show "case cond_value env c of Some v \<Rightarrow> \<exists>p'. ready ts p' \<and>
          (\<forall>g r. or_loop g env v p' = Some r \<longrightarrow> (\<exists>h. parse_or h env p = Some r))
      | None \<Rightarrow> \<exists>f p'. parse_or f env p = Some (None, p') \<and> unknown_key env c p'"
  proof (cases "cond_value env c")
    case None
    with and_okD(2) [OF assms(1) r] obtain f q where
      "parse_and f env p = Some (None, q)" "unknown_key env c q" by auto
    with None fail_intro(2) [of f env p q] show ?thesis by auto
  next
    case (Some v)
    with and_ok_stop [OF assms(1) r Some] nand obtain f p' where
      "parse_and f env p = Some (Some v, p')" "ready ts p'" by blast
    with Some show ?thesis by (auto intro: or_intro)
  qed
qed

text \<open>A parenthesised condition is a comparison.\<close>

lemma paren_cmp_ok:
  assumes "or_ok env c"
    and toks: "\<And>ts. cond_toks 2 c ts = (FFI_TOK_LPAREN, []) # cond_toks 0 c ((FFI_TOK_RPAREN, []) # ts)"
  shows "cmp_ok env c"
  unfolding cmp_ok_def
proof (intro allI impI)
  fix p ts assume "ready (cond_toks 2 c ts) p"
  then have p: "tk_kind (p_cur p) = FFI_TOK_LPAREN" "\<not> p_failed p"
    and inner: "ready (cond_toks 0 c ((FFI_TOK_RPAREN, []) # ts)) (next_token p)"
    by (simp_all add: toks ready_Cons)
  show "case cond_value env c of
      Some v \<Rightarrow> \<exists>f p'. parse_cmp f env p = Some (Some v, p') \<and> ready ts p'
    | None \<Rightarrow> \<exists>f p'. parse_cmp f env p = Some (None, p') \<and> unknown_key env c p'"
  proof (cases "cond_value env c")
    case None
    with or_okD(2) [OF assms(1) inner] obtain f p' where
      "parse_or f env (next_token p) = Some (None, p')" "unknown_key env c p'" by auto
    with p None show ?thesis by (auto simp: parse_unfold intro!: exI [of _ "Suc f"])
  next
    case (Some v)
    with or_ok_stop [OF assms(1) inner Some] obtain f p' where
      "parse_or f env (next_token p) = Some (Some v, p')" "ready ((FFI_TOK_RPAREN, []) # ts) p'" by auto
    with p Some show ?thesis by (auto simp: parse_unfold ready_Cons intro!: exI [of _ "Suc f"])
  qed
qed

lemma unknown_key_mono:
  "unknown_key env c p \<Longrightarrow> cond_keys c \<subseteq> cond_keys d \<Longrightarrow> unknown_key env d p"
  by (auto simp: unknown_key_def)

lemma conj_and_ok:
  assumes a: "and_ok env a" and b: "cmp_ok env b"
  shows "and_ok env (Conj a b)"
  unfolding and_ok_def
proof (intro allI impI)
  fix p ts assume "ready (cond_toks 1 (Conj a b) ts) p"
  then have r: "ready (cond_toks 1 a ((FFI_TOK_AND, []) # cond_toks 2 b ts)) p" by simp
  show "case cond_value env (Conj a b) of Some v \<Rightarrow> \<exists>p'. ready ts p' \<and>
          (\<forall>g r. and_loop g env v p' = Some r \<longrightarrow> (\<exists>h. parse_and h env p = Some r))
      | None \<Rightarrow> \<exists>f p'. parse_and f env p = Some (None, p') \<and> unknown_key env (Conj a b) p'"
  proof (cases "cond_value env a")
    case None
    with and_okD(2) [OF a r] show ?thesis
      by (fastforce intro: unknown_key_mono)
  next
    case (Some x)
    then obtain q where q: "tk_kind (p_cur q) = FFI_TOK_AND" "\<not> p_failed q"
        "ready (cond_toks 2 b ts) (next_token q)"
      and cont: "\<And>g r. and_loop g env x q = Some r \<Longrightarrow> \<exists>h. parse_and h env p = Some r"
      using and_okD(1) [OF a r Some] by (auto simp: ready_Cons)
    show ?thesis
    proof (cases "cond_value env b")
      case None
      with cmp_okD(2) [OF b q(3)] obtain f p' where
        f: "parse_cmp f env (next_token q) = Some (None, p')" "unknown_key env b p'" by auto
      from cont fail_intro(3) [OF q(1,2) f(1)] have "\<exists>h. parse_and h env p = Some (None, p')" by blast
      with f(2) Some None show ?thesis
        by (fastforce intro: unknown_key_mono)
    next
      case (Some y)
      with cmp_okD(1) [OF b q(3)] obtain f p' where
        f: "parse_cmp f env (next_token q) = Some (Some y, p')" "ready ts p'" by auto
      have "\<exists>h. parse_and h env p = Some r" if "and_loop g env (x \<and> y) p' = Some r" for g r
        using cont and_loop_intro [OF q(1,2) f(1) that] by blast
      with f(2) Some \<open>cond_value env a = Some x\<close> show ?thesis by auto
    qed
  qed
qed

lemma disj_or_ok:
  assumes a: "or_ok env a" and b: "and_ok env b"
  shows "or_ok env (Disj a b)"
  unfolding or_ok_def
proof (intro allI impI)
  fix p ts assume "ready (cond_toks 0 (Disj a b) ts) p"
    and nand: "\<forall>t ts'. ts = t # ts' \<longrightarrow> fst t \<noteq> FFI_TOK_AND"
  then have r: "ready (cond_toks 0 a ((FFI_TOK_OR, []) # cond_toks 1 b ts)) p" by simp
  show "case cond_value env (Disj a b) of Some v \<Rightarrow> \<exists>p'. ready ts p' \<and>
          (\<forall>g r. or_loop g env v p' = Some r \<longrightarrow> (\<exists>h. parse_or h env p = Some r))
      | None \<Rightarrow> \<exists>f p'. parse_or f env p = Some (None, p') \<and> unknown_key env (Disj a b) p'"
  proof (cases "cond_value env a")
    case None
    with or_okD(2) [OF a r] show ?thesis
      by (fastforce intro: unknown_key_mono)
  next
    case (Some x)
    then obtain q where q: "tk_kind (p_cur q) = FFI_TOK_OR" "\<not> p_failed q"
        "ready (cond_toks 1 b ts) (next_token q)"
      and cont: "\<And>g r. or_loop g env x q = Some r \<Longrightarrow> \<exists>h. parse_or h env p = Some r"
      using or_okD(1) [OF a r _ Some] by (auto simp: ready_Cons)
    show ?thesis
    proof (cases "cond_value env b")
      case None
      with and_okD(2) [OF b q(3)] obtain f p' where
        f: "parse_and f env (next_token q) = Some (None, p')" "unknown_key env b p'" by auto
      from cont fail_intro(4) [OF q(1,2) f(1)] have "\<exists>h. parse_or h env p = Some (None, p')" by blast
      with f(2) Some None show ?thesis
        by (fastforce intro: unknown_key_mono)
    next
      case (Some y)
      with and_ok_stop [OF b q(3) Some] nand obtain f p' where
        f: "parse_and f env (next_token q) = Some (Some y, p')" "ready ts p'" by blast
      have "\<exists>h. parse_or h env p = Some r" if "or_loop g env (x \<or> y) p' = Some r" for g r
        using cont or_loop_intro [OF q(1,2) f(1) that] by blast
      with f(2) Some \<open>cond_value env a = Some x\<close> show ?thesis by auto
    qed
  qed
qed

lemma levels_ok: "cond_fits c \<Longrightarrow> cmp_ok env c \<and> and_ok env c \<and> or_ok env c"
proof (induction c)
  case (Key_cmp k eq v)
  have c: "cmp_ok env (Key_cmp k eq v)" using Key_cmp by (rule cmp_ok_Key)
  then have "and_ok env (Key_cmp k eq v)" by (rule cmp_and_ok) simp
  with c show ?case by (auto intro: and_or_ok)
next
  case (Conj a b)
  then have "and_ok env (Conj a b)" by (auto intro: conj_and_ok)
  moreover from this have "or_ok env (Conj a b)" by (rule and_or_ok) simp
  moreover from this have "cmp_ok env (Conj a b)" by (rule paren_cmp_ok) simp
  ultimately show ?case by blast
next
  case (Disj a b)
  then have o: "or_ok env (Disj a b)" by (auto intro: disj_or_ok)
  then have c: "cmp_ok env (Disj a b)" by (rule paren_cmp_ok) simp
  then have "and_ok env (Disj a b)" by (rule cmp_and_ok) simp
  with o c show ?case by blast
qed

lemma cond_start_ready:
  assumes "lexes s ts"
  shows "ready ts (next_token (cond_start s True))"
proof -
  from assms have f: "feeds ts (next_token (cond_start s True))"
    by (simp add: lexes_def cond_start_def)
  then have "\<not> p_failed (next_token (cond_start s True))"
    by (cases ts) auto
  with f show ?thesis
    by (simp add: ready_def next_token_err) (simp add: cond_start_def)
qed

lemma cond_text_nonempty: "cond_fits c \<Longrightarrow> cond_text d c r \<noteq> []"
  by (induction c arbitrary: d r) (auto split: if_splits)

lemma cond_run_text:
  assumes "cond_fits c"
  shows "case cond_value env c of Some v \<Rightarrow> cond_run env (Some (cond_text 0 c [])) True = Inr v
    | None \<Rightarrow> \<exists>k n. cond_run env (Some (cond_text 0 c [])) True = Inl (Some (Unknown_define k, n))
        \<and> k \<in> cond_keys c \<and> env k = None"
proof -
  let ?s = "cond_text 0 c []"
  let ?p = "next_token (cond_start ?s True)"
  obtain r p' where run: "parse_or (10 * length ?s + 15) env ?p = Some (r, p')"
    using start_enough by blast
  note ok = levels_ok [OF assms, THEN conjunct2, THEN conjunct2, of env]
  note rdy = cond_start_ready [OF lexes_cond_text [OF assms lexes_Nil]]
  show ?thesis
  proof (cases "cond_value env c")
    case None
    with or_okD(2) [OF ok rdy] obtain f q where
      "parse_or f env ?p = Some (None, q)" "unknown_key env c q" by auto
    with parse_or_det [OF run] have "r = None" "unknown_key env c p'" by auto
    with run None cond_text_nonempty [OF assms] show ?thesis
      by (auto simp: cond_run_def unknown_key_def)
  next
    case (Some v)
    with or_ok_stop [OF ok rdy] obtain f q where
      "parse_or f env ?p = Some (Some v, q)" "ready [] q" by auto
    with parse_or_det [OF run] have "r = Some v" "ready [] p'" by auto
    with run Some cond_text_nonempty [OF assms] show ?thesis
      by (auto simp: cond_run_def ready_def)
  qed
qed


section \<open>Failures are located errors\<close>

definition sane :: "ffi_parse \<Rightarrow> bool" where
  "sane p \<longleftrightarrow> (p_failed p \<longleftrightarrow> p_err p \<noteq> None) \<and> p_pos p \<le> length (p_text p)
     \<and> tk_pos (p_cur p) \<le> length (p_text p)
     \<and> (\<forall>e n. p_err p = Some (e, n) \<longrightarrow> n \<le> length (p_text p))"

lemma sane_cond_err: "sane p \<Longrightarrow> n \<le> length (p_text p) \<Longrightarrow> sane (cond_err p n e)"
  by (auto simp: sane_def cond_err_def)

lemma scan_token_bound: "scan_token s = (k, t, n, e) \<Longrightarrow> n \<le> length s"
  by (cases s; cases "tl s")
    (auto simp: scan_token_def Let_def length_takeWhile_le le_SucI split: if_splits)

lemma sane_next_token: "sane p \<Longrightarrow> sane (next_token p)"
proof -
  assume p: "sane p"
  let ?q = "skip_ws p"
  have "length (takeWhile is_ws (drop (p_pos p) (p_text p))) \<le> length (p_text p) - p_pos p"
    using length_takeWhile_le by (metis length_drop)
  moreover have "p_pos p \<le> length (p_text p)" using p by (simp add: sane_def)
  ultimately have pos: "p_pos ?q \<le> length (p_text p)" by (simp add: skip_ws_def)
  then have q: "sane ?q" using p by (simp add: sane_def)
  obtain k t n e where sc: "scan_token (drop (p_pos ?q) (p_text p)) = (k, t, n, e)"
    by (metis prod_cases4)
  have n: "p_pos ?q + n \<le> length (p_text p)"
    using scan_token_bound [OF sc] pos by simp
  show ?thesis
  proof (cases e)
    case None
    with q pos n show ?thesis by (simp add: next_token_def Let_def sc sane_def)
  next
    case (Some x)
    from q pos have "sane (cond_err ?q (p_pos ?q) x)" by (intro sane_cond_err) simp_all
    with Some pos n show ?thesis by (simp add: next_token_def Let_def sc sane_def)
  qed
qed

text \<open>\<open>located\<close>: a parser result whose failure has set the error.\<close>

definition located :: "cond_res \<Rightarrow> bool" where
  "located r \<longleftrightarrow> sane (snd r) \<and> (fst r = None \<longrightarrow> p_failed (snd r))"

lemma located_simps:
  "located (Some v, p) \<longleftrightarrow> sane p" "located (None, p) \<longleftrightarrow> sane p \<and> p_failed p"
  by (simp_all add: located_def)

lemma sane_cur_err: "sane p \<Longrightarrow> sane (cond_err p (tk_pos (p_cur p)) e)"
  by (rule sane_cond_err) (simp_all add: sane_def)

lemma located_err: "sane p \<Longrightarrow> n = tk_pos (p_cur p) \<Longrightarrow> located (None, cond_err p n e)"
  by (simp add: located_def sane_cond_err sane_def [THEN iffD1, THEN conjunct2, THEN conjunct2, THEN conjunct1])

lemma located_parse_key: "sane p \<Longrightarrow> located (parse_key env p)"
proof -
  assume p: "sane p"
  note n = sane_next_token
  have s1: "sane (next_token p)" and s2: "sane (next_token (next_token p))"
    and s3: "sane (next_token (next_token (next_token p)))" using p n by blast+
  have pos: "tk_pos (p_cur p) \<le> length (p_text (next_token (next_token (next_token p))))"
    using p by (simp add: sane_def)
  have "located (cmp_value env k (tk_pos (p_cur p)) b v (next_token (next_token (next_token p))))" for k b v
    using s3 pos by (auto simp: cmp_value_def located_simps Let_def intro: sane_cond_err split: option.split)
  then show ?thesis
    using located_err [OF p] located_err [OF s1] located_err [OF s2]
    by (auto simp: parse_key_def Let_def)
qed

lemma parse_located:
  "sane p \<Longrightarrow>
   (\<forall>r. parse_cmp f env p = Some r \<longrightarrow> located r) \<and> (\<forall>r. parse_and f env p = Some r \<longrightarrow> located r) \<and>
   (\<forall>v r. and_loop f env v p = Some r \<longrightarrow> located r) \<and> (\<forall>r. parse_or f env p = Some r \<longrightarrow> located r) \<and>
   (\<forall>v r. or_loop f env v p = Some r \<longrightarrow> located r)"
proof (induction f arbitrary: p)
  case 0
  then show ?case by simp
next
  case (Suc f)
  note cmp = Suc.IH [THEN conjunct1, rule_format]
  note conj = Suc.IH [THEN conjunct2, THEN conjunct1, rule_format]
  note cl = Suc.IH [THEN conjunct2, THEN conjunct2, THEN conjunct1, rule_format]
  note disj = Suc.IH [THEN conjunct2, THEN conjunct2, THEN conjunct2, THEN conjunct1, rule_format]
  note dl = Suc.IH [THEN conjunct2, THEN conjunct2, THEN conjunct2, THEN conjunct2, rule_format]
  note nt = sane_next_token [OF Suc.prems]
  have key: "parse_key env p = r \<Longrightarrow> located r" for r
    using located_parse_key [OF Suc.prems] by blast
  show ?case
    unfolding parse_unfold
    using Suc.prems cmp [OF Suc.prems] conj [OF Suc.prems] disj [OF nt] cmp [OF nt] conj [OF nt]
    by (intro conjI allI impI;
        auto split: if_splits option.splits prod.splits
          simp: located_parse_key located_simps
          intro: sane_next_token sane_cur_err key
          dest: cl dl)
qed

lemma sane_start: "sane (next_token (cond_start s b))"
  by (rule sane_next_token) (simp add: sane_def cond_start_def)

lemma parse_key_text: "parse_key env p = (r, p') \<Longrightarrow> p_text p' = p_text p"
  by (auto simp: parse_key_def cmp_value_def Let_def split: if_splits option.splits)

lemma parse_text:
  "(\<forall>r p'. parse_cmp f env p = Some (r, p') \<longrightarrow> p_text p' = p_text p) \<and>
   (\<forall>r p'. parse_and f env p = Some (r, p') \<longrightarrow> p_text p' = p_text p) \<and>
   (\<forall>v r p'. and_loop f env v p = Some (r, p') \<longrightarrow> p_text p' = p_text p) \<and>
   (\<forall>r p'. parse_or f env p = Some (r, p') \<longrightarrow> p_text p' = p_text p) \<and>
   (\<forall>v r p'. or_loop f env v p = Some (r, p') \<longrightarrow> p_text p' = p_text p)"
proof (induction f arbitrary: p)
  case 0
  then show ?case by simp
next
  case (Suc f)
  note IH = Suc.IH [THEN conjunct1, rule_format] Suc.IH [THEN conjunct2, THEN conjunct1, rule_format]
    Suc.IH [THEN conjunct2, THEN conjunct2, THEN conjunct1, rule_format]
    Suc.IH [THEN conjunct2, THEN conjunct2, THEN conjunct2, THEN conjunct1, rule_format]
    Suc.IH [THEN conjunct2, THEN conjunct2, THEN conjunct2, THEN conjunct2, rule_format]
  show ?case
    unfolding parse_unfold
    by (intro conjI allI impI;
        auto split: if_splits option.splits prod.splits dest: parse_key_text dest!: IH)
qed

lemma parse_or_text: "parse_or f env p = Some (r, p') \<Longrightarrow> p_text p' = p_text p"
  using parse_text [of f env p] by blast

lemma cond_run_located:
  "(\<exists>v. cond_run env text b = Inr v) \<or>
   (\<exists>e n. cond_run env text b = Inl (Some (e, n)) \<and> n \<le> (case text of None \<Rightarrow> 0 | Some s \<Rightarrow> length s))"
proof (cases "text = None \<or> text = Some []")
  case True
  then show ?thesis by (auto simp: cond_run_def)
next
  case False
  then obtain s where s: "text = Some s" "s \<noteq> []" by auto
  obtain r p where run: "parse_or (10 * length s + 15) env (next_token (cond_start s b)) = Some (r, p)"
    using start_enough by blast
  have loc: "located (r, p)"
    using parse_located [OF sane_start] run by blast
  have same_text: "p_text p = s"
    using parse_or_text [OF run] by (simp add: cond_start_def)
  show ?thesis
  proof (cases r)
    case None
    with loc have "sane p" "p_failed p" by (simp_all add: located_simps)
    then obtain e n where "p_err p = Some (e, n)" "n \<le> length s"
      using same_text by (auto simp: sane_def)
    with run s None show ?thesis by (simp add: cond_run_def)
  next
    case (Some v)
    let ?q = "if \<not> p_failed p \<and> tk_kind (p_cur p) \<noteq> FFI_TOK_END
              then cond_err p (tk_pos (p_cur p)) Trailing_token else p"
    have "sane ?q" and "p_text ?q = s"
      using loc Some same_text by (auto simp: located_simps sane_cur_err)
    then have "p_failed ?q \<Longrightarrow> \<exists>e n. p_err ?q = Some (e, n) \<and> n \<le> length s"
      by (auto simp: sane_def)
    with run s Some show ?thesis by (auto simp: cond_run_def Let_def)
  qed
qed

section \<open>The table\<close>

text \<open>
  Every stored key is an identifier of at most 63 bytes, every value has at most 255 bytes, no
  key is stored twice, and there are at most 64 entries.
\<close>

definition table_ok :: "ffi_defines \<Rightarrow> bool" where
  "table_ok st \<longleftrightarrow> length (g_defines st) \<le> FFI_DEFINES_MAX \<and> distinct (map fst (g_defines st))
     \<and> (\<forall>(k, v) \<in> set (g_defines st). is_ident (Some k) \<and> length k < FFI_DEFINES_KEY_MAX
          \<and> length v < FFI_DEFINES_VALUE_MAX)"

lemma snprintf_s_id [simp]: "length s < cap \<Longrightarrow> snprintf_s cap s = s"
  by (simp add: snprintf_s_def)

lemma overwrite_None: "overwrite key v ds = None \<longleftrightarrow> key \<notin> fst ` set ds"
  by (induction key v ds rule: overwrite.induct) auto

lemma overwrite_Some:
  "overwrite key v ds = Some es \<Longrightarrow> length v < FFI_DEFINES_VALUE_MAX \<Longrightarrow>
   map fst es = map fst ds \<and> map_of es = (map_of ds)(key \<mapsto> v) \<and> set es \<subseteq> insert (key, v) (set ds)"
  by (induction key v ds arbitrary: es rule: overwrite.induct) (auto split: if_splits)

lemma defines_put_cases:
  assumes "defines_put st (Some k) (Some v) = (c, st')" and "table_ok st"
  shows "table_ok st' \<and>
    (if is_ident (Some k) \<and> length k < FFI_DEFINES_KEY_MAX \<and> length v < FFI_DEFINES_VALUE_MAX
        \<and> (k \<in> fst ` set (g_defines st) \<or> length (g_defines st) < FFI_DEFINES_MAX)
     then c = 0 \<and> map_of (g_defines st') = (map_of (g_defines st))(k \<mapsto> v)
          \<and> (k \<in> fst ` set (g_defines st) \<longrightarrow> map fst (g_defines st') = map fst (g_defines st))
          \<and> (k \<notin> fst ` set (g_defines st) \<longrightarrow> g_defines st' = g_defines st @ [(k, v)])
     else c = 1 \<and> st' = st)"
proof (cases "overwrite k v (g_defines st)")
  case None
  then have new: "k \<notin> fst ` set (g_defines st)" by (simp add: overwrite_None)
  then have "map_of (g_defines st @ [(k, v)]) = (map_of (g_defines st))(k \<mapsto> v)"
    by (auto simp: map_add_def map_of_eq_None_iff [symmetric] fun_eq_iff split: option.split)
  with new None assms show ?thesis
    by (auto simp: defines_put_def table_ok_def split: if_splits)
next
  case (Some es)
  then have old: "k \<in> fst ` set (g_defines st)" using overwrite_None [of k v "g_defines st"] by auto
  show ?thesis
  proof (cases "is_ident (Some k) \<and> length k < FFI_DEFINES_KEY_MAX \<and> length v < FFI_DEFINES_VALUE_MAX")
    case True
    with Some overwrite_Some [OF Some] have es: "map fst es = map fst (g_defines st)"
       "map_of es = (map_of (g_defines st))(k \<mapsto> v)" "set es \<subseteq> insert (k, v) (set (g_defines st))" by auto
    from es(1) have "length es = length (g_defines st)" by (metis length_map)
    with True Some old es assms show ?thesis
      by (auto simp: defines_put_def table_ok_def dest!: subsetD [OF es(3)])
  next
    case False
    then show ?thesis using assms by (auto simp: defines_put_def split: if_splits)
  qed
qed


lemma put_table_ok: "table_ok st \<Longrightarrow> table_ok (snd (defines_put st k v))"
proof (cases k; cases v)
  fix k' v' assume "table_ok st" "k = Some k'" "v = Some v'"
  then show ?thesis using defines_put_cases [of st k' v'] by (metis prod.collapse)
next
  fix k' assume "table_ok st" "k = Some k'" "v = None"
  moreover have "defines_put st (Some k') None = defines_put st (Some k') (Some [])"
    by (simp add: defines_put_def)
  ultimately show ?thesis using defines_put_cases [of st k' "[]"] by (metis prod.collapse)
qed (simp_all add: defines_put_def)

lemma flag_table_ok [simp]: "table_ok (st\<lparr>g_defines_ready := b\<rparr>) \<longleftrightarrow> table_ok st"
  by (simp add: table_ok_def)

lemma empty_table_ok [simp]: "table_ok (st\<lparr>g_defines := []\<rparr>)"
  by (simp add: table_ok_def)

lemma builtins_table_ok: "table_ok st \<Longrightarrow> table_ok (ffi_defines_add_builtins t st)"
  by (simp add: ffi_defines_add_builtins_def put_table_ok)

lemma ready_table_ok: "table_ok st \<Longrightarrow> table_ok (defines_ensure_ready t st)"
  by (simp add: defines_ensure_ready_def builtins_table_ok)

text \<open>The calls another part of the compiler can make, as steps on the process-wide table.\<close>

inductive defines_step :: "target \<Rightarrow> ffi_defines \<Rightarrow> ffi_defines \<Rightarrow> bool" for t where
  step_reset: "defines_step t st (ffi_defines_reset t st)"
| step_add: "defines_step t st (snd (ffi_defines_add t st k v))"
| step_add_kv: "defines_step t st (snd (ffi_defines_add_kv t st kv))"
| step_get: "defines_step t st (snd (ffi_defines_get t st k))"

lemma step_table_ok: "defines_step t st st' \<Longrightarrow> table_ok st \<Longrightarrow> table_ok st'"
  by (induction rule: defines_step.induct)
    (auto simp: ffi_defines_reset_def ffi_defines_add_def ffi_defines_add_kv_def ffi_defines_get_def Let_def
       intro!: builtins_table_ok put_table_ok ready_table_ok split: option.split)

section \<open>Properties\<close>

text \<open>
  C1 (invariant). However the rest of the compiler drives the table from its initial empty state
  (reset, add, add from \<open>-D key=value\<close>, look up), it never holds more than 64 entries, no key
  twice, only identifiers of at most 63 bytes as keys, and only values of at most 255 bytes.
\<close>

theorem defines_reachable_ok:
  assumes "(defines_step t)\<^sup>*\<^sup>* \<lparr>g_defines = [], g_defines_ready = False\<rparr> st"
  shows "table_ok st"
  using assms
proof (induction rule: rtranclp_induct)
  case base
  then show ?case by (simp add: table_ok_def)
next
  case (step st st')
  then show ?case by (simp add: step_table_ok)
qed

definition a_target :: target where
  "a_target = \<lparr>def_win32 = False, ptr_size = 8, def_apple = False, def_linux = True, def_bsd = False,
     def_x86_64 = True, def_aarch64 = False, def_i386 = False, def_arm = False\<rparr>"

theorem defines_reachable_ok_witness:
  "table_ok (snd (ffi_defines_add_kv a_target \<lparr>g_defines = [], g_defines_ready = False\<rparr> (Some ''MODE=fast'')))"
  by (rule defines_reachable_ok [of a_target]) (rule r_into_rtranclp, rule step_add_kv)

lemma defines_env: "fst (ffi_defines_get t st (Some k)) = map_of (g_defines (defines_ensure_ready t st)) k"
  by (simp add: ffi_defines_get_def Let_def)

text \<open>
  Adding a key to a well-formed table either succeeds, and then looking the key
  up gives the added value and every other key what it gave before, or is refused with code 1,
  and then every lookup gives what it gave before.
\<close>

theorem defines_add_get:
  assumes "table_ok st" and "ffi_defines_add t st (Some k) (Some v) = (c, st')"
  shows "c \<le> 1 \<and> fst (ffi_defines_get t st' (Some j)) =
    (if c = 0 \<and> j = k then Some v else fst (ffi_defines_get t st (Some j)))"
proof -
  let ?r = "defines_ensure_ready t st"
  have ready: "g_defines_ready ?r"
    by (simp add: defines_ensure_ready_def ffi_defines_add_builtins_def Let_def)
  have put: "defines_put ?r (Some k) (Some v) = (c, st')"
    using assms(2) by (simp add: ffi_defines_add_def)
  then have "g_defines_ready st'"
    using ready by (auto simp: defines_put_def Let_def split: if_splits option.splits)
  then have st': "defines_ensure_ready t st' = st'" by (simp add: defines_ensure_ready_def)
  have "c = 0 \<and> map_of (g_defines st') = (map_of (g_defines ?r))(k \<mapsto> v) \<or> c = 1 \<and> st' = ?r"
    using defines_put_cases [OF put ready_table_ok [OF assms(1)]] by presburger
  then show ?thesis unfolding defines_env st' by auto
qed

lemma defines_add_get_witness:
  "fst (ffi_defines_get a_target (snd (ffi_defines_add a_target \<lparr>g_defines = [], g_defines_ready = False\<rparr>
     (Some ''MODE'') (Some ''fast''))) (Some ''OS_ARCH'')) = Some ''X64''"
proof -
  let ?st = "\<lparr>g_defines = [], g_defines_ready = False\<rparr>"
  have ok: "table_ok ?st" by (simp add: table_ok_def)
  have c: "fst (ffi_defines_add a_target ?st (Some ''MODE'') (Some ''fast'')) = 0" by code_simp
  have g: "fst (ffi_defines_get a_target ?st (Some ''OS_ARCH'')) = Some ''X64''" by code_simp
  show ?thesis
    using defines_add_get [OF ok prod.collapse [symmetric], of a_target "''MODE''" "''fast''"] c g by simp
qed

text \<open>
  C2 (functional, equivalence). Evaluating the text of a condition whose keys and values fit the
  parser's buffers gives the meaning of the condition: comparisons read the injected table,
  \<open>&&\<close> binds tighter than \<open>||\<close>, both associate to the left, parentheses override; and when a key
  of the condition is not in the table the evaluation fails with the error that names such a key.
\<close>

theorem ffi_cond_eval_meaning:
  assumes "cond_fits c"
  shows "case cond_value (map_of (g_defines (defines_ensure_ready t st))) c of
      Some v \<Rightarrow> ffi_cond_eval t st (Some (cond_text 0 c [])) = Inr v
    | None \<Rightarrow> \<exists>k n. ffi_cond_eval t st (Some (cond_text 0 c [])) = Inl (Some (Unknown_define k, n))
        \<and> k \<in> cond_keys c \<and> map_of (g_defines (defines_ensure_ready t st)) k = None"
  unfolding ffi_cond_eval_def defines_env by (rule cond_run_text [OF assms])

lemma ffi_cond_eval_meaning_witness:
  "ffi_cond_eval a_target \<lparr>g_defines = [], g_defines_ready = False\<rparr>
     (Some ''(OS_TYPE == \"WIN64\" || OS_TYPE == \"LINUX\") && OS_ARCH != \"ARM\"'') = Inr True"
proof -
  let ?st = "\<lparr>g_defines = [], g_defines_ready = False\<rparr>"
  let ?c = "Conj (Disj (Key_cmp ''OS_TYPE'' True ''WIN64'') (Key_cmp ''OS_TYPE'' True ''LINUX''))
              (Key_cmp ''OS_ARCH'' False ''ARM'')"
  have fits: "cond_fits ?c" by code_simp
  have val: "cond_value (map_of (g_defines (defines_ensure_ready a_target ?st))) ?c = Some True"
    by code_simp
  have text_eq: "cond_text 0 ?c [] =
      ''(OS_TYPE == \"WIN64\" || OS_TYPE == \"LINUX\") && OS_ARCH != \"ARM\"''" by simp
  show ?thesis using ffi_cond_eval_meaning [OF fits, of a_target ?st] val text_eq by simp
qed

text \<open>
  C3 (termination, error). Evaluation and validation return on every input: a value, or an error whose
  offset lies within the text. The recursion and both loops of the parser end on every text.
\<close>

theorem ffi_cond_total:
  "((\<exists>v. ffi_cond_eval t st text = Inr v) \<or>
    (\<exists>e n. ffi_cond_eval t st text = Inl (Some (e, n)) \<and> n \<le> (case text of None \<Rightarrow> 0 | Some s \<Rightarrow> length s))) \<and>
   ((\<exists>v. ffi_cond_validate text = Inr v) \<or>
    (\<exists>e n. ffi_cond_validate text = Inl (Some (e, n)) \<and> n \<le> (case text of None \<Rightarrow> 0 | Some s \<Rightarrow> length s)))"
  unfolding ffi_cond_eval_def ffi_cond_validate_def by (intro conjI cond_run_located)

lemma parse_or_single:
  assumes "ready (cond_toks 0 (Key_cmp k True v) []) p"
  shows "\<exists>q. ready [] q \<and> p_check_keys q \<and> parse_or (Suc (Suc (Suc 0))) env p =
    Some (cmp_value env (take 63 k) (tk_pos (p_cur p)) True (take 255 v) q)"
proof -
  let ?q = "next_token (next_token (next_token p))"
  let ?r = "cmp_value env (take 63 k) (tk_pos (p_cur p)) True (take 255 v) ?q"
  have q: "ready [] ?q" "p_check_keys ?q"
    using assms by (simp_all add: ready_Cons)
  have run: "parse_cmp (Suc 0) env p = Some ?r"
    using assms by (simp add: parse_unfold parse_key_def ready_Cons Let_def
        FFI_DEFINES_KEY_MAX_def FFI_DEFINES_VALUE_MAX_def)
  have stop: "tk_kind (p_cur ?q) = FFI_TOK_END" using q by (simp add: ready_def)
  have r: "?r = (None, cond_err ?q (tk_pos (p_cur p)) (Unknown_define (take 63 k))) \<or> (\<exists>w. ?r = (Some w, ?q))"
    using q by (auto simp: cmp_value_def Let_def split: option.split)
  then have "parse_and (Suc (Suc 0)) env p = Some ?r"
    using run stop by (auto simp: parse_unfold(2) loop_stops)
  with r stop have "parse_or (Suc (Suc (Suc 0))) env p = Some ?r"
    by (auto simp: parse_unfold(4) parse_unfold(5))
  with q show ?thesis by blast
qed

text \<open>
  C4 (bounds). The buffers of \<open>parse_cmp\<close> cut keys to 63 and values to 255 bytes without an error:
  a comparison of an overlong key is the comparison of its first 63 bytes, so it can name a
  stored key it is not equal to, and only the first 255 bytes of the literal are compared.
\<close>

theorem ffi_cond_truncates:
  assumes "is_ident (Some k)" and "CHR 0x22 \<notin> set v"
  shows "ffi_cond_eval t st (Some (cond_text 0 (Key_cmp k True v) [])) =
    (case fst (ffi_defines_get t st (Some (take 63 k))) of
       None \<Rightarrow> Inl (Some (Unknown_define (take 63 k), 0))
     | Some w \<Rightarrow> Inr (w = take 255 v))"
proof -
  let ?s = "cond_text 0 (Key_cmp k True v) []"
  let ?p = "next_token (cond_start ?s True)"
  let ?env = "\<lambda>k. fst (ffi_defines_get t st (Some k))"
  obtain r p' where run: "parse_or (10 * length ?s + 15) ?env ?p = Some (r, p')"
    using start_enough by blast
  have rdy: "ready (cond_toks 0 (Key_cmp k True v) []) ?p"
    using assms by (intro cond_start_ready lexes_key lexes_Nil)
  have ne: "?s \<noteq> []" by simp
  have "\<not> is_ws (hd ?s)" using assms(1) by (cases k) (auto simp: not_ws_ident_start)
  with ne have pos: "tk_pos (p_cur ?p) = 0"
    by (cases ?s) (simp_all add: next_token_def skip_ws_def cond_start_def Let_def split: prod.split)
  obtain q where q: "ready [] q" "p_check_keys q"
      "parse_or (Suc (Suc (Suc 0))) ?env ?p = Some (cmp_value ?env (take 63 k) 0 True (take 255 v) q)"
    using parse_or_single [OF rdy, of ?env] pos by auto
  then have "(r, p') = cmp_value ?env (take 63 k) 0 True (take 255 v) q"
    using parse_or_det [OF run] by blast
  then show ?thesis
    using run ne q(1,2)
    by (auto simp: ffi_cond_eval_def cond_run_def cmp_value_def ready_def cond_err_def Let_def
        split: option.split)
qed

lemma ffi_cond_truncates_witness:
  "ffi_cond_eval a_target \<lparr>g_defines = [(replicate 63 CHR ''K'', ''v'')], g_defines_ready = True\<rparr>
     (Some (cond_text 0 (Key_cmp (replicate 70 CHR ''K'') True ''v'') [])) = Inr True"
proof -
  have k: "is_ident (Some (replicate 70 CHR ''K''))" by code_simp
  have "fst (ffi_defines_get a_target \<lparr>g_defines = [(replicate 63 CHR ''K'', ''v'')], g_defines_ready = True\<rparr>
      (Some (take 63 (replicate 70 CHR ''K'')))) = Some ''v''"
    by (simp add: defines_env defines_ensure_ready_def)
  then show ?thesis
    using ffi_cond_truncates [OF k, of "''v''" a_target] by simp
qed

end
