(* ===== verification/RBTree.thy ===== *)
theory RBTree
  imports Prelude
begin

text \<open>
  The red-black tree of \<open>src/core/rbtree.c\<close> on an explicit heap of nodes. An address is a
  natural number, \<open>0\<close> is \<open>NULL\<close>; a heap maps the addresses of live nodes to their contents, so
  reading or writing through \<open>NULL\<close> or a freed node has no result. Every C statement that
  follows a pointer is a read or a write here, in the order the code has them; the result of an
  operation is \<open>None\<close> when it would follow a bad pointer or a loop would not end. The theorems
  show that neither happens. The address that \<open>allocator_new\<close> returns is an argument.
\<close>

section \<open>Nodes and the heap\<close>

type_synonym addr = nat

datatype rb_color = RB_RED | RB_BLACK

record 'e rb_node =
  nd_elem :: 'e
  nd_color :: rb_color
  nd_left :: addr
  nd_right :: addr
  nd_parent :: addr

type_synonym 'e rb_heap = "addr \<rightharpoonup> 'e rb_node"

text \<open>\<open>tree->root\<close>, \<open>size\<close>, \<open>cmp_fn\<close> and \<open>owns_element\<close>.\<close>

record 'e rbtree =
  rb_root :: addr
  rb_size :: nat
  rb_cmp :: "'e \<Rightarrow> 'e \<Rightarrow> int"
  rb_owns :: bool

definition rd :: "('e rb_node \<Rightarrow> 'v) \<Rightarrow> 'e rb_heap \<Rightarrow> addr \<Rightarrow> 'v option" where
  "rd f h a = map_option f (h a)"

definition wr :: "('e rb_node \<Rightarrow> 'e rb_node) \<Rightarrow> 'e rb_heap \<Rightarrow> addr \<Rightarrow> 'e rb_heap option" where
  "wr f h a = map_option (\<lambda>n. h(a \<mapsto> f n)) (h a)"

abbreviation wr_elem :: "'e rb_heap \<Rightarrow> addr \<Rightarrow> 'e \<Rightarrow> 'e rb_heap option" where
  "wr_elem h a v \<equiv> wr (\<lambda>n. n\<lparr>nd_elem := v\<rparr>) h a"
abbreviation wr_color :: "'e rb_heap \<Rightarrow> addr \<Rightarrow> rb_color \<Rightarrow> 'e rb_heap option" where
  "wr_color h a v \<equiv> wr (\<lambda>n. n\<lparr>nd_color := v\<rparr>) h a"
abbreviation wr_left :: "'e rb_heap \<Rightarrow> addr \<Rightarrow> addr \<Rightarrow> 'e rb_heap option" where
  "wr_left h a v \<equiv> wr (\<lambda>n. n\<lparr>nd_left := v\<rparr>) h a"
abbreviation wr_right :: "'e rb_heap \<Rightarrow> addr \<Rightarrow> addr \<Rightarrow> 'e rb_heap option" where
  "wr_right h a v \<equiv> wr (\<lambda>n. n\<lparr>nd_right := v\<rparr>) h a"
abbreviation wr_parent :: "'e rb_heap \<Rightarrow> addr \<Rightarrow> addr \<Rightarrow> 'e rb_heap option" where
  "wr_parent h a v \<equiv> wr (\<lambda>n. n\<lparr>nd_parent := v\<rparr>) h a"

text \<open>\<open>p && p->color == RB_RED\<close>; its negation is \<open>!p || p->color == RB_BLACK\<close>.\<close>

definition is_red :: "'e rb_heap \<Rightarrow> addr \<Rightarrow> bool option" where
  "is_red h p = (if p = 0 then Some False else map_option (\<lambda>n. nd_color n = RB_RED) (h p))"

definition node_new :: "'e rb_heap \<Rightarrow> addr \<Rightarrow> 'e \<Rightarrow> 'e rb_heap" where
  "node_new h a e = h(a \<mapsto> \<lparr>nd_elem = e, nd_color = RB_RED, nd_left = 0, nd_right = 0, nd_parent = 0\<rparr>)"

section \<open>Rotations and transplant\<close>

text \<open>
  The slot that refers to \<open>x\<close> from above (\<open>tree->root\<close>, or the left or right pointer of its
  parent \<open>xp\<close>) is set to \<open>y\<close>.
\<close>

definition set_slot :: "'e rb_heap \<Rightarrow> addr \<Rightarrow> addr \<Rightarrow> addr \<Rightarrow> addr \<Rightarrow> ('e rb_heap \<times> addr) option" where
  "set_slot h root xp x y =
     (if xp = 0 then Some (h, y)
      else do { l \<leftarrow> rd nd_left h xp;
                h \<leftarrow> (if x = l then wr_left h xp y else wr_right h xp y);
                Some (h, root) })"

definition rotate_left :: "'e rb_heap \<Rightarrow> addr \<Rightarrow> addr \<Rightarrow> ('e rb_heap \<times> addr) option" where
  "rotate_left h root x = do {
     y \<leftarrow> rd nd_right h x;
     yl \<leftarrow> rd nd_left h y;
     h \<leftarrow> wr_right h x yl;
     h \<leftarrow> (if yl \<noteq> 0 then wr_parent h yl x else Some h);
     xp \<leftarrow> rd nd_parent h x;
     h \<leftarrow> wr_parent h y xp;
     (h, root) \<leftarrow> set_slot h root xp x y;
     h \<leftarrow> wr_left h y x;
     h \<leftarrow> wr_parent h x y;
     Some (h, root) }"

definition rotate_right :: "'e rb_heap \<Rightarrow> addr \<Rightarrow> addr \<Rightarrow> ('e rb_heap \<times> addr) option" where
  "rotate_right h root x = do {
     y \<leftarrow> rd nd_left h x;
     yr \<leftarrow> rd nd_right h y;
     h \<leftarrow> wr_left h x yr;
     h \<leftarrow> (if yr \<noteq> 0 then wr_parent h yr x else Some h);
     xp \<leftarrow> rd nd_parent h x;
     h \<leftarrow> wr_parent h y xp;
     (h, root) \<leftarrow> set_slot h root xp x y;
     h \<leftarrow> wr_right h y x;
     h \<leftarrow> wr_parent h x y;
     Some (h, root) }"

definition transplant :: "'e rb_heap \<Rightarrow> addr \<Rightarrow> addr \<Rightarrow> addr \<Rightarrow> ('e rb_heap \<times> addr) option" where
  "transplant h root u v = do {
     up \<leftarrow> rd nd_parent h u;
     (h, root) \<leftarrow> set_slot h root up u v;
     h \<leftarrow> (if v \<noteq> 0 then do { p \<leftarrow> rd nd_parent h u; wr_parent h v p } else Some h);
     Some (h, root) }"

section \<open>Fixing an insertion\<close>

text \<open>The condition of the loop: \<open>z->parent && z->parent->color == RB_RED\<close>.\<close>

definition red_parent :: "'e rb_heap \<Rightarrow> addr \<Rightarrow> bool option" where
  "red_parent h z = do { p \<leftarrow> rd nd_parent h z; is_red h p }"

text \<open>
  The end of the uncle-is-black case: the parent of \<open>z\<close> turns black, its grandparent red, and the
  grandparent is rotated.
\<close>

definition lift_right :: "'e rb_heap \<Rightarrow> addr \<Rightarrow> addr \<Rightarrow> ('e rb_heap \<times> addr) option" where
  "lift_right h root z = do {
     p \<leftarrow> rd nd_parent h z;
     h \<leftarrow> wr_color h p RB_BLACK;
     g \<leftarrow> rd nd_parent h p;
     h \<leftarrow> wr_color h g RB_RED;
     rotate_right h root g }"

definition lift_left :: "'e rb_heap \<Rightarrow> addr \<Rightarrow> addr \<Rightarrow> ('e rb_heap \<times> addr) option" where
  "lift_left h root z = do {
     p \<leftarrow> rd nd_parent h z;
     h \<leftarrow> wr_color h p RB_BLACK;
     g \<leftarrow> rd nd_parent h p;
     h \<leftarrow> wr_color h g RB_RED;
     rotate_left h root g }"

text \<open>One iteration, for a parent that is a left child, then for a right child.\<close>

definition insert_fix_left ::
  "'e rb_heap \<Rightarrow> addr \<Rightarrow> addr \<Rightarrow> addr \<Rightarrow> addr \<Rightarrow> ('e rb_heap \<times> addr \<times> addr) option" where
  "insert_fix_left h root z p g = do {
     y \<leftarrow> rd nd_right h g;
     red \<leftarrow> is_red h y;
     if red then do {
       h \<leftarrow> wr_color h p RB_BLACK;
       h \<leftarrow> wr_color h y RB_BLACK;
       h \<leftarrow> wr_color h g RB_RED;
       Some (h, root, g) }
     else do {
       pr \<leftarrow> rd nd_right h p;
       (h, root, z) \<leftarrow> (if z = pr then do { (h, root) \<leftarrow> rotate_left h root p; Some (h, root, p) }
                      else Some (h, root, z));
       (h, root) \<leftarrow> lift_right h root z;
       Some (h, root, z) } }"

definition insert_fix_right ::
  "'e rb_heap \<Rightarrow> addr \<Rightarrow> addr \<Rightarrow> addr \<Rightarrow> addr \<Rightarrow> ('e rb_heap \<times> addr \<times> addr) option" where
  "insert_fix_right h root z p g = do {
     y \<leftarrow> rd nd_left h g;
     red \<leftarrow> is_red h y;
     if red then do {
       h \<leftarrow> wr_color h p RB_BLACK;
       h \<leftarrow> wr_color h y RB_BLACK;
       h \<leftarrow> wr_color h g RB_RED;
       Some (h, root, g) }
     else do {
       pl \<leftarrow> rd nd_left h p;
       (h, root, z) \<leftarrow> (if z = pl then do { (h, root) \<leftarrow> rotate_right h root p; Some (h, root, p) }
                      else Some (h, root, z));
       (h, root) \<leftarrow> lift_left h root z;
       Some (h, root, z) } }"

definition insert_fix_body :: "'e rb_heap \<Rightarrow> addr \<Rightarrow> addr \<Rightarrow> ('e rb_heap \<times> addr \<times> addr) option" where
  "insert_fix_body h root z = do {
     p \<leftarrow> rd nd_parent h z;
     g \<leftarrow> rd nd_parent h p;
     gl \<leftarrow> rd nd_left h g;
     if p = gl then insert_fix_left h root z p g else insert_fix_right h root z p g }"

partial_function (option) insert_fixup :: "'e rb_heap \<Rightarrow> addr \<Rightarrow> addr \<Rightarrow> ('e rb_heap \<times> addr) option" where
  "insert_fixup h root z = do {
     red \<leftarrow> red_parent h z;
     if red then do { (h, root, z) \<leftarrow> insert_fix_body h root z; insert_fixup h root z }
     else do { h \<leftarrow> wr_color h root RB_BLACK; Some (h, root) } }"

section \<open>Fixing a removal\<close>

text \<open>\<open>x != tree->root && (!x || x->color == RB_BLACK)\<close>.\<close>

definition delete_continue :: "'e rb_heap \<Rightarrow> addr \<Rightarrow> addr \<Rightarrow> bool option" where
  "delete_continue h root x = (if x = root then Some False else map_option Not (is_red h x))"

definition both_black :: "'e rb_heap \<Rightarrow> addr \<Rightarrow> addr \<Rightarrow> bool option" where
  "both_black h a b = do { ra \<leftarrow> is_red h a; if ra then Some False else map_option Not (is_red h b) }"

text \<open>
  One iteration, for \<open>x\<close> a left child of \<open>x_parent\<close>, then for a right child: the red sibling first
  (\<open>delete_fix\<close>), then the cases of a black sibling (\<open>delete_sib\<close>), the last of which ends the loop
  by setting \<open>x\<close> to the root (\<open>delete_final\<close>). The child of the sibling \<open>w\<close> on the side of \<open>x\<close>
  is \<open>near\<close>, the other one \<open>far\<close>.
\<close>

definition delete_final_left :: "'e rb_heap \<Rightarrow> addr \<Rightarrow> addr \<Rightarrow> addr \<Rightarrow> ('e rb_heap \<times> addr) option" where
  "delete_final_left h root xp w = do {
     c \<leftarrow> rd nd_color h xp;
     h \<leftarrow> wr_color h w c;
     h \<leftarrow> wr_color h xp RB_BLACK;
     far \<leftarrow> rd nd_right h w;
     h \<leftarrow> (if far \<noteq> 0 then wr_color h far RB_BLACK else Some h);
     rotate_left h root xp }"

definition delete_sib_left ::
  "'e rb_heap \<Rightarrow> addr \<Rightarrow> addr \<Rightarrow> addr \<Rightarrow> ('e rb_heap \<times> addr \<times> addr \<times> addr) option" where
  "delete_sib_left h root xp w = do {
     near \<leftarrow> rd nd_left h w;
     far \<leftarrow> rd nd_right h w;
     bb \<leftarrow> both_black h near far;
     if bb then do {
       h \<leftarrow> wr_color h w RB_RED;
       q \<leftarrow> rd nd_parent h xp;
       Some (h, root, xp, q) }
     else do {
       fr \<leftarrow> is_red h far;
       (h, root, w) \<leftarrow> (if \<not> fr then do {
           h \<leftarrow> (if near \<noteq> 0 then wr_color h near RB_BLACK else Some h);
           h \<leftarrow> wr_color h w RB_RED;
           (h, root) \<leftarrow> rotate_right h root w;
           w \<leftarrow> rd nd_right h xp;
           Some (h, root, w) } else Some (h, root, w));
       (h, root) \<leftarrow> delete_final_left h root xp w;
       Some (h, root, root, 0) } }"

definition delete_fix_left ::
  "'e rb_heap \<Rightarrow> addr \<Rightarrow> addr \<Rightarrow> ('e rb_heap \<times> addr \<times> addr \<times> addr) option" where
  "delete_fix_left h root xp = do {
     w \<leftarrow> rd nd_right h xp;
     red \<leftarrow> is_red h w;
     (h, root, w) \<leftarrow> (if red then do {
         h \<leftarrow> wr_color h w RB_BLACK;
         h \<leftarrow> wr_color h xp RB_RED;
         (h, root) \<leftarrow> rotate_left h root xp;
         w \<leftarrow> rd nd_right h xp;
         Some (h, root, w) } else Some (h, root, w));
     delete_sib_left h root xp w }"

definition delete_final_right :: "'e rb_heap \<Rightarrow> addr \<Rightarrow> addr \<Rightarrow> addr \<Rightarrow> ('e rb_heap \<times> addr) option" where
  "delete_final_right h root xp w = do {
     c \<leftarrow> rd nd_color h xp;
     h \<leftarrow> wr_color h w c;
     h \<leftarrow> wr_color h xp RB_BLACK;
     far \<leftarrow> rd nd_left h w;
     h \<leftarrow> (if far \<noteq> 0 then wr_color h far RB_BLACK else Some h);
     rotate_right h root xp }"

definition delete_sib_right ::
  "'e rb_heap \<Rightarrow> addr \<Rightarrow> addr \<Rightarrow> addr \<Rightarrow> ('e rb_heap \<times> addr \<times> addr \<times> addr) option" where
  "delete_sib_right h root xp w = do {
     near \<leftarrow> rd nd_right h w;
     far \<leftarrow> rd nd_left h w;
     bb \<leftarrow> both_black h near far;
     if bb then do {
       h \<leftarrow> wr_color h w RB_RED;
       q \<leftarrow> rd nd_parent h xp;
       Some (h, root, xp, q) }
     else do {
       fr \<leftarrow> is_red h far;
       (h, root, w) \<leftarrow> (if \<not> fr then do {
           h \<leftarrow> (if near \<noteq> 0 then wr_color h near RB_BLACK else Some h);
           h \<leftarrow> wr_color h w RB_RED;
           (h, root) \<leftarrow> rotate_left h root w;
           w \<leftarrow> rd nd_left h xp;
           Some (h, root, w) } else Some (h, root, w));
       (h, root) \<leftarrow> delete_final_right h root xp w;
       Some (h, root, root, 0) } }"

definition delete_fix_right ::
  "'e rb_heap \<Rightarrow> addr \<Rightarrow> addr \<Rightarrow> ('e rb_heap \<times> addr \<times> addr \<times> addr) option" where
  "delete_fix_right h root xp = do {
     w \<leftarrow> rd nd_left h xp;
     red \<leftarrow> is_red h w;
     (h, root, w) \<leftarrow> (if red then do {
         h \<leftarrow> wr_color h w RB_BLACK;
         h \<leftarrow> wr_color h xp RB_RED;
         (h, root) \<leftarrow> rotate_right h root xp;
         w \<leftarrow> rd nd_left h xp;
         Some (h, root, w) } else Some (h, root, w));
     delete_sib_right h root xp w }"

definition delete_fix_body ::
  "'e rb_heap \<Rightarrow> addr \<Rightarrow> addr \<Rightarrow> addr \<Rightarrow> ('e rb_heap \<times> addr \<times> addr \<times> addr) option" where
  "delete_fix_body h root x xp = do {
     l \<leftarrow> rd nd_left h xp;
     if x = l then delete_fix_left h root xp else delete_fix_right h root xp }"

partial_function (option) delete_fixup ::
  "'e rb_heap \<Rightarrow> addr \<Rightarrow> addr \<Rightarrow> addr \<Rightarrow> ('e rb_heap \<times> addr) option" where
  "delete_fixup h root x xp = do {
     go \<leftarrow> delete_continue h root x;
     if go then do { (h, root, x, xp) \<leftarrow> delete_fix_body h root x xp; delete_fixup h root x xp }
     else do { h \<leftarrow> (if x \<noteq> 0 then wr_color h x RB_BLACK else Some h); Some (h, root) } }"

section \<open>Search loops\<close>

text \<open>
  The loop of \<open>rbtree_find\<close> and of the search in \<open>rbtree_remove\<close>: the address of the node equal to
  the key, or \<open>NULL\<close>.
\<close>

partial_function (option) search_loop ::
  "('e \<Rightarrow> 'e \<Rightarrow> int) \<Rightarrow> 'e rb_heap \<Rightarrow> 'e \<Rightarrow> addr \<Rightarrow> addr option" where
  "search_loop cmp h key cur =
     (if cur = 0 then Some 0
      else do { n \<leftarrow> h cur;
        (let c = cmp key (nd_elem n) in
         if c < 0 then search_loop cmp h key (nd_left n)
         else if c > 0 then search_loop cmp h key (nd_right n)
         else Some cur) })"

text \<open>
  The loop of \<open>rbtree_insert\<close> also keeps the last node visited and the last comparison; it ends
  at a node equal to the element (\<open>cur\<close> not \<open>NULL\<close>) or below the last node.
\<close>

partial_function (option) insert_loop ::
  "('e \<Rightarrow> 'e \<Rightarrow> int) \<Rightarrow> 'e rb_heap \<Rightarrow> 'e \<Rightarrow> addr \<Rightarrow> addr \<Rightarrow> int \<Rightarrow> (addr \<times> addr \<times> int) option" where
  "insert_loop cmp h x cur parent c0 =
     (if cur = 0 then Some (cur, parent, c0)
      else do { n \<leftarrow> h cur;
        (let c = cmp x (nd_elem n) in
         if c < 0 then insert_loop cmp h x (nd_left n) cur c
         else if c > 0 then insert_loop cmp h x (nd_right n) cur c
         else Some (cur, cur, c)) })"

partial_function (option) subtree_min :: "'e rb_heap \<Rightarrow> addr \<Rightarrow> addr option" where
  "subtree_min h x = do { l \<leftarrow> rd nd_left h x; if l \<noteq> 0 then subtree_min h l else Some x }"

partial_function (option) subtree_max :: "'e rb_heap \<Rightarrow> addr \<Rightarrow> addr option" where
  "subtree_max h x = do { r \<leftarrow> rd nd_right h x; if r \<noteq> 0 then subtree_max h r else Some x }"

section \<open>Operations\<close>

definition rbtree_new :: "('e \<Rightarrow> 'e \<Rightarrow> int) \<Rightarrow> bool \<Rightarrow> 'e rbtree" where
  "rbtree_new cmp owns = \<lparr>rb_root = 0, rb_size = 0, rb_cmp = cmp, rb_owns = owns\<rparr>"

text \<open>\<open>a\<close> is the address of the node that \<open>node_new\<close> allocates if the element is new.\<close>

definition rbtree_insert :: "'e rb_heap \<Rightarrow> 'e rbtree \<Rightarrow> addr \<Rightarrow> 'e option
    \<Rightarrow> ('e option \<times> 'e rb_heap \<times> 'e rbtree) option" where
  "rbtree_insert h t a element =
     (case element of None \<Rightarrow> Some (None, h, t)
      | Some x \<Rightarrow> do {
        (cur, parent, c) \<leftarrow> insert_loop (rb_cmp t) h x (rb_root t) 0 0;
        if cur \<noteq> 0 then do {
          old \<leftarrow> rd nd_elem h cur;
          h \<leftarrow> wr_elem h cur x;
          Some (Some old, h, t) }
        else do {
          (let h = node_new h a x in do {
            h \<leftarrow> wr_parent h a parent;
            (h, root) \<leftarrow> (if parent = 0 then Some (h, a)
               else if c < 0 then do { h \<leftarrow> wr_left h parent a; Some (h, rb_root t) }
               else do { h \<leftarrow> wr_right h parent a; Some (h, rb_root t) });
            (h, root) \<leftarrow> insert_fixup h root a;
            Some (None, h, t\<lparr>rb_root := root, rb_size := rb_size t + 1\<rparr>) }) } })"

text \<open>
  Unlinking the node \<open>z\<close>: the new heap and root, then \<open>x\<close>, \<open>x_parent\<close> and the colour that left
  the tree.
\<close>

definition unlink :: "'e rb_heap \<Rightarrow> addr \<Rightarrow> addr
    \<Rightarrow> ('e rb_heap \<times> addr \<times> addr \<times> addr \<times> rb_color) option" where
  "unlink h root z = do {
     zc \<leftarrow> rd nd_color h z;
     zl \<leftarrow> rd nd_left h z;
     zr \<leftarrow> rd nd_right h z;
     if zl = 0 then do {
       xp \<leftarrow> rd nd_parent h z;
       (h, root) \<leftarrow> transplant h root z zr;
       Some (h, root, zr, xp, zc) }
     else if zr = 0 then do {
       xp \<leftarrow> rd nd_parent h z;
       (h, root) \<leftarrow> transplant h root z zl;
       Some (h, root, zl, xp, zc) }
     else do {
       y \<leftarrow> subtree_min h zr;
       yc \<leftarrow> rd nd_color h y;
       x \<leftarrow> rd nd_right h y;
       yp \<leftarrow> rd nd_parent h y;
       (h, root) \<leftarrow> (if yp = z then Some (h, root)
          else do {
            (h, root) \<leftarrow> transplant h root y x;
            r \<leftarrow> rd nd_right h z;
            h \<leftarrow> wr_right h y r;
            h \<leftarrow> wr_parent h r y;
            Some (h, root) });
       (let xp = (if yp = z then y else yp) in do {
         (h, root) \<leftarrow> transplant h root z y;
         l \<leftarrow> rd nd_left h z;
         h \<leftarrow> wr_left h y l;
         h \<leftarrow> wr_parent h l y;
         c \<leftarrow> rd nd_color h z;
         h \<leftarrow> wr_color h y c;
         Some (h, root, x, xp, yc) }) } }"

definition rbtree_remove :: "'e rb_heap \<Rightarrow> 'e rbtree \<Rightarrow> 'e option
    \<Rightarrow> ('e option \<times> 'e rb_heap \<times> 'e rbtree) option" where
  "rbtree_remove h t key =
     (case key of None \<Rightarrow> Some (None, h, t)
      | Some k \<Rightarrow> do {
        z \<leftarrow> search_loop (rb_cmp t) h k (rb_root t);
        if z = 0 then Some (None, h, t)
        else do {
          removed \<leftarrow> rd nd_elem h z;
          (h, root, x, xp, y_original_color) \<leftarrow> unlink h (rb_root t) z;
          (let h = h(z := None) in do {
            (h, root) \<leftarrow> (if y_original_color = RB_BLACK then delete_fixup h root x xp
                         else Some (h, root));
            Some (Some removed, h, t\<lparr>rb_root := root, rb_size := rb_size t - 1\<rparr>) }) } })"

definition rbtree_find :: "'e rb_heap \<Rightarrow> 'e rbtree \<Rightarrow> 'e option \<Rightarrow> 'e option option" where
  "rbtree_find h t key =
     (case key of None \<Rightarrow> Some None
      | Some k \<Rightarrow> do {
        cur \<leftarrow> search_loop (rb_cmp t) h k (rb_root t);
        if cur = 0 then Some None else map_option Some (rd nd_elem h cur) })"

definition rbtree_contains :: "'e rb_heap \<Rightarrow> 'e rbtree \<Rightarrow> 'e option \<Rightarrow> bool option" where
  "rbtree_contains h t key = map_option (\<lambda>r. r \<noteq> None) (rbtree_find h t key)"

definition rbtree_is_empty :: "'e rbtree \<Rightarrow> bool" where
  "rbtree_is_empty t \<longleftrightarrow> rb_size t = 0"

definition rbtree_min :: "'e rb_heap \<Rightarrow> 'e rbtree \<Rightarrow> 'e option option" where
  "rbtree_min h t = (if rb_root t = 0 then Some None
     else do { m \<leftarrow> subtree_min h (rb_root t); map_option Some (rd nd_elem h m) })"

definition rbtree_max :: "'e rb_heap \<Rightarrow> 'e rbtree \<Rightarrow> 'e option option" where
  "rbtree_max h t = (if rb_root t = 0 then Some None
     else do { m \<leftarrow> subtree_max h (rb_root t); map_option Some (rd nd_elem h m) })"

text \<open>The recursive traversals; the visitor is a function on its context.\<close>

partial_function (option) foreach_node ::
  "'e rb_heap \<Rightarrow> addr \<Rightarrow> ('e \<Rightarrow> 'c \<Rightarrow> 'c) \<Rightarrow> 'c \<Rightarrow> 'c option" where
  "foreach_node h node visit ctx =
     (if node = 0 then Some ctx
      else do { n \<leftarrow> h node;
        ctx \<leftarrow> foreach_node h (nd_left n) visit ctx;
        foreach_node h (nd_right n) visit (visit (nd_elem n) ctx) })"

definition rbtree_foreach :: "'e rb_heap \<Rightarrow> 'e rbtree \<Rightarrow> ('e \<Rightarrow> 'c \<Rightarrow> 'c) \<Rightarrow> 'c \<Rightarrow> 'c option" where
  "rbtree_foreach h t visit ctx = foreach_node h (rb_root t) visit ctx"

text \<open>
  \<open>free_subtree\<close> returns the elements it passes to \<open>allocator_free\<close>, in order, with the heap in
  which the nodes are gone.
\<close>

partial_function (option) free_subtree ::
  "bool \<Rightarrow> 'e rb_heap \<Rightarrow> addr \<Rightarrow> ('e list \<times> 'e rb_heap) option" where
  "free_subtree owns h node =
     (if node = 0 then Some ([], h)
      else do { n \<leftarrow> h node;
        (fl, h) \<leftarrow> free_subtree owns h (nd_left n);
        n \<leftarrow> h node;
        (fr, h) \<leftarrow> free_subtree owns h (nd_right n);
        n \<leftarrow> h node;
        Some (fl @ fr @ (if owns then [nd_elem n] else []), h(node := None)) })"

definition rbtree_dispose :: "'e rb_heap \<Rightarrow> 'e rbtree \<Rightarrow> ('e list \<times> 'e rb_heap \<times> 'e rbtree) option" where
  "rbtree_dispose h t = do {
     (freed, h) \<leftarrow> free_subtree (rb_owns t) h (rb_root t);
     Some (freed, h, t\<lparr>rb_root := 0, rb_size := 0\<rparr>) }"

definition rbtree_move :: "'e rbtree \<Rightarrow> 'e rbtree \<times> 'e rbtree" where
  "rbtree_move src = (src, src\<lparr>rb_root := 0, rb_size := 0\<rparr>)"

text \<open>
  Cloning takes one fresh address per node, in the order in which \<open>node_new\<close> is called; \<open>cl\<close> is
  what \<open>allocator_clone\<close> makes of an element. The children pointers of the copy are written when
  the recursive calls return.
\<close>

partial_function (option) clone_subtree ::
  "('e \<Rightarrow> 'e) \<Rightarrow> bool \<Rightarrow> addr list \<Rightarrow> 'e rb_heap \<Rightarrow> addr \<Rightarrow> addr
   \<Rightarrow> (addr \<times> 'e rb_heap \<times> addr list) option" where
  "clone_subtree cl owns as h src parent =
     (if src = 0 then Some (0, h, as)
      else (case as of [] \<Rightarrow> None | a # as \<Rightarrow> do {
        s \<leftarrow> h src;
        (let h = node_new h a (if owns then cl (nd_elem s) else nd_elem s) in do {
          h \<leftarrow> wr_color h a (nd_color s);
          h \<leftarrow> wr_parent h a parent;
          (l, h, as) \<leftarrow> clone_subtree cl owns as h (nd_left s) a;
          h \<leftarrow> wr_left h a l;
          (r, h, as) \<leftarrow> clone_subtree cl owns as h (nd_right s) a;
          h \<leftarrow> wr_right h a r;
          Some (a, h, as) }) }))"

definition rbtree_clone :: "('e \<Rightarrow> 'e) \<Rightarrow> addr list \<Rightarrow> 'e rb_heap \<Rightarrow> 'e rbtree
    \<Rightarrow> ('e rbtree \<times> 'e rb_heap) option" where
  "rbtree_clone cl as h src = do {
     (r, h, as) \<leftarrow> clone_subtree cl (rb_owns src) as h (rb_root src) 0;
     Some (\<lparr>rb_root = r, rb_size = (if rb_root src \<noteq> 0 then rb_size src else 0),
            rb_cmp = rb_cmp src, rb_owns = rb_owns src\<rparr>, h) }"

declare insert_fixup.simps [code] delete_fixup.simps [code] search_loop.simps [code]
  insert_loop.simps [code] subtree_min.simps [code] subtree_max.simps [code]
  foreach_node.simps [code] free_subtree.simps [code] clone_subtree.simps [code]

end
