(* ===== verification/RBTreeShape.thy ===== *)
theory RBTreeShape
  imports RBTree
begin

text \<open>
  The shape of a red-black tree and its representation in the heap of \<open>RBTree\<close>; a zipper (a subtree
  and the path above it) for the loops that walk upwards; the proof that the two rotations and
  \<open>transplant\<close> refine rotations of the shape; the colour and height invariants.
\<close>

section \<open>Trees in the heap\<close>

text \<open>
  The shape of a tree, each node with its address and colour, and the path from a subtree up to
  the root: a frame is a node whose left (\<open>LFr\<close>) or right (\<open>RFr\<close>) child is the subtree below.
\<close>

datatype 'e rtree = Lf | Nd addr rb_color "'e rtree" 'e "'e rtree"

datatype 'e frame = LFr addr rb_color 'e "'e rtree" | RFr addr rb_color "'e rtree" 'e

fun root_addr :: "'e rtree \<Rightarrow> addr" where
  "root_addr Lf = 0"
| "root_addr (Nd a c l e r) = a"

fun addrs :: "'e rtree \<Rightarrow> addr list" where
  "addrs Lf = []"
| "addrs (Nd a c l e r) = a # addrs l @ addrs r"

fun inorder :: "'e rtree \<Rightarrow> 'e list" where
  "inorder Lf = []"
| "inorder (Nd a c l e r) = inorder l @ e # inorder r"

fun tree_in :: "'e rb_heap \<Rightarrow> addr \<Rightarrow> 'e rtree \<Rightarrow> bool" where
  "tree_in h p Lf \<longleftrightarrow> True"
| "tree_in h p (Nd a c l e r) \<longleftrightarrow> a \<noteq> 0 \<and>
     h a = Some \<lparr>nd_elem = e, nd_color = c, nd_left = root_addr l, nd_right = root_addr r, nd_parent = p\<rparr> \<and>
     tree_in h a l \<and> tree_in h a r"

fun plug :: "'e frame list \<Rightarrow> 'e rtree \<Rightarrow> 'e rtree" where
  "plug [] t = t"
| "plug (LFr p c e s # k) t = plug k (Nd p c t e s)"
| "plug (RFr p c s e # k) t = plug k (Nd p c s e t)"

fun frame_addr :: "'e frame \<Rightarrow> addr" where
  "frame_addr (LFr p c e s) = p"
| "frame_addr (RFr p c s e) = p"

fun path_addr :: "'e frame list \<Rightarrow> addr" where
  "path_addr [] = 0"
| "path_addr (f # k) = frame_addr f"

fun path_addrs :: "'e frame list \<Rightarrow> addr list" where
  "path_addrs [] = []"
| "path_addrs (LFr p c e s # k) = p # addrs s @ path_addrs k"
| "path_addrs (RFr p c s e # k) = p # addrs s @ path_addrs k"

fun path_in :: "'e rb_heap \<Rightarrow> addr \<Rightarrow> 'e frame list \<Rightarrow> bool" where
  "path_in h a [] \<longleftrightarrow> True"
| "path_in h a (LFr p c e s # k) \<longleftrightarrow> p \<noteq> 0 \<and>
     h p = Some \<lparr>nd_elem = e, nd_color = c, nd_left = a, nd_right = root_addr s, nd_parent = path_addr k\<rparr> \<and>
     tree_in h p s \<and> path_in h p k"
| "path_in h a (RFr p c s e # k) \<longleftrightarrow> p \<noteq> 0 \<and>
     h p = Some \<lparr>nd_elem = e, nd_color = c, nd_left = root_addr s, nd_right = a, nd_parent = path_addr k\<rparr> \<and>
     tree_in h p s \<and> path_in h p k"

fun top_addr :: "'e frame list \<Rightarrow> addr \<Rightarrow> addr" where
  "top_addr [] a = a"
| "top_addr (f # k) a = top_addr k (frame_addr f)"

text \<open>The subtree \<open>t\<close> under the path \<open>k\<close>, in the heap, with the address in \<open>tree->root\<close>.\<close>

definition zip_in :: "'e rb_heap \<Rightarrow> addr \<Rightarrow> 'e frame list \<Rightarrow> 'e rtree \<Rightarrow> bool" where
  "zip_in h root k t \<longleftrightarrow> tree_in h (path_addr k) t \<and> path_in h (root_addr t) k
     \<and> distinct (addrs t @ path_addrs k) \<and> root = top_addr k (root_addr t)"

lemma tree_in_upd [simp, heap_simps]: "a \<notin> set (addrs t) \<Longrightarrow> tree_in (h(a := v)) p t = tree_in h p t"
  by (induction t arbitrary: p) auto

lemma path_in_upd [simp, heap_simps]: "a \<notin> set (path_addrs k) \<Longrightarrow> path_in (h(a := v)) b k = path_in h b k"
  by (induction h b k rule: path_in.induct) auto

lemma path_addr_mem [simp]: "k \<noteq> [] \<Longrightarrow> path_addr k \<in> set (path_addrs k)"
  by (cases k rule: path_addrs.cases) auto

lemma tree_in_nonzero: "tree_in h p t \<Longrightarrow> 0 \<notin> set (addrs t)"
  by (induction t arbitrary: p) auto

lemma path_in_nonzero: "path_in h a k \<Longrightarrow> 0 \<notin> set (path_addrs k)"
  by (induction h a k rule: path_in.induct) (auto dest: tree_in_nonzero)

lemma root_addr_mem [simp]: "root_addr t \<in> set (addrs t) \<longleftrightarrow> t \<noteq> Lf"
  by (cases t) auto

lemma root_addr_0: "tree_in h p t \<Longrightarrow> root_addr t = 0 \<longleftrightarrow> t = Lf"
  by (cases t) auto

lemma path_addr_0: "path_in h a k \<Longrightarrow> path_addr k = 0 \<longleftrightarrow> k = []"
  by (cases k rule: path_addrs.cases) auto

lemma zip_in_root: "zip_in h root [] t \<longleftrightarrow> tree_in h 0 t \<and> distinct (addrs t) \<and> root = root_addr t"
  by (auto simp: zip_in_def)

lemma zip_in_left: "zip_in h root (LFr p c e s # k) t \<longleftrightarrow> zip_in h root k (Nd p c t e s)"
  by (auto simp: zip_in_def)

lemma zip_in_right: "zip_in h root (RFr p c s e # k) t \<longleftrightarrow> zip_in h root k (Nd p c s e t)"
  by (auto simp: zip_in_def)

lemma zip_in_plug: "zip_in h root k t \<longleftrightarrow> zip_in h root [] (plug k t)"
  by (induction k t rule: plug.induct) (auto simp: zip_in_left zip_in_right)

lemma set_addrs_plug: "set (addrs (plug k t)) = set (addrs t) \<union> set (path_addrs k)"
  by (induction k t rule: plug.induct) auto

section \<open>Rotations refine rotations of the shape\<close>

text \<open>\<open>touches S h h'\<close>: no cell outside \<open>S\<close> differs.\<close>

definition touches :: "addr set \<Rightarrow> 'e rb_heap \<Rightarrow> 'e rb_heap \<Rightarrow> bool" where
  "touches S h h' \<longleftrightarrow> (\<forall>a. a \<notin> S \<longrightarrow> h' a = h a)"

lemma touches_refl [simp]: "touches S h h" by (simp add: touches_def)
lemma touches_trans: "touches S h h' \<Longrightarrow> touches S h' h'' \<Longrightarrow> touches S h h''" by (simp add: touches_def)
lemma touches_mono: "touches S h h' \<Longrightarrow> S \<subseteq> T \<Longrightarrow> touches T h h'" by (auto simp: touches_def)
lemma touches_upd [simp]: "a \<in> S \<Longrightarrow> touches S h (h'(a := v)) \<longleftrightarrow> touches S h h'"
  by (auto simp: touches_def)

lemma rd_Some: "h a = Some n \<Longrightarrow> rd f h a = Some (f n)" by (simp add: rd_def)
lemma wr_Some: "h a = Some n \<Longrightarrow> wr f h a = Some (h(a \<mapsto> f n))" by (simp add: wr_def)

lemmas exec = rd_Some wr_Some is_red_def set_slot_def

lemma rotate_left_zip:
  assumes "zip_in h root k (Nd x c a e (Nd y d b f g))"
  shows "\<exists>h' root'. rotate_left h root x = Some (h', root') \<and>
     zip_in h' root' k (Nd y d (Nd x c a e b) f g) \<and>
     touches (set (addrs (Nd x c a e (Nd y d b f g))) \<union> set (path_addrs k)) h h'"
proof (cases b)
  case Lf
  then show ?thesis
    using assms
    by (cases k rule: path_addrs.cases)
      (auto simp: zip_in_def rotate_left_def exec path_addr_0)
next
  case (Nd z zc zl ze zr)
  then show ?thesis
    using assms
    by (cases k rule: path_addrs.cases)
      (auto simp: zip_in_def rotate_left_def exec path_addr_0)
qed

lemma rotate_right_zip:
  assumes "zip_in h root k (Nd x c (Nd y d b f g) e a)"
  shows "\<exists>h' root'. rotate_right h root x = Some (h', root') \<and>
     zip_in h' root' k (Nd y d b f (Nd x c g e a)) \<and>
     touches (set (addrs (Nd x c (Nd y d b f g) e a)) \<union> set (path_addrs k)) h h'"
proof (cases g)
  case Lf
  then show ?thesis
    using assms
    by (cases k rule: path_addrs.cases)
      (auto simp: zip_in_def rotate_right_def exec path_addr_0)
next
  case (Nd z zc zl ze zr)
  then show ?thesis
    using assms
    by (cases k rule: path_addrs.cases)
      (auto simp: zip_in_def rotate_right_def exec path_addr_0)
qed

lemma wr_color_zip:
  assumes "zip_in h root k (Nd a c l e r)"
  shows "zip_in (h(a \<mapsto> \<lparr>nd_elem = e, nd_color = c', nd_left = root_addr l, nd_right = root_addr r,
      nd_parent = path_addr k\<rparr>)) root k (Nd a c' l e r)"
  using assms by (auto simp: zip_in_def)

text \<open>\<open>transplant\<close> puts the tree \<open>v\<close> into the place of \<open>u\<close>; \<open>u\<close>'s own cell keeps its pointers.\<close>

lemma transplant_zip:
  assumes "path_in h u k" and "distinct (addrs v @ path_addrs k)" and "u \<noteq> 0" and "u \<notin> set (addrs v @ path_addrs k)"
    and "h u = Some n" and "nd_parent n = path_addr k" and "root = top_addr k u" and "tree_in h q v"
  shows "\<exists>h' root'. transplant h root u (root_addr v) = Some (h', root') \<and> zip_in h' root' k v \<and>
     h' u = Some n \<and> touches (set (addrs v) \<union> set (path_addrs k)) h h'"
proof (cases v)
  case Lf
  then show ?thesis
    using assms
    by (cases k rule: path_addrs.cases)
      (auto simp: zip_in_def transplant_def exec path_addr_0)
next
  case (Nd z zc zl ze zr)
  then show ?thesis
    using assms
    by (cases k rule: path_addrs.cases)
      (auto simp: zip_in_def transplant_def exec path_addr_0)
qed

section \<open>Colour and height invariants\<close>

fun root_color :: "'e rtree \<Rightarrow> rb_color" where
  "root_color Lf = RB_BLACK"
| "root_color (Nd a c l e r) = c"

text \<open>
  \<open>rbh t n\<close>: no red node of \<open>t\<close> has a red child, and every path from the root to a leaf passes \<open>n\<close>
  black nodes.
\<close>

fun rbh :: "'e rtree \<Rightarrow> nat \<Rightarrow> bool" where
  "rbh Lf n \<longleftrightarrow> n = 0"
| "rbh (Nd a RB_RED l e r) n \<longleftrightarrow> root_color l = RB_BLACK \<and> root_color r = RB_BLACK \<and> rbh l n \<and> rbh r n"
| "rbh (Nd a RB_BLACK l e r) n \<longleftrightarrow> (\<exists>m. n = Suc m \<and> rbh l m \<and> rbh r m)"

text \<open>
  \<open>path_ok k n\<close>: with a subtree of black height \<open>n\<close> below it the path gives a tree that satisfies
  the invariants, its root black, if the subtree's root may stand below the first frame.
\<close>

fun path_color :: "'e frame list \<Rightarrow> rb_color" where
  "path_color [] = RB_BLACK"
| "path_color (LFr p c e s # k) = c"
| "path_color (RFr p c s e # k) = c"

fun path_ok :: "'e frame list \<Rightarrow> nat \<Rightarrow> bool" where
  "path_ok [] n \<longleftrightarrow> True"
| "path_ok (LFr p c e s # k) n \<longleftrightarrow> rbh s n \<and>
     (c = RB_RED \<longrightarrow> root_color s = RB_BLACK \<and> path_color k = RB_BLACK \<and> k \<noteq> []) \<and>
     path_ok k (if c = RB_RED then n else Suc n)"
| "path_ok (RFr p c s e # k) n \<longleftrightarrow> rbh s n \<and>
     (c = RB_RED \<longrightarrow> root_color s = RB_BLACK \<and> path_color k = RB_BLACK \<and> k \<noteq> []) \<and>
     path_ok k (if c = RB_RED then n else Suc n)"

definition rbt :: "'e rtree \<Rightarrow> bool" where
  "rbt t \<longleftrightarrow> root_color t = RB_BLACK \<and> (\<exists>n. rbh t n)"

lemma rbt_plug:
  "path_ok k n \<Longrightarrow> rbh t n \<Longrightarrow> (k = [] \<or> path_color k = RB_RED \<longrightarrow> root_color t = RB_BLACK) \<Longrightarrow> rbt (plug k t)"
proof (induction k t arbitrary: n rule: plug.induct)
  case (1 t)
  then show ?case by (auto simp: rbt_def)
next
  case (2 p c e s k t)
  then show ?case by (cases c) (auto)
next
  case (3 p c s e k t)
  then show ?case by (cases c) (auto)
qed

lemma plug_rbt:
  "rbt (plug k t) \<Longrightarrow> \<exists>n. path_ok k n \<and> rbh t n \<and> (k = [] \<or> path_color k = RB_RED \<longrightarrow> root_color t = RB_BLACK)"
proof (induction k t rule: plug.induct)
  case (1 t)
  then show ?case by (auto simp: rbt_def)
next
  case (2 p c e s k t)
  then obtain n where n: "path_ok k n" "rbh (Nd p c t e s) n" "k = [] \<or> path_color k = RB_RED \<longrightarrow> c = RB_BLACK"
    by auto
  then show ?case by (cases c) (auto intro: rb_color.exhaust)
next
  case (3 p c s e k t)
  then obtain n where n: "path_ok k n" "rbh (Nd p c s e t) n" "k = [] \<or> path_color k = RB_RED \<longrightarrow> c = RB_BLACK"
    by auto
  then show ?case by (cases c) (auto intro: rb_color.exhaust)
qed

section \<open>Rebalancing\<close>

fun before :: "'e frame list \<Rightarrow> 'e list" where
  "before [] = []"
| "before (LFr p c e s # k) = before k"
| "before (RFr p c s e # k) = before k @ inorder s @ [e]"

fun after :: "'e frame list \<Rightarrow> 'e list" where
  "after [] = []"
| "after (LFr p c e s # k) = e # inorder s @ after k"
| "after (RFr p c s e # k) = after k"

lemma inorder_plug: "inorder (plug k t) = before k @ inorder t @ after k"
  by (induction k t rule: plug.induct) auto

text \<open>What a rebalancing of the tree \<open>t\<close> does to the heap: the same elements in the same nodes.\<close>

definition rebalanced :: "'e rb_heap \<Rightarrow> 'e rtree \<Rightarrow> 'e rb_heap \<Rightarrow> 'e rtree \<Rightarrow> bool" where
  "rebalanced h t h' t' \<longleftrightarrow> inorder t' = inorder t \<and> set (addrs t') = set (addrs t) \<and>
     touches (set (addrs t)) h h'"

lemma rebalanced_trans:
  "rebalanced h t h' t' \<Longrightarrow> rebalanced h' t' h'' t'' \<Longrightarrow> rebalanced h t h'' t''"
  by (auto simp: rebalanced_def intro: touches_trans)

lemma rebalanced_plug:
  "inorder t' = inorder t \<Longrightarrow> set (addrs t') = set (addrs t) \<Longrightarrow>
   touches (set (addrs t) \<union> set (path_addrs k)) h h' \<Longrightarrow> rebalanced h (plug k t) h' (plug k t')"
  by (simp add: rebalanced_def inorder_plug set_addrs_plug)

lemma is_red_node: "tree_in h p t \<Longrightarrow> is_red h (root_addr t) = Some (root_color t = RB_RED)"
  by (cases t) (auto simp: is_red_def)

lemma red_tree: "root_color u = RB_RED \<Longrightarrow> \<exists>y c ye d. u = Nd y RB_RED c ye d"
  by (cases u) auto

end
