(* ===== verification/RBTreeInsert.thy ===== *)
theory RBTreeInsert
  imports RBTreeShape
begin

text \<open>
  \<open>insert_fixup\<close>: every iteration of the loop refines a recolouring or a rotation of the zipper and
  moves the red node two levels up or ends the loop, so the loop ends, follows no bad pointer and
  leaves a red-black tree with the same elements in the same nodes.
\<close>

section \<open>Insertion\<close>

lemma lift_right_zip:
  assumes "zip_in h root k (Nd g gc (Nd p pc (Nd z zc a e b) pe c) ge u)"
  shows "\<exists>h' root'. lift_right h root z = Some (h', root') \<and>
     zip_in h' root' k (Nd p RB_BLACK (Nd z zc a e b) pe (Nd g RB_RED c ge u)) \<and>
     rebalanced h (plug k (Nd g gc (Nd p pc (Nd z zc a e b) pe c) ge u))
       h' (plug k (Nd p RB_BLACK (Nd z zc a e b) pe (Nd g RB_RED c ge u)))"
proof -
  let ?h = "(h(p \<mapsto> \<lparr>nd_elem = pe, nd_color = RB_BLACK, nd_left = z, nd_right = root_addr c, nd_parent = g\<rparr>))
     (g \<mapsto> \<lparr>nd_elem = ge, nd_color = RB_RED, nd_left = p, nd_right = root_addr u, nd_parent = path_addr k\<rparr>)"
  let ?t = "Nd g RB_RED (Nd p RB_BLACK (Nd z zc a e b) pe c) ge u"
  have run: "lift_right h root z = rotate_right ?h root g"
    using assms by (auto simp: zip_in_def lift_right_def exec)
  have "zip_in ?h root k ?t"
    using assms by (auto simp: zip_in_def)
  from rotate_right_zip [OF this] obtain h' root' where
    "rotate_right ?h root g = Some (h', root')"
    "zip_in h' root' k (Nd p RB_BLACK (Nd z zc a e b) pe (Nd g RB_RED c ge u))"
    and t: "touches (set (addrs ?t) \<union> set (path_addrs k)) ?h h'" by blast
  moreover from t have "touches (set (addrs ?t) \<union> set (path_addrs k)) h h'"
    by (rule touches_trans [rotated]) simp
  ultimately show ?thesis
    unfolding run by (fastforce intro!: rebalanced_plug)
qed

lemma lift_left_zip:
  assumes "zip_in h root k (Nd g gc u ge (Nd p pc c pe (Nd z zc a e b)))"
  shows "\<exists>h' root'. lift_left h root z = Some (h', root') \<and>
     zip_in h' root' k (Nd p RB_BLACK (Nd g RB_RED u ge c) pe (Nd z zc a e b)) \<and>
     rebalanced h (plug k (Nd g gc u ge (Nd p pc c pe (Nd z zc a e b))))
       h' (plug k (Nd p RB_BLACK (Nd g RB_RED u ge c) pe (Nd z zc a e b)))"
proof -
  let ?h = "(h(p \<mapsto> \<lparr>nd_elem = pe, nd_color = RB_BLACK, nd_left = root_addr c, nd_right = z, nd_parent = g\<rparr>))
     (g \<mapsto> \<lparr>nd_elem = ge, nd_color = RB_RED, nd_left = root_addr u, nd_right = p, nd_parent = path_addr k\<rparr>)"
  let ?t = "Nd g RB_RED u ge (Nd p RB_BLACK c pe (Nd z zc a e b))"
  have run: "lift_left h root z = rotate_left ?h root g"
    using assms by (auto simp: zip_in_def lift_left_def exec)
  have "zip_in ?h root k ?t"
    using assms by (auto simp: zip_in_def)
  from rotate_left_zip [OF this] obtain h' root' where
    "rotate_left ?h root g = Some (h', root')"
    "zip_in h' root' k (Nd p RB_BLACK (Nd g RB_RED u ge c) pe (Nd z zc a e b))"
    and t: "touches (set (addrs ?t) \<union> set (path_addrs k)) ?h h'" by blast
  moreover from t have "touches (set (addrs ?t) \<union> set (path_addrs k)) h h'"
    by (rule touches_trans [rotated]) simp
  ultimately show ?thesis
    unfolding run by (fastforce intro!: rebalanced_plug)
qed

text \<open>The state between two iterations: a red node whose subtrees are fine, below a fine path.\<close>

definition red_focus :: "'e frame list \<Rightarrow> 'e rtree \<Rightarrow> bool" where
  "red_focus k t \<longleftrightarrow> (\<exists>n z l e r. t = Nd z RB_RED l e r \<and> path_ok k n \<and> rbh l n \<and> rbh r n \<and>
     root_color l = RB_BLACK \<and> root_color r = RB_BLACK)"

definition insert_step :: "'e rb_heap \<Rightarrow> addr \<Rightarrow> addr \<Rightarrow> 'e frame list \<Rightarrow> 'e rtree \<Rightarrow> bool" where
  "insert_step h root z k t \<longleftrightarrow> (\<exists>h' root' k' t'.
     insert_fix_body h root z = Some (h', root', root_addr t') \<and> zip_in h' root' k' t' \<and>
     red_focus k' t' \<and> length k' < length k \<and> rebalanced h (plug k t) h' (plug k' t'))"

lemma insert_stepI:
  "insert_fix_body h root z = Some (h', root', root_addr t') \<Longrightarrow> zip_in h' root' k' t' \<Longrightarrow>
   red_focus k' t' \<Longrightarrow> length k' < length k \<Longrightarrow> rebalanced h (plug k t) h' (plug k' t') \<Longrightarrow>
   insert_step h root z k t"
  unfolding insert_step_def by blast

text \<open>A red uncle: the grandparent becomes the new red node.\<close>

lemma recolor_left:
  assumes "zip_in h root k (Nd g RB_BLACK (Nd p RB_RED a pe b) ge (Nd y RB_RED c ye d))"
    and "path_ok k (Suc n)" "rbh a n" "rbh b n" "rbh c n" "rbh d n"
  shows "\<exists>h'. insert_fix_left h root z p g = Some (h', root, g) \<and>
     zip_in h' root k (Nd g RB_RED (Nd p RB_BLACK a pe b) ge (Nd y RB_BLACK c ye d)) \<and>
     red_focus k (Nd g RB_RED (Nd p RB_BLACK a pe b) ge (Nd y RB_BLACK c ye d)) \<and>
     rebalanced h (plug k (Nd g RB_BLACK (Nd p RB_RED a pe b) ge (Nd y RB_RED c ye d)))
       h' (plug k (Nd g RB_RED (Nd p RB_BLACK a pe b) ge (Nd y RB_BLACK c ye d)))"
proof -
  let ?h = "(h(p \<mapsto> \<lparr>nd_elem = pe, nd_color = RB_BLACK, nd_left = root_addr a, nd_right = root_addr b, nd_parent = g\<rparr>,
     y \<mapsto> \<lparr>nd_elem = ye, nd_color = RB_BLACK, nd_left = root_addr c, nd_right = root_addr d, nd_parent = g\<rparr>))
     (g \<mapsto> \<lparr>nd_elem = ge, nd_color = RB_RED, nd_left = p, nd_right = y, nd_parent = path_addr k\<rparr>)"
  have "insert_fix_left h root z p g = Some (?h, root, g)"
    using assms(1) by (auto simp: zip_in_def insert_fix_left_def exec)
  moreover have "zip_in ?h root k (Nd g RB_RED (Nd p RB_BLACK a pe b) ge (Nd y RB_BLACK c ye d))"
    using assms(1) by (auto simp: zip_in_def)
  ultimately show ?thesis
    using assms(2-) by (intro exI [of _ ?h] conjI rebalanced_plug) (auto simp: red_focus_def)
qed

lemma recolor_right:
  assumes "zip_in h root k (Nd g RB_BLACK (Nd y RB_RED c ye d) ge (Nd p RB_RED a pe b))"
    and "path_ok k (Suc n)" "rbh a n" "rbh b n" "rbh c n" "rbh d n"
  shows "\<exists>h'. insert_fix_right h root z p g = Some (h', root, g) \<and>
     zip_in h' root k (Nd g RB_RED (Nd y RB_BLACK c ye d) ge (Nd p RB_BLACK a pe b)) \<and>
     red_focus k (Nd g RB_RED (Nd y RB_BLACK c ye d) ge (Nd p RB_BLACK a pe b)) \<and>
     rebalanced h (plug k (Nd g RB_BLACK (Nd y RB_RED c ye d) ge (Nd p RB_RED a pe b)))
       h' (plug k (Nd g RB_RED (Nd y RB_BLACK c ye d) ge (Nd p RB_BLACK a pe b)))"
proof -
  let ?h = "(h(p \<mapsto> \<lparr>nd_elem = pe, nd_color = RB_BLACK, nd_left = root_addr a, nd_right = root_addr b, nd_parent = g\<rparr>,
     y \<mapsto> \<lparr>nd_elem = ye, nd_color = RB_BLACK, nd_left = root_addr c, nd_right = root_addr d, nd_parent = g\<rparr>))
     (g \<mapsto> \<lparr>nd_elem = ge, nd_color = RB_RED, nd_left = y, nd_right = p, nd_parent = path_addr k\<rparr>)"
  have "insert_fix_right h root z p g = Some (?h, root, g)"
    using assms(1) by (auto simp: zip_in_def insert_fix_right_def exec)
  moreover have "zip_in ?h root k (Nd g RB_RED (Nd y RB_BLACK c ye d) ge (Nd p RB_BLACK a pe b))"
    using assms(1) by (auto simp: zip_in_def)
  ultimately show ?thesis
    using assms(2-) by (intro exI [of _ ?h] conjI rebalanced_plug) (auto simp: red_focus_def)
qed

text \<open>The four shapes of \<open>z\<close>, parent and grandparent.\<close>

lemma insert_step_LL:
  assumes z: "zip_in h root (LFr p RB_RED pe c # LFr g RB_BLACK ge u # k) (Nd z RB_RED l e r)"
    and ok: "path_ok k (Suc n)" "rbh l n" "rbh r n" "rbh c n" "rbh u n"
      "root_color l = RB_BLACK" "root_color r = RB_BLACK" "root_color c = RB_BLACK"
  shows "insert_step h root z (LFr p RB_RED pe c # LFr g RB_BLACK ge u # k) (Nd z RB_RED l e r)"
proof -
  from z have zg: "zip_in h root k (Nd g RB_BLACK (Nd p RB_RED (Nd z RB_RED l e r) pe c) ge u)"
    by (simp add: zip_in_left)
  have body: "insert_fix_body h root z = insert_fix_left h root z p g"
    using z by (auto simp: zip_in_def insert_fix_body_def rd_Some)
  show ?thesis
  proof (cases "root_color u")
    case RB_RED
    with red_tree obtain y c' ye d where u: "u = Nd y RB_RED c' ye d" by blast
    let ?T = "Nd g RB_RED (Nd p RB_BLACK (Nd z RB_RED l e r) pe c) ge (Nd y RB_BLACK c' ye d)"
    obtain h' where "insert_fix_left h root z p g = Some (h', root, g)" "zip_in h' root k ?T" "red_focus k ?T"
      "rebalanced h (plug k (Nd g RB_BLACK (Nd p RB_RED (Nd z RB_RED l e r) pe c) ge (Nd y RB_RED c' ye d))) h' (plug k ?T)"
      using recolor_left [OF zg [unfolded u] ok(1)] ok u by auto
    with body u show ?thesis by (intro insert_stepI [of _ _ _ h' root ?T k]) simp_all
  next
    case RB_BLACK
    from lift_right_zip [OF zg] obtain h' root' where
      run: "lift_right h root z = Some (h', root')"
      and z': "zip_in h' root' k (Nd p RB_BLACK (Nd z RB_RED l e r) pe (Nd g RB_RED c ge u))"
      and re: "rebalanced h (plug k (Nd g RB_BLACK (Nd p RB_RED (Nd z RB_RED l e r) pe c) ge u))
         h' (plug k (Nd p RB_BLACK (Nd z RB_RED l e r) pe (Nd g RB_RED c ge u)))" by blast
    have "insert_fix_body h root z = Some (h', root', z)"
      unfolding body using z RB_BLACK run
      by (auto simp: zip_in_def insert_fix_left_def rd_Some is_red_node)
    then show ?thesis
      using z' re ok RB_BLACK unfolding insert_step_def
      by (intro exI [of _ h'] exI [of _ root'] exI [of _ "LFr p RB_BLACK pe (Nd g RB_RED c ge u) # k"]
          exI [of _ "Nd z RB_RED l e r"]) (auto simp: zip_in_left red_focus_def)
  qed
qed

lemma insert_step_LR:
  assumes z: "zip_in h root (RFr p RB_RED c pe # LFr g RB_BLACK ge u # k) (Nd z RB_RED l e r)"
    and ok: "path_ok k (Suc n)" "rbh l n" "rbh r n" "rbh c n" "rbh u n"
      "root_color l = RB_BLACK" "root_color r = RB_BLACK" "root_color c = RB_BLACK"
  shows "insert_step h root z (RFr p RB_RED c pe # LFr g RB_BLACK ge u # k) (Nd z RB_RED l e r)"
proof -
  from z have zp: "zip_in h root (LFr g RB_BLACK ge u # k) (Nd p RB_RED c pe (Nd z RB_RED l e r))"
    by (simp add: zip_in_right)
  then have zg: "zip_in h root k (Nd g RB_BLACK (Nd p RB_RED c pe (Nd z RB_RED l e r)) ge u)"
    by (simp add: zip_in_left)
  have body: "insert_fix_body h root z = insert_fix_left h root z p g"
    using z by (auto simp: zip_in_def insert_fix_body_def rd_Some)
  show ?thesis
  proof (cases "root_color u")
    case RB_RED
    with red_tree obtain y c' ye d where u: "u = Nd y RB_RED c' ye d" by blast
    let ?T = "Nd g RB_RED (Nd p RB_BLACK c pe (Nd z RB_RED l e r)) ge (Nd y RB_BLACK c' ye d)"
    obtain h' where "insert_fix_left h root z p g = Some (h', root, g)" "zip_in h' root k ?T" "red_focus k ?T"
      "rebalanced h (plug k (Nd g RB_BLACK (Nd p RB_RED c pe (Nd z RB_RED l e r)) ge (Nd y RB_RED c' ye d))) h' (plug k ?T)"
      using recolor_left [OF zg [unfolded u] ok(1)] ok u by auto
    with body u show ?thesis by (intro insert_stepI [of _ _ _ h' root ?T k]) simp_all
  next
    case RB_BLACK
    let ?t1 = "Nd g RB_BLACK (Nd z RB_RED (Nd p RB_RED c pe l) e r) ge u"
    from rotate_left_zip [OF zp] obtain h1 root1 where
      rot: "rotate_left h root p = Some (h1, root1)"
      and z1: "zip_in h1 root1 (LFr g RB_BLACK ge u # k) (Nd z RB_RED (Nd p RB_RED c pe l) e r)"
      and t1: "touches (set (addrs (Nd p RB_RED c pe (Nd z RB_RED l e r))) \<union> set (path_addrs (LFr g RB_BLACK ge u # k))) h h1"
      by blast
    then have re1: "rebalanced h (plug k (Nd g RB_BLACK (Nd p RB_RED c pe (Nd z RB_RED l e r)) ge u)) h1 (plug k ?t1)"
      by (intro rebalanced_plug) (auto elim: touches_mono)
    from z1 have "zip_in h1 root1 k ?t1" by (simp add: zip_in_left)
    from lift_right_zip [OF this] obtain h' root' where
      run: "lift_right h1 root1 p = Some (h', root')"
      and z': "zip_in h' root' k (Nd z RB_BLACK (Nd p RB_RED c pe l) e (Nd g RB_RED r ge u))"
      and re: "rebalanced h1 (plug k ?t1) h' (plug k (Nd z RB_BLACK (Nd p RB_RED c pe l) e (Nd g RB_RED r ge u)))" by blast
    have "insert_fix_body h root z = Some (h', root', p)"
      unfolding body using z RB_BLACK run rot
      by (auto simp: zip_in_def insert_fix_left_def rd_Some is_red_node)
    then show ?thesis
      using z' rebalanced_trans [OF re1 re] ok RB_BLACK unfolding insert_step_def
      by (intro exI [of _ h'] exI [of _ root'] exI [of _ "LFr z RB_BLACK e (Nd g RB_RED r ge u) # k"]
          exI [of _ "Nd p RB_RED c pe l"]) (auto simp: zip_in_left red_focus_def)
  qed
qed

lemma insert_step_RR:
  assumes z: "zip_in h root (RFr p RB_RED c pe # RFr g RB_BLACK u ge # k) (Nd z RB_RED l e r)"
    and ok: "path_ok k (Suc n)" "rbh l n" "rbh r n" "rbh c n" "rbh u n"
      "root_color l = RB_BLACK" "root_color r = RB_BLACK" "root_color c = RB_BLACK"
  shows "insert_step h root z (RFr p RB_RED c pe # RFr g RB_BLACK u ge # k) (Nd z RB_RED l e r)"
proof -
  from z have zg: "zip_in h root k (Nd g RB_BLACK u ge (Nd p RB_RED c pe (Nd z RB_RED l e r)))"
    by (simp add: zip_in_right)
  have "root_addr u \<noteq> p" using z by (auto simp: zip_in_def)
  then have body: "insert_fix_body h root z = insert_fix_right h root z p g"
    using z by (auto simp: zip_in_def insert_fix_body_def rd_Some)
  show ?thesis
  proof (cases "root_color u")
    case RB_RED
    with red_tree obtain y c' ye d where u: "u = Nd y RB_RED c' ye d" by blast
    let ?T = "Nd g RB_RED (Nd y RB_BLACK c' ye d) ge (Nd p RB_BLACK c pe (Nd z RB_RED l e r))"
    obtain h' where "insert_fix_right h root z p g = Some (h', root, g)" "zip_in h' root k ?T" "red_focus k ?T"
      "rebalanced h (plug k (Nd g RB_BLACK (Nd y RB_RED c' ye d) ge (Nd p RB_RED c pe (Nd z RB_RED l e r)))) h' (plug k ?T)"
      using recolor_right [OF zg [unfolded u] ok(1)] ok u by auto
    with body u show ?thesis by (intro insert_stepI [of _ _ _ h' root ?T k]) simp_all
  next
    case RB_BLACK
    from lift_left_zip [OF zg] obtain h' root' where
      run: "lift_left h root z = Some (h', root')"
      and z': "zip_in h' root' k (Nd p RB_BLACK (Nd g RB_RED u ge c) pe (Nd z RB_RED l e r))"
      and re: "rebalanced h (plug k (Nd g RB_BLACK u ge (Nd p RB_RED c pe (Nd z RB_RED l e r))))
         h' (plug k (Nd p RB_BLACK (Nd g RB_RED u ge c) pe (Nd z RB_RED l e r)))" by blast
    have "root_addr c \<noteq> z" using z by (auto simp: zip_in_def)
    then have "insert_fix_body h root z = Some (h', root', z)"
      unfolding body using z RB_BLACK run
      by (auto simp: zip_in_def insert_fix_right_def rd_Some is_red_node)
    then show ?thesis
      using z' re ok RB_BLACK unfolding insert_step_def
      by (intro exI [of _ h'] exI [of _ root'] exI [of _ "RFr p RB_BLACK (Nd g RB_RED u ge c) pe # k"]
          exI [of _ "Nd z RB_RED l e r"]) (auto simp: zip_in_right red_focus_def)
  qed
qed

lemma insert_step_RL:
  assumes z: "zip_in h root (LFr p RB_RED pe c # RFr g RB_BLACK u ge # k) (Nd z RB_RED l e r)"
    and ok: "path_ok k (Suc n)" "rbh l n" "rbh r n" "rbh c n" "rbh u n"
      "root_color l = RB_BLACK" "root_color r = RB_BLACK" "root_color c = RB_BLACK"
  shows "insert_step h root z (LFr p RB_RED pe c # RFr g RB_BLACK u ge # k) (Nd z RB_RED l e r)"
proof -
  from z have zp: "zip_in h root (RFr g RB_BLACK u ge # k) (Nd p RB_RED (Nd z RB_RED l e r) pe c)"
    by (simp add: zip_in_left)
  then have zg: "zip_in h root k (Nd g RB_BLACK u ge (Nd p RB_RED (Nd z RB_RED l e r) pe c))"
    by (simp add: zip_in_right)
  have "root_addr u \<noteq> p" using z by (auto simp: zip_in_def)
  then have body: "insert_fix_body h root z = insert_fix_right h root z p g"
    using z by (auto simp: zip_in_def insert_fix_body_def rd_Some)
  show ?thesis
  proof (cases "root_color u")
    case RB_RED
    with red_tree obtain y c' ye d where u: "u = Nd y RB_RED c' ye d" by blast
    let ?T = "Nd g RB_RED (Nd y RB_BLACK c' ye d) ge (Nd p RB_BLACK (Nd z RB_RED l e r) pe c)"
    obtain h' where "insert_fix_right h root z p g = Some (h', root, g)" "zip_in h' root k ?T" "red_focus k ?T"
      "rebalanced h (plug k (Nd g RB_BLACK (Nd y RB_RED c' ye d) ge (Nd p RB_RED (Nd z RB_RED l e r) pe c))) h' (plug k ?T)"
      using recolor_right [OF zg [unfolded u] ok(1)] ok u by auto
    with body u show ?thesis by (intro insert_stepI [of _ _ _ h' root ?T k]) simp_all
  next
    case RB_BLACK
    let ?t1 = "Nd g RB_BLACK u ge (Nd z RB_RED l e (Nd p RB_RED r pe c))"
    from rotate_right_zip [OF zp] obtain h1 root1 where
      rot: "rotate_right h root p = Some (h1, root1)"
      and z1: "zip_in h1 root1 (RFr g RB_BLACK u ge # k) (Nd z RB_RED l e (Nd p RB_RED r pe c))"
      and t1: "touches (set (addrs (Nd p RB_RED (Nd z RB_RED l e r) pe c)) \<union> set (path_addrs (RFr g RB_BLACK u ge # k))) h h1"
      by blast
    then have re1: "rebalanced h (plug k (Nd g RB_BLACK u ge (Nd p RB_RED (Nd z RB_RED l e r) pe c))) h1 (plug k ?t1)"
      by (intro rebalanced_plug) (auto elim: touches_mono)
    from z1 have "zip_in h1 root1 k ?t1" by (simp add: zip_in_right)
    from lift_left_zip [OF this] obtain h' root' where
      run: "lift_left h1 root1 p = Some (h', root')"
      and z': "zip_in h' root' k (Nd z RB_BLACK (Nd g RB_RED u ge l) e (Nd p RB_RED r pe c))"
      and re: "rebalanced h1 (plug k ?t1) h' (plug k (Nd z RB_BLACK (Nd g RB_RED u ge l) e (Nd p RB_RED r pe c)))" by blast
    have "insert_fix_body h root z = Some (h', root', p)"
      unfolding body using z RB_BLACK run rot
      by (auto simp: zip_in_def insert_fix_right_def rd_Some is_red_node)
    then show ?thesis
      using z' rebalanced_trans [OF re1 re] ok RB_BLACK unfolding insert_step_def
      by (intro exI [of _ h'] exI [of _ root'] exI [of _ "RFr z RB_BLACK (Nd g RB_RED u ge l) e # k"]
          exI [of _ "Nd p RB_RED r pe c"]) (auto simp: zip_in_right red_focus_def)
  qed
qed

lemma insert_step_red:
  assumes "zip_in h root k t" and "red_focus k t" and "path_color k = RB_RED"
  shows "insert_step h root (root_addr t) k t"
proof -
  obtain n z l e r where t: "t = Nd z RB_RED l e r"
    and ok: "path_ok k n" "rbh l n" "rbh r n" "root_color l = RB_BLACK" "root_color r = RB_BLACK"
    using assms(2) by (auto simp: red_focus_def)
  obtain f1 f2 k' where k: "k = f1 # f2 # k'" "path_color (f2 # k') = RB_BLACK"
    using assms(3) ok(1) by (cases k rule: path_color.cases; cases "tl k") auto
  show ?thesis
    using assms(1,3) ok
    unfolding t k(1)
    by (cases f1; cases f2)
      (use k(2) in \<open>auto intro: insert_step_LL insert_step_LR insert_step_RL insert_step_RR\<close>)
qed

lemma blacken_root:
  assumes "zip_in h root [] (Nd a c l e r)"
  shows "\<exists>h'. wr_color h root RB_BLACK = Some h' \<and> zip_in h' root [] (Nd a RB_BLACK l e r) \<and>
    rebalanced h (Nd a c l e r) h' (Nd a RB_BLACK l e r)"
  using assms wr_color_zip [OF assms, of RB_BLACK]
  by (auto simp: zip_in_root wr_Some rebalanced_def)

lemma insert_fixup_zip:
  "zip_in h root k t \<Longrightarrow> red_focus k t \<Longrightarrow>
   \<exists>h' root' t'. insert_fixup h root (root_addr t) = Some (h', root') \<and> zip_in h' root' [] t' \<and>
     rbt t' \<and> rebalanced h (plug k t) h' t'"
proof (induction "length k" arbitrary: h root k t rule: less_induct)
  case less
  have up: "red_parent h (root_addr t) = Some (path_color k = RB_RED)"
    using less.prems by (cases k rule: path_color.cases)
      (auto simp: red_focus_def zip_in_def red_parent_def exec)
  show ?case
  proof (cases "path_color k")
    case RB_RED
    from insert_step_red [OF less.prems RB_RED] obtain h1 root1 k1 t1 where
      step: "insert_fix_body h root (root_addr t) = Some (h1, root1, root_addr t1)"
        "zip_in h1 root1 k1 t1" "red_focus k1 t1" "length k1 < length k" and re: "rebalanced h (plug k t) h1 (plug k1 t1)"
      unfolding insert_step_def by blast
    from less.hyps [OF step(4,2,3)] obtain h' root' t' where
      "insert_fixup h1 root1 (root_addr t1) = Some (h', root')" "zip_in h' root' [] t'" "rbt t'"
      "rebalanced h1 (plug k1 t1) h' t'" by blast
    with step(1) up RB_RED rebalanced_trans [OF re] show ?thesis
      by (subst insert_fixup.simps) auto
  next
    case RB_BLACK
    obtain a c l e r where T: "plug k t = Nd a c l e r"
      using less.prems(2) by (cases "plug k t") (auto simp: red_focus_def dest: arg_cong [of _ _ inorder] simp: inorder_plug)
    have "rbt (Nd a RB_BLACK l e r)"
    proof (cases k)
      case Nil
      then show ?thesis using T less.prems(2) by (auto simp: red_focus_def rbt_def)
    next
      case (Cons f k')
      obtain n where "path_ok k n" "rbh t n" using less.prems(2) by (auto simp: red_focus_def)
      then have "rbt (plug k t)" using RB_BLACK Cons by (intro rbt_plug) auto
      then show ?thesis unfolding T by (auto simp: rbt_def)
    qed
    moreover from less.prems(1) have "zip_in h root [] (Nd a c l e r)"
      unfolding T [symmetric] by (simp add: zip_in_plug [symmetric])
    ultimately show ?thesis
      using blacken_root [of h root a c l e r] up RB_BLACK T
      by (subst insert_fixup.simps) auto
  qed
qed

end
