(* ===== verification/RBTreeDelete.thy ===== *)
theory RBTreeDelete
  imports RBTreeShape
begin

text \<open>
  \<open>delete_fixup\<close>: the loop invariant is a zipper whose focus lacks one black node; every iteration
  moves the focus up or makes it red or ends at the root.
\<close>

section \<open>Removal: the fixup\<close>

fun blacken :: "'e rtree \<Rightarrow> 'e rtree" where
  "blacken Lf = Lf"
| "blacken (Nd a c l e r) = Nd a RB_BLACK l e r"

text \<open>
  The state of the loop: one black node is missing on the paths through the focus. A red focus
  makes up for it by turning black, whatever the colours of its children.
\<close>

definition hole :: "'e frame list \<Rightarrow> 'e rtree \<Rightarrow> bool" where
  "hole k t \<longleftrightarrow> (\<exists>n. path_ok k (Suc n) \<and>
     (if root_color t = RB_RED then rbh (blacken t) (Suc n) else rbh t n))"

definition steps_left :: "'e frame list \<Rightarrow> 'e rtree \<Rightarrow> nat" where
  "steps_left k t = (if root_color t = RB_RED then 0 else length k)"

text \<open>The result of an iteration: a new focus in a heap with the same elements.\<close>

definition refocus :: "'e rb_heap \<Rightarrow> 'e rtree \<Rightarrow> nat \<Rightarrow> ('e rb_heap \<times> addr \<times> addr \<times> addr) option \<Rightarrow> bool" where
  "refocus h T m res \<longleftrightarrow> (\<exists>h' root' k' t'. res = Some (h', root', root_addr t', path_addr k') \<and>
     zip_in h' root' k' t' \<and> hole k' t' \<and> steps_left k' t' \<le> m \<and> rebalanced h T h' (plug k' t'))"

lemma refocusI:
  "res = Some (h', root', root_addr t', path_addr k') \<Longrightarrow> zip_in h' root' k' t' \<Longrightarrow> hole k' t' \<Longrightarrow>
   steps_left k' t' \<le> m \<Longrightarrow> rebalanced h T h' (plug k' t') \<Longrightarrow> refocus h T m res"
  unfolding refocus_def by blast

lemma refocus_trans:
  "rebalanced h T h' T' \<Longrightarrow> refocus h' T' m res \<Longrightarrow> refocus h T m res"
  unfolding refocus_def using rebalanced_trans by blast

lemma refocus_mono: "refocus h T m res \<Longrightarrow> m \<le> m' \<Longrightarrow> refocus h T m' res"
  unfolding refocus_def using order_trans by blast

lemma hole_root: "rbt t \<Longrightarrow> hole [] t"
  by (auto simp: hole_def rbt_def)

lemma delete_final_left_zip:
  assumes z: "zip_in h root k (Nd xp c t e (Nd w wc a we (Nd b bc b1 be b2)))"
    and ok: "path_ok k (if c = RB_RED then Suc n else Suc (Suc n))" "rbh t n" "rbh a n" "rbh b1 n" "rbh b2 n"
      "k = [] \<or> path_color k = RB_RED \<longrightarrow> c = RB_BLACK"
  shows "\<exists>h' root' T. delete_final_left h root xp w = Some (h', root') \<and> zip_in h' root' [] T \<and> rbt T \<and>
     rebalanced h (plug k (Nd xp c t e (Nd w wc a we (Nd b bc b1 be b2)))) h' T"
proof -
  let ?h = "(h(w \<mapsto> \<lparr>nd_elem = we, nd_color = c, nd_left = root_addr a, nd_right = b, nd_parent = xp\<rparr>,
     xp \<mapsto> \<lparr>nd_elem = e, nd_color = RB_BLACK, nd_left = root_addr t, nd_right = w, nd_parent = path_addr k\<rparr>))
     (b \<mapsto> \<lparr>nd_elem = be, nd_color = RB_BLACK, nd_left = root_addr b1, nd_right = root_addr b2, nd_parent = w\<rparr>)"
  let ?t = "Nd xp RB_BLACK t e (Nd w c a we (Nd b RB_BLACK b1 be b2))"
  let ?t' = "Nd w c (Nd xp RB_BLACK t e a) we (Nd b RB_BLACK b1 be b2)"
  have run: "delete_final_left h root xp w = rotate_left ?h root xp"
    using z by (auto simp: zip_in_def delete_final_left_def exec)
  have "zip_in ?h root k ?t" using z by (auto simp: zip_in_def)
  from rotate_left_zip [OF this] obtain h' root' where
    r: "rotate_left ?h root xp = Some (h', root')" "zip_in h' root' k ?t'"
    and t: "touches (set (addrs ?t) \<union> set (path_addrs k)) ?h h'" by blast
  from t have "touches (set (addrs ?t) \<union> set (path_addrs k)) h h'"
    by (rule touches_trans [rotated]) simp
  then have "rebalanced h (plug k (Nd xp c t e (Nd w wc a we (Nd b bc b1 be b2)))) h' (plug k ?t')"
    by (intro rebalanced_plug) auto
  moreover have "rbt (plug k ?t')"
  proof (rule rbt_plug)
    show "path_ok k (if c = RB_RED then Suc n else Suc (Suc n))" by (fact ok(1))
    show "rbh ?t' (if c = RB_RED then Suc n else Suc (Suc n))" using ok(2-5) by (cases c) auto
    show "k = [] \<or> path_color k = RB_RED \<longrightarrow> root_color ?t' = RB_BLACK" using ok(6) by simp
  qed
  moreover have "zip_in h' root' [] (plug k ?t')"
    using r(2) zip_in_plug [of h' root' k] by simp
  ultimately show ?thesis
    using r(1) unfolding run by blast
qed

lemma delete_sib_left_zip:
  assumes z: "zip_in h root k (Nd xp c t e (Nd w RB_BLACK a we b))"
    and ok: "path_ok (LFr xp c e (Nd w RB_BLACK a we b) # k) (Suc n)" "rbh t n" "root_color t = RB_BLACK"
  shows "refocus h (plug k (Nd xp c t e (Nd w RB_BLACK a we b))) (if c = RB_RED then 0 else length k)
     (delete_sib_left h root xp w)"
proof -
  let ?T = "plug k (Nd xp c t e (Nd w RB_BLACK a we b))"
  have ab: "rbh a n" "rbh b n" and k: "path_ok k (if c = RB_RED then Suc n else Suc (Suc n))"
    and kc: "k = [] \<or> path_color k = RB_RED \<longrightarrow> c = RB_BLACK"
    using ok(1) by (auto split: if_splits intro: rb_color.exhaust [of c])
  have sib: "rd nd_left h w = Some (root_addr a)" "rd nd_right h w = Some (root_addr b)"
    "is_red h (root_addr a) = Some (root_color a = RB_RED)" "is_red h (root_addr b) = Some (root_color b = RB_RED)"
    using z by (auto simp: zip_in_def rd_Some is_red_node)
  consider "root_color a = RB_BLACK" "root_color b = RB_BLACK" | "root_color b = RB_RED"
    | "root_color a = RB_RED" "root_color b = RB_BLACK" by (metis rb_color.exhaust)
  then show ?thesis
  proof cases
    case 1
    let ?h = "h(w \<mapsto> \<lparr>nd_elem = we, nd_color = RB_RED, nd_left = root_addr a, nd_right = root_addr b, nd_parent = xp\<rparr>)"
    let ?t = "Nd xp c t e (Nd w RB_RED a we b)"
    have "delete_sib_left h root xp w = Some (?h, root, xp, path_addr k)"
      using z 1 sib by (auto simp: zip_in_def delete_sib_left_def both_black_def exec)
    moreover have "zip_in ?h root k ?t" using z by (auto simp: zip_in_def)
    moreover have "hole k ?t" using ok(2,3) ab k 1 by (cases c) (auto simp: hole_def)
    moreover have "rebalanced h ?T ?h (plug k ?t)" by (intro rebalanced_plug) auto
    ultimately show ?thesis by (intro refocusI [of _ ?h root ?t k]) (auto simp: steps_left_def)
  next
    case 2
    then obtain y b1 be b2 where b: "b = Nd y RB_RED b1 be b2" using red_tree by blast
    with ab have "rbh b1 n" "rbh b2 n" by auto
    with delete_final_left_zip [OF z [unfolded b] k ok(2) ab(1) _ _ kc] obtain h' root' T where
      "delete_final_left h root xp w = Some (h', root')" "zip_in h' root' [] T" "rbt T" "rebalanced h ?T h' T"
      unfolding b by blast
    moreover from this have "delete_sib_left h root xp w = Some (h', root', root_addr T, path_addr [])"
      using z 2 sib by (auto simp: zip_in_root delete_sib_left_def both_black_def)
    ultimately show ?thesis
      by (intro refocusI [of _ h' root' T "[]"]) (auto simp: steps_left_def hole_root)
  next
    case 3
    then obtain y a1 ae a2 where a: "a = Nd y RB_RED a1 ae a2" using red_tree by blast
    with ab have a12: "rbh a1 n" "rbh a2 n" by auto
    let ?h = "h(y \<mapsto> \<lparr>nd_elem = ae, nd_color = RB_BLACK, nd_left = root_addr a1, nd_right = root_addr a2, nd_parent = w\<rparr>,
      w \<mapsto> \<lparr>nd_elem = we, nd_color = RB_RED, nd_left = y, nd_right = root_addr b, nd_parent = xp\<rparr>)"
    let ?s = "Nd w RB_RED (Nd y RB_BLACK a1 ae a2) we b"
    let ?s' = "Nd y RB_BLACK a1 ae (Nd w RB_RED a2 we b)"
    have "zip_in ?h root (RFr xp c t e # k) ?s"
      using z a by (auto simp: zip_in_def)
    from rotate_right_zip [OF this] obtain h1 root1 where
      rot: "rotate_right ?h root w = Some (h1, root1)" and z1: "zip_in h1 root1 (RFr xp c t e # k) ?s'"
      and t: "touches (set (addrs ?s) \<union> set (path_addrs (RFr xp c t e # k))) ?h h1" by blast
    from t have "touches (set (addrs ?s) \<union> set (path_addrs (RFr xp c t e # k))) h h1"
      by (rule touches_trans [rotated]) simp
    then have re1: "rebalanced h ?T h1 (plug k (Nd xp c t e ?s'))"
      using a by (intro rebalanced_plug) (auto elim: touches_mono)
    have z1': "zip_in h1 root1 k (Nd xp c t e ?s')" using z1 by (simp add: zip_in_right)
    from delete_final_left_zip [OF this k ok(2) a12(1) a12(2) ab(2) kc] obtain h' root' T where
      fin: "delete_final_left h1 root1 xp y = Some (h', root')" and T: "zip_in h' root' [] T" "rbt T"
      and re2: "rebalanced h1 (plug k (Nd xp c t e ?s')) h' T" by blast
    have "rd nd_right h1 xp = Some y" using z1' by (auto simp: zip_in_def rd_Some)
    then have "delete_sib_left h root xp w = Some (h', root', root_addr T, path_addr [])"
      using z 3 sib rot fin T a
      by (auto simp: zip_in_root delete_sib_left_def both_black_def zip_in_def wr_Some)
    with T rebalanced_trans [OF re1 re2] show ?thesis
      by (intro refocusI [of _ h' root' T "[]"]) (auto simp: steps_left_def hole_root)
  qed
qed

lemma delete_final_right_zip:
  assumes z: "zip_in h root k (Nd xp c (Nd w wc (Nd b bc b1 be b2) we a) e t)"
    and ok: "path_ok k (if c = RB_RED then Suc n else Suc (Suc n))" "rbh t n" "rbh a n" "rbh b1 n" "rbh b2 n"
      "k = [] \<or> path_color k = RB_RED \<longrightarrow> c = RB_BLACK"
  shows "\<exists>h' root' T. delete_final_right h root xp w = Some (h', root') \<and> zip_in h' root' [] T \<and> rbt T \<and>
     rebalanced h (plug k (Nd xp c (Nd w wc (Nd b bc b1 be b2) we a) e t)) h' T"
proof -
  let ?h = "(h(w \<mapsto> \<lparr>nd_elem = we, nd_color = c, nd_left = b, nd_right = root_addr a, nd_parent = xp\<rparr>,
     xp \<mapsto> \<lparr>nd_elem = e, nd_color = RB_BLACK, nd_left = w, nd_right = root_addr t, nd_parent = path_addr k\<rparr>))
     (b \<mapsto> \<lparr>nd_elem = be, nd_color = RB_BLACK, nd_left = root_addr b1, nd_right = root_addr b2, nd_parent = w\<rparr>)"
  let ?t = "Nd xp RB_BLACK (Nd w c (Nd b RB_BLACK b1 be b2) we a) e t"
  let ?t' = "Nd w c (Nd b RB_BLACK b1 be b2) we (Nd xp RB_BLACK a e t)"
  have run: "delete_final_right h root xp w = rotate_right ?h root xp"
    using z by (auto simp: zip_in_def delete_final_right_def exec)
  have "zip_in ?h root k ?t" using z by (auto simp: zip_in_def)
  from rotate_right_zip [OF this] obtain h' root' where
    r: "rotate_right ?h root xp = Some (h', root')" "zip_in h' root' k ?t'"
    and t: "touches (set (addrs ?t) \<union> set (path_addrs k)) ?h h'" by blast
  from t have "touches (set (addrs ?t) \<union> set (path_addrs k)) h h'"
    by (rule touches_trans [rotated]) simp
  then have "rebalanced h (plug k (Nd xp c (Nd w wc (Nd b bc b1 be b2) we a) e t)) h' (plug k ?t')"
    by (intro rebalanced_plug) auto
  moreover have "rbt (plug k ?t')"
  proof (rule rbt_plug)
    show "path_ok k (if c = RB_RED then Suc n else Suc (Suc n))" by (fact ok(1))
    show "rbh ?t' (if c = RB_RED then Suc n else Suc (Suc n))" using ok(2-5) by (cases c) auto
    show "k = [] \<or> path_color k = RB_RED \<longrightarrow> root_color ?t' = RB_BLACK" using ok(6) by simp
  qed
  moreover have "zip_in h' root' [] (plug k ?t')"
    using r(2) zip_in_plug [of h' root' k] by simp
  ultimately show ?thesis
    using r(1) unfolding run by blast
qed

lemma delete_sib_right_zip:
  assumes z: "zip_in h root k (Nd xp c (Nd w RB_BLACK b we a) e t)"
    and ok: "path_ok (RFr xp c (Nd w RB_BLACK b we a) e # k) (Suc n)" "rbh t n" "root_color t = RB_BLACK"
  shows "refocus h (plug k (Nd xp c (Nd w RB_BLACK b we a) e t)) (if c = RB_RED then 0 else length k)
     (delete_sib_right h root xp w)"
proof -
  let ?T = "plug k (Nd xp c (Nd w RB_BLACK b we a) e t)"
  have ab: "rbh a n" "rbh b n" and k: "path_ok k (if c = RB_RED then Suc n else Suc (Suc n))"
    and kc: "k = [] \<or> path_color k = RB_RED \<longrightarrow> c = RB_BLACK"
    using ok(1) by (auto split: if_splits intro: rb_color.exhaust [of c])
  have sib: "rd nd_right h w = Some (root_addr a)" "rd nd_left h w = Some (root_addr b)"
    "is_red h (root_addr a) = Some (root_color a = RB_RED)" "is_red h (root_addr b) = Some (root_color b = RB_RED)"
    using z by (auto simp: zip_in_def rd_Some is_red_node)
  consider "root_color a = RB_BLACK" "root_color b = RB_BLACK" | "root_color b = RB_RED"
    | "root_color a = RB_RED" "root_color b = RB_BLACK" by (metis rb_color.exhaust)
  then show ?thesis
  proof cases
    case 1
    let ?h = "h(w \<mapsto> \<lparr>nd_elem = we, nd_color = RB_RED, nd_left = root_addr b, nd_right = root_addr a, nd_parent = xp\<rparr>)"
    let ?t = "Nd xp c (Nd w RB_RED b we a) e t"
    have "delete_sib_right h root xp w = Some (?h, root, xp, path_addr k)"
      using z 1 sib by (auto simp: zip_in_def delete_sib_right_def both_black_def exec)
    moreover have "zip_in ?h root k ?t" using z by (auto simp: zip_in_def)
    moreover have "hole k ?t" using ok(2,3) ab k 1 by (cases c) (auto simp: hole_def)
    moreover have "rebalanced h ?T ?h (plug k ?t)" by (intro rebalanced_plug) auto
    ultimately show ?thesis by (intro refocusI [of _ ?h root ?t k]) (auto simp: steps_left_def)
  next
    case 2
    then obtain y b1 be b2 where b: "b = Nd y RB_RED b1 be b2" using red_tree by blast
    with ab have "rbh b1 n" "rbh b2 n" by auto
    with delete_final_right_zip [OF z [unfolded b] k ok(2) ab(1) _ _ kc] obtain h' root' T where
      "delete_final_right h root xp w = Some (h', root')" "zip_in h' root' [] T" "rbt T" "rebalanced h ?T h' T"
      unfolding b by blast
    moreover from this have "delete_sib_right h root xp w = Some (h', root', root_addr T, path_addr [])"
      using z 2 sib by (auto simp: zip_in_root delete_sib_right_def both_black_def)
    ultimately show ?thesis
      by (intro refocusI [of _ h' root' T "[]"]) (auto simp: steps_left_def hole_root)
  next
    case 3
    then obtain y a1 ae a2 where a: "a = Nd y RB_RED a1 ae a2" using red_tree by blast
    with ab have a12: "rbh a1 n" "rbh a2 n" by auto
    let ?h = "h(y \<mapsto> \<lparr>nd_elem = ae, nd_color = RB_BLACK, nd_left = root_addr a1, nd_right = root_addr a2, nd_parent = w\<rparr>,
      w \<mapsto> \<lparr>nd_elem = we, nd_color = RB_RED, nd_left = root_addr b, nd_right = y, nd_parent = xp\<rparr>)"
    let ?s = "Nd w RB_RED b we (Nd y RB_BLACK a1 ae a2)"
    let ?s' = "Nd y RB_BLACK (Nd w RB_RED b we a1) ae a2"
    have "zip_in ?h root (LFr xp c e t # k) ?s"
      using z a by (auto simp: zip_in_def)
    from rotate_left_zip [OF this] obtain h1 root1 where
      rot: "rotate_left ?h root w = Some (h1, root1)" and z1: "zip_in h1 root1 (LFr xp c e t # k) ?s'"
      and t: "touches (set (addrs ?s) \<union> set (path_addrs (LFr xp c e t # k))) ?h h1" by blast
    from t have "touches (set (addrs ?s) \<union> set (path_addrs (LFr xp c e t # k))) h h1"
      by (rule touches_trans [rotated]) simp
    then have re1: "rebalanced h ?T h1 (plug k (Nd xp c ?s' e t))"
      using a by (intro rebalanced_plug) (auto elim: touches_mono)
    have z1': "zip_in h1 root1 k (Nd xp c ?s' e t)" using z1 by (simp add: zip_in_left)
    from delete_final_right_zip [OF this k ok(2) a12(2) ab(2) a12(1) kc] obtain h' root' T where
      fin: "delete_final_right h1 root1 xp y = Some (h', root')" and T: "zip_in h' root' [] T" "rbt T"
      and re2: "rebalanced h1 (plug k (Nd xp c ?s' e t)) h' T" by blast
    have "rd nd_left h1 xp = Some y" using z1' by (auto simp: zip_in_def rd_Some)
    then have "delete_sib_right h root xp w = Some (h', root', root_addr T, path_addr [])"
      using z 3 sib rot fin T a
      by (auto simp: zip_in_root delete_sib_right_def both_black_def zip_in_def wr_Some)
    with T rebalanced_trans [OF re1 re2] show ?thesis
      by (intro refocusI [of _ h' root' T "[]"]) (auto simp: steps_left_def hole_root)
  qed
qed

text \<open>A red sibling is rotated away first; then \<open>x_parent\<close> is red and the iteration is the last.\<close>

lemma delete_fix_left_zip:
  assumes z: "zip_in h root (LFr xp c e s # k) t"
    and ok: "path_ok (LFr xp c e s # k) (Suc n)" "rbh t n" "root_color t = RB_BLACK"
  shows "refocus h (plug (LFr xp c e s # k) t) (length k) (delete_fix_left h root xp)"
proof -
  obtain w wc a we b where s: "s = Nd w wc a we b" using ok(1) by (cases s) auto
  have w: "rd nd_right h xp = Some w" "is_red h w = Some (wc = RB_RED)"
    using z s by (auto simp: zip_in_def rd_Some is_red_def)
  show ?thesis
  proof (cases wc)
    case RB_BLACK
    with w have "delete_fix_left h root xp = delete_sib_left h root xp w"
      by (simp add: delete_fix_left_def)
    moreover have "zip_in h root k (Nd xp c t e (Nd w RB_BLACK a we b))"
      using z RB_BLACK s by (simp add: zip_in_left)
    ultimately show ?thesis
      using delete_sib_left_zip [of h root k xp c t e w a we b n] ok RB_BLACK s
      by (auto elim: refocus_mono)
  next
    case RB_RED
    let ?h = "h(w \<mapsto> \<lparr>nd_elem = we, nd_color = RB_BLACK, nd_left = root_addr a, nd_right = root_addr b, nd_parent = xp\<rparr>,
      xp \<mapsto> \<lparr>nd_elem = e, nd_color = RB_RED, nd_left = root_addr t, nd_right = w, nd_parent = path_addr k\<rparr>)"
    let ?t = "Nd xp RB_RED t e (Nd w RB_BLACK a we b)"
    from RB_RED s ok have c: "c = RB_BLACK" and ab: "rbh a (Suc n)" "rbh b (Suc n)"
      "root_color a = RB_BLACK" "root_color b = RB_BLACK" and k: "path_ok k (Suc (Suc n))"
      by (auto intro: rb_color.exhaust [of c])
    have "zip_in ?h root k ?t" using z s RB_RED by (auto simp: zip_in_def)
    from rotate_left_zip [OF this] obtain h1 root1 where
      rot: "rotate_left ?h root xp = Some (h1, root1)"
      and z1: "zip_in h1 root1 k (Nd w RB_BLACK (Nd xp RB_RED t e a) we b)"
      and t: "touches (set (addrs ?t) \<union> set (path_addrs k)) ?h h1" by blast
    from t have "touches (set (addrs ?t) \<union> set (path_addrs k)) h h1"
      by (rule touches_trans [rotated]) simp
    then have re1: "rebalanced h (plug (LFr xp c e s # k) t) h1 (plug (LFr w RB_BLACK we b # k) (Nd xp RB_RED t e a))"
      using s by (simp, intro rebalanced_plug) (auto elim: touches_mono)
    obtain v va ve vb where a: "a = Nd v RB_BLACK va ve vb"
      using ab by (cases a) auto
    have z1': "zip_in h1 root1 (LFr w RB_BLACK we b # k) (Nd xp RB_RED t e (Nd v RB_BLACK va ve vb))"
      using z1 a by (simp add: zip_in_left)
    have "path_ok (LFr xp RB_RED e (Nd v RB_BLACK va ve vb) # LFr w RB_BLACK we b # k) (Suc n)"
      using ab a k by simp
    from delete_sib_left_zip [OF z1' this ok(2,3)]
    have "refocus h1 (plug (LFr w RB_BLACK we b # k) (Nd xp RB_RED t e a)) 0 (delete_sib_left h1 root1 xp v)"
      using a by simp
    moreover have "rd nd_right h1 xp = Some v" using z1 a by (auto simp: zip_in_def rd_Some)
    then have "delete_fix_left h root xp = delete_sib_left h1 root1 xp v"
      using w z s RB_RED rot by (auto simp: delete_fix_left_def zip_in_def wr_Some)
    ultimately show ?thesis
      using refocus_trans [OF re1] by (fastforce simp: refocus_def)
  qed
qed

lemma delete_fix_right_zip:
  assumes z: "zip_in h root (RFr xp c s e # k) t"
    and ok: "path_ok (RFr xp c s e # k) (Suc n)" "rbh t n" "root_color t = RB_BLACK"
  shows "refocus h (plug (RFr xp c s e # k) t) (length k) (delete_fix_right h root xp)"
proof -
  obtain w wc a we b where s: "s = Nd w wc b we a" using ok(1) by (cases s) auto
  have w: "rd nd_left h xp = Some w" "is_red h w = Some (wc = RB_RED)"
    using z s by (auto simp: zip_in_def rd_Some is_red_def)
  show ?thesis
  proof (cases wc)
    case RB_BLACK
    with w have "delete_fix_right h root xp = delete_sib_right h root xp w"
      by (simp add: delete_fix_right_def)
    moreover have "zip_in h root k (Nd xp c (Nd w RB_BLACK b we a) e t)"
      using z RB_BLACK s by (simp add: zip_in_right)
    ultimately show ?thesis
      using delete_sib_right_zip [of h root k xp c w b we a e t n] ok RB_BLACK s
      by (auto elim: refocus_mono)
  next
    case RB_RED
    let ?h = "h(w \<mapsto> \<lparr>nd_elem = we, nd_color = RB_BLACK, nd_left = root_addr b, nd_right = root_addr a, nd_parent = xp\<rparr>,
      xp \<mapsto> \<lparr>nd_elem = e, nd_color = RB_RED, nd_left = w, nd_right = root_addr t, nd_parent = path_addr k\<rparr>)"
    let ?t = "Nd xp RB_RED (Nd w RB_BLACK b we a) e t"
    from RB_RED s ok have c: "c = RB_BLACK" and ab: "rbh a (Suc n)" "rbh b (Suc n)"
      "root_color a = RB_BLACK" "root_color b = RB_BLACK" and k: "path_ok k (Suc (Suc n))"
      by (auto intro: rb_color.exhaust [of c])
    have "zip_in ?h root k ?t" using z s RB_RED by (auto simp: zip_in_def)
    from rotate_right_zip [OF this] obtain h1 root1 where
      rot: "rotate_right ?h root xp = Some (h1, root1)"
      and z1: "zip_in h1 root1 k (Nd w RB_BLACK b we (Nd xp RB_RED a e t))"
      and t: "touches (set (addrs ?t) \<union> set (path_addrs k)) ?h h1" by blast
    from t have "touches (set (addrs ?t) \<union> set (path_addrs k)) h h1"
      by (rule touches_trans [rotated]) simp
    then have re1: "rebalanced h (plug (RFr xp c s e # k) t) h1 (plug (RFr w RB_BLACK b we # k) (Nd xp RB_RED a e t))"
      using s by (simp, intro rebalanced_plug) (auto elim: touches_mono)
    obtain v va ve vb where a: "a = Nd v RB_BLACK va ve vb"
      using ab by (cases a) auto
    have z1': "zip_in h1 root1 (RFr w RB_BLACK b we # k) (Nd xp RB_RED (Nd v RB_BLACK va ve vb) e t)"
      using z1 a by (simp add: zip_in_right)
    have "path_ok (RFr xp RB_RED (Nd v RB_BLACK va ve vb) e # RFr w RB_BLACK b we # k) (Suc n)"
      using ab a k by simp
    from delete_sib_right_zip [OF z1' this ok(2,3)]
    have "refocus h1 (plug (RFr w RB_BLACK b we # k) (Nd xp RB_RED a e t)) 0 (delete_sib_right h1 root1 xp v)"
      using a by simp
    moreover have "rd nd_left h1 xp = Some v" using z1 a by (auto simp: zip_in_def rd_Some)
    then have "delete_fix_right h root xp = delete_sib_right h1 root1 xp v"
      using w z s RB_RED rot by (auto simp: delete_fix_right_def zip_in_def wr_Some)
    ultimately show ?thesis
      using refocus_trans [OF re1] by (fastforce simp: refocus_def)
  qed
qed

lemma delete_fix_body_zip:
  assumes z: "zip_in h root k t" and hole: "hole k t" and black: "root_color t = RB_BLACK" and k: "k \<noteq> []"
  shows "refocus h (plug k t) (length k - 1) (delete_fix_body h root (root_addr t) (path_addr k))"
proof -
  obtain n where n: "path_ok k (Suc n)" "rbh t n" using hole black by (auto simp: hole_def)
  show ?thesis
  proof (cases k rule: path_addrs.cases)
    case 1
    with k show ?thesis by simp
  next
    case (2 p c e s k')
    then have "delete_fix_body h root (root_addr t) (path_addr k) = delete_fix_left h root p"
      using z by (auto simp: delete_fix_body_def zip_in_def rd_Some)
    with delete_fix_left_zip [OF z [unfolded 2] n [unfolded 2] black] 2 show ?thesis by simp
  next
    case (3 p c s e k')
    have "s \<noteq> Lf" using n(1) 3 by auto
    then have "root_addr s \<noteq> root_addr t"
      using z 3 by (cases s; cases t) (auto simp: zip_in_def)
    then have "delete_fix_body h root (root_addr t) (path_addr k) = delete_fix_right h root p"
      using z 3 by (auto simp: delete_fix_body_def zip_in_def rd_Some)
    with delete_fix_right_zip [OF z [unfolded 3] n [unfolded 3] black] 3 show ?thesis by simp
  qed
qed

lemma blacken_zip:
  assumes "zip_in h root k t" and "t \<noteq> Lf"
  shows "\<exists>h'. wr_color h (root_addr t) RB_BLACK = Some h' \<and> zip_in h' root k (blacken t) \<and>
    rebalanced h (plug k t) h' (plug k (blacken t))"
proof -
  obtain a c l e r where t: "t = Nd a c l e r" using assms(2) by (cases t) auto
  show ?thesis
    using assms(1) wr_color_zip [of h root k a c l e r RB_BLACK] unfolding t
    by (auto simp: zip_in_def wr_Some intro!: rebalanced_plug)
qed

lemma top_addr_mem: "top_addr k a \<in> insert a (set (path_addrs k))"
proof (induction k arbitrary: a)
  case (Cons f k)
  from Cons.IH [of "frame_addr f"] show ?case by (cases f) auto
qed simp

lemma delete_fixup_zip:
  "zip_in h root k t \<Longrightarrow> hole k t \<Longrightarrow>
   \<exists>h' root' T. delete_fixup h root (root_addr t) (path_addr k) = Some (h', root') \<and> zip_in h' root' [] T \<and>
     rbt T \<and> rebalanced h (plug k t) h' T"
proof (induction "steps_left k t" arbitrary: h root k t rule: less_induct)
  case less
  have r: "is_red h (root_addr t) = Some (root_color t = RB_RED)"
    using less.prems(1) by (auto simp: zip_in_def is_red_node)
  obtain n where n: "path_ok k (Suc n)" "if root_color t = RB_RED then rbh (blacken t) (Suc n) else rbh t n"
    using less.prems(2) by (auto simp: hole_def)
  have at_root: "root_addr t = root \<longleftrightarrow> k = []"
    using less.prems(1) top_addr_mem [of "tl k" "path_addr k"]
    by (cases k rule: path_addrs.cases; cases t) (auto simp: zip_in_def dest!: path_in_nonzero intro!: gr0I)
  show ?case
  proof (cases "root_color t = RB_BLACK \<and> k \<noteq> []")
    case True
    then have go: "delete_continue h root (root_addr t) = Some True"
      using at_root r by (simp add: delete_continue_def)
    from delete_fix_body_zip [OF less.prems] True obtain h1 root1 k1 t1 where
      step: "delete_fix_body h root (root_addr t) (path_addr k) = Some (h1, root1, root_addr t1, path_addr k1)"
        "zip_in h1 root1 k1 t1" "hole k1 t1" "steps_left k1 t1 \<le> length k - 1"
      and re: "rebalanced h (plug k t) h1 (plug k1 t1)"
      unfolding refocus_def by blast
    have "steps_left k1 t1 < steps_left k t"
      using step(4) True by (cases k) (auto simp: steps_left_def)
    from less.hyps [OF this step(2,3)] obtain h' root' T where
      "delete_fixup h1 root1 (root_addr t1) (path_addr k1) = Some (h', root')" "zip_in h' root' [] T"
      "rbt T" "rebalanced h1 (plug k1 t1) h' T" by blast
    with go step(1) rebalanced_trans [OF re this(4)] show ?thesis
      by (subst delete_fixup.simps) auto
  next
    case False
    then have go: "delete_continue h root (root_addr t) = Some False"
      using at_root r by (cases "root_color t") (auto simp: delete_continue_def)
    have T: "rbt (plug k (blacken t))"
    proof (cases "k = []")
      case True
      then show ?thesis using n(2) by (cases t; cases "root_color t") (auto simp: rbt_def split: if_splits)
    next
      case ne: False
      with False have "root_color t = RB_RED" by (cases "root_color t") auto
      then show ?thesis using n by (intro rbt_plug [of k "Suc n"]) (cases t; auto)+
    qed
    show ?thesis
    proof (cases "t = Lf")
      case True
      with T go less.prems(1) zip_in_plug [of h root k t] show ?thesis
        by (subst delete_fixup.simps) (auto simp: rebalanced_def)
    next
      case ne: False
      obtain h' where "wr_color h (root_addr t) RB_BLACK = Some h'" "zip_in h' root k (blacken t)"
        "rebalanced h (plug k t) h' (plug k (blacken t))"
        using blacken_zip [OF less.prems(1) ne] by blast
      moreover have "root_addr t \<noteq> 0" using less.prems(1) ne by (cases t) (auto simp: zip_in_def)
      ultimately show ?thesis
        using T go zip_in_plug [of h' root k "blacken t"]
        by (subst delete_fixup.simps) auto
    qed
  qed
qed

end
