(* ===== verification/RBTreeOps.thy ===== *)
theory RBTreeOps
  imports RBTreeInsert RBTreeDelete
begin

text \<open>
  What the operations of \<open>RBTree\<close> do to the list the tree holds: the order the comparison function
  must define, the search loops, \<open>rbtree_find\<close> and \<open>rbtree_insert\<close>.
\<close>


section \<open>The order of the elements\<close>

text \<open>
  \<open>cmp_fn\<close> is a total preorder: "equal" elements (result 0) need not be the same pointer. The tree
  holds a list that strictly increases; on such a list the operations have short specifications.
\<close>

definition cmp_order :: "('e \<Rightarrow> 'e \<Rightarrow> int) \<Rightarrow> bool" where
  "cmp_order cmp \<longleftrightarrow> (\<forall>a. cmp a a = 0) \<and> (\<forall>a b. cmp a b < 0 \<longleftrightarrow> cmp b a > 0) \<and>
     (\<forall>a b c. cmp a b \<le> 0 \<longrightarrow> cmp b c \<le> 0 \<longrightarrow> cmp a c \<le> 0)"

definition increasing :: "('e \<Rightarrow> 'e \<Rightarrow> int) \<Rightarrow> 'e list \<Rightarrow> bool" where
  "increasing cmp xs \<longleftrightarrow> sorted_wrt (\<lambda>a b. cmp a b < 0) xs"

definition list_find :: "('e \<Rightarrow> 'e \<Rightarrow> int) \<Rightarrow> 'e \<Rightarrow> 'e list \<Rightarrow> 'e option" where
  "list_find cmp x xs = find (\<lambda>e. cmp x e = 0) xs"

definition list_insert :: "('e \<Rightarrow> 'e \<Rightarrow> int) \<Rightarrow> 'e \<Rightarrow> 'e list \<Rightarrow> 'e list" where
  "list_insert cmp x xs = filter (\<lambda>e. cmp x e > 0) xs @ x # filter (\<lambda>e. cmp x e < 0) xs"

definition list_remove :: "('e \<Rightarrow> 'e \<Rightarrow> int) \<Rightarrow> 'e \<Rightarrow> 'e list \<Rightarrow> 'e list" where
  "list_remove cmp x xs = filter (\<lambda>e. cmp x e \<noteq> 0) xs"

lemma cmp_orderD:
  assumes "cmp_order cmp"
  shows cmp_refl: "cmp a a = 0" and cmp_flip: "cmp a b < 0 \<longleftrightarrow> cmp b a > 0"
    and cmp_le_trans: "cmp a b \<le> 0 \<Longrightarrow> cmp b c \<le> 0 \<Longrightarrow> cmp a c \<le> 0"
  using assms unfolding cmp_order_def by blast+

lemma cmp_flip_eq: "cmp_order cmp \<Longrightarrow> cmp a b = 0 \<longleftrightarrow> cmp b a = 0"
  by (metis cmp_flip linorder_cases less_irrefl)

lemma cmp_less_trans:
  assumes "cmp_order cmp"
  shows "cmp a b \<le> 0 \<Longrightarrow> cmp b c < 0 \<Longrightarrow> cmp a c < 0" and "cmp a b < 0 \<Longrightarrow> cmp b c \<le> 0 \<Longrightarrow> cmp a c < 0"
proof -
  show "cmp a b \<le> 0 \<Longrightarrow> cmp b c < 0 \<Longrightarrow> cmp a c < 0"
    using cmp_le_trans [OF assms, of c a b] cmp_flip [OF assms] by (metis linorder_not_less)
  show "cmp a b < 0 \<Longrightarrow> cmp b c \<le> 0 \<Longrightarrow> cmp a c < 0"
    using cmp_le_trans [OF assms, of b c a] cmp_flip [OF assms] by (metis linorder_not_less)
qed

text \<open>A list cut at a key: smaller elements, at most one equal element, larger elements.\<close>

lemma list_find_cut:
  assumes "\<forall>e \<in> set xs. cmp x e > 0" and "\<forall>e \<in> set ys. cmp x e < 0"
  shows "list_find cmp x (xs @ ys) = None" and "cmp x e = 0 \<Longrightarrow> list_find cmp x (xs @ e # ys) = Some e"
proof -
  show "list_find cmp x (xs @ ys) = None"
    using assms by (auto simp: list_find_def find_None_iff)
  show "cmp x e = 0 \<Longrightarrow> list_find cmp x (xs @ e # ys) = Some e"
    using assms(1) by (induction xs) (auto simp: list_find_def)
qed

lemma list_insert_cut:
  assumes "\<forall>e \<in> set xs. cmp x e > 0" and "\<forall>e \<in> set ys. cmp x e < 0"
  shows "list_insert cmp x (xs @ ys) = xs @ x # ys" and "cmp x e = 0 \<Longrightarrow> list_insert cmp x (xs @ e # ys) = xs @ x # ys"
  using assms by (auto simp: list_insert_def filter_empty_conv filter_id_conv order_less_imp_not_less)

lemma list_remove_cut:
  assumes "\<forall>e \<in> set xs. cmp x e > 0" and "\<forall>e \<in> set ys. cmp x e < 0"
  shows "list_remove cmp x (xs @ ys) = xs @ ys" and "cmp x e = 0 \<Longrightarrow> list_remove cmp x (xs @ e # ys) = xs @ ys"
proof -
  have id: "filter (\<lambda>e. cmp x e \<noteq> 0) xs = xs" "filter (\<lambda>e. cmp x e \<noteq> 0) ys = ys"
    using assms by (auto simp: filter_id_conv)
  then show "list_remove cmp x (xs @ ys) = xs @ ys" by (simp add: list_remove_def)
  show "cmp x e = 0 \<Longrightarrow> list_remove cmp x (xs @ e # ys) = xs @ ys"
    using id by (simp add: list_remove_def)
qed

lemma increasing_list_insert:
  assumes o: "cmp_order cmp" and "increasing cmp xs"
  shows "increasing cmp (list_insert cmp x xs)"
proof -
  have lt: "cmp x a > 0 \<Longrightarrow> cmp x b < 0 \<Longrightarrow> cmp a b < 0" for a b
    using cmp_less_trans(2) [OF o, of a x b] cmp_flip [OF o, of a x] by simp
  show ?thesis
    using assms(2) lt cmp_flip [OF o]
    by (auto simp: increasing_def list_insert_def sorted_wrt_append sorted_wrt_filter)
qed

lemma increasing_list_remove: "increasing cmp xs \<Longrightarrow> increasing cmp (list_remove cmp x xs)"
  by (simp add: increasing_def list_remove_def sorted_wrt_filter)

section \<open>Search\<close>

fun seek :: "('e \<Rightarrow> 'e \<Rightarrow> int) \<Rightarrow> 'e \<Rightarrow> 'e frame list \<Rightarrow> 'e rtree \<Rightarrow> 'e frame list \<times> 'e rtree" where
  "seek cmp x k Lf = (k, Lf)"
| "seek cmp x k (Nd a c l e r) =
     (if cmp x e < 0 then seek cmp x (LFr a c e r # k) l
      else if cmp x e > 0 then seek cmp x (RFr a c l e # k) r
      else (k, Nd a c l e r))"

lemma seek_plug: "seek cmp x k t = (k', t') \<Longrightarrow> plug k' t' = plug k t"
  by (induction cmp x k t rule: seek.induct) (auto split: if_splits)

lemma seek_found: "seek cmp x k t = (k', Nd a c l e r) \<Longrightarrow> cmp x e = 0"
  by (induction cmp x k t rule: seek.induct) (auto split: if_splits)

lemma search_loop_seek:
  "tree_in h p t \<Longrightarrow> search_loop cmp h x (root_addr t) = Some (root_addr (snd (seek cmp x k t)))"
proof (induction t arbitrary: p k)
  case Lf
  then show ?case by (simp add: search_loop.simps)
next
  case (Nd a c l e r)
  then show ?case by (subst search_loop.simps) (auto simp: Let_def)
qed

lemma insert_loop_seek:
  assumes "tree_in h (path_addr k) t" and "seek cmp x k t = (k', t')"
    and "\<And>p c e s m. k = LFr p c e s # m \<Longrightarrow> c0 < 0" and "\<And>p c s e m. k = RFr p c s e # m \<Longrightarrow> c0 > 0"
  shows "\<exists>c. insert_loop cmp h x (root_addr t) (path_addr k) c0 =
      Some (root_addr t', if t' = Lf then path_addr k' else root_addr t', c) \<and>
    (t' = Lf \<longrightarrow> (\<forall>p d e s m. k' = LFr p d e s # m \<longrightarrow> c < 0) \<and> (\<forall>p d s e m. k' = RFr p d s e # m \<longrightarrow> c > 0))"
  using assms
proof (induction t arbitrary: k c0)
  case Lf
  then show ?case by (auto simp: insert_loop.simps)
next
  case (Nd a c l e r)
  consider "cmp x e < 0" | "cmp x e > 0" | "cmp x e = 0" by linarith
  then show ?case
  proof cases
    case 1
    with Nd.prems have "tree_in h (path_addr (LFr a c e r # k)) l" "seek cmp x (LFr a c e r # k) l = (k', t')" by auto
    from Nd.IH(1) [OF this, of "cmp x e"] 1 obtain c' where "insert_loop cmp h x (root_addr l) a (cmp x e) =
        Some (root_addr t', if t' = Lf then path_addr k' else root_addr t', c')"
      "t' = Lf \<longrightarrow> (\<forall>p d e s m. k' = LFr p d e s # m \<longrightarrow> c' < 0) \<and> (\<forall>p d s e m. k' = RFr p d s e # m \<longrightarrow> c' > 0)"
      by (auto simp del: not_all)
    with 1 Nd.prems(1) show ?thesis by (subst insert_loop.simps) (auto simp: Let_def)
  next
    case 2
    with Nd.prems have "tree_in h (path_addr (RFr a c l e # k)) r" "seek cmp x (RFr a c l e # k) r = (k', t')" by auto
    from Nd.IH(2) [OF this, of "cmp x e"] 2 obtain c' where "insert_loop cmp h x (root_addr r) a (cmp x e) =
        Some (root_addr t', if t' = Lf then path_addr k' else root_addr t', c')"
      "t' = Lf \<longrightarrow> (\<forall>p d e s m. k' = LFr p d e s # m \<longrightarrow> c' < 0) \<and> (\<forall>p d s e m. k' = RFr p d s e # m \<longrightarrow> c' > 0)"
      by (auto simp del: not_all)
    with 2 Nd.prems(1) show ?thesis by (subst insert_loop.simps) (auto simp: Let_def)
  next
    case 3
    with Nd.prems show ?thesis by (subst insert_loop.simps) (auto simp: Let_def)
  qed
qed

lemma seek_order:
  assumes o: "cmp_order cmp" and "increasing cmp (inorder t)" and "seek cmp x k t = (k', t')"
    and "\<forall>e \<in> set (before k). cmp x e > 0" and "\<forall>e \<in> set (after k). cmp x e < 0"
  shows "(\<forall>e \<in> set (before k'). cmp x e > 0) \<and> (\<forall>e \<in> set (after k'). cmp x e < 0)"
  using assms(2-)
proof (induction t arbitrary: k)
  case Lf
  then show ?case by auto
next
  case (Nd a c l e r)
  have l: "increasing cmp (inorder l)" "\<forall>y \<in> set (inorder l). cmp y e < 0"
    and r: "increasing cmp (inorder r)" "\<forall>y \<in> set (inorder r). cmp e y < 0"
    using Nd.prems(1) by (auto simp: increasing_def sorted_wrt_append)
  have gt: "\<forall>y \<in> set (inorder l). cmp x y > 0" if "cmp x e > 0"
  proof
    fix y assume "y \<in> set (inorder l)"
    then have "cmp y e < 0" using l(2) by blast
    moreover have "cmp e x \<le> 0" using that cmp_flip [OF o, of e x] by simp
    ultimately show "cmp x y > 0" using cmp_less_trans(2) [OF o] cmp_flip [OF o] by blast
  qed
  have lt: "\<forall>y \<in> set (inorder r). cmp x y < 0" if "cmp x e < 0"
    using r(2) cmp_less_trans(2) [OF o that] by (auto intro: order_less_imp_le)
  consider "cmp x e < 0" | "cmp x e > 0" | "cmp x e = 0" by linarith
  then show ?case
  proof cases
    case 1
    show ?thesis
    proof (rule Nd.IH(1) [OF l(1), of "LFr a c e r # k"])
      show "seek cmp x (LFr a c e r # k) l = (k', t')" using Nd.prems(2) 1 by simp
      show "\<forall>e \<in> set (before (LFr a c e r # k)). cmp x e > 0" using Nd.prems(3) by simp
      show "\<forall>e \<in> set (after (LFr a c e r # k)). cmp x e < 0" using Nd.prems(4) 1 lt [OF 1] by simp blast
    qed
  next
    case 2
    show ?thesis
    proof (rule Nd.IH(2) [OF r(1), of "RFr a c l e # k"])
      show "seek cmp x (RFr a c l e # k) r = (k', t')" using Nd.prems(2) 2 by simp
      show "\<forall>e \<in> set (before (RFr a c l e # k)). cmp x e > 0" using Nd.prems(3) 2 gt [OF 2] by simp blast
      show "\<forall>e \<in> set (after (RFr a c l e # k)). cmp x e < 0" using Nd.prems(4) by simp
    qed
  next
    case 3
    then show ?thesis using Nd.prems by simp
  qed
qed

text \<open>The whole search from the root.\<close>

lemma seek_root:
  assumes "cmp_order cmp" and "increasing cmp (inorder T)" and "seek cmp x [] T = (k, t)"
  shows "plug k t = T" and "\<forall>e \<in> set (before k). cmp x e > 0" and "\<forall>e \<in> set (after k). cmp x e < 0"
  using seek_plug [OF assms(3)] seek_order [OF assms] by auto

lemma seek_node_order:
  assumes o: "cmp_order cmp" and s: "increasing cmp (inorder T)" and "seek cmp x [] T = (k, Nd a c l e r)"
  shows "\<forall>y \<in> set (before k @ inorder l). cmp x y > 0" and "\<forall>y \<in> set (inorder r @ after k). cmp x y < 0"
proof -
  have e: "cmp x e = 0" using assms(3) by (rule seek_found)
  have "increasing cmp (inorder (plug k (Nd a c l e r)))" using seek_root(1) [OF assms] s by simp
  then have "\<forall>y \<in> set (inorder l). cmp y e < 0" "\<forall>y \<in> set (inorder r). cmp e y < 0"
    by (auto simp: inorder_plug increasing_def sorted_wrt_append)
  then have "\<forall>y \<in> set (inorder l). cmp x y > 0" "\<forall>y \<in> set (inorder r). cmp x y < 0"
    using e cmp_less_trans [OF o] cmp_flip [OF o] cmp_flip_eq [OF o] by (metis order_refl)+
  then show "\<forall>y \<in> set (before k @ inorder l). cmp x y > 0" "\<forall>y \<in> set (inorder r @ after k). cmp x y < 0"
    using seek_root(2,3) [OF assms] by auto
qed

text \<open>What the end of the search says about the list operations.\<close>

lemma seek_leaf:
  assumes "cmp_order cmp" and "increasing cmp (inorder T)" and "seek cmp x [] T = (k, Lf)"
  shows "list_find cmp x (inorder T) = None" and "list_insert cmp x (inorder T) = before k @ x # after k"
    and "list_remove cmp x (inorder T) = inorder T"
proof -
  note s = seek_root [OF assms]
  have "inorder T = before k @ after k" using s(1) inorder_plug [of k Lf] by simp
  then show "list_find cmp x (inorder T) = None" "list_insert cmp x (inorder T) = before k @ x # after k"
    "list_remove cmp x (inorder T) = inorder T"
    using list_find_cut(1) [of "before k" cmp x "after k"] list_insert_cut(1) [of "before k" cmp x "after k"]
      list_remove_cut(1) [of "before k" cmp x "after k"] s(2,3)
    by simp_all
qed

lemma seek_node:
  assumes "cmp_order cmp" and "increasing cmp (inorder T)" and s: "seek cmp x [] T = (k, Nd a c l e r)"
  shows "list_find cmp x (inorder T) = Some e"
    and "list_insert cmp x (inorder T) = before k @ inorder l @ x # inorder r @ after k"
    and "list_remove cmp x (inorder T) = before k @ inorder l @ inorder r @ after k"
proof -
  let ?xs = "before k @ inorder l" and ?ys = "inorder r @ after k"
  note cut = seek_node_order [OF assms] and e = seek_found [OF s]
  have "inorder T = ?xs @ e # ?ys"
    using seek_root(1) [OF assms] inorder_plug [of k "Nd a c l e r"] by simp
  then show "list_find cmp x (inorder T) = Some e"
    "list_insert cmp x (inorder T) = before k @ inorder l @ x # inorder r @ after k"
    "list_remove cmp x (inorder T) = before k @ inorder l @ inorder r @ after k"
    using list_find_cut(2) [of ?xs cmp x ?ys e] list_insert_cut(2) [of ?xs cmp x ?ys e]
      list_remove_cut(2) [of ?xs cmp x ?ys e] cut e by simp_all
qed

section \<open>The tree in the heap holds a list\<close>

text \<open>
  \<open>holds h t xs A\<close>: the nodes at the addresses \<open>A\<close> form a red-black tree from \<open>tree->root\<close>, with
  consistent parent pointers, that holds the increasing list \<open>xs\<close>, and \<open>size\<close> counts it.
\<close>

definition rb_rep :: "'e rb_heap \<Rightarrow> 'e rbtree \<Rightarrow> 'e rtree \<Rightarrow> bool" where
  "rb_rep h t T \<longleftrightarrow> zip_in h (rb_root t) [] T \<and> rbt T \<and> rb_size t = length (inorder T) \<and>
     increasing (rb_cmp t) (inorder T)"

definition holds :: "'e rb_heap \<Rightarrow> 'e rbtree \<Rightarrow> 'e list \<Rightarrow> addr set \<Rightarrow> bool" where
  "holds h t xs A \<longleftrightarrow> (\<exists>T. rb_rep h t T \<and> inorder T = xs \<and> set (addrs T) = A)"

lemma holds_new: "holds h (rbtree_new cmp owns) [] {}"
  by (auto simp: holds_def rb_rep_def rbtree_new_def zip_in_root rbt_def increasing_def intro!: exI [of _ Lf])

lemma seek_zip:
  assumes "cmp_order (rb_cmp t)" and "rb_rep h t T" and "seek (rb_cmp t) x [] T = (k, t')"
  shows "zip_in h (rb_root t) k t'" and "rbt (plug k t')" and "tree_in h 0 T" and "rb_root t = root_addr T"
    and "increasing (rb_cmp t) (inorder T)" and "plug k t' = T"
proof -
  show T: "tree_in h 0 T" "rb_root t = root_addr T" "increasing (rb_cmp t) (inorder T)"
    using assms(2) by (auto simp: rb_rep_def zip_in_root)
  show p: "plug k t' = T" using seek_root(1) [OF assms(1) T(3) assms(3)] .
  show "zip_in h (rb_root t) k t'" "rbt (plug k t')"
    using assms(2) zip_in_plug [of h "rb_root t" k t'] p by (auto simp: rb_rep_def)
qed

lemma find_holds:
  assumes "cmp_order (rb_cmp t)" and "holds h t xs A"
  shows "rbtree_find h t (Some x) = Some (list_find (rb_cmp t) x xs)"
proof -
  from assms(2) obtain T where T: "rb_rep h t T" "inorder T = xs" by (auto simp: holds_def)
  obtain k t' where s: "seek (rb_cmp t) x [] T = (k, t')" by (cases "seek (rb_cmp t) x [] T")
  note z = seek_zip [OF assms(1) T(1) s]
  note run = search_loop_seek [OF z(3), of "rb_cmp t" x "[]", unfolded s]
  show ?thesis
  proof (cases t')
    case Lf
    with run z T(2) seek_leaf(1) [OF assms(1) z(5)] s show ?thesis
      by (auto simp: rbtree_find_def)
  next
    case (Nd a c l e r)
    with run z T(2) seek_node(1) [OF assms(1) z(5)] s show ?thesis
      by (auto simp: rbtree_find_def rd_Some zip_in_def)
  qed
qed

section \<open>Insertion\<close>

lemma insert_found_holds:
  assumes o: "cmp_order (rb_cmp t)" and T: "rb_rep h t T" and s: "seek (rb_cmp t) x [] T = (k, Nd b c l e r)"
  shows "\<exists>h'. rbtree_insert h t a (Some x) = Some (Some e, h', t) \<and> touches (set (addrs T)) h h' \<and>
    holds h' t (list_insert (rb_cmp t) x (inorder T)) (set (addrs T))"
proof -
  note z = seek_zip [OF o T s]
  let ?h = "h(b \<mapsto> \<lparr>nd_elem = x, nd_color = c, nd_left = root_addr l, nd_right = root_addr r, nd_parent = path_addr k\<rparr>)"
  have b: "b \<noteq> 0" "h b = Some \<lparr>nd_elem = e, nd_color = c, nd_left = root_addr l, nd_right = root_addr r, nd_parent = path_addr k\<rparr>"
    using z(1) by (auto simp: zip_in_def)
  from insert_loop_seek [of h "[]" T "rb_cmp t" x k "Nd b c l e r" 0] z(3) s obtain c' where
    "insert_loop (rb_cmp t) h x (rb_root t) 0 0 = Some (b, b, c')" using z(4) by auto
  with b have run: "rbtree_insert h t a (Some x) = Some (Some e, ?h, t)"
    by (simp add: rbtree_insert_def rd_Some wr_Some)
  let ?T = "plug k (Nd b c l x r)"
  have "zip_in ?h (rb_root t) k (Nd b c l x r)" using z(1) by (auto simp: zip_in_def)
  then have zip: "zip_in ?h (rb_root t) [] ?T" using zip_in_plug by blast
  have rbt: "rbt ?T"
  proof -
    obtain n where "path_ok k n" "rbh (Nd b c l e r) n" "k = [] \<or> path_color k = RB_RED \<longrightarrow> c = RB_BLACK"
      using plug_rbt [OF z(2)] by auto
    then show ?thesis by (intro rbt_plug [of k n]) (cases c; auto)+
  qed
  have list: "inorder ?T = list_insert (rb_cmp t) x (inorder T)"
    using seek_node(2) [OF o z(5) s] by (simp add: inorder_plug)
  moreover have "increasing (rb_cmp t) (inorder ?T)"
    using increasing_list_insert [OF o z(5)] list by simp
  moreover have "length (inorder ?T) = length (inorder T)" "set (addrs ?T) = set (addrs T)" "b \<in> set (addrs T)"
    using z(6) inorder_plug [of k "Nd b c l e r"] set_addrs_plug [of k "Nd b c l e r"]
    by (auto simp: inorder_plug set_addrs_plug)
  ultimately have "holds ?h t (list_insert (rb_cmp t) x (inorder T)) (set (addrs T))"
    using zip rbt T unfolding holds_def rb_rep_def by (intro exI [of _ ?T]) simp
  then show ?thesis using run \<open>b \<in> set (addrs T)\<close> by auto
qed

lemma insert_new_holds:
  assumes o: "cmp_order (rb_cmp t)" and T: "rb_rep h t T" and s: "seek (rb_cmp t) x [] T = (k, Lf)"
    and a: "a \<noteq> 0" "a \<notin> set (addrs T)"
  shows "\<exists>h' root. rbtree_insert h t a (Some x) = Some (None, h', t\<lparr>rb_root := root, rb_size := rb_size t + 1\<rparr>) \<and>
    touches (insert a (set (addrs T))) h h' \<and>
    holds h' (t\<lparr>rb_root := root, rb_size := rb_size t + 1\<rparr>) (list_insert (rb_cmp t) x (inorder T)) (insert a (set (addrs T)))"
proof -
  note z = seek_zip [OF o T s]
  let ?n = "\<lparr>nd_elem = x, nd_color = RB_RED, nd_left = 0, nd_right = 0, nd_parent = path_addr k\<rparr>"
  let ?t = "Nd a RB_RED Lf x Lf"
  from insert_loop_seek [of h "[]" T "rb_cmp t" x k Lf 0] z(3) s obtain c where
    loop: "insert_loop (rb_cmp t) h x (rb_root t) 0 0 = Some (0, path_addr k, c)"
    and c: "\<And>p d e s m. k = LFr p d e s # m \<Longrightarrow> c < 0" "\<And>p d s e m. k = RFr p d s e # m \<Longrightarrow> c > 0"
    using z(4) by auto
  have ak: "a \<notin> set (path_addrs k)" using a(2) z(6) set_addrs_plug [of k Lf] by auto
  have "\<exists>h1 root1. (do { h \<leftarrow> wr_parent (node_new h a x) a (path_addr k);
          if path_addr k = 0 then Some (h, a)
          else if c < 0 then do { h \<leftarrow> wr_left h (path_addr k) a; Some (h, rb_root t) }
          else do { h \<leftarrow> wr_right h (path_addr k) a; Some (h, rb_root t) } }) = Some (h1, root1) \<and>
      zip_in h1 root1 k ?t \<and> touches (insert a (set (addrs T))) h h1"
    using z(1,6) a ak c set_addrs_plug [of k Lf]
    by (cases k rule: path_addrs.cases) (auto simp: zip_in_def node_new_def wr_Some)
  then obtain h1 root1 where link: "(do { h \<leftarrow> wr_parent (node_new h a x) a (path_addr k);
          if path_addr k = 0 then Some (h, a)
          else if c < 0 then do { h \<leftarrow> wr_left h (path_addr k) a; Some (h, rb_root t) }
          else do { h \<leftarrow> wr_right h (path_addr k) a; Some (h, rb_root t) } }) = Some (h1, root1)"
    and z1: "zip_in h1 root1 k ?t" and t1: "touches (insert a (set (addrs T))) h h1" by blast
  have "red_focus k ?t" using plug_rbt [OF z(2)] by (auto simp: red_focus_def)
  from insert_fixup_zip [OF z1 this] obtain h' root' T' where
    fixup: "insert_fixup h1 root1 a = Some (h', root')" and T': "zip_in h' root' [] T'" "rbt T'"
    and re: "rebalanced h1 (plug k ?t) h' T'" by auto
  have same: "set (addrs (plug k ?t)) = insert a (set (addrs T))"
    using z(6) set_addrs_plug [of k Lf] by (auto simp: set_addrs_plug)
  have list: "inorder T' = list_insert (rb_cmp t) x (inorder T)" and len: "length (inorder T') = Suc (length (inorder T))"
    using re seek_leaf(2) [OF o z(5) s] z(6) inorder_plug [of k Lf] by (auto simp: rebalanced_def inorder_plug)
  have "rbtree_insert h t a (Some x) = Some (None, h', t\<lparr>rb_root := root', rb_size := rb_size t + 1\<rparr>)"
    using loop link fixup by (auto simp: rbtree_insert_def Let_def bind_Some_iff split: if_splits)
  moreover have "touches (insert a (set (addrs T))) h h'"
    using t1 re same by (auto simp: rebalanced_def intro: touches_trans)
  moreover have "holds h' (t\<lparr>rb_root := root', rb_size := rb_size t + 1\<rparr>) (list_insert (rb_cmp t) x (inorder T)) (insert a (set (addrs T)))"
  proof -
    have "increasing (rb_cmp t) (inorder T')" using increasing_list_insert [OF o z(5)] list by simp
    moreover have "set (addrs T') = insert a (set (addrs T))" using re same by (simp add: rebalanced_def)
    ultimately show ?thesis
      using T' T list len unfolding holds_def rb_rep_def by (intro exI [of _ T']) simp
  qed
  ultimately show ?thesis by blast
qed

lemma insert_holds:
  assumes "cmp_order (rb_cmp t)" and "holds h t xs A" and "a \<noteq> 0" and "a \<notin> A"
  shows "\<exists>h' t'. rbtree_insert h t a (Some x) = Some (list_find (rb_cmp t) x xs, h', t') \<and>
    rb_cmp t' = rb_cmp t \<and> rb_owns t' = rb_owns t \<and> 
    touches (if list_find (rb_cmp t) x xs = None then insert a A else A) h h' \<and>
    holds h' t' (list_insert (rb_cmp t) x xs) (if list_find (rb_cmp t) x xs = None then insert a A else A)"
proof -
  from assms(2) obtain T where T: "rb_rep h t T" "inorder T = xs" "set (addrs T) = A" by (auto simp: holds_def)
  obtain k t' where s: "seek (rb_cmp t) x [] T = (k, t')" by (cases "seek (rb_cmp t) x [] T")
  note z = seek_zip [OF assms(1) T(1) s]
  show ?thesis
  proof (cases t')
    case Lf
    with insert_new_holds [OF assms(1) T(1), of x k a] seek_leaf(1) [OF assms(1) z(5)] s T(2,3) assms(3,4)
    show ?thesis by fastforce
  next
    case (Nd b c l e r)
    with insert_found_holds [OF assms(1) T(1), of x k b c l e r a] seek_node(1) [OF assms(1) z(5)] s T(2,3)
    show ?thesis by (fastforce elim: touches_mono)
  qed
qed

end
