(* ===== verification/RBTreeRemove.thy ===== *)
theory RBTreeRemove
  imports RBTreeOps
begin

text \<open>
  \<open>rbtree_remove\<close>: unlinking a node with one child, with two children (its successor takes its
  place), and the fixup of \<open>RBTreeDelete\<close>.
\<close>

section \<open>Removal\<close>

text \<open>
  \<open>unlinked\<close>: the node \<open>z\<close> is out of the tree, its cell is still there; the focus is where the
  fixup starts, if a black node left.
\<close>

definition unlinked :: "'e rb_heap \<Rightarrow> 'e frame list \<Rightarrow> addr \<Rightarrow> 'e rtree \<Rightarrow> 'e rtree
    \<Rightarrow> ('e rb_heap \<times> addr \<times> addr \<times> addr \<times> rb_color) option \<Rightarrow> bool" where
  "unlinked h k z l r res \<longleftrightarrow> (\<exists>h' root' K F c.
     res = Some (h', root', root_addr F, path_addr K, c) \<and> zip_in h' root' K F \<and>
     inorder (plug K F) = before k @ inorder l @ inorder r @ after k \<and>
     set (addrs (plug K F)) = set (addrs l) \<union> set (addrs r) \<union> set (path_addrs k) \<and>
     touches (insert z (set (addrs (plug K F)))) h h' \<and> h' z \<noteq> None \<and>
     (if c = RB_BLACK then hole K F else rbt (plug K F)))"

lemma unlinkedI:
  "res = Some (h', root', root_addr F, path_addr K, c) \<Longrightarrow> zip_in h' root' K F \<Longrightarrow>
   inorder (plug K F) = before k @ inorder l @ inorder r @ after k \<Longrightarrow>
   set (addrs (plug K F)) = set (addrs l) \<union> set (addrs r) \<union> set (path_addrs k) \<Longrightarrow>
   touches (insert z (set (addrs (plug K F)))) h h' \<Longrightarrow> h' z \<noteq> None \<Longrightarrow>
   (if c = RB_BLACK then hole K F else rbt (plug K F)) \<Longrightarrow> unlinked h k z l r res"
  unfolding unlinked_def by blast

text \<open>Where a node with at most one child is replaced by that child.\<close>

lemma hole_or_rbt:
  assumes "path_ok k n" and "rbh (Nd z c l e r) n" and "k = [] \<or> path_color k = RB_RED \<longrightarrow> c = RB_BLACK"
    and "l = Lf \<and> t = r \<or> r = Lf \<and> t = l"
  shows "if c = RB_BLACK then hole k t else rbt (plug k t)"
proof (cases c)
  case RB_BLACK
  then obtain m where m: "n = Suc m" "rbh t m" "m = 0" using assms(2,4) by auto
  then have "rbh (blacken t) (Suc m)" if "root_color t = RB_RED" using that by (cases t) auto
  then show ?thesis using RB_BLACK m assms(1) by (auto simp: hole_def)
next
  case RB_RED
  then have "rbh t n" "root_color t = RB_BLACK" using assms(2,4) by auto
  then show ?thesis using rbt_plug [OF assms(1)] RB_RED by simp
qed

lemma unlink_one_child:
  assumes z: "zip_in h root k (Nd z c l e r)" and t: "rbt (plug k (Nd z c l e r))" and "l = Lf \<or> r = Lf"
  shows "unlinked h k z l r (unlink h root z)"
proof -
  define v where "v = (if l = Lf then r else l)"
  let ?n = "\<lparr>nd_elem = e, nd_color = c, nd_left = root_addr l, nd_right = root_addr r, nd_parent = path_addr k\<rparr>"
  obtain n where n: "path_ok k n" "rbh (Nd z c l e r) n" "k = [] \<or> path_color k = RB_RED \<longrightarrow> c = RB_BLACK"
    using plug_rbt [OF t] by auto
  have "\<exists>h' root'. transplant h root z (root_addr v) = Some (h', root') \<and> zip_in h' root' k v \<and>
     h' z = Some ?n \<and> touches (set (addrs v) \<union> set (path_addrs k)) h h'"
    using z by (intro transplant_zip [where q = z]) (auto simp: zip_in_def v_def)
  then obtain h' root' where tr: "transplant h root z (root_addr v) = Some (h', root')" "zip_in h' root' k v"
     "h' z = Some ?n" "touches (set (addrs v) \<union> set (path_addrs k)) h h'" by blast
  have hz: "h z = Some ?n" and "z \<noteq> 0" using z by (auto simp: zip_in_def)
  have nz: "root_addr l = 0 \<longleftrightarrow> l = Lf" "root_addr r = 0 \<longleftrightarrow> r = Lf"
    using z root_addr_0 by (auto simp: zip_in_def)
  have "unlink h root z = Some (h', root', root_addr v, path_addr k, c)"
    using tr(1) hz nz assms(3) by (auto simp: unlink_def rd_Some v_def)
  then show ?thesis
    using tr assms(3) hole_or_rbt [OF n, of v]
    by (rule_tac unlinkedI [OF _ tr(2)]) (auto simp: inorder_plug set_addrs_plug v_def touches_def)
qed

fun seek_min :: "'e frame list \<Rightarrow> addr \<Rightarrow> rb_color \<Rightarrow> 'e rtree \<Rightarrow> 'e \<Rightarrow> 'e rtree \<Rightarrow> 'e frame list \<times> 'e rtree" where
  "seek_min k a c Lf e r = (k, Nd a c Lf e r)"
| "seek_min k a c (Nd b d l' e' r') e r = seek_min (LFr a c e r # k) b d l' e' r'"

lemma seek_min_path:
  "\<exists>m y yc ye yr. seek_min k a c l e r = (m @ k, Nd y yc Lf ye yr) \<and>
     plug m (Nd y yc Lf ye yr) = Nd a c l e r \<and> before m = [] \<and> (m = [] \<longleftrightarrow> l = Lf)"
proof (induction k a c l e r rule: seek_min.induct)
  case (2 k a c b d l' e' r' e r)
  then obtain m y yc ye yr where "seek_min (LFr a c e r # k) b d l' e' r' = (m @ LFr a c e r # k, Nd y yc Lf ye yr)"
    "plug m (Nd y yc Lf ye yr) = Nd b d l' e' r'" "before m = []" by blast
  moreover have "plug (m @ [LFr a c e r]) t = plug [LFr a c e r] (plug m t)"
     "before (m @ [LFr a c e r]) = before m" for t
    by (induction m t rule: plug.induct) auto
  ultimately show ?case by (intro exI [of _ "m @ [LFr a c e r]"]) auto
qed simp

lemma plug_append: "plug (m @ k) t = plug k (plug m t)"
  by (induction m t rule: plug.induct) auto

lemma subtree_min_seek:
  "tree_in h p (Nd a c l e r) \<Longrightarrow> subtree_min h a = Some (root_addr (snd (seek_min k a c l e r)))"
proof (induction k a c l e r arbitrary: p rule: seek_min.induct)
  case (1 k a c e r)
  then show ?case by (subst subtree_min.simps) (simp add: rd_Some)
next
  case (2 k a c b d l' e' r' e r)
  from "2.prems" have "tree_in h a (Nd b d l' e' r')" by simp
  from "2.IH" [OF this] "2.prems" show ?case by (subst subtree_min.simps) (simp add: rd_Some)
qed

lemma tree_in_touches: "touches S h h' \<Longrightarrow> set (addrs t) \<inter> S = {} \<Longrightarrow> tree_in h p t \<Longrightarrow> tree_in h' p t"
  by (induction t arbitrary: p) (auto simp: touches_def)

text \<open>The last part of \<open>unlink\<close>: the minimum \<open>y\<close> takes the place, the left subtree and the colour of \<open>z\<close>.\<close>

lemma unlink_replace:
  assumes p: "path_in h z k" "root = top_addr k z" and nz: "z \<noteq> 0" "y \<noteq> 0"
    and hz: "h z = Some n" "nd_parent n = path_addr k" "nd_left n = root_addr l" "nd_color n = c"
    and l: "tree_in h z l" "l \<noteq> Lf" and v: "tree_in h q (Nd y yc Lf ye r)"
    and d: "distinct (z # addrs l @ (y # addrs r) @ path_addrs k)"
  shows "\<exists>h' root'. (do {
         (h, root) \<leftarrow> transplant h root z y;
         l \<leftarrow> rd nd_left h z;
         h \<leftarrow> wr_left h y l;
         h \<leftarrow> wr_parent h l y;
         c \<leftarrow> rd nd_color h z;
         h \<leftarrow> wr_color h y c;
         Some (h, root, x, xp, yc') }) = Some (h', root', x, xp, yc') \<and>
     zip_in h' root' k (Nd y c l ye r) \<and> h' z = Some n \<and>
     touches (insert y (set (addrs l) \<union> set (addrs r) \<union> set (path_addrs k))) h h'"
proof -
  have "\<exists>h' root'. transplant h root z (root_addr (Nd y yc Lf ye r)) = Some (h', root') \<and>
     zip_in h' root' k (Nd y yc Lf ye r) \<and> h' z = Some n \<and>
     touches (set (addrs (Nd y yc Lf ye r)) \<union> set (path_addrs k)) h h'"
    using assms by (intro transplant_zip) auto
  then obtain h1 root1 where tr: "transplant h root z y = Some (h1, root1)" "zip_in h1 root1 k (Nd y yc Lf ye r)"
    "h1 z = Some n" and t1: "touches (insert y (set (addrs r) \<union> set (path_addrs k))) h h1" by auto
  obtain b d bl be br where l': "l = Nd b d bl be br" using l by (cases l) auto
  have "tree_in h1 z l"
    using d by (intro tree_in_touches [OF t1 _ l(1)]) auto
  then have hb: "h1 b = Some \<lparr>nd_elem = be, nd_color = d, nd_left = root_addr bl, nd_right = root_addr br, nd_parent = z\<rparr>"
    and lr: "tree_in h1 b bl" "tree_in h1 b br" "b \<noteq> 0" using l' by auto
  have hy: "h1 y = Some \<lparr>nd_elem = ye, nd_color = yc, nd_left = 0, nd_right = root_addr r, nd_parent = path_addr k\<rparr>"
    using tr(2) by (auto simp: zip_in_def)
  let ?h = "h1(b \<mapsto> \<lparr>nd_elem = be, nd_color = d, nd_left = root_addr bl, nd_right = root_addr br, nd_parent = y\<rparr>,
    y \<mapsto> \<lparr>nd_elem = ye, nd_color = c, nd_left = b, nd_right = root_addr r, nd_parent = path_addr k\<rparr>)"
  have "zip_in ?h root1 k (Nd y c l ye r)"
    using tr(2) d lr l' by (auto simp: zip_in_def)
  moreover have "touches (insert y (set (addrs l) \<union> set (addrs r) \<union> set (path_addrs k))) h ?h"
    using l' t1 by (auto elim: touches_mono)
  ultimately show ?thesis
    using tr(1,3) hz hb hy d l' by (auto simp: exec fun_upd_twist)
qed

lemma path_ok_swap: "path_ok (m @ RFr z c l e # k) n = path_ok (m @ RFr y c l ye # k) n"
proof (induction m arbitrary: n)
  case (Cons f m)
  have "path_color (m @ RFr z c l e # k) = path_color (m @ RFr y c l ye # k)" by (cases m rule: path_color.cases) auto
  with Cons show ?case by (cases f) auto
qed simp

lemma distinct_plug: "distinct (addrs (plug k t) @ xs) \<longleftrightarrow> distinct (addrs t @ path_addrs k @ xs)"
  by (induction k t rule: plug.induct) auto

lemma root_addr_plug: "m \<noteq> [] \<Longrightarrow> root_addr (plug m t) = root_addr (plug m t')"
proof (induction m t arbitrary: t' rule: plug.induct)
  case (2 p c e s k t)
  then show ?case by (cases k) auto
next
  case (3 p c s e k t)
  then show ?case by (cases k) auto
qed simp

text \<open>The middle part: a minimum that is not the right child of \<open>z\<close> takes over the right subtree.\<close>

lemma unlink_min:
  assumes z: "zip_in h root (m @ RFr z c l e # k) (Nd y yc Lf ye yr)"
  defines "yp \<equiv> path_addr (m @ RFr z c l e # k)" and "r2 \<equiv> plug m yr"
  shows "(yp = z \<longleftrightarrow> m = []) \<and> (\<exists>h1 q ra. (if yp = z then Some (h, root)
       else do {
         (h, root) \<leftarrow> transplant h root y (root_addr yr);
         r \<leftarrow> rd nd_right h z;
         h \<leftarrow> wr_right h y r;
         h \<leftarrow> wr_parent h r y;
         Some (h, root) }) = Some (h1, root) \<and>
     path_in h1 z k \<and> root = top_addr k z \<and> tree_in h1 z l \<and> tree_in h1 q (Nd y yc Lf ye r2) \<and>
     h1 z = Some \<lparr>nd_elem = e, nd_color = c, nd_left = root_addr l, nd_right = ra, nd_parent = path_addr k\<rparr> \<and>
     touches (insert z (insert y (set (addrs l) \<union> set (addrs r2) \<union> set (path_addrs k)))) h h1)"
proof (cases "m = []")
  case True
  with z show ?thesis
    by (auto simp: zip_in_def yp_def r2_def intro!: exI [of _ z])
next
  case False
  let ?K = "m @ RFr z c l e # k"
  have m_addr: "path_addr ?K = path_addr m" using False by (cases m) auto
  have in_m: "path_addr m \<in> set (path_addrs m)" using False by simp
  have app: "path_addrs (m @ k') = path_addrs m @ path_addrs k'" for k' by (induction m rule: path_addrs.induct) auto
  have yp: "yp \<noteq> z" using z m_addr in_m by (auto simp: zip_in_def yp_def app)
  have hy: "h y = Some \<lparr>nd_elem = ye, nd_color = yc, nd_left = 0, nd_right = root_addr yr, nd_parent = path_addr ?K\<rparr>"
    using z by (auto simp: zip_in_def)
  let ?ny = "\<lparr>nd_elem = ye, nd_color = yc, nd_left = 0, nd_right = root_addr yr, nd_parent = path_addr ?K\<rparr>"
  have "\<exists>h' root'. transplant h root y (root_addr yr) = Some (h', root') \<and> zip_in h' root' ?K yr \<and>
     h' y = Some ?ny \<and> touches (set (addrs yr) \<union> set (path_addrs ?K)) h h'"
    using z hy by (intro transplant_zip [where q = y]) (auto simp: zip_in_def)
  then obtain h1 root1 where tr: "transplant h root y (root_addr yr) = Some (h1, root1)" "zip_in h1 root1 ?K yr"
     "h1 y = Some ?ny" and t1: "touches (set (addrs yr) \<union> set (path_addrs ?K)) h h1" by blast
  from tr(2) have zr: "zip_in h1 root1 k (Nd z c l e r2)"
    using zip_in_plug [of h1 root1 ?K yr] zip_in_plug [of h1 root1 k] by (simp add: plug_append r2_def)
  have set2: "set (addrs r2) = set (addrs yr) \<union> set (path_addrs m)" by (simp add: r2_def set_addrs_plug)
  with in_m obtain ra rc rl re rr where r2: "r2 = Nd ra rc rl re rr" by (cases r2) auto
  have y: "y \<notin> set (addrs r2)" "y \<noteq> z" "y \<notin> set (addrs l)" "y \<notin> set (path_addrs k)" "y \<noteq> 0"
    using z set2 by (auto simp: zip_in_def app)
  let ?h = "h1(y \<mapsto> ?ny\<lparr>nd_right := ra\<rparr>, ra \<mapsto>
     \<lparr>nd_elem = re, nd_color = rc, nd_left = root_addr rl, nd_right = root_addr rr, nd_parent = y\<rparr>)"
  let ?q = "path_addr ?K"
  have hz: "h1 z = Some \<lparr>nd_elem = e, nd_color = c, nd_left = root_addr l, nd_right = ra, nd_parent = path_addr k\<rparr>"
    and hr: "h1 ra = Some \<lparr>nd_elem = re, nd_color = rc, nd_left = root_addr rl, nd_right = root_addr rr, nd_parent = z\<rparr>"
    and root1: "root1 = top_addr k z"
    using zr r2 by (auto simp: zip_in_def)
  have "root1 = root"
  proof -
    have "zip_in h root k (Nd z c l e (plug m (Nd y yc Lf ye yr)))"
      using z zip_in_plug [of h root ?K] zip_in_plug [of h root k] by (simp add: plug_append)
    then have "root = top_addr k z" by (simp add: zip_in_def)
    with root1 show ?thesis by simp
  qed
  then have run: "(do {
         (h, root) \<leftarrow> transplant h root y (root_addr yr);
         r \<leftarrow> rd nd_right h z;
         h \<leftarrow> wr_right h y r;
         h \<leftarrow> wr_parent h r y;
         Some (h, root) }) = Some (?h, root)"
    using tr(1,3) hz hr y r2 by (auto simp: rd_Some wr_Some)
  have "path_in ?h z k" "tree_in ?h z l" "tree_in ?h ?q (Nd y yc Lf ye r2)"
    and hz': "?h z = Some \<lparr>nd_elem = e, nd_color = c, nd_left = root_addr l, nd_right = ra, nd_parent = path_addr k\<rparr>"
    using zr y r2 hz by (auto simp: zip_in_def)
  moreover have "touches (insert z (insert y (set (addrs l) \<union> set (addrs r2) \<union> set (path_addrs k)))) h h1"
    by (rule touches_mono [OF t1]) (use set2 in \<open>auto simp: app\<close>)
  then have "touches (insert z (insert y (set (addrs l) \<union> set (addrs r2) \<union> set (path_addrs k)))) h ?h"
    using r2 by simp
  ultimately show ?thesis
    using run yp False root1 \<open>root1 = root\<close> by (simp only: if_False simp_thms) blast
qed

lemma unlink_two_children:
  assumes z: "zip_in h root k (Nd z c l e r)" and t: "rbt (plug k (Nd z c l e r))" and l: "l \<noteq> Lf" and r: "r \<noteq> Lf"
  shows "unlinked h k z l r (unlink h root z)"
proof -
  obtain ra rc rl re rr where r': "r = Nd ra rc rl re rr" using r by (cases r) auto
  obtain m y yc ye yr where m: "plug m (Nd y yc Lf ye yr) = r" "before m = []"
    and min: "seek_min [] ra rc rl re rr = (m, Nd y yc Lf ye yr)"
    using seek_min_path [of "[]" ra rc rl re rr] r' by auto
  let ?K = "m @ RFr z c l e # k" and ?K' = "m @ RFr y c l ye # k"
  have zm: "zip_in h root ?K (Nd y yc Lf ye yr)"
    using z m(1) zip_in_plug [of h root ?K] zip_in_plug [of h root k] by (simp add: plug_append)
  have tm: "rbt (plug ?K (Nd y yc Lf ye yr))" using t m(1) by (simp add: plug_append)
  have ym: "subtree_min h ra = Some y"
    using subtree_min_seek [of h z ra rc rl re rr "[]"] z r' min by (auto simp: zip_in_def)
  have hy: "h y = Some \<lparr>nd_elem = ye, nd_color = yc, nd_left = 0, nd_right = root_addr yr, nd_parent = path_addr ?K\<rparr>"
    using zm by (auto simp: zip_in_def)
  have hz: "h z = Some \<lparr>nd_elem = e, nd_color = c, nd_left = root_addr l, nd_right = ra, nd_parent = path_addr k\<rparr>"
    and nz: "root_addr l \<noteq> 0" "ra \<noteq> 0" "z \<noteq> 0" using z r' l by (cases l; auto simp: zip_in_def)+
  have inr: "inorder r = ye # inorder yr @ after m" "set (addrs r) = insert y (set (addrs yr) \<union> set (path_addrs m))"
    using m inorder_plug [of m "Nd y yc Lf ye yr"] set_addrs_plug [of m "Nd y yc Lf ye yr"] by auto
  have app: "path_addrs (m @ k') = path_addrs m @ path_addrs k'" "before (m @ k') = before k' @ before m"
    "after (m @ k') = after m @ after k'" for k'
    by (induction m rule: path_addrs.induct) auto
  define r2 where "r2 = plug m yr"
  have r2: "set (addrs r2) = set (addrs yr) \<union> set (path_addrs m)" by (simp add: r2_def set_addrs_plug)
  obtain h1 q ra' where yp: "path_addr ?K = z \<longleftrightarrow> m = []" and
    mid: "(if path_addr ?K = z then Some (h, root)
       else do {
         (h, root) \<leftarrow> transplant h root y (root_addr yr);
         r \<leftarrow> rd nd_right h z;
         h \<leftarrow> wr_right h y r;
         h \<leftarrow> wr_parent h r y;
         Some (h, root) }) = Some (h1, root)"
    and s1: "path_in h1 z k" "root = top_addr k z" "tree_in h1 z l" "tree_in h1 q (Nd y yc Lf ye r2)"
      "h1 z = Some \<lparr>nd_elem = e, nd_color = c, nd_left = root_addr l, nd_right = ra', nd_parent = path_addr k\<rparr>"
    and t1: "touches (insert z (insert y (set (addrs l) \<union> set (addrs r2) \<union> set (path_addrs k)))) h h1"
    using unlink_min [OF zm] unfolding r2_def by blast
  have d: "distinct (z # addrs l @ (y # addrs r2) @ path_addrs k)"
  proof -
    have "distinct (addrs r2)" "set (addrs r2) = set (addrs yr) \<union> set (path_addrs m)"
      using zm distinct_plug [of m yr "[]"] r2 by (auto simp: zip_in_def app r2_def)
    then show ?thesis using zm by (auto simp: zip_in_def app)
  qed
  have "y \<noteq> 0" using zm by (auto simp: zip_in_def)
  let ?xp = "if path_addr ?K = z then y else path_addr ?K"
  obtain h2 root2 where fin: "(do {
         (h, root) \<leftarrow> transplant h1 root z y;
         l \<leftarrow> rd nd_left h z;
         h \<leftarrow> wr_left h y l;
         h \<leftarrow> wr_parent h l y;
         c \<leftarrow> rd nd_color h z;
         h \<leftarrow> wr_color h y c;
         Some (h, root, root_addr yr, ?xp, yc) }) = Some (h2, root2, root_addr yr, ?xp, yc)"
    and s2: "zip_in h2 root2 k (Nd y c l ye r2)" "h2 z \<noteq> None"
    and t2: "touches (insert y (set (addrs l) \<union> set (addrs r2) \<union> set (path_addrs k))) h1 h2"
    using unlink_replace [OF s1(1,2) nz(3) \<open>y \<noteq> 0\<close> s1(5) _ _ _ s1(3) l s1(4) d, of c "root_addr yr" ?xp yc] by auto
  have xp: "?xp = path_addr ?K'" using yp by (cases m) auto
  have run: "unlink h root z = Some (h2, root2, root_addr yr, path_addr ?K', yc)"
    using hz nz ym hy mid fin xp by (simp add: unlink_def rd_Some Let_def split del: if_split)
  have z2: "zip_in h2 root2 ?K' yr"
    using s2(1) zip_in_plug [of h2 root2 ?K'] zip_in_plug [of h2 root2 k] by (simp add: plug_append r2_def)
  obtain n where n: "path_ok ?K' n" "rbh (Nd y yc Lf ye yr) n" "path_color ?K' = RB_RED \<longrightarrow> yc = RB_BLACK"
  proof -
    obtain n where "path_ok ?K n" "rbh (Nd y yc Lf ye yr) n" "path_color ?K = RB_RED \<longrightarrow> yc = RB_BLACK"
      using plug_rbt [OF tm] by auto
    moreover have "path_color ?K' = path_color ?K" by (cases m rule: path_color.cases) simp_all
    ultimately show ?thesis using that path_ok_swap by metis
  qed
  show ?thesis
  proof (rule unlinkedI [OF run z2])
    show "inorder (plug ?K' yr) = before k @ inorder l @ inorder r @ after k"
      using inr(1) m(2) by (simp add: inorder_plug app)
    show "set (addrs (plug ?K' yr)) = set (addrs l) \<union> set (addrs r) \<union> set (path_addrs k)"
      using inr(2) by (auto simp: set_addrs_plug app)
    show "touches (insert z (set (addrs (plug ?K' yr)))) h h2"
    proof (rule touches_trans)
      show "touches (insert z (set (addrs (plug ?K' yr)))) h h1"
        by (rule touches_mono [OF t1]) (use r2 in \<open>auto simp: set_addrs_plug app\<close>)
      show "touches (insert z (set (addrs (plug ?K' yr)))) h1 h2"
        by (rule touches_mono [OF t2]) (use r2 in \<open>auto simp: set_addrs_plug app\<close>)
    qed
    show "h2 z \<noteq> None" by (fact s2(2))
    show "if yc = RB_BLACK then hole ?K' yr else rbt (plug ?K' yr)"
      using hole_or_rbt [OF n(1,2), of yr] n(3) by auto
  qed
qed

lemma touches_free: "zip_in h root k t \<Longrightarrow> a \<notin> set (addrs (plug k t)) \<Longrightarrow> zip_in (h(a := None)) root k t"
  by (auto simp: zip_in_def set_addrs_plug)

lemma remove_found_holds:
  assumes o: "cmp_order (rb_cmp t)" and T: "rb_rep h t T" and s: "seek (rb_cmp t) x [] T = (k, Nd z c l e r)"
  shows "\<exists>h' root. rbtree_remove h t (Some x) = Some (Some e, h', t\<lparr>rb_root := root, rb_size := rb_size t - 1\<rparr>) \<and>
    touches (set (addrs T)) h h' \<and> h' z = None \<and> z \<in> set (addrs T) \<and>
    holds h' (t\<lparr>rb_root := root, rb_size := rb_size t - 1\<rparr>) (list_remove (rb_cmp t) x (inorder T)) (set (addrs T) - {z})"
proof -
  note zz = seek_zip [OF o T s]
  have "unlinked h k z l r (unlink h (rb_root t) z)"
    using unlink_one_child [OF zz(1,2)] unlink_two_children [OF zz(1,2)] by blast
  then obtain h1 root1 K F d where
    un: "unlink h (rb_root t) z = Some (h1, root1, root_addr F, path_addr K, d)" and z1: "zip_in h1 root1 K F"
    and ino: "inorder (plug K F) = before k @ inorder l @ inorder r @ after k"
    and ads: "set (addrs (plug K F)) = set (addrs l) \<union> set (addrs r) \<union> set (path_addrs k)"
    and t1: "touches (insert z (set (addrs (plug K F)))) h h1"
    and ok: "if d = RB_BLACK then hole K F else rbt (plug K F)"
    unfolding unlinked_def by blast
  have zT: "z \<in> set (addrs T)" and adT: "set (addrs (plug K F)) = set (addrs T) - {z}"
    using zz(1,6) ads set_addrs_plug [of k "Nd z c l e r"] by (auto simp: zip_in_def)
  have z2: "zip_in (h1(z := None)) root1 K F" using z1 adT by (intro touches_free) auto
  have "\<exists>h' root' T'. (if d = RB_BLACK then delete_fixup (h1(z := None)) root1 (root_addr F) (path_addr K)
       else Some (h1(z := None), root1)) = Some (h', root') \<and> zip_in h' root' [] T' \<and> rbt T' \<and>
       rebalanced (h1(z := None)) (plug K F) h' T'"
  proof (cases d)
    case RB_BLACK
    with ok have "hole K F" by simp
    from delete_fixup_zip [OF z2 this] RB_BLACK show ?thesis by simp
  next
    case RB_RED
    then have "rbt (plug K F)" using ok by simp
    moreover have "zip_in (h1(z := None)) root1 [] (plug K F)" using z2 zip_in_plug by blast
    moreover have "rebalanced (h1(z := None)) (plug K F) (h1(z := None)) (plug K F)" by (simp add: rebalanced_def)
    ultimately show ?thesis using RB_RED by auto
  qed
  then obtain h' root' T' where fixup: "(if d = RB_BLACK then delete_fixup (h1(z := None)) root1 (root_addr F) (path_addr K)
       else Some (h1(z := None), root1)) = Some (h', root')" and T': "zip_in h' root' [] T'" "rbt T'"
    and re: "rebalanced (h1(z := None)) (plug K F) h' T'" by blast
  have "search_loop (rb_cmp t) h x (rb_root t) = Some z"
    using search_loop_seek [OF zz(3), of "rb_cmp t" x "[]"] s zz(4) by simp
  moreover have "z \<noteq> 0" "rd nd_elem h z = Some e" using zz(1) by (auto simp: zip_in_def rd_Some)
  ultimately have run: "rbtree_remove h t (Some x) = Some (Some e, h', t\<lparr>rb_root := root', rb_size := rb_size t - 1\<rparr>)"
    using un fixup by (simp add: rbtree_remove_def Let_def split del: if_split)
  have S: "insert z (set (addrs (plug K F))) = set (addrs T)" using adT zT by blast
  have tch: "touches (set (addrs T)) h h'"
  proof (rule touches_trans)
    show "touches (set (addrs T)) h (h1(z := None))" using t1 zT unfolding S by simp
    show "touches (set (addrs T)) (h1(z := None)) h'"
      using re unfolding rebalanced_def S [symmetric] by (blast intro: touches_mono)
  qed
  have gone: "h' z = None" using re adT unfolding rebalanced_def touches_def by simp
  have list: "inorder T' = list_remove (rb_cmp t) x (inorder T)" and len: "length (inorder T') = length (inorder T) - 1"
    using re ino seek_node(3) [OF o zz(5) s] zz(6) inorder_plug [of k "Nd z c l e r"] by (auto simp: rebalanced_def)
  have "set (addrs T') = set (addrs T) - {z}" using re adT by (simp add: rebalanced_def)
  moreover have "increasing (rb_cmp t) (inorder T')" using increasing_list_remove [OF zz(5)] list by simp
  ultimately have "holds h' (t\<lparr>rb_root := root', rb_size := rb_size t - 1\<rparr>) (list_remove (rb_cmp t) x (inorder T)) (set (addrs T) - {z})"
    using T T' list len unfolding holds_def rb_rep_def by (intro exI [of _ T']) simp
  with run tch gone zT show ?thesis by blast
qed

lemma remove_holds:
  assumes "cmp_order (rb_cmp t)" and "holds h t xs A"
  shows "\<exists>h' t' B. rbtree_remove h t (Some x) = Some (list_find (rb_cmp t) x xs, h', t') \<and>
    rb_cmp t' = rb_cmp t \<and> rb_owns t' = rb_owns t \<and> touches A h h' \<and> B \<subseteq> A \<and> (\<forall>a \<in> A - B. h' a = None) \<and>
    holds h' t' (list_remove (rb_cmp t) x xs) B"
proof -
  from assms(2) obtain T where T: "rb_rep h t T" "inorder T = xs" "set (addrs T) = A" by (auto simp: holds_def)
  obtain k t' where s: "seek (rb_cmp t) x [] T = (k, t')" by (cases "seek (rb_cmp t) x [] T")
  note z = seek_zip [OF assms(1) T(1) s]
  show ?thesis
  proof (cases t')
    case Lf
    have "rbtree_remove h t (Some x) = Some (None, h, t)"
      using search_loop_seek [OF z(3), of "rb_cmp t" x "[]"] s z(4) Lf by (simp add: rbtree_remove_def)
    with Lf seek_leaf [OF assms(1) z(5)] s T(2) assms(2) show ?thesis by fastforce
  next
    case (Nd b c l e r)
    with remove_found_holds [OF assms(1) T(1), of x k b c l e r] seek_node(1) [OF assms(1) z(5)] s T(2,3)
    obtain h' root where "rbtree_remove h t (Some x) =
        Some (list_find (rb_cmp t) x xs, h', t\<lparr>rb_root := root, rb_size := rb_size t - 1\<rparr>)" "touches A h h'" "h' b = None"
      "holds h' (t\<lparr>rb_root := root, rb_size := rb_size t - 1\<rparr>) (list_remove (rb_cmp t) x xs) (A - {b})" by auto
    then show ?thesis
      by (intro exI [of _ h'] exI [of _ "t\<lparr>rb_root := root, rb_size := rb_size t - 1\<rparr>"] exI [of _ "A - {b}"]) auto
  qed
qed

end
