(* ===== verification/RBTreeMisc.thy ===== *)
theory RBTreeMisc
  imports RBTreeRemove
begin

text \<open>
  The remaining operations of \<open>RBTree\<close> on a tree that holds a list: minimum, maximum, traversal,
  disposal and cloning.
\<close>

section \<open>The other operations\<close>

lemma subtree_min_inorder:
  "tree_in h p (Nd a c l e r) \<Longrightarrow> \<exists>m. subtree_min h a = Some m \<and> rd nd_elem h m = Some (hd (inorder (Nd a c l e r)))"
proof (induction l arbitrary: p a c e r)
  case Lf
  then show ?case by (subst subtree_min.simps) (simp add: rd_Some)
next
  case (Nd b d l' e' r')
  have "inorder l' @ e' # xs = hd (inorder l' @ e' # inorder r') # tl (inorder l' @ e' # xs)" for xs
    by (cases "inorder l'") auto
  with Nd show ?case by (subst subtree_min.simps) (auto simp: rd_Some hd_append)
qed

lemma subtree_max_inorder:
  "tree_in h p (Nd a c l e r) \<Longrightarrow> \<exists>m. subtree_max h a = Some m \<and> rd nd_elem h m = Some (last (inorder (Nd a c l e r)))"
proof (induction r arbitrary: p a c e l)
  case Lf
  then show ?case by (subst subtree_max.simps) (simp add: rd_Some)
next
  case (Nd b d l' e' r')
  then show ?case by (subst subtree_max.simps) (auto simp: rd_Some)
qed

lemma min_max_holds:
  assumes "holds h t xs A"
  shows "rbtree_min h t = Some (if xs = [] then None else Some (hd xs))"
    and "rbtree_max h t = Some (if xs = [] then None else Some (last xs))"
proof -
  from assms obtain T where T: "tree_in h 0 T" "rb_root t = root_addr T" "inorder T = xs"
    by (auto simp: holds_def rb_rep_def zip_in_root)
  show "rbtree_min h t = Some (if xs = [] then None else Some (hd xs))"
    "rbtree_max h t = Some (if xs = [] then None else Some (last xs))"
    using T subtree_min_inorder [of h 0] subtree_max_inorder [of h 0]
    by (cases T; fastforce simp: rbtree_min_def rbtree_max_def)+
qed

lemma foreach_node_tree:
  "tree_in h p t \<Longrightarrow> foreach_node h (root_addr t) visit s = Some (fold visit (inorder t) s)"
proof (induction t arbitrary: p s)
  case Lf
  then show ?case by (simp add: foreach_node.simps)
next
  case (Nd a c l e r)
  then show ?case by (subst foreach_node.simps) auto
qed

lemma foreach_holds: "holds h t xs A \<Longrightarrow> rbtree_foreach h t visit s = Some (fold visit xs s)"
  using foreach_node_tree by (fastforce simp: holds_def rb_rep_def zip_in_root rbtree_foreach_def)

text \<open>Disposal frees every node once, and hands the elements over if the tree owns them.\<close>

fun postorder :: "'e rtree \<Rightarrow> 'e list" where
  "postorder Lf = []"
| "postorder (Nd a c l e r) = postorder l @ postorder r @ [e]"

lemma mset_postorder: "mset (postorder t) = mset (inorder t)"
  by (induction t) auto

definition clear :: "addr set \<Rightarrow> 'e rb_heap \<Rightarrow> 'e rb_heap" where
  "clear A h = (\<lambda>a. if a \<in> A then None else h a)"

lemma tree_in_clear: "tree_in h p t \<Longrightarrow> set (addrs t) \<inter> A = {} \<Longrightarrow> tree_in (clear A h) p t"
  by (rule tree_in_touches [where S = A and h = h]) (auto simp: touches_def clear_def)

lemma free_subtree_tree:
  "tree_in h p t \<Longrightarrow> distinct (addrs t) \<Longrightarrow>
   free_subtree owns h (root_addr t) = Some (if owns then postorder t else [], clear (set (addrs t)) h)"
proof (induction t arbitrary: h p)
  case Lf
  then show ?case by (simp add: free_subtree.simps clear_def)
next
  case (Nd a c l e r)
  let ?h = "clear (set (addrs l)) h"
  have l: "free_subtree owns h (root_addr l) = Some (if owns then postorder l else [], ?h)"
    using Nd by auto
  have "tree_in ?h a r" using Nd.prems by (intro tree_in_clear) auto
  then have r: "free_subtree owns ?h (root_addr r) = Some (if owns then postorder r else [], clear (set (addrs r)) ?h)"
    using Nd by auto
  have "?h a = h a" "clear (set (addrs r)) ?h a = h a" using Nd.prems(2) by (auto simp: clear_def)
  moreover have "(clear (set (addrs r)) ?h)(a := None) = clear (set (addrs (Nd a c l e r))) h"
    by (auto simp: clear_def)
  ultimately show ?case using Nd.prems(1) l r by (subst free_subtree.simps) auto
qed

lemma dispose_holds:
  assumes "holds h t xs A"
  shows "\<exists>freed. rbtree_dispose h t = Some (freed, clear A h, t\<lparr>rb_root := 0, rb_size := 0\<rparr>) \<and>
    mset freed = (if rb_owns t then mset xs else {#})"
proof -
  from assms obtain T where "tree_in h 0 T" "distinct (addrs T)" "rb_root t = root_addr T" "inorder T = xs" "set (addrs T) = A"
    by (auto simp: holds_def rb_rep_def zip_in_root)
  then show ?thesis
    using free_subtree_tree [of h 0 T "rb_owns t"] by (auto simp: rbtree_dispose_def mset_postorder)
qed

section \<open>Cloning\<close>

text \<open>
  The copy uses the fresh addresses in order and nothing else changes; \<open>same_shape\<close> keeps the
  colours, so the copy is a red-black tree.
\<close>

fun same_shape :: "'e rtree \<Rightarrow> 'e rtree \<Rightarrow> bool" where
  "same_shape Lf t' \<longleftrightarrow> t' = Lf"
| "same_shape (Nd a c l e r) t' \<longleftrightarrow>
     (\<exists>a' l' e' r'. t' = Nd a' c l' e' r' \<and> same_shape l l' \<and> same_shape r r')"

lemma same_shape_color: "same_shape t t' \<Longrightarrow> root_color t' = root_color t"
  by (cases t) auto

lemma same_shape_rbh: "same_shape t t' \<Longrightarrow> rbh t' n = rbh t n"
proof (induction t n arbitrary: t' rule: rbh.induct)
  case (2 a l e r n)
  then show ?case by (auto simp: same_shape_color)
qed auto

definition copies :: "'e rtree \<Rightarrow> 'e list \<Rightarrow> addr set \<Rightarrow> addr \<Rightarrow> 'e rb_heap \<Rightarrow> 'e rtree \<Rightarrow> 'e rb_heap \<Rightarrow> bool" where
  "copies t xs B p h t' h' \<longleftrightarrow> tree_in h' p t' \<and> inorder t' = xs \<and> set (addrs t') = B \<and>
     distinct (addrs t') \<and> same_shape t t' \<and> touches B h h'"

lemma tree_in_touched:
  "tree_in h p t \<Longrightarrow> touches S h h' \<Longrightarrow> set (addrs t) \<inter> S = {} \<Longrightarrow> tree_in h' p t"
  by (rule tree_in_touches)

lemma clone_subtree_copies:
  "tree_in h p t \<Longrightarrow> distinct as \<Longrightarrow> 0 \<notin> set as \<Longrightarrow> set as \<inter> set (addrs t) = {} \<Longrightarrow>
   length (addrs t) \<le> length as \<Longrightarrow>
   \<exists>t' h'. clone_subtree cl owns as h (root_addr t) q = Some (root_addr t', h', drop (length (addrs t)) as) \<and>
     copies t (map (if owns then cl else id) (inorder t)) (set (take (length (addrs t)) as)) q h t' h'"
proof (induction t arbitrary: h p as q)
  case Lf
  show ?case
    by (intro exI [of _ Lf] exI [of _ h]) (simp add: clone_subtree.simps copies_def)
next
  case (Nd n c l e r)
  obtain a bs where as: "as = a # bs" using Nd.prems(5) by (cases as) auto
  let ?f = "if owns then cl else id" and ?nl = "length (addrs l)" and ?nr = "length (addrs r)"
  let ?node = "\<lambda>x y. \<lparr>nd_elem = ?f e, nd_color = c, nd_left = x, nd_right = y, nd_parent = q\<rparr>"
  let ?h1 = "h(a \<mapsto> ?node 0 0)"
  let ?L = "set (take ?nl bs)" and ?cs = "drop ?nl bs"
  have a: "a \<noteq> 0" "a \<notin> set bs" "a \<notin> set (addrs l)" "a \<notin> set (addrs r)" "a \<noteq> n" using Nd.prems as by auto
  have sub: "?L \<subseteq> set bs" "set ?cs \<subseteq> set bs" "?L \<inter> set ?cs = {}"
    using Nd.prems(2) as by (auto simp: set_take_disj_set_drop_if_distinct dest: in_set_takeD in_set_dropD)
  have disj: "set bs \<inter> set (addrs l) = {}" "set bs \<inter> set (addrs r) = {}" using Nd.prems(4) as by auto
  have l1: "tree_in ?h1 n l" using Nd.prems(1) a by simp
  obtain l' h2 where run_l: "clone_subtree cl owns bs ?h1 (root_addr l) a = Some (root_addr l', h2, ?cs)"
     and cl: "copies l (map ?f (inorder l)) ?L a ?h1 l' h2"
  proof -
    have "distinct bs" "0 \<notin> set bs" "length (addrs l) \<le> length bs" using Nd.prems as by auto
    from Nd.IH(1) [OF l1 this(1,2) disj(1) this(3), of a] show ?thesis using that by blast
  qed
  have h2a: "h2 a = Some (?node 0 0)"
  proof -
    have "a \<notin> ?L" using sub(1) a(2) by blast
    then have "h2 a = ?h1 a" using cl unfolding copies_def touches_def by blast
    then show ?thesis by simp
  qed
  let ?h3 = "h2(a \<mapsto> ?node (root_addr l') 0)"
  have "touches (insert a ?L) h ?h3" using cl by (auto simp: copies_def touches_def)
  then have r3: "tree_in ?h3 n r"
    by (rule tree_in_touched [rotated]) (use Nd.prems(1) a sub disj in auto)
  obtain r' h4 where run_r: "clone_subtree cl owns ?cs ?h3 (root_addr r) a = Some (root_addr r', h4, drop ?nr ?cs)"
     and cr: "copies r (map ?f (inorder r)) (set (take ?nr ?cs)) a ?h3 r' h4"
  proof -
    have "distinct ?cs" "0 \<notin> set ?cs" "set ?cs \<inter> set (addrs r) = {}" "length (addrs r) \<le> length ?cs"
      using Nd.prems as sub disj by auto
    from Nd.IH(2) [OF r3 this, of a] show ?thesis using that by blast
  qed
  let ?R = "set (take ?nr ?cs)"
  have R: "?R \<subseteq> set ?cs" by (rule set_take_subset)
  let ?h5 = "h4(a \<mapsto> ?node (root_addr l') (root_addr r'))"
  have h4a: "h4 a = Some (?node (root_addr l') 0)"
  proof -
    have "a \<notin> ?R" using R sub(2) a(2) by blast
    then have "h4 a = ?h3 a" using cr unfolding copies_def touches_def by blast
    then show ?thesis by simp
  qed
  have "tree_in ?h3 a l'" using cl sub a by (auto simp: copies_def)
  then have "tree_in h4 a l'"
    by (rule tree_in_touched [where S = ?R]) (use cl cr R sub in \<open>auto simp: copies_def\<close>)
  moreover have "a \<notin> set (addrs l')" "a \<notin> set (addrs r')" "set (addrs l') \<inter> set (addrs r') = {}"
    using cl cr R sub a by (auto simp: copies_def)
  ultimately have tree: "tree_in ?h5 q (Nd a c l' (?f e) r')" "distinct (addrs (Nd a c l' (?f e) r'))"
    using cl cr a(1) by (auto simp: copies_def)
  have tk: "take (length (addrs (Nd n c l e r))) as = a # take ?nl bs @ take ?nr ?cs"
    and dr: "drop (length (addrs (Nd n c l e r))) as = drop ?nr ?cs"
    using Nd.prems(5) as by (auto simp: take_add add.commute)
  have tch: "touches (set (take (length (addrs (Nd n c l e r))) as)) h ?h5"
    unfolding tk using cl cr by (auto simp: copies_def touches_def)
  have "copies (Nd n c l e r) (map ?f (inorder (Nd n c l e r))) (set (take (length (addrs (Nd n c l e r))) as)) q h
      (Nd a c l' (?f e) r') ?h5"
    using tree tch cl cr unfolding copies_def tk by auto
  moreover have "clone_subtree cl owns as h (root_addr (Nd n c l e r)) q =
      Some (root_addr (Nd a c l' (?f e) r'), ?h5, drop (length (addrs (Nd n c l e r))) as)"
    using Nd.prems(1) as run_l run_r h2a h4a unfolding dr
    by (subst clone_subtree.simps) (auto simp: node_new_def wr_Some Let_def a(5) [symmetric])
  ultimately show ?case by blast
qed

lemma length_addrs: "length (addrs t) = length (inorder t)"
  by (induction t) auto

lemma clone_holds:
  assumes "holds h t xs A" and "length xs \<le> length as" and "distinct as" and "0 \<notin> set as" and "set as \<inter> A = {}"
    and hom: "\<And>a b. rb_cmp t (cl a) (cl b) = rb_cmp t a b"
  shows "\<exists>t' h' B. rbtree_clone cl as h t = Some (t', h') \<and> B = set (take (length xs) as) \<and>
    holds h' t' (if rb_owns t then map cl xs else xs) B \<and> holds h' t xs A \<and> touches B h h' \<and>
    rb_cmp t' = rb_cmp t \<and> rb_owns t' = rb_owns t"
proof -
  from assms(1) obtain T where T: "tree_in h 0 T" "distinct (addrs T)" "rb_root t = root_addr T" "inorder T = xs"
     "set (addrs T) = A" "rbt T" "rb_size t = length xs" "increasing (rb_cmp t) xs"
    by (auto simp: holds_def rb_rep_def zip_in_root)
  let ?f = "if rb_owns t then cl else id" and ?B = "set (take (length xs) as)"
  have len: "length (addrs T) = length xs" using T(4) by (simp add: length_addrs)
  obtain T' h' where run: "clone_subtree cl (rb_owns t) as h (rb_root t) 0 = Some (root_addr T', h', drop (length xs) as)"
    and c: "copies T (map ?f xs) ?B 0 h T' h'"
    using clone_subtree_copies [OF T(1) assms(3,4), of cl "rb_owns t" 0] assms(2,5) T(3,4,5) len by auto
  have "increasing (rb_cmp t) (map ?f xs)"
    using T(8) hom by (auto simp: increasing_def sorted_wrt_map)
  moreover have "rbt T'" using T(6) c by (auto simp: rbt_def copies_def same_shape_color same_shape_rbh)
  moreover have "rb_root t \<noteq> 0 \<or> xs = []" using T by (cases T) auto
  ultimately have h': "holds h' \<lparr>rb_root = root_addr T', rb_size = (if rb_root t \<noteq> 0 then rb_size t else 0),
      rb_cmp = rb_cmp t, rb_owns = rb_owns t\<rparr> (map ?f xs) ?B"
    using c T(7) unfolding holds_def by (intro exI [of _ T']) (auto simp: rb_rep_def zip_in_root copies_def)
  have dis: "set (addrs T) \<inter> ?B = {}" using T(5) assms(5) by (auto dest: in_set_takeD)
  have "tree_in h' 0 T"
    by (rule tree_in_touched [OF T(1) _ dis]) (use c in \<open>simp add: copies_def\<close>)
  then have "holds h' t xs A"
    using T unfolding holds_def by (intro exI [of _ T]) (auto simp: rb_rep_def zip_in_root)
  then show ?thesis using run h' c by (auto simp: rbtree_clone_def copies_def)
qed

end
