(* ===== verification/RBTreeStore.thy ===== *)
theory RBTreeStore
  imports RBTreeMisc
begin

text \<open>
  The contract of the red-black tree: the height bound, the locale of a comparison function, the
  locale of an ordered store and the tree as its instance, and the properties of the operations.
\<close>

section \<open>Balance\<close>

fun height :: "'e rtree \<Rightarrow> nat" where
  "height Lf = 0"
| "height (Nd a c l e r) = Suc (max (height l) (height r))"

lemma rbh_size: "rbh t n \<Longrightarrow> 2 ^ n \<le> Suc (length (inorder t))"
proof (induction t n rule: rbh.induct)
  case (2 a l e r n)
  then have "2 ^ n \<le> Suc (length (inorder l))" by auto
  then show ?case by simp
next
  case (3 a l e r n)
  then obtain m where m: "n = Suc m" "rbh l m" "rbh r m" by auto
  with 3 have "2 ^ m \<le> Suc (length (inorder l))" "2 ^ m \<le> Suc (length (inorder r))" by auto
  with m show ?case by simp
qed simp

lemma rbh_height: "rbh t n \<Longrightarrow> height t \<le> 2 * n + (if root_color t = RB_RED then 1 else 0)"
proof (induction t n rule: rbh.induct)
  case (3 a l e r n)
  then obtain m where m: "n = Suc m" "rbh l m" "rbh r m" by auto
  have "height l \<le> 2 * m + 1" "height r \<le> 2 * m + 1"
    using "3.IH"(1) [OF m(2)] "3.IH"(2) [OF m(3)] by (simp_all split: if_splits)
  with m show ?case by simp
qed auto

lemma rbt_height: "rbt t \<Longrightarrow> 2 ^ height t \<le> (Suc (length (inorder t)))\<^sup>2"
proof -
  assume "rbt t"
  then obtain n where n: "rbh t n" "root_color t = RB_BLACK" by (auto simp: rbt_def)
  from rbh_height [OF n(1)] n(2) have "height t \<le> 2 * n" by simp
  then have "(2::nat) ^ height t \<le> 2 ^ (2 * n)" by (intro power_increasing) auto
  also have "\<dots> = (2 ^ n)\<^sup>2" by (simp add: power_mult mult.commute)
  also have "\<dots> \<le> (Suc (length (inorder t)))\<^sup>2" using rbh_size [OF n(1)] by (intro power_mono) auto
  finally show ?thesis .
qed

text \<open>
  The nodes that a search needs: on every heap that agrees on them, whatever it has at the other
  addresses, the loops of \<open>rbtree_find\<close>, \<open>rbtree_remove\<close> and \<open>rbtree_insert\<close> have the same result.
\<close>

definition search_needs :: "('e \<Rightarrow> 'e \<Rightarrow> int) \<Rightarrow> 'e rb_heap \<Rightarrow> 'e \<Rightarrow> addr \<Rightarrow> addr set \<Rightarrow> bool" where
  "search_needs cmp h x cur S \<longleftrightarrow> (\<exists>z. z \<in> insert 0 S \<and> (\<forall>h'. (\<forall>a \<in> S. h' a = h a) \<longrightarrow>
     search_loop cmp h' x cur = Some z \<and>
     (\<forall>parent c. insert_loop cmp h' x cur parent c = insert_loop cmp h x cur parent c)))"

lemma search_needs_path:
  "tree_in h p t \<Longrightarrow> \<exists>S \<subseteq> set (addrs t). card S \<le> height t \<and> finite S \<and> search_needs cmp h x (root_addr t) S"
proof (induction t arbitrary: p)
  case Lf
  have "search_needs cmp h x (root_addr Lf) {}"
    by (simp add: search_needs_def search_loop.simps insert_loop.simps)
  then show ?case by (intro exI [of _ "{}"]) simp
next
  case (Nd a c l e r)
  define t where "t = (if cmp x e < 0 then l else r)"
  have "tree_in h a t" using Nd.prems by (simp add: t_def)
  then have "\<exists>S \<subseteq> set (addrs t). card S \<le> height t \<and> finite S \<and> search_needs cmp h x (root_addr t) S"
    unfolding t_def using Nd.IH(1) [of a] Nd.IH(2) [of a] by (cases "cmp x e < 0") simp_all
  then obtain S where S: "S \<subseteq> set (addrs t)" "card S \<le> height t" "finite S" "search_needs cmp h x (root_addr t) S"
    by blast
  have "height t \<le> max (height l) (height r)" by (simp add: t_def)
  then have "card (insert a S) \<le> height (Nd a c l e r)" using S(2,3) by (simp add: card_insert_if)
  moreover have "search_needs cmp h x (root_addr (Nd a c l e r)) (insert a S)"
  proof (cases "cmp x e = 0")
    case True
    then show ?thesis using Nd.prems unfolding search_needs_def
      by (intro exI [of _ a]) (simp add: search_loop.simps [of cmp _ x a] insert_loop.simps [of cmp _ x a] Let_def)
  next
    case False
    have step: "\<And>h'. h' a = h a \<Longrightarrow> search_loop cmp h' x a = search_loop cmp h' x (root_addr t)"
      "\<And>h' parent d. h' a = h a \<Longrightarrow> insert_loop cmp h' x a parent d = insert_loop cmp h' x (root_addr t) a (cmp x e)"
      using False Nd.prems
      by (auto simp: t_def search_loop.simps [of cmp _ x a] insert_loop.simps [of cmp _ x a] Let_def)
    obtain z where z: "z \<in> insert 0 S" and same: "\<forall>h'. (\<forall>a \<in> S. h' a = h a) \<longrightarrow> search_loop cmp h' x (root_addr t) = Some z \<and>
        (\<forall>parent c. insert_loop cmp h' x (root_addr t) parent c = insert_loop cmp h x (root_addr t) parent c)"
      using S(4) unfolding search_needs_def by blast
    have "\<forall>h'. (\<forall>b \<in> insert a S. h' b = h b) \<longrightarrow> search_loop cmp h' x a = Some z \<and>
        (\<forall>parent c. insert_loop cmp h' x a parent c = insert_loop cmp h x a parent c)"
    proof (intro allI impI)
      fix h' assume that: "\<forall>b \<in> insert a S. h' b = h b"
      show "search_loop cmp h' x a = Some z \<and> (\<forall>parent c. insert_loop cmp h' x a parent c = insert_loop cmp h x a parent c)"
        using same [THEN spec, of h'] that step(1) [of h'] step(2) [of h'] step(2) [of h, OF refl] by simp
    qed
    moreover have "z \<in> insert 0 (insert a S)" using z by blast
    ultimately show ?thesis unfolding search_needs_def root_addr.simps by blast
  qed
  moreover have "insert a S \<subseteq> set (addrs (Nd a c l e r))" using S(1) by (auto simp: t_def split: if_splits)
  ultimately show ?case using S(3) by (intro exI [of _ "insert a S"]) simp
qed

section \<open>The contract of a comparison function\<close>

lemma option_eqI: "(\<And>e. x = Some e \<longleftrightarrow> y = Some e) \<Longrightarrow> x = y"
  by (cases x; cases y) auto


text \<open>
  \<open>rbtree_cmp_fn_t\<close>, \<open>omap_cmp_fn_t\<close>: what the client's function promises, and what the list
  operations then are: a finite map keyed by the classes of equal elements.
\<close>

locale total_cmp =
  fixes cmp :: "'e \<Rightarrow> 'e \<Rightarrow> int"
  assumes order: "cmp_order cmp"
begin

lemma equal_sym: "cmp a b = 0 \<longleftrightarrow> cmp b a = 0"
  by (rule cmp_flip_eq [OF order])

lemma equal_cong: "cmp a b = 0 \<Longrightarrow> cmp a c = 0 \<longleftrightarrow> cmp b c = 0"
proof -
  assume ab: "cmp a b = 0"
  then have "cmp b a = 0" using equal_sym by blast
  then have "cmp a c \<le> 0 \<longleftrightarrow> cmp b c \<le> 0" "cmp c a \<le> 0 \<longleftrightarrow> cmp c b \<le> 0"
    using ab cmp_le_trans [OF order] by (metis order_refl)+
  moreover have "cmp d e = 0 \<longleftrightarrow> cmp d e \<le> 0 \<and> cmp e d \<le> 0" for d e
    using cmp_flip [OF order, of d e] by linarith
  ultimately show ?thesis by simp
qed

lemma find_iff: "increasing cmp xs \<Longrightarrow> list_find cmp y xs = Some e \<longleftrightarrow> e \<in> set xs \<and> cmp y e = 0"
proof (induction xs)
  case (Cons a xs)
  have "cmp y a = 0 \<Longrightarrow> e \<in> set xs \<Longrightarrow> cmp y e \<noteq> 0"
    using Cons.prems equal_cong [of y a e] equal_sym by (auto simp: increasing_def)
  then show ?case using Cons by (auto simp: list_find_def increasing_def)
qed (simp add: list_find_def)

lemma set_list_insert: "set (list_insert cmp x xs) = insert x {e \<in> set xs. cmp x e \<noteq> 0}"
  by (auto simp: list_insert_def)

lemma find_insert:
  assumes "increasing cmp xs"
  shows "list_find cmp y (list_insert cmp x xs) = (if cmp y x = 0 then Some x else list_find cmp y xs)"
proof (rule option_eqI)
  fix e
  show "list_find cmp y (list_insert cmp x xs) = Some e \<longleftrightarrow>
      (if cmp y x = 0 then Some x else list_find cmp y xs) = Some e"
    using equal_cong [of y x e] equal_sym [of y x] equal_cong [of x e y] equal_sym [of y e]
    by (auto simp: find_iff [OF increasing_list_insert [OF order assms]] find_iff [OF assms] set_list_insert)
qed

lemma find_remove: "list_find cmp y (list_remove cmp x xs) = (if cmp y x = 0 then None else list_find cmp y xs)"
proof -
  have eq: "cmp y e = 0 \<and> cmp x e \<noteq> 0 \<longleftrightarrow> cmp y x \<noteq> 0 \<and> cmp y e = 0" for e
    using equal_cong equal_sym by blast
  show ?thesis
    by (induction xs) (use eq in \<open>auto simp: list_find_def list_remove_def\<close>)
qed

end

text \<open>A sequence of insertions (\<open>Inl\<close>) and removals (\<open>Inr\<close>), and the list it leaves.\<close>

fun drive :: "('s \<Rightarrow> 'e \<Rightarrow> ('e option \<times> 's) option) \<Rightarrow> ('s \<Rightarrow> 'e \<Rightarrow> ('e option \<times> 's) option)
    \<Rightarrow> ('e + 'e) list \<Rightarrow> 's \<Rightarrow> 's option" where
  "drive ins del [] s = Some s"
| "drive ins del (Inl x # ops) s = Option.bind (ins s x) (\<lambda>(_, s'). drive ins del ops s')"
| "drive ins del (Inr x # ops) s = Option.bind (del s x) (\<lambda>(_, s'). drive ins del ops s')"

definition after_op :: "('e \<Rightarrow> 'e \<Rightarrow> int) \<Rightarrow> 'e list \<Rightarrow> 'e + 'e \<Rightarrow> 'e list" where
  "after_op cmp xs op = (case op of Inl x \<Rightarrow> list_insert cmp x xs | Inr x \<Rightarrow> list_remove cmp x xs)"

text \<open>
  An ordered store: the three operations a client of the tree calls, each a function of a state
  that holds an increasing list.
\<close>

locale ordered_store = total_cmp cmp
  for cmp :: "'e \<Rightarrow> 'e \<Rightarrow> int" +
  fixes store :: "'s \<Rightarrow> 'e list \<Rightarrow> bool"
    and find :: "'s \<Rightarrow> 'e \<Rightarrow> 'e option option"
    and ins :: "'s \<Rightarrow> 'e \<Rightarrow> ('e option \<times> 's) option"
    and del :: "'s \<Rightarrow> 'e \<Rightarrow> ('e option \<times> 's) option"
  assumes store_increasing: "store s xs \<Longrightarrow> increasing cmp xs"
    and find_law: "store s xs \<Longrightarrow> find s x = Some (list_find cmp x xs)"
    and ins_law: "store s xs \<Longrightarrow> \<exists>s'. ins s x = Some (list_find cmp x xs, s') \<and> store s' (list_insert cmp x xs)"
    and del_law: "store s xs \<Longrightarrow> \<exists>s'. del s x = Some (list_find cmp x xs, s') \<and> store s' (list_remove cmp x xs)"
begin

lemma find_after_ins:
  assumes "store s xs" and "ins s x = Some (old, s')"
  shows "find s' y = (if cmp y x = 0 then Some (Some x) else find s y) \<and> find s x = Some old"
proof -
  have "old = list_find cmp x xs" "store s' (list_insert cmp x xs)"
    using ins_law [OF assms(1), of x] assms(2) by auto
  then show ?thesis
    using find_insert [OF store_increasing [OF assms(1)], of y x] find_law [OF assms(1)] find_law [of s']
    by simp
qed

lemma find_after_del:
  assumes "store s xs" and "del s x = Some (old, s')"
  shows "find s' y = (if cmp y x = 0 then Some None else find s y) \<and> find s x = Some old"
proof -
  have "old = list_find cmp x xs" "store s' (list_remove cmp x xs)"
    using del_law [OF assms(1), of x] assms(2) by auto
  then show ?thesis
    using find_remove [of y x xs] find_law [OF assms(1)] find_law [of s'] by simp
qed

lemma drive_store: "store s xs \<Longrightarrow> \<exists>s'. drive ins del ops s = Some s' \<and> store s' (foldl (after_op cmp) xs ops)"
proof (induction ops arbitrary: s xs)
  case (Cons op ops)
  have "\<exists>s1. drive ins del (op # ops) s = drive ins del ops s1 \<and> store s1 (after_op cmp xs op)"
  proof (cases op)
    case (Inl x)
    with ins_law [OF Cons.prems, of x] show ?thesis by (auto simp: after_op_def)
  next
    case (Inr x)
    with del_law [OF Cons.prems, of x] show ?thesis by (auto simp: after_op_def)
  qed
  then obtain s1 where "drive ins del (op # ops) s = drive ins del ops s1" "store s1 (after_op cmp xs op)" by blast
  with Cons.IH [of s1 "after_op cmp xs op"] show ?case by simp
qed simp

end

section \<open>The tree is an ordered store\<close>

text \<open>The state: the heap, the tree, and an address above all nodes, where the next one goes.\<close>

type_synonym 'e rb_state = "'e rb_heap \<times> 'e rbtree \<times> addr"

definition rb_store :: "('e \<Rightarrow> 'e \<Rightarrow> int) \<Rightarrow> 'e rb_state \<Rightarrow> 'e list \<Rightarrow> bool" where
  "rb_store cmp = (\<lambda>(h, t, n) xs. rb_cmp t = cmp \<and> 0 < n \<and> (\<exists>A. holds h t xs A \<and> (\<forall>a \<in> A. a < n)))"

definition rb_find :: "'e rb_state \<Rightarrow> 'e \<Rightarrow> 'e option option" where
  "rb_find = (\<lambda>(h, t, n) x. rbtree_find h t (Some x))"

definition rb_ins :: "'e rb_state \<Rightarrow> 'e \<Rightarrow> ('e option \<times> 'e rb_state) option" where
  "rb_ins = (\<lambda>(h, t, n) x. map_option (\<lambda>(old, h', t'). (old, h', t', Suc n)) (rbtree_insert h t n (Some x)))"

definition rb_del :: "'e rb_state \<Rightarrow> 'e \<Rightarrow> ('e option \<times> 'e rb_state) option" where
  "rb_del = (\<lambda>(h, t, n) x. map_option (\<lambda>(old, h', t'). (old, h', t', n)) (rbtree_remove h t (Some x)))"

lemma holds_increasing: "holds h t xs A \<Longrightarrow> increasing (rb_cmp t) xs"
  by (auto simp: holds_def rb_rep_def)

sublocale total_cmp \<subseteq> rb: ordered_store cmp "rb_store cmp" rb_find rb_ins rb_del
proof
  fix s :: "'e rb_state" and x xs
  assume st: "rb_store cmp s xs"
  obtain h t n where s: "s = (h, t, n)" by (cases s)
  from st obtain A where A: "rb_cmp t = cmp" "0 < n" "holds h t xs A" "\<forall>a \<in> A. a < n"
    by (auto simp: rb_store_def s)
  have o: "cmp_order (rb_cmp t)" using order A(1) by simp
  show "increasing cmp xs" using holds_increasing [OF A(3)] A(1) by simp
  show "rb_find s x = Some (list_find cmp x xs)"
    using find_holds [OF o A(3), of x] A(1) by (simp add: rb_find_def s)
  have n: "n \<noteq> 0" "n \<notin> A" using A by auto
  show "\<exists>s'. rb_ins s x = Some (list_find cmp x xs, s') \<and> rb_store cmp s' (list_insert cmp x xs)"
    using insert_holds [OF o A(3) n, of x] A by (fastforce simp: rb_ins_def rb_store_def s split: if_splits)
  show "\<exists>s'. rb_del s x = Some (list_find cmp x xs, s') \<and> rb_store cmp s' (list_remove cmp x xs)"
    using remove_holds [OF o A(3), of x] A by (fastforce simp: rb_del_def rb_store_def s)
qed

context total_cmp begin

lemma rb_drive:
  assumes "rb_store cmp s xs"
  shows "\<exists>s'. drive rb_ins rb_del ops s = Some s' \<and> rb_store cmp s' (foldl (after_op cmp) xs ops) \<and>
    (\<forall>y. rb_find s' y = Some (list_find cmp y (foldl (after_op cmp) xs ops)))"
  using rb.drive_store [OF assms, of ops] rb.find_law by blast

end

text \<open>Integers in their order.\<close>

definition int_cmp :: "int \<Rightarrow> int \<Rightarrow> int" where
  "int_cmp a b = a - b"

interpretation ints: total_cmp int_cmp
  by unfold_locales (auto simp: cmp_order_def int_cmp_def)

lemma holds_empty: "rb_root t = 0 \<Longrightarrow> rb_size t = 0 \<Longrightarrow> holds h t [] {}"
  by (auto simp: holds_def rb_rep_def zip_in_root rbt_def increasing_def intro!: exI [of _ Lf] exI [of _ 0])

lemma int_order: "cmp_order int_cmp"
  by (rule ints.order)

section \<open>Properties\<close>

text \<open>
  C5 (functional, safety). \<open>rbtree_insert\<close> on a tree that holds the increasing list \<open>xs\<close>, given any
  address that is not one of its nodes: it returns (the fixup loop ends, no bad pointer is
  followed), the tree then is a well-formed red-black tree that holds the list with the element
  in the place of the equal one or at its place in the order, the result is the replaced element
  or \<open>NULL\<close>, the nodes are the old ones and at most the new one, and no other cell changes.
\<close>

theorem rbtree_insert_correct:
  assumes "cmp_order (rb_cmp t)" and "holds h t xs A" and "a \<noteq> 0" and "a \<notin> A"
  shows "\<exists>h' t'. rbtree_insert h t a (Some x) = Some (list_find (rb_cmp t) x xs, h', t') \<and>
    holds h' t' (list_insert (rb_cmp t) x xs) (if list_find (rb_cmp t) x xs = None then insert a A else A) \<and>
    rb_cmp t' = rb_cmp t \<and> rb_owns t' = rb_owns t \<and>
    (\<forall>b. b \<notin> (if list_find (rb_cmp t) x xs = None then insert a A else A) \<longrightarrow> h' b = h b)"
  using insert_holds [OF assms, of x] unfolding touches_def by blast

lemma holds_five:
  "\<exists>h t. rbtree_insert Map.empty (rbtree_new int_cmp False) 1 (Some 5) = Some (None, h, t) \<and>
    holds h t [5] {1} \<and> rb_cmp t = int_cmp \<and> \<not> rb_owns t"
proof -
  let ?t = "rbtree_new int_cmp False"
  have t: "rb_cmp ?t = int_cmp" "\<not> rb_owns ?t" by (simp_all add: rbtree_new_def)
  obtain h' t' where "rbtree_insert Map.empty ?t 1 (Some 5) = Some (list_find int_cmp 5 [], h', t')"
    "rb_cmp t' = rb_cmp ?t" "rb_owns t' = rb_owns ?t"
    "holds h' t' (list_insert int_cmp 5 []) (if list_find int_cmp 5 [] = None then insert 1 {} else {})"
    using insert_holds [of ?t Map.empty "[]" "{}" 1 5] holds_new [of Map.empty int_cmp False] int_order t by auto
  then show ?thesis using t by (simp add: list_find_def list_insert_def)
qed

theorem rbtree_insert_correct_witness:
  "\<exists>h t. rbtree_insert Map.empty (rbtree_new int_cmp False) 1 (Some 5) = Some (None, h, t) \<and> holds h t [5] {1}"
  using rbtree_insert_correct [of "rbtree_new int_cmp False" Map.empty "[]" "{}" 1 5]
    holds_new [of Map.empty int_cmp False] int_order
  by (simp add: rbtree_new_def list_find_def list_insert_def) blast

text \<open>
  C6 (functional, safety). \<open>rbtree_remove\<close> on a tree that holds \<open>xs\<close>: it returns the element equal to
  the key or \<open>NULL\<close>, the tree is then a well-formed red-black tree that holds the other elements in
  order, and the node that left it is freed.
\<close>

theorem rbtree_remove_correct:
  assumes "cmp_order (rb_cmp t)" and "holds h t xs A"
  shows "\<exists>h' t' B. rbtree_remove h t (Some x) = Some (list_find (rb_cmp t) x xs, h', t') \<and>
    holds h' t' (list_remove (rb_cmp t) x xs) B \<and> B \<subseteq> A \<and> (\<forall>a \<in> A - B. h' a = None) \<and>
    rb_cmp t' = rb_cmp t \<and> rb_owns t' = rb_owns t \<and> (\<forall>b. b \<notin> A \<longrightarrow> h' b = h b)"
  using remove_holds [OF assms, of x] unfolding touches_def by blast

theorem rbtree_remove_correct_witness:
  "\<exists>h t h' t' B. rbtree_insert Map.empty (rbtree_new int_cmp False) 1 (Some 5) = Some (None, h, t) \<and>
     rbtree_remove h t (Some 5) = Some (Some 5, h', t') \<and> holds h' t' [] B"
proof -
  obtain h t where ins: "rbtree_insert Map.empty (rbtree_new int_cmp False) 1 (Some 5) = Some (None, h, t)"
    "holds h t [5] {1}" "rb_cmp t = int_cmp" using holds_five by blast
  moreover have "cmp_order (rb_cmp t)" using int_order ins(3) by simp
  ultimately show ?thesis
    using rbtree_remove_correct [of t h "[5]" "{1}" 5]
    by (auto simp: list_find_def list_remove_def int_cmp_def)
qed

text \<open>
  C7 (functional). \<open>rbtree_find\<close> gives the element equal to the key, \<open>rbtree_contains\<close> whether there
  is one, \<open>rbtree_min\<close> and \<open>rbtree_max\<close> the ends of the list, and \<open>rbtree_foreach\<close> visits the whole
  list in order.
\<close>

theorem rbtree_lookup_correct:
  assumes "cmp_order (rb_cmp t)" and "holds h t xs A"
  shows "rbtree_find h t (Some x) = Some (list_find (rb_cmp t) x xs) \<and>
    rbtree_contains h t (Some x) = Some (\<exists>e \<in> set xs. rb_cmp t x e = 0) \<and>
    rbtree_min h t = Some (if xs = [] then None else Some (hd xs)) \<and>
    rbtree_max h t = Some (if xs = [] then None else Some (last xs)) \<and>
    rbtree_foreach h t visit s = Some (fold visit xs s) \<and>
    rb_size t = length xs \<and> (rbtree_is_empty t \<longleftrightarrow> xs = [])"
proof -
  have "list_find (rb_cmp t) x xs \<noteq> None \<longleftrightarrow> (\<exists>e \<in> set xs. rb_cmp t x e = 0)"
    by (auto simp: list_find_def find_None_iff)
  moreover have "rb_size t = length xs" using assms(2) by (auto simp: holds_def rb_rep_def)
  ultimately show ?thesis
    using find_holds [OF assms, of x] min_max_holds [OF assms(2)] foreach_holds [OF assms(2), of visit s]
    by (simp add: rbtree_contains_def rbtree_is_empty_def)
qed

theorem rbtree_lookup_correct_witness:
  "\<exists>h t. rbtree_insert Map.empty (rbtree_new int_cmp False) 1 (Some 5) = Some (None, h, t) \<and>
     rbtree_find h t (Some 5) = Some (Some 5) \<and> rbtree_min h t = Some (Some 5)"
proof -
  obtain h t where ins: "rbtree_insert Map.empty (rbtree_new int_cmp False) 1 (Some 5) = Some (None, h, t)"
    "holds h t [5] {1}" "rb_cmp t = int_cmp" using holds_five by blast
  moreover have "cmp_order (rb_cmp t)" using int_order ins(3) by simp
  ultimately show ?thesis
    using rbtree_lookup_correct [of t h "[5]" "{1}" 5 "\<lambda>_ s. s" "()"] by (simp add: list_find_def int_cmp_def)
qed

text \<open>
  C8 (bounds). A search reads at most \<open>2 * log 2 (n + 1)\<close> nodes, the shared bound of lookup, removal
  and insertion: there is a set of nodes of that size such that the loops have the same results on
  every heap that agrees on these nodes, even if no other node is there to be read, and the result of
  the lookup is that of the list. The loops keep no state but the node they are at, so no node is read
  twice.
\<close>

theorem rbtree_search_logarithmic:
  assumes "cmp_order (rb_cmp t)" "holds h t xs A"
  shows "\<exists>S \<subseteq> A. 2 ^ card S \<le> (rb_size t + 1)\<^sup>2 \<and>
    (\<forall>h'. (\<forall>a \<in> S. h' a = h a) \<longrightarrow>
      (\<exists>z. search_loop (rb_cmp t) h' x (rb_root t) = Some z \<and> search_loop (rb_cmp t) h x (rb_root t) = Some z) \<and>
      (\<exists>z. insert_loop (rb_cmp t) h' x (rb_root t) 0 0 = Some z \<and> insert_loop (rb_cmp t) h x (rb_root t) 0 0 = Some z) \<and>
      rbtree_find h' t (Some x) = Some (list_find (rb_cmp t) x xs))"
proof -
  from assms(2) obtain T where T: "tree_in h 0 T" "rb_root t = root_addr T" "rbt T" "rb_size t = length (inorder T)" "A = set (addrs T)"
    by (auto simp: holds_def rb_rep_def zip_in_root)
  obtain S where S: "S \<subseteq> A" "card S \<le> height T" "finite S" "search_needs (rb_cmp t) h x (rb_root t) S"
    using search_needs_path [OF T(1), of "rb_cmp t" x] unfolding T(2) [symmetric] T(5) [symmetric] by blast
  have "(2::nat) ^ card S \<le> 2 ^ height T" using S(2) by (intro power_increasing) auto
  also have "\<dots> \<le> (rb_size t + 1)\<^sup>2" using rbt_height [OF T(3)] T(4) by simp
  finally have size: "2 ^ card S \<le> (rb_size t + 1)\<^sup>2" .
  from S(4) obtain z where z: "z \<in> insert 0 S" and loops: "\<forall>h'. (\<forall>a \<in> S. h' a = h a) \<longrightarrow>
      search_loop (rb_cmp t) h' x (rb_root t) = Some z \<and> (\<forall>parent c.
        insert_loop (rb_cmp t) h' x (rb_root t) parent c = insert_loop (rb_cmp t) h x (rb_root t) parent c)"
    unfolding search_needs_def by blast
  obtain w where w: "insert_loop (rb_cmp t) h x (rb_root t) 0 0 = Some w"
    using insert_loop_seek [of h "[]" T "rb_cmp t" x _ _ 0] T(1,2) by (cases "seek (rb_cmp t) x [] T") fastforce
  have run: "search_loop (rb_cmp t) h x (rb_root t) = Some z" using loops [THEN spec, of h] by simp
  have "rbtree_find h t (Some x) = Some (list_find (rb_cmp t) x xs)" using find_holds [OF assms] .
  then have "search_loop (rb_cmp t) h' x (rb_root t) = Some z \<and>
      insert_loop (rb_cmp t) h' x (rb_root t) 0 0 = Some w \<and>
      rbtree_find h' t (Some x) = Some (list_find (rb_cmp t) x xs)" if same: "\<forall>a \<in> S. h' a = h a" for h'
    using loops [THEN spec, of h'] same z run w by (auto simp: rbtree_find_def rd_def)
  with S(1) size run w show ?thesis by (intro exI [of _ S] conjI allI impI) (cases w; simp)+
qed

theorem rbtree_search_logarithmic_witness:
  "\<exists>h t. rbtree_insert Map.empty (rbtree_new int_cmp False) 1 (Some 5) = Some (None, h, t) \<and>
    (\<exists>S \<subseteq> {1}. 2 ^ card S \<le> (rb_size t + 1)\<^sup>2 \<and> rbtree_find (h |` S) t (Some 7) = Some None)"
proof -
  obtain h t where ins: "rbtree_insert Map.empty (rbtree_new int_cmp False) 1 (Some 5) = Some (None, h, t)"
    "holds h t [5] {1}" "rb_cmp t = int_cmp" using holds_five by blast
  have "cmp_order (rb_cmp t)" using int_order ins(3) by simp
  from rbtree_search_logarithmic [OF this ins(2), of 7] obtain S where S: "S \<subseteq> {1}" "2 ^ card S \<le> (rb_size t + 1)\<^sup>2"
      "\<And>h'. \<forall>a \<in> S. h' a = h a \<Longrightarrow> rbtree_find h' t (Some 7) = Some (list_find (rb_cmp t) 7 [5])" by metis
  have "rbtree_find (h |` S) t (Some 7) = Some None"
    using S(3) [of "h |` S"] ins(3) by (simp add: list_find_def int_cmp_def)
  then show ?thesis using ins(1) S(1,2) by (intro exI [of _ h] exI [of _ t] conjI exI [of _ S]) simp_all
qed

text \<open>
  Disposing of a tree frees each of its nodes and nothing else, and hands
  every element to \<open>allocator_free\<close> exactly once if the tree owns its elements, never otherwise.
\<close>

theorem rbtree_dispose_correct:
  assumes "holds h t xs A"
  shows "\<exists>freed h' t'. rbtree_dispose h t = Some (freed, h', t') \<and>
    (\<forall>a. h' a = (if a \<in> A then None else h a)) \<and> mset freed = (if rb_owns t then mset xs else {#}) \<and>
    holds h' t' [] {}"
  using dispose_holds [OF assms] holds_empty [of "t\<lparr>rb_root := 0, rb_size := 0\<rparr>"] by (auto simp: clear_def)

theorem rbtree_dispose_correct_witness:
  "\<exists>h t freed h' t'. rbtree_insert Map.empty (rbtree_new int_cmp False) 1 (Some 5) = Some (None, h, t) \<and>
     rbtree_dispose h t = Some (freed, h', t') \<and> h' 1 = None"
proof -
  obtain h t where ins: "rbtree_insert Map.empty (rbtree_new int_cmp False) 1 (Some 5) = Some (None, h, t)"
    "holds h t [5] {1}" using holds_five by blast
  from ins(1) rbtree_dispose_correct [OF ins(2)] show ?thesis by auto
qed

text \<open>
  C9 (functional, safety). Cloning a tree into fresh nodes: the copy holds the clones of the
  elements (the elements themselves if the tree does not own them), lives in the fresh nodes only,
  and the source tree is untouched. The cloning of an element must keep the order.
\<close>

theorem rbtree_clone_correct:
  assumes "holds h t xs A" and "length xs \<le> length as" and "distinct as" and "0 \<notin> set as" and "set as \<inter> A = {}"
    and "\<forall>a b. rb_cmp t (cl a) (cl b) = rb_cmp t a b"
  shows "\<exists>t' h' B. rbtree_clone cl as h t = Some (t', h') \<and> B \<inter> A = {} \<and>
    holds h' t' (if rb_owns t then map cl xs else xs) B \<and> holds h' t xs A \<and> (\<forall>a. a \<notin> B \<longrightarrow> h' a = h a)"
proof -
  from clone_holds [OF assms(1-5), of cl] assms(6) obtain t' h' B where
    "rbtree_clone cl as h t = Some (t', h')" "B = set (take (length xs) as)"
    "holds h' t' (if rb_owns t then map cl xs else xs) B" "holds h' t xs A" "touches B h h'" by auto
  moreover from this(2) assms(5) have "B \<inter> A = {}" by (auto dest: in_set_takeD)
  ultimately show ?thesis unfolding touches_def by blast
qed

theorem rbtree_clone_correct_witness:
  "\<exists>h t t' h' B. rbtree_insert Map.empty (rbtree_new int_cmp False) 1 (Some 5) = Some (None, h, t) \<and>
     rbtree_clone id [2, 3] h t = Some (t', h') \<and> holds h' t' [5] B \<and> holds h' t [5] {1}"
proof -
  obtain h t where ins: "rbtree_insert Map.empty (rbtree_new int_cmp False) 1 (Some 5) = Some (None, h, t)"
    "holds h t [5] {1}" "\<not> rb_owns t" using holds_five by blast
  from ins(1,3) rbtree_clone_correct [OF ins(2), of "[2, 3]" id] show ?thesis by auto
qed

text \<open>
  C10 (refinement, liveness). From a new tree, any sequence of insertions and removals runs to its
  end, and the lookups afterwards agree with the list that the sequence describes.
\<close>

theorem rbtree_drive:
  assumes "cmp_order cmp"
  shows "\<exists>s'. drive rb_ins rb_del ops (Map.empty, rbtree_new cmp owns, 1) = Some s' \<and>
    rb_store cmp s' (foldl (after_op cmp) [] ops) \<and>
    (\<forall>y. rb_find s' y = Some (list_find cmp y (foldl (after_op cmp) [] ops)))"
proof (rule total_cmp.rb_drive)
  show "total_cmp cmp" using assms by unfold_locales
  show "rb_store cmp (Map.empty, rbtree_new cmp owns, 1) []"
    using holds_new [of Map.empty cmp owns] by (auto simp: rb_store_def rbtree_new_def)
qed

theorem rbtree_drive_witness:
  "\<exists>s'. drive rb_ins rb_del [Inl 5, Inl 7, Inl 6, Inr 5, Inl 9] (Map.empty, rbtree_new int_cmp False, 1) = Some s' \<and>
     rb_find s' 5 = Some None \<and> rb_find s' 9 = Some (Some 9)"
proof -
  have l: "foldl (after_op int_cmp) [] [Inl 5, Inl 7, Inl 6, Inr 5, Inl 9] = [6, 7, 9]"
    by (simp add: after_op_def list_insert_def list_remove_def int_cmp_def)
  show ?thesis
    using rbtree_drive [OF int_order, of "[Inl 5, Inl 7, Inl 6, Inr 5, Inl 9]" False] unfolding l
    by (auto simp: list_find_def int_cmp_def)
qed

end
