(* ===== verification/Vec.thy ===== *)
theory Vec
  imports Prelude
begin

text \<open>
  The growable pointer array of \<open>src/core/vec.c\<close>. The data array is a list of cells, as long as the
  capacity; a cell that was never written holds \<open>Junk\<close>, and reading it is undefined. Results are
  values of \<open>fault + 'a\<close>: a panic of the code, or what C leaves undefined. The refinement is to the
  list of the first \<open>len\<close> elements, each a pointer or \<open>NULL\<close> (\<open>None\<close>).
\<close>

section \<open>State\<close>

datatype 'a cell = Junk | Ptr "'a option"

record 'a vec =
  v_data :: "'a cell list"
  v_len :: nat
  v_cap :: nat
  v_owns :: bool

definition sizeof_ptr :: nat where "sizeof_ptr = 8"

definition next_capacity :: "nat \<Rightarrow> nat \<Rightarrow> nat" where
  "next_capacity current required =
     (if current = 0 then (if required < 4 then 4 else required)
      else let grown = (current * 2) mod 2 ^ 64;
               grown = (if grown < current then size_max else grown)
           in if grown < required then required else grown)"

text \<open>A cell read by the code as \<open>vec->data[i]\<close>.\<close>

definition cell_at :: "'a cell list \<Rightarrow> nat \<Rightarrow> 'a option result" where
  "cell_at data i = (if i < length data then
      (case data ! i of Ptr p \<Rightarrow> Inr p | Junk \<Rightarrow> Inl (Undefined ''uninitialised cell''))
    else Inl (Undefined ''out of bounds''))"

section \<open>Operations\<close>

definition vec_grow :: "'a vec \<Rightarrow> nat \<Rightarrow> 'a vec result" where
  "vec_grow vec min_cap =
     (if min_cap \<le> v_cap vec then Inr vec
      else let new_cap = next_capacity (v_cap vec) min_cap in
        if new_cap > size_max div sizeof_ptr then Inl (Panic ''out of memory: vec capacity overflow'')
        else Inr (vec\<lparr>v_data := blit (replicate new_cap Junk) 0 (take (v_len vec) (v_data vec)), v_cap := new_cap\<rparr>))"

definition vec_with_capacity :: "bool \<Rightarrow> nat \<Rightarrow> 'a vec result" where
  "vec_with_capacity owns capacity =
     (let vec = \<lparr>v_data = [], v_len = 0, v_cap = 0, v_owns = owns\<rparr> in
      if capacity > 0 then vec_grow vec capacity else Inr vec)"

definition vec_new :: "bool \<Rightarrow> 'a vec result" where
  "vec_new owns = vec_with_capacity owns 0"

definition vec_get :: "'a vec \<Rightarrow> nat \<Rightarrow> 'a option result" where
  "vec_get vec index = (if index \<ge> v_len vec then Inr None else cell_at (v_data vec) index)"

definition vec_set :: "'a vec \<Rightarrow> nat \<Rightarrow> 'a option \<Rightarrow> ('a option \<times> 'a vec) result" where
  "vec_set vec index value = (if index \<ge> v_len vec then Inr (None, vec)
     else case cell_at (v_data vec) index of Inl f \<Rightarrow> Inl f
       | Inr old \<Rightarrow> Inr (old, vec\<lparr>v_data := (v_data vec)[index := Ptr value]\<rparr>))"

definition vec_first :: "'a vec \<Rightarrow> 'a option result" where
  "vec_first vec = (if v_len vec = 0 then Inr None else cell_at (v_data vec) 0)"

definition vec_last :: "'a vec \<Rightarrow> 'a option result" where
  "vec_last vec = (if v_len vec = 0 then Inr None else cell_at (v_data vec) (v_len vec - 1))"

text \<open>\<open>vec->data[vec->len++] = value\<close>.\<close>

definition append_cell :: "'a vec \<Rightarrow> 'a option \<Rightarrow> 'a vec result" where
  "append_cell vec value = (if v_len vec < length (v_data vec)
     then Inr (vec\<lparr>v_data := (v_data vec)[v_len vec := Ptr value], v_len := v_len vec + 1\<rparr>)
     else Inl (Undefined ''out of bounds''))"

definition vec_push :: "'a vec \<Rightarrow> 'a option \<Rightarrow> 'a vec result" where
  "vec_push vec value = (if value = None then Inr vec
     else case (if v_len vec = v_cap vec then vec_grow vec (v_cap vec + 1) else Inr vec) of
       Inl f \<Rightarrow> Inl f | Inr vec \<Rightarrow> append_cell vec value)"

definition vec_pop :: "'a vec \<Rightarrow> ('a option \<times> 'a vec) result" where
  "vec_pop vec = (if v_len vec = 0 then Inr (None, vec)
     else case cell_at (v_data vec) (v_len vec - 1) of Inl f \<Rightarrow> Inl f
       | Inr p \<Rightarrow> Inr (p, vec\<lparr>v_len := v_len vec - 1\<rparr>))"

definition vec_insert :: "'a vec \<Rightarrow> nat \<Rightarrow> 'a option \<Rightarrow> 'a vec result" where
  "vec_insert vec index value = (if value = None then Inr vec
     else if index > v_len vec then Inl (Panic ''vec_insert: index out of bounds'')
     else case (if v_len vec = v_cap vec then vec_grow vec (v_cap vec + 1) else Inr vec) of
       Inl f \<Rightarrow> Inl f
     | Inr vec \<Rightarrow>
         let data = blit (v_data vec) (index + 1) (slice (v_data vec) index (v_len vec - index))
         in Inr (vec\<lparr>v_data := data[index := Ptr value], v_len := v_len vec + 1\<rparr>))"

definition vec_remove :: "'a vec \<Rightarrow> nat \<Rightarrow> ('a option \<times> 'a vec) result" where
  "vec_remove vec index = (if index \<ge> v_len vec then Inr (None, vec)
     else case cell_at (v_data vec) index of Inl f \<Rightarrow> Inl f
     | Inr removed \<Rightarrow>
         let n = v_len vec - 1;
             data = (if index < n then blit (v_data vec) index (slice (v_data vec) (index + 1) (n - index))
                     else v_data vec)
         in Inr (removed, vec\<lparr>v_data := data, v_len := n\<rparr>))"

definition vec_swap_remove :: "'a vec \<Rightarrow> nat \<Rightarrow> ('a option \<times> 'a vec) result" where
  "vec_swap_remove vec index = (if index \<ge> v_len vec then Inr (None, vec)
     else case cell_at (v_data vec) index of Inl f \<Rightarrow> Inl f
     | Inr removed \<Rightarrow> (case cell_at (v_data vec) (v_len vec - 1) of Inl f \<Rightarrow> Inl f
       | Inr l \<Rightarrow> Inr (removed, vec\<lparr>v_data := (v_data vec)[index := Ptr l], v_len := v_len vec - 1\<rparr>)))"

definition vec_is_empty :: "'a vec \<Rightarrow> bool" where
  "vec_is_empty vec \<longleftrightarrow> v_len vec = 0"

definition vec_reserve :: "'a vec \<Rightarrow> nat \<Rightarrow> 'a vec result" where
  "vec_reserve vec additional = (if additional = 0 then Inr vec
     else let needed = (v_len vec + additional) mod 2 ^ 64 in
       if needed < v_len vec then Inl (Panic ''vec_reserve: capacity overflow'')
       else if needed > v_cap vec then vec_grow vec needed else Inr vec)"

definition vec_shrink_to_fit :: "'a vec \<Rightarrow> 'a vec" where
  "vec_shrink_to_fit vec = (if v_len vec = v_cap vec then vec
     else if v_len vec = 0 then vec\<lparr>v_data := [], v_cap := 0\<rparr>
     else vec\<lparr>v_data := blit (replicate (v_len vec) Junk) 0 (take (v_len vec) (v_data vec)), v_cap := v_len vec\<rparr>)"

fun pad_null :: "nat \<Rightarrow> 'a vec \<Rightarrow> 'a vec result" where
  "pad_null 0 vec = Inr vec"
| "pad_null (Suc k) vec = (case append_cell vec None of Inl f \<Rightarrow> Inl f | Inr vec \<Rightarrow> pad_null k vec)"

definition vec_resize :: "'a vec \<Rightarrow> nat \<Rightarrow> 'a vec result" where
  "vec_resize vec new_len = (if new_len \<le> v_len vec then Inr vec
     else case (if new_len > v_cap vec then vec_grow vec new_len else Inr vec) of
       Inl f \<Rightarrow> Inl f | Inr vec \<Rightarrow> pad_null (new_len - v_len vec) vec)"

text \<open>The elements that disposal hands to \<open>allocator_free\<close>, in order.\<close>

definition vec_dispose :: "'a vec \<Rightarrow> 'a list \<times> 'a vec" where
  "vec_dispose vec =
     ((if v_owns vec then concat (map (\<lambda>c. case c of Ptr (Some p) \<Rightarrow> [p] | _ \<Rightarrow> []) (take (v_len vec) (v_data vec))) else []),
      vec\<lparr>v_data := [], v_len := 0, v_cap := 0\<rparr>)"

definition vec_move :: "'a vec \<Rightarrow> 'a vec \<times> 'a vec" where
  "vec_move src = (src, src\<lparr>v_data := [], v_len := 0, v_cap := 0\<rparr>)"

text \<open>\<open>cl\<close> is \<open>allocator_clone\<close>, which gives \<open>NULL\<close> for \<open>NULL\<close>.\<close>

fun clone_cells :: "bool \<Rightarrow> ('a \<Rightarrow> 'a) \<Rightarrow> 'a cell list \<Rightarrow> 'a cell list result" where
  "clone_cells owns cl [] = Inr []"
| "clone_cells owns cl (Junk # cs) = Inl (Undefined ''uninitialised cell'')"
| "clone_cells owns cl (Ptr p # cs) =
     (case clone_cells owns cl cs of Inl f \<Rightarrow> Inl f
      | Inr ds \<Rightarrow> Inr (Ptr (if owns then map_option cl p else p) # ds))"

definition vec_clone :: "('a \<Rightarrow> 'a) \<Rightarrow> 'a vec \<Rightarrow> 'a vec result" where
  "vec_clone cl src = (if v_len src > 0 then
      (case clone_cells (v_owns src) cl (take (v_len src) (v_data src)) of Inl f \<Rightarrow> Inl f
       | Inr ds \<Rightarrow> Inr \<lparr>v_data = ds, v_len = v_len src, v_cap = v_len src, v_owns = v_owns src\<rparr>)
    else Inr \<lparr>v_data = [], v_len = 0, v_cap = 0, v_owns = v_owns src\<rparr>)"

section \<open>The list of a vector\<close>

text \<open>\<open>vec_holds v xs\<close>: the first \<open>len\<close> cells are \<open>xs\<close>, and the capacity is the size of the array.\<close>

definition vec_holds :: "'a vec \<Rightarrow> 'a option list \<Rightarrow> bool" where
  "vec_holds v xs \<longleftrightarrow> length (v_data v) = v_cap v \<and> v_len v = length xs \<and> length xs \<le> v_cap v \<and>
     take (length xs) (v_data v) = map Ptr xs \<and> v_cap v \<le> size_max div sizeof_ptr"

lemma vec_holdsD:
  assumes "vec_holds v xs"
  shows "v_len v = length xs" and "i < length xs \<Longrightarrow> v_data v ! i = Ptr (xs ! i)"
    and "i < length xs \<Longrightarrow> i < length (v_data v)"
  using assms nth_take [of i "length xs" "v_data v"] by (auto simp: vec_holds_def)

lemma cell_at_holds: "vec_holds v xs \<Longrightarrow> i < length xs \<Longrightarrow> cell_at (v_data v) i = Inr (xs ! i)"
  by (simp add: cell_at_def vec_holdsD)

lemma next_capacity_ge: "required \<le> next_capacity current required"
  by (auto simp: next_capacity_def Let_def)

text \<open>Growing succeeds while the array has at most \<open>2 ^ 60\<close> slots, far above any real memory.\<close>

lemma next_capacity_small:
  "required \<le> 2 ^ 60 \<Longrightarrow> current < required \<Longrightarrow> next_capacity current required \<le> size_max div sizeof_ptr"
  by (auto simp: next_capacity_def Let_def size_max_def sizeof_ptr_def mod_less)

lemma vec_grow_holds:
  assumes "vec_holds v xs" and "min_cap \<le> 2 ^ 60"
  shows "\<exists>v'. vec_grow v min_cap = Inr v' \<and> vec_holds v' xs \<and> min_cap \<le> v_cap v' \<and> v_owns v' = v_owns v"
proof (cases "min_cap \<le> v_cap v")
  case True
  then show ?thesis using assms by (simp add: vec_grow_def)
next
  case False
  let ?n = "next_capacity (v_cap v) min_cap"
  have n: "?n \<le> size_max div sizeof_ptr" using False assms(2) by (intro next_capacity_small) auto
  have ge: "min_cap \<le> ?n" by (rule next_capacity_ge)
  have "length xs \<le> ?n" using assms(1) False ge by (auto simp: vec_holds_def)
  then show ?thesis
    using assms(1) False n ge
    by (auto simp: vec_grow_def Let_def vec_holds_def mem_simps)
qed

lemma vec_holds_iff:
  "vec_holds v xs \<longleftrightarrow> (\<exists>rest. v_data v = map Ptr xs @ rest) \<and> length (v_data v) = v_cap v \<and> v_len v = length xs \<and>
     v_cap v \<le> size_max div sizeof_ptr"
proof
  assume h: "vec_holds v xs"
  then have "v_data v = map Ptr xs @ drop (length xs) (v_data v)"
    by (metis append_take_drop_id vec_holds_def)
  with h show "(\<exists>rest. v_data v = map Ptr xs @ rest) \<and> length (v_data v) = v_cap v \<and> v_len v = length xs \<and>
     v_cap v \<le> size_max div sizeof_ptr" by (auto simp: vec_holds_def)
qed (auto simp: vec_holds_def)

lemma append_cell_holds:
  assumes "vec_holds v xs" and "length xs < v_cap v"
  shows "\<exists>v'. append_cell v p = Inr v' \<and> vec_holds v' (xs @ [p]) \<and> v_owns v' = v_owns v \<and> v_cap v' = v_cap v"
proof -
  obtain rest where r: "v_data v = map Ptr xs @ rest" "rest \<noteq> []"
    using assms by (fastforce simp: vec_holds_iff)
  then obtain c rest' where "rest = c # rest'" by (cases rest) auto
  with r assms show ?thesis by (auto simp: append_cell_def vec_holds_iff list_update_append)
qed

lemma room_holds:
  assumes "vec_holds v xs" and "length xs < 2 ^ 60"
  shows "\<exists>v'. (if v_len v = v_cap v then vec_grow v (v_cap v + 1) else Inr v) = Inr v' \<and> vec_holds v' xs \<and>
    length xs < v_cap v' \<and> v_owns v' = v_owns v"
proof (cases "v_len v = v_cap v")
  case True
  then have l: "v_cap v = length xs" using assms(1) by (simp add: vec_holds_def)
  then have "v_cap v + 1 \<le> 2 ^ 60" using assms(2) by simp
  from vec_grow_holds [OF assms(1) this] True l show ?thesis by auto
next
  case False
  then show ?thesis using assms by (auto simp: vec_holds_def)
qed

lemma vec_push_holds:
  assumes "vec_holds v xs" and "length xs < 2 ^ 60"
  shows "\<exists>v'. vec_push v (Some p) = Inr v' \<and> vec_holds v' (xs @ [Some p]) \<and> v_owns v' = v_owns v"
proof -
  obtain v1 where v1: "(if v_len v = v_cap v then vec_grow v (v_cap v + 1) else Inr v) = Inr v1"
    "vec_holds v1 xs" "length xs < v_cap v1" "v_owns v1 = v_owns v"
    using room_holds [OF assms] by blast
  with append_cell_holds [OF v1(2,3), of "Some p"] show ?thesis by (auto simp: vec_push_def)
qed

lemma vec_pop_holds:
  assumes "vec_holds v xs"
  shows "\<exists>v'. vec_pop v = Inr (if xs = [] then None else last xs, v') \<and> vec_holds v' (butlast xs)"
proof (cases xs rule: rev_cases)
  case Nil
  then show ?thesis using assms by (simp add: vec_pop_def vec_holds_def)
next
  case (snoc ys y)
  with assms cell_at_holds [OF assms, of "length ys"] show ?thesis
    by (auto simp: vec_pop_def vec_holds_iff)
qed

lemma vec_get_holds: "vec_holds v xs \<Longrightarrow> vec_get v i = Inr (if i < length xs then xs ! i else None)"
  by (auto simp: vec_get_def vec_holdsD(1) cell_at_holds)

lemma vec_ends_hold:
  assumes "vec_holds v xs"
  shows "vec_first v = Inr (if xs = [] then None else hd xs)" and "vec_last v = Inr (if xs = [] then None else last xs)"
  using assms cell_at_holds [OF assms]
  by (auto simp: vec_first_def vec_last_def vec_holdsD(1) hd_conv_nth last_conv_nth)

lemma vec_set_holds:
  assumes "vec_holds v xs"
  shows "\<exists>v'. vec_set v i p = Inr (if i < length xs then xs ! i else None, v') \<and> vec_holds v' (xs[i := p])"
proof (cases "i < length xs")
  case True
  obtain rest where r: "v_data v = map Ptr xs @ rest" using assms by (auto simp: vec_holds_iff)
  then have "(v_data v)[i := Ptr p] = map Ptr (xs[i := p]) @ rest"
    using True by (simp add: list_update_append map_update)
  moreover have "length xs + length rest = v_cap v" using r assms by (auto simp: vec_holds_iff)
  ultimately have "vec_holds (v\<lparr>v_data := (v_data v)[i := Ptr p]\<rparr>) (xs[i := p])"
    using assms unfolding vec_holds_iff by simp
  then show ?thesis using True assms cell_at_holds [OF assms True] by (simp add: vec_set_def vec_holdsD(1))
next
  case False
  then have "xs[i := p] = xs" by (simp add: list_update_beyond)
  then show ?thesis using False assms by (simp add: vec_set_def vec_holdsD(1))
qed

lemma vec_insert_holds:
  assumes "vec_holds v xs" and "length xs < 2 ^ 60" and "i \<le> length xs"
  shows "\<exists>v'. vec_insert v i (Some p) = Inr v' \<and> vec_holds v' (take i xs @ Some p # drop i xs)"
proof -
  obtain v1 where v1: "(if v_len v = v_cap v then vec_grow v (v_cap v + 1) else Inr v) = Inr v1"
    "vec_holds v1 xs" "length xs < v_cap v1" using room_holds [OF assms(1,2)] by blast
  obtain rest where r: "v_data v1 = map Ptr xs @ rest" "rest \<noteq> []"
    using v1(2,3) by (fastforce simp: vec_holds_iff)
  obtain ys zs where xs: "xs = ys @ zs" "length ys = i" using assms(3) by (metis append_take_drop_id length_take min.absorb2)
  obtain c rest' where "rest = c # rest'" using r by (cases rest) auto
  have sl: "slice (v_data v1) i (v_len v1 - i) = map Ptr zs"
    using r(1) xs vec_holdsD(1) [OF v1(2)] by (simp add: slice_def)
  have "blit (v_data v1) (i + 1) (map Ptr zs) = map Ptr ys @ hd (map Ptr zs @ [c]) # map Ptr zs @ rest'"
    using r(1) xs \<open>rest = c # rest'\<close> by (cases zs) (simp_all add: blit_def)
  then have d: "(blit (v_data v1) (i + 1) (slice (v_data v1) i (v_len v1 - i)))[i := Ptr (Some p)] =
      map Ptr (ys @ Some p # zs) @ rest'"
    using xs(2) sl by (simp add: list_update_append)
  let ?v = "v1\<lparr>v_data := map Ptr (ys @ Some p # zs) @ rest', v_len := v_len v1 + 1\<rparr>"
  have "vec_insert v i (Some p) = Inr ?v"
    using assms(3) v1(1) vec_holdsD(1) [OF assms(1)] d by (simp add: vec_insert_def Let_def)
  moreover have "vec_holds ?v (ys @ Some p # zs)"
    using v1(2) r xs \<open>rest = c # rest'\<close> unfolding vec_holds_iff by simp
  ultimately show ?thesis using xs by auto
qed

lemma vec_remove_holds:
  assumes "vec_holds v xs" and "i < length xs"
  shows "\<exists>v'. vec_remove v i = Inr (xs ! i, v') \<and> vec_holds v' (take i xs @ drop (Suc i) xs) \<and> v_owns v' = v_owns v"
proof -
  obtain ys y zs where xs: "xs = ys @ y # zs" "length ys = i"
    using id_take_nth_drop [OF assms(2)] assms(2) by (metis length_take min.absorb2 less_imp_le)
  obtain rest where r: "v_data v = map Ptr xs @ rest" using assms(1) by (auto simp: vec_holds_iff)
  have "cell_at (v_data v) i = Inr y" using cell_at_holds [OF assms] xs by (simp add: nth_append)
  moreover have "i < length xs - 1 \<Longrightarrow> blit (v_data v) i (slice (v_data v) (i + 1) (length xs - 1 - i)) =
      map Ptr (ys @ zs) @ (case rev zs of [] \<Rightarrow> [] | l # _ \<Rightarrow> [Ptr l]) @ rest"
    using r xs by (cases zs rule: rev_cases) (auto simp: blit_def slice_def)
  moreover have "\<not> i < length xs - 1 \<Longrightarrow> zs = []" using xs by simp
  ultimately show ?thesis
    using assms r xs by (auto simp: vec_remove_def vec_holds_iff Let_def nth_append split: list.splits)
qed

lemma vec_swap_remove_holds:
  assumes "vec_holds v xs" and "i < length xs"
  shows "\<exists>v'. vec_swap_remove v i = Inr (xs ! i, v') \<and> vec_holds v' (butlast (xs[i := last xs]))"
proof -
  obtain ys y where xs: "xs = ys @ [y]" using assms(2) by (cases xs rule: rev_cases) auto
  obtain rest where r: "v_data v = map Ptr xs @ rest" using assms(1) by (auto simp: vec_holds_iff)
  have "cell_at (v_data v) (length ys) = Inr y" using cell_at_holds [OF assms(1), of "length ys"] xs by simp
  then show ?thesis
    using assms cell_at_holds [OF assms] r xs
    by (cases "i < length ys") (auto simp: vec_swap_remove_def vec_holds_iff list_update_append map_update nth_append butlast_append)
qed

lemma pad_null_holds:
  "vec_holds v xs \<Longrightarrow> length xs + k \<le> v_cap v \<Longrightarrow> \<exists>v'. pad_null k v = Inr v' \<and> vec_holds v' (xs @ replicate k None)"
proof (induction k arbitrary: v xs)
  case (Suc k)
  then obtain v1 where v1: "append_cell v None = Inr v1" "vec_holds v1 (xs @ [None])" "v_cap v1 = v_cap v"
    using append_cell_holds [of v xs None] by auto
  with Suc.IH [OF v1(2)] Suc.prems show ?case by (auto simp: replicate_append_same [symmetric])
qed simp

lemma vec_resize_holds:
  assumes "vec_holds v xs" and "n \<le> 2 ^ 60"
  shows "\<exists>v'. vec_resize v n = Inr v' \<and> vec_holds v' (xs @ replicate (n - length xs) None)"
proof (cases "n \<le> length xs")
  case True
  then show ?thesis using assms by (auto simp: vec_resize_def vec_holdsD(1))
next
  case False
  obtain v1 where v1: "(if n > v_cap v then vec_grow v n else Inr v) = Inr v1" "vec_holds v1 xs" "n \<le> v_cap v1"
    using vec_grow_holds [OF assms] assms(1) by (cases "n > v_cap v") auto
  from pad_null_holds [OF v1(2), of "n - length xs"] v1 False assms(1) show ?thesis
    by (auto simp: vec_resize_def vec_holdsD(1))
qed

lemma vec_reserve_holds:
  assumes "vec_holds v xs" and "length xs + k \<le> 2 ^ 60"
  shows "\<exists>v'. vec_reserve v k = Inr v' \<and> vec_holds v' xs \<and> length xs + k \<le> v_cap v' \<or> k = 0 \<and> vec_reserve v k = Inr v"
  using vec_grow_holds [OF assms] assms by (auto simp: vec_reserve_def vec_holdsD(1) Let_def)

lemma vec_shrink_holds: "vec_holds v xs \<Longrightarrow> vec_holds (vec_shrink_to_fit v) xs \<and> v_cap (vec_shrink_to_fit v) = length xs"
  by (auto simp: vec_shrink_to_fit_def vec_holds_iff blit_def)

lemma clone_cells_ptrs: "clone_cells owns cl (map Ptr xs) = Inr (map Ptr (if owns then map (map_option cl) xs else xs))"
  by (induction xs) auto

lemma vec_clone_holds:
  assumes "vec_holds v xs"
  shows "\<exists>v'. vec_clone cl v = Inr v' \<and> vec_holds v' (if v_owns v then map (map_option cl) xs else xs) \<and> v_cap v' = length xs"
  using assms by (auto simp: vec_clone_def vec_holds_def clone_cells_ptrs)

lemma vec_dispose_holds:
  assumes "vec_holds v xs"
  shows "fst (vec_dispose v) = (if v_owns v then map the (filter (\<lambda>p. p \<noteq> None) xs) else [])"
proof -
  have "concat (map (\<lambda>c. case c of Ptr (Some p) \<Rightarrow> [p] | _ \<Rightarrow> []) (map Ptr xs)) = map the (filter (\<lambda>p. p \<noteq> None) xs)"
    by (induction xs) (auto split: option.splits)
  then show ?thesis using assms by (simp add: vec_dispose_def vec_holds_def)
qed

section \<open>Properties\<close>

text \<open>
  C11 (functional, safety). The operations that change elements refine the list operations, for a
  vector of fewer than \<open>2 ^ 60\<close> elements (the address space): pushing appends (a \<open>NULL\<close> is ignored),
  popping takes the last element, inserting and removing shift the tail, \<open>swap_remove\<close> moves the
  last element into the gap, setting replaces; none reads a cell that was never written.
\<close>

theorem vec_updates:
  assumes "vec_holds v xs" and "length xs < 2 ^ 60"
  shows "(\<exists>v'. vec_push v (Some p) = Inr v' \<and> vec_holds v' (xs @ [Some p])) \<and> vec_push v None = Inr v \<and>
    (\<exists>v'. vec_pop v = Inr (if xs = [] then None else last xs, v') \<and> vec_holds v' (butlast xs)) \<and>
    (\<exists>v'. vec_set v i q = Inr (if i < length xs then xs ! i else None, v') \<and> vec_holds v' (xs[i := q])) \<and>
    (if i \<le> length xs then \<exists>v'. vec_insert v i (Some p) = Inr v' \<and> vec_holds v' (take i xs @ Some p # drop i xs)
     else vec_insert v i (Some p) = Inl (Panic ''vec_insert: index out of bounds'')) \<and>
    (if i < length xs then
       (\<exists>v'. vec_remove v i = Inr (xs ! i, v') \<and> vec_holds v' (take i xs @ drop (Suc i) xs)) \<and>
       (\<exists>v'. vec_swap_remove v i = Inr (xs ! i, v') \<and> vec_holds v' (butlast (xs[i := last xs])))
     else vec_remove v i = Inr (None, v) \<and> vec_swap_remove v i = Inr (None, v))"
proof (intro conjI)
  show "\<exists>v'. vec_push v (Some p) = Inr v' \<and> vec_holds v' (xs @ [Some p])"
    using vec_push_holds [OF assms, of p] by blast
  show "vec_push v None = Inr v" by (simp add: vec_push_def)
  show "\<exists>v'. vec_pop v = Inr (if xs = [] then None else last xs, v') \<and> vec_holds v' (butlast xs)"
    by (rule vec_pop_holds [OF assms(1)])
  show "\<exists>v'. vec_set v i q = Inr (if i < length xs then xs ! i else None, v') \<and> vec_holds v' (xs[i := q])"
    by (rule vec_set_holds [OF assms(1)])
  show "if i \<le> length xs then \<exists>v'. vec_insert v i (Some p) = Inr v' \<and> vec_holds v' (take i xs @ Some p # drop i xs)
     else vec_insert v i (Some p) = Inl (Panic ''vec_insert: index out of bounds'')"
    using vec_insert_holds [OF assms, of i p] vec_holdsD(1) [OF assms(1)]
    by (cases "i \<le> length xs") (simp_all add: vec_insert_def)
  show "if i < length xs then
       (\<exists>v'. vec_remove v i = Inr (xs ! i, v') \<and> vec_holds v' (take i xs @ drop (Suc i) xs)) \<and>
       (\<exists>v'. vec_swap_remove v i = Inr (xs ! i, v') \<and> vec_holds v' (butlast (xs[i := last xs])))
     else vec_remove v i = Inr (None, v) \<and> vec_swap_remove v i = Inr (None, v)"
    using vec_remove_holds [OF assms(1), of i] vec_swap_remove_holds [OF assms(1), of i] vec_holdsD(1) [OF assms(1)]
    by (cases "i < length xs") (auto simp: vec_remove_def vec_swap_remove_def)
qed

lemma vec_updates_witness:
  "\<exists>v'. vec_push \<lparr>v_data = [], v_len = 0, v_cap = 0, v_owns = False\<rparr> (Some (3::nat)) = Inr v' \<and> vec_holds v' [Some 3]"
proof -
  have "vec_holds \<lparr>v_data = [], v_len = 0, v_cap = 0, v_owns = False\<rparr> []" by (simp add: vec_holds_def)
  from vec_updates [OF this, of "3::nat"] show ?thesis by simp
qed

text \<open>
  C12 (functional). Reading, reserving, shrinking, resizing, cloning and disposing: reads give the
  elements and \<open>NULL\<close> out of range, the capacity operations keep the list, resizing pads it with
  \<open>NULL\<close>, the clone holds the elements or their clones in an array of exactly their number, and
  disposal frees the elements that are not \<open>NULL\<close> once each if the vector owns them.
\<close>

theorem vec_reads_and_capacity:
  assumes "vec_holds v xs" and "length xs + k \<le> 2 ^ 60"
  shows "vec_get v i = Inr (if i < length xs then xs ! i else None) \<and>
    vec_first v = Inr (if xs = [] then None else hd xs) \<and> vec_last v = Inr (if xs = [] then None else last xs) \<and>
    (\<exists>v'. vec_reserve v k = Inr v' \<and> vec_holds v' xs \<and> length xs + k \<le> v_cap v') \<and>
    vec_holds (vec_shrink_to_fit v) xs \<and> v_cap (vec_shrink_to_fit v) = length xs \<and>
    (\<exists>v'. vec_resize v (length xs + k) = Inr v' \<and> vec_holds v' (xs @ replicate k None)) \<and>
    (\<exists>v'. vec_clone cl v = Inr v' \<and> vec_holds v' (if v_owns v then map (map_option cl) xs else xs)) \<and>
    fst (vec_dispose v) = (if v_owns v then map the (filter (\<lambda>p. p \<noteq> None) xs) else [])"
proof -
  have "length xs \<le> v_cap v" using assms(1) by (simp add: vec_holds_def)
  then have "\<exists>v'. vec_reserve v k = Inr v' \<and> vec_holds v' xs \<and> length xs + k \<le> v_cap v'"
    using vec_reserve_holds [OF assms] assms(1) by auto
  moreover have "\<exists>v'. vec_resize v (length xs + k) = Inr v' \<and> vec_holds v' (xs @ replicate k None)"
    using vec_resize_holds [OF assms] by simp
  moreover have "\<exists>v'. vec_clone cl v = Inr v' \<and> vec_holds v' (if v_owns v then map (map_option cl) xs else xs)"
    using vec_clone_holds [OF assms(1), of cl] by blast
  ultimately show ?thesis
    using vec_shrink_holds [OF assms(1)]
    by (intro conjI vec_get_holds [OF assms(1)] vec_ends_hold [OF assms(1)] vec_dispose_holds [OF assms(1)]) blast+
qed

lemma vec_reads_and_capacity_witness:
  "\<exists>v'. vec_resize \<lparr>v_data = [Ptr (Some 3), Junk], v_len = 1, v_cap = 2, v_owns = False\<rparr> 3 = Inr v' \<and>
     vec_holds v' [Some (3::nat), None, None]"
proof -
  let ?v = "\<lparr>v_data = [Ptr (Some 3), Junk], v_len = 1, v_cap = 2, v_owns = False\<rparr> :: nat vec"
  have h: "vec_holds ?v [Some 3]"
    by (simp add: vec_holds_def size_max_def sizeof_ptr_def)
  have b: "length [Some (3::nat)] + 2 \<le> 2 ^ 60" by simp
  note r = vec_reads_and_capacity [OF h b, of 0 id]
  have "\<exists>v'. vec_resize ?v (length [Some (3::nat)] + 2) = Inr v' \<and> vec_holds v' ([Some 3] @ replicate 2 None)"
    using r by (elim conjE)
  moreover have "length [Some (3::nat)] + 2 = 3" "[Some (3::nat)] @ replicate 2 None = [Some 3, None, None]"
    by (simp_all add: numeral_2_eq_2)
  ultimately show ?thesis by (simp only:)
qed

end
