(* ===== verification/StrMap.thy ===== *)
theory StrMap
  imports RBTreeStore Vec
begin

text \<open>
  The string-keyed map of \<open>src/core/strmap.c\<close>, a client of the red-black tree and of the vector. The
  tree holds addresses of entries, an entry holds the address of its key string and the value; the
  key vector holds the same key addresses in insertion order. All the memory of a map is in one
  record: the nodes, entries and strings that are live, and the next address the allocator gives.
  A freed object is gone from its map, so using it is a fault.
\<close>

section \<open>Memory and state\<close>

record 'v sm_entry =
  e_key :: addr
  e_value :: "'v option"

record 'v sm_mem =
  m_nodes :: "addr rb_heap"
  m_entries :: "addr \<rightharpoonup> 'v sm_entry"
  m_strs :: "addr \<rightharpoonup> string"
  m_next :: addr

record strmap =
  sm_tree :: "addr rbtree"
  sm_keys :: "addr vec"
  sm_owns_value :: bool

text \<open>\<open>strcmp\<close>: the first differing byte decides, as an unsigned value; the end of a string is 0.\<close>

fun strcmp :: "string \<Rightarrow> string \<Rightarrow> int" where
  "strcmp [] [] = 0"
| "strcmp [] (d # ds) = - 1"
| "strcmp (c # cs) [] = 1"
| "strcmp (c # cs) (d # ds) = (if c = d then strcmp cs ds else of_char c - of_char d)"

definition entry_key :: "'v sm_mem \<Rightarrow> addr \<Rightarrow> addr" where
  "entry_key mem e = e_key (the (m_entries mem e))"

definition entry_str :: "'v sm_mem \<Rightarrow> addr \<Rightarrow> string" where
  "entry_str mem e = the (m_strs mem (entry_key mem e))"

text \<open>The comparison function of the tree reads the keys from memory at the time of the call.\<close>

definition entry_cmp :: "'v sm_mem \<Rightarrow> addr \<Rightarrow> addr \<Rightarrow> int" where
  "entry_cmp mem a b = strcmp (entry_str mem a) (entry_str mem b)"

definition tree_now :: "'v sm_mem \<Rightarrow> strmap \<Rightarrow> addr rbtree" where
  "tree_now mem m = (sm_tree m)\<lparr>rb_cmp := entry_cmp mem\<rparr>"

definition of_opt :: "'a option \<Rightarrow> 'a result" where
  "of_opt x = (case x of None \<Rightarrow> Inl (Undefined ''bad pointer'') | Some y \<Rightarrow> Inr y)"

section \<open>Operations\<close>

definition key_dup :: "'v sm_mem \<Rightarrow> string \<Rightarrow> addr \<times> 'v sm_mem" where
  "key_dup mem src = (m_next mem, mem\<lparr>m_strs := (m_strs mem)(m_next mem \<mapsto> src), m_next := m_next mem + 1\<rparr>)"

definition key_free :: "'v sm_mem \<Rightarrow> addr \<Rightarrow> 'v sm_mem result" where
  "key_free mem k = (if m_strs mem k = None then Inl (Undefined ''double free'')
     else Inr (mem\<lparr>m_strs := (m_strs mem)(k := None)\<rparr>))"

definition entry_new :: "'v sm_mem \<Rightarrow> addr \<Rightarrow> 'v option \<Rightarrow> addr \<times> 'v sm_mem" where
  "entry_new mem k v = (m_next mem, mem\<lparr>m_entries := (m_entries mem)(m_next mem \<mapsto> \<lparr>e_key = k, e_value = v\<rparr>),
     m_next := m_next mem + 1\<rparr>)"

definition strmap_new :: "'v sm_mem \<Rightarrow> bool \<Rightarrow> strmap result" where
  "strmap_new mem owns_value = (case vec_new False of Inl f \<Rightarrow> Inl f
     | Inr ks \<Rightarrow> Inr \<lparr>sm_tree = rbtree_new (entry_cmp mem) False, sm_keys = ks, sm_owns_value = owns_value\<rparr>)"

definition strmap_insert :: "'v sm_mem \<Rightarrow> strmap \<Rightarrow> string \<Rightarrow> 'v option
    \<Rightarrow> ('v option \<times> 'v sm_mem \<times> strmap) result" where
  "strmap_insert mem m key value =
     (let (key_copy, mem) = key_dup mem key;
          (entry, mem) = entry_new mem key_copy value;
          node = m_next mem;
          mem = mem\<lparr>m_next := m_next mem + 1\<rparr> in
      case of_opt (rbtree_insert (m_nodes mem) (tree_now mem m) node (Some entry)) of Inl f \<Rightarrow> Inl f
      | Inr (old_element, nodes, tree) \<Rightarrow>
        let mem = mem\<lparr>m_nodes := nodes\<rparr>; m = m\<lparr>sm_tree := tree\<rparr> in
        (case old_element of
          Some old_entry \<Rightarrow>
            (case m_entries mem old_entry of None \<Rightarrow> Inl (Undefined ''bad pointer'')
             | Some oe \<Rightarrow>
               let mem = mem\<lparr>m_entries := (m_entries mem)(entry \<mapsto> \<lparr>e_key = e_key oe, e_value = value\<rparr>)\<rparr>;
                   mem = mem\<lparr>m_entries := (m_entries mem)(old_entry := None)\<rparr> in
               case key_free mem key_copy of Inl f \<Rightarrow> Inl f
               | Inr mem \<Rightarrow> Inr (e_value oe, mem, m))
        | None \<Rightarrow>
            (case vec_push (sm_keys m) (Some key_copy) of Inl f \<Rightarrow> Inl f
             | Inr ks \<Rightarrow> Inr (None, mem, m\<lparr>sm_keys := ks\<rparr>))))"

text \<open>
  Lookups build a search entry on the stack whose key is the caller's string: both get addresses
  of their own, and are gone when the call returns.
\<close>

definition with_search :: "'v sm_mem \<Rightarrow> string \<Rightarrow> addr \<times> 'v sm_mem" where
  "with_search mem key = (m_next mem, mem\<lparr>m_entries := (m_entries mem)(m_next mem \<mapsto> \<lparr>e_key = m_next mem + 1, e_value = None\<rparr>),
     m_strs := (m_strs mem)(m_next mem + 1 \<mapsto> key)\<rparr>)"

fun remove_from :: "nat \<Rightarrow> nat \<Rightarrow> addr vec \<Rightarrow> addr \<Rightarrow> addr vec result" where
  "remove_from 0 i ks key = Inr ks"
| "remove_from (Suc n) i ks key =
     (case vec_get ks i of Inl f \<Rightarrow> Inl f
      | Inr p \<Rightarrow> if p = Some key then (case vec_remove ks i of Inl f \<Rightarrow> Inl f | Inr (_, ks) \<Rightarrow> Inr ks)
                 else remove_from n (Suc i) ks key)"

definition remove_key_from_vec :: "addr vec \<Rightarrow> addr \<Rightarrow> addr vec result" where
  "remove_key_from_vec ks key = remove_from (v_len ks) 0 ks key"

definition strmap_remove :: "'v sm_mem \<Rightarrow> strmap \<Rightarrow> string \<Rightarrow> ('v option \<times> 'v sm_mem \<times> strmap) result" where
  "strmap_remove mem m key =
     (let (search, smem) = with_search mem key in
      case of_opt (rbtree_find (m_nodes mem) (tree_now smem m) (Some search)) of Inl f \<Rightarrow> Inl f
      | Inr None \<Rightarrow> Inr (None, mem, m)
      | Inr (Some found) \<Rightarrow>
        (case m_entries mem found of None \<Rightarrow> Inl (Undefined ''bad pointer'')
         | Some fe \<Rightarrow>
          (case of_opt (rbtree_remove (m_nodes mem) (tree_now smem m) (Some search)) of Inl f \<Rightarrow> Inl f
           | Inr (None, _, _) \<Rightarrow> Inr (None, mem, m)
           | Inr (Some removed, nodes, tree) \<Rightarrow>
             (case remove_key_from_vec (sm_keys m) (e_key fe) of Inl f \<Rightarrow> Inl f
              | Inr ks \<Rightarrow>
                (case key_free (mem\<lparr>m_nodes := nodes\<rparr>) (entry_key mem removed) of Inl f \<Rightarrow> Inl f
                 | Inr mem \<Rightarrow> Inr (e_value fe, mem\<lparr>m_entries := (m_entries mem)(removed := None)\<rparr>,
                     m\<lparr>sm_tree := tree, sm_keys := ks\<rparr>))))))"

definition strmap_get :: "'v sm_mem \<Rightarrow> strmap \<Rightarrow> string \<Rightarrow> 'v option result" where
  "strmap_get mem m key =
     (let (search, smem) = with_search mem key in
      case of_opt (rbtree_find (m_nodes mem) (tree_now smem m) (Some search)) of Inl f \<Rightarrow> Inl f
      | Inr None \<Rightarrow> Inr None
      | Inr (Some found) \<Rightarrow> (case m_entries mem found of None \<Rightarrow> Inl (Undefined ''bad pointer'')
          | Some fe \<Rightarrow> Inr (e_value fe)))"

definition strmap_contains :: "'v sm_mem \<Rightarrow> strmap \<Rightarrow> string \<Rightarrow> bool result" where
  "strmap_contains mem m key =
     (let (search, smem) = with_search mem key in
      case of_opt (rbtree_find (m_nodes mem) (tree_now smem m) (Some search)) of Inl f \<Rightarrow> Inl f
      | Inr r \<Rightarrow> Inr (r \<noteq> None))"

definition strmap_size :: "strmap \<Rightarrow> nat" where
  "strmap_size m = rb_size (sm_tree m)"

definition strmap_is_empty :: "strmap \<Rightarrow> bool" where
  "strmap_is_empty m \<longleftrightarrow> rbtree_is_empty (sm_tree m)"

text \<open>
  Disposal: the visitor frees the key, hands an owned value to \<open>allocator_free\<close> and frees the
  entry; then the tree frees its nodes, and the vector its array. The result names the values
  freed, in order.
\<close>

definition dispose_entry :: "bool \<Rightarrow> addr \<Rightarrow> ('v list \<times> 'v sm_mem) result \<Rightarrow> ('v list \<times> 'v sm_mem) result" where
  "dispose_entry owns_value e ctx =
     (case ctx of Inl f \<Rightarrow> Inl f
      | Inr (freed, mem) \<Rightarrow>
        (case m_entries mem e of None \<Rightarrow> Inl (Undefined ''bad pointer'')
         | Some en \<Rightarrow>
           (case (if e_key en = 0 then Inr mem else key_free mem (e_key en)) of Inl f \<Rightarrow> Inl f
            | Inr mem \<Rightarrow>
              Inr (freed @ (if owns_value then (case e_value en of None \<Rightarrow> [] | Some v \<Rightarrow> [v]) else []),
                   mem\<lparr>m_entries := (m_entries mem)(e := None)\<rparr>))))"

definition strmap_dispose :: "'v sm_mem \<Rightarrow> strmap \<Rightarrow> ('v list \<times> 'v sm_mem) result" where
  "strmap_dispose mem m =
     (case of_opt (rbtree_foreach (m_nodes mem) (sm_tree m) (dispose_entry (sm_owns_value m)) (Inr ([], mem))) of
        Inl f \<Rightarrow> Inl f
      | Inr (Inl f) \<Rightarrow> Inl f
      | Inr (Inr (freed, mem)) \<Rightarrow>
        (case of_opt (rbtree_dispose (m_nodes mem) (sm_tree m)) of Inl f \<Rightarrow> Inl f
         | Inr (_, nodes, _) \<Rightarrow> Inr (freed, mem\<lparr>m_nodes := nodes\<rparr>)))"

text \<open>
  Cloning inserts every entry of the source, in the order of the keys, into a new map; here the
  copy's memory is a record of its own, and \<open>cl\<close> is \<open>allocator_clone\<close> of a value.
\<close>

definition clone_entry :: "('v \<Rightarrow> 'v) \<Rightarrow> bool \<Rightarrow> 'v sm_mem \<Rightarrow> addr \<Rightarrow> ('v sm_mem \<times> strmap) result
    \<Rightarrow> ('v sm_mem \<times> strmap) result" where
  "clone_entry cl owns_value src e ctx =
     (case ctx of Inl f \<Rightarrow> Inl f
      | Inr (mem, m) \<Rightarrow>
        (case m_entries src e of None \<Rightarrow> Inl (Undefined ''bad pointer'')
         | Some en \<Rightarrow>
           (case m_strs src (e_key en) of None \<Rightarrow> Inl (Undefined ''bad pointer'')
            | Some s \<Rightarrow>
              (case strmap_insert mem m s (if owns_value then map_option cl (e_value en) else e_value en) of
                 Inl f \<Rightarrow> Inl f | Inr (_, mem, m) \<Rightarrow> Inr (mem, m)))))"

definition strmap_clone :: "('v \<Rightarrow> 'v) \<Rightarrow> 'v sm_mem \<Rightarrow> 'v sm_mem \<Rightarrow> strmap \<Rightarrow> ('v sm_mem \<times> strmap) result" where
  "strmap_clone cl mem src_mem src =
     (case strmap_new mem (sm_owns_value src) of Inl f \<Rightarrow> Inl f
      | Inr dst \<Rightarrow>
        (case of_opt (rbtree_foreach (m_nodes src_mem) (sm_tree src) (clone_entry cl (sm_owns_value src) src_mem) (Inr (mem, dst))) of
           Inl f \<Rightarrow> Inl f | Inr r \<Rightarrow> r))"



section \<open>The order of strings\<close>

lemma strcmp_0: "strcmp s t = 0 \<longleftrightarrow> s = t"
  by (induction s t rule: strcmp.induct) (auto simp: of_char_int_eq)

lemma strcmp_flip: "strcmp s t < 0 \<longleftrightarrow> strcmp t s > 0"
  by (induction s t rule: strcmp.induct) auto

lemma strcmp_le_Cons: "strcmp (c # cs) (d # ds) \<le> 0 \<longleftrightarrow>
    (of_char c :: int) < of_char d \<or> c = d \<and> strcmp cs ds \<le> 0"
  using of_char_int_eq [of c d] by (cases "c = d") (auto simp: order_le_less)

lemma strcmp_trans: "strcmp s t \<le> 0 \<Longrightarrow> strcmp t u \<le> 0 \<Longrightarrow> strcmp s u \<le> 0"
proof (induction s t arbitrary: u rule: strcmp.induct)
  case 1
  then show ?case by simp
next
  case (2 d ds)
  then show ?case by (cases u) auto
next
  case (3 c cs)
  then show ?case by simp
next
  case (4 c cs d ds)
  obtain x xs where u: "u = x # xs" using "4.prems"(2) by (cases u) auto
  with 4 show ?case unfolding u strcmp_le_Cons by auto
qed

lemma strcmp_order: "cmp_order (\<lambda>a b. strcmp (f a) (f b))"
  unfolding cmp_order_def using strcmp_0 strcmp_flip strcmp_trans by blast

interpretation strs: total_cmp "entry_cmp mem" for mem
  by unfold_locales (simp add: entry_cmp_def [abs_def] strcmp_order)

lemma entry_order: "cmp_order (entry_cmp mem)"
  by (rule strs.order)

lemma entry_cmp_0: "entry_cmp mem a b = 0 \<longleftrightarrow> entry_str mem a = entry_str mem b"
  by (simp add: entry_cmp_def strcmp_0)

section \<open>Representation\<close>

lemma holds_cong:
  assumes "holds h t xs A" and "\<And>a b. a \<in> set xs \<Longrightarrow> b \<in> set xs \<Longrightarrow> cmp a b = rb_cmp t a b"
  shows "holds h (t\<lparr>rb_cmp := cmp\<rparr>) xs A"
proof -
  from assms(1) obtain T where T: "rb_rep h t T" "inorder T = xs" "set (addrs T) = A" by (auto simp: holds_def)
  then have "increasing cmp xs"
    using assms(2) by (auto simp: rb_rep_def increasing_def elim!: sorted_wrt_mono_rel [rotated])
  with T show ?thesis unfolding holds_def rb_rep_def by (intro exI [of _ T]) simp
qed

lemma holds_dom: "holds h t xs A \<Longrightarrow> A \<subseteq> dom h"
proof -
  have "tree_in h p T \<Longrightarrow> a \<in> set (addrs T) \<Longrightarrow> h a \<noteq> None" for p a and T :: "'a rtree"
    by (induction T arbitrary: p) auto
  then show "holds h t xs A \<Longrightarrow> A \<subseteq> dom h"
    unfolding holds_def rb_rep_def zip_in_root by blast
qed

text \<open>
  \<open>sm_rep mem m es A ps\<close>: the tree holds the entries \<open>es\<close> in the order of their keys, in the nodes
  \<open>A\<close>; the key vector is \<open>ps\<close>, the keys of the entries, each once. The memory is exactly these nodes,
  entries and strings: nothing leaks and nothing dangles.
\<close>

definition sm_rep :: "'v sm_mem \<Rightarrow> strmap \<Rightarrow> addr list \<Rightarrow> addr set \<Rightarrow> addr list \<Rightarrow> bool" where
  "sm_rep mem m es A ps \<longleftrightarrow>
     holds (m_nodes mem) (tree_now mem m) es A \<and> dom (m_nodes mem) = A \<and> dom (m_entries mem) = set es \<and>
     vec_holds (sm_keys m) (map Some ps) \<and> distinct ps \<and> bij_betw (entry_key mem) (set es) (set ps) \<and>
     dom (m_strs mem) = set ps \<and> (\<forall>a \<in> A \<union> set es \<union> set ps. 0 < a \<and> a < m_next mem) \<and> 0 < m_next mem \<and>
     \<not> rb_owns (sm_tree m)"

definition sm_lookup :: "'v sm_mem \<Rightarrow> addr list \<Rightarrow> string \<Rightarrow> 'v option option" where
  "sm_lookup mem es s = map_option (\<lambda>e. e_value (the (m_entries mem e))) (find (\<lambda>e. entry_str mem e = s) es)"

text \<open>
  \<open>sm_holds mem m M ks\<close>: the map holds the bindings \<open>M\<close> (a value may be \<open>NULL\<close>), and its key vector
  the strings \<open>ks\<close>.
\<close>

definition sm_holds :: "'v sm_mem \<Rightarrow> strmap \<Rightarrow> (string \<rightharpoonup> 'v option) \<Rightarrow> string list \<Rightarrow> bool" where
  "sm_holds mem m M ks \<longleftrightarrow> (\<exists>es A ps. sm_rep mem m es A ps \<and> M = sm_lookup mem es \<and>
     ks = map (\<lambda>p. the (m_strs mem p)) ps)"

lemma list_find_entry: "list_find (entry_cmp mem) x es = find (\<lambda>e. entry_str mem e = entry_str mem x) es"
  unfolding list_find_def entry_cmp_0 by (metis (no_types, lifting))

lemma increasing_inj: "increasing (entry_cmp mem) es \<Longrightarrow> distinct es \<and> inj_on (entry_str mem) (set es)"
proof (induction es)
  case (Cons a es)
  have "entry_str mem a \<noteq> entry_str mem b" if "b \<in> set es" for b
    using Cons.prems that entry_cmp_0 [of mem a b] by (auto simp: increasing_def)
  with Cons show ?case by (auto simp: increasing_def)
qed simp

lemma sm_rep_inj:
  assumes "sm_rep mem m es A ps"
  shows "distinct es \<and> inj_on (entry_str mem) (set es)"
proof -
  have "holds (m_nodes mem) (tree_now mem m) es A" using assms by (simp add: sm_rep_def)
  from holds_increasing [OF this] show ?thesis by (intro increasing_inj) (simp add: tree_now_def)
qed

lemma find_inj: "inj_on f (set xs) \<Longrightarrow> find (\<lambda>e. f e = s) xs = Some e \<longleftrightarrow> e \<in> set xs \<and> f e = s"
  by (induction xs) auto

lemma sm_lookup_iff:
  assumes "sm_rep mem m es A ps"
  shows "sm_lookup mem es s = Some v \<longleftrightarrow> (\<exists>e \<in> set es. entry_str mem e = s \<and> e_value (the (m_entries mem e)) = v)"
proof -
  have "find (\<lambda>e. entry_str mem e = s) es = Some e \<longleftrightarrow> e \<in> set es \<and> entry_str mem e = s" for e
    by (rule find_inj [OF conjunct2 [OF sm_rep_inj [OF assms]]])
  then show ?thesis by (auto simp: sm_lookup_def)
qed

lemma sm_lookup_None: "sm_lookup mem es s = None \<longleftrightarrow> (\<forall>e \<in> set es. entry_str mem e \<noteq> s)"
  by (auto simp: sm_lookup_def find_None_iff)

text \<open>The search entry compares like its key, the entries of the map as before.\<close>

lemma with_search_str:
  assumes "sm_rep mem m es A ps" and "with_search mem s = (x, smem)"
  shows "entry_str smem x = s" and "e \<in> set es \<Longrightarrow> entry_str smem e = entry_str mem e" and "x \<notin> set es"
proof -
  have s: "x = m_next mem" "smem = mem\<lparr>m_entries := (m_entries mem)(m_next mem \<mapsto> \<lparr>e_key = m_next mem + 1, e_value = None\<rparr>),
     m_strs := (m_strs mem)(m_next mem + 1 \<mapsto> s)\<rparr>" using assms(2) by (auto simp: with_search_def)
  show "x \<notin> set es" using assms(1) s by (auto simp: sm_rep_def)
  show "entry_str smem x = s" using s by (simp add: entry_str_def entry_key_def)
  assume e: "e \<in> set es"
  then have "entry_key mem e \<in> set ps" "e < m_next mem" using assms(1) by (auto simp: sm_rep_def bij_betw_def)
  moreover have "\<forall>p \<in> set ps. p < m_next mem" using assms(1) by (auto simp: sm_rep_def)
  ultimately have "entry_key mem e \<noteq> m_next mem + 1" "e \<noteq> m_next mem" by auto
  then show "entry_str smem e = entry_str mem e" using s by (simp add: entry_str_def entry_key_def)
qed

lemma search_holds:
  assumes "sm_rep mem m es A ps" and "with_search mem s = (x, smem)"
  shows "holds (m_nodes mem) (tree_now smem m) es A"
proof -
  have "holds (m_nodes mem) ((tree_now mem m)\<lparr>rb_cmp := entry_cmp smem\<rparr>) es A"
    using assms(1) with_search_str(2) [OF assms]
    by (intro holds_cong) (auto simp: sm_rep_def tree_now_def entry_cmp_def)
  then show ?thesis by (simp add: tree_now_def)
qed

lemma search_find:
  assumes "sm_rep mem m es A ps" and "with_search mem s = (x, smem)"
  shows "rbtree_find (m_nodes mem) (tree_now smem m) (Some x) = Some (find (\<lambda>e. entry_str mem e = s) es)"
proof -
  have "find (\<lambda>e. entry_str smem e = s) es = find (\<lambda>e. entry_str mem e = s) es"
    using with_search_str(2) [OF assms] by (induction es) auto
  moreover have "cmp_order (rb_cmp (tree_now smem m))" by (simp add: tree_now_def entry_order)
  ultimately show ?thesis
    using find_holds [OF _ search_holds [OF assms], of x] with_search_str(1) [OF assms]
    by (simp add: tree_now_def list_find_entry)
qed

lemma strmap_get_holds:
  assumes "sm_rep mem m es A ps"
  shows "strmap_get mem m s = Inr (case sm_lookup mem es s of None \<Rightarrow> None | Some v \<Rightarrow> v)"
    and "strmap_contains mem m s = Inr (sm_lookup mem es s \<noteq> None)"
proof -
  obtain x smem where s: "with_search mem s = (x, smem)" by fastforce
  note f = search_find [OF assms s]
  have "e \<in> set es \<Longrightarrow> m_entries mem e \<noteq> None" for e using assms by (auto simp: sm_rep_def)
  then have "find (\<lambda>e. entry_str mem e = s) es = Some e \<Longrightarrow> m_entries mem e \<noteq> None" for e
    by (auto simp: find_Some_iff)
  then show "strmap_get mem m s = Inr (case sm_lookup mem es s of None \<Rightarrow> None | Some v \<Rightarrow> v)"
    "strmap_contains mem m s = Inr (sm_lookup mem es s \<noteq> None)"
    using f s by (auto simp: strmap_get_def strmap_contains_def sm_lookup_def of_opt_def split: option.split)
qed

section \<open>Insertion\<close>

lemma sm_rep_key:
  assumes "sm_rep mem m es A ps" and "e \<in> set es"
  shows "entry_key mem e \<in> set ps" and "e < m_next mem" and "entry_key mem e < m_next mem"
    and "m_strs mem (entry_key mem e) = Some (entry_str mem e)"
    and "m_entries mem e = Some \<lparr>e_key = entry_key mem e, e_value = e_value (the (m_entries mem e))\<rparr>"
proof -
  show k: "entry_key mem e \<in> set ps" using assms by (auto simp: sm_rep_def bij_betw_def)
  show "e < m_next mem" "entry_key mem e < m_next mem" using assms k by (auto simp: sm_rep_def)
  have "m_strs mem (entry_key mem e) \<noteq> None" using assms(1) k by (auto simp: sm_rep_def)
  then show "m_strs mem (entry_key mem e) = Some (entry_str mem e)" by (auto simp: entry_str_def)
  have "m_entries mem e \<noteq> None" using assms by (auto simp: sm_rep_def)
  then show "m_entries mem e = Some \<lparr>e_key = entry_key mem e, e_value = e_value (the (m_entries mem e))\<rparr>"
    by (auto simp: entry_key_def)
qed

text \<open>The memory after the three allocations of an insertion.\<close>

definition insert_mem :: "'v sm_mem \<Rightarrow> string \<Rightarrow> 'v option \<Rightarrow> 'v sm_mem" where
  "insert_mem mem s v = mem\<lparr>
     m_strs := (m_strs mem)(m_next mem \<mapsto> s),
     m_entries := (m_entries mem)(m_next mem + 1 \<mapsto> \<lparr>e_key = m_next mem, e_value = v\<rparr>),
     m_next := m_next mem + 1 + 1 + 1\<rparr>"

lemma strmap_insert_eq:
  "strmap_insert mem m s v =
     (case of_opt (rbtree_insert (m_nodes mem) (tree_now (insert_mem mem s v) m) (m_next mem + 1 + 1) (Some (m_next mem + 1))) of
        Inl f \<Rightarrow> Inl f
      | Inr (Some o1, nodes, tree) \<Rightarrow>
          (let mem1 = (insert_mem mem s v)\<lparr>m_nodes := nodes\<rparr> in
           case m_entries mem1 o1 of None \<Rightarrow> Inl (Undefined ''bad pointer'')
           | Some oe \<Rightarrow> (case key_free (mem1\<lparr>m_entries := (m_entries mem1)(m_next mem + 1 \<mapsto> \<lparr>e_key = e_key oe, e_value = v\<rparr>, o1 := None)\<rparr>) (m_next mem) of
               Inl f \<Rightarrow> Inl f | Inr mem2 \<Rightarrow> Inr (e_value oe, mem2, m\<lparr>sm_tree := tree\<rparr>)))
      | Inr (None, nodes, tree) \<Rightarrow>
          (case vec_push (sm_keys m) (Some (m_next mem)) of Inl f \<Rightarrow> Inl f
           | Inr ks \<Rightarrow> Inr (None, (insert_mem mem s v)\<lparr>m_nodes := nodes\<rparr>, m\<lparr>sm_tree := tree, sm_keys := ks\<rparr>)))"
  by (simp add: strmap_insert_def key_dup_def entry_new_def insert_mem_def Let_def
      split: sum.split option.split)

lemma insert_mem_str:
  assumes "sm_rep mem m es A ps"
  shows "e \<in> set es \<Longrightarrow> entry_key (insert_mem mem s v) e = entry_key mem e"
    and "e \<in> set es \<Longrightarrow> entry_str (insert_mem mem s v) e = entry_str mem e"
    and "entry_str (insert_mem mem s v) (m_next mem + 1) = s" and "entry_key (insert_mem mem s v) (m_next mem + 1) = m_next mem"
  using sm_rep_key [OF assms, of e] by (auto simp: insert_mem_def entry_str_def entry_key_def)

lemma insert_mem_holds:
  assumes "sm_rep mem m es A ps"
  shows "holds (m_nodes mem) (tree_now (insert_mem mem s v) m) es A"
proof -
  have "holds (m_nodes mem) ((tree_now mem m)\<lparr>rb_cmp := entry_cmp (insert_mem mem s v)\<rparr>) es A"
    using assms insert_mem_str(2) [OF assms]
    by (intro holds_cong) (auto simp: sm_rep_def tree_now_def entry_cmp_def)
  then show ?thesis by (simp add: tree_now_def)
qed

lemma insert_tree:
  fixes s v
  assumes "sm_rep mem m es A ps"
  defines "mem1 \<equiv> insert_mem mem s v"
  defines "es' \<equiv> list_insert (entry_cmp mem1) (m_next mem + 1) es"
  shows "\<exists>nodes tree. rbtree_insert (m_nodes mem1) (tree_now mem1 m) (m_next mem + 1 + 1) (Some (m_next mem + 1)) =
      Some (find (\<lambda>e. entry_str mem e = s) es, nodes, tree) \<and>
    holds nodes (tree_now mem1 (m\<lparr>sm_tree := tree\<rparr>)) es' (dom nodes) \<and>
    dom nodes \<subseteq> insert (m_next mem + 1 + 1) A \<and> \<not> rb_owns tree \<and>
    set es' = insert (m_next mem + 1) {e \<in> set es. entry_str mem e \<noteq> s}"
proof -
  let ?A = "if find (\<lambda>e. entry_str mem e = s) es = None then insert (m_next mem + 1 + 1) A else A"
  have h: "holds (m_nodes mem1) (tree_now mem1 m) es A"
    using insert_mem_holds [OF assms(1), of s v] by (simp add: mem1_def insert_mem_def)
  have "x < m_next mem" if "x \<in> A" for x using assms(1) that by (simp add: sm_rep_def)
  from this [of "m_next mem + 1 + 1"] have a: "m_next mem + 1 + 1 \<noteq> 0" "m_next mem + 1 + 1 \<notin> A" by auto
  have c: "rb_cmp (tree_now mem1 m) = entry_cmp mem1" "\<not> rb_owns (tree_now mem1 m)"
    using assms(1) by (simp_all add: tree_now_def sm_rep_def)
  have f: "list_find (entry_cmp mem1) (m_next mem + 1) es = find (\<lambda>e. entry_str mem e = s) es"
    unfolding list_find_entry mem1_def insert_mem_str(3) [OF assms(1)]
    by (rule find_cong [OF refl]) (simp add: insert_mem_str(2) [OF assms(1)])
  obtain nodes tree where ins: "rbtree_insert (m_nodes mem1) (tree_now mem1 m) (m_next mem + 1 + 1) (Some (m_next mem + 1)) =
      Some (find (\<lambda>e. entry_str mem e = s) es, nodes, tree)"
    and t: "rb_cmp tree = entry_cmp mem1" "\<not> rb_owns tree" "touches ?A (m_nodes mem1) nodes"
    and h': "holds nodes tree es' ?A"
    using insert_holds [OF _ h a, of "m_next mem + 1"] entry_order [of mem1] c f by (auto simp: es'_def)
  have "tree_now mem1 (m\<lparr>sm_tree := tree\<rparr>) = tree" using t(1) by (simp add: tree_now_def)
  moreover have "dom nodes = ?A"
  proof
    show "?A \<subseteq> dom nodes" using holds_dom [OF h'] .
    have "dom (m_nodes mem1) = A" using assms(1) by (simp add: sm_rep_def mem1_def insert_mem_def)
    show "dom nodes \<subseteq> ?A"
    proof
      fix a assume "a \<in> dom nodes"
      then show "a \<in> ?A"
        using t(3) \<open>dom (m_nodes mem1) = A\<close> unfolding touches_def by (cases "a \<in> ?A") (auto split: if_splits)
    qed
  qed
  moreover have "set es' = insert (m_next mem + 1) {e \<in> set es. entry_str mem e \<noteq> s}"
    unfolding es'_def strs.set_list_insert entry_cmp_0 mem1_def insert_mem_str(3) [OF assms(1)]
    using insert_mem_str(2) [OF assms(1)] by auto
  ultimately show ?thesis using ins h' t(2) a(1) by (auto split: if_splits)
qed


lemma sm_rep_fresh:
  assumes "sm_rep mem m es A ps"
  shows "m_next mem \<notin> set ps" and "m_next mem + 1 \<notin> set es" and "m_next mem + 1 + 1 \<notin> A" and "0 < m_next mem"
proof -
  have b: "x < m_next mem" if "x \<in> A \<union> set es \<union> set ps" for x using assms that by (simp add: sm_rep_def)
  show "m_next mem \<notin> set ps" "m_next mem + 1 \<notin> set es" "m_next mem + 1 + 1 \<notin> A"
    using b [of "m_next mem"] b [of "m_next mem + 1"] b [of "m_next mem + 1 + 1"] by auto
  show "0 < m_next mem" using assms by (simp add: sm_rep_def)
qed

lemma sm_rep_bound: "sm_rep mem m es A ps \<Longrightarrow> x \<in> A \<union> set es \<union> set ps \<Longrightarrow> 0 < x \<and> x < m_next mem"
  unfolding sm_rep_def by blast

lemma lookup_update:
  assumes rep: "sm_rep mem m es A ps" and rep': "sm_rep mem' m' es' A' ps'"
    and new: "entry_str mem' e0 = s \<and> e_value (the (m_entries mem' e0)) = v"
    and old: "\<forall>e \<in> set es. entry_str mem e \<noteq> s \<longrightarrow> entry_str mem' e = entry_str mem e \<and> m_entries mem' e = m_entries mem e"
    and es': "set es' = insert e0 {e \<in> set es. entry_str mem e \<noteq> s}"
  shows "sm_lookup mem' es' t = ((sm_lookup mem es)(s \<mapsto> v)) t"
proof (rule option_eqI)
  fix w
  have "sm_lookup mem' es' t = Some w \<longleftrightarrow> (\<exists>e \<in> insert e0 {e \<in> set es. entry_str mem e \<noteq> s}. entry_str mem' e = t \<and>
      e_value (the (m_entries mem' e)) = w)"
    unfolding sm_lookup_iff [OF rep'] es' by blast
  also have "\<dots> \<longleftrightarrow> (if t = s then w = v else \<exists>e \<in> set es. entry_str mem e = t \<and> e_value (the (m_entries mem e)) = w)"
    using new old by (cases "t = s") auto
  also have "\<dots> \<longleftrightarrow> ((sm_lookup mem es)(s \<mapsto> v)) t = Some w"
    using sm_lookup_iff [OF rep, of t w] by auto
  finally show "sm_lookup mem' es' t = Some w \<longleftrightarrow> ((sm_lookup mem es)(s \<mapsto> v)) t = Some w" .
qed

lemma insert_new_key:
  assumes rep: "sm_rep mem m es A ps" and len: "length ps < 2 ^ 60" and new: "find (\<lambda>e. entry_str mem e = s) es = None"
  shows "\<exists>mem' m' es' A'. strmap_insert mem m s v = Inr (None, mem', m') \<and> sm_rep mem' m' es' A' (ps @ [m_next mem]) \<and>
    sm_lookup mem' es' = (sm_lookup mem es)(s \<mapsto> v) \<and>
    map (\<lambda>p. the (m_strs mem' p)) (ps @ [m_next mem]) = map (\<lambda>p. the (m_strs mem p)) ps @ [s]"
proof -
  let ?k = "m_next mem" and ?e = "m_next mem + 1" and ?n = "m_next mem + 1 + 1"
  define mem1 where "mem1 = insert_mem mem s v"
  define es' where "es' = list_insert (entry_cmp mem1) ?e es"
  obtain nodes tree where ins: "rbtree_insert (m_nodes mem) (tree_now mem1 m) ?n (Some ?e) = Some (None, nodes, tree)"
    and h: "holds nodes (tree_now mem1 (m\<lparr>sm_tree := tree\<rparr>)) es' (dom nodes)"
    and d: "dom nodes \<subseteq> insert ?n A" "\<not> rb_owns tree" "set es' = insert ?e {e \<in> set es. entry_str mem e \<noteq> s}"
    using insert_tree [OF rep, of s v] new unfolding mem1_def es'_def by (auto simp: insert_mem_def)
  have es': "set es' = insert ?e (set es)" using d(3) new by (auto simp: find_None_iff)
  obtain ks where push: "vec_push (sm_keys m) (Some ?k) = Inr ks" "vec_holds ks (map Some (ps @ [?k]))"
    using vec_push_holds [of "sm_keys m" "map Some ps" ?k] rep len by (auto simp: sm_rep_def)
  let ?mem = "mem1\<lparr>m_nodes := nodes\<rparr>" and ?m = "m\<lparr>sm_tree := tree, sm_keys := ks\<rparr>"
  have run: "strmap_insert mem m s v = Inr (None, ?mem, ?m)"
    using ins push(1) by (simp add: strmap_insert_eq of_opt_def mem1_def)
  have cong: "entry_key ?mem = entry_key mem1" "entry_str ?mem = entry_str mem1"
    by (simp_all add: entry_key_def entry_str_def fun_eq_iff)
  then have "entry_cmp ?mem = entry_cmp mem1" by (simp add: entry_cmp_def fun_eq_iff)
  then have h': "holds nodes (tree_now ?mem ?m) es' (dom nodes)" using h by (simp add: tree_now_def)
  note old = insert_mem_str(1,2) [OF rep, of _ s v, folded mem1_def]
  have fresh: "entry_str mem1 ?e = s" "entry_key mem1 ?e = ?k"
    using insert_mem_str(3,4) [OF rep, of s v] by (simp_all add: mem1_def)
  note fr = sm_rep_fresh [OF rep] and bd = sm_rep_bound [OF rep]
  have bij0: "bij_betw (entry_key mem1) (set es) (set ps)"
    using rep old(1) bij_betw_cong [of "set es" "entry_key mem1" "entry_key mem"] by (simp add: sm_rep_def)
  have bij: "bij_betw (entry_key mem1) (insert ?e (set es)) (insert ?k (set ps))"
    using bij0 fr fresh(2) by (auto simp: bij_betw_def)
  have bound: "0 < x \<and> x < m_next ?mem" if "x \<in> dom nodes \<union> insert ?e (set es) \<union> insert ?k (set ps)" for x
    using that d(1) bd [of x] fr(4) by (auto simp: mem1_def insert_mem_def)
  have "sm_rep ?mem ?m es' (dom nodes) (ps @ [?k])"
    unfolding sm_rep_def
  proof (intro conjI)
    show "holds (m_nodes ?mem) (tree_now ?mem ?m) es' (dom nodes)" using h' by simp
    show "dom (m_entries ?mem) = set es'" using rep es' by (simp add: sm_rep_def mem1_def insert_mem_def)
    show "vec_holds (sm_keys ?m) (map Some (ps @ [?k]))" using push(2) by simp
    show "distinct (ps @ [?k])" using rep fr(1) by (simp add: sm_rep_def)
    show "bij_betw (entry_key ?mem) (set es') (set (ps @ [?k]))" using bij es' cong(1) by simp
    show "dom (m_strs ?mem) = set (ps @ [?k])" using rep by (simp add: sm_rep_def mem1_def insert_mem_def)
    show "\<forall>a \<in> dom nodes \<union> set es' \<union> set (ps @ [?k]). 0 < a \<and> a < m_next ?mem" using bound es' by simp
    show "0 < m_next ?mem" using fr(4) by (simp add: mem1_def insert_mem_def)
    show "\<not> rb_owns (sm_tree ?m)" using d(2) by simp
  qed simp
  moreover from this have "sm_lookup ?mem es' t = ((sm_lookup mem es)(s \<mapsto> v)) t" for t
  proof (intro lookup_update [OF rep _ _ _ d(3)])
    show "sm_rep ?mem ?m es' (dom nodes) (ps @ [?k])" by fact
    show "entry_str ?mem ?e = s \<and> e_value (the (m_entries ?mem ?e)) = v"
      using fresh(1) cong by (simp add: mem1_def insert_mem_def)
    show "\<forall>e \<in> set es. entry_str mem e \<noteq> s \<longrightarrow> entry_str ?mem e = entry_str mem e \<and> m_entries ?mem e = m_entries mem e"
      using old(2) cong fr(2) by (auto simp: mem1_def insert_mem_def)
  qed
  then have "sm_lookup ?mem es' = (sm_lookup mem es)(s \<mapsto> v)" by (rule ext)
  moreover have "map (\<lambda>p. the (m_strs ?mem p)) (ps @ [?k]) = map (\<lambda>p. the (m_strs mem p)) ps @ [s]"
    using fr(1) by (auto simp: mem1_def insert_mem_def)
  ultimately show ?thesis using run by blast
qed

lemma insert_old_key:
  assumes rep: "sm_rep mem m es A ps" and found: "find (\<lambda>e. entry_str mem e = s) es = Some o1"
  shows "\<exists>mem' m' es' A'. strmap_insert mem m s v = Inr (e_value (the (m_entries mem o1)), mem', m') \<and>
    sm_rep mem' m' es' A' ps \<and> sm_lookup mem' es' = (sm_lookup mem es)(s \<mapsto> v) \<and> m_strs mem' = m_strs mem"
proof -
  let ?k = "m_next mem" and ?e = "m_next mem + 1" and ?n = "m_next mem + 1 + 1"
  have o1: "o1 \<in> set es" "entry_str mem o1 = s"
    using found find_inj [OF conjunct2 [OF sm_rep_inj [OF rep]]] by auto
  define mem1 where "mem1 = insert_mem mem s v"
  define es' where "es' = list_insert (entry_cmp mem1) ?e es"
  obtain nodes tree where ins: "rbtree_insert (m_nodes mem) (tree_now mem1 m) ?n (Some ?e) = Some (Some o1, nodes, tree)"
    and h: "holds nodes (tree_now mem1 (m\<lparr>sm_tree := tree\<rparr>)) es' (dom nodes)"
    and d: "dom nodes \<subseteq> insert ?n A" "\<not> rb_owns tree" "set es' = insert ?e {e \<in> set es. entry_str mem e \<noteq> s}"
    using insert_tree [OF rep, of s v] found unfolding mem1_def es'_def by (auto simp: insert_mem_def)
  have others: "{e \<in> set es. entry_str mem e \<noteq> s} = set es - {o1}"
    using o1 conjunct2 [OF sm_rep_inj [OF rep]] by (auto simp: inj_on_def)
  note fr = sm_rep_fresh [OF rep] and bd = sm_rep_bound [OF rep] and key = sm_rep_key [OF rep]
  let ?o = "entry_key mem o1"
  define mem2 where "mem2 = mem1\<lparr>m_nodes := nodes,
     m_entries := (m_entries mem1)(?e \<mapsto> \<lparr>e_key = ?o, e_value = v\<rparr>, o1 := None), m_strs := m_strs mem\<rparr>"
  have no: "?e \<noteq> o1" "?k \<noteq> ?o" using fr o1(1) key(1) [OF o1(1)] by auto
  have strs: "(m_strs mem)(?k \<mapsto> s, ?k := None) = m_strs mem"
    using fr(1) rep by (auto simp: sm_rep_def fun_eq_iff)
  have o_entry: "m_entries mem1 o1 = Some \<lparr>e_key = ?o, e_value = e_value (the (m_entries mem o1))\<rparr>"
    using key(5) [OF o1(1)] no by (simp add: mem1_def insert_mem_def)
  let ?m = "m\<lparr>sm_tree := tree\<rparr>"
  have run: "strmap_insert mem m s v = Inr (e_value (the (m_entries mem o1)), mem2, ?m)"
    using ins o_entry strs
    by (simp add: strmap_insert_eq of_opt_def mem1_def [symmetric] Let_def key_free_def)
      (simp add: mem2_def mem1_def insert_mem_def)
  have k2: "entry_key mem2 ?e = ?o" "\<And>e. e \<in> set es - {o1} \<Longrightarrow> entry_key mem2 e = entry_key mem e"
    using no fr(2) by (auto simp: mem2_def mem1_def insert_mem_def entry_key_def)
  have s2: "entry_str mem2 ?e = s" "\<And>e. e \<in> set es - {o1} \<Longrightarrow> entry_str mem2 e = entry_str mem e"
    using k2 key(4) [OF o1(1)] o1(2) by (auto simp: entry_str_def mem2_def)
  have s1: "entry_str mem1 ?e = s" "\<And>e. e \<in> set es \<Longrightarrow> entry_str mem1 e = entry_str mem e"
    using insert_mem_str(2) [OF rep, of _ s v] insert_mem_str(3) [OF rep, of s v] by (simp_all add: mem1_def)
  have "entry_str mem2 e = entry_str mem1 e" if "e \<in> set es'" for e
    using that s1 s2 unfolding d(3) others by auto
  then have "holds nodes ((tree_now mem1 ?m)\<lparr>rb_cmp := entry_cmp mem2\<rparr>) es' (dom nodes)"
    using h by (intro holds_cong) (simp_all add: tree_now_def entry_cmp_def)
  then have h': "holds nodes (tree_now mem2 ?m) es' (dom nodes)" by (simp add: tree_now_def)
  have bij0: "bij_betw (entry_key mem) (set es) (set ps)" using rep by (simp add: sm_rep_def)
  have bij: "bij_betw (entry_key mem2) (insert ?e (set es - {o1})) (set ps)"
  proof -
    have "bij_betw (entry_key mem) (set es - {o1}) (set ps - {?o})"
      using bij0 o1(1) unfolding bij_betw_def by (simp add: inj_on_image_set_diff [of _ "set es"] inj_on_diff)
    then have "bij_betw (entry_key mem2) (set es - {o1}) (set ps - {?o})"
      using k2(2) bij_betw_cong [of "set es - {o1}" "entry_key mem2" "entry_key mem"] by simp
    then have "bij_betw (entry_key mem2) (insert ?e (set es - {o1})) (insert ?o (set ps - {?o}))"
      using fr(2) k2(1) by (auto simp: bij_betw_def)
    then show ?thesis using key(1) [OF o1(1)] by (simp add: insert_absorb)
  qed
  have "sm_rep mem2 ?m es' (dom nodes) ps"
    unfolding sm_rep_def
  proof (intro conjI)
    show "holds (m_nodes mem2) (tree_now mem2 ?m) es' (dom nodes)" using h' by (simp add: mem2_def)
    show "dom (m_nodes mem2) = dom nodes" by (simp add: mem2_def)
    show "dom (m_entries mem2) = set es'"
      using rep no unfolding d(3) others by (auto simp: sm_rep_def mem2_def mem1_def insert_mem_def)
    show "vec_holds (sm_keys ?m) (map Some ps)" "distinct ps" "dom (m_strs mem2) = set ps"
      using rep by (simp_all add: sm_rep_def mem2_def)
    show "bij_betw (entry_key mem2) (set es') (set ps)" using bij unfolding d(3) others .
    show "\<forall>a \<in> dom nodes \<union> set es' \<union> set ps. 0 < a \<and> a < m_next mem2"
    proof
      fix x assume "x \<in> dom nodes \<union> set es' \<union> set ps"
      then show "0 < x \<and> x < m_next mem2"
        using d(1) bd [of x] fr(4) unfolding d(3) by (auto simp: mem2_def mem1_def insert_mem_def)
    qed
    show "0 < m_next mem2" using fr(4) by (simp add: mem2_def mem1_def insert_mem_def)
    show "\<not> rb_owns (sm_tree ?m)" using d(2) by simp
  qed
  moreover from this have "sm_lookup mem2 es' t = ((sm_lookup mem es)(s \<mapsto> v)) t" for t
  proof (intro lookup_update [OF rep _ _ _ d(3)])
    show "sm_rep mem2 ?m es' (dom nodes) ps" by fact
    show "entry_str mem2 ?e = s \<and> e_value (the (m_entries mem2 ?e)) = v"
      using s2(1) no by (simp add: mem2_def)
    show "\<forall>e \<in> set es. entry_str mem e \<noteq> s \<longrightarrow> entry_str mem2 e = entry_str mem e \<and> m_entries mem2 e = m_entries mem e"
      using s2(2) fr(2) o1(2) by (auto simp: mem2_def mem1_def insert_mem_def)
  qed
  then have "sm_lookup mem2 es' = (sm_lookup mem es)(s \<mapsto> v)" by (rule ext)
  moreover have "m_strs mem2 = m_strs mem" by (simp add: mem2_def)
  ultimately show ?thesis using run by blast
qed

text \<open>Insertion on the level of bindings and keys.\<close>

lemma insert_sm_holds:
  assumes "sm_holds mem m M ks" and "length ks < 2 ^ 60"
  shows "\<exists>mem' m'. strmap_insert mem m s v = Inr (case M s of None \<Rightarrow> None | Some w \<Rightarrow> w, mem', m') \<and>
    sm_holds mem' m' (M(s \<mapsto> v)) (if M s = None then ks @ [s] else ks)"
proof -
  obtain es A ps where rep: "sm_rep mem m es A ps" and M: "M = sm_lookup mem es" and ks: "ks = map (\<lambda>p. the (m_strs mem p)) ps"
    using assms(1) by (auto simp: sm_holds_def)
  show ?thesis
  proof (cases "find (\<lambda>e. entry_str mem e = s) es")
    case None
    have "length ps < 2 ^ 60" using assms(2) ks by simp
    from insert_new_key [OF rep this None, of v] obtain mem' m' es' A' where
      r: "strmap_insert mem m s v = Inr (None, mem', m')" "sm_rep mem' m' es' A' (ps @ [m_next mem])"
        "sm_lookup mem' es' = M(s \<mapsto> v)" "map (\<lambda>p. the (m_strs mem' p)) (ps @ [m_next mem]) = ks @ [s]"
      unfolding M ks by blast
    have "M s = None" using None by (simp add: M sm_lookup_def)
    moreover have "sm_holds mem' m' (M(s \<mapsto> v)) (ks @ [s])"
      unfolding sm_holds_def using r(2,3,4) by metis
    ultimately show ?thesis using r(1) by simp
  next
    case (Some o1)
    from insert_old_key [OF rep Some, of v] Some show ?thesis
      unfolding M ks sm_holds_def by (simp add: sm_lookup_def) metis
  qed
qed

definition empty_mem :: "'v sm_mem" where
  "empty_mem = \<lparr>m_nodes = Map.empty, m_entries = Map.empty, m_strs = Map.empty, m_next = 1\<rparr>"

lemma new_sm_holds:
  "\<exists>m. strmap_new (empty_mem :: 'v sm_mem) owns = Inr m \<and> sm_holds (empty_mem :: 'v sm_mem) m Map.empty []"
proof -
  let ?e = "empty_mem :: 'v sm_mem"
  let ?v = "\<lparr>v_data = [], v_len = 0, v_cap = 0, v_owns = False\<rparr> :: addr vec"
  let ?m = "\<lparr>sm_tree = rbtree_new (entry_cmp ?e) False, sm_keys = ?v, sm_owns_value = owns\<rparr>"
  have "strmap_new ?e owns = Inr ?m" by (simp add: strmap_new_def vec_new_def vec_with_capacity_def)
  moreover have "sm_rep ?e ?m [] {} []"
    using holds_empty [of "tree_now ?e ?m" Map.empty]
    by (simp add: sm_rep_def empty_mem_def tree_now_def rbtree_new_def vec_holds_def bij_betw_def)
  then have "sm_holds ?e ?m Map.empty []"
    unfolding sm_holds_def by (intro exI) (auto simp: sm_lookup_def)
  ultimately show ?thesis by blast
qed

section \<open>Removal\<close>

lemma remove_from_holds:
  "vec_holds ks (map Some ps) \<Longrightarrow> i + n = length ps \<Longrightarrow> key \<in> set (drop i ps) \<Longrightarrow> key \<notin> set (take i ps) \<Longrightarrow>
   \<exists>ks'. remove_from n i ks key = Inr ks' \<and> vec_holds ks' (map Some (remove1 key ps))"
proof (induction n arbitrary: i)
  case 0
  then show ?case by simp
next
  case (Suc n)
  then have i: "i < length ps" by simp
  then have get: "vec_get ks i = Inr (Some (ps ! i))" using vec_get_holds [OF Suc.prems(1), of i] by simp
  have split: "ps = take i ps @ ps ! i # drop (Suc i) ps" using i by (rule id_take_nth_drop)
  show ?case
  proof (cases "ps ! i = key")
    case True
    have "remove1 key ps = take i ps @ drop (Suc i) ps"
      using split Suc.prems(4) True by (metis remove1.simps(2) remove1_append)
    then show ?thesis
      using vec_remove_holds [OF Suc.prems(1), of i] i get True by (auto simp: take_map drop_map)
  next
    case False
    have "key \<in> set (drop (Suc i) ps)" "key \<notin> set (take (Suc i) ps)"
      using Suc.prems(3,4) False i by (auto simp: take_Suc_conv_app_nth Cons_nth_drop_Suc [symmetric])
    then show ?thesis using Suc.IH [of "Suc i"] Suc.prems(1,2) get False by simp
  qed
qed

lemma remove_key_holds:
  "vec_holds ks (map Some ps) \<Longrightarrow> key \<in> set ps \<Longrightarrow>
   \<exists>ks'. remove_key_from_vec ks key = Inr ks' \<and> vec_holds ks' (map Some (remove1 key ps))"
  using remove_from_holds [of ks ps 0 "length ps" key] by (simp add: remove_key_from_vec_def vec_holdsD(1))

lemma remove_absent:
  assumes rep: "sm_rep mem m es A ps" and "find (\<lambda>e. entry_str mem e = s) es = None"
  shows "strmap_remove mem m s = Inr (None, mem, m)"
proof -
  obtain x smem where w: "with_search mem s = (x, smem)" by fastforce
  show ?thesis using search_find [OF rep w] assms(2) w by (simp add: strmap_remove_def of_opt_def)
qed

lemma remove_present:
  assumes rep: "sm_rep mem m es A ps" and found: "find (\<lambda>e. entry_str mem e = s) es = Some o1"
  shows "\<exists>mem' m' es' A'. strmap_remove mem m s = Inr (e_value (the (m_entries mem o1)), mem', m') \<and>
    sm_rep mem' m' es' A' (remove1 (entry_key mem o1) ps) \<and> sm_lookup mem' es' = (sm_lookup mem es)(s := None) \<and>
    (\<forall>p \<in> set (remove1 (entry_key mem o1) ps). m_strs mem' p = m_strs mem p)"
proof -
  let ?o = "entry_key mem o1"
  obtain x smem where w: "with_search mem s = (x, smem)" by fastforce
  have o1: "o1 \<in> set es" "entry_str mem o1 = s"
    using found find_inj [OF conjunct2 [OF sm_rep_inj [OF rep]]] by auto
  note key = sm_rep_key [OF rep] and ws = with_search_str [OF rep w]
  have t: "rb_cmp (tree_now smem m) = entry_cmp smem" "\<not> rb_owns (tree_now smem m)"
    using rep by (simp_all add: tree_now_def sm_rep_def)
  have lf: "list_find (entry_cmp smem) x es = Some o1"
    unfolding list_find_entry ws(1) using found find_cong [of es es "\<lambda>e. entry_str smem e = s" "\<lambda>e. entry_str mem e = s"] ws(2) by simp
  define es' where "es' = list_remove (entry_cmp smem) x es"
  obtain nodes tree B where rem: "rbtree_remove (m_nodes mem) (tree_now smem m) (Some x) = Some (Some o1, nodes, tree)"
    and tr: "rb_cmp tree = entry_cmp smem" "\<not> rb_owns tree" "touches A (m_nodes mem) nodes" "B \<subseteq> A" "\<forall>a \<in> A - B. nodes a = None"
    and h: "holds nodes tree es' B"
    using remove_holds [OF _ search_holds [OF rep w], of x] entry_order [of smem] t lf by (auto simp: es'_def)
  have es': "set es' = set es - {o1}"
    using ws(1,2) o1 conjunct2 [OF sm_rep_inj [OF rep]]
    by (auto simp: es'_def list_remove_def entry_cmp_0 inj_on_def)
  obtain ks where ks: "remove_key_from_vec (sm_keys m) ?o = Inr ks" "vec_holds ks (map Some (remove1 ?o ps))"
    using remove_key_holds [of "sm_keys m" ps ?o] rep key(1) [OF o1(1)] by (auto simp: sm_rep_def)
  define mem' where "mem' = mem\<lparr>m_nodes := nodes, m_strs := (m_strs mem)(?o := None), m_entries := (m_entries mem)(o1 := None)\<rparr>"
  let ?m = "m\<lparr>sm_tree := tree, sm_keys := ks\<rparr>"
  obtain oe where oe: "m_entries mem o1 = Some oe" "e_key oe = ?o" using key(5) [OF o1(1)] by (metis sm_entry.select_convs(1))
  have "entry_key (mem\<lparr>m_nodes := nodes\<rparr>) o1 = ?o" by (simp add: entry_key_def)
  then have run: "strmap_remove mem m s = Inr (e_value (the (m_entries mem o1)), mem', ?m)"
    using search_find [OF rep w] found w rem ks(1) oe key(4) [OF o1(1)]
    by (simp add: strmap_remove_def of_opt_def key_free_def mem'_def)
  have k2: "entry_key mem' e = entry_key mem e" if "e \<in> set es - {o1}" for e
    using that by (simp add: mem'_def entry_key_def)
  have ne: "entry_key mem e \<noteq> ?o" if "e \<in> set es - {o1}" for e
    using rep that o1(1) by (auto simp: sm_rep_def bij_betw_def inj_on_def)
  have s2: "entry_str mem' e = entry_str mem e" if "e \<in> set es - {o1}" for e
    using k2 [OF that] ne [OF that] by (simp add: mem'_def entry_str_def)
  have "dom nodes = B"
  proof -
    have "dom (m_nodes mem) = A" using rep by (simp add: sm_rep_def)
    have "dom nodes \<subseteq> B"
    proof
      fix a assume "a \<in> dom nodes"
      have "a \<in> A"
      proof (rule ccontr)
        assume n: "a \<notin> A"
        then have "nodes a = m_nodes mem a" using tr(3) by (simp add: touches_def)
        then show False using \<open>a \<in> dom nodes\<close> n \<open>dom (m_nodes mem) = A\<close> by auto
      qed
      then show "a \<in> B" using tr(5) \<open>a \<in> dom nodes\<close> by (meson DiffI domIff)
    qed
    then show ?thesis using holds_dom [OF h] by blast
  qed
  have d: "distinct ps" and bij0: "bij_betw (entry_key mem) (set es) (set ps)" using rep by (simp_all add: sm_rep_def)
  have "bij_betw (entry_key mem) (set es - {o1}) (set ps - {?o})"
    using bij0 o1(1) unfolding bij_betw_def by (simp add: inj_on_image_set_diff [of _ "set es"] inj_on_diff)
  then have bij: "bij_betw (entry_key mem') (set es - {o1}) (set ps - {?o})"
    using k2 bij_betw_cong [of "set es - {o1}" "entry_key mem'" "entry_key mem"] by simp
  have rep': "sm_rep mem' ?m es' B (remove1 ?o ps)"
    unfolding sm_rep_def
  proof (intro conjI)
    have "holds nodes (tree\<lparr>rb_cmp := entry_cmp mem'\<rparr>) es' B"
      using h tr(1) s2 ws(2) es' by (intro holds_cong) (auto simp: entry_cmp_def)
    then show "holds (m_nodes mem') (tree_now mem' ?m) es' B" by (simp add: tree_now_def mem'_def)
    show "dom (m_nodes mem') = B" using \<open>dom nodes = B\<close> by (simp add: mem'_def)
    show "dom (m_entries mem') = set es'" using rep es' by (auto simp: sm_rep_def mem'_def)
    show "vec_holds (sm_keys ?m) (map Some (remove1 ?o ps))" using ks(2) by simp
    show "distinct (remove1 ?o ps)" using d by simp
    show "bij_betw (entry_key mem') (set es') (set (remove1 ?o ps))" using bij es' d by (simp add: set_remove1_eq)
    show "dom (m_strs mem') = set (remove1 ?o ps)" using rep d by (auto simp: sm_rep_def mem'_def set_remove1_eq)
    show "\<forall>a \<in> B \<union> set es' \<union> set (remove1 ?o ps). 0 < a \<and> a < m_next mem'"
      using sm_rep_bound [OF rep] tr(4) es' d by (auto simp: mem'_def set_remove1_eq)
    show "0 < m_next mem'" using rep by (simp add: sm_rep_def mem'_def)
    show "\<not> rb_owns (sm_tree ?m)" using tr(2) by simp
  qed
  have "sm_lookup mem' es' t = ((sm_lookup mem es)(s := None)) t" for t
  proof (rule option_eqI)
    fix v
    have "sm_lookup mem' es' t = Some v \<longleftrightarrow> (\<exists>e \<in> set es - {o1}. entry_str mem e = t \<and> e_value (the (m_entries mem e)) = v)"
      unfolding sm_lookup_iff [OF rep'] es' using s2 by (auto simp: mem'_def)
    also have "\<dots> \<longleftrightarrow> t \<noteq> s \<and> sm_lookup mem es t = Some v"
      unfolding sm_lookup_iff [OF rep] using o1 conjunct2 [OF sm_rep_inj [OF rep]] by (auto simp: inj_on_def)
    finally show "sm_lookup mem' es' t = Some v \<longleftrightarrow> ((sm_lookup mem es)(s := None)) t = Some v" by simp
  qed
  then have "sm_lookup mem' es' = (sm_lookup mem es)(s := None)" by (rule ext)
  moreover have "\<forall>p \<in> set (remove1 ?o ps). m_strs mem' p = m_strs mem p" using d by (auto simp: mem'_def set_remove1_eq)
  ultimately show ?thesis using run rep' by blast
qed

lemma remove_sm_holds:
  assumes "sm_holds mem m M ks"
  shows "\<exists>mem' m'. strmap_remove mem m s = Inr (case M s of None \<Rightarrow> None | Some w \<Rightarrow> w, mem', m') \<and>
    sm_holds mem' m' (M(s := None)) (filter (\<lambda>k. k \<noteq> s) ks)"
proof -
  obtain es A ps where rep: "sm_rep mem m es A ps" and M: "M = sm_lookup mem es" and ks: "ks = map (\<lambda>p. the (m_strs mem p)) ps"
    using assms(1) by (auto simp: sm_holds_def)
  have kstr: "(the (m_strs mem (entry_key mem e)) = s) \<longleftrightarrow> entry_str mem e = s" for e by (simp add: entry_str_def)
  have ps: "set ps = entry_key mem ` set es" using rep by (simp add: sm_rep_def bij_betw_def)
  show ?thesis
  proof (cases "find (\<lambda>e. entry_str mem e = s) es")
    case None
    then have "\<forall>e \<in> set es. entry_str mem e \<noteq> s" by (auto simp: find_None_iff)
    then have "\<forall>k \<in> set ks. k \<noteq> s" using ps kstr unfolding ks set_map ps by simp
    then have "filter (\<lambda>k. k \<noteq> s) ks = ks" by (simp add: filter_id_conv)
    moreover have "M s = None" using None by (simp add: M sm_lookup_def)
    then have "M(s := None) = M" by auto
    ultimately show ?thesis using remove_absent [OF rep None] assms \<open>M s = None\<close> by simp
  next
    case (Some o1)
    have o1: "o1 \<in> set es" "entry_str mem o1 = s"
      using Some find_inj [OF conjunct2 [OF sm_rep_inj [OF rep]]] by auto
    obtain mem' m' es' A' where
      r: "strmap_remove mem m s = Inr (e_value (the (m_entries mem o1)), mem', m')"
        "sm_rep mem' m' es' A' (remove1 (entry_key mem o1) ps)" "sm_lookup mem' es' = (sm_lookup mem es)(s := None)"
        "\<forall>p \<in> set (remove1 (entry_key mem o1) ps). m_strs mem' p = m_strs mem p"
      using remove_present [OF rep Some] by blast
    have inj: "inj_on (entry_key mem) (set es)" using rep by (simp add: sm_rep_def bij_betw_def)
    have same: "p = entry_key mem o1 \<longleftrightarrow> the (m_strs mem p) = s" if listed: "p \<in> set ps" for p
    proof -
      obtain e where e: "e \<in> set es" "p = entry_key mem e" using listed unfolding ps by blast
      have "entry_str mem e = entry_str mem o1 \<longleftrightarrow> e = o1"
        by (rule inj_on_eq_iff [OF conjunct2 [OF sm_rep_inj [OF rep]] e(1) o1(1)])
      moreover have "entry_key mem e = entry_key mem o1 \<longleftrightarrow> e = o1"
        by (rule inj_on_eq_iff [OF inj e(1) o1(1)])
      ultimately show ?thesis unfolding e(2) kstr using o1(2) by simp
    qed
    have rem: "remove1 (entry_key mem o1) ps = filter (\<lambda>p. the (m_strs mem p) \<noteq> s) ps"
    proof -
      have "remove1 (entry_key mem o1) ps = filter (\<lambda>p. entry_key mem o1 \<noteq> p) ps"
        using rep by (simp add: sm_rep_def distinct_remove1_removeAll removeAll_filter_not_eq)
      also have "\<dots> = filter (\<lambda>p. the (m_strs mem p) \<noteq> s) ps"
        using same by (intro filter_cong [OF refl]) metis
      finally show ?thesis .
    qed
    have "map (\<lambda>p. the (m_strs mem' p)) (remove1 (entry_key mem o1) ps) =
      map (\<lambda>p. the (m_strs mem p)) (remove1 (entry_key mem o1) ps)"
      using r(4) by (intro map_cong [OF refl]) simp
    also have "\<dots> = filter (\<lambda>k. k \<noteq> s) ks"
      unfolding rem ks by (simp add: filter_map comp_def)
    finally have "filter (\<lambda>k. k \<noteq> s) ks = map (\<lambda>p. the (m_strs mem' p)) (remove1 (entry_key mem o1) ps)" by (rule sym)
    then have "sm_holds mem' m' (M(s := None)) (filter (\<lambda>k. k \<noteq> s) ks)"
      unfolding sm_holds_def M using r(2) r(3) [symmetric] by blast
    moreover have "M s = Some (e_value (the (m_entries mem o1)))" using Some by (simp add: M sm_lookup_def)
    ultimately show ?thesis using r(1) by (intro exI conjI) simp_all
  qed
qed

end
