(* ===== verification/StrMapStore.thy ===== *)
theory StrMapStore
  imports StrMap
begin

text \<open>
  What the string map promises: the refinement of a finite map with an insertion-ordered key list,
  the exactness of its memory, its disposal and its clone.
\<close>

section \<open>What a map exposes\<close>

lemma holds_size: "holds h t xs A \<Longrightarrow> rb_size t = length xs \<and> finite A \<and> card A = length xs"
proof -
  assume "holds h t xs A"
  then obtain T where T: "rb_rep h t T" "inorder T = xs" "set (addrs T) = A" by (auto simp: holds_def)
  then have "distinct (addrs T)" by (simp add: rb_rep_def zip_in_root)
  then have "card A = length (addrs T)" using T(3) distinct_card by blast
  then show ?thesis using T by (auto simp: rb_rep_def length_addrs)
qed

lemma sm_rep_sizes:
  assumes "sm_rep mem m es A ps"
  shows "length es = length ps" and "rb_size (sm_tree m) = length ps" and "card (dom (m_nodes mem)) = length ps"
    and "card (dom (m_entries mem)) = length ps" and "card (dom (m_strs mem)) = length ps"
proof -
  have "card (set es) = card (set ps)" using assms bij_betw_same_card by (auto simp: sm_rep_def)
  moreover have "distinct es" "distinct ps" using assms sm_rep_inj [OF assms] by (auto simp: sm_rep_def)
  ultimately show len: "length es = length ps" by (simp add: distinct_card)
  have h: "holds (m_nodes mem) (tree_now mem m) es A" "dom (m_nodes mem) = A" using assms by (simp_all add: sm_rep_def)
  from holds_size [OF h(1)] h(2) len show "rb_size (sm_tree m) = length ps" "card (dom (m_nodes mem)) = length ps"
    by (simp_all add: tree_now_def)
  show "card (dom (m_entries mem)) = length ps" "card (dom (m_strs mem)) = length ps"
    using assms \<open>distinct es\<close> \<open>distinct ps\<close> len by (simp_all add: sm_rep_def distinct_card)
qed

lemma sm_holds_keys:
  assumes "sm_holds mem m M ks"
  shows "distinct ks" and "set ks = dom M"
proof -
  obtain es A ps where rep: "sm_rep mem m es A ps" and M: "M = sm_lookup mem es" and ks: "ks = map (\<lambda>p. the (m_strs mem p)) ps"
    using assms by (auto simp: sm_holds_def)
  have bij: "bij_betw (entry_key mem) (set es) (set ps)" and d: "distinct ps" using rep by (simp_all add: sm_rep_def)
  have inj: "inj_on (entry_str mem) (set es)" using sm_rep_inj [OF rep] by simp
  have "set ps = entry_key mem ` set es" using bij by (simp add: bij_betw_def)
  then have img: "set ks = entry_str mem ` set es" by (simp add: ks image_image entry_str_def)
  have "card (set ks) = length ks"
    unfolding img card_image [OF inj] using sm_rep_inj [OF rep] sm_rep_sizes(1) [OF rep] by (simp add: ks distinct_card)
  then show "distinct ks" by (rule card_distinct)
  show "set ks = dom M" unfolding img M dom_def using sm_lookup_None [of mem es] by (auto simp: image_iff)
qed

section \<open>Disposal\<close>

definition freed_values :: "bool \<Rightarrow> 'v sm_mem \<Rightarrow> addr list \<Rightarrow> 'v list" where
  "freed_values owns mem es = (if owns then concat (map (\<lambda>e. case e_value (the (m_entries mem e)) of None \<Rightarrow> [] | Some v \<Rightarrow> [v]) es) else [])"

lemma dispose_entries:
  "distinct es \<Longrightarrow> inj_on (entry_key mem) (set es) \<Longrightarrow>
   (\<And>e. e \<in> set es \<Longrightarrow> m_entries mem e \<noteq> None \<and> entry_key mem e \<noteq> 0 \<and> m_strs mem (entry_key mem e) \<noteq> None) \<Longrightarrow>
   fold (dispose_entry owns) es (Inr (fr, mem)) = Inr (fr @ freed_values owns mem es,
     mem\<lparr>m_entries := (m_entries mem) |` (- set es), m_strs := (m_strs mem) |` (- (entry_key mem ` set es))\<rparr>)"
proof (induction es arbitrary: fr mem)
  case Nil
  then show ?case by (simp add: freed_values_def)
next
  case (Cons e es)
  let ?mem = "mem\<lparr>m_strs := (m_strs mem)(entry_key mem e := None), m_entries := (m_entries mem)(e := None)\<rparr>"
  obtain en where en: "m_entries mem e = Some en" using Cons.prems(3) [of e] by auto
  then have key: "entry_key mem e = e_key en" by (simp add: entry_key_def)
  have one: "dispose_entry owns e (Inr (fr, mem)) =
      Inr (fr @ (if owns then (case e_value en of None \<Rightarrow> [] | Some v \<Rightarrow> [v]) else []), ?mem)"
    using Cons.prems(3) [of e] by (auto simp: dispose_entry_def en key key_free_def)
  have other: "entry_key ?mem x = entry_key mem x" "m_entries ?mem x = m_entries mem x"
    "entry_key mem x \<noteq> entry_key mem e" if "x \<in> set es" for x
    using that Cons.prems(1,2) by (auto simp: entry_key_def image_iff)
  have "inj_on (entry_key ?mem) (set es)"
    using Cons.prems(2) other(1) by (simp add: inj_on_def)
  moreover have "m_entries ?mem x \<noteq> None \<and> entry_key ?mem x \<noteq> 0 \<and> m_strs ?mem (entry_key ?mem x) \<noteq> None" if "x \<in> set es" for x
    using Cons.prems(3) [of x] other [OF that] that by (auto simp del: not_None_eq)
  ultimately have "fold (dispose_entry owns) es (Inr (fr @ (if owns then (case e_value en of None \<Rightarrow> [] | Some v \<Rightarrow> [v]) else []), ?mem)) =
     Inr ((fr @ (if owns then (case e_value en of None \<Rightarrow> [] | Some v \<Rightarrow> [v]) else [])) @ freed_values owns ?mem es,
     ?mem\<lparr>m_entries := (m_entries ?mem) |` (- set es), m_strs := (m_strs ?mem) |` (- (entry_key ?mem ` set es))\<rparr>)"
    using Cons.prems(1) by (intro Cons.IH) simp_all
  moreover have "entry_key ?mem ` set es = entry_key mem ` set es" using other(1) by (rule image_cong [OF refl])
  moreover have "freed_values owns ?mem es = freed_values owns mem es"
    using other(2) by (auto simp: freed_values_def intro!: arg_cong [of _ _ concat] map_cong)
  moreover have "(m_entries ?mem) |` (- set es) = (m_entries mem) |` (- set (e # es))"
    "(m_strs ?mem) |` (- (entry_key mem ` set es)) = (m_strs mem) |` (- (entry_key mem ` set (e # es)))"
    by (auto simp: restrict_map_def fun_eq_iff)
  ultimately show ?case unfolding fold_simps comp_def one by (simp add: freed_values_def en)
qed

lemma dispose_sm_rep:
  assumes rep: "sm_rep mem m es A ps"
  shows "\<exists>mem'. strmap_dispose mem m = Inr (freed_values (sm_owns_value m) mem es, mem') \<and>
    m_nodes mem' = Map.empty \<and> m_entries mem' = Map.empty \<and> m_strs mem' = Map.empty"
proof -
  let ?mem = "mem\<lparr>m_entries := (m_entries mem) |` (- set es), m_strs := (m_strs mem) |` (- (entry_key mem ` set es))\<rparr>"
  have h: "holds (m_nodes mem) (tree_now mem m) es A" and dom: "dom (m_nodes mem) = A" "dom (m_entries mem) = set es"
      "dom (m_strs mem) = set ps" and ow: "\<not> rb_owns (sm_tree m)"
    using rep by (simp_all add: sm_rep_def)
  have img: "entry_key mem ` set es = set ps" and inj: "inj_on (entry_key mem) (set es)"
    using rep by (simp_all add: sm_rep_def bij_betw_def)
  have live: "m_entries mem e \<noteq> None \<and> entry_key mem e \<noteq> 0 \<and> m_strs mem (entry_key mem e) \<noteq> None" if "e \<in> set es" for e
  proof -
    have "m_entries mem e \<noteq> None" using sm_rep_key(5) [OF rep that] by (metis option.distinct(1))
    then show ?thesis using sm_rep_key(1,4) [OF rep that] sm_rep_bound [OF rep, of "entry_key mem e"] by simp
  qed
  have walk: "rbtree_foreach (m_nodes mem) (sm_tree m) (dispose_entry (sm_owns_value m)) (Inr ([], mem)) =
      Some (Inr (freed_values (sm_owns_value m) mem es, ?mem))"
    using foreach_holds [OF h, of "dispose_entry (sm_owns_value m)" "Inr ([], mem)"] dispose_entries [OF _ inj live, of "sm_owns_value m" "[]"] sm_rep_inj [OF rep]
    by (simp add: rbtree_foreach_def tree_now_def)
  obtain freed where "rbtree_dispose (m_nodes mem) (tree_now mem m) =
      Some (freed, clear A (m_nodes mem), (tree_now mem m)\<lparr>rb_root := 0, rb_size := 0\<rparr>)"
    using dispose_holds [OF h] by blast
  then have "rbtree_dispose (m_nodes mem) (sm_tree m) = Some (freed, clear A (m_nodes mem), (sm_tree m)\<lparr>rb_root := 0, rb_size := 0\<rparr>)"
    by (auto simp: rbtree_dispose_def tree_now_def bind_Some_iff)
  then have run: "strmap_dispose mem m = Inr (freed_values (sm_owns_value m) mem es, ?mem\<lparr>m_nodes := clear A (m_nodes mem)\<rparr>)"
    unfolding strmap_dispose_def walk by (simp add: of_opt_def)
  moreover have "clear A (m_nodes mem) = Map.empty"
    using dom(1) by (auto simp: clear_def fun_eq_iff)
  moreover have "(m_entries mem) |` (- set es) = Map.empty" "(m_strs mem) |` (- (entry_key mem ` set es)) = Map.empty"
    using dom(2,3) by (auto simp: restrict_map_def img fun_eq_iff)
  ultimately show ?thesis by (intro exI [of _ "?mem\<lparr>m_nodes := clear A (m_nodes mem)\<rparr>"]) simp
qed

text \<open>The strings of the tree, in the order of the tree.\<close>

lemma sm_rep_strings:
  assumes rep: "sm_rep mem m es A ps"
  shows "sorted_wrt (\<lambda>a b. strcmp a b < 0) (map (entry_str mem) es)"
    and "set (map (entry_str mem) es) = dom (sm_lookup mem es)"
    and "e \<in> set es \<Longrightarrow> sm_lookup mem es (entry_str mem e) = Some (e_value (the (m_entries mem e)))"
proof -
  have "increasing (entry_cmp mem) es"
    using rep holds_increasing by (fastforce simp: sm_rep_def tree_now_def)
  then show "sorted_wrt (\<lambda>a b. strcmp a b < 0) (map (entry_str mem) es)"
    by (simp add: increasing_def sorted_wrt_map entry_cmp_def)
  show "set (map (entry_str mem) es) = dom (sm_lookup mem es)"
    using sm_lookup_None [of mem es] by (auto simp: dom_def image_iff)
  show "e \<in> set es \<Longrightarrow> sm_lookup mem es (entry_str mem e) = Some (e_value (the (m_entries mem e)))"
    unfolding sm_lookup_iff [OF rep] by blast
qed

definition values_of :: "(string \<rightharpoonup> 'v option) \<Rightarrow> string list \<Rightarrow> 'v list" where
  "values_of M ss = concat (map (\<lambda>s. case M s of Some (Some v) \<Rightarrow> [v] | _ \<Rightarrow> []) ss)"

lemma freed_values_strings:
  assumes "sm_rep mem m es A ps"
  shows "freed_values owns mem es = (if owns then values_of (sm_lookup mem es) (map (entry_str mem) es) else [])"
proof -
  have "map (\<lambda>e. case e_value (the (m_entries mem e)) of None \<Rightarrow> [] | Some v \<Rightarrow> [v]) es =
      map (\<lambda>e. case sm_lookup mem es (entry_str mem e) of Some (Some v) \<Rightarrow> [v] | _ \<Rightarrow> []) es"
    using sm_rep_strings(3) [OF assms] by (intro map_cong) (simp_all split: option.split)
  then show ?thesis unfolding freed_values_def values_of_def map_map comp_def by (cases owns) (simp_all only: if_True if_False)
qed

section \<open>Cloning\<close>

lemma clone_entries:
  "sm_holds mem m M ks \<Longrightarrow> distinct (map (entry_str src) es) \<Longrightarrow> length ks + length es < 2 ^ 60 \<Longrightarrow>
   (\<And>e. e \<in> set es \<Longrightarrow> m_entries src e \<noteq> None \<and> m_strs src (entry_key src e) \<noteq> None \<and> M (entry_str src e) = None) \<Longrightarrow>
   \<exists>mem' m' M'. fold (clone_entry cl owns src) es (Inr (mem, m)) = Inr (mem', m') \<and>
     sm_holds mem' m' M' (ks @ map (entry_str src) es) \<and>
     (\<forall>s. s \<notin> entry_str src ` set es \<longrightarrow> M' s = M s) \<and>
     (\<forall>e \<in> set es. M' (entry_str src e) = Some (if owns then map_option cl (e_value (the (m_entries src e))) else e_value (the (m_entries src e))))"
proof (induction es arbitrary: mem m M ks)
  case Nil
  then show ?case by auto
next
  case (Cons e es)
  obtain en where en: "m_entries src e = Some en" using Cons.prems(4) [of e] by auto
  then have key: "entry_key src e = e_key en" by (simp add: entry_key_def)
  let ?s = "entry_str src e" and ?v = "if owns then map_option cl (e_value en) else e_value en"
  have str: "m_strs src (e_key en) = Some ?s" using Cons.prems(4) [of e] by (auto simp: entry_str_def key)
  have new: "M ?s = None" using Cons.prems(4) [of e] by simp
  obtain mem1 m1 where ins: "strmap_insert mem m ?s ?v = Inr (None, mem1, m1)" "sm_holds mem1 m1 (M(?s \<mapsto> ?v)) (ks @ [?s])"
    using insert_sm_holds [OF Cons.prems(1), of ?s ?v] Cons.prems(3) new by auto
  have one: "clone_entry cl owns src e (Inr (mem, m)) = Inr (mem1, m1)"
    using ins(1) by (simp add: clone_entry_def en str del: if_distrib)
  have "\<exists>mem' m' M'. fold (clone_entry cl owns src) es (Inr (mem1, m1)) = Inr (mem', m') \<and>
     sm_holds mem' m' M' ((ks @ [?s]) @ map (entry_str src) es) \<and>
     (\<forall>s. s \<notin> entry_str src ` set es \<longrightarrow> M' s = (M(?s \<mapsto> ?v)) s) \<and>
     (\<forall>e \<in> set es. M' (entry_str src e) = Some (if owns then map_option cl (e_value (the (m_entries src e))) else e_value (the (m_entries src e))))"
  proof (intro Cons.IH [OF ins(2)])
    fix x assume x: "x \<in> set es"
    then have "entry_str src x \<noteq> ?s" using Cons.prems(2) by (auto simp: image_iff)
    then show "m_entries src x \<noteq> None \<and> m_strs src (entry_key src x) \<noteq> None \<and> (M(?s \<mapsto> ?v)) (entry_str src x) = None"
      using Cons.prems(4) [of x] x by simp
  qed (use Cons.prems(2,3) in simp_all)
  then obtain mem' m' M' where r: "fold (clone_entry cl owns src) es (Inr (mem1, m1)) = Inr (mem', m')"
     "sm_holds mem' m' M' (ks @ map (entry_str src) (e # es))"
     "\<forall>s. s \<notin> entry_str src ` set es \<longrightarrow> M' s = (M(?s \<mapsto> ?v)) s"
     "\<forall>e \<in> set es. M' (entry_str src e) = Some (if owns then map_option cl (e_value (the (m_entries src e))) else e_value (the (m_entries src e)))"
    by auto
  have "M' ?s = Some ?v" using r(3) Cons.prems(2) by auto
  then show ?case
    using r one by (intro exI [of _ mem'] exI [of _ m'] exI [of _ M']) (auto simp: en)
qed

lemma clone_sm_rep:
  assumes rep: "sm_rep src sm es A ps" and "length ps < 2 ^ 60"
  shows "\<exists>mem' m'. strmap_clone cl empty_mem src sm = Inr (mem', m') \<and>
    sm_holds mem' m' (\<lambda>s. map_option (if sm_owns_value sm then map_option cl else id) (sm_lookup src es s)) (map (entry_str src) es)"
proof -
  obtain dst where dst: "strmap_new (empty_mem :: 'a sm_mem) (sm_owns_value sm) = Inr dst"
      "sm_holds (empty_mem :: 'a sm_mem) dst Map.empty []"
    using new_sm_holds by blast
  have live: "m_entries src e \<noteq> None \<and> m_strs src (entry_key src e) \<noteq> None" if "e \<in> set es" for e
    using sm_rep_key(4,5) [OF rep that] by (metis option.distinct(1))
  have d: "distinct (map (entry_str src) es)" using sm_rep_inj [OF rep] by (simp add: distinct_map)
  have len: "length es < 2 ^ 60" using sm_rep_sizes(1) [OF rep] assms(2) by simp
  obtain mem' m' M' where r: "fold (clone_entry cl (sm_owns_value sm) src) es (Inr (empty_mem, dst)) = Inr (mem', m')"
     "sm_holds mem' m' M' (map (entry_str src) es)"
     "\<forall>s. s \<notin> entry_str src ` set es \<longrightarrow> M' s = None"
     "\<forall>e \<in> set es. M' (entry_str src e) = Some (if sm_owns_value sm then map_option cl (e_value (the (m_entries src e))) else e_value (the (m_entries src e)))"
    using clone_entries [OF dst(2) d, of cl "sm_owns_value sm"] live len by auto
  have "holds (m_nodes src) (tree_now src sm) es A" using rep by (simp add: sm_rep_def)
  from foreach_holds [OF this, of "clone_entry cl (sm_owns_value sm) src" "Inr (empty_mem, dst)"]
  have "rbtree_foreach (m_nodes src) (sm_tree sm) (clone_entry cl (sm_owns_value sm) src) (Inr (empty_mem, dst)) =
      Some (Inr (mem', m'))"
    using r(1) by (simp add: rbtree_foreach_def tree_now_def)
  then have run: "strmap_clone cl empty_mem src sm = Inr (mem', m')" by (simp add: strmap_clone_def dst(1) of_opt_def)
  have "M' s = map_option (if sm_owns_value sm then map_option cl else id) (sm_lookup src es s)" for s
  proof (cases "s \<in> entry_str src ` set es")
    case True
    then obtain e where "e \<in> set es" "s = entry_str src e" by blast
    then show ?thesis using r(4) sm_rep_strings(3) [OF rep] by simp
  next
    case False
    then have "sm_lookup src es s = None" using sm_lookup_None [of src es s] by auto
    then show ?thesis using r(3) False by simp
  qed
  then have "M' = (\<lambda>s. map_option (if sm_owns_value sm then map_option cl else id) (sm_lookup src es s))" by (rule ext)
  then show ?thesis using run r(2) by blast
qed

section \<open>Properties\<close>

text \<open>
  C13 (refinement). A string map refines a finite map with the keys in insertion order: inserting
  returns the value it replaces and appends a new key, removing returns the value and drops the
  key, and the memory that is live stays exactly what the map needs.
\<close>

theorem strmap_update_correct:
  assumes "sm_holds mem m M ks" and "length ks < 2 ^ 60"
  shows "(\<exists>mem' m'. strmap_insert mem m s v = Inr (case M s of None \<Rightarrow> None | Some w \<Rightarrow> w, mem', m') \<and>
      sm_holds mem' m' (M(s \<mapsto> v)) (if M s = None then ks @ [s] else ks)) \<and>
    (\<exists>mem' m'. strmap_remove mem m s = Inr (case M s of None \<Rightarrow> None | Some w \<Rightarrow> w, mem', m') \<and>
      sm_holds mem' m' (M(s := None)) (filter (\<lambda>k. k \<noteq> s) ks))"
  using insert_sm_holds [OF assms] remove_sm_holds [OF assms(1)] by blast

theorem strmap_update_correct_witness:
  "\<exists>m mem' m'. strmap_new (empty_mem :: int sm_mem) True = Inr m \<and> strmap_insert empty_mem m ''x'' (Some (7::int)) = Inr (None, mem', m') \<and>
     sm_holds mem' m' [''x'' \<mapsto> Some 7] [''x'']"
proof -
  obtain m where m: "strmap_new (empty_mem :: int sm_mem) True = Inr m" "sm_holds (empty_mem :: int sm_mem) m Map.empty []"
    using new_sm_holds by blast
  show ?thesis using strmap_update_correct [OF m(2), of "''x''" "Some 7"] m(1) by auto
qed

text \<open>
  C14 (safety). What a map exposes agrees with its contents: lookups, size, and the key view, which
  lists every key exactly once; and there is one node, one entry and one key string alive per key,
  so nothing is leaked and nothing the map refers to is gone.
\<close>

theorem strmap_lookup_correct:
  assumes "sm_holds mem m M ks"
  shows "strmap_get mem m s = Inr (case M s of None \<Rightarrow> None | Some v \<Rightarrow> v) \<and>
    strmap_contains mem m s = Inr (s \<in> dom M) \<and> strmap_size m = length ks \<and> (strmap_is_empty m \<longleftrightarrow> ks = []) \<and>
    distinct ks \<and> set ks = dom M \<and>
    (\<forall>i < length ks. \<exists>p. vec_get (sm_keys m) i = Inr (Some p) \<and> m_strs mem p = Some (ks ! i)) \<and>
    card (dom (m_nodes mem)) = length ks \<and> card (dom (m_entries mem)) = length ks \<and> card (dom (m_strs mem)) = length ks"
proof -
  obtain es A ps where rep: "sm_rep mem m es A ps" and M: "M = sm_lookup mem es" and ks: "ks = map (\<lambda>p. the (m_strs mem p)) ps"
    using assms by (auto simp: sm_holds_def)
  have len: "length ks = length ps" by (simp add: ks)
  have "\<exists>p. vec_get (sm_keys m) i = Inr (Some p) \<and> m_strs mem p = Some (ks ! i)" if i: "i < length ks" for i
  proof -
    have v: "vec_holds (sm_keys m) (map Some ps)" and "dom (m_strs mem) = set ps" using rep by (simp_all add: sm_rep_def)
    then have "m_strs mem (ps ! i) \<noteq> None" using i len by (metis domIff nth_mem)
    then show ?thesis using vec_get_holds [OF v, of i] i len by (auto simp: ks)
  qed
  then show ?thesis
    using strmap_get_holds [OF rep, of s] sm_rep_sizes [OF rep] sm_holds_keys [OF assms] len
    by (auto simp: M strmap_size_def strmap_is_empty_def rbtree_is_empty_def domIff)
qed

theorem strmap_lookup_correct_witness:
  "\<exists>m mem' m'. strmap_new (empty_mem :: int sm_mem) True = Inr m \<and> strmap_insert empty_mem m ''x'' (Some (7::int)) = Inr (None, mem', m') \<and>
     strmap_get mem' m' ''x'' = Inr (Some 7) \<and> strmap_contains mem' m' ''y'' = Inr False \<and> strmap_size m' = 1"
proof -
  obtain m where m: "strmap_new (empty_mem :: int sm_mem) True = Inr m" "sm_holds (empty_mem :: int sm_mem) m Map.empty []"
    using new_sm_holds by blast
  obtain mem' m' where r: "strmap_insert empty_mem m ''x'' (Some (7::int)) = Inr (None, mem', m')"
      "sm_holds mem' m' [''x'' \<mapsto> Some 7] [''x'']"
    using insert_sm_holds [OF m(2), of "''x''" "Some 7"] by auto
  show ?thesis
    using m(1) r(1) strmap_lookup_correct [OF r(2), of "''x''"] strmap_lookup_correct [OF r(2), of "''y''"] by simp
qed



text \<open>
  C16 (functional). A clone has the bindings of its source, with cloned values if the map owns them,
  but its key view is in the order of the bytes of the keys: the insertion order is lost.
\<close>

theorem strmap_clone_correct:
  assumes "sm_holds src sm M ks" and "length ks < 2 ^ 60"
  shows "\<exists>mem' m' ss. strmap_clone cl empty_mem src sm = Inr (mem', m') \<and>
    sm_holds mem' m' (\<lambda>s. map_option (if sm_owns_value sm then map_option cl else id) (M s)) ss \<and>
    sorted_wrt (\<lambda>a b. strcmp a b < 0) ss \<and> set ss = set ks"
proof -
  obtain es A ps where rep: "sm_rep src sm es A ps" and M: "M = sm_lookup src es" and ks: "ks = map (\<lambda>p. the (m_strs src p)) ps"
    using assms(1) by (auto simp: sm_holds_def)
  have "length ps < 2 ^ 60" using assms(2) by (simp add: ks)
  then show ?thesis
    using clone_sm_rep [OF rep, of cl] sm_rep_strings(1,2) [OF rep] sm_holds_keys(2) [OF assms(1)] unfolding M by metis
qed

lemma two_keys:
  "\<exists>m mem1 m1 mem2 m2. strmap_new (empty_mem :: int sm_mem) False = Inr m \<and> strmap_insert empty_mem m ''y'' (Some (7::int)) = Inr (None, mem1, m1) \<and>
     strmap_insert mem1 m1 ''x'' (Some 8) = Inr (None, mem2, m2) \<and> sm_holds mem2 m2 [''y'' \<mapsto> Some 7, ''x'' \<mapsto> Some 8] [''y'', ''x'']"
proof -
  obtain m where m: "strmap_new (empty_mem :: int sm_mem) False = Inr m" "sm_holds (empty_mem :: int sm_mem) m Map.empty []"
    using new_sm_holds by blast
  obtain mem1 m1 where r: "strmap_insert empty_mem m ''y'' (Some (7::int)) = Inr (None, mem1, m1)"
      "sm_holds mem1 m1 [''y'' \<mapsto> Some 7] [''y'']"
    using insert_sm_holds [OF m(2), of "''y''" "Some 7"] by auto
  show ?thesis using m(1) r(1) insert_sm_holds [OF r(2), of "''x''" "Some 8"] by auto
qed

theorem strmap_clone_correct_witness:
  "\<exists>m mem1 m1 mem2 m2 mem3 m3 M. strmap_new (empty_mem :: int sm_mem) False = Inr m \<and> strmap_insert empty_mem m ''y'' (Some (7::int)) = Inr (None, mem1, m1) \<and>
     strmap_insert mem1 m1 ''x'' (Some 8) = Inr (None, mem2, m2) \<and> sm_holds mem2 m2 M [''y'', ''x''] \<and>
     strmap_clone id empty_mem mem2 m2 = Inr (mem3, m3) \<and> sm_holds mem3 m3 M [''x'', ''y'']"
proof -
  obtain m mem1 m1 mem2 m2 where r: "strmap_new (empty_mem :: int sm_mem) False = Inr m" "strmap_insert empty_mem m ''y'' (Some (7::int)) = Inr (None, mem1, m1)"
     "strmap_insert mem1 m1 ''x'' (Some 8) = Inr (None, mem2, m2)" "sm_holds mem2 m2 [''y'' \<mapsto> Some 7, ''x'' \<mapsto> Some 8] [''y'', ''x'']"
    using two_keys by blast
  have "length [''y'', ''x''] < 2 ^ 60" by simp
  from strmap_clone_correct [OF r(4) this, of id] obtain mem3 m3 ss where c: "strmap_clone id empty_mem mem2 m2 = Inr (mem3, m3)"
    "sm_holds mem3 m3 (\<lambda>s. map_option (if sm_owns_value m2 then map_option id else id) ([''y'' \<mapsto> Some 7, ''x'' \<mapsto> Some 8] s)) ss"
    "sorted_wrt (\<lambda>a b. strcmp a b < 0) ss" "set ss = set [''y'', ''x'']" by blast
  have "(\<lambda>s. map_option (if sm_owns_value m2 then map_option id else id) ([''y'' \<mapsto> Some 7, ''x'' \<mapsto> Some 8] s)) =
      [''y'' \<mapsto> Some 7, ''x'' \<mapsto> Some (8::int)]"
    by (auto simp: option.map_id option.map_id0 fun_eq_iff)
  moreover have "ss = [''x'', ''y'']"
  proof -
    have "distinct ss" using sm_holds_keys(1) [OF c(2)] .
    then have "length ss = 2" using c(4) distinct_card [of ss] by simp
    then obtain a b where ab: "ss = [a, b]" by (auto simp: length_Suc_conv numeral_2_eq_2)
    then have "(a = ''x'' \<and> b = ''y'') \<or> (a = ''y'' \<and> b = ''x'')" using c(4) by (auto simp: doubleton_eq_iff)
    then show ?thesis using c(3) ab by (auto simp: of_char_def)
  qed
  ultimately show ?thesis using r c(1,2) by (metis (no_types, lifting))
qed

end
