(* ===== verification/Stream_In.thy ===== *)
theory Stream_In
  imports Prelude
begin

text \<open>
  The input stream of \<open>src/core/stream.c\<close> over a memory source: decoding of code points, position
  tracking, seeking. ICU is not part of the program: its functions are the fields of a record that
  every definition takes, and \<open>icu_ok\<close> states what the code relies on: at least one byte and no byte
  past the end is taken, an ASCII byte is its own code point, and a sequence that starts with a byte
  above 127 gives no ASCII code point and takes no ASCII byte, even if it is malformed. Buffers are smaller than
  \<open>2 ^ 31\<close> bytes, so that no size is cut by a cast.
\<close>

section \<open>ICU\<close>

text \<open>
  \<open>u8_next bs\<close> is \<open>U8_NEXT_OR_FFFD\<close> at index 0 of a buffer: the code point and the number of bytes
  taken. \<open>utf16_of\<close> is \<open>u_strFromUTF8\<close> (\<open>None\<close>: failure), \<open>boundaries\<close> the positions that
  \<open>ubrk_first\<close> and \<open>ubrk_next\<close> return before \<open>UBRK_DONE\<close> (\<open>None\<close>: \<open>ubrk_open\<close> failed).
\<close>

record icu =
  u8_next :: "string \<Rightarrow> int \<times> nat"
  id_start :: "int \<Rightarrow> bool"
  id_part :: "int \<Rightarrow> bool"
  utf16_of :: "string \<Rightarrow> 16 word list option"
  boundaries :: "16 word list \<Rightarrow> nat list option"

definition icu_ok :: "icu \<Rightarrow> bool" where
  "icu_ok icu \<longleftrightarrow> (\<forall>bs. bs \<noteq> [] \<longrightarrow> 0 < snd (u8_next icu bs) \<and> snd (u8_next icu bs) \<le> length bs \<and>
     (if of_char (hd bs) < (128 :: int) then u8_next icu bs = (of_char (hd bs), 1) else 128 \<le> fst (u8_next icu bs)) \<and>
     (\<forall>c \<in> set (take (snd (u8_next icu bs)) bs). of_char (hd bs) \<ge> (128 :: int) \<longrightarrow> of_char c \<ge> (128 :: int)))"

section \<open>Memory source\<close>

record mem_source =
  ms_data :: string
  ms_pos :: nat

definition mem_source_read :: "mem_source \<Rightarrow> nat \<Rightarrow> string \<times> mem_source" where
  "mem_source_read c n =
     (let avail = length (ms_data c) - ms_pos c;
          n = (if n > avail then avail else n)
      in (slice (ms_data c) (ms_pos c) n, c\<lparr>ms_pos := ms_pos c + n\<rparr>))"

definition mem_source_seek :: "mem_source \<Rightarrow> nat \<Rightarrow> mem_source" where
  "mem_source_seek c offset =
     c\<lparr>ms_pos := (if offset > length (ms_data c) then length (ms_data c) else offset)\<rparr>"

text \<open>The length of a sequence by its lead byte; a byte that starts none counts as one.\<close>

definition lead_len :: "char \<Rightarrow> nat" where
  "lead_len c =
     (let lead = of_char c :: nat in
      if lead \<ge> 0xC2 \<and> lead < 0xE0 then 2
      else if lead \<ge> 0xE0 \<and> lead < 0xF0 then 3
      else if lead \<ge> 0xF0 then 4 else 1)"

text \<open>
  The result is the code point (\<open>- 1\<close> at the end), the bytes read into \<open>seq\<close>, the number of them
  that the code point takes, and the source.
\<close>

definition source_read_cp :: "icu \<Rightarrow> mem_source \<Rightarrow> nat \<Rightarrow> int \<times> string \<times> nat \<times> mem_source" where
  "source_read_cp icu src offset =
     (let src = mem_source_seek src offset;
          (first, src) = mem_source_read src 1 in
      case first of
        [] \<Rightarrow> (- 1, [], 0, src)
      | lead # _ \<Rightarrow>
        let seq_len = lead_len lead;
            (rest, src) = (if seq_len > 1 then mem_source_read src (seq_len - 1) else ([], src));
            seq = first @ rest;
            (cp, cp_bytes) = u8_next icu seq
        in (cp, seq, cp_bytes, src))"

definition is_line_break :: "int \<Rightarrow> bool" where
  "is_line_break cp \<longleftrightarrow> cp = 0x000A \<or> cp = 0x000D \<or> cp = 0x2028 \<or> cp = 0x2029"

section \<open>Input stream\<close>

text \<open>\<open>is_buf\<close> holds the \<open>line_buf_len\<close> bytes of the line buffer that are in use.\<close>

record istream =
  is_source :: mem_source
  is_buf :: string
  is_cap :: nat
  is_pos :: nat
  is_line :: nat
  is_col :: nat
  is_line_start :: nat

record stream_pos =
  sp_offset :: nat
  sp_line :: nat
  sp_col :: nat
  sp_cluster :: nat

function grow_cap :: "nat \<Rightarrow> nat \<Rightarrow> nat" where
  "grow_cap new_cap needed =
     (if 0 < new_cap \<and> new_cap < needed then grow_cap (new_cap * 2) needed else new_cap)"
  by pat_completeness auto
termination by (relation "measure (\<lambda>(c, n). n - c)") auto

declare grow_cap.simps [simp del]

definition istream_ensure_line_buf :: "istream \<Rightarrow> nat \<Rightarrow> istream" where
  "istream_ensure_line_buf s extra =
     (if length (is_buf s) + extra \<le> is_cap s then s
      else s\<lparr>is_cap := grow_cap (if is_cap s \<noteq> 0 then is_cap s * 2 else 64) (length (is_buf s) + extra)\<rparr>)"

definition istream_open :: "mem_source \<Rightarrow> istream" where
  "istream_open source = \<lparr>is_source = source, is_buf = [], is_cap = 0, is_pos = 0, is_line = 1,
     is_col = 1, is_line_start = 0\<rparr>"

definition istream_read_cp :: "icu \<Rightarrow> istream \<Rightarrow> int \<times> istream" where
  "istream_read_cp icu s =
     (let (cp, seq, cp_bytes, src) = source_read_cp icu (is_source s) (is_pos s);
          s = s\<lparr>is_source := src\<rparr> in
      if cp = - 1 then (- 1, s)
      else
        let s = istream_ensure_line_buf s cp_bytes;
            s = s\<lparr>is_buf := is_buf s @ take cp_bytes seq\<rparr> in
        if is_line_break cp then
          let s = s\<lparr>is_line := is_line s + 1, is_col := 1\<rparr>;
              (cp_bytes, s) =
                (if cp = 0x000D then
                   let (next_cp, _, next_bytes, src) = source_read_cp icu (is_source s) (is_pos s + cp_bytes) in
                   if next_cp = 0x000A then (cp_bytes + next_bytes, s\<lparr>is_source := src\<rparr>)
                   else (cp_bytes, s\<lparr>is_source := mem_source_seek src (is_pos s + cp_bytes)\<rparr>)
                 else (cp_bytes, s))
          in (cp, s\<lparr>is_line_start := is_pos s + cp_bytes, is_buf := [], is_pos := is_pos s + cp_bytes\<rparr>)
        else (cp, s\<lparr>is_col := is_col s + 1, is_pos := is_pos s + cp_bytes\<rparr>))"

definition istream_peek_cp :: "icu \<Rightarrow> istream \<Rightarrow> int \<times> istream" where
  "istream_peek_cp icu s =
     (let (cp, _, cp_bytes, src) = source_read_cp icu (is_source s) (is_pos s)
      in (cp, s\<lparr>is_source := (if cp_bytes > 0 then mem_source_seek src (is_pos s) else src)\<rparr>))"

definition istream_size :: "istream \<Rightarrow> nat" where
  "istream_size s = length (ms_data (is_source s))"

definition istream_at_end :: "istream \<Rightarrow> bool" where
  "istream_at_end s \<longleftrightarrow> is_pos s \<ge> istream_size s"

definition istream_remaining :: "istream \<Rightarrow> nat" where
  "istream_remaining s = (if is_pos s < istream_size s then istream_size s - is_pos s else 0)"

text \<open>Positions: the column in grapheme clusters is counted over the bytes of the current line.\<close>

fun count_boundaries :: "nat \<Rightarrow> nat list \<Rightarrow> nat \<Rightarrow> nat" where
  "count_boundaries u16_len [] n = n"
| "count_boundaries u16_len (b # bs) n =
     (let n = (if b > 0 \<and> b \<le> u16_len then n + 1 else n)
      in if b \<ge> u16_len then n else count_boundaries u16_len bs n)"

definition compute_cluster_col :: "icu \<Rightarrow> string \<Rightarrow> nat" where
  "compute_cluster_col icu line =
     (if line = [] then 1
      else case utf16_of icu line of
        None \<Rightarrow> 1
      | Some u16 \<Rightarrow> if u16 = [] then 1
          else (case boundaries icu u16 of None \<Rightarrow> 1 | Some bs \<Rightarrow> count_boundaries (length u16) bs 1))"

definition istream_tell :: "icu \<Rightarrow> istream \<Rightarrow> stream_pos" where
  "istream_tell icu s = \<lparr>sp_offset = is_pos s, sp_line = is_line s, sp_col = is_col s,
     sp_cluster = (if is_buf s \<noteq> [] then compute_cluster_col icu (is_buf s) else 1)\<rparr>"

section \<open>Seeking\<close>

text \<open>
  \<open>scan_position\<close> walks from the start of the source to the target; the fuel counts its iterations,
  and the number of bytes to the target is enough. The result is the line, the column and the start
  of the line.
\<close>

fun scan_from :: "nat \<Rightarrow> icu \<Rightarrow> mem_source \<Rightarrow> nat \<Rightarrow> nat \<Rightarrow> nat \<times> nat \<times> nat \<Rightarrow> (nat \<times> nat \<times> nat) \<times> mem_source" where
  "scan_from 0 icu src target byte_pos info = (info, src)"
| "scan_from (Suc f) icu src target byte_pos (line, col, line_start) =
     (if \<not> byte_pos < target then ((line, col, line_start), src)
      else
        let (cp, _, cp_bytes, src) = source_read_cp icu src byte_pos in
        if cp = - 1 \<or> cp_bytes = 0 then ((line, col, line_start), src)
        else if is_line_break cp then
          let next_off = byte_pos + cp_bytes in
          if cp = 0x000D \<and> next_off < target then
            let (next_cp, _, next_bytes, src) = source_read_cp icu src next_off in
            if next_cp = 0x000A then
              scan_from f icu src target (next_off + next_bytes) (line + 1, 1, next_off + next_bytes)
            else scan_from f icu src target (byte_pos + cp_bytes) (line + 1, 1, byte_pos + cp_bytes)
          else scan_from f icu src target (byte_pos + cp_bytes) (line + 1, 1, byte_pos + cp_bytes)
        else scan_from f icu src target (byte_pos + cp_bytes) (line, col + 1, line_start))"

definition scan_position :: "icu \<Rightarrow> mem_source \<Rightarrow> nat \<Rightarrow> (nat \<times> nat \<times> nat) \<times> mem_source" where
  "scan_position icu src target_offset =
     (if target_offset = 0 then ((1, 1, 0), src)
      else scan_from target_offset icu (mem_source_seek src 0) target_offset 0 (1, 1, 0))"

text \<open>The difference of two \<open>size_t\<close> values wraps around.\<close>

definition size_sub :: "nat \<Rightarrow> nat \<Rightarrow> nat" where
  "size_sub a b = nat ((int a - int b) mod 2 ^ 64)"

lemma size_sub_le: "b \<le> a \<Longrightarrow> a < 2 ^ 64 \<Longrightarrow> size_sub a b = a - b"
  by (simp add: size_sub_def)

definition istream_seek :: "icu \<Rightarrow> istream \<Rightarrow> nat \<Rightarrow> istream" where
  "istream_seek icu s byte_offset =
     (let total = istream_size s;
          byte_offset = (if byte_offset > total then total else byte_offset) in
      if byte_offset = 0 then
        s\<lparr>is_pos := 0, is_line := 1, is_col := 1, is_line_start := 0, is_buf := [],
          is_source := mem_source_seek (is_source s) 0\<rparr>
      else
        let ((line, col, line_start), src) = scan_position icu (is_source s) byte_offset;
            s = s\<lparr>is_source := src, is_pos := byte_offset, is_line := line, is_col := col, is_line_start := line_start\<rparr>;
            line_len = size_sub byte_offset line_start;
            s = (if line_len > 0 then
                   let s = istream_ensure_line_buf s line_len;
                       (bytes, src) = mem_source_read (mem_source_seek (is_source s) line_start) line_len
                   in s\<lparr>is_buf := bytes, is_source := src\<rparr>
                 else s\<lparr>is_buf := []\<rparr>)
        in s\<lparr>is_source := mem_source_seek (is_source s) byte_offset\<rparr>)"

section \<open>Reading\<close>

text \<open>What the next code point of a byte sequence is: \<open>- 1\<close> and 0 at the end.\<close>

definition dec :: "icu \<Rightarrow> string \<Rightarrow> int \<times> nat" where
  "dec icu bs = (case bs of [] \<Rightarrow> (- 1, 0) | lead # _ \<Rightarrow> u8_next icu (take (lead_len lead) bs))"

lemma lead_len_pos: "0 < lead_len c"
  by (simp add: lead_len_def Let_def)

lemma source_read_cp_dec:
  "\<exists>src'. source_read_cp icu src off =
     (fst (dec icu (drop off (ms_data src))), take (case drop off (ms_data src) of [] \<Rightarrow> 0 | lead # _ \<Rightarrow> lead_len lead) (drop off (ms_data src)),
      snd (dec icu (drop off (ms_data src))), src') \<and> ms_data src' = ms_data src"
proof (cases "drop off (ms_data src)")
  case Nil
  then show ?thesis
    by (auto simp: source_read_cp_def mem_source_seek_def mem_source_read_def slice_def dec_def Let_def)
next
  case (Cons lead rest)
  let ?d = "ms_data src"
  have off: "off < length ?d" using Cons by (metis drop_all not_le list.distinct(1))
  have one: "mem_source_read (mem_source_seek src off) 1 = ([lead], src\<lparr>ms_pos := off + 1\<rparr>)"
    using Cons off by (simp add: mem_source_read_def mem_source_seek_def slice_def)
  have rest: "fst (mem_source_read (src\<lparr>ms_pos := off + 1\<rparr>) n) = take n rest" for n
  proof -
    have "drop (off + 1) ?d = rest" using Cons by (metis add.commute drop_drop drop_Suc_Cons drop0 One_nat_def)
    moreover from this have "length rest = length ?d - (off + 1)" by (metis length_drop)
    ultimately show ?thesis by (simp add: mem_source_read_def slice_def Let_def)
  qed
  have rest': "ms_data (snd (mem_source_read (src\<lparr>ms_pos := off + 1\<rparr>) n)) = ?d" for n
    by (simp add: mem_source_read_def Let_def)
  have seq: "[lead] @ (if lead_len lead > 1 then take (lead_len lead - 1) rest else []) = take (lead_len lead) (lead # rest)"
    using lead_len_pos [of lead] by (auto simp: take_Cons')
  define seq where "seq = take (lead_len lead) (lead # rest)"
  let ?src = "src\<lparr>ms_pos := off + 1\<rparr>"
  define src' where "src' = snd (if lead_len lead > 1 then mem_source_read ?src (lead_len lead - 1) else ([], ?src))"
  have src': "(if lead_len lead > 1 then mem_source_read ?src (lead_len lead - 1) else ([], ?src)) =
      (if lead_len lead > 1 then take (lead_len lead - 1) rest else [], src')" "ms_data src' = ?d"
    using rest [of "lead_len lead - 1"] rest' [of "lead_len lead - 1"] unfolding src'_def by (simp_all add: prod_eq_iff)
  have "source_read_cp icu src off = (fst (u8_next icu seq), seq, snd (u8_next icu seq), src')"
    unfolding source_read_cp_def one Let_def prod.case list.case src' seq seq_def [symmetric] by (simp add: split_beta)
  then show ?thesis using src'(2) by (auto simp: Cons dec_def seq_def)
qed

lemma dec_Cons:
  fixes lead bs
  assumes "icu_ok icu"
  defines "d \<equiv> dec icu (lead # bs)"
  shows "0 < snd d" and "snd d \<le> length (lead # bs)" and "snd d \<le> lead_len lead"
    and "of_char lead < (128 :: int) \<Longrightarrow> d = (of_char lead, 1)" and "\<not> of_char lead < (128 :: int) \<Longrightarrow> 128 \<le> fst d"
    and "\<not> of_char lead < (128 :: int) \<Longrightarrow> c \<in> set (take (snd d) (lead # bs)) \<Longrightarrow> \<not> of_char c < (128 :: int)"
proof -
  let ?x = "take (lead_len lead) (lead # bs)"
  have x: "?x \<noteq> []" "hd ?x = lead" "length ?x \<le> length (lead # bs)" "length ?x \<le> lead_len lead"
    using lead_len_pos [of lead] by (simp_all add: take_Cons')
  have "d = u8_next icu ?x" by (simp add: dec_def d_def)
  moreover have u: "0 < snd (u8_next icu ?x)" "snd (u8_next icu ?x) \<le> length ?x"
     "if of_char (hd ?x) < (128 :: int) then u8_next icu ?x = (of_char (hd ?x), 1) else 128 \<le> fst (u8_next icu ?x)"
     "\<forall>c \<in> set (take (snd (u8_next icu ?x)) ?x). of_char (hd ?x) \<ge> (128 :: int) \<longrightarrow> of_char c \<ge> (128 :: int)"
    using assms(1) x(1) unfolding icu_ok_def by blast+
  ultimately show "0 < snd d" "snd d \<le> length (lead # bs)" "snd d \<le> lead_len lead"
    "of_char lead < (128 :: int) \<Longrightarrow> d = (of_char lead, 1)" "\<not> of_char lead < (128 :: int) \<Longrightarrow> 128 \<le> fst d"
    using x(2-4) by (simp_all del: take_Cons' list.size)
  have "take (snd d) ?x = take (snd d) (lead # bs)" using \<open>snd d \<le> lead_len lead\<close> by (simp only: take_take min_absorb1)
  then show "\<not> of_char lead < (128 :: int) \<Longrightarrow> c \<in> set (take (snd d) (lead # bs)) \<Longrightarrow> \<not> of_char c < (128 :: int)"
    using u(4) x(2) \<open>d = u8_next icu ?x\<close> by (metis linorder_not_le)
qed

lemma dec_neg: "icu_ok icu \<Longrightarrow> fst (dec icu bs) = - 1 \<longleftrightarrow> bs = []"
proof (cases bs)
  case (Cons lead rest)
  assume "icu_ok icu"
  from dec_Cons(4,5) [OF this, of lead rest] of_char_nonneg [of lead] show ?thesis
    unfolding Cons by (cases "of_char lead < (128 :: int)") auto
qed (simp add: dec_def)

lemma dec_len: "icu_ok icu \<Longrightarrow> bs \<noteq> [] \<Longrightarrow> 0 < snd (dec icu bs)" "icu_ok icu \<Longrightarrow> snd (dec icu bs) \<le> length bs"
  using dec_Cons(1,2) by (cases bs; simp add: dec_def)+

lemma dec_ascii:
  assumes "icu_ok icu" and "fst (dec icu bs) = c" and "0 \<le> c" and "c < 128"
  shows "dec icu bs = (c, 1) \<and> bs \<noteq> [] \<and> of_char (hd bs) = c"
proof (cases bs)
  case Nil
  then show ?thesis using assms(2,3) by (simp add: dec_def)
next
  case (Cons lead rest)
  then show ?thesis using dec_Cons(4,5) [OF assms(1), of lead rest] assms(2,4) by (cases "of_char lead < (128 :: int)") auto
qed

text \<open>The bytes not yet read, and the length of the next code point with a line feed after a carriage return.\<close>

definition rest :: "istream \<Rightarrow> string" where
  "rest s = drop (is_pos s) (ms_data (is_source s))"

definition step_len :: "icu \<Rightarrow> string \<Rightarrow> nat" where
  "step_len icu bs = (let (cp, n) = dec icu bs in
     if cp = 0x000D \<and> fst (dec icu (drop n bs)) = 0x000A then n + snd (dec icu (drop n bs)) else n)"

lemma peek_cp:
  "\<exists>src'. istream_peek_cp icu s = (fst (dec icu (rest s)), s\<lparr>is_source := src'\<rparr>) \<and> ms_data src' = ms_data (is_source s)"
proof -
  obtain src' n where "source_read_cp icu (is_source s) (is_pos s) = (fst (dec icu (rest s)), n, snd (dec icu (rest s)), src')"
    "ms_data src' = ms_data (is_source s)"
    using source_read_cp_dec [of icu "is_source s" "is_pos s"] by (auto simp: rest_def)
  then show ?thesis by (auto simp: istream_peek_cp_def mem_source_seek_def Let_def)
qed

definition ensured :: "istream \<Rightarrow> nat \<Rightarrow> nat" where
  "ensured s n = is_cap (istream_ensure_line_buf s n)"

lemma ensure_eq: "istream_ensure_line_buf s n = s\<lparr>is_cap := ensured s n\<rparr>"
  by (simp add: ensured_def istream_ensure_line_buf_def)

lemma ensured_source [simp]: "ensured (s\<lparr>is_source := x\<rparr>) n = ensured s n"
  by (simp add: ensured_def istream_ensure_line_buf_def)

lemma grow_cap_ge: "0 < c \<Longrightarrow> n \<le> grow_cap c n"
proof (induction c n rule: grow_cap.induct)
  case (1 c n)
  then show ?case by (subst grow_cap.simps) auto
qed

lemma ensured_ge: "length (is_buf s) + n \<le> ensured s n"
  using grow_cap_ge [of "if is_cap s \<noteq> 0 then is_cap s * 2 else 64" "length (is_buf s) + n"]
  by (simp add: ensured_def istream_ensure_line_buf_def)

lemma read_cp:
  fixes s icu
  assumes "icu_ok icu"
  defines "d \<equiv> dec icu (rest s)"
  shows "\<exists>src'. istream_read_cp icu s = (fst d, if fst d = - 1 then s\<lparr>is_source := src'\<rparr>
     else if is_line_break (fst d)
       then s\<lparr>is_source := src', is_cap := ensured s (snd d), is_line := is_line s + 1, is_col := 1, is_buf := [],
              is_line_start := is_pos s + step_len icu (rest s), is_pos := is_pos s + step_len icu (rest s)\<rparr>
       else s\<lparr>is_source := src', is_cap := ensured s (snd d), is_col := is_col s + 1, is_pos := is_pos s + snd d,
              is_buf := is_buf s @ take (snd d) (rest s)\<rparr>) \<and>
     ms_data src' = ms_data (is_source s)"
proof -
  let ?t = "take (case rest s of [] \<Rightarrow> 0 | lead # _ \<Rightarrow> lead_len lead) (rest s)"
  obtain src' where r: "source_read_cp icu (is_source s) (is_pos s) = (fst d, ?t, snd d, src')"
    "ms_data src' = ms_data (is_source s)"
    using source_read_cp_dec [of icu "is_source s" "is_pos s"] by (auto simp: rest_def d_def)
  obtain src2 t2 where r2: "source_read_cp icu src' (is_pos s + snd d) =
      (fst (dec icu (drop (snd d) (rest s))), t2, snd (dec icu (drop (snd d) (rest s))), src2)" "ms_data src2 = ms_data (is_source s)"
    using source_read_cp_dec [of icu src' "is_pos s + snd d"] by (auto simp: rest_def r(2) add.commute)
  have step: "step_len icu (rest s) = (if fst d = 0x000D \<and> fst (dec icu (drop (snd d) (rest s))) = 0x000A
      then snd d + snd (dec icu (drop (snd d) (rest s))) else snd d)"
    by (simp add: step_len_def d_def [symmetric] Let_def split_beta)
  have seq: "take (snd d) ?t = take (snd d) (rest s)"
    using dec_Cons(3) [OF assms(1)] by (cases "rest s") (auto simp: d_def min_absorb1 dec_def)
  consider "fst d = - 1" | "fst d \<noteq> - 1" "\<not> is_line_break (fst d)" | "fst d \<noteq> - 1" "is_line_break (fst d)" "fst d \<noteq> 0x000D"
    | "fst d = 0x000D" "fst (dec icu (drop (snd d) (rest s))) \<noteq> 0x000A" | "fst d = 0x000D" "fst (dec icu (drop (snd d) (rest s))) = 0x000A"
    by blast
  then show ?thesis
  proof cases
    case 1
    then show ?thesis unfolding istream_read_cp_def r(1) using r(2) by auto
  next
    case 2
    then show ?thesis unfolding istream_read_cp_def r(1) using r(2)
      by (intro exI [of _ src']) (simp add: ensure_eq seq del: take_take)
  next
    case 3
    then show ?thesis unfolding istream_read_cp_def r(1) using r(2) step
      by (intro exI [of _ src']) (simp add: ensure_eq)
  next
    case 4
    then show ?thesis unfolding istream_read_cp_def r(1) using r(2) r2 step
      by (intro exI [of _ "mem_source_seek src2 (is_pos s + snd d)"])
        (simp add: ensure_eq is_line_break_def mem_source_seek_def)
  next
    case 5
    then show ?thesis unfolding istream_read_cp_def r(1) using r(2) r2 step
      by (intro exI [of _ src2])
        (simp add: ensure_eq is_line_break_def add.assoc)
  qed
qed

lemma step_len_bounds:
  assumes "icu_ok icu" and "bs \<noteq> []"
  shows "0 < step_len icu bs" and "snd (dec icu bs) \<le> step_len icu bs" and "step_len icu bs \<le> length bs"
proof -
  have "snd (dec icu bs) \<le> length bs" "0 < snd (dec icu bs)" using dec_len [OF assms(1)] assms(2) by simp_all
  moreover have "snd (dec icu (drop n bs)) \<le> length bs - n" for n
    using dec_len(2) [OF assms(1), of "drop n bs"] by simp
  ultimately show "0 < step_len icu bs" "snd (dec icu bs) \<le> step_len icu bs" "step_len icu bs \<le> length bs"
    by (auto simp: step_len_def Let_def split_beta) (metis le_add_diff_inverse nat_add_left_cancel_le)
qed

section \<open>Reading and seeking agree\<close>

fun read_n :: "icu \<Rightarrow> nat \<Rightarrow> istream \<Rightarrow> istream" where
  "read_n icu 0 s = s"
| "read_n icu (Suc n) s = read_n icu n (snd (istream_read_cp icu s))"

text \<open>The invariant: the line buffer holds the bytes from the start of the line, and fits its capacity.\<close>

definition is_ok :: "istream \<Rightarrow> bool" where
  "is_ok s \<longleftrightarrow> is_line_start s \<le> is_pos s \<and> is_pos s \<le> istream_size s \<and> length (is_buf s) \<le> is_cap s \<and>
     is_buf s = slice (ms_data (is_source s)) (is_line_start s) (is_pos s - is_line_start s)"

lemma is_ok_open: "is_ok (istream_open src)"
  by (simp add: is_ok_def istream_open_def slice_def)

lemma length_rest: "length (rest s) = istream_size s - is_pos s"
  by (simp add: rest_def istream_size_def)

lemma is_ok_read:
  assumes "icu_ok icu" and "is_ok s"
  shows "is_ok (snd (istream_read_cp icu s))" and "is_pos s \<le> is_pos (snd (istream_read_cp icu s))"
    and "ms_data (is_source (snd (istream_read_cp icu s))) = ms_data (is_source s)"
    and "rest s \<noteq> [] \<Longrightarrow> is_pos s < is_pos (snd (istream_read_cp icu s))"
proof -
  let ?d = "dec icu (rest s)" and ?t = "snd (istream_read_cp icu s)"
  obtain src' where r: "istream_read_cp icu s = (fst ?d, if fst ?d = - 1 then s\<lparr>is_source := src'\<rparr>
     else if is_line_break (fst ?d)
       then s\<lparr>is_source := src', is_cap := ensured s (snd ?d), is_line := is_line s + 1, is_col := 1, is_buf := [],
              is_line_start := is_pos s + step_len icu (rest s), is_pos := is_pos s + step_len icu (rest s)\<rparr>
       else s\<lparr>is_source := src', is_cap := ensured s (snd ?d), is_col := is_col s + 1, is_pos := is_pos s + snd ?d,
              is_buf := is_buf s @ take (snd ?d) (rest s)\<rparr>)" and src': "ms_data src' = ms_data (is_source s)"
    using read_cp [OF assms(1)] by blast
  have ends: "fst ?d = - 1 \<longleftrightarrow> rest s = []" using dec_neg [OF assms(1)] .
  show "ms_data (is_source ?t) = ms_data (is_source s)" using r src' by simp
  have step: "0 < snd ?d \<and> snd ?d \<le> step_len icu (rest s) \<and> step_len icu (rest s) \<le> istream_size s - is_pos s" if "rest s \<noteq> []"
    using step_len_bounds [OF assms(1) that] dec_len(1) [OF assms(1) that] length_rest [of s] by simp
  show "is_pos s \<le> is_pos ?t" using r by simp
  show "rest s \<noteq> [] \<Longrightarrow> is_pos s < is_pos ?t" using r step ends by (auto simp: )
  consider "rest s = []" | "rest s \<noteq> []" "is_line_break (fst ?d)" | "rest s \<noteq> []" "\<not> is_line_break (fst ?d)" by blast
  then show "is_ok ?t"
  proof cases
    case 1
    then have "?t = s\<lparr>is_source := src'\<rparr>" using r ends by simp
    then show ?thesis using assms(2) src' unfolding is_ok_def istream_size_def by (auto simp del: )
  next
    case 2
    have "is_pos s \<le> istream_size s" using assms(2) by (simp add: is_ok_def)
    moreover from this have "is_pos s + step_len icu (rest s) \<le> istream_size s" using step [OF 2(1)] by linarith
    ultimately show ?thesis using 2 r src' ends by (simp add: is_ok_def istream_size_def slice_def)
  next
    case 3
    let ?D = "ms_data (is_source s)"
    have ok: "is_line_start s \<le> is_pos s" "is_pos s \<le> length ?D" "is_buf s = slice ?D (is_line_start s) (is_pos s - is_line_start s)"
      using assms(2) by (simp_all add: is_ok_def istream_size_def)
    have "is_buf s @ take (snd ?d) (rest s) = slice ?D (is_line_start s) (is_pos s + snd ?d - is_line_start s)"
    proof -
      have "is_pos s + snd ?d - is_line_start s = (is_pos s - is_line_start s) + snd ?d" using ok(1) by simp
      moreover have "drop (is_pos s - is_line_start s) (drop (is_line_start s) ?D) = rest s" using ok(1) by (simp add: rest_def)
      ultimately show ?thesis unfolding ok(3) slice_def by (simp only: take_add)
    qed
    moreover have "length (is_buf s @ take (snd ?d) (rest s)) \<le> ensured s (snd ?d)"
      using ensured_ge [of s "snd ?d"] by simp
    moreover have "is_pos s + snd ?d \<le> length ?D" using step [OF 3(1)] ok(2) unfolding istream_size_def by linarith
    ultimately show ?thesis using 3 r src' ends ok(1,2) by (simp add: is_ok_def istream_size_def)
  qed
qed

lemma read_n_ok:
  assumes "icu_ok icu" and "is_ok s"
  shows "is_ok (read_n icu k s) \<and> is_pos s \<le> is_pos (read_n icu k s) \<and>
    ms_data (is_source (read_n icu k s)) = ms_data (is_source s)"
  using assms(2)
proof (induction k arbitrary: s)
  case (Suc k)
  note r = is_ok_read [OF assms(1) Suc.prems]
  from Suc.IH [OF r(1)] r(2,3) show ?case by simp
qed simp

lemma scan_reads:
  assumes "icu_ok icu"
  shows "is_ok s \<Longrightarrow> ms_data src = ms_data (is_source s) \<Longrightarrow> is_pos (read_n icu k s) - is_pos s \<le> f \<Longrightarrow>
    \<exists>src'. scan_from f icu src (is_pos (read_n icu k s)) (is_pos s) (is_line s, is_col s, is_line_start s) =
      ((is_line (read_n icu k s), is_col (read_n icu k s), is_line_start (read_n icu k s)), src') \<and> ms_data src' = ms_data src"
proof (induction k arbitrary: s src f)
  case 0
  then show ?case by (cases f) auto
next
  case (Suc k)
  let ?d = "dec icu (rest s)" and ?s' = "snd (istream_read_cp icu s)" and ?t = "read_n icu (Suc k) s"
  obtain src1 where r: "istream_read_cp icu s = (fst ?d, if fst ?d = - 1 then s\<lparr>is_source := src1\<rparr>
     else if is_line_break (fst ?d)
       then s\<lparr>is_source := src1, is_cap := ensured s (snd ?d), is_line := is_line s + 1, is_col := 1, is_buf := [],
              is_line_start := is_pos s + step_len icu (rest s), is_pos := is_pos s + step_len icu (rest s)\<rparr>
       else s\<lparr>is_source := src1, is_cap := ensured s (snd ?d), is_col := is_col s + 1, is_pos := is_pos s + snd ?d,
              is_buf := is_buf s @ take (snd ?d) (rest s)\<rparr>)" and src1: "ms_data src1 = ms_data (is_source s)"
    using read_cp [OF assms] by blast
  note ok = is_ok_read [OF assms Suc.prems(1)]
  have le: "is_pos ?s' \<le> is_pos ?t" using read_n_ok [OF assms ok(1), of k] by simp
  have IH: "ms_data src2 = ms_data src \<Longrightarrow> is_pos ?t - is_pos ?s' \<le> f' \<Longrightarrow>
    \<exists>src'. scan_from f' icu src2 (is_pos ?t) (is_pos ?s') (is_line ?s', is_col ?s', is_line_start ?s') =
      ((is_line ?t, is_col ?t, is_line_start ?t), src') \<and> ms_data src' = ms_data src" for src2 f'
    using Suc.IH [OF ok(1), of src2 f'] ok(3) Suc.prems(2) by simp
  show ?case
  proof (cases "rest s = []")
    case True
    then have "fst ?d = - 1" using dec_neg [OF assms] by blast
    then have "is_pos ?s' = is_pos s" "is_line ?s' = is_line s" "is_col ?s' = is_col s" "is_line_start ?s' = is_line_start s"
      using r by simp_all
    then show ?thesis using IH [of src f] Suc.prems(3) by simp
  next
    case False
    then have d: "fst ?d \<noteq> - 1" "snd ?d \<noteq> 0" using dec_neg [OF assms] dec_len(1) [OF assms] by auto
    have lt: "is_pos s < is_pos ?t" using ok(4) [OF False] le by simp
    then obtain f' where f: "f = Suc f'" using Suc.prems(3) by (cases f) auto
    have fuel: "is_pos ?t - is_pos ?s' \<le> f'" using ok(4) [OF False] lt Suc.prems(3) f by simp
    have drop: "drop (is_pos s) (ms_data src) = rest s" using Suc.prems(2) by (simp add: rest_def)
    obtain src2 x where r2: "source_read_cp icu src (is_pos s) = (fst ?d, x, snd ?d, src2)" "ms_data src2 = ms_data src"
      using source_read_cp_dec [of icu src "is_pos s"] unfolding drop by blast
    obtain src3 y where r3: "source_read_cp icu src2 (is_pos s + snd ?d) =
        (fst (dec icu (drop (snd ?d) (rest s))), y, snd (dec icu (drop (snd ?d) (rest s))), src3)" "ms_data src3 = ms_data src"
      using source_read_cp_dec [of icu src2 "is_pos s + snd ?d"] r2(2) by (auto simp: drop [symmetric] add.commute)
    consider "\<not> is_line_break (fst ?d)" | "is_line_break (fst ?d)" "fst ?d = 0x000D" "fst (dec icu (drop (snd ?d) (rest s))) = 0x000A"
      | "is_line_break (fst ?d)" "\<not> (fst ?d = 0x000D \<and> fst (dec icu (drop (snd ?d) (rest s))) = 0x000A)" by blast
    then show ?thesis
    proof cases
      case 1
      then show ?thesis using IH [OF r2(2) fuel] r d lt r2 by (simp add: f)
    next
      case 2
      then have step: "step_len icu (rest s) = snd ?d + snd (dec icu (drop (snd ?d) (rest s)))"
        by (simp add: step_len_def Let_def split_beta)
      have "fst (dec icu (drop (snd ?d) (rest s))) \<noteq> - 1" using 2(3) by simp
      then have "drop (snd ?d) (rest s) \<noteq> []" using dec_neg [OF assms] by blast
      then have "0 < snd (dec icu (drop (snd ?d) (rest s)))" using dec_len(1) [OF assms] by blast
      moreover have "is_pos ?s' = is_pos s + step_len icu (rest s)" using r 2(1) d by simp
      ultimately have "is_pos s + snd ?d < is_pos ?t" using le step by simp
      then show ?thesis using IH [OF r3(2) fuel] r d lt r2 r3 2 step by (simp add: f Let_def add.assoc)
    next
      case 3
      then have step: "step_len icu (rest s) = snd ?d" by (auto simp: step_len_def Let_def split_beta)
      then have s': "is_pos ?s' = is_pos s + snd ?d" "is_line ?s' = is_line s + 1" "is_col ?s' = 1" "is_line_start ?s' = is_pos s + snd ?d"
        using r 3(1) d by simp_all
      show ?thesis
        using IH [OF r2(2) fuel] IH [OF r3(2) fuel] 3 d lt r2 r3 unfolding s' by (auto simp: f Let_def)
    qed
  qed
qed

text \<open>
  C19 (equivalence). Reading and seeking agree: after reading any number of code points from the start
  of a source, seeking any stream over the same source to the byte that was reached gives the same
  line, column, start of line, line buffer and grapheme column, CR LF pairs included; and the line
  buffer never outgrows its allocation.
\<close>

theorem seek_agrees_with_reading:
  fixes k :: nat
  assumes "icu_ok icu" and "ms_data src = ms_data (is_source u)" and "length (ms_data src) < 2 ^ 31"
  defines "t \<equiv> read_n icu k (istream_open src)"
  shows "istream_tell icu (istream_seek icu u (is_pos t)) = istream_tell icu t \<and>
    is_line_start (istream_seek icu u (is_pos t)) = is_line_start t \<and> is_buf (istream_seek icu u (is_pos t)) = is_buf t \<and>
    length (is_buf t) \<le> is_cap t"
proof -
  let ?s = "istream_open src" and ?u = "istream_seek icu u (is_pos t)"
  note open_ok = is_ok_open [of src]
  have t: "is_ok t" "ms_data (is_source t) = ms_data src"
    using read_n_ok [OF assms(1) open_ok, of k] by (simp_all add: t_def istream_open_def)
  have pos: "is_pos t \<le> istream_size u" using t assms(2) by (simp add: is_ok_def istream_size_def)
  have same: "is_pos ?u = is_pos t \<and> is_line ?u = is_line t \<and> is_col ?u = is_col t \<and>
     is_line_start ?u = is_line_start t \<and> is_buf ?u = is_buf t"
  proof -
    have "\<exists>src'. scan_from (is_pos t) icu (mem_source_seek (is_source u) 0) (is_pos t) 0 (1, 1, 0) =
      ((is_line t, is_col t, is_line_start t), src') \<and> ms_data src' = ms_data src"
      using scan_reads [OF assms(1) open_ok, of "mem_source_seek (is_source u) 0" k "is_pos t"] assms(2)
      unfolding t_def [symmetric] by (simp add: istream_open_def mem_source_seek_def)
    then obtain src' where scan: "scan_from (is_pos t) icu (mem_source_seek (is_source u) 0) (is_pos t) 0 (1, 1, 0) =
      ((is_line t, is_col t, is_line_start t), src')" "ms_data src' = ms_data src" by blast
    have buf: "is_buf t = slice (ms_data src) (is_line_start t) (is_pos t - is_line_start t)"
      "is_line_start t \<le> is_pos t" "is_pos t \<le> length (ms_data src)"
      using t by (simp_all add: is_ok_def istream_size_def)
    show ?thesis
    proof (cases "is_pos t = 0")
      case True
      then have "(1, 1, 0) = (is_line t, is_col t, is_line_start t)" using scan(1) by simp
      then show ?thesis using True buf by (simp add: istream_seek_def slice_def)
    next
      case False
      have wrap: "size_sub (is_pos t) (is_line_start t) = is_pos t - is_line_start t"
        using buf(2,3) assms(3) by (intro size_sub_le) simp_all
      show ?thesis
        using False scan buf pos
        by (auto simp: istream_seek_def scan_position_def Let_def mem_source_read_def mem_source_seek_def
            istream_ensure_line_buf_def split_beta slice_def wrap)
    qed
  qed
  moreover have "length (is_buf t) \<le> is_cap t" using t(1) unfolding is_ok_def by blast
  ultimately show ?thesis unfolding istream_tell_def by metis
qed

text \<open>An ICU for single-byte text, to instantiate the parameter.\<close>

definition latin_icu :: icu where
  "latin_icu = \<lparr>u8_next = (\<lambda>bs. (if of_char (hd bs) < (128 :: int) then of_char (hd bs) else 0xFFFD, 1)),
     id_start = (\<lambda>cp. 65 \<le> cp \<and> cp \<le> 90 \<or> 97 \<le> cp \<and> cp \<le> 122),
     id_part = (\<lambda>cp. 65 \<le> cp \<and> cp \<le> 90 \<or> 97 \<le> cp \<and> cp \<le> 122 \<or> 48 \<le> cp \<and> cp \<le> 57 \<or> cp = 95),
     utf16_of = (\<lambda>bs. Some (map (\<lambda>c. of_char c) bs)), boundaries = (\<lambda>us. Some [0..<length us + 1])\<rparr>"

lemma latin_icu_ok: "icu_ok latin_icu"
proof -
  have "bs \<noteq> [] \<Longrightarrow> Suc 0 \<le> length bs \<and> set (take (Suc 0) bs) = {hd bs}" for bs :: string by (cases bs) simp_all
  then show ?thesis by (simp add: icu_ok_def latin_icu_def)
qed

theorem seek_agrees_with_reading_witness:
  "let src = \<lparr>ms_data = [CHR ''a'', CHR 0x0D, CHR 0x0A, CHR ''b'', CHR ''c''], ms_pos = 0\<rparr>; t = read_n latin_icu 3 (istream_open src) in
     is_pos t = 4 \<and> is_line t = 2 \<and> istream_tell latin_icu (istream_seek latin_icu (istream_open src) 4) = istream_tell latin_icu t"
proof -
  let ?src = "\<lparr>ms_data = [CHR ''a'', CHR 0x0D, CHR 0x0A, CHR ''b'', CHR ''c''], ms_pos = 0\<rparr>"
  have "is_pos (read_n latin_icu 3 (istream_open ?src)) = 4 \<and> is_line (read_n latin_icu 3 (istream_open ?src)) = 2"
    by code_simp
  moreover have "ms_data ?src = ms_data (is_source (istream_open ?src))" "length (ms_data ?src) < 2 ^ 31" by (simp_all add: istream_open_def)
  ultimately show ?thesis
    using seek_agrees_with_reading [OF latin_icu_ok, of ?src "istream_open ?src" 3] by (simp add: Let_def)
qed

end
