(* ===== verification/Lexer.thy ===== *)
theory Lexer
  imports Stream_In
begin

text \<open>
  The lexer of \<open>src/parser/lexer.c\<close> over the input stream. Tokens carry their kind, their location,
  the slice of the source they cover and, for an error, its message; the loops of the code are
  partial functions, so that a call that does not return is \<open>None\<close>. The identifier classes of ICU
  are parameters.
\<close>

section \<open>Tokens\<close>

datatype token_kind = TOKEN_TYPE_ERROR | TOKEN_TYPE_IDENTIFIER | TOKEN_TYPE_CHARACTER | TOKEN_TYPE_STRING
  | TOKEN_TYPE_NUMERIC | TOKEN_TYPE_KEYWORD | TOKEN_TYPE_SYMBOL | TOKEN_TYPE_COMMENT
  | TOKEN_TYPE_MULTILINE_COMMENT | TOKEN_TYPE_WHITESPACE | TOKEN_TYPE_EOF

record position =
  ps_offset :: nat
  ps_column :: nat
  ps_line :: nat

record location =
  lc_begin :: position
  lc_end :: position
  lc_filename :: string

text \<open>A message is its format with the strings filled in, and the code point it names, if it names one.\<close>

datatype lex_msg = Msg string | Msg_cp string int

record token =
  tk_kind :: token_kind
  tk_location :: location
  tk_text :: string
  tk_message :: "lex_msg option"

record lexer =
  lx_stream :: istream
  lx_filename :: string
  lx_data :: string
  lx_len :: nat

text \<open>A character constant as the code point it is compared with.\<close>

abbreviation ch :: "char \<Rightarrow> int" where
  "ch c \<equiv> of_char c"

section \<open>Character classes\<close>

definition g_keywords :: "string list" where
  "g_keywords = [''alignof'', ''as'', ''bool'', ''break'', ''cfunc'', ''comptime'', ''bitfield'', ''const'',
    ''continue'', ''cunion'', ''default'', ''defer'', ''do'', ''else'', ''enum'', ''export'', ''extends'',
    ''extern'', ''f32'', ''f64'', ''false'', ''for'', ''from'', ''func'', ''i16'', ''i32'', ''i64'', ''i8'',
    ''if'', ''import'', ''is'', ''len'', ''lib'', ''make'', ''nil'', ''opaque'', ''return'', ''sizeof'',
    ''static_assert'', ''str'', ''struct'', ''switch'', ''true'', ''type'', ''typeof'', ''u16'', ''u32'',
    ''u64'', ''u8'', ''undefined'', ''union'', ''usize'', ''var'', ''void'', ''volatile'', ''while'',
    ''foreach'', ''of'', ''interface'', ''implements'', ''using'']"

definition is_ident_start_cp :: "icu \<Rightarrow> int \<Rightarrow> bool" where
  "is_ident_start_cp icu cp = (if cp \<le> 0 then False else if cp = ch CHR ''_'' then True else id_start icu cp)"

definition is_ident_char_cp :: "icu \<Rightarrow> int \<Rightarrow> bool" where
  "is_ident_char_cp icu cp = (if cp \<le> 0 then False else is_ident_start_cp icu cp \<or> id_part icu cp)"

definition is_whitespace :: "int \<Rightarrow> bool" where
  "is_whitespace cp \<longleftrightarrow> cp = ch CHR '' '' \<or> cp = 9 \<or> cp = 13 \<or> cp = 10"

definition is_digit_in_base :: "int \<Rightarrow> int \<Rightarrow> bool" where
  "is_digit_in_base cp base =
     (if ch CHR ''0'' \<le> cp \<and> cp \<le> ch CHR ''9'' then cp - ch CHR ''0'' < base
      else if base = 16 \<and> ch CHR ''a'' \<le> cp \<and> cp \<le> ch CHR ''f'' then True
      else if base = 16 \<and> ch CHR ''A'' \<le> cp \<and> cp \<le> ch CHR ''F'' then True
      else False)"

definition lookup_keyword :: "string \<Rightarrow> bool" where
  "lookup_keyword txt \<longleftrightarrow> list_ex (\<lambda>kw. kw = txt) g_keywords"

definition is_hex_digit :: "int \<Rightarrow> bool" where
  "is_hex_digit cp \<longleftrightarrow> ch CHR ''0'' \<le> cp \<and> cp \<le> ch CHR ''9'' \<or> ch CHR ''a'' \<le> cp \<and> cp \<le> ch CHR ''f'' \<or>
     ch CHR ''A'' \<le> cp \<and> cp \<le> ch CHR ''F''"

definition is_simple_escape :: "int \<Rightarrow> bool" where
  "is_simple_escape cp \<longleftrightarrow> cp = ch CHR ''n'' \<or> cp = ch CHR ''t'' \<or> cp = ch CHR ''r'' \<or> cp = 92 \<or> cp = 39 \<or> cp = 34 \<or> cp = ch CHR ''0''"

definition is_single_symbol :: "int \<Rightarrow> bool" where
  "is_single_symbol c \<longleftrightarrow> c \<in> set (map of_char ''+-*%<>=!&|^~(){}[];,:.?'')"

definition kPairs :: "string list" where
  "kPairs = [''<='', ''>='', ''=='', ''!='', ''&&'', ''||'', ''->'', ''::'', ''+='', ''-='', ''*='', ''/='', ''%='']"

section \<open>Token construction\<close>

definition make_location :: "lexer \<Rightarrow> stream_pos \<Rightarrow> stream_pos \<Rightarrow> location" where
  "make_location lexer b e =
     \<lparr>lc_begin = \<lparr>ps_offset = sp_offset b, ps_column = sp_cluster b, ps_line = sp_line b\<rparr>,
      lc_end = \<lparr>ps_offset = sp_offset e, ps_column = sp_cluster e, ps_line = sp_line e\<rparr>,
      lc_filename = lx_filename lexer\<rparr>"

definition create_token :: "token_kind \<Rightarrow> location \<Rightarrow> token" where
  "create_token kind loc = \<lparr>tk_kind = kind, tk_location = loc, tk_text = [], tk_message = None\<rparr>"

definition lexer_make_token :: "lexer \<Rightarrow> token_kind \<Rightarrow> stream_pos \<Rightarrow> stream_pos \<Rightarrow> token" where
  "lexer_make_token lexer kind b e =
     (let token = create_token kind (make_location lexer b e);
          start = sp_offset b;
          stop = sp_offset e;
          stop = (if stop < start then start else stop);
          start = (if start > lx_len lexer then lx_len lexer else start);
          stop = (if stop > lx_len lexer then lx_len lexer else stop)
      in token\<lparr>tk_text := slice (lx_data lexer) start (stop - start)\<rparr>)"

definition lexer_fail :: "lexer \<Rightarrow> stream_pos \<Rightarrow> lex_msg \<Rightarrow> token" where
  "lexer_fail lexer at msg = (lexer_make_token lexer TOKEN_TYPE_ERROR at at)\<lparr>tk_message := Some msg\<rparr>"

section \<open>Moves over the stream\<close>

definition lx_read :: "icu \<Rightarrow> lexer \<Rightarrow> int \<times> lexer" where
  "lx_read icu lx = (let (cp, s) = istream_read_cp icu (lx_stream lx) in (cp, lx\<lparr>lx_stream := s\<rparr>))"

definition lx_peek :: "icu \<Rightarrow> lexer \<Rightarrow> int \<times> lexer" where
  "lx_peek icu lx = (let (cp, s) = istream_peek_cp icu (lx_stream lx) in (cp, lx\<lparr>lx_stream := s\<rparr>))"

definition lx_tell :: "icu \<Rightarrow> lexer \<Rightarrow> stream_pos" where
  "lx_tell icu lx = istream_tell icu (lx_stream lx)"

text \<open>The loop \<open>for (;;) { cp = peek; if (cp == -1 || !P(cp)) break; read; }\<close> of the scanners.\<close>

partial_function (option) skip_while :: "icu \<Rightarrow> (int \<Rightarrow> bool) \<Rightarrow> lexer \<Rightarrow> lexer option" where
  "skip_while icu P lx =
     (let (cp, lx) = lx_peek icu lx in
      if cp = - 1 \<or> \<not> P cp then Some lx
      else let (_, lx) = lx_read icu lx in skip_while icu P lx)"

text \<open>The escape after a backslash: \<open>None\<close> as token means that it is well-formed.\<close>

definition lexer_read_escape :: "icu \<Rightarrow> lexer \<Rightarrow> stream_pos \<Rightarrow> string \<Rightarrow> token option \<times> lexer" where
  "lexer_read_escape icu lx b what =
     (let (e, lx) = lx_read icu lx in
      if e = - 1 then (Some (lexer_fail lx b (Msg (''unterminated '' @ what @ '' (dangling backslash)''))), lx)
      else if e = 10 \<or> e = 13 then (Some (lexer_fail lx b (Msg (''unterminated '' @ what @ '' (newline in literal)''))), lx)
      else if e = ch CHR ''x'' then
        let (h, lx) = lx_peek icu lx in
        if h = - 1 \<or> \<not> is_hex_digit h then
          (Some (lexer_fail lx b (Msg (''invalid hex escape in '' @ what @ '': expected hex digit''))), lx)
        else
          let (_, lx) = lx_read icu lx;
              (h2, lx) = lx_peek icu lx;
              lx = (if is_hex_digit h2 then snd (lx_read icu lx) else lx)
          in (None, lx)
      else if \<not> is_simple_escape e then
        (Some (lexer_fail lx b (Msg_cp (''invalid escape sequence in '' @ what) e)), lx)
      else (None, lx))"

section \<open>Numbers\<close>

definition number_base :: "icu \<Rightarrow> lexer \<Rightarrow> int \<times> lexer" where
  "number_base icu lx =
     (let (cp, lx) = lx_read icu lx in
      if cp = ch CHR ''0'' then
        let (nx, lx) = lx_peek icu lx in
        if nx = ch CHR ''x'' \<or> nx = ch CHR ''X'' then (16, snd (lx_read icu lx))
        else if nx = ch CHR ''o'' \<or> nx = ch CHR ''O'' then (8, snd (lx_read icu lx))
        else if nx = ch CHR ''b'' \<or> nx = ch CHR ''B'' then (2, snd (lx_read icu lx))
        else (10, lx)
      else (10, lx))"

text \<open>The fraction and the exponent: a token is the error that ends the scan.\<close>

definition number_fraction :: "icu \<Rightarrow> lexer \<Rightarrow> stream_pos \<Rightarrow> (token option \<times> lexer) option" where
  "number_fraction icu lx b =
     (let (cp, lx) = lx_peek icu lx in
      if cp = ch CHR ''.'' then
        let (_, lx) = lx_read icu lx; (d, lx) = lx_peek icu lx in
        if d = - 1 \<or> \<not> is_digit_in_base d 10 then
          Some (Some (lexer_fail lx b (Msg ''expected digit after decimal point'')), lx)
        else Option.bind (skip_while icu (\<lambda>c. is_digit_in_base c 10) lx) (\<lambda>lx. Some (None, lx))
      else Some (None, lx))"

definition number_exponent :: "icu \<Rightarrow> lexer \<Rightarrow> stream_pos \<Rightarrow> (token option \<times> lexer) option" where
  "number_exponent icu lx b =
     (let (cp, lx) = lx_peek icu lx in
      if cp = ch CHR ''e'' \<or> cp = ch CHR ''E'' then
        let (_, lx) = lx_read icu lx; (s, lx) = lx_peek icu lx;
            lx = (if s = ch CHR ''+'' \<or> s = ch CHR ''-'' then snd (lx_read icu lx) else lx);
            (d, lx) = lx_peek icu lx in
        if d = - 1 \<or> \<not> is_digit_in_base d 10 then
          Some (Some (lexer_fail lx b (Msg ''expected digit in exponent'')), lx)
        else Option.bind (skip_while icu (\<lambda>c. is_digit_in_base c 10) lx) (\<lambda>lx. Some (None, lx))
      else Some (None, lx))"

definition lexer_read_number :: "icu \<Rightarrow> lexer \<Rightarrow> stream_pos \<Rightarrow> (token \<times> lexer) option" where
  "lexer_read_number icu lx b =
     (let (base, lx) = number_base icu lx in do {
        lx \<leftarrow> skip_while icu (\<lambda>c. is_digit_in_base c base) lx;
        if base \<noteq> 10 then
          if sp_offset (lx_tell icu lx) = sp_offset b + 2 then
            Some (lexer_fail lx b (Msg ''invalid numeric literal: no digits after prefix''), lx)
          else Some (lexer_make_token lx TOKEN_TYPE_NUMERIC b (lx_tell icu lx), lx)
        else do {
          (err, lx) \<leftarrow> number_fraction icu lx b;
          (case err of Some e \<Rightarrow> Some (e, lx)
           | None \<Rightarrow> do {
               (err, lx) \<leftarrow> number_exponent icu lx b;
               (case err of Some e \<Rightarrow> Some (e, lx)
                | None \<Rightarrow> Some (lexer_make_token lx TOKEN_TYPE_NUMERIC b (lx_tell icu lx), lx)) }) } })"

section \<open>Strings, characters and comments\<close>

partial_function (option) string_loop :: "icu \<Rightarrow> stream_pos \<Rightarrow> lexer \<Rightarrow> (token option \<times> lexer) option" where
  "string_loop icu b lx =
     (let (cp, lx) = lx_read icu lx in
      if cp = - 1 then Some (Some (lexer_fail lx b (Msg ''unterminated string literal'')), lx)
      else if cp = 34 then Some (None, lx)
      else if cp = 92 then
        (case lexer_read_escape icu lx b ''string literal'' of
           (Some err, lx) \<Rightarrow> Some (Some err, lx)
         | (None, lx) \<Rightarrow> string_loop icu b lx)
      else if cp = 10 \<or> cp = 13 then
        Some (Some (lexer_fail lx b (Msg ''unterminated string literal (newline in string)'')), lx)
      else string_loop icu b lx)"

definition lexer_read_string :: "icu \<Rightarrow> lexer \<Rightarrow> stream_pos \<Rightarrow> (token \<times> lexer) option" where
  "lexer_read_string icu lx b =
     (let (_, lx) = lx_read icu lx in do {
        (err, lx) \<leftarrow> string_loop icu b lx;
        (case err of Some e \<Rightarrow> Some (e, lx)
         | None \<Rightarrow> Some (lexer_make_token lx TOKEN_TYPE_STRING b (lx_tell icu lx), lx)) })"

definition lexer_read_char :: "icu \<Rightarrow> lexer \<Rightarrow> stream_pos \<Rightarrow> token \<times> lexer" where
  "lexer_read_char icu lx b =
     (let (_, lx) = lx_read icu lx; (cp, lx) = lx_read icu lx in
      if cp = - 1 then (lexer_fail lx b (Msg ''unterminated character literal''), lx)
      else if cp = 39 then (lexer_fail lx b (Msg ''empty character literal''), lx)
      else if cp = 10 \<or> cp = 13 then (lexer_fail lx b (Msg ''unterminated character literal (newline in literal)''), lx)
      else
        let (err, lx) = (if cp = 92 then lexer_read_escape icu lx b ''character literal''
                         else if cp > 0xFF then (Some (lexer_fail lx b (Msg_cp ''character literal out of range for u8'' cp)), lx)
                         else (None, lx)) in
        (case err of Some e \<Rightarrow> (e, lx)
         | None \<Rightarrow>
           let (close, lx) = lx_read icu lx in
           if close \<noteq> 39 then
             if close = - 1 then (lexer_fail lx b (Msg ''unterminated character literal''), lx)
             else if cp = ch CHR ''<'' then
               (lexer_fail lx b (Msg (''scope annotations ('' @ [CHR 0x27] @ ''<a,b> T'' @ [CHR 0x27] @ '') were removed with the compile-time ownership system; use bare *T / []T'')), lx)
             else (lexer_fail lx b (Msg ''character literal must contain exactly one character''), lx)
           else (lexer_make_token lx TOKEN_TYPE_CHARACTER b (lx_tell icu lx), lx)))"

partial_function (option) block_loop :: "icu \<Rightarrow> stream_pos \<Rightarrow> lexer \<Rightarrow> (token option \<times> lexer) option" where
  "block_loop icu b lx =
     (let (cp, lx) = lx_read icu lx in
      if cp = - 1 then Some (Some (lexer_fail lx b (Msg ''unterminated block comment'')), lx)
      else if cp = ch CHR ''*'' then
        let (nx, lx) = lx_peek icu lx in
        if nx = ch CHR ''/'' then Some (None, snd (lx_read icu lx))
        else block_loop icu b lx
      else block_loop icu b lx)"

definition lexer_read_slash :: "icu \<Rightarrow> lexer \<Rightarrow> stream_pos \<Rightarrow> (token \<times> lexer) option" where
  "lexer_read_slash icu lx b =
     (let (_, lx) = lx_read icu lx; (cp, lx) = lx_peek icu lx in
      if cp = ch CHR ''/'' then
        let (_, lx) = lx_read icu lx in do {
          lx \<leftarrow> skip_while icu (\<lambda>c. \<not> (c = 10 \<or> c = 13)) lx;
          Some (lexer_make_token lx TOKEN_TYPE_COMMENT b (lx_tell icu lx), lx) }
      else if cp = ch CHR ''*'' then
        let (_, lx) = lx_read icu lx in do {
          (err, lx) \<leftarrow> block_loop icu b lx;
          (case err of Some e \<Rightarrow> Some (e, lx)
           | None \<Rightarrow> Some (lexer_make_token lx TOKEN_TYPE_MULTILINE_COMMENT b (lx_tell icu lx), lx)) }
      else if cp = ch CHR ''='' then
        let (_, lx) = lx_read icu lx in Some (lexer_make_token lx TOKEN_TYPE_SYMBOL b (lx_tell icu lx), lx)
      else Some (lexer_make_token lx TOKEN_TYPE_SYMBOL b (lx_tell icu lx), lx))"

section \<open>Symbols\<close>

definition is_pair :: "int \<Rightarrow> int \<Rightarrow> bool" where
  "is_pair c1 c2 \<longleftrightarrow> list_ex (\<lambda>p. of_char (p ! 0) = c1 \<and> of_char (p ! 1) = c2) kPairs"

definition lexer_read_symbol :: "icu \<Rightarrow> lexer \<Rightarrow> stream_pos \<Rightarrow> token \<times> lexer" where
  "lexer_read_symbol icu lx b =
     (let (c1, lx) = lx_read icu lx; (c2, lx) = lx_peek icu lx in
      if c1 = ch CHR ''.'' \<and> c2 = ch CHR ''.'' then
        let (_, lx) = lx_read icu lx; (c3, lx) = lx_peek icu lx;
            lx = (if c3 = ch CHR ''.'' then snd (lx_read icu lx) else lx)
        in (lexer_make_token lx TOKEN_TYPE_SYMBOL b (lx_tell icu lx), lx)
      else if c2 \<noteq> - 1 \<and> is_pair c1 c2 then
        let (_, lx) = lx_read icu lx in (lexer_make_token lx TOKEN_TYPE_SYMBOL b (lx_tell icu lx), lx)
      else if is_single_symbol c1 then (lexer_make_token lx TOKEN_TYPE_SYMBOL b (lx_tell icu lx), lx)
      else (lexer_fail lx b (Msg_cp ''unrecognized character'' c1), lx))"

section \<open>The next token\<close>

partial_function (option) whitespace_loop :: "icu \<Rightarrow> int \<Rightarrow> lexer \<Rightarrow> lexer option" where
  "whitespace_loop icu cp lx =
     (if \<not> is_whitespace cp then Some lx
      else let (_, lx) = lx_read icu lx; (cp, lx) = lx_peek icu lx in
           if cp = - 1 then Some lx else whitespace_loop icu cp lx)"

definition lexer_read_token :: "icu \<Rightarrow> lexer \<Rightarrow> (token \<times> lexer) option" where
  "lexer_read_token icu lx =
     (let b = lx_tell icu lx in
      if istream_at_end (lx_stream lx) then Some (lexer_make_token lx TOKEN_TYPE_EOF b b, lx)
      else
        let (cp, lx) = lx_peek icu lx in
        if is_whitespace cp then do {
          lx \<leftarrow> whitespace_loop icu cp lx;
          Some (lexer_make_token lx TOKEN_TYPE_WHITESPACE b (lx_tell icu lx), lx) }
        else if is_ident_start_cp icu cp then
          let (_, lx) = lx_read icu lx in do {
            lx \<leftarrow> skip_while icu (is_ident_char_cp icu) lx;
            let e = lx_tell icu lx;
                len = sp_offset e - sp_offset b;
                txt = slice (lx_data lx) (sp_offset b) len;
                kind = (if lookup_keyword txt then TOKEN_TYPE_KEYWORD else TOKEN_TYPE_IDENTIFIER)
            in Some (lexer_make_token lx kind b e, lx) }
        else if ch CHR ''0'' \<le> cp \<and> cp \<le> ch CHR ''9'' then lexer_read_number icu lx b
        else if cp = 34 then lexer_read_string icu lx b
        else if cp = 39 then Some (lexer_read_char icu lx b)
        else if cp = ch CHR ''/'' then lexer_read_slash icu lx b
        else Some (lexer_read_symbol icu lx b))"

definition lexer_next :: "icu \<Rightarrow> lexer \<Rightarrow> (token \<times> lexer) option" where
  "lexer_next icu lx = lexer_read_token icu lx"

text \<open>A lexer starts behind a UTF-8 byte order mark.\<close>

definition lexer_create :: "icu \<Rightarrow> istream \<Rightarrow> string \<Rightarrow> lexer" where
  "lexer_create icu stream filename =
     (let data = ms_data (is_source stream);
          len = istream_size stream;
          stream = (if len \<ge> 3 \<and> data ! 0 = CHR 0xEF \<and> data ! 1 = CHR 0xBB \<and> data ! 2 = CHR 0xBF
                    then istream_seek icu stream 3 else stream)
      in \<lparr>lx_stream = stream, lx_filename = filename, lx_data = data, lx_len = len\<rparr>)"

text \<open>
  The loop of the driver that fills the token pool: it stops at the end of the input, or gives up
  with the first error token.
\<close>

partial_function (option) driver_pool :: "icu \<Rightarrow> token list \<Rightarrow> lexer \<Rightarrow> (token + token list) option" where
  "driver_pool icu pool lx = do {
     (t, lx) \<leftarrow> lexer_next icu lx;
     let pool = pool @ [t] in
     if tk_kind t = TOKEN_TYPE_EOF then Some (Inr pool)
     else if tk_kind t = TOKEN_TYPE_ERROR then Some (Inl t)
     else driver_pool icu pool lx }"

definition token_is :: "token \<Rightarrow> string \<Rightarrow> bool" where
  "token_is t str \<longleftrightarrow> tk_text t = str"

declare skip_while.simps [code] string_loop.simps [code] block_loop.simps [code]
  whitespace_loop.simps [code] driver_pool.simps [code]

end
