(* ===== verification/LexerScan.thy ===== *)
theory LexerScan
  imports Lexer
begin

text \<open>
  How the scanners of the lexer move over the input: each is followed byte by byte by a reference
  scanner that is a plain recursive function on the rest of the source.
\<close>

section \<open>What a move eats\<close>

definition lx_rest :: "lexer \<Rightarrow> string" where
  "lx_rest lx = rest (lx_stream lx)"

definition lx_ok :: "lexer \<Rightarrow> bool" where
  "lx_ok lx \<longleftrightarrow> is_ok (lx_stream lx) \<and> lx_data lx = ms_data (is_source (lx_stream lx)) \<and> lx_len lx = length (lx_data lx)"

definition lx_pos :: "lexer \<Rightarrow> nat" where
  "lx_pos lx = is_pos (lx_stream lx)"

text \<open>\<open>eats lx u lx'\<close>: from \<open>lx\<close>, the lexer has moved over the bytes \<open>u\<close>.\<close>

definition eats :: "lexer \<Rightarrow> string \<Rightarrow> lexer \<Rightarrow> bool" where
  "eats lx u lx' \<longleftrightarrow> lx_ok lx' \<and> lx_data lx' = lx_data lx \<and> lx_filename lx' = lx_filename lx \<and>
     lx_rest lx = u @ lx_rest lx' \<and> lx_pos lx' = lx_pos lx + length u"

lemma eats_trans: "eats lx u lx1 \<Longrightarrow> eats lx1 v lx2 \<Longrightarrow> eats lx (u @ v) lx2"
  by (simp add: eats_def)

lemma eats_refl: "lx_ok lx \<Longrightarrow> eats lx [] lx"
  by (simp add: eats_def)

lemma lx_rest_pos: "lx_ok lx \<Longrightarrow> lx_rest lx = drop (lx_pos lx) (lx_data lx) \<and> lx_pos lx \<le> length (lx_data lx)"
  by (simp add: lx_ok_def lx_rest_def rest_def lx_pos_def is_ok_def istream_size_def)

lemma peek_eats:
  assumes "lx_ok lx"
  shows "\<exists>lx'. lx_peek icu lx = (fst (dec icu (lx_rest lx)), lx') \<and> eats lx [] lx' \<and> lx_tell icu lx' = lx_tell icu lx"
proof -
  obtain src' where p: "istream_peek_cp icu (lx_stream lx) = (fst (dec icu (lx_rest lx)), (lx_stream lx)\<lparr>is_source := src'\<rparr>)"
    "ms_data src' = ms_data (is_source (lx_stream lx))"
    using peek_cp [of icu "lx_stream lx"] by (auto simp: lx_rest_def)
  then show ?thesis
    using assms by (auto simp: lx_peek_def eats_def lx_ok_def is_ok_def lx_rest_def rest_def lx_pos_def istream_size_def lx_tell_def istream_tell_def)
qed

lemma read_eats:
  assumes "icu_ok icu" and "lx_ok lx"
  shows "\<exists>lx' u. lx_read icu lx = (fst (dec icu (lx_rest lx)), lx') \<and> eats lx u lx' \<and>
    u = (if lx_rest lx = [] then [] else if is_line_break (fst (dec icu (lx_rest lx))) then take (step_len icu (lx_rest lx)) (lx_rest lx)
         else take (snd (dec icu (lx_rest lx))) (lx_rest lx)) \<and> (lx_rest lx \<noteq> [] \<longrightarrow> u \<noteq> [])"
proof -
  let ?s = "lx_stream lx" and ?d = "dec icu (lx_rest lx)"
  obtain src' where r: "istream_read_cp icu ?s = (fst ?d, if fst ?d = - 1 then ?s\<lparr>is_source := src'\<rparr>
     else if is_line_break (fst ?d)
       then ?s\<lparr>is_source := src', is_cap := ensured ?s (snd ?d), is_line := is_line ?s + 1, is_col := 1, is_buf := [],
              is_line_start := is_pos ?s + step_len icu (lx_rest lx), is_pos := is_pos ?s + step_len icu (lx_rest lx)\<rparr>
       else ?s\<lparr>is_source := src', is_cap := ensured ?s (snd ?d), is_col := is_col ?s + 1, is_pos := is_pos ?s + snd ?d,
              is_buf := is_buf ?s @ take (snd ?d) (lx_rest lx)\<rparr>)"
    using read_cp [OF assms(1), of ?s] unfolding lx_rest_def by blast
  let ?s' = "snd (istream_read_cp icu ?s)"
  have ok: "is_ok ?s'" "ms_data (is_source ?s') = ms_data (is_source ?s)"
    using is_ok_read [OF assms(1), of ?s] assms(2) by (simp_all add: lx_ok_def)
  define n where "n = (if lx_rest lx = [] then 0 else if is_line_break (fst ?d) then step_len icu (lx_rest lx) else snd ?d)"
  have neg: "fst ?d = - 1 \<longleftrightarrow> lx_rest lx = []" using dec_neg [OF assms(1)] .
  have n: "is_pos ?s' = is_pos ?s + n" using r neg by (simp add: n_def)
  have len: "n \<le> length (lx_rest lx)" "lx_rest lx \<noteq> [] \<longrightarrow> 0 < n"
    using step_len_bounds [OF assms(1), of "lx_rest lx"] dec_len [OF assms(1), of "lx_rest lx"] by (auto simp: n_def)
  have run: "lx_read icu lx = (fst ?d, lx\<lparr>lx_stream := ?s'\<rparr>)" using r by (simp add: lx_read_def split_beta)
  have "eats lx (take n (lx_rest lx)) (lx\<lparr>lx_stream := ?s'\<rparr>)"
  proof -
    let ?D = "ms_data (is_source ?s)"
    have "drop (is_pos ?s) ?D = take n (drop (is_pos ?s) ?D) @ drop (is_pos ?s + n) ?D"
      by (metis append_take_drop_id drop_drop add.commute)
    then show ?thesis
      using ok n assms(2) len(1) by (simp add: eats_def lx_ok_def lx_rest_def rest_def lx_pos_def)
  qed
  then show ?thesis using run len by (intro exI [of _ "lx\<lparr>lx_stream := ?s'\<rparr>"] exI [of _ "take n (lx_rest lx)"]) (auto simp: n_def)
qed

definition high :: "char \<Rightarrow> bool" where
  "high c \<longleftrightarrow> \<not> of_char c < (128 :: int)"

text \<open>The four cases of a read: the end, an ASCII character, a carriage return, a sequence of high bytes.\<close>

lemma peek_cases:
  assumes "icu_ok icu"
  shows "lx_rest lx = [] \<Longrightarrow> fst (dec icu (lx_rest lx)) = - 1"
    and "lx_rest lx = c # w \<Longrightarrow> \<not> high c \<Longrightarrow> dec icu (lx_rest lx) = (of_char c, 1)"
    and "lx_rest lx = c # w \<Longrightarrow> high c \<Longrightarrow> 128 \<le> fst (dec icu (lx_rest lx))"
  using dec_Cons(4,5) [OF assms] by (auto simp: high_def dec_def)

lemma read_char:
  assumes "icu_ok icu" and "lx_ok lx" and c: "lx_rest lx = c # w" and "\<not> high c" and "c \<noteq> CHR 0x0D"
  shows "\<exists>lx'. lx_read icu lx = (of_char c, lx') \<and> eats lx [c] lx'"
proof -
  have d: "dec icu (c # w) = (of_char c, 1)" using peek_cases(2) [OF assms(1) c assms(4)] unfolding c .
  have "(of_char c :: int) \<noteq> of_char CHR 0x0D" using assms(5) unfolding of_char_int_eq .
  then have "(of_char c :: int) \<noteq> 13" by simp
  then have s: "step_len icu (c # w) = 1" by (simp add: step_len_def d)
  show ?thesis using read_eats [OF assms(1,2)] unfolding c d s fst_conv snd_conv by simp
qed

lemma read_cr:
  assumes "icu_ok icu" and "lx_ok lx" and c: "lx_rest lx = CHR 0x0D # w"
  shows "\<exists>lx' u. lx_read icu lx = (13, lx') \<and> eats lx u lx' \<and> u = (if w \<noteq> [] \<and> hd w = CHR 0x0A then [CHR 0x0D, CHR 0x0A] else [CHR 0x0D])"
proof -
  have d: "dec icu (CHR 0x0D # w) = (13, 1)" using peek_cases(2) [OF assms(1) c] unfolding c by (simp add: high_def)
  have lf: "(of_char x :: int) = 10 \<longleftrightarrow> x = CHR 0x0A" for x using of_char_int_eq [of x "CHR 0x0A"] by simp
  have two: "snd (dec icu w) = 1" if "fst (dec icu w) = 10" using dec_ascii [OF assms(1) that] by simp
  have after: "fst (dec icu w) = 10 \<longleftrightarrow> w \<noteq> [] \<and> hd w = CHR 0x0A"
    using dec_ascii [OF assms(1), of w 10] dec_Cons(4) [OF assms(1), of "hd w" "tl w"] lf [of "hd w"] dec_neg [OF assms(1), of w]
    by (cases w) auto
  have s: "step_len icu (CHR 0x0D # w) = (if w \<noteq> [] \<and> hd w = CHR 0x0A then 2 else 1)"
    unfolding step_len_def d Let_def prod.case using two by (simp add: after)
  show ?thesis using read_eats [OF assms(1,2)] unfolding c d s fst_conv snd_conv
    by (cases w) (auto simp: is_line_break_def)
qed

lemma read_high:
  assumes "icu_ok icu" and "lx_ok lx" and c: "lx_rest lx = c # w" and "high c"
  shows "\<exists>lx' u. lx_read icu lx = (fst (dec icu (lx_rest lx)), lx') \<and> eats lx u lx' \<and> u \<noteq> [] \<and> (\<forall>x \<in> set u. high x) \<and>
    128 \<le> fst (dec icu (lx_rest lx))"
proof -
  have big: "128 \<le> fst (dec icu (c # w))" using peek_cases(3) [OF assms(1) c assms(4)] unfolding c .
  then have s: "step_len icu (c # w) = snd (dec icu (c # w))" by (simp add: step_len_def split_beta)
  have "\<forall>x \<in> set (take (snd (dec icu (c # w))) (c # w)). high x"
    using dec_Cons(6) [OF assms(1)] assms(4) unfolding high_def by blast
  moreover obtain lx' where "lx_read icu lx = (fst (dec icu (c # w)), lx')" "eats lx (take (snd (dec icu (c # w))) (c # w)) lx'"
      "take (snd (dec icu (c # w))) (c # w) \<noteq> []"
    using read_eats [OF assms(1,2)] unfolding c s by auto
  ultimately show ?thesis using big unfolding c by blast
qed

lemma read_end:
  assumes "icu_ok icu" and "lx_ok lx" and "lx_rest lx = []"
  shows "\<exists>lx'. lx_read icu lx = (- 1, lx') \<and> eats lx [] lx'"
  using read_eats [OF assms(1,2)] dec_neg [OF assms(1), of "lx_rest lx"] assms(3) by auto

section \<open>Loops\<close>

text \<open>What the bytes of a run satisfy when its code points satisfy \<open>P\<close>.\<close>

definition covers :: "(int \<Rightarrow> bool) \<Rightarrow> (char \<Rightarrow> bool) \<Rightarrow> bool" where
  "covers P Q \<longleftrightarrow> (\<forall>c. \<not> high c \<longrightarrow> P (of_char c) \<longrightarrow> Q c) \<and> (P 13 \<longrightarrow> Q (CHR 0x0A)) \<and>
     ((\<exists>cp \<ge> 128. P cp) \<longrightarrow> (\<forall>c. high c \<longrightarrow> Q c))"

lemma read_covers:
  assumes "icu_ok icu" and "lx_ok lx" and "lx_rest lx \<noteq> []" and "P (fst (dec icu (lx_rest lx)))" and "covers P Q"
  shows "\<exists>lx' u. lx_read icu lx = (fst (dec icu (lx_rest lx)), lx') \<and> eats lx u lx' \<and> u \<noteq> [] \<and> (\<forall>c \<in> set u. Q c)"
proof -
  obtain c w where c: "lx_rest lx = c # w" using assms(3) by (cases "lx_rest lx") auto
  consider "high c" | "\<not> high c" "c \<noteq> CHR 0x0D" | "c = CHR 0x0D" "\<not> high c" by blast
  then show ?thesis
  proof cases
    case 1
    with read_high [OF assms(1,2) c] assms(4,5) show ?thesis unfolding covers_def by metis
  next
    case 2
    have "fst (dec icu (lx_rest lx)) = of_char c" using peek_cases(2) [OF assms(1) c 2(1)] by simp
    moreover from this have "Q c" using assms(4,5) 2(1) unfolding covers_def by metis
    ultimately show ?thesis using read_char [OF assms(1,2) c 2] by (auto intro!: exI [of _ "[c]"])
  next
    case 3
    have d: "fst (dec icu (lx_rest lx)) = 13" using peek_cases(2) [OF assms(1) c 3(2)] 3(1) by simp
    then have "Q (CHR 0x0A)" "Q (CHR 0x0D)" using assms(4,5) 3 unfolding covers_def by (auto dest: spec [of _ "CHR 0x0D"])
    then show ?thesis using read_cr [OF assms(1,2) c [unfolded 3(1)]] d
      by (cases "w \<noteq> [] \<and> hd w = CHR 0x0A") (force, force)
  qed
qed

lemma skip_while_eats:
  assumes "icu_ok icu" and "covers P Q"
  shows "lx_ok lx \<Longrightarrow> \<exists>lx' u. skip_while icu P lx = Some lx' \<and> eats lx u lx' \<and> (\<forall>c \<in> set u. Q c) \<and>
    (lx_rest lx' = [] \<or> \<not> P (fst (dec icu (lx_rest lx')))) \<and> (u = [] \<longleftrightarrow> lx_rest lx = [] \<or> \<not> P (fst (dec icu (lx_rest lx))))"
proof (induction "length (lx_rest lx)" arbitrary: lx rule: less_induct)
  case less
  let ?cp = "fst (dec icu (lx_rest lx))"
  obtain lx1 where p: "lx_peek icu lx = (?cp, lx1)" "eats lx [] lx1" using peek_eats [OF less.prems] by blast
  have r1: "lx_rest lx1 = lx_rest lx" "lx_ok lx1" using p(2) by (simp_all add: eats_def)
  show ?case
  proof (cases "?cp = - 1 \<or> \<not> P ?cp")
    case True
    then have "skip_while icu P lx = Some lx1" by (subst skip_while.simps) (simp add: p(1))
    moreover have "lx_rest lx1 = [] \<or> \<not> P (fst (dec icu (lx_rest lx1)))"
      using True dec_neg [OF assms(1), of "lx_rest lx"] r1(1) by auto
    ultimately show ?thesis using p(2) r1(1) by (intro exI [of _ lx1] exI [of _ "[]"]) simp
  next
    case False
    then have ne: "lx_rest lx \<noteq> []" using dec_neg [OF assms(1), of "lx_rest lx"] by auto
    obtain lx2 u where r: "lx_read icu lx1 = (?cp, lx2)" "eats lx1 u lx2" "u \<noteq> []" "\<forall>c \<in> set u. Q c"
      using read_covers [OF assms(1) r1(2), of P Q] r1(1) ne False assms(2) by auto
    have "length (lx_rest lx2) < length (lx_rest lx)" "lx_ok lx2" using r(2,3) r1(1) by (auto simp: eats_def)
    from less.hyps [OF this] obtain lx3 v where s: "skip_while icu P lx2 = Some lx3" "eats lx2 v lx3" "\<forall>c \<in> set v. Q c"
      "lx_rest lx3 = [] \<or> \<not> P (fst (dec icu (lx_rest lx3)))" by blast
    have "skip_while icu P lx = Some lx3" using False s(1) by (subst skip_while.simps) (simp add: p(1) r(1))
    moreover have "eats lx (u @ v) lx3" using eats_trans [OF eats_trans [OF p(2) r(2)] s(2)] by simp
    ultimately show ?thesis using s(3,4) r(3,4) False ne by (intro exI [of _ lx3] exI [of _ "u @ v"]) auto
  qed
qed

lemma whitespace_eats:
  assumes "icu_ok icu"
  shows "lx_ok lx \<Longrightarrow> cp = fst (dec icu (lx_rest lx)) \<Longrightarrow> \<exists>lx' u. whitespace_loop icu cp lx = Some lx' \<and> eats lx u lx' \<and>
    (\<forall>c \<in> set u. c \<in> set [CHR '' '', CHR 0x09, CHR 0x0D, CHR 0x0A]) \<and>
    (lx_rest lx' = [] \<or> \<not> is_whitespace (fst (dec icu (lx_rest lx')))) \<and> (u = [] \<longleftrightarrow> \<not> is_whitespace cp)"
proof (induction "length (lx_rest lx)" arbitrary: lx cp rule: less_induct)
  case less
  let ?Q = "\<lambda>c. c \<in> set [CHR '' '', CHR 0x09, CHR 0x0D, CHR 0x0A]"
  have eqs: "(of_char c :: int) = 9 \<longleftrightarrow> c = CHR 0x09" "(of_char c :: int) = 10 \<longleftrightarrow> c = CHR 0x0A"
    "(of_char c :: int) = 13 \<longleftrightarrow> c = CHR 0x0D" "(of_char c :: int) = 32 \<longleftrightarrow> c = CHR '' ''" for c
    using of_char_int_eq [of c "CHR 0x09"] of_char_int_eq [of c "CHR 0x0A"] of_char_int_eq [of c "CHR 0x0D"] of_char_int_eq [of c "CHR '' ''"] by simp_all
  have cov: "covers is_whitespace ?Q" by (auto simp: covers_def is_whitespace_def eqs)
  show ?case
  proof (cases "is_whitespace cp")
    case False
    then show ?thesis using less.prems by (subst whitespace_loop.simps) (auto intro!: exI [of _ lx] eats_refl)
  next
    case True
    then have ne: "lx_rest lx \<noteq> []" using dec_neg [OF assms, of "lx_rest lx"] less.prems(2) by (auto simp: is_whitespace_def)
    obtain lx2 u where r: "lx_read icu lx = (cp, lx2)" "eats lx u lx2" "u \<noteq> []" "\<forall>c \<in> set u. ?Q c"
      using read_covers [OF assms less.prems(1) ne, of is_whitespace ?Q] True less.prems(2) cov by auto
    have ok2: "lx_ok lx2" "length (lx_rest lx2) < length (lx_rest lx)" using r(2,3) by (auto simp: eats_def)
    obtain lx3 where p: "lx_peek icu lx2 = (fst (dec icu (lx_rest lx2)), lx3)" "eats lx2 [] lx3" using peek_eats [OF ok2(1)] by blast
    have r3: "lx_rest lx3 = lx_rest lx2" "lx_ok lx3" using p(2) by (simp_all add: eats_def)
    show ?thesis
    proof (cases "fst (dec icu (lx_rest lx2)) = - 1")
      case stop: True
      then have "whitespace_loop icu cp lx = Some lx3" using True by (subst whitespace_loop.simps) (simp add: r(1) p(1))
      moreover have "lx_rest lx3 = []" using stop dec_neg [OF assms, of "lx_rest lx2"] r3(1) by simp
      ultimately show ?thesis using eats_trans [OF r(2) p(2)] r(3,4) True by (intro exI [of _ lx3] exI [of _ u]) simp
    next
      case more: False
      obtain lx4 v where s: "whitespace_loop icu (fst (dec icu (lx_rest lx2))) lx3 = Some lx4" "eats lx3 v lx4" "\<forall>c \<in> set v. ?Q c"
        "lx_rest lx4 = [] \<or> \<not> is_whitespace (fst (dec icu (lx_rest lx4)))"
        using less.hyps [of lx3 "fst (dec icu (lx_rest lx2))"] ok2 r3 by auto
      have "whitespace_loop icu cp lx = Some lx4" using True more s(1) by (subst whitespace_loop.simps) (simp add: r(1) p(1))
      moreover have "eats lx (u @ v) lx4" using eats_trans [OF eats_trans [OF r(2) p(2)] s(2)] by simp
      ultimately show ?thesis using s(3,4) r(3,4) True by (intro exI [of _ lx4] exI [of _ "u @ v"]) auto
    qed
  qed
qed

section \<open>Tokens of a scan\<close>

definition good :: "lexer \<Rightarrow> token \<Rightarrow> lexer \<Rightarrow> bool" where
  "good lx t lx' \<longleftrightarrow> (\<exists>u. eats lx u lx' \<and> u \<noteq> [] \<and> ps_offset (lc_begin (tk_location t)) = lx_pos lx \<and>
     (if tk_kind t = TOKEN_TYPE_ERROR then tk_text t = [] \<and> tk_message t \<noteq> None
      else tk_kind t \<noteq> TOKEN_TYPE_EOF \<and> tk_text t = u \<and> tk_message t = None \<and> ps_offset (lc_end (tk_location t)) = lx_pos lx'))"

lemma fail_good:
  assumes "eats lx u lx'" and "u \<noteq> []" and "sp_offset b = lx_pos lx"
  shows "good lx (lexer_fail lx' b msg) lx'"
  using assms unfolding good_def
  by (intro exI [of _ u]) (simp add: lexer_fail_def lexer_make_token_def create_token_def make_location_def slice_def Let_def)

lemma make_text:
  assumes "lx_ok lx" and "eats lx u lx'" and "sp_offset b = lx_pos lx"
  shows "tk_text (lexer_make_token lx' k b (lx_tell icu lx')) = u"
proof -
  have e: "sp_offset (lx_tell icu lx') = lx_pos lx + length u" "lx_data lx' = lx_data lx" "lx_len lx' = length (lx_data lx)"
    "lx_rest lx = u @ lx_rest lx'"
    using assms(2) unfolding eats_def lx_tell_def istream_tell_def lx_pos_def lx_ok_def by auto
  have r: "drop (lx_pos lx) (lx_data lx) = u @ lx_rest lx'" "lx_pos lx \<le> length (lx_data lx)"
    using lx_rest_pos [OF assms(1)] e(4) by simp_all
  have "length (drop (lx_pos lx) (lx_data lx)) = length u + length (lx_rest lx')" unfolding r(1) by simp
  then have "lx_pos lx + length u \<le> length (lx_data lx)" using r(2) by simp
  then show ?thesis
    using e r assms(3) by (simp add: lexer_make_token_def create_token_def slice_def Let_def)
qed

lemma make_good:
  assumes "lx_ok lx" and "eats lx u lx'" and "u \<noteq> []" and "sp_offset b = lx_pos lx" and "k \<noteq> TOKEN_TYPE_ERROR" and "k \<noteq> TOKEN_TYPE_EOF"
  shows "good lx (lexer_make_token lx' k b (lx_tell icu lx')) lx'"
proof -
  have "tk_kind (lexer_make_token lx' k b (lx_tell icu lx')) = k" "tk_message (lexer_make_token lx' k b (lx_tell icu lx')) = None"
    "ps_offset (lc_begin (tk_location (lexer_make_token lx' k b (lx_tell icu lx')))) = sp_offset b"
    "ps_offset (lc_end (tk_location (lexer_make_token lx' k b (lx_tell icu lx')))) = lx_pos lx'"
    by (simp_all add: lexer_make_token_def create_token_def make_location_def lx_tell_def istream_tell_def lx_pos_def Let_def)
  then show ?thesis using make_text [OF assms(1,2,4)] assms(2-6) unfolding good_def by auto
qed

text \<open>Kinds of the tokens that are built.\<close>

lemma kinds [simp]: "tk_kind (lexer_make_token lx k b e) = k" "tk_kind (lexer_fail lx b msg) = TOKEN_TYPE_ERROR"
  by (simp_all add: lexer_fail_def lexer_make_token_def create_token_def Let_def)

section \<open>Strings\<close>

text \<open>
  Reference scanner of a string literal after its opening quote, on the bytes: the bytes after the
  closing quote, or \<open>None\<close> if the literal is malformed.
\<close>

definition hex_char :: "char \<Rightarrow> bool" where
  "hex_char c \<longleftrightarrow> c \<in> set ''0123456789abcdefABCDEF''"

definition simple_escape :: "char \<Rightarrow> bool" where
  "simple_escape c \<longleftrightarrow> c \<in> set [CHR ''n'', CHR ''t'', CHR ''r'', CHR ''0'', CHR 0x22, CHR 0x27, CHR 0x5C]"

text \<open>The tests of the lexer on code points agree with the character sets on every byte.\<close>

lemma byte_in: "c \<in> set cs \<longleftrightarrow> (of_char c :: int) \<in> set (map of_char cs)"
  by (induction cs) (auto simp: of_char_int_eq)

lemma hex_char_iff: "hex_char c \<longleftrightarrow> is_hex_digit (of_char c)"
  unfolding hex_char_def byte_in is_hex_digit_def by (simp del: insert_iff add: insert_iff [abs_def]) presburger

lemma simple_escape_iff [simp]: "simple_escape c \<longleftrightarrow> is_simple_escape (of_char c)"
  unfolding simple_escape_def byte_in is_simple_escape_def by simp presburger

fun scan_body :: "string \<Rightarrow> string option" where
  "scan_body [] = None"
| "scan_body (c # cs) =
     (if c = CHR 0x22 then Some cs
      else if c = CHR 0x5C then
        (case cs of [] \<Rightarrow> None
         | e # es \<Rightarrow>
           if e = CHR ''x'' then (case es of [] \<Rightarrow> None | h # hs \<Rightarrow> if hex_char h then scan_body hs else None)
           else if simple_escape e then scan_body es else None)
      else if c = CHR 0x0A \<or> c = CHR 0x0D then None
      else scan_body cs)"

lemma char_ints:
  "(of_char c :: int) = 34 \<longleftrightarrow> c = CHR 0x22" "(of_char c :: int) = 92 \<longleftrightarrow> c = CHR 0x5C" "(of_char c :: int) = 10 \<longleftrightarrow> c = CHR 0x0A"
  "(of_char c :: int) = 13 \<longleftrightarrow> c = CHR 0x0D" "(of_char c :: int) = 120 \<longleftrightarrow> c = CHR ''x''" "(of_char c :: int) = 39 \<longleftrightarrow> c = CHR 0x27"
  "(of_char c :: int) = 42 \<longleftrightarrow> c = CHR ''*''" "(of_char c :: int) = 47 \<longleftrightarrow> c = CHR ''/''" "(of_char c :: int) = 46 \<longleftrightarrow> c = CHR ''.''"
  using of_char_int_eq [of c "CHR 0x22"] of_char_int_eq [of c "CHR 0x5C"] of_char_int_eq [of c "CHR 0x0A"]
    of_char_int_eq [of c "CHR 0x0D"] of_char_int_eq [of c "CHR ''x''"] of_char_int_eq [of c "CHR 0x27"]
    of_char_int_eq [of c "CHR ''*''"] of_char_int_eq [of c "CHR ''/''"] of_char_int_eq [of c "CHR ''.''"]
  by simp_all

lemma low_escape: "is_simple_escape (of_char e) \<Longrightarrow> \<not> high e" "hex_char h \<Longrightarrow> \<not> high h"
  by (auto simp: is_simple_escape_def high_def hex_char_iff is_hex_digit_def)

lemma scan_high: "\<forall>x \<in> set u. high x \<Longrightarrow> scan_body (u @ w) = scan_body w"
  by (induction u) (auto simp: high_def)

lemma scan_hex: "hex_char h \<Longrightarrow> scan_body (h # w) = scan_body w"
  by (auto simp: hex_char_iff is_hex_digit_def)

text \<open>A read at any place, with what is eaten.\<close>

lemma read_any:
  assumes "icu_ok icu" and "lx_ok lx"
  shows "\<exists>lx' u. lx_read icu lx = (fst (dec icu (lx_rest lx)), lx') \<and> eats lx u lx' \<and> (lx_rest lx \<noteq> [] \<longrightarrow> u \<noteq> [])"
  using read_eats [OF assms] by blast

text \<open>
  The rest after an escape whose backslash was read: a letter, or \<open>x\<close> with one or two digits.
\<close>

definition after_escape :: "string \<Rightarrow> string option" where
  "after_escape s = (case s of [] \<Rightarrow> None | e # es \<Rightarrow>
     if e = CHR ''x'' then
       (case es of [] \<Rightarrow> None | h # hs \<Rightarrow>
          if \<not> hex_char h then None else if hs \<noteq> [] \<and> hex_char (hd hs) then Some (tl hs) else Some hs)
     else if simple_escape e then Some es else None)"

lemma scan_body_escape: "scan_body (CHR 0x5C # s) = Option.bind (after_escape s) scan_body"
proof (cases s)
  case (Cons e es)
  have "scan_body hs = scan_body (tl hs)" if "hs \<noteq> []" "hex_char (hd hs)" for hs
    using scan_hex [OF that(2), of "tl hs"] that(1) by simp
  then show ?thesis by (auto simp: Cons after_escape_def split: list.splits)
qed (simp add: after_escape_def)

lemma escape_exact:
  assumes "icu_ok icu" and "lx_ok lx"
  shows "\<exists>err lx' u. lexer_read_escape icu lx b what = (err, lx') \<and> eats lx u lx' \<and>
    (case err of Some t \<Rightarrow> (\<exists>msg. t = lexer_fail lx' b msg) \<and> after_escape (lx_rest lx) = None
     | None \<Rightarrow> u \<noteq> [] \<and> after_escape (lx_rest lx) = Some (lx_rest lx'))"
proof (cases "lx_rest lx")
  case Nil
  then show ?thesis using read_end [OF assms Nil] by (force simp: lexer_read_escape_def after_escape_def)
next
  case (Cons e es)
  obtain lx1 u where r: "lx_read icu lx = (fst (dec icu (lx_rest lx)), lx1)" "eats lx u lx1" "u \<noteq> []"
    using read_any [OF assms] Cons by auto
  have ok1: "lx_ok lx1" using r(2) by (simp add: eats_def)
  consider (high) "high e" | (line) "\<not> high e" "e = CHR 0x0A \<or> e = CHR 0x0D" | (hex) "e = CHR ''x''" | (other) "\<not> high e" "e \<noteq> CHR 0x0A" "e \<noteq> CHR 0x0D" "e \<noteq> CHR ''x''"
    by blast
  then show ?thesis
  proof cases
    case high
    have "128 \<le> fst (dec icu (lx_rest lx))" using peek_cases(3) [OF assms(1) Cons high] .
    then have "lexer_read_escape icu lx b what = (Some (lexer_fail lx1 b (Msg_cp (''invalid escape sequence in '' @ what) (fst (dec icu (lx_rest lx))))), lx1)"
      by (simp add: lexer_read_escape_def r(1) is_simple_escape_def)
    moreover have "e \<noteq> CHR ''x''" using high by (auto simp: high_def)
    ultimately show ?thesis using r(2) high low_escape(1) Cons by (auto simp: after_escape_def)
  next
    case line
    have "fst (dec icu (lx_rest lx)) = of_char e" using peek_cases(2) [OF assms(1) Cons line(1)] by simp
    then have "lexer_read_escape icu lx b what = (Some (lexer_fail lx1 b (Msg (''unterminated '' @ what @ '' (newline in literal)''))), lx1)"
      using line(2) by (auto simp: lexer_read_escape_def r(1))
    then show ?thesis using r(2) line Cons by (auto simp: after_escape_def is_simple_escape_def)
  next
    case hex
    have low: "\<not> high CHR ''x''" by (simp add: high_def)
    obtain lx1 where r: "lx_read icu lx = (120, lx1)" "eats lx [CHR ''x''] lx1"
      using read_char [OF assms Cons [unfolded hex] low] by auto
    have r1: "lx_rest lx1 = es" "lx_ok lx1" using r(2) Cons hex by (auto simp: eats_def)
    obtain lx2 where p: "lx_peek icu lx1 = (fst (dec icu es), lx2)" "eats lx1 [] lx2"
      using peek_eats [OF r1(2)] r1(1) by metis
    have r2: "lx_rest lx2 = es" "lx_ok lx2" "eats lx [CHR ''x''] lx2" using p(2) r1(1) eats_trans [OF r(2) p(2)] by (auto simp: eats_def)
    show ?thesis
    proof (cases "es \<noteq> [] \<and> hex_char (hd es)")
      case False
      have "fst (dec icu es) = - 1 \<or> \<not> is_hex_digit (fst (dec icu es))"
      proof (cases es)
        case es: (Cons h hs)
        then have nh: "\<not> hex_char h" using False by simp
        have "128 \<le> fst (dec icu es)" if "high h" using peek_cases(3) [OF assms(1) r1(1) [unfolded es] that] r1(1) by simp
        moreover have "fst (dec icu es) = of_char h" if "\<not> high h" using peek_cases(2) [OF assms(1) r1(1) [unfolded es] that] r1(1) by simp
        ultimately show ?thesis using nh by (cases "high h") (auto simp: hex_char_iff is_hex_digit_def)
      qed (simp add: dec_def)
      then have "lexer_read_escape icu lx b what = (Some (lexer_fail lx2 b (Msg (''invalid hex escape in '' @ what @ '': expected hex digit''))), lx2)"
        by (auto simp: lexer_read_escape_def r(1) p(1) Let_def)
      moreover have "after_escape (lx_rest lx) = None" using False Cons hex by (cases es) (auto simp: after_escape_def)
      ultimately show ?thesis using r2(3) by auto
    next
      case True
      then obtain h hs where es: "es = h # hs" "hex_char h" by (cases es) auto
      note h = r2(1) [unfolded es(1)] low_escape(2) [OF es(2)]
      have h13: "h \<noteq> CHR 0x0D" using es(2) by (auto simp: hex_char_iff is_hex_digit_def)
      have dh: "fst (dec icu es) = of_char h" using peek_cases(2) [OF assms(1) h] r2(1) by simp
      obtain lx3 where r3: "lx_read icu lx2 = (of_char h, lx3)" "eats lx2 [h] lx3" using read_char [OF assms(1) r2(2) h h13] by auto
      have s3: "lx_rest lx3 = hs" "lx_ok lx3" using r3(2) h(1) by (auto simp: eats_def)
      obtain lx4 where p4: "lx_peek icu lx3 = (fst (dec icu hs), lx4)" "eats lx3 [] lx4"
        using peek_eats [OF s3(2)] s3(1) by metis
      have s4: "lx_rest lx4 = hs" "lx_ok lx4" "eats lx [CHR ''x'', h] lx4"
        using p4(2) s3(1) eats_trans [OF eats_trans [OF r2(3) r3(2)] p4(2)] by (auto simp: eats_def)
      have ne: "fst (dec icu es) \<noteq> - 1" using dec_neg [OF assms(1), of es] es(1) by simp
      have run: "lexer_read_escape icu lx b what = (None, if is_hex_digit (fst (dec icu hs)) then snd (lx_read icu lx4) else lx4)"
        using es(2) dh ne by (simp add: lexer_read_escape_def r(1) p(1) r3(1) p4(1) hex_char_iff)
      have body: "after_escape (lx_rest lx) = (if hs \<noteq> [] \<and> hex_char (hd hs) then Some (tl hs) else Some hs)"
        using Cons hex es by (simp add: after_escape_def)
      show ?thesis
      proof (cases "is_hex_digit (fst (dec icu hs))")
        case False
        have "\<not> hex_char (hd hs)" if hs: "hs \<noteq> []"
        proof
          assume k: "hex_char (hd hs)"
          have "lx_rest lx4 = hd hs # tl hs" using s4(1) hs by simp
          then have "fst (dec icu hs) = of_char (hd hs)"
            using peek_cases(2) [OF assms(1) _ low_escape(2) [OF k]] s4(1) by fastforce
          then show False using False k by (simp add: hex_char_iff)
        qed
        then have "after_escape (lx_rest lx) = Some hs" using body by auto
        then show ?thesis using run False s4 by (intro exI [of _ None] exI [of _ lx4] exI [of _ "[CHR ''x'', h]"]) simp
      next
        case digit: True
        then have hsn: "hs \<noteq> []" by (auto simp: dec_def is_hex_digit_def)
        then obtain k ks where hs: "hs = k # ks" by (cases hs) auto
        have "\<not> high k" using digit peek_cases(3) [OF assms(1) s4(1) [unfolded hs]] s4(1) by (auto simp: is_hex_digit_def)
        then have "hex_char k" using digit peek_cases(2) [OF assms(1) s4(1) [unfolded hs]] s4(1) by (simp add: hex_char_iff)
        moreover from this have "k \<noteq> CHR 0x0D" by (auto simp: hex_char_iff is_hex_digit_def)
        ultimately obtain lx5 where r5: "lx_read icu lx4 = (of_char k, lx5)" "eats lx4 [k] lx5"
          using read_char [OF assms(1) s4(2) s4(1) [unfolded hs] \<open>\<not> high k\<close>] by auto
        have "lx_rest lx5 = ks" using r5(2) s4(1) hs by (simp add: eats_def)
        then have "after_escape (lx_rest lx) = Some (lx_rest lx5)" using \<open>hex_char k\<close> hs body by simp
        then show ?thesis using run digit r5(1) eats_trans [OF s4(3) r5(2)] by (auto intro!: exI [of _ "[CHR ''x'', h, k]"])
      qed
    qed
  next
    case other
    have d: "fst (dec icu (lx_rest lx)) = of_char e" using peek_cases(2) [OF assms(1) Cons other(1)] by simp
    obtain lx2 where r2: "lx_read icu lx = (of_char e, lx2)" "eats lx [e] lx2" using read_char [OF assms Cons other(1,3)] by auto
    have ints: "(of_char e :: int) \<noteq> - 1" "(of_char e :: int) \<noteq> 10" "(of_char e :: int) \<noteq> 13" "(of_char e :: int) \<noteq> 120"
      using other(2-4) of_char_nonneg [of e] by (simp_all add: char_ints)
    show ?thesis
    proof (cases "is_simple_escape (of_char e)")
      case True
      then show ?thesis using r2 ints other(4) Cons by (auto simp: lexer_read_escape_def after_escape_def eats_def intro!: exI [of _ "[e]"])
    next
      case False
      then show ?thesis using r2 ints other(4) Cons by (auto simp: lexer_read_escape_def after_escape_def)
    qed
  qed
qed

lemma escape_scan:
  assumes "icu_ok icu" and "lx_ok lx"
  shows "\<exists>err lx' u. lexer_read_escape icu lx b what = (err, lx') \<and> eats lx u lx' \<and>
    (case err of Some t \<Rightarrow> (\<exists>msg. t = lexer_fail lx' b msg) \<and> scan_body (CHR 0x5C # lx_rest lx) = None
     | None \<Rightarrow> u \<noteq> [] \<and> scan_body (CHR 0x5C # lx_rest lx) = scan_body (lx_rest lx'))"
proof -
  obtain err lx' u where "lexer_read_escape icu lx b what = (err, lx')" "eats lx u lx'"
    "case err of Some t \<Rightarrow> (\<exists>msg. t = lexer_fail lx' b msg) \<and> after_escape (lx_rest lx) = None
     | None \<Rightarrow> u \<noteq> [] \<and> after_escape (lx_rest lx) = Some (lx_rest lx')"
    using escape_exact [OF assms] by blast
  then show ?thesis unfolding scan_body_escape
    by (intro exI [of _ err] exI [of _ lx'] exI [of _ u]) (auto split: option.splits)
qed

text \<open>What a scanner with a reference \<open>ref\<close> does: succeed with the rest that the reference gives, or fail.\<close>

definition follows :: "stream_pos \<Rightarrow> lexer \<Rightarrow> string option \<Rightarrow> (token option \<times> lexer) option \<Rightarrow> bool" where
  "follows b lx ref r \<longleftrightarrow> (\<exists>err lx' u. r = Some (err, lx') \<and> eats lx u lx' \<and>
     (case err of Some t \<Rightarrow> (\<exists>msg. t = lexer_fail lx' b msg) \<and> ref = None | None \<Rightarrow> ref = Some (lx_rest lx')))"

lemma follows_eats: "eats lx u lx1 \<Longrightarrow> follows b lx1 ref r \<Longrightarrow> follows b lx ref r"
  unfolding follows_def using eats_trans by blast

lemma follows_fail: "eats lx u lx' \<Longrightarrow> follows b lx None (Some (Some (lexer_fail lx' b msg), lx'))"
  unfolding follows_def by (intro exI conjI) auto

lemma follows_done: "eats lx u lx' \<Longrightarrow> follows b lx (Some (lx_rest lx')) (Some (None, lx'))"
  unfolding follows_def by (intro exI conjI) auto

lemma string_loop_follows:
  assumes "icu_ok icu"
  shows "lx_ok lx \<Longrightarrow> follows b lx (scan_body (lx_rest lx)) (string_loop icu b lx)"
proof (induction "length (lx_rest lx)" arbitrary: lx rule: less_induct)
  case less
  show ?case
  proof (cases "lx_rest lx")
    case Nil
    obtain lx1 where r: "lx_read icu lx = (- 1, lx1)" "eats lx [] lx1" using read_end [OF assms less.prems Nil] by blast
    have "string_loop icu b lx = Some (Some (lexer_fail lx1 b (Msg ''unterminated string literal'')), lx1)"
      by (subst string_loop.simps) (simp add: r(1))
    then show ?thesis using follows_fail [OF r(2)] Nil by simp
  next
    case (Cons c w)
    let ?cp = "fst (dec icu (lx_rest lx))"
    have cp: "?cp \<noteq> - 1" using dec_neg [OF assms, of "lx_rest lx"] Cons by simp
    show ?thesis
    proof (cases "high c")
      case True
      obtain lx1 u where r: "lx_read icu lx = (?cp, lx1)" "eats lx u lx1" "u \<noteq> []" "\<forall>x \<in> set u. high x" "128 \<le> ?cp"
        using read_high [OF assms less.prems Cons True] by blast
      have s: "lx_ok lx1" "length (lx_rest lx1) < length (lx_rest lx)" "lx_rest lx = u @ lx_rest lx1"
        using r(2,3) by (auto simp: eats_def)
      have "string_loop icu b lx = string_loop icu b lx1"
        using cp r(5) by (subst string_loop.simps) (simp add: r(1))
      moreover have "scan_body (lx_rest lx) = scan_body (lx_rest lx1)" unfolding s(3) by (rule scan_high [OF r(4)])
      ultimately show ?thesis using follows_eats [OF r(2) less.hyps [OF s(2,1)]] by simp
    next
      case low: False
      have d: "?cp = of_char c" using peek_cases(2) [OF assms Cons low] by simp
      obtain lx1 u where r: "lx_read icu lx = (of_char c, lx1)" "eats lx u lx1" "u \<noteq> []"
        using read_any [OF assms less.prems] Cons d by auto
      have s: "lx_ok lx1" "length (lx_rest lx1) < length (lx_rest lx)" using r(2,3) by (auto simp: eats_def)
      have neg: "(of_char c :: int) \<noteq> - 1" using of_char_nonneg [of c] by simp
      have w: "lx_rest lx1 = w" if "c \<noteq> CHR 0x0D" using read_char [OF assms less.prems Cons low that] r(1) Cons by (auto simp: eats_def)
      consider "c = CHR 0x22" | "c = CHR 0x5C" | "c = CHR 0x0A \<or> c = CHR 0x0D"
        | "c \<noteq> CHR 0x22" "c \<noteq> CHR 0x5C" "c \<noteq> CHR 0x0A" "c \<noteq> CHR 0x0D" by blast
      then show ?thesis
      proof cases
        case 1
        then have "string_loop icu b lx = Some (None, lx1)" by (subst string_loop.simps) (simp add: r(1))
        then show ?thesis using follows_done [OF r(2), of b] Cons 1 w by simp
      next
        case 2
        then have rest1: "lx_rest lx1 = w" using w by simp
        obtain err lx2 v where e: "lexer_read_escape icu lx1 b ''string literal'' = (err, lx2)" "eats lx1 v lx2"
          "case err of Some t \<Rightarrow> (\<exists>msg. t = lexer_fail lx2 b msg) \<and> scan_body (CHR 0x5C # w) = None
           | None \<Rightarrow> v \<noteq> [] \<and> scan_body (CHR 0x5C # w) = scan_body (lx_rest lx2)"
          using escape_scan [OF assms s(1), of b "''string literal''"] rest1 by auto
        have step: "string_loop icu b lx = (case err of Some t \<Rightarrow> Some (Some t, lx2) | None \<Rightarrow> string_loop icu b lx2)"
          using 2 by (subst string_loop.simps) (simp add: r(1) e(1) split: option.split)
        show ?thesis
        proof (cases err)
          case None
          have t: "lx_ok lx2" "length (lx_rest lx2) < length (lx_rest lx)" using e(2) s(2) by (auto simp: eats_def)
          show ?thesis
            using follows_eats [OF eats_trans [OF r(2) e(2)] less.hyps [OF t(2,1)]] e(3) None step Cons 2 by simp
        next
          case (Some t)
          then obtain msg where "t = lexer_fail lx2 b msg" "scan_body (CHR 0x5C # w) = None" using e(3) by auto
          then show ?thesis using follows_fail [OF eats_trans [OF r(2) e(2)]] step Some Cons 2 by simp
        qed
      next
        case 3
        then have "string_loop icu b lx = Some (Some (lexer_fail lx1 b (Msg ''unterminated string literal (newline in string)'')), lx1)"
          by (subst string_loop.simps) (auto simp: r(1))
        then show ?thesis using follows_fail [OF r(2)] Cons 3 by auto
      next
        case 4
        then have "string_loop icu b lx = string_loop icu b lx1"
          using neg by (subst string_loop.simps) (simp add: r(1) char_ints)
        moreover have "scan_body (lx_rest lx) = scan_body (lx_rest lx1)" using 4 w Cons by simp
        ultimately show ?thesis using follows_eats [OF r(2) less.hyps [OF s(2,1)]] by simp
      qed
    qed
  qed
qed

section \<open>Comments\<close>

text \<open>The bytes after the first end of a block comment: comments do not nest.\<close>

fun scan_block :: "string \<Rightarrow> string option" where
  "scan_block [] = None"
| "scan_block (c # cs) =
     (if c = CHR ''*'' then (case cs of [] \<Rightarrow> None | d # ds \<Rightarrow> if d = CHR ''/'' then Some ds else scan_block cs)
      else scan_block cs)"

lemma scan_block_other: "\<forall>x \<in> set u. x \<noteq> CHR ''*'' \<Longrightarrow> scan_block (u @ w) = scan_block w"
  by (induction u) auto

lemma dec_char_iff:
  assumes "icu_ok icu" and "\<not> high c"
  shows "fst (dec icu bs) = of_char c \<longleftrightarrow> bs \<noteq> [] \<and> hd bs = c"
proof (cases bs)
  case Nil
  then show ?thesis using of_char_nonneg [of c] by (simp add: dec_def)
next
  case (Cons x xs)
  then show ?thesis
    using dec_Cons(4,5) [OF assms(1), of x xs] assms(2) of_char_int_eq [of x c] by (cases "high x") (auto simp: high_def)
qed

lemma block_loop_follows:
  assumes "icu_ok icu"
  shows "lx_ok lx \<Longrightarrow> follows b lx (scan_block (lx_rest lx)) (block_loop icu b lx)"
proof (induction "length (lx_rest lx)" arbitrary: lx rule: less_induct)
  case less
  show ?case
  proof (cases "lx_rest lx")
    case Nil
    obtain lx1 where r: "lx_read icu lx = (- 1, lx1)" "eats lx [] lx1" using read_end [OF assms less.prems Nil] by blast
    have "block_loop icu b lx = Some (Some (lexer_fail lx1 b (Msg ''unterminated block comment'')), lx1)"
      by (subst block_loop.simps) (simp add: r(1))
    then show ?thesis using follows_fail [OF r(2)] Nil by simp
  next
    case (Cons c w)
    let ?cp = "fst (dec icu (lx_rest lx))"
    have cp: "?cp \<noteq> - 1" using dec_neg [OF assms, of "lx_rest lx"] Cons by simp
    have star: "\<not> high CHR ''*''" "\<not> high CHR ''/''" by (simp_all add: high_def)
    show ?thesis
    proof (cases "c = CHR ''*''")
      case True
      have "c \<noteq> CHR 0x0D" "\<not> high c" using True star by simp_all
      then obtain lx1 where r: "lx_read icu lx = (of_char c, lx1)" "eats lx [c] lx1"
        using read_char [OF assms less.prems Cons] by blast
      have s: "lx_ok lx1" "lx_rest lx1 = w" using r(2) Cons by (auto simp: eats_def)
      obtain lx2 where p: "lx_peek icu lx1 = (fst (dec icu w), lx2)" "eats lx1 [] lx2" using peek_eats [OF s(1)] s(2) by metis
      have t: "lx_ok lx2" "lx_rest lx2 = w" "eats lx [c] lx2" using p(2) s(2) eats_trans [OF r(2) p(2)] by (auto simp: eats_def)
      have step: "block_loop icu b lx = (if fst (dec icu w) = of_char CHR ''/'' then Some (None, snd (lx_read icu lx2)) else block_loop icu b lx2)"
        by (subst block_loop.simps) (simp add: r(1) p(1) True)
      show ?thesis
      proof (cases "fst (dec icu w) = of_char CHR ''/''")
        case close: True
        then obtain ds where w: "w = CHR ''/'' # ds" using dec_char_iff [OF assms star(2), of w] by (cases w) auto
        have slash: "CHR ''/'' \<noteq> CHR 0x0D" by simp
        obtain lx3 where q: "lx_read icu lx2 = (of_char CHR ''/'', lx3)" "eats lx2 [CHR ''/''] lx3"
          using read_char [OF assms t(1) t(2) [unfolded w] star(2) slash] by blast
        have "lx_rest lx3 = ds" using q(2) t(2) w by (simp add: eats_def)
        then show ?thesis using follows_done [OF eats_trans [OF t(3) q(2)], of b] step close q(1) Cons True w by simp
      next
        case False
        then have "scan_block (lx_rest lx) = scan_block (lx_rest lx2)"
          using dec_char_iff [OF assms star(2), of w] True Cons t(2) by (cases w) auto
        then show ?thesis
          using follows_eats [OF t(3) less.hyps [OF _ t(1)]] step False Cons t(2) by simp
      qed
    next
      case False
      have "?cp \<noteq> 42" using dec_char_iff [OF assms star(1), of "lx_rest lx"] Cons False by simp
      moreover have "covers (\<lambda>cp. cp \<noteq> 42) (\<lambda>x. x \<noteq> CHR ''*'')"
        unfolding covers_def by (auto simp: high_def char_ints)
      ultimately obtain lx1 u where r: "lx_read icu lx = (?cp, lx1)" "eats lx u lx1" "u \<noteq> []" "\<forall>x \<in> set u. x \<noteq> CHR ''*''"
        using read_covers [OF assms less.prems, of "\<lambda>cp. cp \<noteq> 42" "\<lambda>x. x \<noteq> CHR ''*''"] Cons by auto
      have s: "lx_ok lx1" "length (lx_rest lx1) < length (lx_rest lx)" "lx_rest lx = u @ lx_rest lx1"
        using r(2,3) by (auto simp: eats_def)
      have "block_loop icu b lx = block_loop icu b lx1"
        using cp \<open>?cp \<noteq> 42\<close> by (subst block_loop.simps) (simp add: r(1))
      moreover have "scan_block (lx_rest lx) = scan_block (lx_rest lx1)" unfolding s(3) by (rule scan_block_other [OF r(4)])
      ultimately show ?thesis using follows_eats [OF r(2) less.hyps [OF s(2,1)]] by simp
    qed
  qed
qed

text \<open>A run whose code points are decided by the first byte is the longest run of such bytes.\<close>

lemma skip_takeWhile:
  assumes "icu_ok icu" and "covers P Q" and "\<And>c w. P (fst (dec icu (c # w))) = Q c" and "lx_ok lx"
  shows "\<exists>lx'. skip_while icu P lx = Some lx' \<and> eats lx (takeWhile Q (lx_rest lx)) lx' \<and> lx_rest lx' = dropWhile Q (lx_rest lx)"
proof -
  obtain lx' u where r: "skip_while icu P lx = Some lx'" "eats lx u lx'" "\<forall>c \<in> set u. Q c"
    "lx_rest lx' = [] \<or> \<not> P (fst (dec icu (lx_rest lx')))"
    using skip_while_eats [OF assms(1,2,4)] by blast
  have split: "lx_rest lx = u @ lx_rest lx'" using r(2) by (simp add: eats_def)
  have "lx_rest lx' = [] \<or> \<not> Q (hd (lx_rest lx'))" using r(4) assms(3) by (cases "lx_rest lx'") auto
  then have "takeWhile Q (lx_rest lx) = u" "dropWhile Q (lx_rest lx) = lx_rest lx'"
    using r(3) unfolding split by (cases "lx_rest lx'"; simp add: takeWhile_append_stop dropWhile_append_stop)+
  then show ?thesis using r(1,2) by simp
qed

section \<open>Numbers\<close>

definition digit_char :: "int \<Rightarrow> char \<Rightarrow> bool" where
  "digit_char base c \<longleftrightarrow> c \<in> set (take (nat base) ''0123456789'') \<or> base = 16 \<and> c \<in> set ''abcdefABCDEF''"

lemma digit_char_iff: "digit_char base c \<longleftrightarrow> is_digit_in_base (of_char c) base"
proof -
  have low: "(of_char c :: int) \<in> set (map of_char (take (nat base) ''0123456789'')) \<longleftrightarrow>
      48 \<le> (of_char c :: int) \<and> (of_char c :: int) \<le> 57 \<and> of_char c - 48 < base"
  proof (cases "base \<le> 0 \<or> 10 \<le> base")
    case True
    then show ?thesis by (elim disjE) (simp_all, presburger+)
  next
    case False
    then have "base \<in> {1,2,3,4,5,6,7,8,9}" by auto
    then show ?thesis by (elim insertE emptyE) (simp_all, presburger+)
  qed
  have "(of_char c :: int) \<in> set (map of_char ''abcdefABCDEF'') \<longleftrightarrow>
      97 \<le> (of_char c :: int) \<and> (of_char c :: int) \<le> 102 \<or> 65 \<le> (of_char c :: int) \<and> (of_char c :: int) \<le> 70"
    by simp presburger
  with low show ?thesis unfolding digit_char_def byte_in is_digit_in_base_def by auto
qed

text \<open>Reference scanner of a number on bytes.\<close>

definition scan_fraction :: "string \<Rightarrow> string option" where
  "scan_fraction s = (case s of [] \<Rightarrow> Some [] | c # t \<Rightarrow>
     if c = CHR ''.'' then (if t \<noteq> [] \<and> digit_char 10 (hd t) then Some (dropWhile (digit_char 10) t) else None) else Some s)"

definition drop_sign :: "string \<Rightarrow> string" where
  "drop_sign s = (case s of [] \<Rightarrow> [] | c # t \<Rightarrow> if c = CHR ''+'' \<or> c = CHR ''-'' then t else s)"

definition scan_exponent :: "string \<Rightarrow> string option" where
  "scan_exponent s = (case s of [] \<Rightarrow> Some [] | c # t \<Rightarrow>
     if c = CHR ''e'' \<or> c = CHR ''E'' then
       (let u = drop_sign t in if u \<noteq> [] \<and> digit_char 10 (hd u) then Some (dropWhile (digit_char 10) u) else None)
     else Some s)"

definition scan_prefix :: "string \<Rightarrow> int \<times> string" where
  "scan_prefix s = (case s of c # d # t \<Rightarrow>
       if c = CHR ''0'' \<and> (d = CHR ''x'' \<or> d = CHR ''X'') then (16, t)
       else if c = CHR ''0'' \<and> (d = CHR ''o'' \<or> d = CHR ''O'') then (8, t)
       else if c = CHR ''0'' \<and> (d = CHR ''b'' \<or> d = CHR ''B'') then (2, t)
       else (10, d # t)
     | _ \<Rightarrow> (10, tl s))"

definition scan_number :: "string \<Rightarrow> string option" where
  "scan_number s = (let (base, t) = scan_prefix s; r = dropWhile (digit_char base) t in
     if base \<noteq> 10 then (if r = t then None else Some r) else Option.bind (scan_fraction r) scan_exponent)"

lemma digit_low: "digit_char base c \<Longrightarrow> \<not> high c" "is_digit_in_base cp base \<Longrightarrow> 0 \<le> cp \<and> cp < 128 \<and> cp \<noteq> 13"
  by (auto simp: digit_char_iff is_digit_in_base_def high_def split: if_splits)

lemma digit_dec:
  assumes "icu_ok icu"
  shows "is_digit_in_base (fst (dec icu (c # w))) base = digit_char base c"
  using dec_Cons(4,5) [OF assms, of c w] digit_low(1) [of base c] digit_low(2) [of "fst (dec icu (c # w))" base]
  by (cases "high c") (auto simp: high_def digit_char_iff)

lemma skip_digits:
  assumes "icu_ok icu" and "lx_ok lx"
  shows "\<exists>lx'. skip_while icu (\<lambda>c. is_digit_in_base c base) lx = Some lx' \<and> eats lx (takeWhile (digit_char base) (lx_rest lx)) lx' \<and>
    lx_rest lx' = dropWhile (digit_char base) (lx_rest lx)"
proof -
  have "covers (\<lambda>c. is_digit_in_base c base) (digit_char base)"
    using digit_low(2) unfolding covers_def digit_char_iff by fastforce
  from skip_takeWhile [OF assms(1) this digit_dec [OF assms(1)] assms(2)] show ?thesis .
qed

text \<open>Reading a given ASCII character after it was peeked.\<close>

lemma peek_is:
  assumes "icu_ok icu" and "lx_ok lx"
  shows "\<exists>lx'. lx_peek icu lx = (fst (dec icu (lx_rest lx)), lx') \<and> eats lx [] lx' \<and> lx_ok lx' \<and> lx_rest lx' = lx_rest lx"
  using peek_eats [OF assms(2), of icu] by (auto simp: eats_def)

lemma read_is:
  assumes "icu_ok icu" and "lx_ok lx" and "lx_rest lx = c # w" and "\<not> high c" and "c \<noteq> CHR 0x0D"
  shows "\<exists>lx'. lx_read icu lx = (of_char c, lx') \<and> eats lx [c] lx' \<and> lx_ok lx' \<and> lx_rest lx' = w"
  using read_char [OF assms] assms(3) by (auto simp: eats_def)

lemma number_fraction_follows:
  assumes "icu_ok icu" and "lx_ok lx"
  shows "follows b lx (scan_fraction (lx_rest lx)) (number_fraction icu lx b)"
proof -
  have dot: "\<not> high CHR ''.''" "CHR ''.'' \<noteq> CHR 0x0D" by (simp_all add: high_def)
  obtain lx1 where p: "lx_peek icu lx = (fst (dec icu (lx_rest lx)), lx1)" "eats lx [] lx1" "lx_ok lx1" "lx_rest lx1 = lx_rest lx"
    using peek_is [OF assms] by blast
  show ?thesis
  proof (cases "lx_rest lx \<noteq> [] \<and> hd (lx_rest lx) = CHR ''.''")
    case False
    then have "fst (dec icu (lx_rest lx)) \<noteq> of_char CHR ''.''" using dec_char_iff [OF assms(1) dot(1)] by blast
    then have "number_fraction icu lx b = Some (None, lx1)" by (simp add: number_fraction_def p(1))
    moreover have "scan_fraction (lx_rest lx) = Some (lx_rest lx1)" using False p(4) by (cases "lx_rest lx") (auto simp: scan_fraction_def)
    ultimately show ?thesis using follows_done [OF p(2)] by simp
  next
    case True
    then obtain t where t: "lx_rest lx = CHR ''.'' # t" by (cases "lx_rest lx") auto
    then have d: "fst (dec icu (lx_rest lx)) = of_char CHR ''.''" using dec_char_iff [OF assms(1) dot(1)] by simp
    obtain lx2 where r: "lx_read icu lx1 = (of_char CHR ''.'', lx2)" "eats lx1 [CHR ''.''] lx2" "lx_ok lx2" "lx_rest lx2 = t"
      using read_is [OF assms(1) p(3) _ dot] p(4) t by metis
    obtain lx3 where q: "lx_peek icu lx2 = (fst (dec icu t), lx3)" "eats lx2 [] lx3" "lx_ok lx3" "lx_rest lx3 = t"
      using peek_is [OF assms(1) r(3)] r(4) by metis
    have e3: "eats lx ([] @ [CHR ''.''] @ []) lx3" using eats_trans [OF p(2) eats_trans [OF r(2) q(2)]] .
    have dig: "(fst (dec icu t) = - 1 \<or> \<not> is_digit_in_base (fst (dec icu t)) 10) \<longleftrightarrow> \<not> (t \<noteq> [] \<and> digit_char 10 (hd t))"
      using dec_neg [OF assms(1), of t] digit_dec [OF assms(1)] by (cases t) (auto simp: dec_def)
    have run: "number_fraction icu lx b = (if t \<noteq> [] \<and> digit_char 10 (hd t)
       then Option.bind (skip_while icu (\<lambda>c. is_digit_in_base c 10) lx3) (\<lambda>lx. Some (None, lx))
       else Some (Some (lexer_fail lx3 b (Msg ''expected digit after decimal point'')), lx3))"
      unfolding number_fraction_def p(1) d Let_def prod.case r(1) q(1) dig by simp
    obtain lx4 where s: "skip_while icu (\<lambda>c. is_digit_in_base c 10) lx3 = Some lx4" "eats lx3 (takeWhile (digit_char 10) t) lx4"
      "lx_rest lx4 = dropWhile (digit_char 10) t"
      using skip_digits [OF assms(1) q(3), of 10] q(4) by metis
    show ?thesis
      using follows_done [OF eats_trans [OF e3 s(2)], of b] follows_fail [OF e3, of b] run s(1,3) t
      by (simp add: scan_fraction_def)
  qed
qed

lemma number_exponent_follows:
  assumes "icu_ok icu" and "lx_ok lx"
  shows "follows b lx (scan_exponent (lx_rest lx)) (number_exponent icu lx b)"
proof -
  have low: "\<not> high CHR ''e''" "\<not> high CHR ''E''" "\<not> high CHR ''+''" "\<not> high CHR ''-''" by (simp_all add: high_def)
  obtain lx1 where p: "lx_peek icu lx = (fst (dec icu (lx_rest lx)), lx1)" "eats lx [] lx1" "lx_ok lx1" "lx_rest lx1 = lx_rest lx"
    using peek_is [OF assms] by blast
  have e: "(fst (dec icu (lx_rest lx)) = of_char CHR ''e'' \<or> fst (dec icu (lx_rest lx)) = of_char CHR ''E'') \<longleftrightarrow>
      lx_rest lx \<noteq> [] \<and> hd (lx_rest lx) \<in> {CHR ''e'', CHR ''E''}"
    using dec_char_iff [OF assms(1) low(1)] dec_char_iff [OF assms(1) low(2)] by blast
  show ?thesis
  proof (cases "lx_rest lx \<noteq> [] \<and> hd (lx_rest lx) \<in> {CHR ''e'', CHR ''E''}")
    case False
    then have no: "(fst (dec icu (lx_rest lx)) = of_char CHR ''e'' \<or> fst (dec icu (lx_rest lx)) = of_char CHR ''E'') = False" using e by blast
    have "number_exponent icu lx b = Some (None, lx1)" unfolding number_exponent_def p(1) Let_def prod.case no by simp
    moreover have "scan_exponent (lx_rest lx) = Some (lx_rest lx1)" using False p(4) by (cases "lx_rest lx") (auto simp: scan_exponent_def)
    ultimately show ?thesis using follows_done [OF p(2)] by simp
  next
    case True
    then obtain c t where t: "lx_rest lx = c # t" "c \<in> {CHR ''e'', CHR ''E''}" by (cases "lx_rest lx") auto
    have c: "\<not> high c" "c \<noteq> CHR 0x0D" using t(2) low by auto
    obtain lx2 where r: "lx_read icu lx1 = (of_char c, lx2)" "eats lx1 [c] lx2" "lx_ok lx2" "lx_rest lx2 = t"
      using read_is [OF assms(1) p(3) _ c] p(4) t by metis
    obtain lx3 where q: "lx_peek icu lx2 = (fst (dec icu t), lx3)" "eats lx2 [] lx3" "lx_ok lx3" "lx_rest lx3 = t"
      using peek_is [OF assms(1) r(3)] r(4) by metis
    define lx4 where "lx4 = (if fst (dec icu t) = of_char CHR ''+'' \<or> fst (dec icu t) = of_char CHR ''-'' then snd (lx_read icu lx3) else lx3)"
    have "\<exists>u. eats lx3 u lx4 \<and> lx_ok lx4 \<and> lx_rest lx4 = drop_sign t"
    proof (cases "t \<noteq> [] \<and> hd t \<in> {CHR ''+'', CHR ''-''}")
      case sign: True
      then obtain s u where u: "t = s # u" "s \<in> {CHR ''+'', CHR ''-''}" by (cases t) auto
      have s: "\<not> high s" "s \<noteq> CHR 0x0D" using u(2) low by auto
      obtain lx5 where "lx_read icu lx3 = (of_char s, lx5)" "eats lx3 [s] lx5" "lx_ok lx5" "lx_rest lx5 = u"
        using read_is [OF assms(1) q(3) q(4) [unfolded u(1)] s] by blast
      moreover have "fst (dec icu t) = of_char CHR ''+'' \<or> fst (dec icu t) = of_char CHR ''-''"
        using dec_char_iff [OF assms(1) low(3), of t] dec_char_iff [OF assms(1) low(4), of t] sign by blast
      ultimately show ?thesis using u by (auto simp: lx4_def drop_sign_def)
    next
      case False
      then have "lx4 = lx3" using dec_char_iff [OF assms(1) low(3), of t] dec_char_iff [OF assms(1) low(4), of t] by (auto simp: lx4_def)
      moreover have "drop_sign t = t" using False by (cases t) (auto simp: drop_sign_def)
      ultimately show ?thesis using q(3,4) eats_refl by auto
    qed
    then obtain u4 where s4: "eats lx3 u4 lx4" "lx_ok lx4" "lx_rest lx4 = drop_sign t" by blast
    let ?u = "drop_sign t"
    obtain lx5 where q5: "lx_peek icu lx4 = (fst (dec icu ?u), lx5)" "eats lx4 [] lx5" "lx_ok lx5" "lx_rest lx5 = ?u"
      using peek_is [OF assms(1) s4(2)] s4(3) by metis
    have e5: "eats lx ([] @ [c] @ [] @ u4 @ []) lx5"
      using eats_trans [OF p(2) eats_trans [OF r(2) eats_trans [OF q(2) eats_trans [OF s4(1) q5(2)]]]] .
    have dig: "(fst (dec icu ?u) = - 1 \<or> \<not> is_digit_in_base (fst (dec icu ?u)) 10) \<longleftrightarrow> \<not> (?u \<noteq> [] \<and> digit_char 10 (hd ?u))"
      using dec_neg [OF assms(1), of ?u] digit_dec [OF assms(1)] by (cases ?u) (auto simp: dec_def)
    have yes: "(fst (dec icu (lx_rest lx)) = of_char CHR ''e'' \<or> fst (dec icu (lx_rest lx)) = of_char CHR ''E'') = True" using e True by blast
    have run: "number_exponent icu lx b = (if ?u \<noteq> [] \<and> digit_char 10 (hd ?u)
       then Option.bind (skip_while icu (\<lambda>c. is_digit_in_base c 10) lx5) (\<lambda>lx. Some (None, lx))
       else Some (Some (lexer_fail lx5 b (Msg ''expected digit in exponent'')), lx5))"
      unfolding number_exponent_def p(1) Let_def prod.case r(1) q(1) lx4_def [symmetric] q5(1) dig yes by simp
    obtain lx6 where s: "skip_while icu (\<lambda>c. is_digit_in_base c 10) lx5 = Some lx6" "eats lx5 (takeWhile (digit_char 10) ?u) lx6"
      "lx_rest lx6 = dropWhile (digit_char 10) ?u"
      using skip_digits [OF assms(1) q5(3), of 10] q5(4) by metis
    have "scan_exponent (lx_rest lx) = (if ?u \<noteq> [] \<and> digit_char 10 (hd ?u) then Some (dropWhile (digit_char 10) ?u) else None)"
      using t by (auto simp: scan_exponent_def Let_def)
    then show ?thesis
      using follows_done [OF eats_trans [OF e5 s(2)], of b] follows_fail [OF e5, of b] run s(1,3) by simp
  qed
qed

lemma number_base_scan:
  assumes "icu_ok icu" and "lx_ok lx" and "lx_rest lx = c # w" and "digit_char 10 c"
  shows "\<exists>lx' u. number_base icu lx = (fst (scan_prefix (c # w)), lx') \<and> eats lx u lx' \<and> lx_ok lx' \<and> u \<noteq> [] \<and>
    lx_rest lx' = snd (scan_prefix (c # w)) \<and> (fst (scan_prefix (c # w)) \<noteq> 10 \<longrightarrow> length u = 2)"
proof -
  have c: "\<not> high c" "c \<noteq> CHR 0x0D" using digit_low(1) [OF assms(4)] assms(4) by (auto simp: digit_char_iff is_digit_in_base_def)
  obtain lx1 where r: "lx_read icu lx = (of_char c, lx1)" "eats lx [c] lx1" "lx_ok lx1" "lx_rest lx1 = w"
    using read_is [OF assms(1-3) c] by blast
  have zero: "(of_char c :: int) = of_char CHR ''0'' \<longleftrightarrow> c = CHR ''0''" by (rule of_char_int_eq)
  obtain lx2 where p: "lx_peek icu lx1 = (fst (dec icu w), lx2)" "eats lx1 [] lx2" "lx_ok lx2" "lx_rest lx2 = w"
    using peek_is [OF assms(1) r(3)] r(4) by metis
  let ?P = "[CHR ''x'', CHR ''X'', CHR ''o'', CHR ''O'', CHR ''b'', CHR ''B'']"
  show ?thesis
  proof (cases "c = CHR ''0'' \<and> w \<noteq> [] \<and> hd w \<in> set ?P")
    case True
    then obtain d t where d: "w = d # t" "d \<in> set ?P" by (cases w) auto
    have low: "\<not> high d" "d \<noteq> CHR 0x0D" using d(2) by (auto simp: high_def)
    obtain lx3 where r3: "lx_read icu lx2 = (of_char d, lx3)" "eats lx2 [d] lx3" "lx_ok lx3" "lx_rest lx3 = t"
      using read_is [OF assms(1) p(3) p(4) [unfolded d(1)] low] by blast
    have dw: "fst (dec icu w) = of_char d" using dec_char_iff [OF assms(1) low(1), of w] d(1) by simp
    have "number_base icu lx = (fst (scan_prefix (c # w)), lx3)" "lx_rest lx3 = snd (scan_prefix (c # w))"
      using d True r3(4) unfolding number_base_def r(1) Let_def prod.case p(1) dw r3(1) by (auto simp: scan_prefix_def)
    then show ?thesis using eats_trans [OF eats_trans [OF r(2) p(2)] r3(2)] r3(3) by (intro exI [of _ lx3] exI [of _ "[c, d]"]) simp
  next
    case False
    have s: "scan_prefix (c # w) = (10, w)" using False by (cases w) (auto simp: scan_prefix_def)
    have w: "c = CHR ''0'' \<Longrightarrow> x \<in> set ?P \<Longrightarrow> fst (dec icu w) \<noteq> of_char x" for x
      using False dec_char_iff [OF assms(1), of x w] by (auto simp: high_def)
    have "number_base icu lx = (10, if c = CHR ''0'' then lx2 else lx1)"
      using w [of "CHR ''x''"] w [of "CHR ''X''"] w [of "CHR ''o''"] w [of "CHR ''O''"] w [of "CHR ''b''"] w [of "CHR ''B''"]
      unfolding number_base_def r(1) Let_def prod.case p(1) zero by (simp del: of_char_Char)
    then show ?thesis using r(2-4) p(3,4) eats_trans [OF r(2) p(2)] s by (auto intro!: exI [of _ "[c]"])
  qed
qed

lemma number_scan:
  assumes "icu_ok icu" and "lx_ok lx" and "lx_rest lx = c # w" and "digit_char 10 c" and "sp_offset b = lx_pos lx"
  shows "\<exists>t lx'. lexer_read_number icu lx b = Some (t, lx') \<and> good lx t lx' \<and>
    (case scan_number (lx_rest lx) of None \<Rightarrow> tk_kind t = TOKEN_TYPE_ERROR | Some r \<Rightarrow> tk_kind t = TOKEN_TYPE_NUMERIC \<and> lx_rest lx' = r)"
proof -
  let ?base = "fst (scan_prefix (c # w))" and ?t = "snd (scan_prefix (c # w))"
  obtain lx1 u where n: "number_base icu lx = (?base, lx1)" "eats lx u lx1" "lx_ok lx1" "u \<noteq> []" "lx_rest lx1 = ?t"
      "?base \<noteq> 10 \<longrightarrow> length u = 2"
    using number_base_scan [OF assms(1-4)] by blast
  obtain lx2 where s: "skip_while icu (\<lambda>c. is_digit_in_base c ?base) lx1 = Some lx2" "eats lx1 (takeWhile (digit_char ?base) ?t) lx2"
      "lx_rest lx2 = dropWhile (digit_char ?base) ?t"
    using skip_digits [OF assms(1) n(3), of ?base] n(5) by metis
  let ?r = "dropWhile (digit_char ?base) ?t"
  have e2: "eats lx (u @ takeWhile (digit_char ?base) ?t) lx2" using eats_trans [OF n(2) s(2)] .
  have ok2: "lx_ok lx2" using e2 by (simp add: eats_def)
  show ?thesis
  proof (cases "?base = 10")
    case False
    have "sp_offset (lx_tell icu lx2) = sp_offset b + 2 + length (takeWhile (digit_char ?base) ?t)"
      using e2 n(6) False assms(5) by (simp add: eats_def lx_tell_def istream_tell_def lx_pos_def)
    then have at: "sp_offset (lx_tell icu lx2) = sp_offset b + 2 \<longleftrightarrow> ?r = ?t"
      by (metis add_cancel_right_right append_self_conv2 length_0_conv takeWhile_dropWhile_id)
    have run: "lexer_read_number icu lx b = (if ?r = ?t then Some (lexer_fail lx2 b (Msg ''invalid numeric literal: no digits after prefix''), lx2)
      else Some (lexer_make_token lx2 TOKEN_TYPE_NUMERIC b (lx_tell icu lx2), lx2))"
      using False unfolding lexer_read_number_def n(1) Let_def prod.case s(1) bind.bind_lunit at by simp
    have ref: "scan_number (lx_rest lx) = (if ?r = ?t then None else Some ?r)"
      using False by (simp add: scan_number_def assms(3) Let_def split_beta)
    have ne: "u @ takeWhile (digit_char ?base) ?t \<noteq> []" using n(4) by simp
    show ?thesis
      using run ref s(3) fail_good [OF e2 ne assms(5)] make_good [OF assms(2) e2 ne assms(5), of TOKEN_TYPE_NUMERIC icu] by simp
  next
    case True
    have f1: "follows b lx2 (scan_fraction ?r) (number_fraction icu lx2 b)"
      using number_fraction_follows [OF assms(1) ok2] s(3) by simp
    then obtain err lx3 v where f: "number_fraction icu lx2 b = Some (err, lx3)" "eats lx2 v lx3"
      "case err of Some t \<Rightarrow> (\<exists>msg. t = lexer_fail lx3 b msg) \<and> scan_fraction ?r = None | None \<Rightarrow> scan_fraction ?r = Some (lx_rest lx3)"
      unfolding follows_def by blast
    have ref: "scan_number (lx_rest lx) = Option.bind (scan_fraction ?r) scan_exponent"
      using True by (simp add: scan_number_def assms(3) Let_def split_beta)
    have e3: "eats lx ((u @ takeWhile (digit_char ?base) ?t) @ v) lx3" using eats_trans [OF e2 f(2)] .
    have ne3: "(u @ takeWhile (digit_char ?base) ?t) @ v \<noteq> []" using n(4) by simp
    have ok3: "lx_ok lx3" using e3 by (simp add: eats_def)
    show ?thesis
    proof (cases err)
      case (Some t)
      then obtain msg where m: "t = lexer_fail lx3 b msg" "scan_fraction ?r = None" using f(3) by auto
      have "lexer_read_number icu lx b = Some (t, lx3)"
        using True unfolding lexer_read_number_def n(1) Let_def prod.case s(1) by (simp add: f(1) Some)
      then show ?thesis using fail_good [OF e3 ne3 assms(5), of msg] ref m by simp
    next
      case None
      then have fr: "scan_fraction ?r = Some (lx_rest lx3)" using f(3) by simp
      obtain err2 lx4 x where g: "number_exponent icu lx3 b = Some (err2, lx4)" "eats lx3 x lx4"
        "case err2 of Some t \<Rightarrow> (\<exists>msg. t = lexer_fail lx4 b msg) \<and> scan_exponent (lx_rest lx3) = None
         | None \<Rightarrow> scan_exponent (lx_rest lx3) = Some (lx_rest lx4)"
        using number_exponent_follows [OF assms(1) ok3, of b] unfolding follows_def by blast
      have run: "lexer_read_number icu lx b = (case err2 of Some t \<Rightarrow> Some (t, lx4)
          | None \<Rightarrow> Some (lexer_make_token lx4 TOKEN_TYPE_NUMERIC b (lx_tell icu lx4), lx4))"
        using True unfolding lexer_read_number_def n(1) Let_def prod.case s(1) by (simp add: f(1) None g(1) split: option.split)
      have e4: "eats lx (((u @ takeWhile (digit_char ?base) ?t) @ v) @ x) lx4" using eats_trans [OF e3 g(2)] .
      have ne4: "((u @ takeWhile (digit_char ?base) ?t) @ v) @ x \<noteq> []" using n(4) by simp
      show ?thesis
        using run ref fr g(3) fail_good [OF e4 ne4 assms(5)] make_good [OF assms(2) e4 ne4 assms(5), of TOKEN_TYPE_NUMERIC icu]
        by (cases err2) auto
    qed
  qed
qed

section \<open>Characters and symbols\<close>

lemma eats_more: "eats lx u lx1 \<Longrightarrow> u \<noteq> [] \<Longrightarrow> eats lx1 v lx2 \<Longrightarrow> eats lx (u @ v) lx2 \<and> u @ v \<noteq> []"
  using eats_trans by simp

text \<open>
  Reference of a character literal after its opening quote: an escape or one code point up to 255
  that is no quote and no line end, and the closing quote.
\<close>

definition scan_char :: "icu \<Rightarrow> string \<Rightarrow> string option" where
  "scan_char icu w = (case w of [] \<Rightarrow> None | c # cs \<Rightarrow>
     if c \<in> set [CHR 0x27, CHR 0x0A, CHR 0x0D] then None
     else do {
       r \<leftarrow> (if c = CHR 0x5C then after_escape cs
            else if fst (dec icu w) > 0xFF then None else Some (drop (snd (dec icu w)) w));
       if r \<noteq> [] \<and> hd r = CHR 0x27 then Some (tl r) else None })"

lemma read_drop:
  assumes "icu_ok icu" and "lx_ok lx" and c: "lx_rest lx = c # w" "c \<noteq> CHR 0x0D"
  shows "\<exists>lx' u. lx_read icu lx = (fst (dec icu (c # w)), lx') \<and> eats lx u lx' \<and> lx_rest lx' = drop (snd (dec icu (c # w))) (c # w)"
proof -
  have "fst (dec icu (c # w)) \<noteq> 13" using dec_char_iff [OF assms(1), of "CHR 0x0D" "c # w"] c(2) by (simp add: high_def)
  then have s: "step_len icu (c # w) = snd (dec icu (c # w))" by (simp add: step_len_def split_beta)
  let ?n = "snd (dec icu (c # w))"
  obtain lx' where r: "lx_read icu lx = (fst (dec icu (c # w)), lx')" "eats lx (take ?n (c # w)) lx'"
    using read_eats [OF assms(1,2)] unfolding c(1) s if_cancel by auto
  have "c # w = take ?n (c # w) @ lx_rest lx'" using r(2) c(1) unfolding eats_def by metis
  then have "take ?n (c # w) @ lx_rest lx' = take ?n (c # w) @ drop ?n (c # w)" unfolding append_take_drop_id by (rule sym)
  then show ?thesis using r unfolding same_append_eq by blast
qed

lemma close_scan:
  assumes "icu_ok icu" and "lx_ok lx"
  shows "\<exists>cl lx' u. lx_read icu lx = (cl, lx') \<and> eats lx u lx' \<and>
    (cl = 39 \<longleftrightarrow> lx_rest lx \<noteq> [] \<and> hd (lx_rest lx) = CHR 0x27) \<and> (cl = 39 \<longrightarrow> lx_rest lx' = tl (lx_rest lx))"
proof -
  obtain lx' u where r: "lx_read icu lx = (fst (dec icu (lx_rest lx)), lx')" "eats lx u lx'"
    using read_any [OF assms] by blast
  have q: "fst (dec icu (lx_rest lx)) = 39 \<longleftrightarrow> lx_rest lx \<noteq> [] \<and> hd (lx_rest lx) = CHR 0x27"
    using dec_char_iff [OF assms(1), of "CHR 0x27" "lx_rest lx"] by (simp add: high_def)
  have "lx_rest lx' = tl (lx_rest lx)" if "fst (dec icu (lx_rest lx)) = 39"
  proof -
    have "lx_rest lx = CHR 0x27 # tl (lx_rest lx)" using that q by (cases "lx_rest lx") auto
    from read_is [OF assms this] r(1) show ?thesis by (auto simp: high_def)
  qed
  with r q show ?thesis by (intro exI [of _ "fst (dec icu (lx_rest lx))"] exI [of _ lx'] exI [of _ u]) simp
qed

lemma char_scan:
  assumes "icu_ok icu" and "lx_ok lx" and "lx_rest lx = CHR 0x27 # w" and b: "sp_offset b = lx_pos lx"
  shows "\<exists>t lx'. lexer_read_char icu lx b = (t, lx') \<and> good lx t lx' \<and>
    (case scan_char icu w of None \<Rightarrow> tk_kind t = TOKEN_TYPE_ERROR | Some r \<Rightarrow> tk_kind t = TOKEN_TYPE_CHARACTER \<and> lx_rest lx' = r)"
proof -
  obtain lx1 where r1: "lx_read icu lx = (of_char CHR 0x27, lx1)" "eats lx [CHR 0x27] lx1" "lx_ok lx1" "lx_rest lx1 = w"
    using read_is [OF assms(1-3)] by (auto simp: high_def)
  obtain lx2 u2 where r2: "lx_read icu lx1 = (fst (dec icu w), lx2)" "eats lx1 u2 lx2" using read_any [OF assms(1) r1(3)] r1(4) by auto
  have ok2: "lx_ok lx2" using r2(2) by (simp add: eats_def)
  have e2: "eats lx ([CHR 0x27] @ u2) lx2" "[CHR 0x27] @ u2 \<noteq> []" using eats_more [OF r1(2) _ r2(2)] by simp_all
  note is_c = dec_char_iff [OF assms(1), of "CHR 0x27" w] dec_char_iff [OF assms(1), of "CHR 0x0A" w]
    dec_char_iff [OF assms(1), of "CHR 0x0D" w] dec_char_iff [OF assms(1), of "CHR 0x5C" w] dec_neg [OF assms(1), of w]
  show ?thesis
  proof (cases "w = [] \<or> hd w \<in> set [CHR 0x27, CHR 0x0A, CHR 0x0D]")
    case True
    then have "scan_char icu w = None" by (cases w) (auto simp: scan_char_def)
    moreover have "\<exists>msg. lexer_read_char icu lx b = (lexer_fail lx2 b msg, lx2)"
      using True is_c by (auto simp: lexer_read_char_def r1(1) r2(1) high_def Let_def)
    ultimately show ?thesis using fail_good [OF e2 b] by auto
  next
    case False
    then obtain c cs where w: "w = c # cs" "c \<notin> set [CHR 0x27, CHR 0x0A, CHR 0x0D]" by (cases w) auto
    have no: "fst (dec icu w) \<notin> {- 1, 39, 10, 13}" using False is_c by (auto simp: high_def)
    have bs: "fst (dec icu w) = 92 \<longleftrightarrow> c = CHR 0x5C" using is_c(4) w(1) by (simp add: high_def)
    have rest2: "lx_rest lx2 = drop (snd (dec icu w)) w"
      using read_drop [OF assms(1) r1(3) r1(4) [unfolded w(1)]] r2(1) w by auto
    define inner where "inner = (if fst (dec icu w) = 92 then lexer_read_escape icu lx2 b ''character literal''
       else if fst (dec icu w) > 0xFF then (Some (lexer_fail lx2 b (Msg_cp ''character literal out of range for u8'' (fst (dec icu w)))), lx2)
       else (None, lx2))"
    define ref where "ref = (if c = CHR 0x5C then after_escape cs
       else if fst (dec icu w) > 0xFF then None else Some (drop (snd (dec icu w)) w))"
    have "\<exists>err lx3 u3. inner = (err, lx3) \<and> eats lx2 u3 lx3 \<and>
      (case err of Some t \<Rightarrow> (\<exists>msg. t = lexer_fail lx3 b msg) \<and> ref = None | None \<Rightarrow> ref = Some (lx_rest lx3))"
    proof (cases "c = CHR 0x5C")
      case True
      have "snd (dec icu w) = 1" using dec_Cons(4) [OF assms(1), of c cs] w(1) True by simp
      then have "lx_rest lx2 = cs" using rest2 w(1) by simp
      with True show ?thesis
        using escape_exact [OF assms(1) ok2, of b "''character literal''"] bs unfolding inner_def ref_def by (fastforce split: option.splits)
    next
      case False
      have "inner = (if fst (dec icu w) > 0xFF then Some (lexer_fail lx2 b (Msg_cp ''character literal out of range for u8'' (fst (dec icu w)))) else None, lx2)"
        using False bs by (simp add: inner_def)
      then show ?thesis using False eats_refl [OF ok2] rest2
        by (intro exI [of _ "fst inner"] exI [of _ lx2] exI [of _ "[]"]) (auto simp: ref_def)
    qed
    then obtain err lx3 u3 where i: "inner = (err, lx3)" "eats lx2 u3 lx3"
      "case err of Some t \<Rightarrow> (\<exists>msg. t = lexer_fail lx3 b msg) \<and> ref = None | None \<Rightarrow> ref = Some (lx_rest lx3)" by blast
    have e3: "eats lx (([CHR 0x27] @ u2) @ u3) lx3" "([CHR 0x27] @ u2) @ u3 \<noteq> []" using eats_more [OF e2 i(2)] by simp_all
    have ok3: "lx_ok lx3" using e3 by (simp add: eats_def)
    obtain cl lx4 u4 where r4: "lx_read icu lx3 = (cl, lx4)" "eats lx3 u4 lx4"
      "cl = 39 \<longleftrightarrow> lx_rest lx3 \<noteq> [] \<and> hd (lx_rest lx3) = CHR 0x27" "cl = 39 \<longrightarrow> lx_rest lx4 = tl (lx_rest lx3)"
      using close_scan [OF assms(1) ok3] by blast
    have e4: "eats lx ((([CHR 0x27] @ u2) @ u3) @ u4) lx4" "(([CHR 0x27] @ u2) @ u3) @ u4 \<noteq> []" using eats_more [OF e3 r4(2)] by simp_all
    have scan: "scan_char icu w = Option.bind ref (\<lambda>r. if r \<noteq> [] \<and> hd r = CHR 0x27 then Some (tl r) else None)"
      using w by (simp add: scan_char_def ref_def)
    have run: "lexer_read_char icu lx b = (case err of Some e \<Rightarrow> (e, lx3)
         | None \<Rightarrow>
           if cl \<noteq> 39 then
             if cl = - 1 then (lexer_fail lx4 b (Msg ''unterminated character literal''), lx4)
             else if fst (dec icu w) = ch CHR ''<'' then
               (lexer_fail lx4 b (Msg (''scope annotations ('' @ [CHR 0x27] @ ''<a,b> T'' @ [CHR 0x27] @ '') were removed with the compile-time ownership system; use bare *T / []T'')), lx4)
             else (lexer_fail lx4 b (Msg ''character literal must contain exactly one character''), lx4)
           else (lexer_make_token lx4 TOKEN_TYPE_CHARACTER b (lx_tell icu lx4), lx4))"
      using no unfolding lexer_read_char_def r1(1) r2(1) Let_def prod.case inner_def [symmetric] i(1) r4(1) by simp
    note g = fail_good [OF e3 b] fail_good [OF e4 b] make_good [OF assms(2) e4 b, of TOKEN_TYPE_CHARACTER icu]
    show ?thesis
    proof (cases err)
      case None
      then show ?thesis using run g i(3) r4(3,4) scan by (cases "cl = 39") auto
    next
      case (Some t)
      then show ?thesis using run g i(3) scan by auto
    qed
  qed
qed

text \<open>Reference of a symbol: the longest operator that the source begins with. A slash is handled apart.\<close>

definition operators :: "string list" where
  "operators = [''...'',
     ''..'', ''::'', ''->'', ''<='', ''>='', ''=='', ''!='', ''&&'', ''||'', ''+='', ''-='', ''*='', ''%='',
     ''('', '')'', ''['', '']'', ''{'', ''}'', '','', '';'', '':'', ''.'', ''?'', ''='', ''<'', ''>'',
     ''+'', ''-'', ''*'', ''%'', ''&'', ''|'', ''^'', ''~'', ''!'']"

definition scan_symbol :: "string \<Rightarrow> string option" where
  "scan_symbol s = map_option (\<lambda>p. drop (length p) s) (List.find (\<lambda>p. take (length p) s = p) operators)"

lemma find_prefix:
  "\<forall>p \<in> set ps. length p = n \<Longrightarrow>
   List.find (\<lambda>p. take (length p) s = p) ps = (if take n s \<in> set ps then Some (take n s) else None)"
  by (induction ps) auto

lemma find_append: "List.find P (xs @ ys) = (case List.find P xs of None \<Rightarrow> List.find P ys | Some x \<Rightarrow> Some x)"
  by (induction xs) simp_all

lemma scan_symbol_cases:
  assumes "c \<noteq> CHR ''/''"
  shows "scan_symbol (c # w) =
    (if c = CHR ''.'' \<and> w \<noteq> [] \<and> hd w = CHR ''.'' then Some (if tl w \<noteq> [] \<and> hd (tl w) = CHR ''.'' then tl (tl w) else tl w)
     else if w \<noteq> [] \<and> [c, hd w] \<in> set kPairs then Some (tl w)
     else if is_single_symbol (of_char c) then Some w else None)"
proof -
  let ?two = "[''..'', ''::'', ''->'', ''<='', ''>='', ''=='', ''!='', ''&&'', ''||'', ''+='', ''-='', ''*='', ''%='']"
  let ?one = "[''('', '')'', ''['', '']'', ''{'', ''}'', '','', '';'', '':'', ''.'', ''?'', ''='', ''<'', ''>'',
     ''+'', ''-'', ''*'', ''%'', ''&'', ''|'', ''^'', ''~'', ''!'']"
  let ?s = "c # w"
  have ops: "operators = [''...''] @ ?two @ ?one" by (simp add: operators_def)
  have f: "List.find (\<lambda>p. take (length p) ?s = p) operators =
      (if take 3 ?s = ''...'' then Some (take 3 ?s) else if take 2 ?s \<in> set ?two then Some (take 2 ?s)
       else if take 1 ?s \<in> set ?one then Some (take 1 ?s) else None)"
    unfolding ops find_append
    by (simp only: find_prefix [of "[''...'']" 3] find_prefix [of ?two 2] find_prefix [of ?one 1] list.set ball_simps
        list.size simp_thms) simp
  have one: "take 1 ?s \<in> set ?one \<longleftrightarrow> is_single_symbol (of_char c)"
    unfolding is_single_symbol_def byte_in [symmetric] by auto
  show ?thesis
  proof (cases w)
    case Nil
    then show ?thesis unfolding scan_symbol_def f using one by simp
  next
    case (Cons d t)
    have two: "take 2 ?s \<in> set ?two \<longleftrightarrow> c = CHR ''.'' \<and> d = CHR ''.'' \<or> [c, d] \<in> set kPairs"
      using assms Cons by (auto simp: kPairs_def)
    have three: "take 3 ?s = ''...'' \<longleftrightarrow> c = CHR ''.'' \<and> d = CHR ''.'' \<and> t \<noteq> [] \<and> hd t = CHR ''.''"
      using Cons by (cases t) auto
    show ?thesis unfolding scan_symbol_def f one two three using Cons by (cases t) auto
  qed
qed

lemma kPairs_low: "p \<in> set kPairs \<Longrightarrow> \<not> high (p ! 0) \<and> \<not> high (p ! 1) \<and> p = [p ! 0, p ! 1]"
proof -
  have "list_all (\<lambda>p. of_char (p ! 0) < (128 :: int) \<and> of_char (p ! 1) < (128 :: int) \<and> p = [p ! 0, p ! 1]) kPairs"
    by code_simp
  then show "p \<in> set kPairs \<Longrightarrow> ?thesis" by (simp add: list_all_iff high_def)
qed

lemma is_pair_iff:
  assumes "icu_ok icu"
  shows "is_pair (of_char c) (fst (dec icu w)) \<longleftrightarrow> w \<noteq> [] \<and> [c, hd w] \<in> set kPairs"
proof -
  have "is_pair (of_char c) (fst (dec icu w)) \<longleftrightarrow> (\<exists>p \<in> set kPairs. p ! 0 = c \<and> fst (dec icu w) = of_char (p ! 1))"
    unfolding is_pair_def list_ex_iff of_char_int_eq by (simp only: eq_commute)
  also have "\<dots> \<longleftrightarrow> (\<exists>p \<in> set kPairs. p ! 0 = c \<and> w \<noteq> [] \<and> hd w = p ! 1)"
    using dec_char_iff [OF assms, of _ w] kPairs_low by (intro bex_cong refl) simp
  also have "\<dots> \<longleftrightarrow> w \<noteq> [] \<and> [c, hd w] \<in> set kPairs" using kPairs_low by force
  finally show ?thesis .
qed

lemma not_symbol:
  assumes "128 \<le> cp"
  shows "\<not> is_pair cp x" and "\<not> is_single_symbol cp"
proof -
  show "\<not> is_pair cp x" using kPairs_low assms unfolding is_pair_def list_ex_iff high_def by fastforce
  show "\<not> is_single_symbol cp" using assms by (auto simp: is_single_symbol_def)
qed

lemma symbol_scan:
  assumes "icu_ok icu" and "lx_ok lx" and "lx_rest lx = c # w" and b: "sp_offset b = lx_pos lx"
    and "c \<noteq> CHR ''/''" and "c \<noteq> CHR 0x0D"
  shows "\<exists>t lx'. lexer_read_symbol icu lx b = (t, lx') \<and> good lx t lx' \<and>
    (case scan_symbol (c # w) of None \<Rightarrow> tk_kind t = TOKEN_TYPE_ERROR | Some r \<Rightarrow> tk_kind t = TOKEN_TYPE_SYMBOL \<and> lx_rest lx' = r)"
proof (cases "high c")
  case True
  have "lx_rest lx \<noteq> []" using assms(3) by simp
  then obtain lx1 u1 where r1: "lx_read icu lx = (fst (dec icu (lx_rest lx)), lx1)" "eats lx u1 lx1" "u1 \<noteq> []"
    using read_any [OF assms(1,2)] by blast
  have ok1: "lx_ok lx1" using r1(2) by (simp add: eats_def)
  obtain c2 lx2 where p: "lx_peek icu lx1 = (c2, lx2)" "eats lx1 [] lx2" using peek_is [OF assms(1) ok1] by blast
  have e2: "eats lx (u1 @ []) lx2" "u1 @ [] \<noteq> []" using eats_more [OF r1(2,3) p(2)] by simp_all
  have big: "128 \<le> fst (dec icu (lx_rest lx))" using peek_cases(3) [OF assms(1,3) True] .
  have no: "fst (dec icu (lx_rest lx)) \<noteq> 46" "\<not> is_pair (fst (dec icu (lx_rest lx))) c2" "\<not> is_single_symbol (fst (dec icu (lx_rest lx)))"
    using big not_symbol [OF big] by simp_all
  have dot: "(fst (dec icu (lx_rest lx)) = of_char CHR ''.'' \<and> c2 = of_char CHR ''.'') = False" using no(1) by force
  have "lexer_read_symbol icu lx b = (lexer_fail lx2 b (Msg_cp ''unrecognized character'' (fst (dec icu (lx_rest lx)))), lx2)"
    unfolding lexer_read_symbol_def r1(1) Let_def prod.case p(1) dot if_False using no(2,3) by (simp only: simp_thms if_False)
  moreover have "scan_symbol (c # w) = None"
  proof -
    have "c \<noteq> CHR ''.''" "[c, hd w] \<notin> set kPairs" using True kPairs_low [of "[c, hd w]"] by (auto simp: high_def)
    moreover have "\<not> is_single_symbol (of_char c)" using True not_symbol(2) [of "of_char c"] by (simp add: high_def)
    ultimately show ?thesis unfolding scan_symbol_cases [OF assms(5)] by (simp only: simp_thms if_False)
  qed
  ultimately show ?thesis
    using fail_good [OF e2 b, of "Msg_cp ''unrecognized character'' (fst (dec icu (lx_rest lx)))"] by (simp del: append_Nil2)
next
  case False
  obtain lx1 where r: "lx_read icu lx = (of_char c, lx1)" "eats lx [c] lx1" "lx_ok lx1" "lx_rest lx1 = w"
    using read_is [OF assms(1-3) False assms(6)] by blast
  obtain lx2 where p: "lx_peek icu lx1 = (fst (dec icu w), lx2)" "eats lx1 [] lx2" "lx_ok lx2" "lx_rest lx2 = w"
    using peek_is [OF assms(1) r(3)] r(4) by metis
  have e2: "eats lx ([c] @ []) lx2" "[c] @ [] \<noteq> []" using eats_more [OF r(2) _ p(2)] by simp_all
  have dot: "fst (dec icu v) = of_char CHR ''.'' \<longleftrightarrow> v \<noteq> [] \<and> hd v = CHR ''.''" for v
    using dec_char_iff [OF assms(1), of "CHR ''.''" v] by (simp add: high_def)
  note pair = is_pair_iff [OF assms(1), of c w]
  have neg: "fst (dec icu w) \<noteq> - 1" if "w \<noteq> []" using dec_neg [OF assms(1), of w] that by simp
  show ?thesis
  proof (cases "c = CHR ''.'' \<and> w \<noteq> [] \<and> hd w = CHR ''.''")
    case True
    then obtain t where w: "w = CHR ''.'' # t" by (cases w) auto
    have low: "\<not> high CHR ''.''" "CHR ''.'' \<noteq> CHR 0x0D" by (simp_all add: high_def)
    obtain lx3 where r3: "lx_read icu lx2 = (of_char CHR ''.'', lx3)" "eats lx2 [CHR ''.''] lx3" "lx_ok lx3" "lx_rest lx3 = t"
      using read_is [OF assms(1) p(3) p(4) [unfolded w] low] by blast
    have e3: "eats lx (([c] @ []) @ [CHR ''.'']) lx3" "([c] @ []) @ [CHR ''.''] \<noteq> []" using eats_more [OF e2 r3(2)] by simp_all
    obtain lx4 where q: "lx_peek icu lx3 = (fst (dec icu t), lx4)" "eats lx3 [] lx4" "lx_ok lx4" "lx_rest lx4 = t"
      using peek_is [OF assms(1) r3(3)] r3(4) by metis
    have e4: "eats lx ((([c] @ []) @ [CHR ''.'']) @ []) lx4" "(([c] @ []) @ [CHR ''.'']) @ [] \<noteq> []" using eats_more [OF e3 q(2)] by simp_all
    define last where "last = (if fst (dec icu t) = of_char CHR ''.'' then snd (lx_read icu lx4) else lx4)"
    have "\<exists>u. eats lx u last \<and> u \<noteq> [] \<and> lx_rest last = (if t \<noteq> [] \<and> hd t = CHR ''.'' then tl t else t)"
    proof (cases "t \<noteq> [] \<and> hd t = CHR ''.''")
      case True
      then have t: "lx_rest lx4 = CHR ''.'' # tl t" using q(4) by (cases t) auto
      obtain lx5 where r5: "lx_read icu lx4 = (of_char CHR ''.'', lx5)" "eats lx4 [CHR ''.''] lx5" "lx_rest lx5 = tl t"
        using read_is [OF assms(1) q(3) t low] by blast
      have "last = lx5" using True dot [of t] r5(1) by (simp add: last_def)
      then show ?thesis unfolding if_P [OF True] using eats_more [OF e4 r5(2)] r5(3) by blast
    next
      case False
      then have "last = lx4" using dot [of t] by (simp only: last_def if_False)
      then show ?thesis unfolding if_not_P [OF False] using e4 q(4) by blast
    qed
    then obtain u where u: "eats lx u last" "u \<noteq> []" "lx_rest last = (if t \<noteq> [] \<and> hd t = CHR ''.'' then tl t else t)" by blast
    have "lexer_read_symbol icu lx b = (lexer_make_token last TOKEN_TYPE_SYMBOL b (lx_tell icu last), last)"
    proof -
      have "(of_char c :: int) = of_char CHR ''.'' \<and> fst (dec icu w) = of_char CHR ''.''" using True dot [of w] by blast
      then show ?thesis unfolding lexer_read_symbol_def r(1) Let_def prod.case p(1) r3(1) q(1) last_def by (simp only: simp_thms if_True)
    qed
    moreover have "scan_symbol (c # w) = Some (lx_rest last)"
      unfolding scan_symbol_cases [OF assms(5)] u(3) using True w by simp
    ultimately show ?thesis using make_good [OF assms(2) u(1,2) b, of TOKEN_TYPE_SYMBOL icu] by simp
  next
    case no_dots: False
    have nd: "((of_char c :: int) = of_char CHR ''.'' \<and> fst (dec icu w) = of_char CHR ''.'') = False"
      using no_dots dot [of w] unfolding of_char_int_eq by blast
    have nil: "(fst (dec icu w) \<noteq> - 1 \<and> is_pair (of_char c) (fst (dec icu w))) = (w \<noteq> [] \<and> [c, hd w] \<in> set kPairs)"
      using neg pair by blast
    note run = lexer_read_symbol_def r(1) Let_def prod.case p(1) nd if_False nil
    note ref = scan_symbol_cases [OF assms(5), of w, unfolded if_not_P [OF no_dots]]
    show ?thesis
    proof (cases "w \<noteq> [] \<and> [c, hd w] \<in> set kPairs")
      case True
      then obtain d t where w: "w = d # t" by (cases w) auto
      have d: "\<not> high d" "d \<noteq> CHR 0x0D" using True w kPairs_low [of "[c, d]"] by (auto simp: kPairs_def)
      obtain lx3 where r3: "lx_read icu lx2 = (of_char d, lx3)" "eats lx2 [d] lx3" "lx_rest lx3 = t"
        using read_is [OF assms(1) p(3) p(4) [unfolded w] d] by blast
      have e3: "eats lx (([c] @ []) @ [d]) lx3" "([c] @ []) @ [d] \<noteq> []" using eats_more [OF e2 r3(2)] by simp_all
      have "lexer_read_symbol icu lx b = (lexer_make_token lx3 TOKEN_TYPE_SYMBOL b (lx_tell icu lx3), lx3)"
        unfolding run if_P [OF True] r3(1) by (simp only: prod.case)
      moreover have "scan_symbol (c # w) = Some t" unfolding ref if_P [OF True] using w by simp
      ultimately show ?thesis using make_good [OF assms(2) e3 b, of TOKEN_TYPE_SYMBOL icu] r3(3) by simp
    next
      case False
      show ?thesis
      proof (cases "is_single_symbol (of_char c)")
        case True
        have "lexer_read_symbol icu lx b = (lexer_make_token lx2 TOKEN_TYPE_SYMBOL b (lx_tell icu lx2), lx2)"
          unfolding run if_not_P [OF False] if_P [OF True] ..
        moreover have "scan_symbol (c # w) = Some w" unfolding ref if_not_P [OF False] if_P [OF True] ..
        ultimately show ?thesis using make_good [OF assms(2) e2 b, of TOKEN_TYPE_SYMBOL icu] p(4) by simp
      next
        case none: False
        have "lexer_read_symbol icu lx b = (lexer_fail lx2 b (Msg_cp ''unrecognized character'' (of_char c)), lx2)"
          unfolding run if_not_P [OF False] if_not_P [OF none] ..
        moreover have "scan_symbol (c # w) = None" unfolding ref if_not_P [OF False] if_not_P [OF none] ..
        ultimately show ?thesis using fail_good [OF e2 b] by simp
      qed
    qed
  qed
qed

lemma string_scan:
  assumes "icu_ok icu" and "lx_ok lx" and "lx_rest lx = CHR 0x22 # w" and b: "sp_offset b = lx_pos lx"
  shows "\<exists>t lx'. lexer_read_string icu lx b = Some (t, lx') \<and> good lx t lx' \<and>
    (case scan_body w of None \<Rightarrow> tk_kind t = TOKEN_TYPE_ERROR | Some r \<Rightarrow> tk_kind t = TOKEN_TYPE_STRING \<and> lx_rest lx' = r)"
proof -
  have q: "\<not> high CHR 0x22" "CHR 0x22 \<noteq> CHR 0x0D" by (simp_all add: high_def)
  obtain lx1 where r: "lx_read icu lx = (of_char CHR 0x22, lx1)" "eats lx [CHR 0x22] lx1" "lx_ok lx1" "lx_rest lx1 = w"
    using read_is [OF assms(1-3) q] by blast
  obtain err lx2 v where f: "string_loop icu b lx1 = Some (err, lx2)" "eats lx1 v lx2"
    "case err of Some t \<Rightarrow> (\<exists>msg. t = lexer_fail lx2 b msg) \<and> scan_body w = None | None \<Rightarrow> scan_body w = Some (lx_rest lx2)"
    using string_loop_follows [OF assms(1) r(3), of b] r(4) unfolding follows_def by blast
  have e: "eats lx ([CHR 0x22] @ v) lx2" "[CHR 0x22] @ v \<noteq> []" using eats_more [OF r(2) _ f(2)] by simp_all
  show ?thesis
    unfolding lexer_read_string_def r(1) Let_def prod.case f(1)
    using f(3) fail_good [OF e b] make_good [OF assms(2) e b, of TOKEN_TYPE_STRING icu] by (cases err) auto
qed

text \<open>A slash: reference of the line and block comments, and the symbols.\<close>

definition scan_slash :: "string \<Rightarrow> (token_kind \<times> string) option" where
  "scan_slash w = (case w of [] \<Rightarrow> Some (TOKEN_TYPE_SYMBOL, [])
     | c # t \<Rightarrow>
       if c = CHR ''/'' then Some (TOKEN_TYPE_COMMENT, dropWhile (\<lambda>c. c \<noteq> CHR 0x0A \<and> c \<noteq> CHR 0x0D) t)
       else if c = CHR ''*'' then map_option (\<lambda>r. (TOKEN_TYPE_MULTILINE_COMMENT, r)) (scan_block t)
       else if c = CHR ''='' then Some (TOKEN_TYPE_SYMBOL, t) else Some (TOKEN_TYPE_SYMBOL, w))"

lemma slash_scan:
  assumes "icu_ok icu" and "lx_ok lx" and "lx_rest lx = CHR ''/'' # w" and b: "sp_offset b = lx_pos lx"
  shows "\<exists>t lx'. lexer_read_slash icu lx b = Some (t, lx') \<and> good lx t lx' \<and>
    (case scan_slash w of None \<Rightarrow> tk_kind t = TOKEN_TYPE_ERROR | Some (k, r) \<Rightarrow> tk_kind t = k \<and> lx_rest lx' = r)"
proof -
  have low: "\<not> high CHR ''/''" "CHR ''/'' \<noteq> CHR 0x0D" "\<not> high CHR ''*''" "\<not> high CHR ''=''" by (simp_all add: high_def)
  obtain lx1 where r: "lx_read icu lx = (of_char CHR ''/'', lx1)" "eats lx [CHR ''/''] lx1" "lx_ok lx1" "lx_rest lx1 = w"
    using read_is [OF assms(1-3) low(1,2)] by blast
  obtain lx2 where p: "lx_peek icu lx1 = (fst (dec icu w), lx2)" "eats lx1 [] lx2" "lx_ok lx2" "lx_rest lx2 = w"
    using peek_is [OF assms(1) r(3)] r(4) by metis
  have e2: "eats lx ([CHR ''/''] @ []) lx2" "[CHR ''/''] @ [] \<noteq> []" using eats_more [OF r(2) _ p(2)] by simp_all
  note is_c = dec_char_iff [OF assms(1) low(1), of w] dec_char_iff [OF assms(1) low(3), of w] dec_char_iff [OF assms(1) low(4), of w]
  show ?thesis
  proof (cases "w \<noteq> [] \<and> hd w \<in> set ''/*=''")
    case False
    then have ref: "scan_slash w = Some (TOKEN_TYPE_SYMBOL, w)" by (cases w) (auto simp: scan_slash_def)
    have "lexer_read_slash icu lx b = Some (lexer_make_token lx2 TOKEN_TYPE_SYMBOL b (lx_tell icu lx2), lx2)"
    proof -
      have n: "fst (dec icu w) \<noteq> of_char CHR ''/''" "fst (dec icu w) \<noteq> of_char CHR ''*''" "fst (dec icu w) \<noteq> of_char CHR ''=''"
        using False is_c by auto
      show ?thesis unfolding lexer_read_slash_def r(1) Let_def prod.case p(1) using n by (simp only: if_False)
    qed
    then show ?thesis using ref make_good [OF assms(2) e2 b, of TOKEN_TYPE_SYMBOL icu] p(4) by simp
  next
    case True
    then obtain c t where w: "w = c # t" "c \<in> set ''/*=''" by (cases w) auto
    have lc: "\<not> high c" "c \<noteq> CHR 0x0D" using w(2) low by auto
    have dc: "fst (dec icu w) = of_char c" using dec_char_iff [OF assms(1) lc(1), of w] w(1) by simp
    obtain lx3 where r3: "lx_read icu lx2 = (of_char c, lx3)" "eats lx2 [c] lx3" "lx_ok lx3" "lx_rest lx3 = t"
      using read_is [OF assms(1) p(3) p(4) [unfolded w(1)] lc] by blast
    have e3: "eats lx (([CHR ''/''] @ []) @ [c]) lx3" "([CHR ''/''] @ []) @ [c] \<noteq> []" using eats_more [OF e2 r3(2)] by simp_all
    consider "c = CHR ''/''" | "c = CHR ''*''" | "c = CHR ''=''" using w(2) by auto
    then show ?thesis
    proof cases
      case 1
      let ?Q = "\<lambda>c. c \<noteq> CHR 0x0A \<and> c \<noteq> CHR 0x0D" and ?P = "\<lambda>c. \<not> (c = (10 :: int) \<or> c = 13)"
      have cov: "covers ?P ?Q" by (auto simp: covers_def char_ints high_def)
      have exact: "?P (fst (dec icu (x # xs))) = ?Q x" for x xs
        using dec_char_iff [OF assms(1), of "CHR 0x0A" "x # xs"] dec_char_iff [OF assms(1), of "CHR 0x0D" "x # xs"] by (auto simp: high_def)
      obtain lx4 where s: "skip_while icu ?P lx3 = Some lx4" "eats lx3 (takeWhile ?Q t) lx4" "lx_rest lx4 = dropWhile ?Q t"
        using skip_takeWhile [OF assms(1) cov exact r3(3)] unfolding r3(4) by blast
      have e4: "eats lx ((([CHR ''/''] @ []) @ [c]) @ takeWhile ?Q t) lx4" "(([CHR ''/''] @ []) @ [c]) @ takeWhile ?Q t \<noteq> []"
        using eats_more [OF e3 s(2)] by simp_all
      have "lexer_read_slash icu lx b = Some (lexer_make_token lx4 TOKEN_TYPE_COMMENT b (lx_tell icu lx4), lx4)"
        unfolding lexer_read_slash_def r(1) Let_def prod.case p(1) dc r3(1) by (simp add: 1 s(1) [simplified])
      then show ?thesis using make_good [OF assms(2) e4 b, of TOKEN_TYPE_COMMENT icu] s(3) w 1 by (simp add: scan_slash_def)
    next
      case 2
      obtain err lx4 v where f: "block_loop icu b lx3 = Some (err, lx4)" "eats lx3 v lx4"
        "case err of Some e \<Rightarrow> (\<exists>msg. e = lexer_fail lx4 b msg) \<and> scan_block t = None | None \<Rightarrow> scan_block t = Some (lx_rest lx4)"
        using block_loop_follows [OF assms(1) r3(3), of b] unfolding r3(4) follows_def by blast
      have e4: "eats lx ((([CHR ''/''] @ []) @ [c]) @ v) lx4" "(([CHR ''/''] @ []) @ [c]) @ v \<noteq> []"
        using eats_more [OF e3 f(2)] by simp_all
      have run: "lexer_read_slash icu lx b = (case err of Some e \<Rightarrow> Some (e, lx4)
           | None \<Rightarrow> Some (lexer_make_token lx4 TOKEN_TYPE_MULTILINE_COMMENT b (lx_tell icu lx4), lx4))"
        unfolding lexer_read_slash_def r(1) Let_def prod.case p(1) dc r3(1) by (simp add: 2 f(1))
      have ref: "scan_slash w = map_option (\<lambda>r. (TOKEN_TYPE_MULTILINE_COMMENT, r)) (scan_block t)"
        by (simp add: w(1) 2 scan_slash_def)
      show ?thesis
      proof (cases err)
        case None
        then show ?thesis using make_good [OF assms(2) e4 b, of TOKEN_TYPE_MULTILINE_COMMENT icu] f(3) run by (simp add: ref)
      next
        case (Some e)
        then obtain msg where "e = lexer_fail lx4 b msg" "scan_block t = None" using f(3) by auto
        then show ?thesis using fail_good [OF e4 b, of msg] run Some by (simp add: ref)
      qed
    next
      case 3
      have "lexer_read_slash icu lx b = Some (lexer_make_token lx3 TOKEN_TYPE_SYMBOL b (lx_tell icu lx3), lx3)"
        unfolding lexer_read_slash_def r(1) Let_def prod.case p(1) dc r3(1) by (simp add: 3)
      then show ?thesis using make_good [OF assms(2) e3 b, of TOKEN_TYPE_SYMBOL icu] r3(4) w 3 by (simp add: scan_slash_def)
    qed
  qed
qed
end
