(* ===== verification/LexerProps.thy ===== *)
theory LexerProps
  imports LexerScan
begin

text \<open>
  What the lexer promises: the next token against the reference scanners, and the token pool of a
  whole source.
\<close>

section \<open>One token\<close>

lemma word_scan:
  assumes "icu_ok icu" and "lx_ok lx" and "lx_rest lx \<noteq> []" and b: "sp_offset b = lx_pos lx"
    and start: "is_ident_start_cp icu (fst (dec icu (lx_rest lx)))"
  shows "\<exists>lx' u. (let (_, lx) = lx_read icu lx in do {
            lx \<leftarrow> skip_while icu (is_ident_char_cp icu) lx;
            let e = lx_tell icu lx;
                len = sp_offset e - sp_offset b;
                txt = slice (lx_data lx) (sp_offset b) len;
                kind = (if lookup_keyword txt then TOKEN_TYPE_KEYWORD else TOKEN_TYPE_IDENTIFIER)
            in Some (lexer_make_token lx kind b e, lx) }) =
      Some (lexer_make_token lx' (if u \<in> set g_keywords then TOKEN_TYPE_KEYWORD else TOKEN_TYPE_IDENTIFIER) b (lx_tell icu lx'), lx') \<and>
    eats lx u lx' \<and> u \<noteq> [] \<and> (lx_rest lx' = [] \<or> \<not> is_ident_char_cp icu (fst (dec icu (lx_rest lx'))))"
proof -
  obtain lx1 u1 where r1: "lx_read icu lx = (fst (dec icu (lx_rest lx)), lx1)" "eats lx u1 lx1" "u1 \<noteq> []"
    using read_any [OF assms(1,2)] assms(3) by blast
  have ok1: "lx_ok lx1" using r1(2) by (simp add: eats_def)
  have cov: "covers (is_ident_char_cp icu) (\<lambda>_. True)" by (simp add: covers_def)
  obtain lx2 v where s: "skip_while icu (is_ident_char_cp icu) lx1 = Some lx2" "eats lx1 v lx2"
    "lx_rest lx2 = [] \<or> \<not> is_ident_char_cp icu (fst (dec icu (lx_rest lx2)))"
    using skip_while_eats [OF assms(1) cov ok1] by blast
  have e: "eats lx (u1 @ v) lx2" "u1 @ v \<noteq> []" using eats_more [OF r1(2,3) s(2)] by simp_all
  have "slice (lx_data lx2) (sp_offset b) (sp_offset (lx_tell icu lx2) - sp_offset b) = u1 @ v"
  proof -
    have "lx_data lx2 = lx_data lx" "lx_rest lx = (u1 @ v) @ lx_rest lx2" "lx_pos lx2 = lx_pos lx + length (u1 @ v)"
      using e(1) by (simp_all add: eats_def)
    then show ?thesis using lx_rest_pos [OF assms(2)] b by (simp add: slice_def lx_tell_def istream_tell_def lx_pos_def)
  qed
  moreover have "lookup_keyword w \<longleftrightarrow> w \<in> set g_keywords" for w by (auto simp: lookup_keyword_def list_ex_iff)
  ultimately show ?thesis using e s r1(1) by (intro exI [of _ lx2] exI [of _ "u1 @ v"]) (simp add: Let_def)
qed

text \<open>
  The reference for a whole token: what the token is and what is left, from the bytes alone; \<open>None\<close>
  is a lexical error. Which code points are in words is decided by ICU, with the underscore, and the
  reserved words are a table.
\<close>

definition starts_word :: "icu \<Rightarrow> string \<Rightarrow> bool" where
  "starts_word icu s \<longleftrightarrow> (let cp = fst (dec icu s) in 0 < cp \<and> (cp = 0x5F \<or> id_start icu cp))"

definition in_word :: "icu \<Rightarrow> string \<Rightarrow> bool" where
  "in_word icu s \<longleftrightarrow> (let cp = fst (dec icu s) in 0 < cp \<and> (cp = 0x5F \<or> id_start icu cp \<or> id_part icu cp))"

definition blank :: "char \<Rightarrow> bool" where
  "blank c \<longleftrightarrow> c \<in> set [CHR '' '', CHR 0x09, CHR 0x0D, CHR 0x0A]"

definition reserved :: "string list" where
  "reserved =
     [''i8'', ''i16'', ''i32'', ''i64'', ''u8'', ''u16'', ''u32'', ''u64'', ''usize'', ''f32'', ''f64'', ''bool'', ''str'', ''void'',
      ''true'', ''false'', ''nil'', ''undefined'',
      ''if'', ''else'', ''switch'', ''default'', ''while'', ''do'', ''for'', ''foreach'', ''of'', ''break'', ''continue'', ''return'', ''defer'',
      ''import'', ''from'', ''export'', ''extern'', ''lib'', ''cfunc'', ''cunion'', ''opaque'',
      ''var'', ''const'', ''volatile'', ''type'', ''func'', ''struct'', ''union'', ''enum'', ''bitfield'', ''interface'',
      ''implements'', ''extends'', ''using'', ''comptime'', ''static_assert'',
      ''as'', ''is'', ''len'', ''make'', ''sizeof'', ''alignof'', ''typeof'']"

lemma starts_word_iff: "starts_word icu s \<longleftrightarrow> is_ident_start_cp icu (fst (dec icu s))"
  by (auto simp: starts_word_def is_ident_start_cp_def Let_def)

lemma in_word_iff: "icu_ok icu \<Longrightarrow> in_word icu s \<longleftrightarrow> s \<noteq> [] \<and> is_ident_char_cp icu (fst (dec icu s))"
  by (auto simp: in_word_def is_ident_char_cp_def is_ident_start_cp_def Let_def dec_neg dec_def)

lemma reserved_iff: "w \<in> set reserved \<longleftrightarrow> w \<in> set g_keywords"
proof -
  have "list_all (\<lambda>w. List.member g_keywords w) reserved" "list_all (\<lambda>w. List.member reserved w) g_keywords" by code_simp+
  then show ?thesis by (auto simp: list_all_iff)
qed

definition token_spec :: "icu \<Rightarrow> string \<Rightarrow> token \<Rightarrow> string \<Rightarrow> bool" where
  "token_spec icu s t r \<longleftrightarrow> (case s of [] \<Rightarrow> tk_kind t = TOKEN_TYPE_EOF \<and> tk_text t = [] | c # w \<Rightarrow>
     if blank c then tk_kind t = TOKEN_TYPE_WHITESPACE \<and> r = dropWhile blank s
     else if starts_word icu s then
       tk_kind t = (if tk_text t \<in> set reserved then TOKEN_TYPE_KEYWORD else TOKEN_TYPE_IDENTIFIER) \<and> \<not> in_word icu r
     else if digit_char 10 c then
       (case scan_number s of None \<Rightarrow> tk_kind t = TOKEN_TYPE_ERROR | Some x \<Rightarrow> tk_kind t = TOKEN_TYPE_NUMERIC \<and> r = x)
     else if c = CHR 0x22 then
       (case scan_body w of None \<Rightarrow> tk_kind t = TOKEN_TYPE_ERROR | Some x \<Rightarrow> tk_kind t = TOKEN_TYPE_STRING \<and> r = x)
     else if c = CHR 0x27 then
       (case scan_char icu w of None \<Rightarrow> tk_kind t = TOKEN_TYPE_ERROR | Some x \<Rightarrow> tk_kind t = TOKEN_TYPE_CHARACTER \<and> r = x)
     else if c = CHR ''/'' then
       (case scan_slash w of None \<Rightarrow> tk_kind t = TOKEN_TYPE_ERROR | Some (k, x) \<Rightarrow> tk_kind t = k \<and> r = x)
     else
       (case scan_symbol s of None \<Rightarrow> tk_kind t = TOKEN_TYPE_ERROR | Some x \<Rightarrow> tk_kind t = TOKEN_TYPE_SYMBOL \<and> r = x))"

lemma at_end_rest: "istream_at_end (lx_stream lx) \<longleftrightarrow> lx_rest lx = []"
  by (simp add: istream_at_end_def lx_rest_def rest_def istream_size_def)

lemma white_dec:
  assumes "icu_ok icu"
  shows "is_whitespace (fst (dec icu (c # w))) \<longleftrightarrow> blank c"
proof -
  note k = dec_char_iff [OF assms, of _ "c # w"]
  show ?thesis
    using k [of "CHR '' ''"] k [of "CHR 0x09"] k [of "CHR 0x0D"] k [of "CHR 0x0A"]
    by (auto simp: is_whitespace_def blank_def high_def)
qed

lemma is_digit10: "is_digit_in_base cp 10 \<longleftrightarrow> ch CHR ''0'' \<le> cp \<and> cp \<le> ch CHR ''9''"
  by (auto simp: is_digit_in_base_def)

lemma next_token:
  assumes "icu_ok icu" and "lx_ok lx"
  shows "\<exists>t lx'. lexer_next icu lx = Some (t, lx') \<and> token_spec icu (lx_rest lx) t (lx_rest lx') \<and>
    (if lx_rest lx = [] then lx' = lx else good lx t lx')"
proof (cases "lx_rest lx")
  case Nil
  then show ?thesis
    by (simp add: lexer_next_def lexer_read_token_def at_end_rest token_spec_def lexer_make_token_def create_token_def slice_def Let_def)
next
  case (Cons c w)
  let ?b = "lx_tell icu lx" and ?cp = "fst (dec icu (lx_rest lx))"
  have b0: "sp_offset ?b = lx_pos lx" by (simp add: lx_tell_def istream_tell_def lx_pos_def)
  obtain lx1 where p: "lx_peek icu lx = (?cp, lx1)" "eats lx [] lx1" "lx_ok lx1" "lx_rest lx1 = lx_rest lx"
    using peek_is [OF assms] by blast
  have pos1: "lx_pos lx1 = lx_pos lx" "lx_data lx1 = lx_data lx" using p(2) by (simp_all add: eats_def)
  have b: "sp_offset ?b = lx_pos lx1" using b0 pos1 by simp
  have shift: "good lx t lx'" if "good lx1 t lx'" for t lx'
    using that pos1(1) eats_trans [OF p(2)] unfolding good_def by fastforce
  have ne: "lx_rest lx1 \<noteq> []" using p(4) Cons by simp
  have run: "lexer_next icu lx = (if is_whitespace ?cp then do {
          lx \<leftarrow> whitespace_loop icu ?cp lx1;
          Some (lexer_make_token lx TOKEN_TYPE_WHITESPACE ?b (lx_tell icu lx), lx) }
        else if is_ident_start_cp icu ?cp then
          let (_, lx) = lx_read icu lx1 in do {
            lx \<leftarrow> skip_while icu (is_ident_char_cp icu) lx;
            let e = lx_tell icu lx;
                len = sp_offset e - sp_offset ?b;
                txt = slice (lx_data lx) (sp_offset ?b) len;
                kind = (if lookup_keyword txt then TOKEN_TYPE_KEYWORD else TOKEN_TYPE_IDENTIFIER)
            in Some (lexer_make_token lx kind ?b e, lx) }
        else if ch CHR ''0'' \<le> ?cp \<and> ?cp \<le> ch CHR ''9'' then lexer_read_number icu lx1 ?b
        else if ?cp = 34 then lexer_read_string icu lx1 ?b
        else if ?cp = 39 then Some (lexer_read_char icu lx1 ?b)
        else if ?cp = ch CHR ''/'' then lexer_read_slash icu lx1 ?b
        else Some (lexer_read_symbol icu lx1 ?b))"
    using Cons by (simp add: lexer_next_def lexer_read_token_def at_end_rest p(1) Let_def)
  have digit: "(ch CHR ''0'' \<le> ?cp \<and> ?cp \<le> ch CHR ''9'') \<longleftrightarrow> digit_char 10 c"
    using digit_dec [OF assms(1), of c w 10] Cons is_digit10 [of ?cp] by simp
  have quote: "?cp = 34 \<longleftrightarrow> c = CHR 0x22" "?cp = 39 \<longleftrightarrow> c = CHR 0x27" "?cp = ch CHR ''/'' \<longleftrightarrow> c = CHR ''/''"
    using dec_char_iff [OF assms(1), of "CHR 0x22" "lx_rest lx"] dec_char_iff [OF assms(1), of "CHR 0x27" "lx_rest lx"]
      dec_char_iff [OF assms(1), of "CHR ''/''" "lx_rest lx"] Cons by (simp_all add: high_def)
  have white: "is_whitespace ?cp \<longleftrightarrow> blank c" using white_dec [OF assms(1)] Cons by simp
  have rest1: "lx_rest lx1 = c # w" using p(4) Cons by simp
  consider (white) "blank c" | (word) "\<not> blank c" "is_ident_start_cp icu ?cp"
    | (num) "\<not> blank c" "\<not> is_ident_start_cp icu ?cp" "digit_char 10 c"
    | (str) "\<not> blank c" "\<not> is_ident_start_cp icu ?cp" "\<not> digit_char 10 c" "c = CHR 0x22"
    | (chr) "\<not> blank c" "\<not> is_ident_start_cp icu ?cp" "\<not> digit_char 10 c" "c = CHR 0x27"
    | (slash) "\<not> blank c" "\<not> is_ident_start_cp icu ?cp" "\<not> digit_char 10 c" "c = CHR ''/''"
    | (sym) "\<not> blank c" "\<not> is_ident_start_cp icu ?cp" "\<not> digit_char 10 c" "c \<noteq> CHR 0x22" "c \<noteq> CHR 0x27" "c \<noteq> CHR ''/''"
    by blast
  then show ?thesis
  proof cases
    case white
    then have ws: "is_whitespace ?cp" using \<open>is_whitespace ?cp \<longleftrightarrow> blank c\<close> by blast
    obtain lx2 u where s: "whitespace_loop icu ?cp lx1 = Some lx2" "eats lx1 u lx2" "\<forall>c \<in> set u. blank c"
        "lx_rest lx2 = [] \<or> \<not> is_whitespace (fst (dec icu (lx_rest lx2)))" "u \<noteq> []"
      using whitespace_eats [OF assms(1) p(3), of ?cp] ws p(4) unfolding blank_def by metis
    have "lx_rest lx2 = [] \<or> \<not> blank (hd (lx_rest lx2))" using s(4) white_dec [OF assms(1)] by (cases "lx_rest lx2") auto
    then have "dropWhile blank (u @ lx_rest lx2) = lx_rest lx2"
      using s(3) by (cases "lx_rest lx2") (simp_all add: dropWhile_append_stop)
    then have "dropWhile blank (c # w) = lx_rest lx2" using s(2) rest1 by (simp add: eats_def)
    then show ?thesis
      using run ws s(1) shift [OF make_good [OF p(3) s(2,5) b, of TOKEN_TYPE_WHITESPACE icu]] white Cons
      by (simp add: token_spec_def)
  next
    case word
    obtain lx2 u where s: "lexer_next icu lx = Some (lexer_make_token lx2 (if u \<in> set g_keywords then TOKEN_TYPE_KEYWORD else TOKEN_TYPE_IDENTIFIER) ?b (lx_tell icu lx2), lx2)"
        "eats lx1 u lx2" "u \<noteq> []" "lx_rest lx2 = [] \<or> \<not> is_ident_char_cp icu (fst (dec icu (lx_rest lx2)))"
      using word_scan [OF assms(1) p(3) ne b] run word(2) white word(1) unfolding p(4) by auto
    show ?thesis
      using s(1,4) shift [OF make_good [OF p(3) s(2,3) b, of "if u \<in> set g_keywords then TOKEN_TYPE_KEYWORD else TOKEN_TYPE_IDENTIFIER" icu]]
        make_text [OF p(3) s(2) b] word Cons
      by (auto simp: token_spec_def starts_word_iff in_word_iff [OF assms(1)] reserved_iff)
  next
    case num
    obtain t lx2 where "lexer_read_number icu lx1 ?b = Some (t, lx2)" "good lx1 t lx2"
      "case scan_number (lx_rest lx1) of None \<Rightarrow> tk_kind t = TOKEN_TYPE_ERROR | Some r \<Rightarrow> tk_kind t = TOKEN_TYPE_NUMERIC \<and> lx_rest lx2 = r"
      using number_scan [OF assms(1) p(3) rest1 num(3) b] by blast
    then show ?thesis using run num white digit shift Cons p(4)
      by (auto simp: token_spec_def starts_word_iff split: option.splits)
  next
    case str
    obtain t lx2 where "lexer_read_string icu lx1 ?b = Some (t, lx2)" "good lx1 t lx2"
      "case scan_body w of None \<Rightarrow> tk_kind t = TOKEN_TYPE_ERROR | Some r \<Rightarrow> tk_kind t = TOKEN_TYPE_STRING \<and> lx_rest lx2 = r"
      using string_scan [OF assms(1) p(3) rest1 [unfolded str(4)] b] by blast
    then show ?thesis using run str white digit quote shift Cons
      by (auto simp: token_spec_def starts_word_iff split: option.splits)
  next
    case chr
    obtain t lx2 where "lexer_read_char icu lx1 ?b = (t, lx2)" "good lx1 t lx2"
      "case scan_char icu w of None \<Rightarrow> tk_kind t = TOKEN_TYPE_ERROR | Some r \<Rightarrow> tk_kind t = TOKEN_TYPE_CHARACTER \<and> lx_rest lx2 = r"
      using char_scan [OF assms(1) p(3) rest1 [unfolded chr(4)] b] by blast
    then show ?thesis using run chr white digit quote shift Cons
      by (auto simp: token_spec_def starts_word_iff split: option.splits)
  next
    case slash
    obtain t lx2 where "lexer_read_slash icu lx1 ?b = Some (t, lx2)" "good lx1 t lx2"
      "case scan_slash w of None \<Rightarrow> tk_kind t = TOKEN_TYPE_ERROR | Some (k, r) \<Rightarrow> tk_kind t = k \<and> lx_rest lx2 = r"
      using slash_scan [OF assms(1) p(3) rest1 [unfolded slash(4)] b] by blast
    then show ?thesis using run slash white digit quote shift Cons
      by (auto simp: token_spec_def starts_word_iff split: option.splits)
  next
    case sym
    have "c \<noteq> CHR 0x0D" using sym(1) by (auto simp: blank_def)
    then obtain t lx2 where "lexer_read_symbol icu lx1 ?b = (t, lx2)" "good lx1 t lx2"
      "case scan_symbol (c # w) of None \<Rightarrow> tk_kind t = TOKEN_TYPE_ERROR | Some r \<Rightarrow> tk_kind t = TOKEN_TYPE_SYMBOL \<and> lx_rest lx2 = r"
      using symbol_scan [OF assms(1) p(3) rest1 b sym(6)] by blast
    then show ?thesis using run sym white digit quote shift Cons
      by (auto simp: token_spec_def starts_word_iff split: option.splits)
  qed
qed

section \<open>The whole input\<close>

text \<open>The texts of the tokens tile the input, each token beginning where the last one ended.\<close>

fun tiles :: "nat \<Rightarrow> token list \<Rightarrow> bool" where
  "tiles p [] \<longleftrightarrow> True"
| "tiles p (t # ts) \<longleftrightarrow> ps_offset (lc_begin (tk_location t)) = p \<and> ps_offset (lc_end (tk_location t)) = p + length (tk_text t) \<and>
     tiles (p + length (tk_text t)) ts"

definition pool_spec :: "lexer \<Rightarrow> token list \<Rightarrow> bool" where
  "pool_spec lx ts \<longleftrightarrow> (\<exists>body eof. ts = body @ [eof] \<and> tk_kind eof = TOKEN_TYPE_EOF \<and>
     (\<forall>t \<in> set body. tk_kind t \<noteq> TOKEN_TYPE_EOF \<and> tk_kind t \<noteq> TOKEN_TYPE_ERROR \<and> tk_text t \<noteq> []) \<and>
     concat (map tk_text ts) = lx_rest lx \<and> tiles (lx_pos lx) ts \<and> tk_text eof = [])"

lemma eof_token:
  assumes "lx_ok lx" and "lx_rest lx = []"
  shows "lexer_next icu lx = Some (lexer_make_token lx TOKEN_TYPE_EOF (lx_tell icu lx) (lx_tell icu lx), lx) \<and>
    pool_spec lx [lexer_make_token lx TOKEN_TYPE_EOF (lx_tell icu lx) (lx_tell icu lx)]"
  using assms
  by (simp add: pool_spec_def lexer_next_def lexer_read_token_def at_end_rest lexer_make_token_def create_token_def slice_def Let_def
      make_location_def lx_tell_def istream_tell_def lx_pos_def)

lemma pool_runs:
  assumes "icu_ok icu"
  shows "lx_ok lx \<Longrightarrow> (\<exists>t. driver_pool icu pool lx = Some (Inl t) \<and> tk_kind t = TOKEN_TYPE_ERROR \<and> tk_message t \<noteq> None \<and>
      lx_pos lx \<le> ps_offset (lc_begin (tk_location t)) \<and> ps_offset (lc_begin (tk_location t)) < length (lx_data lx)) \<or>
    (\<exists>ts. driver_pool icu pool lx = Some (Inr (pool @ ts)) \<and> pool_spec lx ts)"
proof (induction "length (lx_rest lx)" arbitrary: lx pool rule: less_induct)
  case less
  show ?case
  proof (cases "lx_rest lx = []")
    case True
    then show ?thesis using eof_token [OF less.prems True, of icu] by (subst (2) driver_pool.simps) (simp add: Let_def)
  next
    case False
    obtain t lx1 where n: "lexer_next icu lx = Some (t, lx1)" "good lx t lx1" using next_token [OF assms less.prems] False by auto
    obtain u where g: "eats lx u lx1" "u \<noteq> []" "ps_offset (lc_begin (tk_location t)) = lx_pos lx"
      "if tk_kind t = TOKEN_TYPE_ERROR then tk_text t = [] \<and> tk_message t \<noteq> None
      else tk_kind t \<noteq> TOKEN_TYPE_EOF \<and> tk_text t = u \<and> tk_message t = None \<and> ps_offset (lc_end (tk_location t)) = lx_pos lx1"
      using n(2) unfolding good_def by blast
    have s: "lx_ok lx1" "length (lx_rest lx1) < length (lx_rest lx)" "lx_rest lx = u @ lx_rest lx1" "lx_pos lx1 = lx_pos lx + length u"
       "lx_data lx1 = lx_data lx"
      using g(1,2) by (auto simp: eats_def)
    have here: "lx_pos lx < length (lx_data lx)" using lx_rest_pos [OF less.prems] False by auto
    show ?thesis
    proof (cases "tk_kind t = TOKEN_TYPE_ERROR")
      case True
      then have "driver_pool icu pool lx = Some (Inl t)" by (subst driver_pool.simps) (simp add: n(1))
      then show ?thesis using True g(3,4) here by auto
    next
      case False
      then have t: "tk_kind t \<noteq> TOKEN_TYPE_EOF" "tk_text t = u" "ps_offset (lc_end (tk_location t)) = lx_pos lx1" using g(4) by simp_all
      have step: "driver_pool icu pool lx = driver_pool icu (pool @ [t]) lx1"
        using False t(1) by (subst driver_pool.simps) (simp add: n(1))
      consider (err) e where "driver_pool icu (pool @ [t]) lx1 = Some (Inl e)" "tk_kind e = TOKEN_TYPE_ERROR" "tk_message e \<noteq> None"
          "lx_pos lx1 \<le> ps_offset (lc_begin (tk_location e))" "ps_offset (lc_begin (tk_location e)) < length (lx_data lx)"
        | (ok) ts where "driver_pool icu (pool @ [t]) lx1 = Some (Inr ((pool @ [t]) @ ts))" "pool_spec lx1 ts"
        using less.hyps [OF s(2,1), of "pool @ [t]"] s(5) by auto
      then show ?thesis
      proof cases
        case err
        then show ?thesis using step s(4) by auto
      next
        case ok
        obtain body eof where spec: "ts = body @ [eof]" "tk_kind eof = TOKEN_TYPE_EOF"
            "\<forall>t \<in> set body. tk_kind t \<noteq> TOKEN_TYPE_EOF \<and> tk_kind t \<noteq> TOKEN_TYPE_ERROR \<and> tk_text t \<noteq> []"
            "concat (map tk_text ts) = lx_rest lx1" "tiles (lx_pos lx1) ts" "tk_text eof = []"
          using ok(2) unfolding pool_spec_def by blast
        have "pool_spec lx (t # ts)"
          unfolding pool_spec_def using spec t False g(2,3) s(3,4) by (intro exI [of _ "t # body"] exI [of _ eof]) simp
        then show ?thesis using ok(1) step by (intro disjI2 exI [of _ "t # ts"]) simp
      qed
    qed
  qed
qed

section \<open>The start of the input\<close>

definition has_bom :: "string \<Rightarrow> bool" where
  "has_bom s \<longleftrightarrow> take 3 s = [CHR 0xEF, CHR 0xBB, CHR 0xBF]"

lemma scan_bom:
  assumes "icu_ok icu"
  shows "ms_data src = CHR 0xEF # CHR 0xBB # CHR 0xBF # w \<Longrightarrow> pos \<le> 3 \<Longrightarrow> snd (snd info) \<le> 3 \<Longrightarrow>
    snd (snd (fst (scan_from f icu src 3 pos info))) \<le> 3"
proof (induction f arbitrary: src pos info)
  case (Suc f)
  obtain line col ls where info: "info = (line, col, ls)" by (cases info)
  show ?case
  proof (cases "pos < 3")
    case True
    define s where "s = drop pos (ms_data src)"
    obtain c cs where s: "s = c # cs" "pos + lead_len c \<le> 3" "\<not> of_char c < (128 :: int)"
    proof -
      consider "pos = 0" | "pos = 1" | "pos = 2" using True by linarith
      then show ?thesis using Suc.prems(1) by cases (auto simp: s_def lead_len_def numeral_2_eq_2 intro: that)
    qed
    obtain src1 x where r: "source_read_cp icu src pos = (fst (dec icu s), x, snd (dec icu s), src1)" "ms_data src1 = ms_data src"
      using source_read_cp_dec [of icu src pos] unfolding s_def by blast
    have big: "128 \<le> fst (dec icu s)" "snd (dec icu s) \<le> lead_len c" using dec_Cons(3,5) [OF assms] s by auto
    note IH = Suc.IH [of src1 "pos + snd (dec icu s)"]
    have p: "pos + snd (dec icu s) \<le> 3" using big(2) s(2) by simp
    have d: "ms_data src1 = CHR 0xEF # CHR 0xBB # CHR 0xBF # w" using r(2) Suc.prems(1) by simp
    show ?thesis
      using IH [OF d p] p big(1) Suc.prems(3) by (simp add: info True r(1) Let_def)
  next
    case False
    then show ?thesis using Suc.prems(3) by (simp add: info)
  qed
qed simp

lemma bom_nth: "length s \<ge> 3 \<and> s ! 0 = CHR 0xEF \<and> s ! 1 = CHR 0xBB \<and> s ! 2 = CHR 0xBF \<longleftrightarrow> has_bom s"
  by (cases s; cases "tl s"; cases "tl (tl s)") (auto simp: has_bom_def numeral_2_eq_2 numeral_3_eq_3)

lemma scan_data: "ms_data (snd (scan_from f icu src target pos info)) = ms_data src"
proof (induction f arbitrary: src pos info)
  case (Suc f)
  obtain line col ls where info: "info = (line, col, ls)" by (cases info)
  obtain cp x n src1 where r: "source_read_cp icu src pos = (cp, x, n, src1)" "ms_data src1 = ms_data src"
    using source_read_cp_dec [of icu src pos] by blast
  obtain cp2 x2 n2 src2 where r2: "source_read_cp icu src1 (pos + n) = (cp2, x2, n2, src2)" "ms_data src2 = ms_data src1"
    using source_read_cp_dec [of icu src1 "pos + n"] by blast
  show ?case by (simp add: info r(1) r2 Let_def Suc.IH r(2))
qed simp

lemma seek_data: "ms_data (mem_source_seek src n) = ms_data src"
  by (simp add: mem_source_seek_def)

lemma create_ok:
  fixes filename :: string
  assumes "icu_ok icu" and "length data < 2 ^ 31"
  defines "lx \<equiv> lexer_create icu (istream_open \<lparr>ms_data = data, ms_pos = 0\<rparr>) filename"
  shows "lx_ok lx" and "lx_rest lx = (if has_bom data then drop 3 data else data)" and "lx_pos lx = (if has_bom data then 3 else 0)"
    and "lx_data lx = data"
proof -
  let ?s = "istream_open \<lparr>ms_data = data, ms_pos = 0\<rparr>"
  let ?seek = "istream_seek icu ?s 3"
  show data: "lx_data lx = data" by (simp add: lx_def lexer_create_def istream_open_def Let_def)
  have open_ok: "is_ok ?s" by (rule is_ok_open)
  have "is_ok ?seek \<and> is_pos ?seek = 3 \<and> ms_data (is_source ?seek) = data" if bom: "has_bom data"
  proof -
    obtain w where w: "data = CHR 0xEF # CHR 0xBB # CHR 0xBF # w"
      using bom by (cases data; cases "tl data"; cases "tl (tl data)") (auto simp: has_bom_def numeral_3_eq_3)
    obtain line col ls src where scan: "scan_position icu \<lparr>ms_data = data, ms_pos = 0\<rparr> 3 = ((line, col, ls), src)"
      by (metis prod_cases3 surj_pair)
    have ls: "ls \<le> 3"
      using scan_bom [OF assms(1), of "mem_source_seek \<lparr>ms_data = data, ms_pos = 0\<rparr> 0" w 0 "(1, 1, 0)" 3] scan w
      by (simp add: scan_position_def mem_source_seek_def)
    have src: "ms_data src = data"
      using scan_data [of 3 icu "mem_source_seek \<lparr>ms_data = data, ms_pos = 0\<rparr> 0" 3 0 "(1, 1, 0)"] scan
      by (simp add: scan_position_def mem_source_seek_def)
    have sub: "size_sub 3 ls = 3 - ls" using ls by (intro size_sub_le) simp_all
    have len: "3 \<le> length data" using w by simp
    let ?u = "?s\<lparr>is_source := src, is_pos := 3, is_line := line, is_col := col, is_line_start := ls\<rparr>"
    have three: "\<not> 3 > istream_size ?s" using len by (simp add: istream_size_def istream_open_def)
    have source: "is_source ?s = \<lparr>ms_data = data, ms_pos = 0\<rparr>" by (simp add: istream_open_def)
    have seek: "?seek = (let s = (if 3 - ls > 0 then
                   let s = istream_ensure_line_buf ?u (3 - ls);
                       (bytes, src) = mem_source_read (mem_source_seek (is_source s) ls) (3 - ls)
                   in s\<lparr>is_buf := bytes, is_source := src\<rparr>
                 else ?u\<lparr>is_buf := []\<rparr>)
        in s\<lparr>is_source := mem_source_seek (is_source s) 3\<rparr>)"
      using three scan sub unfolding istream_seek_def source Let_def by simp
    have read: "mem_source_read (mem_source_seek src ls) (3 - ls) = (slice data ls (3 - ls), src\<lparr>ms_pos := 3\<rparr>)"
      using src ls len by (simp add: mem_source_read_def mem_source_seek_def Let_def)
    have "length (slice data ls (3 - ls)) \<le> ensured ?u (3 - ls)"
      using ensured_ge [of ?u "3 - ls"] by (simp add: slice_def)
    then show ?thesis
      using src ls len unfolding seek
      by (cases "3 - ls > 0") (simp_all add: ensure_eq read is_ok_def istream_size_def seek_data slice_def Let_def)
  qed
  moreover have "lx = \<lparr>lx_stream = if has_bom data then ?seek else ?s, lx_filename = filename, lx_data = data, lx_len = length data\<rparr>"
    using bom_nth [of data] unfolding lx_def lexer_create_def istream_size_def istream_open_def Let_def by simp
  ultimately have "lx_ok lx \<and> lx_pos lx = (if has_bom data then 3 else 0)"
    using open_ok by (cases "has_bom data") (simp_all add: lx_ok_def lx_pos_def, simp add: istream_open_def)
  then show "lx_ok lx" "lx_pos lx = (if has_bom data then 3 else 0)" "lx_rest lx = (if has_bom data then drop 3 data else data)"
    using lx_rest_pos [of lx] data by simp_all
qed

section \<open>Properties\<close>



text \<open>
  C18 (roundtrip). The token pool of a source always comes to an end. Either the first lexical error is
  reported, with its message and at a place inside the source; or the texts of the tokens, put
  together, are the source without its byte order mark, every token begins where the one before it
  ended, none but the last is the end token, and none is empty.
\<close>

theorem token_pool_correct:
  assumes "icu_ok icu" and "length data < 2 ^ 31"
  shows "(\<exists>t. driver_pool icu [] (lexer_create icu (istream_open \<lparr>ms_data = data, ms_pos = 0\<rparr>) filename) = Some (Inl t) \<and>
      tk_kind t = TOKEN_TYPE_ERROR \<and> tk_message t \<noteq> None \<and> ps_offset (lc_begin (tk_location t)) < length data) \<or>
    (\<exists>body eof. driver_pool icu [] (lexer_create icu (istream_open \<lparr>ms_data = data, ms_pos = 0\<rparr>) filename) = Some (Inr (body @ [eof])) \<and>
      tk_kind eof = TOKEN_TYPE_EOF \<and>
      (\<forall>t \<in> set body. tk_kind t \<noteq> TOKEN_TYPE_EOF \<and> tk_kind t \<noteq> TOKEN_TYPE_ERROR \<and> tk_text t \<noteq> []) \<and>
      concat (map tk_text body) = (if has_bom data then drop 3 data else data) \<and>
      tiles (if has_bom data then 3 else 0) (body @ [eof]))"
proof -
  let ?lx = "lexer_create icu (istream_open \<lparr>ms_data = data, ms_pos = 0\<rparr>) filename"
  note c = create_ok [OF assms, of filename]
  consider (err) t where "driver_pool icu [] ?lx = Some (Inl t)" "tk_kind t = TOKEN_TYPE_ERROR" "tk_message t \<noteq> None"
      "ps_offset (lc_begin (tk_location t)) < length data"
    | (ok) ts where "driver_pool icu [] ?lx = Some (Inr ts)" "pool_spec ?lx ts"
    using pool_runs [OF assms(1) c(1), of "[]"] c(4) by auto
  then show ?thesis
  proof cases
    case err
    then show ?thesis by blast
  next
    case ok
    obtain body eof where spec: "ts = body @ [eof]" "tk_kind eof = TOKEN_TYPE_EOF"
        "\<forall>t \<in> set body. tk_kind t \<noteq> TOKEN_TYPE_EOF \<and> tk_kind t \<noteq> TOKEN_TYPE_ERROR \<and> tk_text t \<noteq> []"
        "concat (map tk_text ts) = lx_rest ?lx" "tiles (lx_pos ?lx) ts" "tk_text eof = []"
      using ok(2) unfolding pool_spec_def by blast
    then show ?thesis using ok(1) c(2,3) by (intro disjI2 exI [of _ body] exI [of _ eof]) simp
  qed
qed

theorem token_pool_correct_witness:
  "\<exists>body eof. driver_pool latin_icu [] (lexer_create latin_icu (istream_open \<lparr>ms_data = ''x=1'', ms_pos = 0\<rparr>) ''f'') = Some (Inr (body @ [eof])) \<and>
     concat (map tk_text body) = ''x=1'' \<and> tk_kind eof = TOKEN_TYPE_EOF"
proof -
  let ?lx = "lexer_create latin_icu (istream_open \<lparr>ms_data = ''x=1'', ms_pos = 0\<rparr>) ''f''"
  have "case driver_pool latin_icu [] ?lx of Some (Inr _) \<Rightarrow> True | _ \<Rightarrow> False" by code_simp
  moreover have "\<not> has_bom ''x=1''" by (simp add: has_bom_def)
  ultimately show ?thesis using token_pool_correct [OF latin_icu_ok, of "''x=1''" "''f''"] by auto
qed
end
