(* ===== verification/Literals.thy ===== *)
theory Literals
  imports LexerProps StrMap "HOL-Library.Sublist"
begin

unbundle bit_operations_syntax

text \<open>
  String slices (\<open>src/core/strslice.h\<close>), the token cursor of the parser (\<open>src/parser/parse_utils.c\<close>)
  and the literals: integers, characters, strings (\<open>parse_int_lit.c\<close>, \<open>parse_char_lit.c\<close>,
  \<open>parse_string_lit.c\<close>). A slice is the list of its bytes; the empty slice and the \<open>NULL\<close> slice are
  the same list, as no function here tells them apart.
\<close>

section \<open>Slices\<close>

type_synonym strslice = string

definition strslice_is_empty :: "strslice \<Rightarrow> bool" where
  "strslice_is_empty s \<longleftrightarrow> length s = 0"

fun memcmp :: "string \<Rightarrow> string \<Rightarrow> nat \<Rightarrow> int" where
  "memcmp (c # cs) (d # ds) (Suc n) = (if c = d then memcmp cs ds n else of_char c - of_char d)"
| "memcmp _ _ _ = 0"

definition strslice_eq :: "strslice \<Rightarrow> strslice \<Rightarrow> bool" where
  "strslice_eq a b = (if length a \<noteq> length b then False else if length a = 0 then True else memcmp a b (length a) = 0)"

definition strslice_cmp :: "strslice \<Rightarrow> strslice \<Rightarrow> int" where
  "strslice_cmp a b =
     (let min_len = (if length a < length b then length a else length b);
          r = (if min_len > 0 then memcmp a b min_len else 0)
      in if r \<noteq> 0 then r else if length a < length b then - 1 else if length a > length b then 1 else 0)"

definition strslice_hash :: "strslice \<Rightarrow> 64 word" where
  "strslice_hash s = fold (\<lambda>c h. (h XOR of_char c) * 1099511628211) s 14695981039346656037"

definition strslice_substr :: "strslice \<Rightarrow> nat \<Rightarrow> nat \<Rightarrow> strslice" where
  "strslice_substr s start n =
     (if start \<ge> length s then []
      else let avail = length s - start; n = (if n > avail then avail else n) in slice s start n)"

definition strslice_starts_with :: "strslice \<Rightarrow> strslice \<Rightarrow> bool" where
  "strslice_starts_with s p =
     (if length p > length s then False else if length p = 0 then True else memcmp s p (length p) = 0)"

definition strslice_ends_with :: "strslice \<Rightarrow> strslice \<Rightarrow> bool" where
  "strslice_ends_with s p =
     (if length p > length s then False else if length p = 0 then True
      else memcmp (drop (length s - length p) s) p (length p) = 0)"

section \<open>Token cursor\<close>

record parser =
  pr_tokens :: "token list"
  pr_pos :: nat
  pr_error :: bool
  pr_recover :: bool
  pr_pipe :: int
  pr_magic :: bool

text \<open>Past the end the cursor gives the last token; an empty pool gives \<open>NULL\<close>.\<close>

definition cur_token :: "parser \<Rightarrow> token option" where
  "cur_token p = (if pr_tokens p = [] then None
     else if pr_pos p \<ge> length (pr_tokens p) then Some (pr_tokens p ! (length (pr_tokens p) - 1))
     else Some (pr_tokens p ! pr_pos p))"

definition prev_token :: "parser \<Rightarrow> token option" where
  "prev_token p = (if pr_pos p = 0 then None
     else if pr_pos p - 1 < length (pr_tokens p) then Some (pr_tokens p ! (pr_pos p - 1)) else None)"

definition advance :: "parser \<Rightarrow> token option \<times> parser" where
  "advance p = (cur_token p, if pr_pos p < length (pr_tokens p) then p\<lparr>pr_pos := pr_pos p + 1\<rparr> else p)"

definition token_get_kind :: "token option \<Rightarrow> token_kind" where
  "token_get_kind t = (case t of None \<Rightarrow> TOKEN_TYPE_ERROR | Some t \<Rightarrow> tk_kind t)"

function skip_trivia :: "parser \<Rightarrow> parser" where
  "skip_trivia p =
     (if pr_pos p < length (pr_tokens p) then
        let kind = tk_kind (pr_tokens p ! pr_pos p) in
        if kind \<noteq> TOKEN_TYPE_WHITESPACE \<and> kind \<noteq> TOKEN_TYPE_COMMENT \<and> kind \<noteq> TOKEN_TYPE_MULTILINE_COMMENT then p
        else skip_trivia (p\<lparr>pr_pos := pr_pos p + 1\<rparr>)
      else p)"
  by pat_completeness auto
termination by (relation "measure (\<lambda>p. length (pr_tokens p) - pr_pos p)") auto

declare skip_trivia.simps [simp del]

definition advance_skip :: "parser \<Rightarrow> token option \<times> parser" where
  "advance_skip p = (let (t, p) = advance p in (t, skip_trivia p))"

definition parser_at_end :: "parser \<Rightarrow> bool" where
  "parser_at_end p \<longleftrightarrow> token_get_kind (cur_token p) = TOKEN_TYPE_EOF"

definition token_text_is :: "token option \<Rightarrow> string \<Rightarrow> bool" where
  "token_text_is t s = (case t of None \<Rightarrow> False | Some t \<Rightarrow> token_is t s)"

definition check_keyword :: "parser \<Rightarrow> string \<Rightarrow> bool" where
  "check_keyword p kw \<longleftrightarrow> token_get_kind (cur_token p) = TOKEN_TYPE_KEYWORD \<and> token_text_is (cur_token p) kw"

definition check_symbol :: "parser \<Rightarrow> string \<Rightarrow> bool" where
  "check_symbol p sy \<longleftrightarrow> token_get_kind (cur_token p) = TOKEN_TYPE_SYMBOL \<and> token_text_is (cur_token p) sy"

definition check_kind :: "parser \<Rightarrow> token_kind \<Rightarrow> bool" where
  "check_kind p kind \<longleftrightarrow> token_get_kind (cur_token p) = kind"

definition token_strslice :: "token option \<Rightarrow> strslice" where
  "token_strslice t = (case t of None \<Rightarrow> [] | Some t \<Rightarrow> tk_text t)"

definition match_keyword :: "parser \<Rightarrow> string \<Rightarrow> bool \<times> parser" where
  "match_keyword p kw = (if check_keyword p kw then (True, snd (advance p)) else (False, p))"

definition match_symbol :: "parser \<Rightarrow> string \<Rightarrow> bool \<times> parser" where
  "match_symbol p sy = (if check_symbol p sy then (True, snd (advance p)) else (False, p))"

definition expect_keyword :: "parser \<Rightarrow> string \<Rightarrow> bool \<times> parser" where
  "expect_keyword p kw = (if check_keyword p kw then (True, snd (advance p)) else (False, p))"

definition expect_symbol :: "parser \<Rightarrow> string \<Rightarrow> bool \<times> parser" where
  "expect_symbol p sy = (if check_symbol p sy then (True, snd (advance p)) else (False, p))"

text \<open>
  Shift operators are put together from two angle brackets; no token is consumed. The result is the
  text and the location of the new symbol.
\<close>

definition synthesize_shift_token :: "parser \<Rightarrow> (string \<times> location) option" where
  "synthesize_shift_token p =
     (let t0 = cur_token p in
      if token_get_kind t0 \<noteq> TOKEN_TYPE_SYMBOL then None
      else let s0 = token_strslice t0 in
        if length s0 \<noteq> 1 \<or> (s0 ! 0 \<noteq> CHR ''<'' \<and> s0 ! 0 \<noteq> CHR ''>'') then None
        else let q = skip_trivia (snd (advance p));
                 t2 = cur_token q;
                 same = (token_get_kind t2 = TOKEN_TYPE_SYMBOL \<and> token_text_is t2 (if s0 ! 0 = CHR ''<'' then ''<'' else ''>'')) in
             if \<not> same then None
             else Some (if s0 ! 0 = CHR ''<'' then ''<<'' else ''>>'', tk_location (the t0)))"

text \<open>Names that a program may not introduce: the result is the reason, if there is one.\<close>

datatype reserved = Double_underscore | Discard_marker

definition parse_reserved_ident_error :: "parser \<Rightarrow> token option \<Rightarrow> reserved option \<times> parser" where
  "parse_reserved_ident_error p tok =
     (if tok = None then (None, p)
      else let s = token_strslice tok in
        if length s \<ge> 2 \<and> s ! 0 = CHR ''_'' \<and> s ! 1 = CHR ''_'' then (Some Double_underscore, p\<lparr>pr_error := True\<rparr>)
        else if length s = 1 \<and> s ! 0 = CHR ''_'' then (Some Discard_marker, p\<lparr>pr_error := True\<rparr>)
        else (None, p))"

section \<open>Integer literals\<close>

text \<open>What the parser builds: no match leaves the cursor where it was.\<close>

datatype lit = No_match | Int_lit nat nat "64 word" strslice | Char_lit nat nat "32 word" | String_lit nat nat strslice
  | Out_of_range nat nat "64 word" strslice

definition numeric_is_float :: "string \<Rightarrow> bool" where
  "numeric_is_float txt =
     (if txt = [] then False
      else if length txt \<ge> 2 \<and> txt ! 0 = CHR ''0'' \<and> txt ! 1 \<in> set ''xXoObB'' then False
      else list_ex (\<lambda>c. c = CHR ''.'' \<or> c = CHR ''e'' \<or> c = CHR ''E'') txt)"

record int_type_info =
  it_name :: string
  it_max :: "64 word"
  it_signed :: bool

definition kIntTypes :: "int_type_info list" where
  "kIntTypes = [
     \<lparr>it_name = ''i8'', it_max = 127, it_signed = True\<rparr>,
     \<lparr>it_name = ''i16'', it_max = 32767, it_signed = True\<rparr>,
     \<lparr>it_name = ''i32'', it_max = 2147483647, it_signed = True\<rparr>,
     \<lparr>it_name = ''i64'', it_max = 9223372036854775807, it_signed = True\<rparr>,
     \<lparr>it_name = ''u8'', it_max = 255, it_signed = False\<rparr>,
     \<lparr>it_name = ''u16'', it_max = 65535, it_signed = False\<rparr>,
     \<lparr>it_name = ''u32'', it_max = 4294967295, it_signed = False\<rparr>,
     \<lparr>it_name = ''u64'', it_max = - 1, it_signed = False\<rparr>,
     \<lparr>it_name = ''usize'', it_max = - 1, it_signed = False\<rparr>]"

definition find_int_type :: "strslice \<Rightarrow> int_type_info option" where
  "find_int_type s = find (\<lambda>ti. strslice_eq s (it_name ti)) kIntTypes"

definition digit_value :: "char \<Rightarrow> int" where
  "digit_value c =
     (let v = of_char c :: int in
      if 48 \<le> v \<and> v \<le> 57 then v - 48
      else if 97 \<le> v \<and> v \<le> 102 then v - 97 + 10
      else if 65 \<le> v \<and> v \<le> 70 then v - 65 + 10 else - 1)"

fun int_digits :: "int \<Rightarrow> string \<Rightarrow> 64 word \<Rightarrow> 64 word" where
  "int_digits base [] v = v"
| "int_digits base (c # cs) v =
     (let digit = digit_value c in
      if digit < 0 \<or> digit \<ge> base then v
      else int_digits base cs (v * word_of_int base + word_of_int digit))"

definition int_base :: "strslice \<Rightarrow> int \<times> nat" where
  "int_base txt =
     (if length txt \<ge> 2 \<and> txt ! 0 = CHR ''0'' then
        let c = txt ! 1 in
        if c = CHR ''x'' \<or> c = CHR ''X'' then (16, 2)
        else if c = CHR ''o'' \<or> c = CHR ''O'' then (8, 2)
        else if c = CHR ''b'' \<or> c = CHR ''B'' then (2, 2) else (10, 0)
      else (10, 0))"

definition parse_int_value :: "strslice \<Rightarrow> 64 word" where
  "parse_int_value txt = (let (base, start) = int_base txt in int_digits base (drop start txt) 0)"

definition parse_int_lit :: "parser \<Rightarrow> lit \<times> parser" where
  "parse_int_lit p =
     (let tb = pr_pos p in
      if \<not> check_kind p TOKEN_TYPE_NUMERIC then (No_match, p\<lparr>pr_pos := tb\<rparr>)
      else let txt = token_strslice (cur_token p) in
        if numeric_is_float txt then (No_match, p\<lparr>pr_pos := tb\<rparr>)
        else
          let p = skip_trivia (snd (advance p)); v = parse_int_value txt in
          if check_kind p TOKEN_TYPE_KEYWORD then
            let nx = token_strslice (cur_token p) in
            (case find_int_type nx of
               Some ti \<Rightarrow>
                 if v > it_max ti then let p = snd (advance p) in (Out_of_range tb (pr_pos p) v nx, p)
                 else let p = snd (advance p) in (Int_lit tb (pr_pos p) v nx, p)
             | None \<Rightarrow> (Int_lit tb (pr_pos p) v [], p))
          else (Int_lit tb (pr_pos p) v [], p))"

section \<open>Escapes and UTF-8\<close>

text \<open>At most \<open>n\<close> hex digits; the first character that is none ends the number.\<close>

fun hex_value :: "nat \<Rightarrow> string \<Rightarrow> 32 word \<Rightarrow> 32 word" where
  "hex_value 0 cs v = v"
| "hex_value (Suc n) [] v = v"
| "hex_value (Suc n) (c # cs) v =
     (let d = digit_value c in if d < 0 then v else hex_value n cs (v * 16 + word_of_int d))"

text \<open>The text after the backslash: the code point, and how many characters of it are taken.\<close>

definition parse_escape_seq :: "string \<Rightarrow> 32 word \<times> nat" where
  "parse_escape_seq txt =
     (case txt of [] \<Rightarrow> (0, 0)
      | c # cs \<Rightarrow>
        if c = CHR ''n'' then (10, 1) else if c = CHR ''r'' then (13, 1) else if c = CHR ''t'' then (9, 1)
        else if c = CHR 0x5C then (92, 1) else if c = CHR 0x27 then (39, 1) else if c = CHR 0x22 then (34, 1)
        else if c = CHR ''0'' then (0, 1)
        else if c = CHR ''x'' then (if length txt < 3 then (0, 1) else (hex_value 2 cs 0, 3))
        else if c = CHR ''u'' then (if length txt < 5 then (0, 1) else (hex_value 4 cs 0, 5))
        else if c = CHR ''U'' then (if length txt < 9 then (0, 1) else (hex_value 8 cs 0, 9))
        else (of_char c, 1))"

definition utf8_encode_len :: "32 word \<Rightarrow> nat" where
  "utf8_encode_len cp = (if cp < 0x80 then 1 else if cp < 0x800 then 2 else if cp < 0x10000 then 3 else 4)"

text \<open>A cast to \<open>char\<close> keeps the low eight bits.\<close>

definition byte :: "32 word \<Rightarrow> char" where
  "byte w = char_of (unat w)"

definition utf8_encode :: "32 word \<Rightarrow> string" where
  "utf8_encode cp =
     (if cp < 0x80 then [byte cp]
      else if cp < 0x800 then [byte (0xC0 OR drop_bit 6 cp), byte (0x80 OR (cp AND 0x3F))]
      else if cp < 0x10000 then [byte (0xE0 OR drop_bit 12 cp), byte (0x80 OR (drop_bit 6 cp AND 0x3F)), byte (0x80 OR (cp AND 0x3F))]
      else [byte (0xF0 OR drop_bit 18 cp), byte (0x80 OR (drop_bit 12 cp AND 0x3F)), byte (0x80 OR (drop_bit 6 cp AND 0x3F)), byte (0x80 OR (cp AND 0x3F))])"

section \<open>Character and string literals\<close>

definition parse_char_value :: "strslice \<Rightarrow> 32 word" where
  "parse_char_value txt =
     (if length txt < 3 \<or> txt ! 0 \<noteq> CHR 0x27 \<or> txt ! (length txt - 1) \<noteq> CHR 0x27 then 0
      else if txt ! 1 = CHR 0x5C then fst (parse_escape_seq (slice txt 2 (length txt - 3)))
      else of_char (txt ! 1))"

definition parse_char_lit :: "parser \<Rightarrow> lit \<times> parser" where
  "parse_char_lit p =
     (let tb = pr_pos p in
      if \<not> check_kind p TOKEN_TYPE_CHARACTER then (No_match, p\<lparr>pr_pos := tb\<rparr>)
      else let txt = token_strslice (cur_token p); p = snd (advance p)
           in (Char_lit tb (pr_pos p) (parse_char_value txt), p))"

text \<open>
  The two passes over the text between the quotes: the first counts the bytes of the result, the
  second writes them into an arena buffer of that size. \<open>e\<close> is the index of the closing quote.
\<close>

function string_len :: "string \<Rightarrow> nat \<Rightarrow> nat \<Rightarrow> nat \<Rightarrow> nat" where
  "string_len p e i out_len =
     (if i < e then
        if p ! i = CHR 0x5C then
          let (cp, consumed) = parse_escape_seq (slice p (i + 1) (e - (i + 1)))
          in string_len p e (i + 1 + consumed) (out_len + utf8_encode_len cp)
        else string_len p e (i + 1) (out_len + 1)
      else out_len)"
  by pat_completeness auto
termination by (relation "measure (\<lambda>(p, e, i, n). e - i)") auto

declare string_len.simps [simp del]

function string_fill :: "string \<Rightarrow> nat \<Rightarrow> nat \<Rightarrow> string \<Rightarrow> nat \<Rightarrow> string result" where
  "string_fill p e i buf pos =
     (if i < e then
        if p ! i = CHR 0x5C then
          let (cp, consumed) = parse_escape_seq (slice p (i + 1) (e - (i + 1))); bytes = utf8_encode cp in
          if pos + length bytes > length buf then Inl (Undefined ''write past the buffer'')
          else string_fill p e (i + 1 + consumed) (blit buf pos bytes) (pos + length bytes)
        else if pos \<ge> length buf then Inl (Undefined ''write past the buffer'')
        else string_fill p e (i + 1) (blit buf pos [p ! i]) (pos + 1)
      else Inr buf)"
  by pat_completeness auto
termination by (relation "measure (\<lambda>(p, e, i, n, k). e - i)") auto

declare string_fill.simps [simp del]

definition parse_string_value :: "strslice \<Rightarrow> strslice result" where
  "parse_string_value txt =
     (if length txt < 2 \<or> txt ! 0 \<noteq> CHR 0x22 then Inr []
      else let e = 1 + (length txt - 2); out_len = string_len txt e 1 0 in
        if out_len = 0 then Inr []
        else string_fill txt e 1 (replicate out_len (CHR 0x00)) 0)"

definition parse_string_lit :: "parser \<Rightarrow> (lit \<times> parser) result" where
  "parse_string_lit p =
     (let tb = pr_pos p in
      if \<not> check_kind p TOKEN_TYPE_STRING then Inr (No_match, p\<lparr>pr_pos := tb\<rparr>)
      else let txt = token_strslice (cur_token p); p = snd (advance p) in
        (case parse_string_value txt of Inl f \<Rightarrow> Inl f
         | Inr resolved \<Rightarrow> Inr (String_lit tb (pr_pos p) resolved, p)))"

end
