(* ===== verification/LiteralProps.thy ===== *)
theory LiteralProps
  imports Literals
begin

text \<open>
  What the slices, the token cursor and the literals of the parser promise. Slices are lists of bytes
  in the order of \<open>strcmp\<close>; the cursor skips white space and comments and nothing else; the value of
  an integer literal is the number its digits write, modulo \<open>2 ^ 64\<close>; UTF-8 can be read back; and a
  string that is written as a literal is scanned and parsed back to itself.
\<close>


section \<open>Slices are strings with the order of their bytes\<close>

lemma memcmp_self: "memcmp s s n = 0"
  by (induction s arbitrary: n) (auto, metis memcmp.simps(1,4) not0_implies_Suc)

lemma memcmp_take: "n \<le> length a \<Longrightarrow> n \<le> length b \<Longrightarrow> memcmp a b n = 0 \<longleftrightarrow> take n a = take n b"
  by (induction a b n rule: memcmp.induct) (auto simp: of_char_int_eq le_Suc_eq)

lemma strslice_eq_iff: "strslice_eq a b \<longleftrightarrow> a = b"
  using memcmp_take [of "length a" a b] by (auto simp: strslice_eq_def)

lemma strslice_cmp_Cons:
  "strslice_cmp (c # cs) (d # ds) = (if c = d then strslice_cmp cs ds else of_char c - of_char d)"
  "strslice_cmp [] (d # ds) = - 1" "strslice_cmp (c # cs) [] = 1" "strslice_cmp [] [] = 0"
  by (auto simp: strslice_cmp_def Let_def of_char_int_eq)

lemma strslice_cmp_strcmp: "strslice_cmp a b = strcmp a b"
  by (induction a b rule: strcmp.induct) (simp_all add: strslice_cmp_Cons)

lemma strslice_starts_with_iff: "strslice_starts_with s p \<longleftrightarrow> prefix p s"
proof -
  have "length p \<le> length s \<Longrightarrow> memcmp s p (length p) = 0 \<longleftrightarrow> take (length p) s = p" using memcmp_take [of "length p" s p] by simp
  then show ?thesis by (auto simp: strslice_starts_with_def prefix_def) (metis append_take_drop_id)
qed

lemma strslice_ends_with_iff: "strslice_ends_with s p \<longleftrightarrow> suffix p s"
proof -
  have "length p \<le> length s \<Longrightarrow> memcmp (drop (length s - length p) s) p (length p) = 0 \<longleftrightarrow> drop (length s - length p) s = p"
    using memcmp_take [of "length p" "drop (length s - length p) s" p] by simp
  then show ?thesis by (auto simp: strslice_ends_with_def suffix_def) (metis append_take_drop_id)
qed

text \<open>Slices as an order for the containers.\<close>

interpretation slices: total_cmp strslice_cmp
  using strcmp_order [of id] by unfold_locales (simp add: strslice_cmp_strcmp [abs_def])

text \<open>
  Comparing slices is comparing C strings byte by byte as unsigned numbers, a total
  order whose equality is that of \<open>strslice_eq\<close>; prefixes, suffixes and sub-slices are those of lists.
\<close>

theorem strslice_correct:
  "strslice_cmp a b = strcmp a b \<and> (strslice_cmp a b = 0 \<longleftrightarrow> a = b) \<and> (strslice_eq a b \<longleftrightarrow> a = b) \<and>
   (strslice_cmp a b < 0 \<longleftrightarrow> 0 < strslice_cmp b a) \<and>
   (strslice_starts_with a b \<longleftrightarrow> prefix b a) \<and> (strslice_ends_with a b \<longleftrightarrow> suffix b a) \<and>
   strslice_substr a i n = take n (drop i a)"
proof -
  have "strslice_substr a i n = take n (drop i a)" by (auto simp: strslice_substr_def slice_def Let_def)
  moreover have "strslice_cmp a b < 0 \<longleftrightarrow> 0 < strslice_cmp b a" unfolding strslice_cmp_strcmp by (rule strcmp_flip)
  ultimately show ?thesis
    by (simp add: strslice_cmp_strcmp strcmp_0 strslice_eq_iff strslice_starts_with_iff strslice_ends_with_iff)
qed

section \<open>The token cursor\<close>

definition trivia :: "token \<Rightarrow> bool" where
  "trivia t \<longleftrightarrow> tk_kind t \<in> {TOKEN_TYPE_WHITESPACE, TOKEN_TYPE_COMMENT, TOKEN_TYPE_MULTILINE_COMMENT}"

lemma skip_trivia_pos:
  "skip_trivia p = p\<lparr>pr_pos := pr_pos p + length (takeWhile trivia (drop (pr_pos p) (pr_tokens p)))\<rparr>"
proof (induction p rule: skip_trivia.induct)
  case (1 p)
  show ?case
  proof (cases "pr_pos p < length (pr_tokens p)")
    case True
    then have d: "drop (pr_pos p) (pr_tokens p) = pr_tokens p ! pr_pos p # drop (Suc (pr_pos p)) (pr_tokens p)"
      by (simp add: Cons_nth_drop_Suc)
    show ?thesis
    proof (cases "trivia (pr_tokens p ! pr_pos p)")
      case t: True
      then have nt: "\<not> (tk_kind (pr_tokens p ! pr_pos p) \<noteq> TOKEN_TYPE_WHITESPACE \<and>
          tk_kind (pr_tokens p ! pr_pos p) \<noteq> TOKEN_TYPE_COMMENT \<and> tk_kind (pr_tokens p ! pr_pos p) \<noteq> TOKEN_TYPE_MULTILINE_COMMENT)"
        by (auto simp: trivia_def)
      have "skip_trivia p = skip_trivia (p\<lparr>pr_pos := pr_pos p + 1\<rparr>)"
        using True nt by (subst skip_trivia.simps) (auto simp: Let_def)
      moreover have "skip_trivia (p\<lparr>pr_pos := pr_pos p + 1\<rparr>) =
          p\<lparr>pr_pos := pr_pos p + 1 + length (takeWhile trivia (drop (pr_pos p + 1) (pr_tokens p)))\<rparr>"
        using "1.IH" [OF True refl] nt by simp
      ultimately show ?thesis using t d by simp
    next
      case False
      then show ?thesis using True by (subst skip_trivia.simps) (simp add: d trivia_def Let_def)
    qed
  next
    case False
    then show ?thesis by (subst skip_trivia.simps) simp
  qed
qed

section \<open>Integer literals\<close>

text \<open>The number a text writes, by its base.\<close>

definition number_value :: "string \<Rightarrow> int" where
  "number_value s = (let (base, ds) = scan_prefix s in
     foldl (\<lambda>a c. a * base + digit_value c) 0 (if base = 10 then s else ds))"

lemma digit_value_char: "base \<in> {2, 8, 10, 16} \<Longrightarrow> digit_char base c \<Longrightarrow> 0 \<le> digit_value c \<and> digit_value c < base"
  by (auto simp: digit_char_iff is_digit_in_base_def digit_value_def Let_def split: if_splits)

lemma int_digits_foldl:
  "base \<in> {2, 8, 10, 16} \<Longrightarrow> \<forall>c \<in> set ds. digit_char base c \<Longrightarrow>
   int_digits base ds (word_of_int a) = word_of_int (foldl (\<lambda>a c. a * base + digit_value c) a ds)"
proof (induction ds arbitrary: a)
  case (Cons c ds)
  have "0 \<le> digit_value c" "digit_value c < base" using digit_value_char [OF Cons.prems(1), of c] Cons.prems(2) by simp_all
  then show ?case using Cons.IH [of "a * base + digit_value c"] Cons.prems by (simp add: Let_def)
qed simp

lemma dropWhile_Nil: "dropWhile P xs = [] \<Longrightarrow> \<forall>x \<in> set xs. P x"
  by (induction xs) (auto split: if_splits)

lemma int_base_prefix: "int_base (c#w) = (fst (scan_prefix (c#w)), if fst (scan_prefix (c#w)) = 10 then 0 else 2)"
    by (cases w) (simp_all add: int_base_def scan_prefix_def Let_def)
lemma scan_prefix_base: "fst (scan_prefix s) \<in> {2, 8, 10, 16}" by (simp add: scan_prefix_def split: list.split)
lemma scan_prefix_drop: "fst (scan_prefix (c#w)) \<noteq> 10 \<Longrightarrow> drop 2 (c#w) = snd (scan_prefix (c#w))" by (cases w) (simp_all add: scan_prefix_def split: if_splits)
lemma int_base_dec: "int_base s = (10, 0) \<Longrightarrow> \<not> (length s \<ge> 2 \<and> s ! 0 = CHR ''0'' \<and> s ! 1 \<in> set ''xXoObB'')"
      by (auto simp: int_base_def Let_def split: if_splits)
lemma not_float: "s \<noteq> [] \<Longrightarrow> \<not> (length s \<ge> 2 \<and> s ! 0 = CHR ''0'' \<and> s ! 1 \<in> set ''xXoObB'') \<Longrightarrow> \<not> numeric_is_float s \<Longrightarrow> 
 \<not> (\<exists>x \<in> set s. x = CHR ''.'' \<or> x = CHR ''e'' \<or> x = CHR ''E'')"
  by (simp add: numeric_is_float_def list_ex_iff del: set_simps split: if_splits)
lemma scan_prefix_dec: "fst (scan_prefix (c#w)) = 10 \<Longrightarrow> snd (scan_prefix (c#w)) = w" by (cases w) (simp_all add: scan_prefix_def split: if_splits)

lemma scan_fraction_other: "(\<And>x xs. r = x # xs \<Longrightarrow> x \<noteq> CHR ''.'') \<Longrightarrow> scan_fraction r = Some r"
  by (cases r) (simp_all add: scan_fraction_def)

lemma scan_exponent_other:
  "(\<And>x xs. r = x # xs \<Longrightarrow> x \<noteq> CHR ''e'') \<Longrightarrow> (\<And>x xs. r = x # xs \<Longrightarrow> x \<noteq> CHR ''E'') \<Longrightarrow> scan_exponent r = Some r"
  by (cases r) (simp_all add: scan_exponent_def)

lemma scan_number_digits:
  assumes "scan_number s = Some []" and "\<not> numeric_is_float s" and "s \<noteq> []" and "digit_char 10 (hd s)"
  shows "int_base s = (fst (scan_prefix s), if fst (scan_prefix s) = 10 then 0 else 2)"
    and "\<forall>c \<in> set (if fst (scan_prefix s) = 10 then s else snd (scan_prefix s)). digit_char (fst (scan_prefix s)) c"
    and "fst (scan_prefix s) \<in> {2, 8, 10, 16}"
    and "fst (scan_prefix s) \<noteq> 10 \<Longrightarrow> drop 2 s = snd (scan_prefix s)"
proof -
  obtain base t where bt: "scan_prefix s = (base, t)" by fastforce
  obtain c w where s: "s = c # w" using assms(3) by (cases s) auto
  show "fst (scan_prefix s) \<in> {2, 8, 10, 16}" by (rule scan_prefix_base)
  show ib: "int_base s = (fst (scan_prefix s), if fst (scan_prefix s) = 10 then 0 else 2)"
    unfolding s by (rule int_base_prefix)
  show "fst (scan_prefix s) \<noteq> 10 \<Longrightarrow> drop 2 s = snd (scan_prefix s)"
    unfolding s by (rule scan_prefix_drop)
  show "\<forall>c \<in> set (if fst (scan_prefix s) = 10 then s else snd (scan_prefix s)). digit_char (fst (scan_prefix s)) c"
  proof (cases "base = 10")
    case False
    then have "dropWhile (digit_char base) t = []" using assms(1) by (simp add: scan_number_def bt Let_def split: if_splits)
    then show ?thesis using dropWhile_Nil False by (auto simp: bt)
  next
    case True
    then have "int_base s = (10, 0)" using ib bt by simp
    then have nofloat: "\<not> (\<exists>x \<in> set s. x = CHR ''.'' \<or> x = CHR ''e'' \<or> x = CHR ''E'')"
      by (rule not_float [OF assms(3) int_base_dec assms(2)])
    have t: "t = w" using scan_prefix_dec [of c w] bt [unfolded s] True by simp
    let ?r = "dropWhile (digit_char 10) w"
    have sub: "set ?r \<subseteq> set s" unfolding s by (auto dest: set_dropWhileD)
    have hd: "x \<noteq> CHR ''.'' \<and> x \<noteq> CHR ''e'' \<and> x \<noteq> CHR ''E''" if "?r = x # xs" for x xs
    proof -
      have "x \<in> set s" using sub that by (simp add: subset_iff)
      then show ?thesis using nofloat by blast
    qed
    have "scan_fraction ?r = Some ?r" by (rule scan_fraction_other) (drule hd, blast)+
    moreover have "scan_exponent ?r = Some ?r" by (rule scan_exponent_other) (drule hd, blast)+
    ultimately have "?r = []" using assms(1) True by (simp add: scan_number_def bt t Let_def)
    then have "\<forall>x \<in> set w. digit_char 10 x" by (rule dropWhile_Nil)
    moreover have "digit_char 10 c" using assms(4) unfolding s by simp
    ultimately have "\<forall>x \<in> set s. digit_char 10 x" unfolding s by simp
    then show ?thesis by (simp add: bt True)
  qed
qed

lemma parse_int_value_number:
  assumes "scan_number s = Some []" and "\<not> numeric_is_float s" and "s \<noteq> []" and "digit_char 10 (hd s)"
  shows "parse_int_value s = word_of_int (number_value s)"
proof -
  note d = scan_number_digits [OF assms]
  obtain base t where bt: "scan_prefix s = (base, t)" by fastforce
  show ?thesis
    using d int_digits_foldl [of base "if base = 10 then s else t" 0]
    by (cases "base = 10") (simp_all add: parse_int_value_def number_value_def bt)
qed

unbundle bit_operations_syntax

section \<open>UTF-8\<close>

text \<open>A decoder of one sequence: the code point and the bytes after it.\<close>

definition cont :: "char \<Rightarrow> nat option" where
  "cont c = (if of_char c div 64 = (2::nat) then Some (of_char c mod 64) else None)"

fun conts :: "nat \<Rightarrow> nat \<Rightarrow> string \<Rightarrow> (nat \<times> string) option" where
  "conts 0 v s = Some (v, s)"
| "conts (Suc n) v [] = None"
| "conts (Suc n) v (c # s) = (case cont c of None \<Rightarrow> None | Some d \<Rightarrow> conts n (v * 64 + d) s)"

definition utf8_decode :: "string \<Rightarrow> (nat \<times> string) option" where
  "utf8_decode s = (case s of [] \<Rightarrow> None | c # s \<Rightarrow>
     let b = of_char c :: nat in
     if b < 128 then Some (b, s)
     else if b div 32 = 6 then conts 1 (b mod 32) s
     else if b div 16 = 14 then conts 2 (b mod 16) s
     else if b div 8 = 30 then conts 3 (b mod 8) s
     else None)"

lemma or_push_bit: 
  fixes x :: nat
  shows "x < 2 ^ n \<Longrightarrow> push_bit n k OR x = push_bit n k + x"
  by (rule disjunctive_add [symmetric]) (metis bit_push_bit_iff_nat bit_take_bit_iff linorder_not_le take_bit_nat_eq_self)

lemma of_char_byte: "(of_char (byte w) :: nat) = unat w mod 256"
  by (simp add: byte_def)

lemma and_63: "(x :: nat) AND 63 = x mod 64"
  using take_bit_eq_mask [of 6 x] by (simp add: take_bit_eq_mod mask_eq_exp_minus_1)

lemma byte_tail: "(of_char (byte (0x80 OR (w AND 0x3F))) :: nat) = 128 + unat w mod 64"
proof -
  have "unat (0x80 OR (w AND 0x3F)) = push_bit 6 2 OR (unat w mod 64)"
    by (simp add: unsigned_or_eq unsigned_and_eq and_63)
  also have "\<dots> = 128 + unat w mod 64" by (subst or_push_bit) simp_all
  finally show ?thesis by (simp add: of_char_byte)
qed

lemma byte_lead:
  "unat w < 32 \<Longrightarrow> (of_char (byte (0xC0 OR w)) :: nat) = 192 + unat w"
  "unat w < 16 \<Longrightarrow> (of_char (byte (0xE0 OR w)) :: nat) = 224 + unat w"
  "unat w < 8 \<Longrightarrow> (of_char (byte (0xF0 OR w)) :: nat) = 240 + unat w"
  using or_push_bit [of "unat w" 5 6] or_push_bit [of "unat w" 4 14] or_push_bit [of "unat w" 3 30]
  by (simp_all add: of_char_byte unsigned_or_eq)

lemma unat_drop: "unat (drop_bit n (cp :: 32 word)) = unat cp div 2 ^ n"
proof -
  have "unat cp < 2 ^ LENGTH(32)" by (rule unsigned_less)
  then show ?thesis unfolding unsigned_drop_bit_eq by (simp add: drop_bit_eq_div take_bit_nat_eq_self del: take_bit_nat_less_exp)
qed

lemma mult_add_split: "(x :: nat) < n \<Longrightarrow> (k * n + x) div n = k \<and> (k * n + x) mod n = x"
  by simp

lemma lead_split:
  "(x :: nat) < 32 \<Longrightarrow> (192 + x) div 32 = 6 \<and> (192 + x) mod 32 = x"
  "(x :: nat) < 16 \<Longrightarrow> (224 + x) div 32 = 7 \<and> (224 + x) div 16 = 14 \<and> (224 + x) mod 16 = x"
  "(x :: nat) < 8 \<Longrightarrow> (240 + x) div 32 = 7 \<and> (240 + x) div 16 = 15 \<and> (240 + x) div 8 = 30 \<and> (240 + x) mod 8 = x"
  "(x :: nat) < 64 \<Longrightarrow> (128 + x) div 64 = 2 \<and> (128 + x) mod 64 = x"
  using mult_add_split [of x 32 6] mult_add_split [of x 32 7] mult_add_split [of x 16 14] mult_add_split [of "x + 16" 32 7]
    mult_add_split [of x 16 15] mult_add_split [of x 8 30] mult_add_split [of x 64 2]
  by simp_all

lemma cont_tail: "cont (byte (0x80 OR (w AND 0x3F))) = Some (unat w mod 64)"
  using lead_split(4) [of "unat w mod 64"] by (simp add: cont_def byte_tail)

lemma sextets:
  "(n :: nat) div 64 * 64 + n mod 64 = n"
  "(n div 4096 * 64 + n div 64 mod 64) * 64 + n mod 64 = n"
  "((n div 262144 * 64 + n div 4096 mod 64) * 64 + n div 64 mod 64) * 64 + n mod 64 = n"
proof -
  have a: "n div 4096 = n div 64 div 64" "n div 262144 = n div 4096 div 64" by (simp_all flip: div_mult2_eq)
  show "n div 64 * 64 + n mod 64 = n" by (rule div_mult_mod_eq)
  show b: "(n div 4096 * 64 + n div 64 mod 64) * 64 + n mod 64 = n" unfolding a(1) by (simp only: div_mult_mod_eq)
  show "((n div 262144 * 64 + n div 4096 mod 64) * 64 + n div 64 mod 64) * 64 + n mod 64 = n"
    unfolding a(2) using b by (simp only: div_mult_mod_eq)
qed

lemma utf8_decode_sequence:
  "(of_char a :: nat) < 128 \<Longrightarrow> utf8_decode (a # r) = Some (of_char a, r)"
  "x < 32 \<Longrightarrow> of_char a = 192 + x \<Longrightarrow> cont b = Some y \<Longrightarrow> utf8_decode (a # b # r) = Some (x * 64 + y, r)"
  "x < 16 \<Longrightarrow> of_char a = 224 + x \<Longrightarrow> cont b = Some y \<Longrightarrow> cont c = Some z \<Longrightarrow>
   utf8_decode (a # b # c # r) = Some ((x * 64 + y) * 64 + z, r)"
  "x < 8 \<Longrightarrow> of_char a = 240 + x \<Longrightarrow> cont b = Some y \<Longrightarrow> cont c = Some z \<Longrightarrow> cont d = Some u \<Longrightarrow>
   utf8_decode (a # b # c # d # r) = Some (((x * 64 + y) * 64 + z) * 64 + u, r)"
  using lead_split(1-3) [of x] by (simp_all add: utf8_decode_def Let_def numeral_2_eq_2 numeral_3_eq_3)

lemma utf8_roundtrip:
  assumes "unat cp < 2 ^ 21"
  shows "utf8_decode (utf8_encode cp @ r) = Some (unat cp, r)"
proof -
  note c = cont_tail [of "cp"] cont_tail [of "drop_bit 6 cp"] cont_tail [of "drop_bit 12 cp"]
  note less = word_less_nat_alt [of cp]
  consider "unat cp < 0x80" | "0x80 \<le> unat cp" "unat cp < 0x800" | "0x800 \<le> unat cp" "unat cp < 0x10000" | "0x10000 \<le> unat cp" by linarith
  then show ?thesis
  proof cases
    case 1
    then have "cp < 0x80" by (simp add: less)
    then have "utf8_encode cp = [byte cp]" by (simp only: utf8_encode_def if_True)
    moreover have "(of_char (byte cp) :: nat) = unat cp" using 1 by (simp add: of_char_byte)
    ultimately show ?thesis using utf8_decode_sequence(1) [of "byte cp" r] 1 by simp
  next
    case 2
    have x: "unat cp div 64 < 32" using 2 by linarith
    then have l: "(of_char (byte (0xC0 OR drop_bit 6 cp)) :: nat) = 192 + unat cp div 64"
      using byte_lead(1) [of "drop_bit 6 cp"] by (simp add: unat_drop)
    have "\<not> cp < 0x80" "cp < 0x800" using 2 by (simp_all add: less)
    then have "utf8_encode cp = [byte (0xC0 OR drop_bit 6 cp), byte (0x80 OR (cp AND 0x3F))]"
      by (simp only: utf8_encode_def if_True if_False)
    then show ?thesis using utf8_decode_sequence(2) [OF x l c(1), of r] by (simp only: append.simps sextets)
  next
    case 3
    have x: "unat cp div 4096 < 16" using 3 by linarith
    then have l: "(of_char (byte (0xE0 OR drop_bit 12 cp)) :: nat) = 224 + unat cp div 4096"
      using byte_lead(2) [of "drop_bit 12 cp"] by (simp add: unat_drop)
    have u: "unat (drop_bit 6 cp) = unat cp div 64" by (simp add: unat_drop)
    have "\<not> cp < 0x80" "\<not> cp < 0x800" "cp < 0x10000" using 3 by (simp_all add: less)
    then have "utf8_encode cp = [byte (0xE0 OR drop_bit 12 cp), byte (0x80 OR (drop_bit 6 cp AND 0x3F)), byte (0x80 OR (cp AND 0x3F))]"
      by (simp only: utf8_encode_def if_True if_False)
    then show ?thesis using utf8_decode_sequence(3) [OF x l c(2,1), of r] by (simp only: append.simps u sextets)
  next
    case 4
    have x: "unat cp div 262144 < 8" using assms by simp
    then have l: "(of_char (byte (0xF0 OR drop_bit 18 cp)) :: nat) = 240 + unat cp div 262144"
      using byte_lead(3) [of "drop_bit 18 cp"] by (simp add: unat_drop)
    have u: "unat (drop_bit 6 cp) = unat cp div 64" "unat (drop_bit 12 cp) = unat cp div 4096" by (simp_all add: unat_drop)
    have "\<not> cp < 0x80" "\<not> cp < 0x800" "\<not> cp < 0x10000" using 4 by (simp_all add: less)
    then have "utf8_encode cp = [byte (0xF0 OR drop_bit 18 cp), byte (0x80 OR (drop_bit 12 cp AND 0x3F)), byte (0x80 OR (drop_bit 6 cp AND 0x3F)), byte (0x80 OR (cp AND 0x3F))]"
      by (simp only: utf8_encode_def if_True if_False)
    then show ?thesis using utf8_decode_sequence(4) [OF x l c(3,2,1), of r] by (simp only: append.simps u sextets)
  qed
qed

lemma utf8_length: "length (utf8_encode cp) = utf8_encode_len cp"
  by (simp add: utf8_encode_def utf8_encode_len_def)

unbundle bit_operations_syntax

section \<open>String literals\<close>

text \<open>The string that the text between the quotes stands for.\<close>

function expand :: "string \<Rightarrow> string" where
  "expand [] = []"
| "expand (c # cs) =
     (if c = CHR 0x5C then utf8_encode (fst (parse_escape_seq cs)) @ expand (drop (snd (parse_escape_seq cs)) cs)
      else c # expand cs)"
  by pat_completeness auto
termination by (relation "measure length") auto

definition quote :: "string \<Rightarrow> string" where
  "quote s = CHR 0x22 # s @ [CHR 0x22]"

lemma escape_consumes: "snd (parse_escape_seq cs) \<le> length cs"
  by (cases cs) (simp_all add: parse_escape_seq_def)

lemma blit_fill: "length a = n \<Longrightarrow> m = length xs + k \<Longrightarrow> blit (a @ replicate m z) n xs = (a @ xs) @ replicate k z"
  by (simp add: blit_def)

lemma string_passes:
  assumes "q = CHR 0x22 # pre @ s @ [CHR 0x22]" and "i = 1 + length pre" and "e = i + length s"
  shows "string_len q e i n = n + length (expand s)"
    and "length out = n \<Longrightarrow> string_fill q e i (out @ replicate (length (expand s)) z) n = Inr (out @ expand s)"
proof -
  have "string_len q e i n = n + length (expand s) \<and>
    (length out = n \<longrightarrow> string_fill q e i (out @ replicate (length (expand s)) z) n = Inr (out @ expand s))"
    using assms
  proof (induction s arbitrary: pre i n out rule: expand.induct)
    case 1
    then show ?case by (simp add: string_len.simps string_fill.simps)
  next
    case (2 c cs)
    have q: "q ! i = c" "i < e" using 2 by (simp_all add: nth_append)
    have rest: "slice q (i + 1) (e - (i + 1)) = cs" using 2(3-5) by (simp add: slice_def)
    show ?case
    proof (cases "c = CHR 0x5C")
      case True
      obtain cp k where esc: "parse_escape_seq cs = (cp, k)" by fastforce
      have k: "k \<le> length cs" using escape_consumes [of cs] esc by simp
      have IH: "string_len q e (i + 1 + k) (n + utf8_encode_len cp) = n + utf8_encode_len cp + length (expand (drop k cs))"
        "string_fill q e (i + 1 + k) ((out @ utf8_encode cp) @ replicate (length (expand (drop k cs))) z) (n + length (utf8_encode cp)) =
         Inr ((out @ utf8_encode cp) @ expand (drop k cs))" if "length out = n" for out
        using "2.IH"(1) [OF True, of "pre @ c # take k cs" "i + 1 + k" "n + utf8_encode_len cp" "out @ utf8_encode cp"] 2(3-5) k that
        by (simp_all add: esc utf8_length)
      have "string_len q e i n = n + length (expand (c # cs))"
        using IH(1) [of "replicate n z"] q True rest by (subst string_len.simps) (simp add: esc utf8_length)
      moreover have "string_fill q e i (out @ replicate (length (expand (c # cs))) z) n = Inr (out @ expand (c # cs))" if o: "length out = n"
      proof -
        have "blit (out @ replicate (length (expand (c # cs))) z) n (utf8_encode cp) =
            (out @ utf8_encode cp) @ replicate (length (expand (drop k cs))) z"
          using o True by (intro blit_fill) (simp_all add: esc)
        then show ?thesis using IH(2) [OF o] o q True rest by (subst string_fill.simps) (simp add: esc)
      qed
      ultimately show ?thesis by blast
    next
      case False
      have IH: "string_len q e (i + 1) (n + 1) = n + 1 + length (expand cs)"
        "string_fill q e (i + 1) ((out @ [c]) @ replicate (length (expand cs)) z) (n + 1) = Inr ((out @ [c]) @ expand cs)"
        if "length out = n" for out
        using "2.IH"(2) [OF False, of "pre @ [c]" "i + 1" "n + 1" "out @ [c]"] 2(3-5) that by simp_all
      have "string_len q e i n = n + length (expand (c # cs))"
        using IH(1) [of "replicate n z"] q False by (subst string_len.simps) simp
      moreover have "string_fill q e i (out @ replicate (length (expand (c # cs))) z) n = Inr (out @ expand (c # cs))" if o: "length out = n"
      proof -
        have "blit (out @ replicate (length (expand (c # cs))) z) n [c] = (out @ [c]) @ replicate (length (expand cs)) z"
          using o q False by (intro blit_fill) simp_all
        then show ?thesis using IH(2) [OF o] o q False by (subst string_fill.simps) simp
      qed
      ultimately show ?thesis by blast
    qed
  qed
  then show "string_len q e i n = n + length (expand s)"
    and "length out = n \<Longrightarrow> string_fill q e i (out @ replicate (length (expand s)) z) n = Inr (out @ expand s)" by blast+
qed

lemma parse_string_value_quote: "parse_string_value (quote s) = Inr (expand s)"
  using string_passes(1) [where q = "quote s" and pre = "[]" and s = s and i = 1 and e = "1 + length s" and n = 0]
    string_passes(2) [where q = "quote s" and pre = "[]" and s = s and i = 1 and e = "1 + length s" and n = 0 and out = "[]" and z = "CHR 0x00"]
  by (simp add: parse_string_value_def quote_def Let_def)

text \<open>A writer of literals: quotes, backslashes, line ends and NUL are escaped, all other bytes stand for themselves.\<close>

definition escape_char :: "char \<Rightarrow> string" where
  "escape_char c =
     (if c = CHR 0x22 \<or> c = CHR 0x5C then [CHR 0x5C, c]
      else if c = CHR 0x0A then [CHR 0x5C, CHR ''n''] else if c = CHR 0x0D then [CHR 0x5C, CHR ''r'']
      else if c = CHR 0x00 then [CHR 0x5C, CHR ''0''] else [c])"

definition escape :: "string \<Rightarrow> string" where
  "escape s = concat (map escape_char s)"

lemma expand_escape_char: "expand (escape_char c @ s) = c # expand s"
proof -
  have e: "utf8_encode 34 = [CHR 0x22]" "utf8_encode 92 = [CHR 0x5C]" "utf8_encode 10 = [CHR 0x0A]" "utf8_encode 13 = [CHR 0x0D]"
    "utf8_encode 0 = [CHR 0x00]" by code_simp+
  show ?thesis by (simp add: escape_char_def parse_escape_seq_def e)
qed

lemma expand_escape: "expand (escape s) = s"
  by (induction s) (simp_all add: escape_def expand_escape_char)

lemma scan_escape: "scan_body (escape s @ CHR 0x22 # r) = Some r"
proof (induction s)
  case (Cons c s)
  have "scan_body (escape_char c @ x) = scan_body x" for x
    by (simp add: escape_char_def is_simple_escape_def)
  then show ?case using Cons by (simp add: escape_def)
qed (simp add: escape_def)

text \<open>
  C20 (roundtrip). A string written as a literal, with its quotes, backslashes, line ends and NUL bytes
  escaped, is scanned as one string token, whatever follows it, and the value that the parser gives
  that token is the string.
\<close>

theorem string_literal_roundtrip:
  assumes "icu_ok icu" and "\<not> id_start icu 34" and "lx_ok lx" and "lx_rest lx = quote (escape s) @ r"
  shows "\<exists>t lx'. lexer_next icu lx = Some (t, lx') \<and> tk_kind t = TOKEN_TYPE_STRING \<and> lx_rest lx' = r \<and>
    tk_text t = quote (escape s) \<and> parse_string_value (tk_text t) = Inr s"
proof -
  let ?w = "escape s @ CHR 0x22 # r"
  have w: "lx_rest lx = CHR 0x22 # ?w" using assms(4) by (simp add: quote_def)
  obtain t lx' where n: "lexer_next icu lx = Some (t, lx')" "token_spec icu (lx_rest lx) t (lx_rest lx')" "good lx t lx'"
    using next_token [OF assms(1,3)] w by auto
  have "fst (dec icu (lx_rest lx)) = 34" using dec_char_iff [OF assms(1), of "CHR 0x22" "lx_rest lx"] w by (simp add: high_def)
  then have "\<not> starts_word icu (lx_rest lx)" using assms(2) by (simp add: starts_word_iff is_ident_start_cp_def)
  then have k: "tk_kind t = TOKEN_TYPE_STRING \<and> lx_rest lx' = r"
    using n(2) scan_escape [of s r] unfolding w by (simp add: token_spec_def blank_def digit_char_iff is_digit_in_base_def)
  then have "tk_text t @ r = lx_rest lx" using n(3) by (auto simp: good_def eats_def)
  then have "tk_text t = quote (escape s)" using w by (simp add: quote_def)
  then show ?thesis using n(1) k by (simp add: parse_string_value_quote expand_escape)
qed


theorem string_literal_roundtrip_witness:
  "\<exists>t lx'. lexer_next latin_icu (lexer_create latin_icu (istream_open \<lparr>ms_data = quote (escape [CHR ''a'', CHR 0x22, CHR 0x0A]) @ '';'', ms_pos = 0\<rparr>) ''f'') = Some (t, lx') \<and>
     parse_string_value (tk_text t) = Inr [CHR ''a'', CHR 0x22, CHR 0x0A]"
proof -
  let ?d = "quote (escape [CHR ''a'', CHR 0x22, CHR 0x0A]) @ '';''"
  have "length ?d < 2 ^ 31" "\<not> has_bom ?d" by (simp_all add: quote_def escape_def escape_char_def has_bom_def)
  then have "lx_ok (lexer_create latin_icu (istream_open \<lparr>ms_data = ?d, ms_pos = 0\<rparr>) ''f'')"
    "lx_rest (lexer_create latin_icu (istream_open \<lparr>ms_data = ?d, ms_pos = 0\<rparr>) ''f'') = ?d"
    using create_ok [OF latin_icu_ok, of ?d "''f''"] by simp_all
  moreover have "\<not> id_start latin_icu 34" by (simp add: latin_icu_def)
  ultimately show ?thesis using string_literal_roundtrip [OF latin_icu_ok] by blast
qed

text \<open>
  C21 (error). A \<open>\x\<close> escape with one digit, which the lexer accepts, loses a character: the
  parser always takes two, so that the character after the digit disappears from the value; at the
  end of the literal the escape is a NUL byte and the digit stays.
\<close>

theorem short_hex_escape:
  assumes "hex_char h" and "\<not> hex_char g" and "g \<notin> {CHR 0x22, CHR 0x5C, CHR 0x0A, CHR 0x0D}"
  shows "scan_body ([CHR 0x5C, CHR ''x'', h, g] @ s @ CHR 0x22 # r) = scan_body (s @ CHR 0x22 # r) \<and>
    parse_string_value (quote ([CHR 0x5C, CHR ''x'', h, g] @ s)) = Inr (utf8_encode (word_of_int (digit_value h)) @ expand s) \<and>
    parse_string_value (quote [CHR 0x5C, CHR ''x'', h]) = Inr [CHR 0x00, h]"
proof (intro conjI)
  have d: "digit_value c < 0 \<longleftrightarrow> \<not> hex_char c" for c
    by (auto simp: digit_value_def hex_char_iff is_hex_digit_def Let_def)
  have nul: "utf8_encode 0 = [CHR 0x00]" by code_simp
  have h: "h \<noteq> CHR 0x5C" using assms(1) by (auto simp: hex_char_iff is_hex_digit_def)
  show "scan_body ([CHR 0x5C, CHR ''x'', h, g] @ s @ CHR 0x22 # r) = scan_body (s @ CHR 0x22 # r)"
    using assms(1,3) by simp
  show "parse_string_value (quote ([CHR 0x5C, CHR ''x'', h, g] @ s)) = Inr (utf8_encode (word_of_int (digit_value h)) @ expand s)"
    using assms(1,2) d [of h] d [of g] by (simp add: parse_string_value_quote parse_escape_seq_def numeral_2_eq_2 Let_def)
  show "parse_string_value (quote [CHR 0x5C, CHR ''x'', h]) = Inr [CHR 0x00, h]"
    using h by (simp add: parse_string_value_quote parse_escape_seq_def nul)
qed

theorem short_hex_escape_witness:
  "parse_string_value (quote ([CHR 0x5C, CHR ''x'', CHR ''4'', CHR ''g''] @ ''!'')) = Inr [CHR 0x04, CHR ''!'']"
proof -
  have "hex_char CHR ''4''" "\<not> hex_char CHR ''g''" by code_simp+
  moreover have "utf8_encode (word_of_int (digit_value CHR ''4'')) @ expand ''!'' = [CHR 0x04, CHR ''!'']" by code_simp
  ultimately show ?thesis using short_hex_escape [of "CHR ''4''" "CHR ''g''" "''!''"] by simp
qed

text \<open>
  C22 (roundtrip). The UTF-8 encoding of a code point, with anything after it, decodes to the code
  point, and has the length the first pass counted for it.
\<close>

theorem utf8_encode_correct:
  assumes "cp < 0x200000"
  shows "utf8_decode (utf8_encode cp @ r) = Some (unat cp, r) \<and> length (utf8_encode cp) = utf8_encode_len cp"
  using utf8_roundtrip [of cp r] assms by (simp add: word_less_nat_alt utf8_length)

theorem utf8_encode_correct_witness:
  "utf8_decode (utf8_encode 0x20AC @ ''x'') = Some (0x20AC, ''x'') \<and> length (utf8_encode 0x20AC) = 3"
proof -
  have "utf8_encode_len 0x20AC = 3" by code_simp
  then show ?thesis using utf8_encode_correct [of "0x20AC" "''x''"] by simp
qed

section \<open>Integer literals in the token stream\<close>

text \<open>The index of the first token at or after \<open>i\<close> that is neither white space nor a comment.\<close>

definition after_trivia :: "token list \<Rightarrow> nat \<Rightarrow> nat" where
  "after_trivia ts i = i + length (takeWhile trivia (drop i ts))"

lemma after_trivia_bound: "ts \<noteq> [] \<Longrightarrow> \<not> trivia (last ts) \<Longrightarrow> i < length ts \<Longrightarrow> after_trivia ts i < length ts"
proof -
  assume a: "ts \<noteq> []" "\<not> trivia (last ts)" "i < length ts"
  then have "drop i ts \<noteq> []" "\<not> trivia (last (drop i ts))" by simp_all
  then have "last (drop i ts) \<in> set (drop i ts)" "\<not> trivia (last (drop i ts))" by (simp_all del: last_drop)
  then have "length (takeWhile trivia (drop i ts)) \<noteq> length (drop i ts)" by (metis takeWhile_eq_all_conv takeWhile_eq_take take_all_iff order_refl)
  then show ?thesis using a length_takeWhile_le [of trivia "drop i ts"] by (simp add: after_trivia_def)
qed


text \<open>A token with a kind and a text; its place does not matter here.\<close>

definition tok :: "token_kind \<Rightarrow> string \<Rightarrow> token" where
  "tok k s = (let q = \<lparr>ps_offset = 0, ps_column = 1, ps_line = 1\<rparr>
     in (create_token k \<lparr>lc_begin = q, lc_end = q, lc_filename = ''f''\<rparr>)\<lparr>tk_text := s\<rparr>)"

lemma tok_simps: "tk_kind (tok k s) = k" "tk_text (tok k s) = s"
  by (simp_all add: tok_def create_token_def Let_def)


end
