(* ===== verification/Values.thy ===== *)
theory Values
  imports Prelude "HOL-Library.Signed_Division"
begin

text \<open>
  The scalar values of the compile-time evaluator: integers, booleans and floats with their
  qualified types (\<open>src/vm/value.c\<close>, \<open>type.c\<close>, \<open>type_int.c\<close>, \<open>type_bool.c\<close>, \<open>type_float.c\<close>,
  \<open>type_const.c\<close>, \<open>type_volatile.c\<close>). The same functions run on shadow values, which carry a type and
  no data: that run is the type checker of expressions. A value is its type and its data block, a
  list of bytes in little-endian order; a read past the block is undefined. The virtual tables are
  functions from an operator to a slot. Floating-point arithmetic is that of the machine and a
  parameter: \<open>fpu\<close> lists the operations on the bits of a \<open>double\<close>. Pointers are eight bytes wide.
  The message of an error value is a field of its own; the scope a value is tracked in and the
  allocator are not modelled.
\<close>

unbundle bit_operations_syntax

section \<open>Results\<close>

definition and_then :: "'a result \<Rightarrow> ('a \<Rightarrow> 'b result) \<Rightarrow> 'b result" where
  "and_then r f = (case r of Inl e \<Rightarrow> Inl e | Inr x \<Rightarrow> f x)"

lemma and_then_simps [simp]: "and_then (Inl e) f = Inl e" "and_then (Inr x) f = f x"
  by (simp_all add: and_then_def)

section \<open>Types\<close>

datatype scalar = I8 | I16 | I32 | I64 | U8 | U16 | U32 | U64 | Usize | F32 | F64 | Boolean | Error

datatype ty = Scalar scalar | Const ty | Volatile ty

fun scalar_size :: "scalar \<Rightarrow> nat" where
  "scalar_size I8 = 1" | "scalar_size I16 = 2" | "scalar_size I32 = 4" | "scalar_size I64 = 8"
| "scalar_size U8 = 1" | "scalar_size U16 = 2" | "scalar_size U32 = 4" | "scalar_size U64 = 8" | "scalar_size Usize = 8"
| "scalar_size F32 = 4" | "scalar_size F64 = 8" | "scalar_size Boolean = 1" | "scalar_size Error = 16"

text \<open>A qualified type has the layout of the type under it.\<close>

fun type_size :: "ty \<Rightarrow> nat" where
  "type_size (Scalar s) = scalar_size s"
| "type_size (Const t) = type_size t"
| "type_size (Volatile t) = type_size t"

fun type_qualifier_sub :: "ty \<Rightarrow> ty option" where
  "type_qualifier_sub (Scalar s) = None"
| "type_qualifier_sub (Const t) = Some t"
| "type_qualifier_sub (Volatile t) = Some t"

fun type_has_const :: "ty \<Rightarrow> bool" where
  "type_has_const (Scalar s) = False"
| "type_has_const (Const t) = True"
| "type_has_const (Volatile t) = type_has_const t"

definition is_signed_int :: "ty \<Rightarrow> bool" where
  "is_signed_int t \<longleftrightarrow> t = Scalar I8 \<or> t = Scalar I16 \<or> t = Scalar I32 \<or> t = Scalar I64"

definition is_unsigned_int :: "ty \<Rightarrow> bool" where
  "is_unsigned_int t \<longleftrightarrow> t = Scalar U8 \<or> t = Scalar U16 \<or> t = Scalar U32 \<or> t = Scalar U64 \<or> t = Scalar Usize"

definition is_int_type :: "ty \<Rightarrow> bool" where
  "is_int_type t \<longleftrightarrow> is_signed_int t \<or> is_unsigned_int t"

definition is_float_type :: "ty \<Rightarrow> bool" where
  "is_float_type t \<longleftrightarrow> t = Scalar F32 \<or> t = Scalar F64"

datatype type_cat = CAT_NONE | CAT_BOOL | CAT_SINT | CAT_UINT | CAT_FLOAT

definition type_category :: "ty \<Rightarrow> type_cat" where
  "type_category t =
     (if t = Scalar Boolean then CAT_BOOL else if is_signed_int t then CAT_SINT
      else if is_unsigned_int t then CAT_UINT else if is_float_type t then CAT_FLOAT else CAT_NONE)"

fun type_rank_val :: "ty \<Rightarrow> int" where
  "type_rank_val (Scalar Boolean) = 0"
| "type_rank_val (Scalar I8) = 1" | "type_rank_val (Scalar U8) = 2"
| "type_rank_val (Scalar I16) = 3" | "type_rank_val (Scalar U16) = 4"
| "type_rank_val (Scalar I32) = 5" | "type_rank_val (Scalar U32) = 6"
| "type_rank_val (Scalar I64) = 7" | "type_rank_val (Scalar U64) = 8" | "type_rank_val (Scalar Usize) = 9"
| "type_rank_val (Scalar F32) = 10" | "type_rank_val (Scalar F64) = 11"
| "type_rank_val _ = - 1"

definition type_promote :: "ty \<Rightarrow> ty \<Rightarrow> ty option" where
  "type_promote a b =
     (if a = b then Some a
      else let ca = type_category a; cb = type_category b in
        if ca = CAT_NONE \<or> cb = CAT_NONE then None
        else if ca \<noteq> cb then None
        else if ca = CAT_UINT \<and> (a = Scalar Usize \<or> b = Scalar Usize) \<and>
                type_size (if a = Scalar Usize then b else a) = type_size (Scalar Usize) then Some (Scalar Usize)
        else if type_rank_val a \<ge> type_rank_val b then Some a else Some b)"

text \<open>Scalar types are equal when they are the same; a qualified type extends what is under it.\<close>

definition type_equal :: "ty \<Rightarrow> ty \<Rightarrow> bool" where
  "type_equal a b \<longleftrightarrow> a = b"

fun type_extends :: "ty \<Rightarrow> ty \<Rightarrow> bool" where
  "type_extends (Scalar s) u = (if Scalar s = u then True else type_equal (Scalar s) u)"
| "type_extends (Const t) u = (if Const t = u then True else type_extends t u)"
| "type_extends (Volatile t) u = (if Volatile t = u then True else type_extends t u)"

section \<open>Values and their bytes\<close>

record vm_value =
  v_type :: ty
  v_data :: "8 word list"
  v_shadow :: bool
  v_message :: string

definition value_make :: "ty \<Rightarrow> 8 word list \<Rightarrow> vm_value" where
  "value_make t d = \<lparr>v_type = t, v_data = d, v_shadow = False, v_message = []\<rparr>"

definition value_make_shadow :: "ty \<Rightarrow> vm_value" where
  "value_make_shadow t = \<lparr>v_type = t, v_data = [], v_shadow = True, v_message = []\<rparr>"

definition value_make_error :: "string \<Rightarrow> vm_value" where
  "value_make_error msg = \<lparr>v_type = Scalar Error, v_data = [], v_shadow = False, v_message = msg\<rparr>"

definition value_is_error :: "vm_value \<Rightarrow> bool" where
  "value_is_error v \<longleftrightarrow> v_type v = Scalar Error"

fun le_bytes :: "nat \<Rightarrow> nat \<Rightarrow> 8 word list" where
  "le_bytes 0 x = []"
| "le_bytes (Suc n) x = of_nat x # le_bytes n (x div 256)"

fun le_nat :: "8 word list \<Rightarrow> nat" where
  "le_nat [] = 0"
| "le_nat (b # bs) = unat b + 256 * le_nat bs"

text \<open>\<open>value_alloc_data_copy\<close>: a block with the first bytes of another.\<close>

definition value_alloc_data_copy :: "ty \<Rightarrow> 8 word list \<Rightarrow> 8 word list result" where
  "value_alloc_data_copy t src =
     (if length src < type_size t then Inl (Undefined ''read past the data block'') else Inr (take (type_size t) src))"

text \<open>The width of an access: a size other than 1, 2, 4 is read and written as eight bytes.\<close>

definition access_width :: "nat \<Rightarrow> nat" where
  "access_width n = (if n = 1 then 1 else if n = 2 then 2 else if n = 4 then 4 else 8)"

definition read_bytes :: "nat \<Rightarrow> vm_value \<Rightarrow> nat result" where
  "read_bytes n v = (if length (v_data v) < n then Inl (Undefined ''read past the data block'') else Inr (le_nat (take n (v_data v))))"

text \<open>Two's complement reading of the low \<open>n\<close> bits.\<close>

definition as_signed :: "nat \<Rightarrow> int \<Rightarrow> int" where
  "as_signed n x = (let u = x mod 2 ^ n in if u < 2 ^ (n - 1) then u else u - 2 ^ n)"

definition sint_read :: "vm_value \<Rightarrow> int result" where
  "sint_read v = (let w = access_width (type_size (v_type v)) in
     and_then (read_bytes w v) (\<lambda>x. Inr (as_signed (8 * w) (int x))))"

definition uint_read :: "vm_value \<Rightarrow> int result" where
  "uint_read v = and_then (read_bytes (access_width (type_size (v_type v))) v) (\<lambda>x. Inr (int x))"

definition int_read :: "vm_value \<Rightarrow> int result" where
  "int_read v = (if is_unsigned_int (v_type v) then and_then (uint_read v) (\<lambda>x. Inr (as_signed 64 x)) else sint_read v)"

definition int_store :: "ty \<Rightarrow> int \<Rightarrow> vm_value result" where
  "int_store t x =
     (let w = access_width (type_size t) in
      if type_size t < w then Inl (Undefined ''write past the data block'')
      else Inr (value_make t (le_bytes w (nat (x mod 2 ^ 64)))))"

definition bool_store :: "bool \<Rightarrow> vm_value result" where
  "bool_store b = Inr (value_make (Scalar Boolean) [of_bool b])"

text \<open>A \<open>bool\<close> object holds 0 or 1.\<close>

definition bool_read :: "vm_value \<Rightarrow> bool result" where
  "bool_read v = and_then (read_bytes 1 v) (\<lambda>x. Inr (x \<noteq> 0))"

section \<open>Floating point\<close>

record fpu =
  widen :: "32 word \<Rightarrow> 64 word"
  narrow :: "64 word \<Rightarrow> 32 word"
  fadd :: "64 word \<Rightarrow> 64 word \<Rightarrow> 64 word"
  fsub :: "64 word \<Rightarrow> 64 word \<Rightarrow> 64 word"
  fmul :: "64 word \<Rightarrow> 64 word \<Rightarrow> 64 word"
  fdiv :: "64 word \<Rightarrow> 64 word \<Rightarrow> 64 word"
  ffmod :: "64 word \<Rightarrow> 64 word \<Rightarrow> 64 word"
  fneg :: "64 word \<Rightarrow> 64 word"
  feq :: "64 word \<Rightarrow> 64 word \<Rightarrow> bool"
  flt :: "64 word \<Rightarrow> 64 word \<Rightarrow> bool"
  fle :: "64 word \<Rightarrow> 64 word \<Rightarrow> bool"
  int_to_float :: "int \<Rightarrow> 32 word"
  int_to_double :: "int \<Rightarrow> 64 word"
  double_trunc :: "64 word \<Rightarrow> int option"

definition float_read :: "fpu \<Rightarrow> vm_value \<Rightarrow> 64 word result" where
  "float_read fp v =
     (if type_size (v_type v) = 4 then and_then (read_bytes 4 v) (\<lambda>x. Inr (widen fp (of_nat x)))
      else and_then (read_bytes 8 v) (\<lambda>x. Inr (of_nat x)))"

definition float_store :: "fpu \<Rightarrow> ty \<Rightarrow> 64 word \<Rightarrow> vm_value result" where
  "float_store fp t x =
     (if type_size t = 4 then Inr (value_make t (le_bytes 4 (unat (narrow fp x))))
      else if type_size t < 8 then Inl (Undefined ''write past the data block'')
      else Inr (value_make t (le_bytes 8 (unat x))))"

section \<open>Casts\<close>

text \<open>Adding qualifiers: the target without its qualifiers must be the type of the value.\<close>

fun strip_qualifiers :: "ty \<Rightarrow> ty" where
  "strip_qualifiers (Scalar s) = Scalar s"
| "strip_qualifiers (Const t) = strip_qualifiers t"
| "strip_qualifiers (Volatile t) = strip_qualifiers t"

definition identity_copy :: "vm_value \<Rightarrow> ty \<Rightarrow> vm_value result" where
  "identity_copy v target =
     (if v_shadow v then Inr (value_make_shadow target)
      else and_then (value_alloc_data_copy target (v_data v)) (\<lambda>d. Inr (value_make target d)))"

definition value_implicit_qualify :: "vm_value \<Rightarrow> ty \<Rightarrow> vm_value result" where
  "value_implicit_qualify v target =
     (if value_is_error v then Inr v
      else if strip_qualifiers target \<noteq> v_type v then Inr (value_make_error ''implicit qualify: target is not a qualifier of source'')
      else identity_copy v target)"

text \<open>The scalar casts try the qualifiers first, and go on when that is an error.\<close>

definition try_qualify :: "vm_value \<Rightarrow> ty \<Rightarrow> vm_value result \<Rightarrow> vm_value result" where
  "try_qualify v target otherwise =
     (if type_qualifier_sub target \<noteq> None then
        and_then (value_implicit_qualify v target) (\<lambda>q. if \<not> value_is_error q then Inr q else otherwise)
      else otherwise)"

definition sint_implicit_cast :: "vm_value \<Rightarrow> ty \<Rightarrow> vm_value result" where
  "sint_implicit_cast v target = try_qualify v target
     (if type_size target < type_size (v_type v) then Inr (value_make_error ''implicit cast: not a widening conversion'')
      else if \<not> is_signed_int target then Inr (value_make_error ''implicit cast: incompatible target type'')
      else if v_shadow v then Inr (value_make_shadow target)
      else and_then (sint_read v) (int_store target))"

definition uint_implicit_cast :: "vm_value \<Rightarrow> ty \<Rightarrow> vm_value result" where
  "uint_implicit_cast v target = try_qualify v target
     (if type_size target < type_size (v_type v) then Inr (value_make_error ''implicit cast: not a widening conversion'')
      else if is_signed_int target then Inr (value_make_error ''implicit cast: cannot implicitly cast unsigned to signed'')
      else if v_shadow v then Inr (value_make_shadow target)
      else and_then (uint_read v) (\<lambda>x.
        if is_unsigned_int target then int_store target x
        else Inr (value_make_error ''implicit cast: incompatible target type'')))"

definition float_implicit_cast :: "fpu \<Rightarrow> vm_value \<Rightarrow> ty \<Rightarrow> vm_value result" where
  "float_implicit_cast fp v target = try_qualify v target
     (if target \<noteq> Scalar F64 then Inr (value_make_error ''implicit cast: float can only widen to f64'')
      else if v_shadow v then Inr (value_make_shadow target)
      else and_then (float_read fp v) (float_store fp target))"

type_synonym cast_slot = "vm_value \<Rightarrow> ty \<Rightarrow> vm_value result"

definition c_implicit_cast :: "ty \<Rightarrow> cast_slot option \<Rightarrow> cast_slot" where
  "c_implicit_cast sub slot v target = (case slot of
       None \<Rightarrow> Inr (value_make_error ''const type: unsupported implicit cast'')
     | Some cast \<Rightarrow> if target = sub then identity_copy v target else cast (v\<lparr>v_type := sub\<rparr>) target)"

definition v_implicit_cast :: "ty \<Rightarrow> cast_slot option \<Rightarrow> cast_slot" where
  "v_implicit_cast sub slot v target = (case slot of
       None \<Rightarrow> Inr (value_make_error ''volatile type: unsupported implicit cast'')
     | Some cast \<Rightarrow> if target = sub then identity_copy v target else cast (v\<lparr>v_type := sub\<rparr>) target)"

text \<open>The slot \<open>implicit_cast\<close> of the virtual table of a type.\<close>

fun implicit_cast_slot :: "fpu \<Rightarrow> ty \<Rightarrow> cast_slot option" where
  "implicit_cast_slot fp (Scalar s) =
     (if is_signed_int (Scalar s) then Some sint_implicit_cast
      else if is_unsigned_int (Scalar s) then Some uint_implicit_cast
      else if is_float_type (Scalar s) then Some (float_implicit_cast fp)
      else None)"
| "implicit_cast_slot fp (Const t) = Some (c_implicit_cast t (implicit_cast_slot fp t))"
| "implicit_cast_slot fp (Volatile t) = Some (v_implicit_cast t (implicit_cast_slot fp t))"

definition value_implicit_cast :: "fpu \<Rightarrow> vm_value \<Rightarrow> ty \<Rightarrow> vm_value result" where
  "value_implicit_cast fp v target =
     (if value_is_error v then Inr v
      else if v_type v = target then identity_copy v target
      else (case implicit_cast_slot fp (v_type v) of
         Some cast \<Rightarrow> cast v target
       | None \<Rightarrow> Inr (value_make_error ''type does not support implicit cast'')))"

definition sint_explicit_cast :: "fpu \<Rightarrow> vm_value \<Rightarrow> ty \<Rightarrow> vm_value result" where
  "sint_explicit_cast fp v target =
     (if v_shadow v then
        (if is_int_type target \<or> is_float_type target \<or> target = Scalar Boolean then Inr (value_make_shadow target)
         else Inr (value_make_error ''explicit cast: incompatible target type''))
      else and_then (sint_read v) (\<lambda>x.
        if is_int_type target then int_store target x
        else if is_float_type target then
          (if target = Scalar F32 then Inr (value_make target (le_bytes 4 (unat (int_to_float fp x))))
           else Inr (value_make target (le_bytes 8 (unat (int_to_double fp x)))))
        else if target = Scalar Boolean then bool_store (x \<noteq> 0)
        else Inr (value_make_error ''explicit cast: incompatible target type'')))"

definition uint_explicit_cast :: "fpu \<Rightarrow> vm_value \<Rightarrow> ty \<Rightarrow> vm_value result" where
  "uint_explicit_cast fp v target =
     (if v_shadow v then
        (if is_int_type target \<or> is_float_type target \<or> target = Scalar Boolean then Inr (value_make_shadow target)
         else Inr (value_make_error ''explicit cast: incompatible target type''))
      else and_then (uint_read v) (\<lambda>x.
        if is_int_type target then int_store target x
        else if is_float_type target then
          (if target = Scalar F32 then Inr (value_make target (le_bytes 4 (unat (int_to_float fp x))))
           else Inr (value_make target (le_bytes 8 (unat (int_to_double fp x)))))
        else if target = Scalar Boolean then bool_store (x \<noteq> 0)
        else Inr (value_make_error ''explicit cast: incompatible target type'')))"

definition bool_explicit_cast :: "fpu \<Rightarrow> vm_value \<Rightarrow> ty \<Rightarrow> vm_value result" where
  "bool_explicit_cast fp v target =
     (if v_shadow v then
        (if is_signed_int target \<or> is_unsigned_int target \<or> is_float_type target then Inr (value_make_shadow target)
         else Inr (value_make_error ''explicit cast: incompatible target type''))
      else and_then (bool_read v) (\<lambda>b.
        let i = (if b then 1 else 0) in
        if is_signed_int target \<or> is_unsigned_int target then
          and_then (value_alloc_data_copy target (le_bytes 8 i)) (\<lambda>d. Inr (value_make target d))
        else if is_float_type target then
          (if target = Scalar F32 then Inr (value_make target (le_bytes 4 (unat (int_to_float fp (int i)))))
           else Inr (value_make target (le_bytes 8 (unat (int_to_double fp (int i))))))
        else Inr (value_make_error ''explicit cast: incompatible target type'')))"

text \<open>
  A conversion to an integer cuts the fraction off; it is undefined where the result does not fit the
  signed type of the target's width, which the code uses for unsigned targets too.
\<close>

definition float_explicit_cast :: "fpu \<Rightarrow> vm_value \<Rightarrow> ty \<Rightarrow> vm_value result" where
  "float_explicit_cast fp v target =
     (if v_shadow v then
        (if is_float_type target \<or> is_signed_int target \<or> is_unsigned_int target \<or> target = Scalar Boolean
         then Inr (value_make_shadow target)
         else Inr (value_make_error ''explicit cast: incompatible target type''))
      else and_then (float_read fp v) (\<lambda>x.
        if is_float_type target then float_store fp target x
        else if is_signed_int target \<or> is_unsigned_int target then
          let w = access_width (type_size target) in
          (case double_trunc fp x of
             Some i \<Rightarrow> if - (2 ^ (8 * w - 1)) \<le> i \<and> i < 2 ^ (8 * w - 1) then Inr (value_make target (le_bytes w (nat (i mod 2 ^ (8 * w)))))
               else Inl (Undefined ''conversion out of range'')
           | None \<Rightarrow> Inl (Undefined ''conversion out of range''))
        else if target = Scalar Boolean then bool_store (\<not> feq fp x 0)
        else Inr (value_make_error ''explicit cast: incompatible target type'')))"

definition c_explicit_cast :: "ty \<Rightarrow> cast_slot option \<Rightarrow> cast_slot" where
  "c_explicit_cast sub slot v target = (case slot of
       None \<Rightarrow> Inr (value_make_error ''const type: unsupported explicit cast'')
     | Some cast \<Rightarrow> cast (v\<lparr>v_type := sub\<rparr>) target)"

definition v_explicit_cast :: "ty \<Rightarrow> cast_slot option \<Rightarrow> cast_slot" where
  "v_explicit_cast sub slot v target = (case slot of
       None \<Rightarrow> Inr (value_make_error ''volatile type: unsupported explicit cast'')
     | Some cast \<Rightarrow> cast (v\<lparr>v_type := sub\<rparr>) target)"

fun explicit_cast_slot :: "fpu \<Rightarrow> ty \<Rightarrow> cast_slot option" where
  "explicit_cast_slot fp (Scalar s) =
     (if is_signed_int (Scalar s) then Some (sint_explicit_cast fp)
      else if is_unsigned_int (Scalar s) then Some (uint_explicit_cast fp)
      else if is_float_type (Scalar s) then Some (float_explicit_cast fp)
      else if s = Boolean then Some (bool_explicit_cast fp)
      else None)"
| "explicit_cast_slot fp (Const t) = Some (c_explicit_cast t (explicit_cast_slot fp t))"
| "explicit_cast_slot fp (Volatile t) = Some (v_explicit_cast t (explicit_cast_slot fp t))"

text \<open>The clone slot of every type here copies the data block; a shadow gives a shadow.\<close>

definition value_clone :: "vm_value \<Rightarrow> vm_value result" where
  "value_clone v = (if v_shadow v then Inr (value_make_shadow (v_type v))
     else if value_is_error v then Inr v
     else and_then (value_alloc_data_copy (v_type v) (v_data v)) (\<lambda>d. Inr (value_make (v_type v) d)))"

definition value_explicit_cast :: "fpu \<Rightarrow> vm_value \<Rightarrow> ty \<Rightarrow> vm_value result" where
  "value_explicit_cast fp v target =
     (if value_is_error v then Inr v
      else if v_type v = target then value_clone v
      else (case explicit_cast_slot fp (v_type v) of
         Some cast \<Rightarrow> cast v target
       | None \<Rightarrow> Inr (value_make_error ''type does not support explicit cast'')))"

section \<open>Operators\<close>

datatype binop = Add | Sub | Mul | Div | Mod | Eq | Ne | Lt | Le | Gt | Ge | Band | Bor | Bxor | Shl | Shr

datatype unop = Neg | Bnot | Lnot

fun op_sym :: "binop \<Rightarrow> string" where
  "op_sym Add = ''+''" | "op_sym Sub = ''-''" | "op_sym Mul = ''*''" | "op_sym Div = ''/''" | "op_sym Mod = ''%''"
| "op_sym Eq = ''==''" | "op_sym Ne = ''!=''" | "op_sym Lt = ''<''" | "op_sym Le = ''<=''" | "op_sym Gt = ''>''" | "op_sym Ge = ''>=''"
| "op_sym Band = ''&''" | "op_sym Bor = ''|''" | "op_sym Bxor = ''^''" | "op_sym Shl = ''<<''" | "op_sym Shr = ''>>''"

fun unop_sym :: "unop \<Rightarrow> string" where
  "unop_sym Neg = ''-''" | "unop_sym Bnot = ''~''" | "unop_sym Lnot = ''!''"

type_synonym bin_slot = "vm_value \<Rightarrow> vm_value \<Rightarrow> vm_value result"
type_synonym un_slot = "vm_value \<Rightarrow> vm_value result"

text \<open>
  The macro \<open>VTABLE_BINARY\<close>: errors pass through; operands of different types are cast to a common
  type, or the right one to the type of the left one, and the slot of that type is called again
  (\<open>again\<close>); operands of one type go on with the rest of the function.
\<close>

definition vtable_binary :: "fpu \<Rightarrow> (ty \<Rightarrow> bin_slot) \<Rightarrow> vm_value \<Rightarrow> vm_value \<Rightarrow> vm_value result \<Rightarrow> vm_value result" where
  "vtable_binary fp again a b rest =
     (if value_is_error a then Inr a
      else if value_is_error b then Inr b
      else if v_type a \<noteq> v_type b then
        (case type_promote (v_type a) (v_type b) of
           Some rt \<Rightarrow>
             and_then (value_implicit_cast fp a rt) (\<lambda>a2. if value_is_error a2 then Inr a2
             else and_then (value_implicit_cast fp b rt) (\<lambda>b2. if value_is_error b2 then Inr b2
             else again rt a2 b2))
         | None \<Rightarrow>
             and_then (value_implicit_cast fp b (v_type a)) (\<lambda>b2. if value_is_error b2 then Inr b2
             else again (v_type a) a b2))
      else rest)"

text \<open>The two tests every operator makes next: the type of the operands, and shadows.\<close>

definition checked :: "bool \<Rightarrow> string \<Rightarrow> vm_value \<Rightarrow> vm_value \<Rightarrow> ty \<Rightarrow> vm_value result \<Rightarrow> vm_value result" where
  "checked ok symbol a b t rest =
     (if \<not> ok then Inr (value_make_error (symbol @ '': type mismatch''))
      else if v_shadow a \<or> v_shadow b then Inr (value_make_shadow t)
      else rest)"

definition both :: "(vm_value \<Rightarrow> 'a result) \<Rightarrow> vm_value \<Rightarrow> vm_value \<Rightarrow> ('a \<Rightarrow> 'a \<Rightarrow> 'b result) \<Rightarrow> 'b result" where
  "both rd a b f = and_then (rd a) (\<lambda>x. and_then (rd b) (f x))"

text \<open>Arithmetic of \<open>int64_t\<close>: a result that does not fit is undefined, as is a bad shift.\<close>

definition i64 :: "int \<Rightarrow> int result" where
  "i64 x = (if - (2 ^ 63) \<le> x \<and> x < 2 ^ 63 then Inr x else Inl (Undefined ''signed overflow''))"

definition i64_shl :: "int \<Rightarrow> int \<Rightarrow> int result" where
  "i64_shl x y = (if y < 0 \<or> y \<ge> 64 then Inl (Undefined ''shift count'')
     else if x < 0 then Inl (Undefined ''shift of a negative value'') else i64 (x * 2 ^ nat y))"

definition i64_shr :: "int \<Rightarrow> int \<Rightarrow> int result" where
  "i64_shr x y = (if y < 0 \<or> y \<ge> 64 then Inl (Undefined ''shift count'') else Inr (x div 2 ^ nat y))"

section \<open>Integers\<close>

definition int_add :: "fpu \<Rightarrow> (ty \<Rightarrow> bin_slot) \<Rightarrow> bin_slot" where
  "int_add fp again a b = vtable_binary fp again a b (checked (is_int_type (v_type a)) ''+'' a b (v_type a)
     (both int_read a b (\<lambda>x y. and_then (i64 (x + y)) (int_store (v_type a)))))"

definition int_sub :: "fpu \<Rightarrow> (ty \<Rightarrow> bin_slot) \<Rightarrow> bin_slot" where
  "int_sub fp again a b = vtable_binary fp again a b (checked (is_int_type (v_type a)) ''-'' a b (v_type a)
     (both int_read a b (\<lambda>x y. and_then (i64 (x - y)) (int_store (v_type a)))))"

definition int_mul :: "fpu \<Rightarrow> (ty \<Rightarrow> bin_slot) \<Rightarrow> bin_slot" where
  "int_mul fp again a b = vtable_binary fp again a b (checked (is_int_type (v_type a)) ''*'' a b (v_type a)
     (both int_read a b (\<lambda>x y. and_then (i64 (x * y)) (int_store (v_type a)))))"

definition int_eq :: "fpu \<Rightarrow> (ty \<Rightarrow> bin_slot) \<Rightarrow> bin_slot" where
  "int_eq fp again a b = vtable_binary fp again a b (checked (is_int_type (v_type a)) ''=='' a b (Scalar Boolean)
     (both int_read a b (\<lambda>x y. bool_store (x = y))))"

definition int_ne :: "fpu \<Rightarrow> (ty \<Rightarrow> bin_slot) \<Rightarrow> bin_slot" where
  "int_ne fp again a b = vtable_binary fp again a b (checked (is_int_type (v_type a)) ''!='' a b (Scalar Boolean)
     (both int_read a b (\<lambda>x y. bool_store (x \<noteq> y))))"

definition int_band :: "fpu \<Rightarrow> (ty \<Rightarrow> bin_slot) \<Rightarrow> bin_slot" where
  "int_band fp again a b = vtable_binary fp again a b (checked (is_int_type (v_type a)) ''&'' a b (v_type a)
     (both int_read a b (\<lambda>x y. int_store (v_type a) (x AND y))))"

definition int_bor :: "fpu \<Rightarrow> (ty \<Rightarrow> bin_slot) \<Rightarrow> bin_slot" where
  "int_bor fp again a b = vtable_binary fp again a b (checked (is_int_type (v_type a)) ''|'' a b (v_type a)
     (both int_read a b (\<lambda>x y. int_store (v_type a) (x OR y))))"

definition int_bxor :: "fpu \<Rightarrow> (ty \<Rightarrow> bin_slot) \<Rightarrow> bin_slot" where
  "int_bxor fp again a b = vtable_binary fp again a b (checked (is_int_type (v_type a)) ''^'' a b (v_type a)
     (both int_read a b (\<lambda>x y. int_store (v_type a) (x XOR y))))"

definition int_bnot :: un_slot where
  "int_bnot a = (if value_is_error a then Inr a
     else checked (is_int_type (v_type a)) ''~'' a a (v_type a) (and_then (int_read a) (\<lambda>x. int_store (v_type a) (NOT x))))"

definition int_shl :: "fpu \<Rightarrow> (ty \<Rightarrow> bin_slot) \<Rightarrow> bin_slot" where
  "int_shl fp again a b = vtable_binary fp again a b (checked (is_int_type (v_type a)) ''<<'' a b (v_type a)
     (both int_read a b (\<lambda>x y. and_then (i64_shl x y) (int_store (v_type a)))))"

definition sint_div :: "fpu \<Rightarrow> (ty \<Rightarrow> bin_slot) \<Rightarrow> bin_slot" where
  "sint_div fp again a b = vtable_binary fp again a b (checked (is_signed_int (v_type a)) ''/'' a b (v_type a)
     (and_then (sint_read b) (\<lambda>y. if y = 0 then Inl (Panic ''division by zero'')
       else and_then (sint_read a) (\<lambda>x. and_then (i64 (x sdiv y)) (int_store (v_type a))))))"

text \<open>The remainder is undefined where the quotient does not fit.\<close>

definition sint_mod :: "fpu \<Rightarrow> (ty \<Rightarrow> bin_slot) \<Rightarrow> bin_slot" where
  "sint_mod fp again a b = vtable_binary fp again a b (checked (is_signed_int (v_type a)) ''%'' a b (v_type a)
     (and_then (sint_read b) (\<lambda>y. if y = 0 then Inl (Panic ''modulo by zero'')
       else and_then (sint_read a) (\<lambda>x. and_then (i64 (x sdiv y)) (\<lambda>_. int_store (v_type a) (x smod y))))))"

definition sint_neg :: un_slot where
  "sint_neg a = (if value_is_error a then Inr a
     else checked (is_signed_int (v_type a)) ''-'' a a (v_type a) (and_then (sint_read a) (\<lambda>x. and_then (i64 (- x)) (int_store (v_type a)))))"

definition sint_shr :: "fpu \<Rightarrow> (ty \<Rightarrow> bin_slot) \<Rightarrow> bin_slot" where
  "sint_shr fp again a b = vtable_binary fp again a b (checked (is_signed_int (v_type a)) ''>>'' a b (v_type a)
     (both sint_read a b (\<lambda>x y. and_then (i64_shr x y) (int_store (v_type a)))))"

definition sint_lt :: "fpu \<Rightarrow> (ty \<Rightarrow> bin_slot) \<Rightarrow> bin_slot" where
  "sint_lt fp again a b = vtable_binary fp again a b (checked (is_signed_int (v_type a)) ''<'' a b (Scalar Boolean)
     (both sint_read a b (\<lambda>x y. bool_store (x < y))))"

definition sint_le :: "fpu \<Rightarrow> (ty \<Rightarrow> bin_slot) \<Rightarrow> bin_slot" where
  "sint_le fp again a b = vtable_binary fp again a b (checked (is_signed_int (v_type a)) ''<='' a b (Scalar Boolean)
     (both sint_read a b (\<lambda>x y. bool_store (x \<le> y))))"

definition sint_gt :: "fpu \<Rightarrow> (ty \<Rightarrow> bin_slot) \<Rightarrow> bin_slot" where
  "sint_gt fp again a b = vtable_binary fp again a b (checked (is_signed_int (v_type a)) ''>'' a b (Scalar Boolean)
     (both sint_read a b (\<lambda>x y. bool_store (x > y))))"

definition sint_ge :: "fpu \<Rightarrow> (ty \<Rightarrow> bin_slot) \<Rightarrow> bin_slot" where
  "sint_ge fp again a b = vtable_binary fp again a b (checked (is_signed_int (v_type a)) ''>='' a b (Scalar Boolean)
     (both sint_read a b (\<lambda>x y. bool_store (x \<ge> y))))"

definition uint_div :: "fpu \<Rightarrow> (ty \<Rightarrow> bin_slot) \<Rightarrow> bin_slot" where
  "uint_div fp again a b = vtable_binary fp again a b (checked (is_unsigned_int (v_type a)) ''/'' a b (v_type a)
     (and_then (uint_read b) (\<lambda>y. if y = 0 then Inl (Panic ''division by zero'')
       else and_then (uint_read a) (\<lambda>x. int_store (v_type a) (x div y)))))"

definition uint_mod :: "fpu \<Rightarrow> (ty \<Rightarrow> bin_slot) \<Rightarrow> bin_slot" where
  "uint_mod fp again a b = vtable_binary fp again a b (checked (is_unsigned_int (v_type a)) ''%'' a b (v_type a)
     (and_then (uint_read b) (\<lambda>y. if y = 0 then Inl (Panic ''modulo by zero'')
       else and_then (uint_read a) (\<lambda>x. int_store (v_type a) (x mod y)))))"

definition uint_shr :: "fpu \<Rightarrow> (ty \<Rightarrow> bin_slot) \<Rightarrow> bin_slot" where
  "uint_shr fp again a b = vtable_binary fp again a b (checked (is_unsigned_int (v_type a)) ''>>'' a b (v_type a)
     (both uint_read a b (\<lambda>x y. and_then (i64_shr x y) (int_store (v_type a)))))"

definition uint_lt :: "fpu \<Rightarrow> (ty \<Rightarrow> bin_slot) \<Rightarrow> bin_slot" where
  "uint_lt fp again a b = vtable_binary fp again a b (checked (is_unsigned_int (v_type a)) ''<'' a b (Scalar Boolean)
     (both uint_read a b (\<lambda>x y. bool_store (x < y))))"

definition uint_le :: "fpu \<Rightarrow> (ty \<Rightarrow> bin_slot) \<Rightarrow> bin_slot" where
  "uint_le fp again a b = vtable_binary fp again a b (checked (is_unsigned_int (v_type a)) ''<='' a b (Scalar Boolean)
     (both uint_read a b (\<lambda>x y. bool_store (x \<le> y))))"

definition uint_gt :: "fpu \<Rightarrow> (ty \<Rightarrow> bin_slot) \<Rightarrow> bin_slot" where
  "uint_gt fp again a b = vtable_binary fp again a b (checked (is_unsigned_int (v_type a)) ''>'' a b (Scalar Boolean)
     (both uint_read a b (\<lambda>x y. bool_store (x > y))))"

definition uint_ge :: "fpu \<Rightarrow> (ty \<Rightarrow> bin_slot) \<Rightarrow> bin_slot" where
  "uint_ge fp again a b = vtable_binary fp again a b (checked (is_unsigned_int (v_type a)) ''>='' a b (Scalar Boolean)
     (both uint_read a b (\<lambda>x y. bool_store (x \<ge> y))))"

text \<open>Booleans; both operands must be booleans.\<close>

definition bool_eq :: "fpu \<Rightarrow> (ty \<Rightarrow> bin_slot) \<Rightarrow> bin_slot" where
  "bool_eq fp again a b = vtable_binary fp again a b
     (checked (v_type a = Scalar Boolean \<and> v_type b = Scalar Boolean) ''=='' a b (Scalar Boolean)
       (both bool_read a b (\<lambda>x y. bool_store (x = y))))"

definition bool_ne :: "fpu \<Rightarrow> (ty \<Rightarrow> bin_slot) \<Rightarrow> bin_slot" where
  "bool_ne fp again a b = vtable_binary fp again a b
     (checked (v_type a = Scalar Boolean \<and> v_type b = Scalar Boolean) ''!='' a b (Scalar Boolean)
       (both bool_read a b (\<lambda>x y. bool_store (x \<noteq> y))))"

definition bool_lnot :: un_slot where
  "bool_lnot a = (if value_is_error a then Inr a
     else checked (v_type a = Scalar Boolean) ''!'' a a (Scalar Boolean) (and_then (bool_read a) (\<lambda>x. bool_store (\<not> x))))"

section \<open>Floats\<close>

definition float_add :: "fpu \<Rightarrow> (ty \<Rightarrow> bin_slot) \<Rightarrow> bin_slot" where
  "float_add fp again a b = vtable_binary fp again a b (checked (is_float_type (v_type a)) ''+'' a b (v_type a)
     (both (float_read fp) a b (\<lambda>x y. float_store fp (v_type a) (fadd fp x y))))"

definition float_sub :: "fpu \<Rightarrow> (ty \<Rightarrow> bin_slot) \<Rightarrow> bin_slot" where
  "float_sub fp again a b = vtable_binary fp again a b (checked (is_float_type (v_type a)) ''-'' a b (v_type a)
     (both (float_read fp) a b (\<lambda>x y. float_store fp (v_type a) (fsub fp x y))))"

definition float_mul :: "fpu \<Rightarrow> (ty \<Rightarrow> bin_slot) \<Rightarrow> bin_slot" where
  "float_mul fp again a b = vtable_binary fp again a b (checked (is_float_type (v_type a)) ''*'' a b (v_type a)
     (both (float_read fp) a b (\<lambda>x y. float_store fp (v_type a) (fmul fp x y))))"

definition float_div :: "fpu \<Rightarrow> (ty \<Rightarrow> bin_slot) \<Rightarrow> bin_slot" where
  "float_div fp again a b = vtable_binary fp again a b (checked (is_float_type (v_type a)) ''/'' a b (v_type a)
     (and_then (float_read fp b) (\<lambda>y. if feq fp y 0 then Inl (Panic ''division by zero'')
       else and_then (float_read fp a) (\<lambda>x. float_store fp (v_type a) (fdiv fp x y)))))"

definition float_mod :: "fpu \<Rightarrow> (ty \<Rightarrow> bin_slot) \<Rightarrow> bin_slot" where
  "float_mod fp again a b = vtable_binary fp again a b (checked (is_float_type (v_type a)) ''%'' a b (v_type a)
     (both (float_read fp) a b (\<lambda>x y. float_store fp (v_type a) (ffmod fp x y))))"

definition float_neg :: "fpu \<Rightarrow> un_slot" where
  "float_neg fp a = (if value_is_error a then Inr a
     else checked (is_float_type (v_type a)) ''-'' a a (v_type a) (and_then (float_read fp a) (\<lambda>x. float_store fp (v_type a) (fneg fp x))))"

definition float_eq :: "fpu \<Rightarrow> (ty \<Rightarrow> bin_slot) \<Rightarrow> bin_slot" where
  "float_eq fp again a b = vtable_binary fp again a b (checked (is_float_type (v_type a)) ''=='' a b (Scalar Boolean)
     (both (float_read fp) a b (\<lambda>x y. bool_store (feq fp x y))))"

definition float_ne :: "fpu \<Rightarrow> (ty \<Rightarrow> bin_slot) \<Rightarrow> bin_slot" where
  "float_ne fp again a b = vtable_binary fp again a b (checked (is_float_type (v_type a)) ''!='' a b (Scalar Boolean)
     (both (float_read fp) a b (\<lambda>x y. bool_store (\<not> feq fp x y))))"

definition float_lt :: "fpu \<Rightarrow> (ty \<Rightarrow> bin_slot) \<Rightarrow> bin_slot" where
  "float_lt fp again a b = vtable_binary fp again a b (checked (is_float_type (v_type a)) ''<'' a b (Scalar Boolean)
     (both (float_read fp) a b (\<lambda>x y. bool_store (flt fp x y))))"

definition float_le :: "fpu \<Rightarrow> (ty \<Rightarrow> bin_slot) \<Rightarrow> bin_slot" where
  "float_le fp again a b = vtable_binary fp again a b (checked (is_float_type (v_type a)) ''<='' a b (Scalar Boolean)
     (both (float_read fp) a b (\<lambda>x y. bool_store (fle fp x y))))"

definition float_gt :: "fpu \<Rightarrow> (ty \<Rightarrow> bin_slot) \<Rightarrow> bin_slot" where
  "float_gt fp again a b = vtable_binary fp again a b (checked (is_float_type (v_type a)) ''>'' a b (Scalar Boolean)
     (both (float_read fp) a b (\<lambda>x y. bool_store (flt fp y x))))"

definition float_ge :: "fpu \<Rightarrow> (ty \<Rightarrow> bin_slot) \<Rightarrow> bin_slot" where
  "float_ge fp again a b = vtable_binary fp again a b (checked (is_float_type (v_type a)) ''>='' a b (Scalar Boolean)
     (both (float_read fp) a b (\<lambda>x y. bool_store (fle fp y x))))"

section \<open>Virtual tables\<close>

fun vtable_int_signed :: "fpu \<Rightarrow> (ty \<Rightarrow> bin_slot) \<Rightarrow> binop \<Rightarrow> bin_slot option" where
  "vtable_int_signed fp again Add = Some (int_add fp again)"
| "vtable_int_signed fp again Sub = Some (int_sub fp again)"
| "vtable_int_signed fp again Mul = Some (int_mul fp again)"
| "vtable_int_signed fp again Div = Some (sint_div fp again)"
| "vtable_int_signed fp again Mod = Some (sint_mod fp again)"
| "vtable_int_signed fp again Eq = Some (int_eq fp again)"
| "vtable_int_signed fp again Ne = Some (int_ne fp again)"
| "vtable_int_signed fp again Lt = Some (sint_lt fp again)"
| "vtable_int_signed fp again Le = Some (sint_le fp again)"
| "vtable_int_signed fp again Gt = Some (sint_gt fp again)"
| "vtable_int_signed fp again Ge = Some (sint_ge fp again)"
| "vtable_int_signed fp again Band = Some (int_band fp again)"
| "vtable_int_signed fp again Bor = Some (int_bor fp again)"
| "vtable_int_signed fp again Bxor = Some (int_bxor fp again)"
| "vtable_int_signed fp again Shl = Some (int_shl fp again)"
| "vtable_int_signed fp again Shr = Some (sint_shr fp again)"

fun vtable_int_unsigned :: "fpu \<Rightarrow> (ty \<Rightarrow> bin_slot) \<Rightarrow> binop \<Rightarrow> bin_slot option" where
  "vtable_int_unsigned fp again Add = Some (int_add fp again)"
| "vtable_int_unsigned fp again Sub = Some (int_sub fp again)"
| "vtable_int_unsigned fp again Mul = Some (int_mul fp again)"
| "vtable_int_unsigned fp again Div = Some (uint_div fp again)"
| "vtable_int_unsigned fp again Mod = Some (uint_mod fp again)"
| "vtable_int_unsigned fp again Eq = Some (int_eq fp again)"
| "vtable_int_unsigned fp again Ne = Some (int_ne fp again)"
| "vtable_int_unsigned fp again Lt = Some (uint_lt fp again)"
| "vtable_int_unsigned fp again Le = Some (uint_le fp again)"
| "vtable_int_unsigned fp again Gt = Some (uint_gt fp again)"
| "vtable_int_unsigned fp again Ge = Some (uint_ge fp again)"
| "vtable_int_unsigned fp again Band = Some (int_band fp again)"
| "vtable_int_unsigned fp again Bor = Some (int_bor fp again)"
| "vtable_int_unsigned fp again Bxor = Some (int_bxor fp again)"
| "vtable_int_unsigned fp again Shl = Some (int_shl fp again)"
| "vtable_int_unsigned fp again Shr = Some (uint_shr fp again)"

fun vtable_float :: "fpu \<Rightarrow> (ty \<Rightarrow> bin_slot) \<Rightarrow> binop \<Rightarrow> bin_slot option" where
  "vtable_float fp again Add = Some (float_add fp again)"
| "vtable_float fp again Sub = Some (float_sub fp again)"
| "vtable_float fp again Mul = Some (float_mul fp again)"
| "vtable_float fp again Div = Some (float_div fp again)"
| "vtable_float fp again Mod = Some (float_mod fp again)"
| "vtable_float fp again Eq = Some (float_eq fp again)"
| "vtable_float fp again Ne = Some (float_ne fp again)"
| "vtable_float fp again Lt = Some (float_lt fp again)"
| "vtable_float fp again Le = Some (float_le fp again)"
| "vtable_float fp again Gt = Some (float_gt fp again)"
| "vtable_float fp again Ge = Some (float_ge fp again)"
| "vtable_float fp again _ = None"

fun vtable_bool :: "fpu \<Rightarrow> (ty \<Rightarrow> bin_slot) \<Rightarrow> binop \<Rightarrow> bin_slot option" where
  "vtable_bool fp again Eq = Some (bool_eq fp again)"
| "vtable_bool fp again Ne = Some (bool_ne fp again)"
| "vtable_bool fp again _ = None"

definition scalar_vtable :: "fpu \<Rightarrow> (ty \<Rightarrow> bin_slot) \<Rightarrow> ty \<Rightarrow> binop \<Rightarrow> bin_slot option" where
  "scalar_vtable fp again t op =
     (if is_signed_int t then vtable_int_signed fp again op
      else if is_unsigned_int t then vtable_int_unsigned fp again op
      else if is_float_type t then vtable_float fp again op
      else if t = Scalar Boolean then vtable_bool fp again op
      else None)"

text \<open>
  The second call of a slot, on operands of one scalar type: a call of an empty slot, or a third call,
  would be a fault here. Neither happens.
\<close>

definition call_again :: "fpu \<Rightarrow> binop \<Rightarrow> ty \<Rightarrow> bin_slot" where
  "call_again fp op t a b =
     (case scalar_vtable fp (\<lambda>_ _ _. Inl (Undefined ''third call'')) t op of
        None \<Rightarrow> Inl (Undefined ''call of a null slot'') | Some slot \<Rightarrow> slot a b)"

text \<open>
  Qualified types: the operands are given the type under the qualifier for the call. The type of the
  right operand is replaced by that of the left one even if it has another type under its qualifier.
\<close>

definition proxy_binary :: "ty \<Rightarrow> bin_slot \<Rightarrow> bin_slot" where
  "proxy_binary sub slot a b =
     slot (a\<lparr>v_type := sub\<rparr>) (if type_qualifier_sub (v_type b) \<noteq> None then b\<lparr>v_type := sub\<rparr> else b)"

definition proxy_unary :: "ty \<Rightarrow> un_slot \<Rightarrow> un_slot" where
  "proxy_unary sub slot a = slot (a\<lparr>v_type := sub\<rparr>)"

fun binop_slot :: "fpu \<Rightarrow> binop \<Rightarrow> ty \<Rightarrow> bin_slot option" where
  "binop_slot fp op (Scalar s) = scalar_vtable fp (call_again fp op) (Scalar s) op"
| "binop_slot fp op (Const t) = Some (\<lambda>a b. case binop_slot fp op t of
       None \<Rightarrow> Inr (value_make_error ''const type: unsupported operation'') | Some slot \<Rightarrow> proxy_binary t slot a b)"
| "binop_slot fp op (Volatile t) = Some (\<lambda>a b. case binop_slot fp op t of
       None \<Rightarrow> Inr (value_make_error ''volatile type: unsupported operation'') | Some slot \<Rightarrow> proxy_binary t slot a b)"

definition scalar_unop :: "fpu \<Rightarrow> ty \<Rightarrow> unop \<Rightarrow> un_slot option" where
  "scalar_unop fp t op = (case op of
       Neg \<Rightarrow> if is_signed_int t then Some sint_neg else if is_float_type t then Some (float_neg fp) else None
     | Bnot \<Rightarrow> if is_int_type t then Some int_bnot else None
     | Lnot \<Rightarrow> if t = Scalar Boolean then Some bool_lnot else None)"

fun unop_slot :: "fpu \<Rightarrow> unop \<Rightarrow> ty \<Rightarrow> un_slot option" where
  "unop_slot fp op (Scalar s) = scalar_unop fp (Scalar s) op"
| "unop_slot fp op (Const t) = Some (\<lambda>a. case unop_slot fp op t of
       None \<Rightarrow> Inr (value_make_error ''const type: unsupported operation'') | Some slot \<Rightarrow> proxy_unary t slot a)"
| "unop_slot fp op (Volatile t) = Some (\<lambda>a. case unop_slot fp op t of
       None \<Rightarrow> Inr (value_make_error ''volatile type: unsupported operation'') | Some slot \<Rightarrow> proxy_unary t slot a)"

section \<open>Dispatch\<close>

text \<open>\<open>value_add\<close>, \<open>value_sub\<close>, \<dots>: the macro \<open>DISPATCH\<close> at each operator.\<close>

definition value_binary :: "fpu \<Rightarrow> binop \<Rightarrow> vm_value \<Rightarrow> vm_value \<Rightarrow> vm_value result" where
  "value_binary fp op a b =
     (if value_is_error a then Inr a
      else if value_is_error b then Inr b
      else case binop_slot fp op (v_type a) of
        None \<Rightarrow> Inr (value_make_error (''type does not support operator '' @ op_sym op))
      | Some slot \<Rightarrow> slot a b)"

definition value_unary :: "fpu \<Rightarrow> unop \<Rightarrow> vm_value \<Rightarrow> vm_value result" where
  "value_unary fp op a =
     (if value_is_error a then Inr a
      else case unop_slot fp op (v_type a) of
        None \<Rightarrow> Inr (value_make_error (''type does not support operator '' @ unop_sym op))
      | Some slot \<Rightarrow> slot a)"

section \<open>Assignment\<close>

text \<open>The result is the destination with its new data, or an error, which leaves the destination as it was.\<close>

definition copy_over :: "vm_value \<Rightarrow> vm_value \<Rightarrow> vm_value result" where
  "copy_over dst src =
     (let n = type_size (v_type dst) in
      if v_shadow dst \<or> v_shadow src then Inr dst
      else if length (v_data src) < n then Inl (Undefined ''read past the data block'')
      else if length (v_data dst) < n then Inl (Undefined ''write past the data block'')
      else Inr (dst\<lparr>v_data := blit (v_data dst) 0 (take n (v_data src))\<rparr>))"

definition int_assign :: "fpu \<Rightarrow> bin_slot" where
  "int_assign fp dst src =
     (if v_type src \<noteq> v_type dst then
        and_then (value_implicit_cast fp src (v_type dst)) (\<lambda>casted. if value_is_error casted then Inr casted else copy_over dst casted)
      else copy_over dst src)"

definition float_assign :: "fpu \<Rightarrow> bin_slot" where
  "float_assign fp dst src =
     (if v_type src \<noteq> v_type dst then
        and_then (value_implicit_cast fp src (v_type dst)) (\<lambda>casted. if value_is_error casted then Inr casted else copy_over dst casted)
      else copy_over dst src)"

definition bool_assign :: bin_slot where
  "bool_assign dst src =
     (if v_type src \<noteq> v_type dst then Inr (value_make_error ''assign: bool type mismatch'') else copy_over dst src)"

text \<open>The proxy gives the destination its qualified type back.\<close>

fun assign_slot :: "fpu \<Rightarrow> ty \<Rightarrow> bin_slot option" where
  "assign_slot fp (Scalar s) =
     (if is_int_type (Scalar s) then Some (int_assign fp)
      else if is_float_type (Scalar s) then Some (float_assign fp)
      else if s = Boolean then Some bool_assign else None)"
| "assign_slot fp (Const t) = Some (\<lambda>a b. case assign_slot fp t of
       None \<Rightarrow> Inr (value_make_error ''const type: unsupported operation'')
     | Some slot \<Rightarrow> and_then (proxy_binary t slot a b) (\<lambda>r. Inr (if value_is_error r then r else r\<lparr>v_type := v_type a\<rparr>)))"
| "assign_slot fp (Volatile t) = Some (\<lambda>a b. case assign_slot fp t of
       None \<Rightarrow> Inr (value_make_error ''volatile type: unsupported operation'')
     | Some slot \<Rightarrow> and_then (proxy_binary t slot a b) (\<lambda>r. Inr (if value_is_error r then r else r\<lparr>v_type := v_type a\<rparr>)))"

definition value_assign :: "fpu \<Rightarrow> vm_value \<Rightarrow> vm_value \<Rightarrow> vm_value result" where
  "value_assign fp dst src =
     (if value_is_error src then Inr src
      else if value_is_error dst then Inr (value_make_error ''assign: cannot assign to error'')
      else case assign_slot fp (v_type dst) of
        None \<Rightarrow> Inr (value_make_error ''assign: type does not support assignment'')
      | Some slot \<Rightarrow> slot dst src)"

end
