(* ===== verification/ValueTypes.thy ===== *)
theory ValueTypes
  imports Values
begin

text \<open>
  What the run on shadow values says of the run on values: \<open>predicts\<close> relates the two outcomes, and
  every cast, operator and dispatch of the theory \<open>Values\<close> keeps it, but for one cast (\<open>cast_gap\<close>).
  The facts on bytes at the beginning are shared with the theory of integer values.
\<close>


section \<open>Bytes\<close>

lemma length_le_bytes [simp]: "length (le_bytes n x) = n"
  by (induction n arbitrary: x) simp_all

lemma le_nat_bytes: "le_nat (le_bytes n x) = x mod 256 ^ n"
proof (induction n arbitrary: x)
  case (Suc n)
  have "x mod 256 + 256 * (x div 256 mod 256 ^ n) = x mod (256 * 256 ^ n)" by (simp add: mod_mult2_eq)
  then show ?case using Suc by (simp add: unsigned_of_nat take_bit_eq_mod)
qed simp

lemma le_nat_bound: "le_nat bs < 256 ^ length bs"
proof (induction bs)
  case (Cons b bs)
  have "unat b < 256" using unsigned_less [of b] by simp
  then show ?case using Cons by simp
qed simp

lemma le_bytes_nat: "le_bytes (length bs) (le_nat bs) = bs"
proof (induction bs)
  case (Cons b bs)
  have b: "unat b < 256" using unsigned_less [of b] by simp
  then have "(unat b + 256 * le_nat bs) div 256 = le_nat bs" by simp
  moreover have "256 * x = 0" for x :: "8 word" by transfer (simp add: take_bit_eq_mod)
  then have "(of_nat (unat b + 256 * le_nat bs) :: 8 word) = b" by simp
  ultimately show ?case using Cons by (simp del: of_nat_add)
qed simp

section \<open>A shadow predicts the type of the value\<close>

text \<open>
  \<open>good\<close> are the types of values; \<open>solid\<close> is a value with a full data block, \<open>ghost\<close> a shadow. An
  outcome with shadows predicts one with values: it is never a fault, and if the other is none either,
  both are the same error, or the value has the type of the shadow.
\<close>

definition good :: "ty \<Rightarrow> bool" where
  "good t \<longleftrightarrow> strip_qualifiers t \<noteq> Scalar Error"

definition ghost :: "vm_value \<Rightarrow> bool" where
  "ghost v \<longleftrightarrow> v_shadow v \<and> good (v_type v)"

definition solid :: "vm_value \<Rightarrow> bool" where
  "solid v \<longleftrightarrow> \<not> v_shadow v \<and> good (v_type v) \<and> length (v_data v) = type_size (v_type v) \<and> v_message v = []"

definition twin :: "vm_value \<Rightarrow> vm_value \<Rightarrow> bool" where
  "twin s v \<longleftrightarrow> ghost s \<and> \<not> v_shadow v \<and> v_type v = v_type s"

definition predicts :: "vm_value result \<Rightarrow> vm_value result \<Rightarrow> bool" where
  "predicts rs rr \<longleftrightarrow> (\<exists>s. rs = Inr s \<and> (value_is_error s \<or> ghost s) \<and>
     (\<forall>r. rr = Inr r \<longrightarrow> (if value_is_error s then r = s else solid r \<and> v_type r = v_type s)))"

lemma good_simps [simp]: "\<not> good (Scalar Error)" "good (Const t) \<longleftrightarrow> good t" "good (Volatile t) \<longleftrightarrow> good t"
  "good (Scalar s) \<longleftrightarrow> s \<noteq> Error"
  by (simp_all add: good_def)

lemma good_int [simp]: "is_int_type t \<Longrightarrow> good t" "is_signed_int t \<Longrightarrow> good t" "is_unsigned_int t \<Longrightarrow> good t" "is_float_type t \<Longrightarrow> good t"
  by (auto simp: good_def is_int_type_def is_signed_int_def is_unsigned_int_def is_float_type_def)

lemma good_not_error: "good t \<Longrightarrow> t \<noteq> Scalar Error"
  by auto

lemma make_simps [simp]:
  "v_type (value_make t d) = t" "v_data (value_make t d) = d" "\<not> v_shadow (value_make t d)" "v_message (value_make t d) = []"
  "v_type (value_make_shadow t) = t" "v_shadow (value_make_shadow t)" "\<not> v_shadow (value_make_error m)" "value_is_error (value_make_error m)"
  by (simp_all add: value_make_def value_make_shadow_def value_make_error_def value_is_error_def)

lemma error_good: "value_is_error v \<Longrightarrow> \<not> good (v_type v)"
  by (simp add: value_is_error_def)

lemma twin_simps: "twin s v \<Longrightarrow> \<not> value_is_error s \<and> \<not> value_is_error v \<and> v_shadow s \<and> \<not> v_shadow v \<and> good (v_type s) \<and> v_type v = v_type s"
  by (auto simp: twin_def ghost_def dest: error_good)

lemma solid_make: "good t \<Longrightarrow> length d = type_size t \<Longrightarrow> solid (value_make t d)"
  by (simp add: solid_def)

lemma solid_twin: "solid v \<Longrightarrow> twin (value_make_shadow (v_type v)) v"
  by (simp add: solid_def twin_def ghost_def)

lemma ghost_has_twin: "ghost s \<Longrightarrow> \<exists>v. twin s v"
  by (intro exI [of _ "value_make (v_type s) []"]) (simp add: twin_def ghost_def)

lemma predicts_error [simp]: "predicts (Inr (value_make_error m)) (Inr (value_make_error m))"
  by (simp add: predicts_def)

lemma predicts_shadow:
  "good t \<Longrightarrow> (\<And>r. rr = Inr r \<Longrightarrow> solid r \<and> v_type r = t) \<Longrightarrow> predicts (Inr (value_make_shadow t)) rr"
  by (auto simp: predicts_def ghost_def dest: error_good)

lemma predicts_then:
  assumes p: "predicts rs rr" and f: "\<And>s v. twin s v \<Longrightarrow> rs = Inr s \<Longrightarrow> predicts (f s) (g v)"
  shows "predicts (and_then rs (\<lambda>x. if value_is_error x then Inr x else f x)) (and_then rr (\<lambda>x. if value_is_error x then Inr x else g x))"
proof -
  obtain s where s: "rs = Inr s" "value_is_error s \<or> ghost s"
    "\<And>r. rr = Inr r \<Longrightarrow> if value_is_error s then r = s else solid r \<and> v_type r = v_type s"
    using p by (auto simp: predicts_def)
  show ?thesis
  proof (cases "value_is_error s")
    case True
    then show ?thesis using s by (cases rr) (auto simp: predicts_def)
  next
    case False
    then have g: "ghost s" using s by blast
    show ?thesis
    proof (cases rr)
      case (Inl e)
      obtain v where "twin s v" using ghost_has_twin [OF g] by blast
      then show ?thesis using f [of s v] s False Inl by (simp add: predicts_def) metis
    next
      case (Inr r)
      then have "solid r" "v_type r = v_type s" using s(3) False by auto
      then have "twin s r" "\<not> value_is_error r" using g by (auto simp: twin_def solid_def ghost_def dest: error_good)
      then show ?thesis using f [of s r] s(1) False Inr by simp
    qed
  qed
qed

lemma store_solid:
  "int_store t x = Inr r \<Longrightarrow> is_int_type t \<Longrightarrow> solid r \<and> v_type r = t"
  "bool_store b = Inr r \<Longrightarrow> solid r \<and> v_type r = Scalar Boolean"
  "float_store fp t y = Inr r \<Longrightarrow> is_float_type t \<Longrightarrow> solid r \<and> v_type r = t"
  by (auto simp: int_store_def bool_store_def float_store_def solid_def good_int Let_def access_width_def is_int_type_def
      is_signed_int_def is_unsigned_int_def is_float_type_def split: if_splits)

lemma copy_solid: "identity_copy v t = Inr r \<Longrightarrow> \<not> v_shadow v \<Longrightarrow> good t \<Longrightarrow> solid r \<and> v_type r = t"
  by (auto simp: identity_copy_def value_alloc_data_copy_def solid_def split: if_splits)

lemma identity_predicts: "twin s v \<Longrightarrow> good t \<Longrightarrow> predicts (identity_copy s t) (identity_copy v t)"
  using twin_simps [of s v] copy_solid [of v t] by (auto simp: identity_copy_def [of s] intro!: predicts_shadow)


section \<open>Casts on shadows\<close>

text \<open>
  The one cast that a shadow passes and a value does not: an unsigned integer to a type at least as
  wide that is no integer.
\<close>

definition cast_gap :: "ty \<Rightarrow> ty \<Rightarrow> bool" where
  "cast_gap t u \<longleftrightarrow> is_unsigned_int (strip_qualifiers t) \<and> \<not> is_int_type u \<and> strip_qualifiers u \<noteq> strip_qualifiers t"

lemma strip_scalar: "type_qualifier_sub t = None \<Longrightarrow> strip_qualifiers t = t" "strip_qualifiers (strip_qualifiers t) = strip_qualifiers t"
  by (cases t; simp) (induction t; simp)

lemma scalar_types: "is_int_type t \<Longrightarrow> type_qualifier_sub t = None" "is_float_type t \<Longrightarrow> type_qualifier_sub t = None"
  by (auto simp: is_int_type_def is_signed_int_def is_unsigned_int_def is_float_type_def)

lemma try_qualify_predicts:
  assumes "twin s v" and "type_qualifier_sub (v_type s) = None"
    and "strip_qualifiers t \<noteq> v_type s \<or> type_qualifier_sub t = None \<Longrightarrow> predicts rs rr"
  shows "predicts (try_qualify s t rs) (try_qualify v t rr)"
proof (cases "type_qualifier_sub t = None")
  case True
  then show ?thesis using assms(3) by (simp add: try_qualify_def)
next
  case q: False
  note tw = twin_simps [OF assms(1)]
  show ?thesis
  proof (cases "strip_qualifiers t = v_type s")
    case True
    then have "predicts (identity_copy s t) (identity_copy v t)" using identity_predicts [OF assms(1), of t] tw assms(2)
      by (simp add: good_def strip_scalar)
    moreover have "value_implicit_qualify s t = identity_copy s t" "value_implicit_qualify v t = identity_copy v t"
      using True tw by (simp_all add: value_implicit_qualify_def)
    moreover have "identity_copy s t = Inr (value_make_shadow t)" using tw by (simp add: identity_copy_def)
    moreover have "good t" using True tw assms(2) by (simp add: good_def strip_scalar)
    ultimately show ?thesis using q
      by (cases "identity_copy v t") (auto simp: try_qualify_def predicts_def value_is_error_def solid_def)
  next
    case False
    then show ?thesis using q tw assms(3) by (simp add: try_qualify_def value_implicit_qualify_def)
  qed
qed

lemma sint_cast_predicts:
  "twin s v \<Longrightarrow> is_signed_int (v_type s) \<Longrightarrow> predicts (sint_implicit_cast s t) (sint_implicit_cast v t)"
  using twin_simps [of s v] scalar_types(1) [of "v_type s"] unfolding sint_implicit_cast_def
  by (intro try_qualify_predicts)
    (auto simp: is_int_type_def and_then_def intro!: predicts_shadow dest!: store_solid(1) split: sum.splits)

lemma float_cast_predicts:
  "twin s v \<Longrightarrow> is_float_type (v_type s) \<Longrightarrow> predicts (float_implicit_cast fp s t) (float_implicit_cast fp v t)"
  using twin_simps [of s v] scalar_types(2) [of "v_type s"] unfolding float_implicit_cast_def
  by (intro try_qualify_predicts)
    (auto simp: is_float_type_def and_then_def intro!: predicts_shadow dest!: store_solid(3) split: sum.splits)

lemma uint_cast_predicts:
  assumes "twin s v" and "is_unsigned_int (v_type s)" and "\<not> cast_gap (v_type s) t"
  shows "predicts (uint_implicit_cast s t) (uint_implicit_cast v t)"
proof -
  note tw = twin_simps [OF assms(1)]
  have u: "type_qualifier_sub (v_type s) = None" using assms(2) scalar_types(1) by (simp add: is_int_type_def)
  have int: "is_signed_int t \<or> is_unsigned_int t" if "strip_qualifiers t \<noteq> v_type s \<or> type_qualifier_sub t = None"
    using that assms(2,3) u strip_scalar(1) [of "v_type s"] strip_scalar(1) [of t] by (auto simp: cast_gap_def is_int_type_def)
  show ?thesis unfolding uint_implicit_cast_def
    using tw int by (intro try_qualify_predicts [OF assms(1) u])
      (auto simp: is_int_type_def and_then_def intro!: predicts_shadow dest!: store_solid(1) split: sum.splits)
qed

lemma gap_sub: "cast_gap (Const t) u = cast_gap t u" "cast_gap (Volatile t) u = cast_gap t u"
  by (simp_all add: cast_gap_def)

lemma twin_retype: "twin s v \<Longrightarrow> good t \<Longrightarrow> twin (s\<lparr>v_type := t\<rparr>) (v\<lparr>v_type := t\<rparr>)"
  by (simp add: twin_def ghost_def)

lemma cast_slot_predicts:
  "twin s v \<Longrightarrow> v_type s = t \<Longrightarrow> \<not> cast_gap t u \<Longrightarrow> implicit_cast_slot fp t = Some cast \<Longrightarrow> predicts (cast s u) (cast v u)"
proof (induction t arbitrary: s v cast)
  case (Scalar x)
  then show ?case using sint_cast_predicts [of s v u] uint_cast_predicts [of s v u] float_cast_predicts [of s v fp u]
    by (auto split: if_splits)
next
  case (Const t)
  have t: "good t" using Const.prems twin_simps [of s v] by simp
  show ?case
    using Const.prems Const.IH [OF twin_retype [OF Const.prems(1) t]] identity_predicts [OF Const.prems(1) t]
    by (auto simp: c_implicit_cast_def gap_sub split: option.splits)
next
  case (Volatile t)
  have t: "good t" using Volatile.prems twin_simps [of s v] by simp
  show ?case
    using Volatile.prems Volatile.IH [OF twin_retype [OF Volatile.prems(1) t]] identity_predicts [OF Volatile.prems(1) t]
    by (auto simp: v_implicit_cast_def gap_sub split: option.splits)
qed

lemma implicit_cast_predicts:
  assumes "twin s v" and "\<not> cast_gap (v_type s) u"
  shows "predicts (value_implicit_cast fp s u) (value_implicit_cast fp v u)"
proof (cases "v_type s = u")
  case True
  then show ?thesis using identity_predicts [OF assms(1), of u] twin_simps [OF assms(1)] by (simp add: value_implicit_cast_def)
next
  case False
  then show ?thesis using twin_simps [OF assms(1)] cast_slot_predicts [OF assms(1) refl assms(2), of fp]
    by (auto simp: value_implicit_cast_def split: option.split)
qed

section \<open>Operators on shadows\<close>

text \<open>Every operator is the macro, the two tests, and a computation whose results have the announced type.\<close>

definition well_made :: "fpu \<Rightarrow> (ty \<Rightarrow> bin_slot) \<Rightarrow> bin_slot \<Rightarrow> bool" where
  "well_made fp again slot \<longleftrightarrow> (\<exists>ok symbol rt rest.
     (\<forall>a b. slot a b = vtable_binary fp again a b (checked (ok (v_type a) (v_type b)) symbol a b (rt (v_type a)) (rest a b))) \<and>
     (\<forall>t. ok t t \<longrightarrow> good (rt t)) \<and>
     (\<forall>a b r. v_type a = v_type b \<longrightarrow> ok (v_type a) (v_type b) \<longrightarrow> rest a b = Inr r \<longrightarrow> solid r \<and> v_type r = rt (v_type a)))"

lemma well_madeI:
  assumes "\<And>a b. slot a b = vtable_binary fp again a b (checked (ok (v_type a) (v_type b)) symbol a b (rt (v_type a)) (rest a b))"
    and "\<And>t. ok t t \<Longrightarrow> good (rt t)"
    and "\<And>a b r. v_type a = v_type b \<Longrightarrow> ok (v_type a) (v_type b) \<Longrightarrow> rest a b = Inr r \<Longrightarrow> solid r \<and> v_type r = rt (v_type a)"
  shows "well_made fp again slot"
  unfolding well_made_def using assms by blast

lemma then_Inr: "and_then r f = Inr y \<longleftrightarrow> (\<exists>x. r = Inr x \<and> f x = Inr y)"
  by (cases r) simp_all

lemmas op_defs = int_add_def int_sub_def int_mul_def int_eq_def int_ne_def int_band_def int_bor_def int_bxor_def int_shl_def
  sint_div_def sint_mod_def sint_shr_def sint_lt_def sint_le_def sint_gt_def sint_ge_def
  uint_div_def uint_mod_def uint_shr_def uint_lt_def uint_le_def uint_gt_def uint_ge_def bool_eq_def bool_ne_def
  float_add_def float_sub_def float_mul_def float_div_def float_mod_def float_eq_def float_ne_def float_lt_def float_le_def
  float_gt_def float_ge_def

lemma int_kinds: "is_signed_int t \<Longrightarrow> is_int_type t" "is_unsigned_int t \<Longrightarrow> is_int_type t"
  by (simp_all add: is_int_type_def)

lemma well_made_int:
  "well_made fp again (int_add fp again)" "well_made fp again (int_sub fp again)" "well_made fp again (int_mul fp again)"
  "well_made fp again (int_eq fp again)" "well_made fp again (int_ne fp again)" "well_made fp again (int_band fp again)"
  "well_made fp again (int_bor fp again)" "well_made fp again (int_bxor fp again)" "well_made fp again (int_shl fp again)"
  by ((rule well_madeI, rule op_defs; auto simp: both_def then_Inr dest: store_solid)+)

lemma well_made_sint:
  "well_made fp again (sint_div fp again)" "well_made fp again (sint_mod fp again)" "well_made fp again (sint_shr fp again)"
  "well_made fp again (sint_lt fp again)" "well_made fp again (sint_le fp again)" "well_made fp again (sint_gt fp again)"
  "well_made fp again (sint_ge fp again)"
  by ((rule well_madeI, rule op_defs; auto simp: both_def then_Inr int_kinds dest: store_solid split: if_splits)+)

lemma well_made_uint:
  "well_made fp again (uint_div fp again)" "well_made fp again (uint_mod fp again)" "well_made fp again (uint_shr fp again)"
  "well_made fp again (uint_lt fp again)" "well_made fp again (uint_le fp again)" "well_made fp again (uint_gt fp again)"
  "well_made fp again (uint_ge fp again)"
  by ((rule well_madeI, rule op_defs; auto simp: both_def then_Inr int_kinds dest: store_solid split: if_splits)+)

lemma well_made_float:
  "well_made fp again (float_add fp again)" "well_made fp again (float_sub fp again)" "well_made fp again (float_mul fp again)"
  "well_made fp again (float_div fp again)" "well_made fp again (float_mod fp again)" "well_made fp again (float_eq fp again)"
  "well_made fp again (float_ne fp again)" "well_made fp again (float_lt fp again)" "well_made fp again (float_le fp again)"
  "well_made fp again (float_gt fp again)" "well_made fp again (float_ge fp again)"
  by ((rule well_madeI, rule op_defs; auto simp: both_def then_Inr dest: store_solid split: if_splits)+)

lemma well_made_bool: "well_made fp again (bool_eq fp again)" "well_made fp again (bool_ne fp again)"
  by (rule well_madeI [where ok = "\<lambda>t u. t = Scalar Boolean \<and> u = Scalar Boolean" and rt = "\<lambda>_. Scalar Boolean"], rule op_defs;
      auto simp: both_def then_Inr dest: store_solid)+

lemma scalar_vtable_made: "scalar_vtable fp again t op = Some slot \<Longrightarrow> well_made fp again slot"
  using well_made_int [of fp again] well_made_sint [of fp again] well_made_uint [of fp again] well_made_float [of fp again] well_made_bool [of fp again]
  by (cases op) (auto simp: scalar_vtable_def split: if_splits)

lemma checked_predicts:
  assumes "twin sa a" and "twin sb b" and "ok \<Longrightarrow> good t" and "\<And>r. ok \<Longrightarrow> rr = Inr r \<Longrightarrow> solid r \<and> v_type r = t"
  shows "predicts (checked ok symbol sa sb t rs) (checked ok symbol a b t rr)"
  using twin_simps [OF assms(1)] twin_simps [OF assms(2)] assms(3,4)
  by (cases ok) (auto simp: checked_def intro!: predicts_shadow)

lemma ghost_cast_type:
  "ghost s \<Longrightarrow> v_type s = t \<Longrightarrow> implicit_cast_slot fp t = Some cast \<Longrightarrow> cast s u = Inr r \<Longrightarrow> \<not> value_is_error r \<Longrightarrow> v_type r = u"
proof (induction t arbitrary: s cast)
  case (Scalar x)
  then show ?case
    by (auto simp: ghost_def sint_implicit_cast_def uint_implicit_cast_def float_implicit_cast_def try_qualify_def
        value_implicit_qualify_def identity_copy_def split: if_splits)
next
  case (Const t)
  then have g: "ghost (s\<lparr>v_type := t\<rparr>)" by (simp add: ghost_def)
  show ?case
  proof (cases "implicit_cast_slot fp t")
    case (Some f)
    then show ?thesis using Const.prems Const.IH [OF g _ Some]
      by (auto simp: c_implicit_cast_def identity_copy_def ghost_def split: if_splits)
  qed (use Const.prems in \<open>auto simp: c_implicit_cast_def\<close>)
next
  case (Volatile t)
  then have g: "ghost (s\<lparr>v_type := t\<rparr>)" by (simp add: ghost_def)
  show ?case
  proof (cases "implicit_cast_slot fp t")
    case (Some f)
    then show ?thesis using Volatile.prems Volatile.IH [OF g _ Some]
      by (auto simp: v_implicit_cast_def identity_copy_def ghost_def split: if_splits)
  qed (use Volatile.prems in \<open>auto simp: v_implicit_cast_def\<close>)
qed

lemma ghost_implicit_cast_type:
  "ghost s \<Longrightarrow> value_implicit_cast fp s u = Inr r \<Longrightarrow> \<not> value_is_error r \<Longrightarrow> v_type r = u"
  using ghost_cast_type [of s _ fp _ u r]
  by (auto simp: value_implicit_cast_def identity_copy_def ghost_def split: if_splits option.splits)

lemma category_scalar: "type_category t \<noteq> CAT_NONE \<Longrightarrow> strip_qualifiers t = t"
  by (cases t) (auto simp: type_category_def is_signed_int_def is_unsigned_int_def is_float_type_def)

lemma category_uint: "type_category t = CAT_UINT \<longleftrightarrow> is_unsigned_int t"
  by (auto simp: type_category_def is_signed_int_def is_unsigned_int_def is_float_type_def)

lemma promote_no_gap:
  assumes "type_promote a b = Some rt" and "a \<noteq> b"
  shows "\<not> cast_gap a rt" and "\<not> cast_gap b rt"
proof -
  have c: "type_category a = type_category b" "type_category a \<noteq> CAT_NONE" "rt \<in> {a, b, Scalar Usize}"
    "rt = Scalar Usize \<Longrightarrow> type_category a = CAT_UINT \<or> rt \<in> {a, b}"
    using assms by (auto simp: type_promote_def Let_def split: if_splits)
  have "strip_qualifiers a = a" "strip_qualifiers b = b" using c(1,2) category_scalar by simp_all
  moreover have "is_unsigned_int a \<longleftrightarrow> is_unsigned_int b" using c(1) category_uint by metis
  moreover have "is_unsigned_int (Scalar Usize)" by (simp add: is_unsigned_int_def)
  ultimately show "\<not> cast_gap a rt" "\<not> cast_gap b rt" using c(3) by (auto simp: cast_gap_def is_int_type_def)
qed

lemma made_same:
  assumes tw: "twin sa a" "twin sb b" and "v_type sa = t" and "v_type sb = t" and "well_made fp again slot"
  shows "predicts (slot sa sb) (slot a b)"
proof -
  obtain ok symbol rt rest where
    slot: "\<And>a b. slot a b = vtable_binary fp again a b (checked (ok (v_type a) (v_type b)) symbol a b (rt (v_type a)) (rest a b))"
    and good: "\<And>t. ok t t \<Longrightarrow> good (rt t)"
    and rest: "\<And>a b r. v_type a = v_type b \<Longrightarrow> ok (v_type a) (v_type b) \<Longrightarrow> rest a b = Inr r \<Longrightarrow> solid r \<and> v_type r = rt (v_type a)"
    using assms(5) unfolding well_made_def by blast
  note ta = twin_simps [OF tw(1)] and tb = twin_simps [OF tw(2)]
  have types: "v_type a = t" "v_type b = t" "v_type sa = t" "v_type sb = t" using ta tb assms(3,4) by simp_all
  have "predicts (checked (ok t t) symbol sa sb (rt t) (rest sa sb)) (checked (ok t t) symbol a b (rt t) (rest a b))"
    by (rule checked_predicts [OF tw]) (use good [of t] rest [of a b] in \<open>simp_all add: types\<close>)
  then show ?thesis using ta tb unfolding slot vtable_binary_def types by simp
qed

lemma cast_then:
  assumes tw: "twin s v" and gap: "\<not> cast_gap (v_type s) u" and f: "\<And>s v. twin s v \<Longrightarrow> v_type s = u \<Longrightarrow> predicts (f s) (g v)"
  shows "predicts (and_then (value_implicit_cast fp s u) (\<lambda>x. if value_is_error x then Inr x else f x))
    (and_then (value_implicit_cast fp v u) (\<lambda>x. if value_is_error x then Inr x else g x))"
proof (rule predicts_then [OF implicit_cast_predicts [OF tw gap]])
  fix s' v' assume t: "twin s' v'" and r: "value_implicit_cast fp s u = Inr s'"
  have "\<not> value_is_error s'" using twin_simps [OF t] by blast
  moreover have "ghost s" using tw by (simp add: twin_def)
  ultimately have "v_type s' = u" using ghost_implicit_cast_type r by blast
  then show "predicts (f s') (g v')" by (rule f [OF t])
qed

lemma made_predicts:
  assumes made: "well_made fp again slot" and tw: "twin sa a" "twin sb b"
    and gap: "v_type sa \<noteq> v_type sb \<Longrightarrow> \<not> cast_gap (v_type sb) (v_type sa)"
    and again: "\<And>t x x' y y'. t = v_type sa \<or> type_promote (v_type sa) (v_type sb) = Some t \<Longrightarrow>
      twin x x' \<Longrightarrow> twin y y' \<Longrightarrow> v_type x = t \<Longrightarrow> v_type y = t \<Longrightarrow> predicts (again t x y) (again t x' y')"
  shows "predicts (slot sa sb) (slot a b)"
proof -
  obtain ok symbol rt rest where
    slot: "\<And>a b. slot a b = vtable_binary fp again a b (checked (ok (v_type a) (v_type b)) symbol a b (rt (v_type a)) (rest a b))"
    and good: "\<And>t. ok t t \<Longrightarrow> good (rt t)"
    and rest: "\<And>a b r. v_type a = v_type b \<Longrightarrow> ok (v_type a) (v_type b) \<Longrightarrow> rest a b = Inr r \<Longrightarrow> solid r \<and> v_type r = rt (v_type a)"
    using made unfolding well_made_def by blast
  note ta = twin_simps [OF tw(1)] and tb = twin_simps [OF tw(2)]
  have tys: "v_type a = v_type sa" "v_type b = v_type sb" using ta tb by blast+
  show ?thesis
  proof (cases "v_type sa = v_type sb")
    case True
    show ?thesis by (rule made_same [OF tw refl True [symmetric] made])
  next
    case ne: False
    show ?thesis
    proof (cases "type_promote (v_type sa) (v_type sb)")
      case None
      have "predicts (and_then (value_implicit_cast fp sb (v_type sa)) (\<lambda>b2. if value_is_error b2 then Inr b2 else again (v_type sa) sa b2))
        (and_then (value_implicit_cast fp b (v_type sa)) (\<lambda>b2. if value_is_error b2 then Inr b2 else again (v_type sa) a b2))"
        by (rule cast_then [OF tw(2) gap [OF ne]], rule again [OF disjI1 [OF refl] tw(1) _ refl])
      then show ?thesis using None ne ta tb unfolding slot vtable_binary_def tys by simp
    next
      case (Some u)
      note ng = promote_no_gap [OF Some ne]
      have "predicts (and_then (value_implicit_cast fp sa u) (\<lambda>a2. if value_is_error a2 then Inr a2
            else and_then (value_implicit_cast fp sb u) (\<lambda>b2. if value_is_error b2 then Inr b2 else again u a2 b2)))
        (and_then (value_implicit_cast fp a u) (\<lambda>a2. if value_is_error a2 then Inr a2
            else and_then (value_implicit_cast fp b u) (\<lambda>b2. if value_is_error b2 then Inr b2 else again u a2 b2)))"
        by (rule cast_then [OF tw(1) ng(1)], rule cast_then [OF tw(2) ng(2)], rule again [OF disjI2 [OF Some]])
      then show ?thesis using Some ne ta tb unfolding slot vtable_binary_def tys by simp
    qed
  qed
qed


section \<open>Qualifiers and dispatch on shadows\<close>

lemma scalar_vtable_again: "scalar_vtable fp again t op \<noteq> None \<Longrightarrow> scalar_vtable fp again' t op \<noteq> None"
  by (cases op) (auto simp: scalar_vtable_def split: if_splits)

lemma call_again_predicts:
  assumes "twin sa a" and "twin sb b" and "v_type sa = t" and "v_type sb = t" and "scalar_vtable fp again t op \<noteq> None"
  shows "predicts (call_again fp op t sa sb) (call_again fp op t a b)"
proof -
  obtain slot where s: "scalar_vtable fp (\<lambda>_ _ _. Inl (Undefined ''third call'')) t op = Some slot"
    using scalar_vtable_again [OF assms(5)] by fastforce
  then show ?thesis using made_same [OF assms(1-4) scalar_vtable_made [OF s]] by (simp add: call_again_def)
qed

text \<open>Operands of two scalar types are brought to a type whose table has the slot too.\<close>

lemma promote_slot:
  assumes "type_promote t u = Some r" and "scalar_vtable fp again t op \<noteq> None"
  shows "scalar_vtable fp again r op \<noteq> None"
proof -
  have "type_category r = type_category t"
    using assms(1) by (auto simp: type_promote_def Let_def category_uint is_unsigned_int_def split: if_splits)
  then show ?thesis using assms(2)
    by (cases op) (auto simp: scalar_vtable_def type_category_def split: if_splits)
qed

lemma binop_slot_predicts:
  "binop_slot fp op t = Some slot \<Longrightarrow> twin sa a \<Longrightarrow> twin sb b \<Longrightarrow> v_type sa = t \<Longrightarrow>
   \<not> cast_gap (v_type sb) (strip_qualifiers t) \<Longrightarrow> predicts (slot sa sb) (slot a b)"
proof (induction t arbitrary: slot sa a sb b)
  case (Scalar x)
  have v: "scalar_vtable fp (call_again fp op) (Scalar x) op = Some slot" using Scalar by simp
  show ?case
  proof (rule made_predicts [OF scalar_vtable_made [OF v] Scalar.prems(2,3)])
    show "\<not> cast_gap (v_type sb) (v_type sa)" using Scalar.prems by simp
    fix t p p' q q'
    assume t: "t = v_type sa \<or> type_promote (v_type sa) (v_type sb) = Some t" and tw: "twin p p'" "twin q q'" "v_type p = t" "v_type q = t"
    have "scalar_vtable fp (call_again fp op) t op \<noteq> None" using t promote_slot [of "v_type sa" "v_type sb" t] v Scalar.prems(4) by auto
    then show "predicts (call_again fp op t p q) (call_again fp op t p' q')" by (rule call_again_predicts [OF tw])
  qed
next
  case (Const t)
  have tg: "good t" using twin_simps [OF Const.prems(2)] Const.prems(4) by simp
  show ?case
  proof (cases "binop_slot fp op t")
    case (Some f)
    have "predicts (proxy_binary t f sa sb) (proxy_binary t f a b)"
      unfolding proxy_binary_def using twin_simps [OF Const.prems(3)] Const.prems(5) strip_scalar(2)
      by (auto intro!: Const.IH [OF Some] twin_retype Const.prems(2,3) tg simp: cast_gap_def)
    then show ?thesis using Some Const.prems(1) by auto
  qed (use Const.prems(1) in auto)
next
  case (Volatile t)
  have tg: "good t" using twin_simps [OF Volatile.prems(2)] Volatile.prems(4) by simp
  show ?case
  proof (cases "binop_slot fp op t")
    case (Some f)
    have "predicts (proxy_binary t f sa sb) (proxy_binary t f a b)"
      unfolding proxy_binary_def using twin_simps [OF Volatile.prems(3)] Volatile.prems(5) strip_scalar(2)
      by (auto intro!: Volatile.IH [OF Some] twin_retype Volatile.prems(2,3) tg simp: cast_gap_def)
    then show ?thesis using Some Volatile.prems(1) by auto
  qed (use Volatile.prems(1) in auto)
qed

lemma scalar_unop_predicts:
  assumes "twin s v" and "scalar_unop fp (v_type s) op = Some slot"
  shows "predicts (slot s) (slot v)"
proof -
  note tw = twin_simps [OF assms(1)] and c = checked_predicts [OF assms(1) assms(1)]
  let ?t = "v_type s"
  have "predicts (int_bnot s) (int_bnot v)" if "is_int_type ?t"
    using tw that unfolding int_bnot_def by (auto intro!: c simp: then_Inr store_solid(1))
  moreover have "predicts (sint_neg s) (sint_neg v)" if "is_signed_int ?t"
    using tw that int_kinds(1) unfolding sint_neg_def by (auto intro!: c simp: then_Inr store_solid(1))
  moreover have "predicts (float_neg fp s) (float_neg fp v)" if "is_float_type ?t"
    using tw that unfolding float_neg_def by (auto intro!: c simp: then_Inr store_solid(3))
  moreover have "predicts (bool_lnot s) (bool_lnot v)" if "?t = Scalar Boolean"
    using tw that unfolding bool_lnot_def by (auto intro!: c simp: then_Inr store_solid(2))
  ultimately show ?thesis using assms(2) by (cases op) (auto simp: scalar_unop_def split: if_splits)
qed

lemma unop_slot_predicts:
  "unop_slot fp op t = Some slot \<Longrightarrow> twin s v \<Longrightarrow> v_type s = t \<Longrightarrow> predicts (slot s) (slot v)"
proof (induction t arbitrary: slot s v)
  case (Scalar x)
  then show ?case using scalar_unop_predicts [of s v fp op slot] by simp
next
  case (Const t)
  have tg: "good t" using twin_simps [OF Const.prems(2)] Const.prems(3) by simp
  show ?case using Const.prems(1) Const.IH [OF _ twin_retype [OF Const.prems(2) tg]]
    by (cases "unop_slot fp op t") (auto simp: proxy_unary_def)
next
  case (Volatile t)
  have tg: "good t" using twin_simps [OF Volatile.prems(2)] Volatile.prems(3) by simp
  show ?case using Volatile.prems(1) Volatile.IH [OF _ twin_retype [OF Volatile.prems(2) tg]]
    by (cases "unop_slot fp op t") (auto simp: proxy_unary_def)
qed

lemma int_width: "is_int_type u \<Longrightarrow> access_width (type_size u) = type_size u"
  by (auto simp: is_int_type_def is_signed_int_def is_unsigned_int_def access_width_def)

lemma predicts_cast:
  assumes "twin s v" and "v_shadow s \<Longrightarrow> rs = (if ok then Inr (value_make_shadow u) else Inr (value_make_error m))"
    and "ok \<Longrightarrow> good u" and "\<And>r. rr = Inr r \<Longrightarrow> if ok then solid r \<and> v_type r = u else r = value_make_error m"
  shows "predicts rs rr"
proof (cases ok)
  case True
  then show ?thesis using assms twin_simps [OF assms(1)] by (auto intro!: predicts_shadow)
next
  case False
  then show ?thesis using assms(2,4) twin_simps [OF assms(1)]
    unfolding predicts_def by (intro exI [of _ "value_make_error m"]) auto
qed

lemma int_explicit_predicts:
  assumes "twin s v"
  shows "predicts (sint_explicit_cast fp s u) (sint_explicit_cast fp v u)" and "predicts (uint_explicit_cast fp s u) (uint_explicit_cast fp v u)"
proof -
  let ?ok = "is_int_type u \<or> is_float_type u \<or> u = Scalar Boolean"
  note tw = twin_simps [OF assms]
  have g: "?ok \<Longrightarrow> good u" by auto
  show "predicts (sint_explicit_cast fp s u) (sint_explicit_cast fp v u)"
  proof (rule predicts_cast [OF assms _ g])
    fix r assume "sint_explicit_cast fp v u = Inr r"
    then show "if ?ok then solid r \<and> v_type r = u else r = value_make_error ''explicit cast: incompatible target type''"
      using tw by (auto simp: sint_explicit_cast_def then_Inr is_float_type_def intro!: solid_make dest: store_solid split: if_splits)
  qed (simp add: sint_explicit_cast_def)
  show "predicts (uint_explicit_cast fp s u) (uint_explicit_cast fp v u)"
  proof (rule predicts_cast [OF assms _ g])
    fix r assume "uint_explicit_cast fp v u = Inr r"
    then show "if ?ok then solid r \<and> v_type r = u else r = value_make_error ''explicit cast: incompatible target type''"
      using tw by (auto simp: uint_explicit_cast_def then_Inr is_float_type_def intro!: solid_make dest: store_solid split: if_splits)
  qed (simp add: uint_explicit_cast_def)
qed

lemma bool_explicit_predicts:
  assumes "twin s v"
  shows "predicts (bool_explicit_cast fp s u) (bool_explicit_cast fp v u)"
proof (rule predicts_cast [OF assms, where ok = "is_signed_int u \<or> is_unsigned_int u \<or> is_float_type u"])
  fix r assume "bool_explicit_cast fp v u = Inr r"
  then show "if is_signed_int u \<or> is_unsigned_int u \<or> is_float_type u then solid r \<and> v_type r = u
      else r = value_make_error ''explicit cast: incompatible target type''"
    using twin_simps [OF assms]
    by (auto simp: bool_explicit_cast_def then_Inr is_float_type_def value_alloc_data_copy_def Let_def intro!: solid_make split: if_splits)
qed (auto simp: bool_explicit_cast_def)

lemma float_explicit_predicts:
  assumes "twin s v"
  shows "predicts (float_explicit_cast fp s u) (float_explicit_cast fp v u)"
proof (rule predicts_cast [OF assms, where ok = "is_float_type u \<or> is_signed_int u \<or> is_unsigned_int u \<or> u = Scalar Boolean"])
  fix r assume "float_explicit_cast fp v u = Inr r"
  then show "if is_float_type u \<or> is_signed_int u \<or> is_unsigned_int u \<or> u = Scalar Boolean then solid r \<and> v_type r = u
      else r = value_make_error ''explicit cast: incompatible target type''"
    using twin_simps [OF assms] int_width [of u] int_kinds [of u]
    by (auto simp: float_explicit_cast_def then_Inr Let_def intro!: solid_make dest: store_solid split: if_splits option.splits)
qed (auto simp: float_explicit_cast_def)

lemma explicit_slot_predicts:
  "explicit_cast_slot fp t = Some cast \<Longrightarrow> twin s v \<Longrightarrow> v_type s = t \<Longrightarrow> predicts (cast s u) (cast v u)"
proof (induction t arbitrary: cast s v)
  case (Scalar x)
  show ?case
    using Scalar int_explicit_predicts [OF Scalar.prems(2)] float_explicit_predicts [OF Scalar.prems(2)] bool_explicit_predicts [OF Scalar.prems(2)]
    by (auto split: if_splits)
next
  case (Const t)
  have tg: "good t" using twin_simps [OF Const.prems(2)] Const.prems(3) by simp
  show ?case using Const.prems(1) Const.IH [OF _ twin_retype [OF Const.prems(2) tg]]
    by (cases "explicit_cast_slot fp t") (auto simp: c_explicit_cast_def)
next
  case (Volatile t)
  have tg: "good t" using twin_simps [OF Volatile.prems(2)] Volatile.prems(3) by simp
  show ?case using Volatile.prems(1) Volatile.IH [OF _ twin_retype [OF Volatile.prems(2) tg]]
    by (cases "explicit_cast_slot fp t") (auto simp: v_explicit_cast_def)
qed

text \<open>
  The excepted cast: the shadow of an unsigned integer passes as any unqualified type at
  least as wide that is no integer, such as \<open>f64\<close> or \<open>bool\<close>, while the cast of every value of the type
  is an error.
\<close>

lemma unsigned_shadow_gap:
  assumes "is_unsigned_int t" and "\<not> is_int_type u" and "type_qualifier_sub u = None" and "type_size t \<le> type_size u"
    and "solid v" and "v_type v = t"
  shows "value_implicit_cast fp (value_make_shadow t) u = Inr (value_make_shadow u) \<and>
    value_implicit_cast fp v u = Inr (value_make_error ''implicit cast: incompatible target type'')"
proof -
  obtain s where t: "t = Scalar s" "\<not> is_signed_int t" "u \<noteq> t" "\<not> is_signed_int u" "\<not> is_unsigned_int u"
    using assms(1,2) by (cases t) (auto simp: is_int_type_def is_unsigned_int_def is_signed_int_def)
  have slot: "implicit_cast_slot fp t = Some uint_implicit_cast" using t(1,2) assms(1) by simp
  have ne: "\<not> value_is_error (value_make_shadow t)" "\<not> value_is_error v"
    using assms(1,6) by (auto simp: value_is_error_def is_unsigned_int_def)
  have "\<exists>x. uint_read v = Inr x"
    using assms(5,6) int_width [of t] assms(1) by (simp add: uint_read_def read_bytes_def solid_def is_int_type_def)
  then obtain x where x: "uint_read v = Inr x" by blast
  have "uint_implicit_cast (value_make_shadow t) u = Inr (value_make_shadow u)"
    using assms(3,4) t(4) by (simp add: uint_implicit_cast_def try_qualify_def)
  moreover have "uint_implicit_cast v u = Inr (value_make_error ''implicit cast: incompatible target type'')"
    using assms(3-6) t(4,5) x by (simp add: uint_implicit_cast_def try_qualify_def solid_def)
  ultimately show ?thesis using ne t(3) slot assms(6) by (simp add: value_implicit_cast_def)
qed

text \<open>
  C24 (type). Evaluation on shadows is a sound type checker of the scalar expressions, but for one
  cast: it is never a fault; and whenever the evaluation of an operator or a cast on values ends, it
  gives the same error, or a value of the announced type with a full data block. This holds of every
  unary operator and every explicit cast; it holds of the implicit casts but those of an unsigned
  integer to a type that is no integer, and of the binary operators but those that bring their right
  operand to the left type by such a cast. For an excepted cast to an unqualified type at least as
  wide it fails: the shadow becomes one of that type, and the cast of every value is an error.
\<close>

theorem shadow_evaluation_sound:
  fixes fp :: fpu and a b :: vm_value
  assumes "solid a" and "solid b"
  defines "sa \<equiv> value_make_shadow (v_type a)" and "sb \<equiv> value_make_shadow (v_type b)"
  shows "(\<not> cast_gap (v_type b) (strip_qualifiers (v_type a)) \<longrightarrow> predicts (value_binary fp op sa sb) (value_binary fp op a b)) \<and>
    predicts (value_unary fp uop sa) (value_unary fp uop a) \<and>
    (\<not> cast_gap (v_type a) u \<longrightarrow> predicts (value_implicit_cast fp sa u) (value_implicit_cast fp a u)) \<and>
    predicts (value_explicit_cast fp sa u) (value_explicit_cast fp a u) \<and>
    (is_unsigned_int (v_type a) \<and> \<not> is_int_type u \<and> type_qualifier_sub u = None \<and> type_size (v_type a) \<le> type_size u \<longrightarrow>
      cast_gap (v_type a) u \<and> value_implicit_cast fp sa u = Inr (value_make_shadow u) \<and>
      value_implicit_cast fp a u = Inr (value_make_error ''implicit cast: incompatible target type''))"
proof -
  have ta: "twin sa a" and tb: "twin sb b" using solid_twin assms by simp_all
  note simps = twin_simps [OF ta] twin_simps [OF tb]
  have "predicts (value_binary fp op sa sb) (value_binary fp op a b)" if "\<not> cast_gap (v_type b) (strip_qualifiers (v_type a))"
    using simps binop_slot_predicts [OF _ ta tb, of fp op "v_type sa"] that
    by (cases "binop_slot fp op (v_type sa)") (simp_all add: value_binary_def)
  moreover have "predicts (value_unary fp uop sa) (value_unary fp uop a)"
    using simps unop_slot_predicts [OF _ ta refl, of fp uop] by (cases "unop_slot fp uop (v_type sa)") (simp_all add: value_unary_def)
  moreover have "predicts (value_implicit_cast fp sa u) (value_implicit_cast fp a u)" if "\<not> cast_gap (v_type a) u"
    by (rule implicit_cast_predicts [OF ta]) (use that simps in simp)
  moreover have "predicts (value_explicit_cast fp sa u) (value_explicit_cast fp a u)"
  proof (cases "v_type sa = u")
    case True
    have "predicts (value_clone sa) (value_clone a)"
      using simps assms(1) by (auto simp: value_clone_def value_alloc_data_copy_def solid_def intro!: predicts_shadow)
    then show ?thesis using simps True by (simp add: value_explicit_cast_def)
  next
    case False
    then show ?thesis using simps explicit_slot_predicts [OF _ ta refl, of fp]
      by (cases "explicit_cast_slot fp (v_type sa)") (simp_all add: value_explicit_cast_def)
  qed
  moreover have "cast_gap (v_type a) u"
    if "is_unsigned_int (v_type a)" "\<not> is_int_type u" "type_qualifier_sub u = None"
    using that by (auto simp: cast_gap_def is_int_type_def is_unsigned_int_def is_signed_int_def strip_scalar(1))
  moreover note unsigned_shadow_gap [of "v_type a" u a fp] assms(1)
  ultimately show ?thesis unfolding sa_def by blast
qed

text \<open>A machine without a floating-point unit worth the name, for the examples.\<close>

definition no_fpu :: fpu where
  "no_fpu = \<lparr>widen = (\<lambda>_. 0), narrow = (\<lambda>_. 0), fadd = (\<lambda>_ _. 0), fsub = (\<lambda>_ _. 0), fmul = (\<lambda>_ _. 0), fdiv = (\<lambda>_ _. 0),
     ffmod = (\<lambda>_ _. 0), fneg = (\<lambda>_. 0), feq = (\<lambda>_ _. True), flt = (\<lambda>_ _. False), fle = (\<lambda>_ _. True),
     int_to_float = (\<lambda>_. 0), int_to_double = (\<lambda>_. 0), double_trunc = (\<lambda>_. Some 0)\<rparr>"

theorem shadow_evaluation_sound_witness:
  "predicts (value_binary no_fpu Add (value_make_shadow (Const (Scalar I32))) (value_make_shadow (Scalar I8)))
     (value_binary no_fpu Add (value_make (Const (Scalar I32)) (le_bytes 4 7)) (value_make (Scalar I8) (le_bytes 1 5)))"
proof -
  have "solid (value_make (Const (Scalar I32)) (le_bytes 4 7))" "solid (value_make (Scalar I8) (le_bytes 1 5))"
    by (simp_all add: solid_def)
  moreover have "\<not> cast_gap (Scalar I8) (strip_qualifiers (Const (Scalar I32)))" by (simp add: cast_gap_def is_unsigned_int_def)
  ultimately show ?thesis
    using shadow_evaluation_sound [of "value_make (Const (Scalar I32)) (le_bytes 4 7)" "value_make (Scalar I8) (le_bytes 1 5)"]
    by (metis make_simps(1))
qed

text \<open>
  C25 (safety). Under a qualifier the right operand is read as the type of the left one, whatever its
  own type is: two qualified operands of different types are not brought to a common type. The bytes
  of a wider operand are cut, and an operand that is narrower is read past its end.
\<close>

theorem qualified_operands_confused:
  assumes "solid a" and "solid b" and "v_type a = Const t" and "type_qualifier_sub (v_type b) \<noteq> None" and "binop_slot fp op t = Some slot"
  shows "value_binary fp op a b = slot (a\<lparr>v_type := t\<rparr>) (b\<lparr>v_type := t\<rparr>) \<and>
    (type_size (v_type b) < type_size t \<and> is_int_type t \<longrightarrow> value_binary fp op a b = Inl (Undefined ''read past the data block''))"
proof -
  let ?a = "a\<lparr>v_type := t\<rparr>" and ?b = "b\<lparr>v_type := t\<rparr>"
  have ne: "\<not> value_is_error a" "\<not> value_is_error b" using assms(3,4) by (auto simp: value_is_error_def)
  have run: "value_binary fp op a b = slot ?a ?b" using assms(3-5) ne by (simp add: value_binary_def proxy_binary_def)
  have "slot ?a ?b = Inl (Undefined ''read past the data block'')" if short: "type_size (v_type b) < type_size t" and int: "is_int_type t"
  proof -
    have len: "length (v_data ?a) = type_size t" "length (v_data ?b) < type_size t" using assms(1-3) short by (simp_all add: solid_def)
    have w: "access_width (type_size t) = type_size t" by (rule int_width [OF int])
    have rb: "int_read ?b = Inl (Undefined ''read past the data block'')" "sint_read ?b = Inl (Undefined ''read past the data block'')"
      "uint_read ?b = Inl (Undefined ''read past the data block'')"
      using len(2) w by (simp_all add: int_read_def sint_read_def uint_read_def read_bytes_def)
    have ra: "\<exists>x. int_read ?a = Inr x" "\<exists>x. sint_read ?a = Inr x" "\<exists>x. uint_read ?a = Inr x"
      using len(1) w by (simp_all add: int_read_def sint_read_def uint_read_def read_bytes_def)
    have sh: "\<not> v_shadow a" "\<not> v_shadow b" using assms(1,2) by (simp_all add: solid_def)
    have te: "\<not> value_is_error ?a" "\<not> value_is_error ?b" using int good_not_error [of t] by (simp_all add: value_is_error_def)
    have body: "vtable_binary fp again ?a ?b rest = rest" for again rest using te by (simp add: vtable_binary_def)
    have s: "scalar_vtable fp (call_again fp op) t op = Some slot" using assms(5) scalar_types(1) [OF int] by (cases t) simp_all
    consider "is_signed_int t" "vtable_int_signed fp (call_again fp op) op = Some slot"
      | "is_unsigned_int t" "vtable_int_unsigned fp (call_again fp op) op = Some slot"
      using s int by (auto simp: scalar_vtable_def is_int_type_def split: if_splits)
    then show ?thesis
    proof cases
      case 1
      then show ?thesis using ra rb sh int by (cases op) (auto simp: op_defs body checked_def both_def)
    next
      case 2
      then show ?thesis using ra rb sh int by (cases op) (auto simp: op_defs body checked_def both_def)
    qed
  qed
  then show ?thesis using run by simp
qed

theorem qualified_operands_confused_witness:
  "value_binary no_fpu Add (value_make (Const (Scalar I64)) (le_bytes 8 1)) (value_make (Const (Scalar I8)) (le_bytes 1 1)) =
     Inl (Undefined ''read past the data block'')"
proof -
  have "\<exists>slot. binop_slot no_fpu Add (Scalar I64) = Some slot" "is_int_type (Scalar I64)"
    by (simp_all add: scalar_vtable_def is_int_type_def is_signed_int_def)
  moreover have "solid (value_make (Const (Scalar I64)) (le_bytes 8 1))" "solid (value_make (Const (Scalar I8)) (le_bytes 1 1))"
    by (simp_all add: solid_def)
  ultimately show ?thesis
    using qualified_operands_confused [of "value_make (Const (Scalar I64)) (le_bytes 8 1)" "value_make (Const (Scalar I8)) (le_bytes 1 1)"
        "Scalar I64" no_fpu Add] by auto
qed

end
