(* ===== verification/IntValues.thy ===== *)
theory IntValues
  imports ValueTypes
begin

text \<open>
  The integers of the compile-time evaluator as numbers: what the bytes of a value stand for, the
  operators on numbers (\<open>int_spec\<close>), and that the dispatched operators compute them, after the
  promotion of operands of different types. Casts and assignments follow.
\<close>

unbundle bit_operations_syntax

section \<open>Numbers in data blocks\<close>

text \<open>The number a value of an integer type stands for, and the value of a type for a number.\<close>

definition num :: "vm_value \<Rightarrow> int" where
  "num v = (if is_unsigned_int (v_type v) then int (le_nat (v_data v))
     else as_signed (8 * length (v_data v)) (int (le_nat (v_data v))))"

definition int_value :: "ty \<Rightarrow> int \<Rightarrow> vm_value" where
  "int_value t x = value_make t (le_bytes (type_size t) (nat (x mod 2 ^ (8 * type_size t))))"

definition fits :: "int \<Rightarrow> bool" where
  "fits x \<longleftrightarrow> - (2 ^ 63) \<le> x \<and> x < 2 ^ 63"

text \<open>What the code computes with: unsigned numbers are read as an \<open>int64_t\<close>.\<close>

definition machine :: "ty \<Rightarrow> int \<Rightarrow> int" where
  "machine t x = (if is_unsigned_int t then as_signed 64 x else x)"

lemma le_bytes_mod: "le_bytes n (x mod 256 ^ n) = le_bytes n x"
  using le_bytes_nat [of "le_bytes n x"] by (simp add: le_nat_bytes)

lemma le_bytes_cong: "x mod 256 ^ n = y mod 256 ^ n \<Longrightarrow> le_bytes n x = le_bytes n y"
  using le_bytes_mod [of n x] le_bytes_mod [of n y] by simp

lemma pow8: "(256 :: nat) ^ n = 2 ^ (8 * n)" "(256 :: int) ^ n = 2 ^ (8 * n)"
  by (simp_all add: power_mult)

lemma int_size: "is_int_type t \<Longrightarrow> type_size t \<in> {1, 2, 4, 8}"
  by (auto simp: is_int_type_def is_signed_int_def is_unsigned_int_def)

lemma int_value_cong: "x mod 2 ^ (8 * type_size t) = y mod 2 ^ (8 * type_size t) \<Longrightarrow> int_value t x = int_value t y"
  by (simp add: int_value_def)

lemma int_store_value:
  assumes "is_int_type t"
  shows "int_store t x = Inr (int_value t x)"
proof -
  let ?n = "type_size t"
  have n: "?n \<le> 8" using int_size [OF assms] by auto
  have "(2 ^ (8 * ?n) :: int) dvd 2 ^ 64" using n by (intro le_imp_power_dvd) simp
  then have m: "x mod 2 ^ 64 mod 2 ^ (8 * ?n) = x mod 2 ^ (8 * ?n)" by (rule mod_mod_cancel)
  have "nat (x mod 2 ^ 64) mod 256 ^ ?n = nat (x mod 2 ^ 64 mod 2 ^ (8 * ?n))"
    by (simp add: pow8 nat_mod_distrib nat_power_eq)
  also have "\<dots> = nat (x mod 2 ^ (8 * ?n)) mod 256 ^ ?n"
    unfolding m by (simp add: pow8 nat_mod_distrib nat_power_eq)
  finally have "le_bytes ?n (nat (x mod 2 ^ 64)) = le_bytes ?n (nat (x mod 2 ^ (8 * ?n)))" by (rule le_bytes_cong)
  then show ?thesis by (simp add: int_store_def int_value_def int_width [OF assms] Let_def)
qed

lemma as_signed_cong: "as_signed n x mod 2 ^ n = x mod 2 ^ n"
  by (simp add: as_signed_def Let_def)

lemma as_signed_id: "- (2 ^ (n - 1)) \<le> x \<Longrightarrow> x < 2 ^ (n - 1) \<Longrightarrow> 0 < n \<Longrightarrow> as_signed n x = x"
proof -
  assume x: "- (2 ^ (n - 1)) \<le> x" "x < 2 ^ (n - 1)" "0 < n"
  then have p: "(2 :: int) ^ n = 2 * 2 ^ (n - 1)" by (cases n) simp_all
  show ?thesis
  proof (cases "0 \<le> x")
    case True
    then have "x mod 2 ^ n = x" using x p by (intro mod_pos_pos_trivial) simp_all
    then show ?thesis using x by (simp add: as_signed_def)
  next
    case False
    have "x mod 2 ^ n = (x + 2 ^ n) mod 2 ^ n" by simp
    also have "\<dots> = x + 2 ^ n" using x p False by (intro mod_pos_pos_trivial) simp_all
    finally show ?thesis using x p False by (simp add: as_signed_def Let_def)
  qed
qed

lemma as_signed_bounds: "0 < n \<Longrightarrow> - (2 ^ (n - 1)) \<le> as_signed n x \<and> as_signed n x < 2 ^ (n - 1)"
proof -
  assume "0 < n"
  then have p: "(2 :: int) ^ n = 2 * 2 ^ (n - 1)" by (cases n) simp_all
  define u where "u = x mod 2 ^ n"
  have "0 \<le> u" "u < 2 ^ n" "(0 :: int) < 2 ^ (n - 1)" by (simp_all add: u_def)
  then have "- (2 ^ (n - 1)) \<le> (if u < 2 ^ (n - 1) then u else u - 2 ^ n) \<and> (if u < 2 ^ (n - 1) then u else u - 2 ^ n) < 2 ^ (n - 1)"
    using p by (simp split: if_splits)
  then show ?thesis by (simp only: as_signed_def u_def Let_def)
qed

lemma machine_cong: "is_int_type t \<Longrightarrow> machine t x mod 2 ^ (8 * type_size t) = x mod 2 ^ (8 * type_size t)"
proof -
  assume "is_int_type t"
  then have "type_size t \<le> 8" using int_size by fastforce
  then have d: "(2 ^ (8 * type_size t) :: int) dvd 2 ^ 64" by (intro le_imp_power_dvd) simp
  have "as_signed 64 x mod 2 ^ (8 * type_size t) = x mod 2 ^ (8 * type_size t)"
    using as_signed_cong [of 64 x] mod_mod_cancel [OF d, of "as_signed 64 x"] mod_mod_cancel [OF d, of x] by metis
  then show ?thesis by (simp add: machine_def)
qed

lemma num_range:
  assumes "solid v" and "is_int_type (v_type v)"
  shows "if is_unsigned_int (v_type v) then 0 \<le> num v \<and> num v < 2 ^ (8 * type_size (v_type v))
    else - (2 ^ (8 * type_size (v_type v) - 1)) \<le> num v \<and> num v < 2 ^ (8 * type_size (v_type v) - 1)"
proof -
  have "le_nat (v_data v) < 2 ^ (8 * type_size (v_type v))"
    using le_nat_bound [of "v_data v"] assms(1) by (simp add: solid_def pow8)
  then have "int (le_nat (v_data v)) < 2 ^ (8 * type_size (v_type v))" by (metis of_nat_less_iff of_nat_numeral of_nat_power)
  moreover have "0 < 8 * type_size (v_type v)" using int_size [OF assms(2)] by auto
  ultimately show ?thesis using as_signed_bounds assms(1) by (auto simp: num_def solid_def)
qed

lemma int_value_num:
  assumes "solid v" and "is_int_type (v_type v)"
  shows "int_value (v_type v) (num v) = v"
proof -
  let ?n = "type_size (v_type v)"
  have len: "length (v_data v) = ?n" using assms(1) by (simp add: solid_def)
  have b: "le_nat (v_data v) < 256 ^ ?n" using le_nat_bound [of "v_data v"] len by simp
  have "num v mod 2 ^ (8 * ?n) = int (le_nat (v_data v)) mod 2 ^ (8 * ?n)"
    by (simp add: num_def len as_signed_cong)
  also have "nat \<dots> = le_nat (v_data v)" using b by (simp add: pow8 nat_mod_distrib nat_power_eq)
  finally have "int_value (v_type v) (num v) = value_make (v_type v) (v_data v)"
    using le_bytes_nat [of "v_data v"] by (simp add: int_value_def len)
  then show ?thesis using assms(1) by (simp add: value_make_def solid_def)
qed

lemma num_int_value:
  assumes "is_int_type t"
  shows "num (int_value t x) = (if is_unsigned_int t then x mod 2 ^ (8 * type_size t) else as_signed (8 * type_size t) x)"
proof -
  have "int (le_nat (v_data (int_value t x))) = x mod 2 ^ (8 * type_size t)"
    by (simp add: int_value_def le_nat_bytes pow8)
  then show ?thesis by (simp add: num_def int_value_def as_signed_def Let_def)
qed

lemma solid_int_value: "is_int_type t \<Longrightarrow> solid (int_value t x)"
  by (simp add: int_value_def solid_def)

lemma type_int_value [simp]: "v_type (int_value t x) = t" "\<not> v_shadow (int_value t x)"
  by (simp_all add: int_value_def)

lemma reads:
  assumes "solid v" and "is_int_type (v_type v)"
  shows "\<not> is_unsigned_int (v_type v) \<Longrightarrow> sint_read v = Inr (num v)" and "is_unsigned_int (v_type v) \<Longrightarrow> uint_read v = Inr (num v)"
    and "int_read v = Inr (machine (v_type v) (num v))"
proof -
  have r: "read_bytes (access_width (type_size (v_type v))) v = Inr (le_nat (v_data v))"
    using assms(1) int_width [OF assms(2)] by (simp add: read_bytes_def solid_def)
  show s: "\<not> is_unsigned_int (v_type v) \<Longrightarrow> sint_read v = Inr (num v)"
    using assms r int_width [OF assms(2)] by (simp add: sint_read_def num_def solid_def)
  show u: "is_unsigned_int (v_type v) \<Longrightarrow> uint_read v = Inr (num v)"
    using r by (simp add: uint_read_def num_def)
  show "int_read v = Inr (machine (v_type v) (num v))" using s u by (auto simp: int_read_def machine_def)
qed

section \<open>The integers as numbers\<close>

definition truth :: "bool \<Rightarrow> vm_value" where
  "truth b = value_make (Scalar Boolean) [of_bool b]"

text \<open>
  The operators on numbers of one integer type. Results are numbers modulo the width of the type;
  what is undefined is said in terms of the numbers too.
\<close>

fun int_spec :: "binop \<Rightarrow> ty \<Rightarrow> int \<Rightarrow> int \<Rightarrow> vm_value result" where
  "int_spec Add t x y = (if fits (machine t x + machine t y) then Inr (int_value t (x + y)) else Inl (Undefined ''signed overflow''))"
| "int_spec Sub t x y = (if fits (machine t x - machine t y) then Inr (int_value t (x - y)) else Inl (Undefined ''signed overflow''))"
| "int_spec Mul t x y = (if fits (machine t x * machine t y) then Inr (int_value t (x * y)) else Inl (Undefined ''signed overflow''))"
| "int_spec Div t x y = (if y = 0 then Inl (Panic ''division by zero'')
     else if is_unsigned_int t \<or> fits (x sdiv y) then Inr (int_value t (x sdiv y)) else Inl (Undefined ''signed overflow''))"
| "int_spec Mod t x y = (if y = 0 then Inl (Panic ''modulo by zero'')
     else if is_unsigned_int t \<or> fits (x sdiv y) then Inr (int_value t (x smod y)) else Inl (Undefined ''signed overflow''))"
| "int_spec Eq t x y = Inr (truth (x = y))"
| "int_spec Ne t x y = Inr (truth (x \<noteq> y))"
| "int_spec Lt t x y = Inr (truth (x < y))"
| "int_spec Le t x y = Inr (truth (x \<le> y))"
| "int_spec Gt t x y = Inr (truth (x > y))"
| "int_spec Ge t x y = Inr (truth (x \<ge> y))"
| "int_spec Band t x y = Inr (int_value t (x AND y))"
| "int_spec Bor t x y = Inr (int_value t (x OR y))"
| "int_spec Bxor t x y = Inr (int_value t (x XOR y))"
| "int_spec Shl t x y = (if y < 0 \<or> 64 \<le> y then Inl (Undefined ''shift count'')
     else if machine t x < 0 then Inl (Undefined ''shift of a negative value'')
     else if fits (machine t x * 2 ^ nat y) then Inr (int_value t (x * 2 ^ nat y)) else Inl (Undefined ''signed overflow''))"
| "int_spec Shr t x y = (if y < 0 \<or> 64 \<le> y then Inl (Undefined ''shift count'') else Inr (int_value t (x div 2 ^ nat y)))"

lemma machine_value:
  assumes "is_int_type t"
  shows "int_value t (machine t x + machine t y) = int_value t (x + y)" and "int_value t (machine t x - machine t y) = int_value t (x - y)"
    and "int_value t (machine t x * machine t y) = int_value t (x * y)" and "int_value t (machine t x * c) = int_value t (x * c)"
    and "int_value t (machine t x AND machine t y) = int_value t (x AND y)" and "int_value t (machine t x OR machine t y) = int_value t (x OR y)"
    and "int_value t (machine t x XOR machine t y) = int_value t (x XOR y)"
proof -
  note m = machine_cong [OF assms, of x] machine_cong [OF assms, of y]
  have b: "take_bit (8 * type_size t) (machine t x) = take_bit (8 * type_size t) x"
    "take_bit (8 * type_size t) (machine t y) = take_bit (8 * type_size t) y"
    using m by (simp_all add: take_bit_eq_mod)
  show "int_value t (machine t x + machine t y) = int_value t (x + y)" by (rule int_value_cong) (rule mod_add_cong [OF m])
  show "int_value t (machine t x - machine t y) = int_value t (x - y)" by (rule int_value_cong) (rule mod_diff_cong [OF m])
  show "int_value t (machine t x * machine t y) = int_value t (x * y)" by (rule int_value_cong) (rule mod_mult_cong [OF m])
  show "int_value t (machine t x * c) = int_value t (x * c)" by (rule int_value_cong) (rule mod_mult_cong [OF m(1) refl])
  show "int_value t (machine t x AND machine t y) = int_value t (x AND y)"
    "int_value t (machine t x OR machine t y) = int_value t (x OR y)" "int_value t (machine t x XOR machine t y) = int_value t (x XOR y)"
    using b by (auto intro!: int_value_cong simp: take_bit_and take_bit_or take_bit_xor simp flip: take_bit_eq_mod)
qed

lemma machine_simps:
  assumes "solid v" and "is_int_type (v_type v)"
  shows "machine (v_type v) (num v) = (if is_unsigned_int (v_type v) \<and> 2 ^ 63 \<le> num v then num v - 2 ^ 64 else num v)"
    and "num v < 2 ^ 64" and "is_unsigned_int (v_type v) \<Longrightarrow> 0 \<le> num v" and "\<not> is_unsigned_int (v_type v) \<Longrightarrow> - (2 ^ 63) \<le> num v \<and> num v < 2 ^ 63"
proof -
  let ?n = "type_size (v_type v)"
  have n: "?n \<in> {1, 2, 4, 8}" by (rule int_size [OF assms(2)])
  note r = num_range [OF assms]
  show u: "is_unsigned_int (v_type v) \<Longrightarrow> 0 \<le> num v" using r by simp
  show s: "\<not> is_unsigned_int (v_type v) \<Longrightarrow> - (2 ^ 63) \<le> num v \<and> num v < 2 ^ 63" using r n by auto
  show l: "num v < 2 ^ 64" using r n by (auto split: if_splits)
  show "machine (v_type v) (num v) = (if is_unsigned_int (v_type v) \<and> 2 ^ 63 \<le> num v then num v - 2 ^ 64 else num v)"
    using u l by (auto simp: machine_def as_signed_def Let_def)
qed

lemma machine_inj:
  assumes "solid a" and "solid b" and "is_int_type (v_type a)" and "v_type a = v_type b"
  shows "machine (v_type a) (num a) = machine (v_type a) (num b) \<longleftrightarrow> num a = num b"
  using machine_simps [OF assms(1,3)] machine_simps [OF assms(2)] assms(3,4) by (auto split: if_splits)

lemma then_i64: "and_then (i64 x) f = (if fits x then f x else Inl (Undefined ''signed overflow''))"
  by (simp add: i64_def fits_def)

lemma truth_store: "bool_store b = Inr (truth b)"
  by (simp add: bool_store_def truth_def)

lemma same_body:
  assumes "solid a" and "solid b" and "v_type a = t" and "v_type b = t" and "is_int_type t"
  shows "vtable_binary fp again a b (checked True symbol a b u rest) = rest"
  using assms good_not_error [of t] by (simp add: vtable_binary_def checked_def value_is_error_def solid_def)

lemma shift_spec:
  assumes "solid a" and "solid b" and "v_type a = t" and "v_type b = t" and "is_int_type t"
  shows "and_then (i64_shl (machine t (num a)) (machine t (num b))) (int_store t) = int_spec Shl t (num a) (num b)"
proof -
  note m = machine_simps [OF assms(2)] and t = assms(3-5)
  have c: "machine t (num b) < 0 \<or> 64 \<le> machine t (num b) \<longleftrightarrow> num b < 0 \<or> 64 \<le> num b"
    using m t by (auto split: if_splits)
  show ?thesis
  proof (cases "num b < 0 \<or> 64 \<le> num b")
    case True
    then show ?thesis using c by (auto simp: i64_shl_def)
  next
    case False
    then have "machine t (num b) = num b" using m t by (auto split: if_splits)
    then show ?thesis using False int_store_value [OF t(3)] machine_value(4) [OF t(3)] by (auto simp: i64_shl_def then_i64)
  qed
qed

lemma unsigned_div: "0 \<le> (x :: int) \<Longrightarrow> 0 \<le> y \<Longrightarrow> x sdiv y = x div y" "0 \<le> (x :: int) \<Longrightarrow> 0 \<le> y \<Longrightarrow> x smod y = x mod y"
  by (auto simp: signed_divide_int_def signed_modulo_int_def sgn_if minus_div_mult_eq_mod)

lemma same_type_spec:
  assumes "solid a" and "solid b" and "v_type a = t" and "v_type b = t" and "is_int_type t"
    and "scalar_vtable fp again t op = Some slot"
  shows "slot a b = int_spec op t (num a) (num b)"
proof -
  note s = assms(1,2) and t = assms(3-5)
  have r: "int_read a = Inr (machine t (num a))" "int_read b = Inr (machine t (num b))"
    using reads(3) [OF s(1)] reads(3) [OF s(2)] t by simp_all
  have sr: "\<not> is_unsigned_int t \<Longrightarrow> sint_read a = Inr (num a)" "\<not> is_unsigned_int t \<Longrightarrow> sint_read b = Inr (num b)"
    and ur: "is_unsigned_int t \<Longrightarrow> uint_read a = Inr (num a)" "is_unsigned_int t \<Longrightarrow> uint_read b = Inr (num b)"
    using reads(1,2) [OF s(1)] reads(1,2) [OF s(2)] t by simp_all
  have inj: "machine t (num a) = machine t (num b) \<longleftrightarrow> num a = num b" using machine_inj [OF s] t by simp
  have nonneg: "is_unsigned_int t \<Longrightarrow> 0 \<le> num a \<and> 0 \<le> num b" using machine_simps(3) [OF s(1)] machine_simps(3) [OF s(2)] t by simp
  have disj: "\<not> (is_signed_int t \<and> is_unsigned_int t)" by (auto simp: is_signed_int_def is_unsigned_int_def)
  note ops = op_defs same_body [OF s t] both_def t(1,2) r then_i64 int_store_value [OF t(3)] truth_store inj
    machine_value(1-3,5-7) [OF t(3)] shift_spec [OF s t, simplified int_spec.simps]
  consider (S) "is_signed_int t" "\<not> is_unsigned_int t" "vtable_int_signed fp again op = Some slot"
    | (U) "is_unsigned_int t" "\<not> is_signed_int t" "vtable_int_unsigned fp again op = Some slot"
    using assms(5,6) disj by (auto simp: scalar_vtable_def is_int_type_def split: if_splits)
  then show ?thesis
  proof cases
    case S
    then show ?thesis using t(3) sr by (cases op) (auto simp: ops i64_shr_def)
  next
    case U
    then show ?thesis using t(3) ur nonneg by (cases op) (auto simp: ops i64_shr_def unsigned_div)
  qed
qed


section \<open>Different integer types\<close>

lemma widen_keeps:
  assumes "solid v" and "is_int_type (v_type v)" and "is_int_type u"
    and "is_unsigned_int (v_type v) \<longleftrightarrow> is_unsigned_int u" and "type_size (v_type v) \<le> type_size u"
  shows "num (int_value u (num v)) = num v"
proof -
  note r = num_range [OF assms(1,2)]
  let ?n = "type_size (v_type v)" and ?m = "type_size u"
  have m: "0 < ?n" "?n \<le> ?m" using int_size [OF assms(2)] assms(5) by auto
  have p: "(2 :: int) ^ (8 * ?n) \<le> 2 ^ (8 * ?m)" "(2 :: int) ^ (8 * ?n - 1) \<le> 2 ^ (8 * ?m - 1)"
    using m by (intro power_increasing; simp)+
  show ?thesis
  proof (cases "is_unsigned_int u")
    case True
    then have "0 \<le> num v" "num v < 2 ^ (8 * ?n)" using r assms(4) by simp_all
    then have "num v mod 2 ^ (8 * ?m) = num v" using p(1) by (intro mod_pos_pos_trivial) linarith+
    then show ?thesis using True by (simp add: num_int_value [OF assms(3)])
  next
    case False
    then have "- (2 ^ (8 * ?n - 1)) \<le> num v" "num v < 2 ^ (8 * ?n - 1)" using r assms(4) by simp_all
    then have "as_signed (8 * ?m) (num v) = num v" using p(2) m by (intro as_signed_id) linarith+
    then show ?thesis using False by (simp add: num_int_value [OF assms(3)])
  qed
qed

lemma implicit_int_cast:
  assumes "solid v" and "is_int_type (v_type v)" and "is_int_type u"
    and "is_unsigned_int (v_type v) \<longleftrightarrow> is_unsigned_int u" and "type_size (v_type v) \<le> type_size u"
  shows "value_implicit_cast fp v u = Inr (int_value u (num v))"
proof (cases "v_type v = u")
  case True
  then show ?thesis using assms(1) int_value_num [OF assms(1,2)] good_not_error
    by (auto simp: value_implicit_cast_def identity_copy_def value_alloc_data_copy_def solid_def value_is_error_def value_make_def)
next
  case False
  obtain s where s: "v_type v = Scalar s" using scalar_types(1) [OF assms(2)] by (cases "v_type v") simp_all
  have excl: "is_signed_int t \<Longrightarrow> \<not> is_unsigned_int t" for t by (auto simp: is_signed_int_def is_unsigned_int_def)
  have ne: "\<not> value_is_error v" using assms(1) by (auto simp: solid_def value_is_error_def)
  have q: "type_qualifier_sub u = None" by (rule scalar_types(1) [OF assms(3)])
  show ?thesis
  proof (cases "is_unsigned_int u")
    case True
    then have "uint_implicit_cast v u = Inr (int_value u (num v))"
      using assms excl q reads(2) [OF assms(1,2)] by (auto simp: uint_implicit_cast_def try_qualify_def solid_def int_store_value)
    moreover have "implicit_cast_slot fp (v_type v) = Some uint_implicit_cast" using True assms(4) excl s by auto
    ultimately show ?thesis using False ne by (simp add: value_implicit_cast_def)
  next
    case us: False
    then have "sint_implicit_cast v u = Inr (int_value u (num v))"
      using assms q reads(1) [OF assms(1,2)] by (auto simp: sint_implicit_cast_def try_qualify_def solid_def int_store_value is_int_type_def)
    moreover have "implicit_cast_slot fp (v_type v) = Some sint_implicit_cast" using us assms(2,4) s by (auto simp: is_int_type_def)
    ultimately show ?thesis using False ne by (simp add: value_implicit_cast_def)
  qed
qed

lemma promote_int:
  assumes "is_int_type t" and "is_int_type u" and "is_unsigned_int t \<longleftrightarrow> is_unsigned_int u"
  obtains r where "type_promote t u = Some r" and "is_int_type r" and "is_unsigned_int r \<longleftrightarrow> is_unsigned_int t"
    and "type_size t \<le> type_size r" and "type_size u \<le> type_size r"
proof -
  have "\<exists>r. type_promote t u = Some r \<and> is_int_type r \<and> (is_unsigned_int r \<longleftrightarrow> is_unsigned_int t) \<and> type_size t \<le> type_size r \<and> type_size u \<le> type_size r"
  proof (cases "is_unsigned_int t")
    case True
    then have "t \<in> {Scalar U8, Scalar U16, Scalar U32, Scalar U64, Scalar Usize}" "u \<in> {Scalar U8, Scalar U16, Scalar U32, Scalar U64, Scalar Usize}"
      using assms(3) by (auto simp: is_unsigned_int_def)
    then show ?thesis
      by (auto simp: type_promote_def type_category_def is_int_type_def is_signed_int_def is_unsigned_int_def is_float_type_def Let_def)
  next
    case False
    then have "t \<in> {Scalar I8, Scalar I16, Scalar I32, Scalar I64}" "u \<in> {Scalar I8, Scalar I16, Scalar I32, Scalar I64}"
      using assms by (auto simp: is_int_type_def is_signed_int_def)
    then show ?thesis
      by (auto simp: type_promote_def type_category_def is_int_type_def is_signed_int_def is_unsigned_int_def is_float_type_def Let_def)
  qed
  then show ?thesis using that by blast
qed

lemma int_slot: "is_int_type t \<Longrightarrow> \<exists>slot. scalar_vtable fp again t op = Some slot"
  by (cases op) (auto simp: scalar_vtable_def is_int_type_def)


lemma int_not_error: "is_int_type (v_type v) \<Longrightarrow> \<not> value_is_error v"
  by (auto simp: value_is_error_def is_int_type_def is_signed_int_def is_unsigned_int_def)

lemma slot_form:
  "scalar_vtable fp again t op = Some slot \<Longrightarrow> \<exists>rest. \<forall>a b. slot a b = vtable_binary fp again a b (rest a b)"
proof -
  assume "scalar_vtable fp again t op = Some slot"
  from scalar_vtable_made [OF this] obtain ok symbol rt rest where
    "\<And>a b. slot a b = vtable_binary fp again a b (checked (ok (v_type a) (v_type b)) symbol a b (rt (v_type a)) (rest a b))"
    unfolding well_made_def by blast
  then show ?thesis
    by (intro exI [of _ "\<lambda>a b. checked (ok (v_type a) (v_type b)) symbol a b (rt (v_type a)) (rest a b)"]) simp
qed

lemma mixed_cast:
  assumes "is_int_type (v_type v)" and "is_int_type u" and "is_unsigned_int (v_type v) \<noteq> is_unsigned_int u"
  shows "\<exists>m. value_implicit_cast fp v u = Inr (value_make_error m)"
proof -
  obtain s where s: "v_type v = Scalar s" using scalar_types(1) [OF assms(1)] by (cases "v_type v") simp_all
  have excl: "is_signed_int t \<Longrightarrow> \<not> is_unsigned_int t" for t by (auto simp: is_signed_int_def is_unsigned_int_def)
  have ne: "\<not> value_is_error v" "v_type v \<noteq> u" using assms int_not_error by auto
  have q: "type_qualifier_sub u = None" by (rule scalar_types(1) [OF assms(2)])
  have "\<exists>m. sint_implicit_cast v u = Inr (value_make_error m)" if "is_unsigned_int u"
    using that q excl by (auto simp: sint_implicit_cast_def try_qualify_def)
  moreover have "\<exists>m. uint_implicit_cast v u = Inr (value_make_error m)" if "is_signed_int u"
    using that q by (auto simp: uint_implicit_cast_def try_qualify_def)
  moreover have "implicit_cast_slot fp (v_type v) = Some (if is_unsigned_int (v_type v) then uint_implicit_cast else sint_implicit_cast)"
    using s assms(1) excl by (auto simp: is_int_type_def)
  ultimately show ?thesis using ne assms by (cases "is_unsigned_int u") (auto simp: value_implicit_cast_def is_int_type_def)
qed

lemma promote_mixed:
  "is_int_type t \<Longrightarrow> is_int_type u \<Longrightarrow> is_unsigned_int t \<noteq> is_unsigned_int u \<Longrightarrow> type_promote t u = None"
  using category_uint [of t] category_uint [of u]
  by (auto simp: type_promote_def Let_def)

section \<open>Properties\<close>

text \<open>
  C26 (equivalence). On two values of signed or two of unsigned integer types every operator computes
  what \<open>int_spec\<close> says of their numbers in the common type, which keeps both numbers; signed with
  unsigned is an error.
\<close>

theorem int_binary_spec:
  assumes "solid a" and "solid b" and "is_int_type (v_type a)" and "is_int_type (v_type b)"
  shows "(is_unsigned_int (v_type a) = is_unsigned_int (v_type b) \<longrightarrow> (\<exists>t. type_promote (v_type a) (v_type b) = Some t \<and> num (int_value t (num a)) = num a \<and> num (int_value t (num b)) = num b \<and>
      value_binary fp op a b = int_spec op t (num a) (num b))) \<and>
    (is_unsigned_int (v_type a) \<noteq> is_unsigned_int (v_type b) \<longrightarrow> (\<exists>m. value_binary fp op a b = Inr (value_make_error m)))"
proof -
  let ?t = "v_type a" and ?u = "v_type b"
  have ne: "\<not> value_is_error a" "\<not> value_is_error b" using assms int_not_error by auto
  obtain s where s: "?t = Scalar s" using scalar_types(1) [OF assms(3)] by (cases ?t) simp_all
  obtain slot where slot: "scalar_vtable fp (call_again fp op) ?t op = Some slot" using int_slot [OF assms(3)] by blast
  then have run: "value_binary fp op a b = slot a b" using ne s by (simp add: value_binary_def)
  obtain rest where form: "\<And>a b. slot a b = vtable_binary fp (call_again fp op) a b (rest a b)" using slot_form [OF slot] by blast
  show ?thesis
  proof (cases "is_unsigned_int ?t = is_unsigned_int ?u")
    case True
    obtain r where r: "type_promote ?t ?u = Some r" "is_int_type r" "is_unsigned_int r \<longleftrightarrow> is_unsigned_int ?t"
      "type_size ?t \<le> type_size r" "type_size ?u \<le> type_size r"
      using promote_int [OF assms(3,4) True] .
    have keep: "num (int_value r (num a)) = num a" "num (int_value r (num b)) = num b"
      using widen_keeps [OF assms(1,3) r(2)] widen_keeps [OF assms(2,4) r(2)] r True by simp_all
    have "value_binary fp op a b = int_spec op r (num a) (num b)"
    proof (cases "?t = ?u")
      case same: True
      then have "r = ?t" using r(1) by (simp add: type_promote_def)
      then show ?thesis using run same_type_spec [OF assms(1,2) refl same [symmetric] assms(3) slot] by simp
    next
      case False
      have casts: "value_implicit_cast fp a r = Inr (int_value r (num a))" "value_implicit_cast fp b r = Inr (int_value r (num b))"
        using implicit_int_cast [OF assms(1,3) r(2)] implicit_int_cast [OF assms(2,4) r(2)] r True by simp_all
      have e: "\<not> value_is_error (int_value r x)" for x using r(2) int_not_error by simp
      obtain slot2 where slot2: "scalar_vtable fp (\<lambda>_ _ _. Inl (Undefined ''third call'')) r op = Some slot2" using int_slot [OF r(2)] by blast
      have "slot a b = call_again fp op r (int_value r (num a)) (int_value r (num b))"
        unfolding form vtable_binary_def using ne False r(1) casts e by simp
      also have "\<dots> = int_spec op r (num a) (num b)"
        using slot2 same_type_spec [OF solid_int_value [OF r(2)] solid_int_value [OF r(2)] type_int_value(1) type_int_value(1) r(2) slot2] keep
        by (simp add: call_again_def)
      finally show ?thesis using run by simp
    qed
    then show ?thesis using True r(1) keep by auto
  next
    case False
    then have none: "type_promote ?t ?u = None" "?t \<noteq> ?u" using promote_mixed [OF assms(3,4)] by auto
    obtain m where "value_implicit_cast fp b ?t = Inr (value_make_error m)" using mixed_cast [OF assms(4,3)] False by metis
    then have "slot a b = Inr (value_make_error m)" unfolding form vtable_binary_def using ne none by simp
    then show ?thesis using False run by auto
  qed
qed

theorem int_binary_spec_witness:
  "value_binary no_fpu Sub (value_make (Scalar U8) (le_bytes 1 3)) (value_make (Scalar U16) (le_bytes 2 5)) = Inr (value_make (Scalar U16) (le_bytes 2 65534))"
proof -
  let ?a = "value_make (Scalar U8) (le_bytes 1 3)" and ?b = "value_make (Scalar U16) (le_bytes 2 5)"
  have s: "solid ?a" "solid ?b" "is_int_type (v_type ?a)" "is_int_type (v_type ?b)"
    by (simp_all add: solid_def is_int_type_def is_unsigned_int_def)
  have n: "num ?a = 3" "num ?b = 5" by (simp_all add: num_def is_unsigned_int_def le_nat_bytes)
  have p: "type_promote (v_type ?a) (v_type ?b) = Some (Scalar U16)"
    by (simp add: type_promote_def type_category_def is_signed_int_def is_unsigned_int_def)
  have r: "int_spec Sub (Scalar U16) 3 5 = Inr (value_make (Scalar U16) (le_bytes 2 65534))"
    by (simp add: fits_def machine_def as_signed_def is_unsigned_int_def int_value_def)
  have "is_unsigned_int (v_type ?a) = is_unsigned_int (v_type ?b)" by (simp add: is_unsigned_int_def)
  then obtain t where "type_promote (v_type ?a) (v_type ?b) = Some t" "value_binary no_fpu Sub ?a ?b = int_spec Sub t (num ?a) (num ?b)"
    using int_binary_spec [OF s, of no_fpu Sub] by blast
  then show ?thesis unfolding n p option.inject using r by metis
qed

text \<open>
  C27 (bounds). Sums and differences of integers of at most four bytes are the numbers modulo the width
  of the type and never undefined. On \<open>u64\<close> and \<open>usize\<close> a sum is undefined as soon as it passes
  \<open>2 ^ 63\<close> from below, although it fits the type; on \<open>u32\<close> a product is from \<open>2 ^ 63\<close> on.
\<close>

theorem int_sum_bounds:
  assumes "solid a" and "solid b" and "v_type a = t" and "v_type b = t" and "is_int_type t"
  shows "(type_size t \<le> 4 \<longrightarrow> value_binary fp Add a b = Inr (int_value t (num a + num b)) \<and>
      value_binary fp Sub a b = Inr (int_value t (num a - num b))) \<and>
    (is_unsigned_int t \<and> type_size t = 8 \<and> num a < 2 ^ 63 \<and> num b < 2 ^ 63 \<and> 2 ^ 63 \<le> num a + num b \<longrightarrow>
      value_binary fp Add a b = Inl (Undefined ''signed overflow'') \<and> num a + num b < 2 ^ 64) \<and>
    (t = Scalar U32 \<and> 2 ^ 63 \<le> num a * num b \<longrightarrow> value_binary fp Mul a b = Inl (Undefined ''signed overflow''))"
proof -
  have run: "value_binary fp op a b = int_spec op t (num a) (num b)" for op
  proof -
    obtain s where s: "t = Scalar s" using scalar_types(1) [OF assms(5)] by (cases t) simp_all
    have ne: "\<not> value_is_error a" "\<not> value_is_error b" using assms(3-5) int_not_error by auto
    obtain slot where slot: "scalar_vtable fp (call_again fp op) t op = Some slot" using int_slot [OF assms(5)] by blast
    then show ?thesis using ne s same_type_spec [OF assms slot] assms(3) by (simp add: value_binary_def)
  qed
  have ra: "if is_unsigned_int t then 0 \<le> num a \<and> num a < 2 ^ (8 * type_size t) else - (2 ^ (8 * type_size t - 1)) \<le> num a \<and> num a < 2 ^ (8 * type_size t - 1)"
    and rb: "if is_unsigned_int t then 0 \<le> num b \<and> num b < 2 ^ (8 * type_size t) else - (2 ^ (8 * type_size t - 1)) \<le> num b \<and> num b < 2 ^ (8 * type_size t - 1)"
    using num_range [OF assms(1), unfolded assms(3), OF assms(5)] num_range [OF assms(2), unfolded assms(4), OF assms(5)] .
  have ma: "machine t (num a) = (if is_unsigned_int t \<and> 2 ^ 63 \<le> num a then num a - 2 ^ 64 else num a)"
    and mb: "machine t (num b) = (if is_unsigned_int t \<and> 2 ^ 63 \<le> num b then num b - 2 ^ 64 else num b)"
    using machine_simps(1) [OF assms(1)] machine_simps(1) [OF assms(2)] assms(3-5) by simp_all
  have "fits (machine t (num a) + machine t (num b)) \<and> fits (machine t (num a) - machine t (num b))" if "type_size t \<le> 4"
  proof -
    have "type_size t \<in> {1, 2, 4}" using int_size [OF assms(5)] that by auto
    then have "\<bar>num a\<bar> < 2 ^ 32" "\<bar>num b\<bar> < 2 ^ 32" using ra rb by (auto split: if_splits)
    moreover from this have "\<not> 2 ^ 63 \<le> num a" "\<not> 2 ^ 63 \<le> num b" by simp_all
    then have "machine t (num a) = num a" "machine t (num b) = num b" using ma mb by simp_all
    ultimately show ?thesis by (auto simp: fits_def abs_less_iff)
  qed
  moreover have "\<not> fits (machine t (num a) + machine t (num b)) \<and> num a + num b < 2 ^ 64"
    if "is_unsigned_int t" "num a < 2 ^ 63" "num b < 2 ^ 63" "2 ^ 63 \<le> num a + num b"
    using ma mb that by (simp add: fits_def)
  moreover have "\<not> fits (machine t (num a) * machine t (num b))" if "t = Scalar U32" "2 ^ 63 \<le> num a * num b"
    using ma mb ra rb that by (simp add: fits_def is_unsigned_int_def)
  ultimately show ?thesis unfolding run by simp
qed

theorem int_sum_bounds_witness:
  "value_binary no_fpu Add (value_make (Scalar U64) (le_bytes 8 (2 ^ 63 - 1))) (value_make (Scalar U64) (le_bytes 8 1)) =
     Inl (Undefined ''signed overflow'')"
proof -
  let ?a = "value_make (Scalar U64) (le_bytes 8 (2 ^ 63 - 1))" and ?b = "value_make (Scalar U64) (le_bytes 8 1)"
  have s: "solid ?a" "solid ?b" "v_type ?a = Scalar U64" "v_type ?b = Scalar U64" "is_int_type (Scalar U64)" "is_unsigned_int (Scalar U64)"
    by (simp_all add: solid_def is_int_type_def is_unsigned_int_def)
  have "num ?a = 2 ^ 63 - 1" "num ?b = 1" by (simp_all add: num_def is_unsigned_int_def le_nat_bytes)
  then show ?thesis using int_sum_bounds [OF s(1-5), of no_fpu] s(6) by simp
qed

text \<open>
  An explicit cast between integer types keeps the number modulo the width of the
  target, so a cast to a type that holds the number keeps it; to \<open>bool\<close> it tests for zero.
\<close>

theorem int_explicit_cast:
  assumes "solid v" and "is_int_type (v_type v)" and "is_int_type u"
  shows "value_explicit_cast fp v u = Inr (int_value u (num v)) \<and>
    num (int_value u (num v)) = (if is_unsigned_int u then num v mod 2 ^ (8 * type_size u) else as_signed (8 * type_size u) (num v)) \<and>
    value_explicit_cast fp v (Scalar Boolean) = Inr (truth (num v \<noteq> 0))"
proof -
  obtain s where s: "v_type v = Scalar s" using scalar_types(1) [OF assms(2)] by (cases "v_type v") simp_all
  have ne: "\<not> value_is_error v" "\<not> v_shadow v" "v_type v \<noteq> Scalar Boolean"
    using assms by (auto simp: value_is_error_def solid_def is_int_type_def is_signed_int_def is_unsigned_int_def)
  have excl: "is_signed_int t \<Longrightarrow> \<not> is_unsigned_int t" for t by (auto simp: is_signed_int_def is_unsigned_int_def)
  have nb: "\<not> is_int_type (Scalar Boolean)" "\<not> is_float_type (Scalar Boolean)"
    by (simp_all add: is_int_type_def is_signed_int_def is_unsigned_int_def is_float_type_def)
  have clone: "value_clone v = Inr v" if "v_type v = u"
    using ne assms(1) by (simp add: value_clone_def value_alloc_data_copy_def solid_def value_make_def)
  have "value_explicit_cast fp v u = Inr (int_value u (num v)) \<and> value_explicit_cast fp v (Scalar Boolean) = Inr (truth (num v \<noteq> 0))"
  proof (cases "is_unsigned_int (v_type v)")
    case True
    then have "explicit_cast_slot fp (v_type v) = Some (uint_explicit_cast fp)" using s excl by auto
    then show ?thesis using ne assms(3) reads(2) [OF assms(1,2) True] nb int_value_num [OF assms(1,2)] clone
      by (auto simp: value_explicit_cast_def uint_explicit_cast_def int_store_value truth_store)
  next
    case False
    then have "explicit_cast_slot fp (v_type v) = Some (sint_explicit_cast fp)" using s assms(2) by (auto simp: is_int_type_def)
    then show ?thesis using ne assms(3) reads(1) [OF assms(1,2) False] nb int_value_num [OF assms(1,2)] clone
      by (auto simp: value_explicit_cast_def sint_explicit_cast_def int_store_value truth_store)
  qed
  then show ?thesis by (simp add: num_int_value [OF assms(3)])
qed

theorem int_explicit_cast_witness:
  "value_explicit_cast no_fpu (value_make (Scalar I16) (le_bytes 2 65535)) (Scalar U8) = Inr (int_value (Scalar U8) (- 1)) \<and>
   num (int_value (Scalar U8) (- 1)) = 255"
proof -
  let ?v = "value_make (Scalar I16) (le_bytes 2 65535)"
  have s: "solid ?v" "is_int_type (v_type ?v)" "is_int_type (Scalar U8)" "is_unsigned_int (Scalar U8)"
    by (simp_all add: solid_def is_int_type_def is_unsigned_int_def is_signed_int_def)
  have v: "num ?v = - 1" by (simp add: num_def is_unsigned_int_def le_nat_bytes as_signed_def)
  have c: "value_explicit_cast no_fpu ?v (Scalar U8) = Inr (int_value (Scalar U8) (num ?v))"
    "num (int_value (Scalar U8) (num ?v)) = (if is_unsigned_int (Scalar U8) then num ?v mod 2 ^ (8 * type_size (Scalar U8)) else as_signed (8 * type_size (Scalar U8)) (num ?v))"
    using int_explicit_cast [OF s(1-3), of no_fpu] by blast+
  have "num (int_value (Scalar U8) (- 1)) = 255" using c(2) unfolding v if_P [OF s(4)] by simp
  then show ?thesis using c(1) unfolding v by blast
qed

section \<open>Assignment\<close>

lemma copy_over_solid: "solid dst \<Longrightarrow> copy_over dst src = Inr r \<Longrightarrow> solid r \<and> v_type r = v_type dst"
  by (auto simp: copy_over_def solid_def Let_def length_blit split: if_splits)

lemma assign_slot_solid:
  "assign_slot fp t = Some slot \<Longrightarrow> solid dst \<Longrightarrow> v_type dst = t \<Longrightarrow> slot dst src = Inr r \<Longrightarrow>
   value_is_error r \<or> solid r \<and> v_type r = t"
proof (induction t arbitrary: slot dst src r)
  case (Scalar x)
  have step: "value_is_error r \<or> solid r \<and> v_type r = Scalar x" if "copy_over dst s = Inr r" for s
    using copy_over_solid [OF Scalar.prems(2) that] Scalar.prems(3) by simp
  show ?case using Scalar.prems step
    by (auto simp: int_assign_def float_assign_def bool_assign_def then_Inr split: if_splits)
next
  case (Const t)
  have sd: "solid (dst\<lparr>v_type := t\<rparr>)" using Const.prems by (simp add: solid_def)
  show ?case
  proof (cases "assign_slot fp t")
    case (Some f)
    then obtain q where q: "proxy_binary t f dst src = Inr q" "r = (if value_is_error q then q else q\<lparr>v_type := Const t\<rparr>)"
      using Const.prems by (auto simp: then_Inr)
    then show ?thesis using Const.IH [OF Some sd _ q(1) [unfolded proxy_binary_def]] by (auto simp: solid_def)
  qed (use Const.prems in auto)
next
  case (Volatile t)
  have sd: "solid (dst\<lparr>v_type := t\<rparr>)" using Volatile.prems by (simp add: solid_def)
  show ?case
  proof (cases "assign_slot fp t")
    case (Some f)
    then obtain q where q: "proxy_binary t f dst src = Inr q" "r = (if value_is_error q then q else q\<lparr>v_type := Volatile t\<rparr>)"
      using Volatile.prems by (auto simp: then_Inr)
    then show ?thesis using Volatile.IH [OF Some sd _ q(1) [unfolded proxy_binary_def]] by (auto simp: solid_def)
  qed (use Volatile.prems in auto)
qed

text \<open>
  C28 (invariant). An assignment is an error or leaves the destination with its type, qualifiers
  included, and a full data block; an integer destination takes over the number of an integer source
  of the same signedness that is not wider.
\<close>

theorem assign_keeps_type:
  assumes "solid dst" and "solid src"
  shows "(\<forall>r. value_assign fp dst src = Inr r \<longrightarrow> value_is_error r \<or> solid r \<and> v_type r = v_type dst) \<and>
    (is_int_type (v_type dst) \<and> is_int_type (v_type src) \<and> is_unsigned_int (v_type dst) = is_unsigned_int (v_type src) \<and>
       type_size (v_type src) \<le> type_size (v_type dst) \<longrightarrow>
     value_assign fp dst src = Inr (int_value (v_type dst) (num src)) \<and> num (int_value (v_type dst) (num src)) = num src)"
proof (intro conjI impI)
  show "\<forall>r. value_assign fp dst src = Inr r \<longrightarrow> value_is_error r \<or> solid r \<and> v_type r = v_type dst"
    using assign_slot_solid [OF _ assms(1) refl, of fp] by (auto simp: value_assign_def split: if_splits option.splits)
  assume int: "is_int_type (v_type dst) \<and> is_int_type (v_type src) \<and> is_unsigned_int (v_type dst) = is_unsigned_int (v_type src) \<and>
       type_size (v_type src) \<le> type_size (v_type dst)"
  then show "num (int_value (v_type dst) (num src)) = num src" using widen_keeps [OF assms(2)] by simp
  let ?s = "int_value (v_type dst) (num src)"
  have len: "length (v_data ?s) = type_size (v_type dst)" by (simp add: int_value_def)
  have copy: "copy_over dst ?s = Inr ?s"
    using assms(1) len by (simp add: copy_over_def solid_def blit_def Let_def) (simp add: int_value_def value_make_def)
  have cast: "value_implicit_cast fp src (v_type dst) = Inr ?s" using implicit_int_cast [OF assms(2)] int by simp
  have same: "src = ?s" if "v_type src = v_type dst" using int_value_num [OF assms(2)] int that by simp
  have ne: "\<not> value_is_error src" "\<not> value_is_error dst" "\<not> value_is_error ?s" using int int_not_error by simp_all
  have "int_assign fp dst src = Inr ?s"
  proof (cases "v_type src = v_type dst")
    case True
    then show ?thesis using copy same by (simp add: int_assign_def)
  next
    case False
    then show ?thesis using copy cast ne by (simp add: int_assign_def)
  qed
  moreover obtain s where "v_type dst = Scalar s" using scalar_types(1) [of "v_type dst"] int by (cases "v_type dst") simp_all
  ultimately show "value_assign fp dst src = Inr ?s" using ne int by (simp add: value_assign_def)
qed

theorem assign_keeps_type_witness:
  "value_assign no_fpu (value_make (Scalar I32) (le_bytes 4 7)) (value_make (Scalar I8) (le_bytes 1 251)) = Inr (int_value (Scalar I32) (- 5))"
proof -
  let ?d = "value_make (Scalar I32) (le_bytes 4 7)" and ?s = "value_make (Scalar I8) (le_bytes 1 251)"
  have "num ?s = - 5" by (simp add: num_def is_unsigned_int_def le_nat_bytes as_signed_def)
  moreover have "solid ?d" "solid ?s" by (simp_all add: solid_def)
  moreover have "is_int_type (Scalar I32)" "is_int_type (Scalar I8)" "\<not> is_unsigned_int (Scalar I32)" "\<not> is_unsigned_int (Scalar I8)"
    by (simp_all add: is_int_type_def is_signed_int_def is_unsigned_int_def)
  ultimately show ?thesis using assign_keeps_type [of ?d ?s no_fpu] by simp
qed

end
