(* ===== verification/CtfeMem.thy ===== *)
theory CtfeMem
  imports Prelude
begin

unbundle bit_operations_syntax

text \<open>
  The storage registry of compile-time evaluation (\<open>src/vm/ctfe_mem.c\<close>): which storage blocks are
  alive, and which block an address was taken from, so that a dereference of an escaped pointer is
  diagnosed before it happens. Both tables are an array with an open-addressing index beside it.

  A pointer is its 64-bit address, 0 the null pointer. The index arrays hold an array index plus
  one, 0 for an empty cell. The capacity of an index array is its length. The loops over index cells
  are partial functions, so that a loop that never ends, or leaves the array, has the value
  \<open>None\<close>. What \<open>calloc\<close> and \<open>realloc\<close> answer is an argument of the operations, and the file-level
  variables of the code are the fields of the record \<open>ctfe_mem\<close>.
\<close>

section \<open>State\<close>

type_synonym ptr = "64 word"

definition CTFE_MEM_MAX_ENTRIES :: nat where "CTFE_MEM_MAX_ENTRIES = 2000000"
definition CTFE_QUARANTINE_MAX :: nat where "CTFE_QUARANTINE_MAX = 4000000"

record ctfe_blk =
  b_base :: ptr
  b_size :: nat
  b_alive :: bool
  b_id :: "32 word"

record ctfe_prov =
  p_addr :: ptr
  p_owner :: ptr
  p_owner_id :: "32 word"

record ctfe_mem =
  g_blk :: "ctfe_blk list"
  g_blk_cap :: nat
  g_blk_idx :: "nat list"
  g_prov :: "ctfe_prov list"
  g_prov_cap :: nat
  g_prov_idx :: "nat list"
  g_next_id :: "32 word"
  g_q :: "ptr list"
  g_q_cap :: nat
  g_q_alloc :: "nat option"
  g_disabled :: bool

text \<open>The answers of the C library to the requests for memory of one operation.\<close>

record grants =
  calloc_ok :: bool
  realloc_ok :: bool

definition mem_init :: ctfe_mem where
  "mem_init = \<lparr>g_blk = [], g_blk_cap = 0, g_blk_idx = [], g_prov = [], g_prov_cap = 0, g_prov_idx = [],
     g_next_id = 1, g_q = [], g_q_cap = 0, g_q_alloc = None, g_disabled = False\<rparr>"

section \<open>Open addressing\<close>

definition mix_ptr :: "ptr \<Rightarrow> 64 word" where
  "mix_ptr p =
     (let x = p XOR drop_bit 33 p;
          x = x * 0xff51afd7ed558ccd;
          x = x XOR drop_bit 33 x;
          x = x * 0xc4ceb9fe1a85ec53
      in x XOR drop_bit 33 x)"

text \<open>\<open>mix_ptr(p) & mask\<close> and \<open>(h + 1) & mask\<close>, with \<open>mask = cap - 1\<close>.\<close>

definition home :: "nat \<Rightarrow> ptr \<Rightarrow> nat" where
  "home cap p = unat (mix_ptr p) AND (cap - 1)"

definition next_cell :: "nat \<Rightarrow> nat \<Rightarrow> nat" where
  "next_cell cap h = (h + 1) AND (cap - 1)"

text \<open>\<open>while (idx[h]) h = (h + 1) & mask;\<close>\<close>

partial_function (option) free_cell :: "nat list \<Rightarrow> nat \<Rightarrow> nat option" where
  "free_cell idx h =
     (if length idx \<le> h then None
      else if idx ! h = 0 then Some h
      else free_cell idx (next_cell (length idx) h))"

text \<open>The loop of a search: the index of the key in the array, \<open>Some None\<close> for -1.\<close>

partial_function (option) probe :: "ptr list \<Rightarrow> nat list \<Rightarrow> ptr \<Rightarrow> nat \<Rightarrow> nat option option" where
  "probe keys idx p h =
     (if length idx \<le> h then None
      else if idx ! h = 0 then Some None
      else if length keys \<le> idx ! h - 1 then None
      else if keys ! (idx ! h - 1) = p then Some (Some (idx ! h - 1))
      else probe keys idx p (next_cell (length idx) h))"

definition find_in :: "ptr list \<Rightarrow> nat list \<Rightarrow> ptr \<Rightarrow> nat option option" where
  "find_in keys idx p = (if idx = [] then Some None else probe keys idx p (home (length idx) p))"

text \<open>Entry number \<open>i\<close>, with key \<open>p\<close>, gets a cell.\<close>

definition add_cell :: "nat list \<Rightarrow> ptr \<Rightarrow> nat \<Rightarrow> nat list option" where
  "add_cell idx p i = do { h \<leftarrow> free_cell idx (home (length idx) p); Some (idx[h := i + 1]) }"

fun add_cells :: "nat list \<Rightarrow> ptr list \<Rightarrow> nat \<Rightarrow> nat list option" where
  "add_cells idx [] i = Some idx"
| "add_cells idx (p # ps) i = do { idx \<leftarrow> add_cell idx p i; add_cells idx ps (i + 1) }"

text \<open>\<open>size_t want = cap ? cap * 2 : 64; while (want * 3 < (n + 1) * 4) want *= 2;\<close>\<close>

partial_function (option) grow_want :: "nat \<Rightarrow> nat \<Rightarrow> nat option" where
  "grow_want n want = (if want * 3 < (n + 1) * 4 then grow_want n (want * 2) else Some want)"

definition want_cap :: "nat \<Rightarrow> nat \<Rightarrow> nat option" where
  "want_cap cap n = grow_want n (if cap \<noteq> 0 then cap * 2 else 64)"

definition index_full :: "nat \<Rightarrow> nat \<Rightarrow> bool" where
  "index_full cap n \<longleftrightarrow> cap = 0 \<or> (n + 1) * 4 > cap * 3"

declare free_cell.simps [code] probe.simps [code] grow_want.simps [code]

section \<open>The block table\<close>

definition blk_keys :: "ctfe_mem \<Rightarrow> ptr list" where
  "blk_keys m = map b_base (g_blk m)"

definition blk_rehash :: "bool \<Rightarrow> ctfe_mem \<Rightarrow> nat \<Rightarrow> ctfe_mem option" where
  "blk_rehash ok m new_cap =
     (if \<not> ok then Some (m\<lparr>g_disabled := True\<rparr>)
      else do { idx \<leftarrow> add_cells (replicate new_cap 0) (blk_keys m) 0; Some (m\<lparr>g_blk_idx := idx\<rparr>) })"

definition blk_find :: "ctfe_mem \<Rightarrow> ptr \<Rightarrow> nat option option" where
  "blk_find m base = find_in (blk_keys m) (g_blk_idx m) base"

definition blk_add_index :: "ctfe_mem \<Rightarrow> nat \<Rightarrow> ctfe_mem option" where
  "blk_add_index m i = do { idx \<leftarrow> add_cell (g_blk_idx m) (b_base (g_blk m ! i)) i; Some (m\<lparr>g_blk_idx := idx\<rparr>) }"

text \<open>A block that is known: a dead one comes to life as a new object, a live one keeps its id.\<close>

definition blk_renew :: "ctfe_mem \<Rightarrow> nat \<Rightarrow> nat \<Rightarrow> ctfe_mem" where
  "blk_renew m i sz =
     (let m = (if \<not> b_alive (g_blk m ! i)
               then m\<lparr>g_blk := (g_blk m)[i := (g_blk m ! i)\<lparr>b_alive := True, b_id := g_next_id m\<rparr>],
                      g_next_id := g_next_id m + 1\<rparr>
               else m)
      in if sz \<noteq> 0 then m\<lparr>g_blk := (g_blk m)[i := (g_blk m ! i)\<lparr>b_size := sz\<rparr>]\<rparr> else m)"

text \<open>The array is grown, then the new block is appended and indexed.\<close>

definition blk_append :: "bool \<Rightarrow> ctfe_mem \<Rightarrow> ptr \<Rightarrow> nat \<Rightarrow> (nat option \<times> ctfe_mem) option" where
  "blk_append ok m base sz =
     (if length (g_blk m) = g_blk_cap m \<and> \<not> ok then Some (None, m\<lparr>g_disabled := True\<rparr>)
      else
        let i = length (g_blk m);
            cap = (if i = g_blk_cap m then (if g_blk_cap m \<noteq> 0 then g_blk_cap m * 2 else 64) else g_blk_cap m);
            m = m\<lparr>g_blk_cap := cap,
                  g_blk := g_blk m @ [\<lparr>b_base = base, b_size = sz, b_alive = True, b_id = g_next_id m\<rparr>],
                  g_next_id := g_next_id m + 1\<rparr>
        in do { m \<leftarrow> blk_add_index m i; Some (Some i, m) })"

definition blk_alloc :: "grants \<Rightarrow> ctfe_mem \<Rightarrow> ptr \<Rightarrow> nat \<Rightarrow> (nat option \<times> ctfe_mem) option" where
  "blk_alloc gr m base sz = do {
     i \<leftarrow> blk_find m base;
     (case i of
        Some i \<Rightarrow> Some (Some i, blk_renew m i sz)
      | None \<Rightarrow>
          if g_disabled m then Some (None, m)
          else if length (g_blk m) \<ge> CTFE_MEM_MAX_ENTRIES then Some (None, m\<lparr>g_disabled := True\<rparr>)
          else do {
            m \<leftarrow> (if index_full (length (g_blk_idx m)) (length (g_blk m)) then do {
                      want \<leftarrow> want_cap (length (g_blk_idx m)) (length (g_blk m));
                      blk_rehash (calloc_ok gr) m want }
                   else Some m);
            if g_disabled m then Some (None, m) else blk_append (realloc_ok gr) m base sz }) }"

section \<open>The provenance table\<close>

definition prov_keys :: "ctfe_mem \<Rightarrow> ptr list" where
  "prov_keys m = map p_addr (g_prov m)"

definition prov_rehash :: "bool \<Rightarrow> ctfe_mem \<Rightarrow> nat \<Rightarrow> ctfe_mem option" where
  "prov_rehash ok m new_cap =
     (if \<not> ok then Some (m\<lparr>g_disabled := True\<rparr>)
      else do { idx \<leftarrow> add_cells (replicate new_cap 0) (prov_keys m) 0; Some (m\<lparr>g_prov_idx := idx\<rparr>) })"

definition prov_find :: "ctfe_mem \<Rightarrow> ptr \<Rightarrow> nat option option" where
  "prov_find m addr = find_in (prov_keys m) (g_prov_idx m) addr"

definition prov_append :: "bool \<Rightarrow> ctfe_mem \<Rightarrow> ptr \<Rightarrow> ptr \<Rightarrow> 32 word \<Rightarrow> ctfe_mem option" where
  "prov_append ok m addr owner owner_id =
     (if length (g_prov m) = g_prov_cap m \<and> \<not> ok then Some (m\<lparr>g_disabled := True\<rparr>)
      else
        let i = length (g_prov m);
            cap = (if i = g_prov_cap m then (if g_prov_cap m \<noteq> 0 then g_prov_cap m * 2 else 64) else g_prov_cap m);
            m = m\<lparr>g_prov_cap := cap,
                  g_prov := g_prov m @ [\<lparr>p_addr = addr, p_owner = owner, p_owner_id = owner_id\<rparr>]\<rparr>
        in do { idx \<leftarrow> add_cell (g_prov_idx m) addr i; Some (m\<lparr>g_prov_idx := idx\<rparr>) })"

definition prov_intern :: "grants \<Rightarrow> ctfe_mem \<Rightarrow> ptr \<Rightarrow> ptr \<Rightarrow> 32 word \<Rightarrow> ctfe_mem option" where
  "prov_intern gr m addr owner owner_id = do {
     i \<leftarrow> prov_find m addr;
     (case i of
        Some i \<Rightarrow> Some (m\<lparr>g_prov := (g_prov m)[i := (g_prov m ! i)\<lparr>p_owner := owner, p_owner_id := owner_id\<rparr>]\<rparr>)
      | None \<Rightarrow>
          if g_disabled m then Some m
          else if length (g_prov m) \<ge> CTFE_MEM_MAX_ENTRIES then Some (m\<lparr>g_disabled := True\<rparr>)
          else do {
            m \<leftarrow> (if index_full (length (g_prov_idx m)) (length (g_prov m)) then do {
                      want \<leftarrow> want_cap (length (g_prov_idx m)) (length (g_prov m));
                      prov_rehash (calloc_ok gr) m want }
                   else Some m);
            if g_disabled m then Some m else prov_append (realloc_ok gr) m addr owner owner_id }) }"

section \<open>Interface\<close>

definition ctfe_mem_note_addr :: "grants \<Rightarrow> ctfe_mem \<Rightarrow> ptr \<Rightarrow> ptr \<Rightarrow> ctfe_mem option" where
  "ctfe_mem_note_addr gr m addr owner =
     (if addr = 0 \<or> g_disabled m then Some m
      else if owner = 0 then prov_intern gr m addr 0 0
      else do {
        bi \<leftarrow> blk_find m owner;
        (case bi of None \<Rightarrow> prov_intern gr m addr 0 0
         | Some i \<Rightarrow> prov_intern gr m addr owner (b_id (g_blk m ! i))) })"

definition ctfe_mem_on_alloc :: "grants \<Rightarrow> ctfe_mem \<Rightarrow> ptr \<Rightarrow> nat \<Rightarrow> ctfe_mem option" where
  "ctfe_mem_on_alloc gr m base sz =
     (if base = 0 \<or> g_disabled m then Some m else map_option snd (blk_alloc gr m base sz))"

definition ctfe_mem_owner_of :: "ctfe_mem \<Rightarrow> ptr \<Rightarrow> ptr option" where
  "ctfe_mem_owner_of m addr = do {
     pi \<leftarrow> prov_find m addr; Some (case pi of Some i \<Rightarrow> p_owner (g_prov m ! i) | None \<Rightarrow> 0) }"

definition ctfe_mem_on_free :: "ctfe_mem \<Rightarrow> ptr \<Rightarrow> ctfe_mem option" where
  "ctfe_mem_on_free m base =
     (if base = 0 \<or> g_blk_idx m = [] then Some m
      else do {
        bi \<leftarrow> blk_find m base;
        Some (case bi of Some i \<Rightarrow> m\<lparr>g_blk := (g_blk m)[i := (g_blk m ! i)\<lparr>b_alive := False\<rparr>]\<rparr> | None \<Rightarrow> m) })"

text \<open>The range test is made in \<open>uintptr_t\<close>.\<close>

definition in_range :: "ptr \<Rightarrow> ctfe_blk \<Rightarrow> bool" where
  "in_range a b \<longleftrightarrow> b_size b \<noteq> 0 \<and> a \<ge> b_base b \<and> a < b_base b + of_nat (b_size b)"

definition range_in_alive :: "ctfe_mem \<Rightarrow> ptr \<Rightarrow> ctfe_blk option" where
  "range_in_alive m addr = List.find (\<lambda>b. b_alive b \<and> in_range addr b) (g_blk m)"

definition range_in_dead :: "ctfe_mem \<Rightarrow> ptr \<Rightarrow> ctfe_blk option" where
  "range_in_dead m addr = List.find (\<lambda>b. \<not> b_alive b \<and> in_range addr b) (g_blk m)"

text \<open>What a diagnosis says of the address: the block it was taken from is no longer tracked, or
  was released, or its place is taken by another object (\<open>reused\<close>); or the address lies in the
  storage of a released block.\<close>

datatype escape_diag = Untracked ptr | Released ptr | Reused ptr | In_released ptr

definition ctfe_mem_check :: "ctfe_mem \<Rightarrow> ptr \<Rightarrow> escape_diag option option" where
  "ctfe_mem_check m addr =
     (if addr = 0 \<or> g_disabled m then Some None
      else do {
        pi \<leftarrow> prov_find m addr;
        let owner = (case pi of Some i \<Rightarrow> p_owner (g_prov m ! i) | None \<Rightarrow> 0) in
        if owner \<noteq> 0 then do {
          bi \<leftarrow> blk_find m owner;
          Some (case bi of
             None \<Rightarrow> Some (Untracked owner)
           | Some i \<Rightarrow>
               if b_alive (g_blk m ! i) \<and> b_id (g_blk m ! i) = p_owner_id (g_prov m ! the pi) then None
               else Some (if b_alive (g_blk m ! i) then Reused owner else Released owner)) }
        else
          Some (if range_in_alive m addr \<noteq> None then None
                else map_option (\<lambda>b. In_released (b_base b)) (range_in_dead m addr)) })"

section \<open>Deferred release\<close>

definition ctfe_mem_set_allocator :: "ctfe_mem \<Rightarrow> nat option \<Rightarrow> ctfe_mem" where
  "ctfe_mem_set_allocator m a = (if g_q_alloc m = None then m\<lparr>g_q_alloc := a\<rparr> else m)"

definition ctfe_mem_quarantine :: "grants \<Rightarrow> ctfe_mem \<Rightarrow> ptr \<Rightarrow> bool \<times> ctfe_mem" where
  "ctfe_mem_quarantine gr m data =
     (if data = 0 \<or> g_disabled m then (False, m)
      else if length (g_q m) \<ge> CTFE_QUARANTINE_MAX then (False, m)
      else if length (g_q m) = g_q_cap m \<and> \<not> realloc_ok gr then (False, m)
      else
        let cap = (if length (g_q m) = g_q_cap m then (if g_q_cap m \<noteq> 0 then g_q_cap m * 2 else 256) else g_q_cap m)
        in (True, m\<lparr>g_q_cap := cap, g_q := g_q m @ [data]\<rparr>))"

text \<open>The reset returns the blocks it frees, in order, with the allocator they go back to.\<close>

definition ctfe_mem_reset :: "ctfe_mem \<Rightarrow> (nat \<times> ptr) list \<times> ctfe_mem" where
  "ctfe_mem_reset m = ((case g_q_alloc m of None \<Rightarrow> [] | Some a \<Rightarrow> map (Pair a) (g_q m)), mem_init)"

end
