(* ===== verification/CtfeTables.thy ===== *)
theory CtfeTables
  imports CtfeMem
begin

text \<open>
  The two tables of the storage registry (\<open>src/vm/ctfe_mem.c\<close>): the open-addressing index agrees with
  its array (\<open>index_ok\<close>), a search ends and finds the place of its key, insertion finds a free cell.
  The interface \<open>keyed_table\<close> is what the registry relies on, interpreted for the block table and the
  provenance table. Then what the operations do to the contents of the tables.
\<close>

section \<open>Open addressing\<close>

definition power_of_two :: "nat \<Rightarrow> bool" where
  "power_of_two n \<longleftrightarrow> (\<exists>k. n = 2 ^ k)"

lemma and_mask_nat: "power_of_two cap \<Longrightarrow> n AND (cap - 1) = n mod cap" for n :: nat
proof -
  assume "power_of_two cap"
  then obtain k where k: "cap = 2 ^ k" by (auto simp: power_of_two_def)
  show ?thesis unfolding k mask_eq_exp_minus_1 [symmetric] take_bit_eq_mask [symmetric] take_bit_eq_mod ..
qed

lemma and_mask_Suc: "power_of_two cap \<Longrightarrow> n AND (cap - Suc 0) = n mod cap" for n :: nat
  using and_mask_nat [of cap n] by simp

text \<open>The cell that the search for \<open>p\<close> looks at after \<open>d\<close> steps.\<close>

definition path :: "nat \<Rightarrow> ptr \<Rightarrow> nat \<Rightarrow> nat" where
  "path cap p d = (unat (mix_ptr p) + d) mod cap"

lemma home_path: "power_of_two cap \<Longrightarrow> home cap p = path cap p 0"
  by (simp add: home_def path_def and_mask_Suc)

lemma next_path: "power_of_two cap \<Longrightarrow> next_cell cap (path cap p d) = path cap p (Suc d)"
  by (simp add: next_cell_def path_def and_mask_Suc mod_Suc_eq)

lemma path_less [simp]: "power_of_two cap \<Longrightarrow> path cap p d < cap"
  by (auto simp: path_def power_of_two_def)

lemma path_not_ge [simp]: "power_of_two cap \<Longrightarrow> \<not> cap \<le> path cap p d"
  by (simp add: not_le)

lemma path_onto:
  assumes "h < cap"
  shows "\<exists>d. path cap p d = h"
proof
  have le: "unat (mix_ptr p) mod cap \<le> cap" using assms by (simp add: less_imp_le)
  have "path cap p (h + (cap - unat (mix_ptr p) mod cap)) =
      (unat (mix_ptr p) mod cap + (h + (cap - unat (mix_ptr p) mod cap))) mod cap"
    by (simp add: path_def mod_add_left_eq)
  also have "\<dots> = (h + cap) mod cap" using le by simp
  finally show "path cap p (h + (cap - unat (mix_ptr p) mod cap)) = h" using assms by simp
qed

text \<open>
  An index agrees with the keys of its array: every cell names an entry, no two cells the same one,
  and the path of every key leads over filled cells to the cell that names it.
\<close>

definition index_ok :: "ptr list \<Rightarrow> nat list \<Rightarrow> bool" where
  "index_ok keys idx \<longleftrightarrow> power_of_two (length idx) \<and> distinct keys \<and>
     (\<forall>h < length idx. idx ! h \<le> length keys) \<and>
     (\<forall>h < length idx. \<forall>h' < length idx. idx ! h = idx ! h' \<longrightarrow> idx ! h \<noteq> 0 \<longrightarrow> h = h') \<and>
     (\<forall>i < length keys. \<exists>d. idx ! path (length idx) (keys ! i) d = i + 1 \<and>
        (\<forall>e < d. idx ! path (length idx) (keys ! i) e \<noteq> 0))"

lemma index_ok_new: "power_of_two cap \<Longrightarrow> index_ok [] (replicate cap 0)"
  by (simp add: index_ok_def)

lemma index_ok_free:
  assumes ok: "index_ok keys idx" and room: "length keys < length idx"
  shows "\<exists>h < length idx. idx ! h = 0"
proof (rule ccontr)
  assume none: "\<not> (\<exists>h < length idx. idx ! h = 0)"
  have "card ((!) idx ` {..<length idx}) = length idx"
    using ok none by (intro card_image [THEN trans]) (auto simp: inj_on_def index_ok_def)
  moreover have "(!) idx ` {..<length idx} \<subseteq> {1..length keys}"
    using ok none by (fastforce simp: index_ok_def)
  then have "card ((!) idx ` {..<length idx}) \<le> length keys"
    using card_mono [of "{1..length keys}"] by force
  ultimately show False using room by simp
qed

lemma path_to_free:
  assumes "index_ok keys idx" and "length keys < length idx"
  shows "\<exists>d. idx ! path (length idx) p d = 0 \<and> (\<forall>e < d. idx ! path (length idx) p e \<noteq> 0)"
proof -
  obtain h where "h < length idx" "idx ! h = 0" using index_ok_free [OF assms] by blast
  then have "\<exists>d. idx ! path (length idx) p d = 0" using path_onto by metis
  then show ?thesis using exists_least_iff [of "\<lambda>d. idx ! path (length idx) p d = 0"] by blast
qed

lemma free_cell_path:
  assumes "power_of_two (length idx)" and "idx ! path (length idx) p d = 0"
    and "\<forall>e < d. idx ! path (length idx) p e \<noteq> 0" and "e \<le> d"
  shows "free_cell idx (path (length idx) p e) = Some (path (length idx) p d)"
  using assms(4)
proof (induction e rule: inc_induct)
  case base
  then show ?case using assms(1,2) by (simp add: free_cell.simps not_le)
next
  case (step e)
  have "idx ! path (length idx) p e \<noteq> 0" using assms(3) step.hyps by blast
  then show ?case using step.IH assms(1) by (subst free_cell.simps) (simp add: not_le next_path)
qed

lemma nth_update_path:
  "idx[h := x] ! path (length idx) p d = (if path (length idx) p d = h then x else idx ! path (length idx) p d)"
  if "power_of_two (length idx)"
  using that path_less [OF that, of p d] by (auto simp: nth_list_update)

lemma add_cell_ok:
  assumes ok: "index_ok keys idx" and room: "length keys < length idx" and new: "p \<notin> set keys"
  shows "\<exists>idx'. add_cell idx p (length keys) = Some idx' \<and> index_ok (keys @ [p]) idx' \<and> length idx' = length idx"
proof -
  let ?n = "length idx"
  have two: "power_of_two ?n" using ok by (simp add: index_ok_def)
  obtain d where d: "idx ! path ?n p d = 0" "\<forall>e < d. idx ! path ?n p e \<noteq> 0"
    using path_to_free [OF ok room] by blast
  let ?h = "path ?n p d" and ?idx = "idx[path ?n p d := Suc (length keys)]"
  have add: "add_cell idx p (length keys) = Some ?idx"
    using free_cell_path [OF two d, of 0] by (simp add: add_cell_def home_path [OF two])
  have upd: "?idx ! path ?n q e = (if path ?n q e = ?h then Suc (length keys) else idx ! path ?n q e)" for q e
    by (rule nth_update_path [OF two])
  have new_path: "\<exists>d. ?idx ! path ?n p d = Suc (length keys) \<and> (\<forall>e < d. ?idx ! path ?n p e \<noteq> 0)"
    using d by (intro exI [of _ d]) (simp add: upd)
  have old_path: "\<exists>d. ?idx ! path ?n (keys ! i) d = Suc i \<and> (\<forall>e < d. ?idx ! path ?n (keys ! i) e \<noteq> 0)"
    if i: "i < length keys" for i
  proof -
    obtain e where e: "idx ! path ?n (keys ! i) e = Suc i" "\<forall>e' < e. idx ! path ?n (keys ! i) e' \<noteq> 0"
      using ok i by (auto simp: index_ok_def)
    then show ?thesis using d(1) by (intro exI [of _ e]) (auto simp: upd)
  qed
  have "index_ok (keys @ [p]) ?idx"
    unfolding index_ok_def
  proof (intro conjI)
    show "power_of_two (length ?idx)" "distinct (keys @ [p])" using two ok new by (simp_all add: index_ok_def)
    have "idx ! h \<le> length keys" if "h < ?n" for h using ok that by (simp add: index_ok_def)
    then show "\<forall>h < length ?idx. ?idx ! h \<le> length (keys @ [p])"
      using path_less [OF two, of p d] by (simp add: nth_list_update le_SucI)
    show "\<forall>h < length ?idx. \<forall>h' < length ?idx. ?idx ! h = ?idx ! h' \<longrightarrow> ?idx ! h \<noteq> 0 \<longrightarrow> h = h'"
    proof (intro allI impI)
      fix h h' assume "h < length ?idx" "h' < length ?idx" "?idx ! h = ?idx ! h'" "?idx ! h \<noteq> 0"
      moreover have "idx ! h \<le> length keys" if "h < ?n" for h using ok that by (simp add: index_ok_def)
      moreover have "h = h'" if "h < ?n" "h' < ?n" "idx ! h = idx ! h'" "idx ! h \<noteq> 0" for h h'
        using ok that by (simp add: index_ok_def)
      ultimately show "h = h'" using path_less [OF two, of p d] by (simp add: nth_list_update split: if_splits) (metis Suc_n_not_le_n)+
    qed
    show "\<forall>i < length (keys @ [p]). \<exists>d. ?idx ! path (length ?idx) ((keys @ [p]) ! i) d = i + 1 \<and>
        (\<forall>e < d. ?idx ! path (length ?idx) ((keys @ [p]) ! i) e \<noteq> 0)"
      using new_path old_path by (simp add: nth_append less_Suc_eq)
  qed
  with add show ?thesis by simp
qed

lemma add_cells_ok:
  assumes "index_ok keys idx" and "length keys + length ps \<le> length idx" and "distinct (keys @ ps)"
  shows "\<exists>idx'. add_cells idx ps (length keys) = Some idx' \<and> index_ok (keys @ ps) idx' \<and> length idx' = length idx"
  using assms
proof (induction ps arbitrary: keys idx)
  case Nil
  then show ?case by simp
next
  case (Cons p ps)
  obtain idx' where idx': "add_cell idx p (length keys) = Some idx'" "index_ok (keys @ [p]) idx'" "length idx' = length idx"
    using add_cell_ok [of keys idx p] Cons.prems by auto
  then show ?case using Cons.IH [OF idx'(2)] Cons.prems by simp
qed

text \<open>A search ends, with the place of the key in the array or nothing.\<close>

definition place :: "ptr list \<Rightarrow> ptr \<Rightarrow> nat option" where
  "place keys p = (if p \<in> set keys then Some (THE i. i < length keys \<and> keys ! i = p) else None)"

lemma place_nth: "distinct keys \<Longrightarrow> i < length keys \<Longrightarrow> place keys (keys ! i) = Some i"
  by (auto simp: place_def nth_eq_iff_index_eq)

lemma probe_stops:
  assumes two: "power_of_two (length idx)" and "e \<le> d"
    and on: "\<forall>x < d. idx ! path (length idx) p x \<noteq> 0 \<and> idx ! path (length idx) p x \<le> length keys \<and>
      keys ! (idx ! path (length idx) p x - 1) \<noteq> p"
    and last: "probe keys idx p (path (length idx) p d) = r"
  shows "probe keys idx p (path (length idx) p e) = r"
  using assms(2)
proof (induction e rule: inc_induct)
  case base
  then show ?case using last by simp
next
  case (step e)
  have at: "idx ! path (length idx) p e \<noteq> 0" "idx ! path (length idx) p e \<le> length keys"
    "keys ! (idx ! path (length idx) p e - 1) \<noteq> p" using on step.hyps by blast+
  then have "\<not> length keys \<le> idx ! path (length idx) p e - 1" by linarith
  then show ?case using step.IH two at by (subst probe.simps) (simp add: not_le next_path)
qed

lemma find_in_ok:
  assumes ok: "idx = [] \<and> keys = [] \<or> index_ok keys idx \<and> length keys < length idx"
  shows "find_in keys idx p = Some (place keys p)"
proof (cases "idx = []")
  case True
  then show ?thesis using ok by (auto simp: find_in_def place_def index_ok_def power_of_two_def)
next
  case False
  then have io: "index_ok keys idx" and room: "length keys < length idx" using ok by auto
  let ?n = "length idx"
  have two: "power_of_two ?n" and dist: "distinct keys" using io by (simp_all add: index_ok_def)
  have le: "idx ! path ?n p e \<le> length keys" for e using io path_less [OF two] by (simp add: index_ok_def)
  have start: "find_in keys idx p = probe keys idx p (path ?n p 0)" using False by (simp add: find_in_def home_path [OF two])
  show ?thesis
  proof (cases "p \<in> set keys")
    case True
    then obtain i where i: "i < length keys" "keys ! i = p" by (auto simp: in_set_conv_nth)
    obtain d where d: "idx ! path ?n p d = Suc i" "\<forall>e < d. idx ! path ?n p e \<noteq> 0" using io i by (auto simp: index_ok_def)
    define c where "c = (LEAST e. keys ! (idx ! path ?n p e - 1) = p)"
    have hit: "keys ! (idx ! path ?n p c - 1) = p" unfolding c_def by (rule LeastI [of _ d]) (use d i in simp)
    have cd: "c \<le> d" unfolding c_def by (rule Least_le) (use d i in simp)
    have before: "\<forall>x < c. keys ! (idx ! path ?n p x - 1) \<noteq> p" unfolding c_def using not_less_Least by blast
    have nz: "idx ! path ?n p c \<noteq> 0" using d cd by (cases "c = d") auto
    have small: "idx ! path ?n p c - 1 < length keys" using nz le [of c] by linarith
    have at: "idx ! path ?n p c - 1 = i" using hit i dist small nth_eq_iff_index_eq by blast
    have "probe keys idx p (path ?n p c) = Some (Some i)"
      using path_less [OF two, of p c] nz at hit i(1) by (subst probe.simps) (simp add: not_le)
    then have "probe keys idx p (path ?n p 0) = Some (Some i)"
      using probe_stops [OF two, of 0 c p keys] before d(2) cd le by simp
    then show ?thesis using start place_nth [OF dist i(1)] i(2) by simp
  next
    case False
    obtain d where d: "idx ! path ?n p d = 0" "\<forall>e < d. idx ! path ?n p e \<noteq> 0" using path_to_free [OF io room] by blast
    have "probe keys idx p (path ?n p d) = Some None" using d(1) path_less [OF two, of p d] by (subst probe.simps) (simp add: not_le)
    moreover have "keys ! (idx ! path ?n p x - 1) \<noteq> p" if "x < d" for x
    proof -
      have "idx ! path ?n p x - 1 < length keys" using d(2) [rule_format, OF that] le [of x] by linarith
      then show ?thesis using False nth_mem by metis
    qed
    ultimately have "probe keys idx p (path ?n p 0) = Some None"
      using probe_stops [OF two, of 0 d p keys] d(2) le by simp
    then show ?thesis using start False by (simp add: place_def)
  qed
qed

section \<open>Tables\<close>

definition table_ok :: "ptr list \<Rightarrow> nat list \<Rightarrow> bool" where
  "table_ok keys idx \<longleftrightarrow> idx = [] \<and> keys = [] \<or> index_ok keys idx \<and> length keys * 4 \<le> length idx * 3"

lemma table_find: "table_ok keys idx \<Longrightarrow> find_in keys idx p = Some (place keys p)"
proof -
  assume ok: "table_ok keys idx"
  then have "idx = [] \<and> keys = [] \<or> index_ok keys idx \<and> length keys < length idx"
    by (cases idx) (auto simp: table_ok_def)
  then show ?thesis by (rule find_in_ok)
qed

lemma table_distinct: "table_ok keys idx \<Longrightarrow> distinct keys"
  by (auto simp: table_ok_def index_ok_def)

lemma power_of_two_double: "power_of_two n \<Longrightarrow> power_of_two (n * 2)"
  unfolding power_of_two_def by (metis power_Suc2)

lemma grow_want_ok:
  assumes "power_of_two want"
  shows "\<exists>w. grow_want n want = Some w \<and> power_of_two w \<and> (n + 1) * 4 \<le> w * 3"
  using assms
proof (induction "(n + 1) * 4 - want * 3" arbitrary: want rule: less_induct)
  case less
  have pos: "0 < want" using less.prems by (auto simp: power_of_two_def)
  show ?case
  proof (cases "want * 3 < (n + 1) * 4")
    case True
    then have "(n + 1) * 4 - (want * 2) * 3 < (n + 1) * 4 - want * 3" using pos by linarith
    then show ?thesis using less.hyps [OF _ power_of_two_double [OF less.prems]] True by (subst grow_want.simps) simp
  next
    case False
    then show ?thesis using less.prems by (subst grow_want.simps) (simp add: not_less)
  qed
qed

lemma want_cap_ok:
  assumes "table_ok keys idx"
  shows "\<exists>w. want_cap (length idx) n = Some w \<and> power_of_two w \<and> (n + 1) * 4 \<le> w * 3"
proof -
  have "power_of_two 64" unfolding power_of_two_def by (rule exI [of _ 6]) simp
  then have "power_of_two (if length idx \<noteq> 0 then length idx * 2 else 64)"
    using assms by (auto simp: table_ok_def index_ok_def power_of_two_double)
  then show ?thesis unfolding want_cap_def by (rule grow_want_ok)
qed

text \<open>After a rehash to a wanted capacity, or without one when the index is not full, there is room.\<close>

lemma rehash_ok:
  assumes "distinct keys" and "power_of_two w" and "(length keys + 1) * 4 \<le> w * 3"
  shows "\<exists>idx. add_cells (replicate w 0) keys 0 = Some idx \<and> index_ok keys idx \<and> length idx = w"
  using add_cells_ok [OF index_ok_new [OF assms(2)], of keys] assms by simp

lemma index_not_full:
  "table_ok keys idx \<Longrightarrow> \<not> index_full (length idx) (length keys) \<Longrightarrow>
     index_ok keys idx \<and> (length keys + 1) * 4 \<le> length idx * 3"
  by (auto simp: table_ok_def index_full_def)

lemma table_append:
  assumes "index_ok keys idx" and "(length keys + 1) * 4 \<le> length idx * 3" and "p \<notin> set keys"
  shows "\<exists>idx'. add_cell idx p (length keys) = Some idx' \<and> table_ok (keys @ [p]) idx'"
  using add_cell_ok [OF assms(1) _ assms(3)] assms(2) by (fastforce simp: table_ok_def)

lemma index_table: "index_ok keys idx \<Longrightarrow> (length keys + 1) * 4 \<le> length idx * 3 \<Longrightarrow> table_ok keys idx"
  by (simp add: table_ok_def)

section \<open>Contents of the tables\<close>

text \<open>The entry of a key.\<close>

definition entry_at :: "('e \<Rightarrow> ptr) \<Rightarrow> 'e list \<Rightarrow> ptr \<Rightarrow> 'e option" where
  "entry_at key es = map_of (map (\<lambda>e. (key e, e)) es)"

lemma entry_at_none: "entry_at key es p = None \<longleftrightarrow> p \<notin> key ` set es"
  by (auto simp: entry_at_def map_of_eq_None_iff image_comp comp_def)

lemma entry_at_place:
  assumes "distinct (map key es)"
  shows "entry_at key es p = map_option (\<lambda>i. es ! i) (place (map key es) p)"
proof (cases "p \<in> key ` set es")
  case True
  then obtain i where i: "i < length es" "key (es ! i) = p" by (auto simp: in_set_conv_nth)
  then have "place (map key es) p = Some i" using place_nth [OF assms, of i] by simp
  moreover have "entry_at key es p = Some (es ! i)" unfolding entry_at_def
    by (rule map_of_is_SomeI) (use assms i in \<open>auto simp: comp_def image_iff in_set_conv_nth intro!: exI [of _ i]\<close>)
  ultimately show ?thesis by simp
next
  case False
  then show ?thesis using entry_at_none [of key es p] by (simp add: place_def)
qed

lemma entry_at_some:
  assumes "distinct (map key es)"
  shows "entry_at key es p = Some e \<longleftrightarrow> e \<in> set es \<and> key e = p"
  using assms by (auto simp: entry_at_def comp_def dest!: map_of_SomeD intro!: map_of_is_SomeI)

lemma entry_at_eqI:
  assumes "distinct (map key es')"
    and "\<And>p x. x \<in> set es' \<and> key x = p \<longleftrightarrow> f p = Some x"
  shows "entry_at key es' = f"
proof
  fix p
  show "entry_at key es' p = f p"
    using entry_at_some [OF assms(1), of p] assms(2) [of _ p] by (cases "f p"; cases "entry_at key es' p") auto
qed

lemma entry_at_append:
  assumes "distinct (map key (es @ [e]))"
  shows "entry_at key (es @ [e]) = (entry_at key es)(key e \<mapsto> e)"
proof (rule entry_at_eqI [OF assms])
  fix p x
  have "key x \<noteq> key e" if "x \<in> set es" using assms imageI [OF that, of key] by auto
  then show "x \<in> set (es @ [e]) \<and> key x = p \<longleftrightarrow> ((entry_at key es)(key e \<mapsto> e)) p = Some x"
    using assms entry_at_some [of key es p x] by auto
qed

lemma entry_at_update:
  assumes dist: "distinct (map key es)" and i: "i < length es" and same: "key e = key (es ! i)"
  shows "entry_at key (es[i := e]) = (entry_at key es)(key e \<mapsto> e)"
proof (rule entry_at_eqI)
  have keys: "map key (es[i := e]) = map key es" using i same by (simp add: map_update list_update_same_conv)
  then show "distinct (map key (es[i := e]))" using dist by simp
  fix p x
  have "set (es[i := e]) = insert e (set es - {es ! i})"
    using dist i by (simp add: set_update_distinct distinct_map)
  moreover have "x = es ! i" if "x \<in> set es" "key x = key (es ! i)"
    using that dist i nth_mem [OF i] by (simp add: distinct_map inj_on_def)
  ultimately show "x \<in> set (es[i := e]) \<and> key x = p \<longleftrightarrow> ((entry_at key es)(key e \<mapsto> e)) p = Some x"
    using entry_at_some [OF dist, of p x] same by auto
qed

text \<open>What the clients of a table rely on: a search ends and finds the place of the key.\<close>

locale keyed_table =
  fixes find :: "'t \<Rightarrow> ptr \<Rightarrow> nat option option" and entries :: "'t \<Rightarrow> 'e list" and key :: "'e \<Rightarrow> ptr" and ok :: "'t \<Rightarrow> bool"
  assumes find_law: "ok t \<Longrightarrow> find t p = Some (place (map key (entries t)) p)"
    and keys_law: "ok t \<Longrightarrow> distinct (map key (entries t))"
begin

lemma find_some:
  assumes "ok t" and "entry_at key (entries t) p = Some e"
  shows "\<exists>i < length (entries t). find t p = Some (Some i) \<and> entries t ! i = e \<and> key e = p"
proof -
  have "e \<in> set (entries t)" "key e = p" using assms entry_at_some keys_law by fastforce+
  then obtain i where "i < length (entries t)" "entries t ! i = e" by (auto simp: in_set_conv_nth)
  then show ?thesis using find_law [OF assms(1)] place_nth [OF keys_law [OF assms(1)], of i] \<open>key e = p\<close> by auto
qed

lemma find_none:
  assumes "ok t" and "entry_at key (entries t) p = None"
  shows "find t p = Some None"
  using assms find_law entry_at_none [of key "entries t" p] by (simp add: place_def)

end

definition mem_ok :: "ctfe_mem \<Rightarrow> bool" where
  "mem_ok m \<longleftrightarrow> table_ok (blk_keys m) (g_blk_idx m) \<and> table_ok (prov_keys m) (g_prov_idx m)"

interpretation blks: keyed_table blk_find g_blk b_base mem_ok
proof
  fix m p assume "mem_ok m"
  then show "blk_find m p = Some (place (map b_base (g_blk m)) p)" "distinct (map b_base (g_blk m))"
    using table_find table_distinct by (auto simp: mem_ok_def blk_find_def blk_keys_def)
qed

interpretation provs: keyed_table prov_find g_prov p_addr mem_ok
proof
  fix m p assume "mem_ok m"
  then show "prov_find m p = Some (place (map p_addr (g_prov m)) p)" "distinct (map p_addr (g_prov m))"
    using table_find table_distinct by (auto simp: mem_ok_def prov_find_def prov_keys_def)
qed

abbreviation blk_at :: "ctfe_mem \<Rightarrow> ptr \<Rightarrow> ctfe_blk option" where
  "blk_at m \<equiv> entry_at b_base (g_blk m)"

abbreviation prov_at :: "ctfe_mem \<Rightarrow> ptr \<Rightarrow> ctfe_prov option" where
  "prov_at m \<equiv> entry_at p_addr (g_prov m)"

section \<open>Operations\<close>

lemma keys_append: "map key (es @ [e]) = map key es @ [key e]"
  by simp

lemma keys_update: "i < length es \<Longrightarrow> key e = key (es ! i) \<Longrightarrow> map key (es[i := e]) = map key es"
  by (simp add: map_update list_update_same_conv)

definition renewed :: "ctfe_mem \<Rightarrow> nat \<Rightarrow> ctfe_blk \<Rightarrow> ctfe_blk" where
  "renewed m sz b =
     (let b = (if b_alive b then b else b\<lparr>b_alive := True, b_id := g_next_id m\<rparr>)
      in if sz \<noteq> 0 then b\<lparr>b_size := sz\<rparr> else b)"

lemma b_base_renewed [simp]: "b_base (renewed m sz b) = b_base b"
  by (simp add: renewed_def Let_def)

text \<open>The fields that the block operations leave alone, and those the provenance operations do.\<close>

definition same_provs :: "ctfe_mem \<Rightarrow> ctfe_mem \<Rightarrow> bool" where
  "same_provs m m' \<longleftrightarrow> g_prov m' = g_prov m \<and> g_prov_cap m' = g_prov_cap m \<and> g_prov_idx m' = g_prov_idx m \<and>
     g_q m' = g_q m \<and> g_q_cap m' = g_q_cap m \<and> g_q_alloc m' = g_q_alloc m"

definition same_blks :: "ctfe_mem \<Rightarrow> ctfe_mem \<Rightarrow> bool" where
  "same_blks m m' \<longleftrightarrow> g_blk m' = g_blk m \<and> g_blk_cap m' = g_blk_cap m \<and> g_blk_idx m' = g_blk_idx m \<and>
     g_next_id m' = g_next_id m \<and> g_q m' = g_q m \<and> g_q_cap m' = g_q_cap m \<and> g_q_alloc m' = g_q_alloc m"

lemma renew_eq:
  "blk_renew m i sz = m\<lparr>g_blk := (g_blk m)[i := renewed m sz (g_blk m ! i)],
     g_next_id := g_next_id m + (if b_alive (g_blk m ! i) then 0 else 1)\<rparr>"
  if "i < length (g_blk m)"
  using that by (simp add: blk_renew_def renewed_def Let_def)

lemma renew_ok:
  assumes "mem_ok m" and "blk_at m base = Some b"
  shows "\<exists>i m'. blk_alloc gr m base sz = Some (Some i, m') \<and> mem_ok m' \<and> same_provs m m' \<and>
    blk_at m' = (blk_at m)(base \<mapsto> renewed m sz b) \<and> length (g_blk m') = length (g_blk m) \<and>
    g_next_id m' = g_next_id m + (if b_alive b then 0 else 1) \<and> g_disabled m' = g_disabled m"
proof -
  obtain i where i: "i < length (g_blk m)" "blk_find m base = Some (Some i)" "g_blk m ! i = b" "b_base b = base"
    using blks.find_some [OF assms] by blast
  let ?m = "blk_renew m i sz"
  have keys: "blk_keys ?m = blk_keys m" using i by (simp add: renew_eq blk_keys_def keys_update)
  have "mem_ok ?m" using assms(1) keys i(1) by (simp add: mem_ok_def renew_eq prov_keys_def)
  moreover have "blk_at ?m = (blk_at m)(base \<mapsto> renewed m sz b)"
    using entry_at_update [OF blks.keys_law [OF assms(1)] i(1), of "renewed m sz b"] i by (simp add: renew_eq)
  ultimately show ?thesis using i by (simp add: blk_alloc_def renew_eq same_provs_def)
qed

lemma blk_append_ok:
  assumes mem: "index_ok (blk_keys m) (g_blk_idx m)" "(length (g_blk m) + 1) * 4 \<le> length (g_blk_idx m) * 3"
    and prov: "table_ok (prov_keys m) (g_prov_idx m)"
    and new: "blk_at m base = None" and live: "\<not> g_disabled m"
  shows "\<exists>r m'. blk_append ok m base sz = Some (r, m') \<and> mem_ok m' \<and> same_provs m m' \<and>
    (if g_disabled m' then \<not> ok
     else blk_at m' = (blk_at m)(base \<mapsto> \<lparr>b_base = base, b_size = sz, b_alive = True, b_id = g_next_id m\<rparr>) \<and>
       length (g_blk m') = Suc (length (g_blk m)) \<and> g_next_id m' = g_next_id m + 1)"
proof (cases "length (g_blk m) = g_blk_cap m \<and> \<not> ok")
  case True
  then show ?thesis
    using index_table [OF mem(1)] mem(2) prov
    by (auto simp: blk_append_def mem_ok_def blk_keys_def prov_keys_def same_provs_def)
next
  case False
  let ?b = "\<lparr>b_base = base, b_size = sz, b_alive = True, b_id = g_next_id m\<rparr>"
  have notin: "base \<notin> set (blk_keys m)" using new by (simp add: entry_at_none blk_keys_def)
  obtain idx where idx: "add_cell (g_blk_idx m) base (length (g_blk m)) = Some idx" "table_ok (blk_keys m @ [base]) idx"
    using table_append [OF mem(1) _ notin] mem(2) by (auto simp: blk_keys_def)
  have "blk_at m base = None \<Longrightarrow> entry_at b_base (g_blk m @ [?b]) = (blk_at m)(base \<mapsto> ?b)"
    using entry_at_append [of b_base "g_blk m" ?b] table_distinct [OF idx(2)] by (simp add: blk_keys_def)
  with False idx prov new live show ?thesis
    by (auto simp: blk_append_def Let_def blk_add_index_def nth_append mem_ok_def blk_keys_def prov_keys_def same_provs_def)
qed

lemma blk_alloc_new:
  assumes ok: "mem_ok m" and new: "blk_at m base = None" and live: "\<not> g_disabled m"
  shows "\<exists>r m'. blk_alloc gr m base sz = Some (r, m') \<and> mem_ok m' \<and> same_provs m m' \<and>
    (if g_disabled m' then CTFE_MEM_MAX_ENTRIES \<le> length (g_blk m) \<or> \<not> calloc_ok gr \<or> \<not> realloc_ok gr
     else blk_at m' = (blk_at m)(base \<mapsto> \<lparr>b_base = base, b_size = sz, b_alive = True, b_id = g_next_id m\<rparr>) \<and>
       length (g_blk m') = Suc (length (g_blk m)) \<and> g_next_id m' = g_next_id m + 1)"
proof -
  note find = blks.find_none [OF ok new]
  have tab: "table_ok (blk_keys m) (g_blk_idx m)" "table_ok (prov_keys m) (g_prov_idx m)" using ok by (simp_all add: mem_ok_def)
  have len: "length (blk_keys m) = length (g_blk m)" by (simp add: blk_keys_def)
  show ?thesis
  proof (cases "CTFE_MEM_MAX_ENTRIES \<le> length (g_blk m)")
    case True
    then show ?thesis using find live ok
      by (simp add: blk_alloc_def mem_ok_def blk_keys_def prov_keys_def same_provs_def)
  next
    case room: False
    show ?thesis
    proof (cases "index_full (length (g_blk_idx m)) (length (g_blk m))")
      case False
      then have "index_ok (blk_keys m) (g_blk_idx m)" "(length (g_blk m) + 1) * 4 \<le> length (g_blk_idx m) * 3"
        using index_not_full [OF tab(1)] len by simp_all
      from blk_append_ok [OF this tab(2) new live, of "realloc_ok gr" sz]
      show ?thesis using find live room False by (auto simp: blk_alloc_def split: if_splits)
    next
      case full: True
      obtain w where w: "want_cap (length (g_blk_idx m)) (length (g_blk m)) = Some w" "power_of_two w" "(length (g_blk m) + 1) * 4 \<le> w * 3"
        using want_cap_ok [OF tab(1)] by blast
      show ?thesis
      proof (cases "calloc_ok gr")
        case False
        then show ?thesis using find live room full w ok
          by (simp add: blk_alloc_def blk_rehash_def mem_ok_def blk_keys_def prov_keys_def same_provs_def)
      next
        case True
        obtain idx where idx: "add_cells (replicate w 0) (blk_keys m) 0 = Some idx" "index_ok (blk_keys m) idx" "length idx = w"
          using rehash_ok [OF table_distinct [OF tab(1)] w(2)] w(3) len by auto
        let ?m = "m\<lparr>g_blk_idx := idx\<rparr>"
        have "index_ok (blk_keys ?m) (g_blk_idx ?m)" "(length (g_blk ?m) + 1) * 4 \<le> length (g_blk_idx ?m) * 3"
          "table_ok (prov_keys ?m) (g_prov_idx ?m)" "blk_at ?m base = None" "\<not> g_disabled ?m"
          using idx w(3) tab(2) new live by (simp_all add: blk_keys_def prov_keys_def)
        from blk_append_ok [OF this, of "realloc_ok gr" sz]
        obtain r m' where m': "blk_append (realloc_ok gr) ?m base sz = Some (r, m')" "mem_ok m'" "same_provs ?m m'"
          "if g_disabled m' then \<not> realloc_ok gr
           else blk_at m' = (blk_at m)(base \<mapsto> \<lparr>b_base = base, b_size = sz, b_alive = True, b_id = g_next_id m\<rparr>) \<and>
             length (g_blk m') = Suc (length (g_blk m)) \<and> g_next_id m' = g_next_id m + 1" by (auto split: if_splits)
        have "blk_alloc gr m base sz = Some (r, m')"
          using find live room full w True idx m'(1) by (simp add: blk_alloc_def blk_rehash_def)
        then show ?thesis using m' by (auto simp: same_provs_def split: if_splits)
      qed
    qed
  qed
qed

lemma prov_append_ok:
  assumes mem: "index_ok (prov_keys m) (g_prov_idx m)" "(length (g_prov m) + 1) * 4 \<le> length (g_prov_idx m) * 3"
    and blk: "table_ok (blk_keys m) (g_blk_idx m)"
    and new: "prov_at m a = None" and live: "\<not> g_disabled m"
  shows "\<exists>m'. prov_append ok m a own oid = Some m' \<and> mem_ok m' \<and> same_blks m m' \<and>
    (if g_disabled m' then \<not> ok
     else prov_at m' = (prov_at m)(a \<mapsto> \<lparr>p_addr = a, p_owner = own, p_owner_id = oid\<rparr>) \<and>
       length (g_prov m') = Suc (length (g_prov m)))"
proof (cases "length (g_prov m) = g_prov_cap m \<and> \<not> ok")
  case True
  then show ?thesis
    using index_table [OF mem(1)] mem(2) blk
    by (auto simp: prov_append_def mem_ok_def blk_keys_def prov_keys_def same_blks_def)
next
  case False
  let ?b = "\<lparr>p_addr = a, p_owner = own, p_owner_id = oid\<rparr>"
  have notin: "a \<notin> set (prov_keys m)" using new by (simp add: entry_at_none prov_keys_def)
  obtain idx where idx: "add_cell (g_prov_idx m) a (length (g_prov m)) = Some idx" "table_ok (prov_keys m @ [a]) idx"
    using table_append [OF mem(1) _ notin] mem(2) by (auto simp: prov_keys_def)
  have "prov_at m a = None \<Longrightarrow> entry_at p_addr (g_prov m @ [?b]) = (prov_at m)(a \<mapsto> ?b)"
    using entry_at_append [of p_addr "g_prov m" ?b] table_distinct [OF idx(2)] by (simp add: prov_keys_def)
  with False idx blk new live show ?thesis
    by (auto simp: prov_append_def Let_def mem_ok_def blk_keys_def prov_keys_def same_blks_def)
qed

lemma prov_append_length: "prov_append ok m a own oid = Some m' \<Longrightarrow> length (g_prov m') \<le> Suc (length (g_prov m))"
  by (auto simp: prov_append_def Let_def bind_Some_iff split: if_splits)

lemma prov_intern_ok:
  assumes ok: "mem_ok m" and live: "\<not> g_disabled m"
  shows "\<exists>m'. prov_intern gr m a own oid = Some m' \<and> mem_ok m' \<and> same_blks m m' \<and>
    length (g_prov m') \<le> Suc (length (g_prov m)) \<and>
    (if g_disabled m' then CTFE_MEM_MAX_ENTRIES \<le> length (g_prov m) \<or> \<not> calloc_ok gr \<or> \<not> realloc_ok gr
     else prov_at m' = (prov_at m)(a \<mapsto> \<lparr>p_addr = a, p_owner = own, p_owner_id = oid\<rparr>))"
proof (cases "prov_at m a")
  case (Some e)
  obtain i where i: "i < length (g_prov m)" "prov_find m a = Some (Some i)" "g_prov m ! i = e" "p_addr e = a"
    using provs.find_some [OF ok Some] by blast
  obtain o' k' where e: "e = \<lparr>p_addr = a, p_owner = o', p_owner_id = k'\<rparr>" using i(4) by (cases e) simp
  let ?e = "\<lparr>p_addr = a, p_owner = own, p_owner_id = oid\<rparr>"
  have "entry_at p_addr ((g_prov m)[i := ?e]) = (prov_at m)(a \<mapsto> ?e)"
    using entry_at_update [OF provs.keys_law [OF ok] i(1), of ?e] i by simp
  moreover have "prov_intern gr m a own oid = Some (m\<lparr>g_prov := (g_prov m)[i := ?e]\<rparr>)"
    using i(2,3) by (simp add: prov_intern_def e)
  moreover have "map p_addr ((g_prov m)[i := ?e]) = map p_addr (g_prov m)"
    using i(1,3) by (intro keys_update) (simp_all add: e)
  then have "mem_ok (m\<lparr>g_prov := (g_prov m)[i := ?e]\<rparr>)" using ok by (simp add: mem_ok_def blk_keys_def prov_keys_def)
  ultimately show ?thesis using live by (simp add: same_blks_def)
next
  case new: None
  note find = provs.find_none [OF ok new]
  have tab: "table_ok (blk_keys m) (g_blk_idx m)" "table_ok (prov_keys m) (g_prov_idx m)" using ok by (simp_all add: mem_ok_def)
  have len: "length (prov_keys m) = length (g_prov m)" by (simp add: prov_keys_def)
  show ?thesis
  proof (cases "CTFE_MEM_MAX_ENTRIES \<le> length (g_prov m)")
    case True
    then show ?thesis using find live ok
      by (simp add: prov_intern_def mem_ok_def blk_keys_def prov_keys_def same_blks_def)
  next
    case room: False
    show ?thesis
    proof (cases "index_full (length (g_prov_idx m)) (length (g_prov m))")
      case False
      then have "index_ok (prov_keys m) (g_prov_idx m)" "(length (g_prov m) + 1) * 4 \<le> length (g_prov_idx m) * 3"
        using index_not_full [OF tab(2)] len by simp_all
      from prov_append_ok [OF this tab(1) new live, of "realloc_ok gr" own oid]
      show ?thesis using find live room False
        by (auto simp: prov_intern_def dest: prov_append_length split: if_splits)
    next
      case full: True
      obtain w where w: "want_cap (length (g_prov_idx m)) (length (g_prov m)) = Some w" "power_of_two w" "(length (g_prov m) + 1) * 4 \<le> w * 3"
        using want_cap_ok [OF tab(2)] by blast
      show ?thesis
      proof (cases "calloc_ok gr")
        case False
        then show ?thesis using find live room full w ok
          by (simp add: prov_intern_def prov_rehash_def mem_ok_def blk_keys_def prov_keys_def same_blks_def)
      next
        case True
        obtain idx where idx: "add_cells (replicate w 0) (prov_keys m) 0 = Some idx" "index_ok (prov_keys m) idx" "length idx = w"
          using rehash_ok [OF table_distinct [OF tab(2)] w(2)] w(3) len by auto
        let ?m = "m\<lparr>g_prov_idx := idx\<rparr>"
        have "index_ok (prov_keys ?m) (g_prov_idx ?m)" "(length (g_prov ?m) + 1) * 4 \<le> length (g_prov_idx ?m) * 3"
          "table_ok (blk_keys ?m) (g_blk_idx ?m)" "prov_at ?m a = None" "\<not> g_disabled ?m"
          using idx w(3) tab(1) new live by (simp_all add: blk_keys_def prov_keys_def)
        from prov_append_ok [OF this, of "realloc_ok gr" own oid]
        obtain m' where m': "prov_append (realloc_ok gr) ?m a own oid = Some m'" "mem_ok m'" "same_blks ?m m'"
          "if g_disabled m' then \<not> realloc_ok gr
           else prov_at m' = (prov_at m)(a \<mapsto> \<lparr>p_addr = a, p_owner = own, p_owner_id = oid\<rparr>) \<and>
             length (g_prov m') = Suc (length (g_prov m))" by (auto split: if_splits)
        have "prov_intern gr m a own oid = Some m'"
          using find live room full w True idx m'(1) by (simp add: prov_intern_def prov_rehash_def)
        moreover have "length (g_prov m') \<le> Suc (length (g_prov m))"
          using prov_append_length [OF m'(1)] by simp
        ultimately show ?thesis using m' by (auto simp: same_blks_def split: if_splits)
      qed
    qed
  qed
qed

lemma on_free_ok:
  assumes ok: "mem_ok m"
  shows "\<exists>m'. ctfe_mem_on_free m base = Some m' \<and> mem_ok m' \<and> same_provs m m' \<and>
    length (g_blk m') = length (g_blk m) \<and> g_next_id m' = g_next_id m \<and> g_disabled m' = g_disabled m \<and>
    blk_at m' = (case blk_at m base of None \<Rightarrow> blk_at m
                 | Some b \<Rightarrow> if base = 0 then blk_at m else (blk_at m)(base \<mapsto> b\<lparr>b_alive := False\<rparr>))"
proof (cases "blk_at m base")
  case None
  then show ?thesis using blks.find_none [OF ok None] ok by (simp add: ctfe_mem_on_free_def same_provs_def)
next
  case (Some b)
  obtain i where i: "i < length (g_blk m)" "blk_find m base = Some (Some i)" "g_blk m ! i = b" "b_base b = base"
    using blks.find_some [OF ok Some] by blast
  let ?b = "b\<lparr>b_alive := False\<rparr>"
  have "entry_at b_base ((g_blk m)[i := ?b]) = (blk_at m)(base \<mapsto> ?b)"
    using entry_at_update [OF blks.keys_law [OF ok] i(1), of ?b] i by simp
  moreover have "g_blk_idx m \<noteq> []" using ok i(1) by (auto simp: mem_ok_def table_ok_def blk_keys_def index_ok_def power_of_two_def)
  ultimately show ?thesis using Some i ok
    by (auto simp: ctfe_mem_on_free_def mem_ok_def blk_keys_def prov_keys_def same_provs_def keys_update)
qed

end
