(* ===== verification/CtfeMemProps.thy ===== *)
theory CtfeMemProps
  imports CtfeTables
begin

text \<open>
  The contract of the storage registry (\<open>src/vm/ctfe_mem.c\<close>) as an ideal registry of numbered objects,
  the simulation between the two, and the properties of \<open>ctfe_mem_check\<close>.
\<close>

section \<open>The ideal registry\<close>

text \<open>
  The contract of the registry, without tables, identifiers of a fixed width or limits: the objects
  by their address, numbered in the order in which they came to life, and for every address that was
  taken the object it was taken from.
\<close>

record object =
  o_born :: nat
  o_alive :: bool
  o_size :: nat

record ideal =
  objects :: "ptr \<Rightarrow> object option"
  origin :: "ptr \<Rightarrow> (ptr \<times> nat) option"
  births :: nat

definition ideal_init :: ideal where
  "ideal_init = \<lparr>objects = Map.empty, origin = Map.empty, births = 0\<rparr>"

datatype mem_event = Alloc ptr nat | Free ptr | Note ptr ptr | Quarantine ptr | Allocator "nat option"

fun ideal_step :: "mem_event \<Rightarrow> ideal \<Rightarrow> ideal" where
  "ideal_step (Alloc p sz) I =
     (if p = 0 then I
      else case objects I p of
        None \<Rightarrow> I\<lparr>objects := (objects I)(p \<mapsto> \<lparr>o_born = births I, o_alive = True, o_size = sz\<rparr>), births := births I + 1\<rparr>
      | Some ob \<Rightarrow>
          let n = (if sz \<noteq> 0 then sz else o_size ob) in
          if o_alive ob then I\<lparr>objects := (objects I)(p \<mapsto> ob\<lparr>o_size := n\<rparr>)\<rparr>
          else I\<lparr>objects := (objects I)(p \<mapsto> \<lparr>o_born = births I, o_alive = True, o_size = n\<rparr>), births := births I + 1\<rparr>)"
| "ideal_step (Free p) I =
     (case objects I p of None \<Rightarrow> I
      | Some ob \<Rightarrow> if p = 0 then I else I\<lparr>objects := (objects I)(p \<mapsto> ob\<lparr>o_alive := False\<rparr>)\<rparr>)"
| "ideal_step (Note a p) I =
     (if a = 0 then I
      else I\<lparr>origin := (origin I)(a := if p = 0 then None else map_option (\<lambda>ob. (p, o_born ob)) (objects I p))\<rparr>)"
| "ideal_step (Quarantine p) I = I"
| "ideal_step (Allocator al) I = I"

definition lies_in :: "ptr \<Rightarrow> ptr \<Rightarrow> object \<Rightarrow> bool" where
  "lies_in a p ob \<longleftrightarrow> unat p \<le> unat a \<and> unat a < unat p + o_size ob"

text \<open>An address may be dereferenced when the object it was taken from is alive, or, for an address
  never taken from a known object, when it lies in a live object or in none at all.\<close>

definition sound :: "ideal \<Rightarrow> ptr \<Rightarrow> bool" where
  "sound I a \<longleftrightarrow> a = 0 \<or>
     (case origin I a of
        Some (p, k) \<Rightarrow> (\<exists>ob. objects I p = Some ob \<and> o_alive ob \<and> o_born ob = k)
      | None \<Rightarrow> (\<exists>p ob. objects I p = Some ob \<and> o_alive ob \<and> lies_in a p ob) \<or>
                \<not> (\<exists>p ob. objects I p = Some ob \<and> lies_in a p ob))"

fun explains :: "ideal \<Rightarrow> ptr \<Rightarrow> escape_diag \<Rightarrow> bool" where
  "explains I a (Untracked p) = False"
| "explains I a (Released p) \<longleftrightarrow> (\<exists>k ob. origin I a = Some (p, k) \<and> objects I p = Some ob \<and> \<not> o_alive ob)"
| "explains I a (Reused p) \<longleftrightarrow> (\<exists>k ob. origin I a = Some (p, k) \<and> objects I p = Some ob \<and> o_alive ob \<and> o_born ob \<noteq> k)"
| "explains I a (In_released p) \<longleftrightarrow> origin I a = None \<and> (\<exists>ob. objects I p = Some ob \<and> \<not> o_alive ob \<and> lies_in a p ob)"

section \<open>Refinement\<close>

definition mem_step :: "grants \<times> mem_event \<Rightarrow> ctfe_mem \<Rightarrow> ctfe_mem option" where
  "mem_step e m = (case e of
     (gr, Alloc p sz) \<Rightarrow> ctfe_mem_on_alloc gr m p sz
   | (gr, Free p) \<Rightarrow> ctfe_mem_on_free m p
   | (gr, Note a p) \<Rightarrow> ctfe_mem_note_addr gr m a p
   | (gr, Quarantine p) \<Rightarrow> Some (snd (ctfe_mem_quarantine gr m p))
   | (gr, Allocator al) \<Rightarrow> Some (ctfe_mem_set_allocator m al))"

fun mem_run :: "(grants \<times> mem_event) list \<Rightarrow> ctfe_mem \<Rightarrow> ctfe_mem option" where
  "mem_run [] m = Some m"
| "mem_run (e # es) m = do { m \<leftarrow> mem_step e m; mem_run es m }"

definition ideal_run :: "(grants \<times> mem_event) list \<Rightarrow> ideal \<Rightarrow> ideal" where
  "ideal_run es I = fold (\<lambda>e. ideal_step (snd e)) es I"

text \<open>A block does not wrap around the end of the address space.\<close>

fun fits :: "mem_event \<Rightarrow> bool" where
  "fits (Alloc p sz) \<longleftrightarrow> unat p + sz < 2 ^ 64"
| "fits _ \<longleftrightarrow> True"

definition same_object :: "nat \<Rightarrow> ctfe_blk \<Rightarrow> object \<Rightarrow> bool" where
  "same_object n b ob \<longleftrightarrow> b_alive b = o_alive ob \<and> b_size b = o_size ob \<and> o_born ob < n \<and>
     b_id b = of_nat (Suc (o_born ob)) \<and> b_base b \<noteq> 0 \<and> unat (b_base b) + b_size b < 2 ^ 64"

definition same_note :: "ideal \<Rightarrow> ctfe_prov \<Rightarrow> bool" where
  "same_note I q \<longleftrightarrow> (case origin I (p_addr q) of None \<Rightarrow> p_owner q = 0
     | Some (p, k) \<Rightarrow> p_owner q = p \<and> p \<noteq> 0 \<and> k < births I \<and> p_owner_id q = of_nat (Suc k) \<and> objects I p \<noteq> None)"

text \<open>The simulation relation after \<open>n\<close> operations.\<close>

definition refines :: "nat \<Rightarrow> ctfe_mem \<Rightarrow> ideal \<Rightarrow> bool" where
  "refines n m I \<longleftrightarrow> g_next_id m = of_nat (Suc (births I)) \<and> births I \<le> n \<and>
     (\<forall>p. rel_option (same_object (births I)) (blk_at m p) (objects I p)) \<and>
     (\<forall>a. case prov_at m a of None \<Rightarrow> origin I a = None | Some q \<Rightarrow> same_note I q) \<and>
     length (g_blk m) \<le> n \<and> length (g_prov m) \<le> n"

definition simulates :: "nat \<Rightarrow> ctfe_mem \<Rightarrow> ideal \<Rightarrow> bool" where
  "simulates n m I \<longleftrightarrow> mem_ok m \<and> (\<not> g_disabled m \<longrightarrow> refines n m I)"

lemma simulates_init: "simulates 0 mem_init ideal_init"
  by (simp add: simulates_def refines_def mem_ok_def table_ok_def mem_init_def ideal_init_def entry_at_def
      blk_keys_def prov_keys_def)

lemma blk_at_base: "mem_ok m \<Longrightarrow> blk_at m p = Some b \<Longrightarrow> b_base b = p \<and> b \<in> set (g_blk m)"
  using entry_at_some [OF blks.keys_law] by blast

lemma prov_at_addr: "mem_ok m \<Longrightarrow> prov_at m a = Some q \<Longrightarrow> p_addr q = a"
  using entry_at_some [OF provs.keys_law] by blast

lemma same_note_births: "same_note I q \<Longrightarrow> origin I' = origin I \<Longrightarrow> births I \<le> births I' \<Longrightarrow>
    (\<forall>p. objects I p \<noteq> None \<longrightarrow> objects I' p \<noteq> None) \<Longrightarrow> same_note I' q"
  by (auto simp: same_note_def split: option.splits)

lemma same_object_births: "same_object n b ob \<Longrightarrow> n \<le> n' \<Longrightarrow> same_object n' b ob"
  by (simp add: same_object_def)

lemma rel_option_mono_births:
  "rel_option (same_object n) x y \<Longrightarrow> n \<le> n' \<Longrightarrow> rel_option (same_object n') x y"
  by (erule option.rel_mono_strong) (simp add: same_object_def)

definition step_ok :: "nat \<Rightarrow> grants \<Rightarrow> mem_event \<Rightarrow> ctfe_mem \<Rightarrow> ideal \<Rightarrow> bool" where
  "step_ok n gr e m I \<longleftrightarrow> (\<exists>m'. mem_step (gr, e) m = Some m' \<and> simulates (Suc n) m' (ideal_step e I) \<and>
     (g_disabled m \<longrightarrow> g_disabled m') \<and>
     (\<not> g_disabled m \<and> n < CTFE_MEM_MAX_ENTRIES \<and> calloc_ok gr \<and> realloc_ok gr \<longrightarrow> \<not> g_disabled m'))"

lemma refines_Suc: "refines n m I \<Longrightarrow> refines (Suc n) m I"
  by (auto simp: refines_def)

lemma simulates_disabled: "mem_ok m \<Longrightarrow> g_disabled m \<Longrightarrow> simulates n m I"
  by (simp add: simulates_def)

lemma same_blks_at: "same_blks m m' \<Longrightarrow> blk_at m' = blk_at m"
  by (simp add: same_blks_def)

lemma same_provs_at: "same_provs m m' \<Longrightarrow> prov_at m' = prov_at m"
  by (simp add: same_provs_def)

text \<open>A block operation that keeps or renews one object.\<close>

lemma refines_blk:
  assumes ref: "refines n m I" and provs: "same_provs m m'"
    and at: "blk_at m' = (blk_at m)(p \<mapsto> b)" and obj: "objects I' = (objects I)(p \<mapsto> ob)" and org: "origin I' = origin I"
    and same: "same_object (births I') b ob" and next_id: "g_next_id m' = of_nat (Suc (births I'))"
    and births: "births I \<le> births I'" "births I' \<le> Suc (births I)"
    and len: "length (g_blk m') \<le> Suc (length (g_blk m))"
  shows "refines (Suc n) m' I'"
proof -
  have "rel_option (same_object (births I')) (blk_at m' q) (objects I' q)" for q
    using ref same rel_option_mono_births [OF _ births(1)] by (simp add: refines_def at obj)
  moreover have "case prov_at m' a of None \<Rightarrow> origin I' a = None | Some q \<Rightarrow> same_note I' q" for a
  proof -
    have "case prov_at m a of None \<Rightarrow> origin I a = None | Some q \<Rightarrow> same_note I q" using ref by (simp add: refines_def)
    then show ?thesis using same_note_births [of I _ I', OF _ org births(1)] obj same_provs_at [OF provs] org
      by (cases "prov_at m a") auto
  qed
  ultimately show ?thesis using ref next_id births(2) len provs by (auto simp: refines_def same_provs_def)
qed

lemma blk_object:
  assumes "refines n m I" and "blk_at m p = Some b"
  shows "\<exists>ob. objects I p = Some ob \<and> same_object (births I) b ob"
  using assms by (auto simp: refines_def dest!: spec [of _ p] simp: option_rel_Some1)

lemma no_blk_object: "refines n m I \<Longrightarrow> blk_at m p = None \<Longrightarrow> objects I p = None"
  by (auto simp: refines_def dest!: spec [of _ p])

lemma alloc_step:
  assumes ok: "mem_ok m" and ref: "refines n m I" and live: "\<not> g_disabled m" and p: "p \<noteq> 0" and fits: "unat p + sz < 2 ^ 64"
  shows "step_ok n gr (Alloc p sz) m I"
proof (cases "blk_at m p")
  case (Some b)
  obtain i m' where m': "blk_alloc gr m p sz = Some (Some i, m')" "mem_ok m'" "same_provs m m'"
    "blk_at m' = (blk_at m)(p \<mapsto> renewed m sz b)" "length (g_blk m') = length (g_blk m)"
    "g_next_id m' = g_next_id m + (if b_alive b then 0 else 1)" "g_disabled m' = g_disabled m"
    using renew_ok [OF ok Some] by blast
  obtain ob where ob: "objects I p = Some ob" "same_object (births I) b ob" using blk_object [OF ref Some] by blast
  have base: "b_base b = p" using blk_at_base [OF ok Some] by simp
  have id: "g_next_id m = of_nat (Suc (births I))" using ref by (simp add: refines_def)
  have "refines (Suc n) m' (ideal_step (Alloc p sz) I)"
  proof (cases "o_alive ob")
    case True
    let ?ob = "ob\<lparr>o_size := (if sz \<noteq> 0 then sz else o_size ob)\<rparr>"
    show ?thesis
      by (rule refines_blk [OF ref m'(3,4), where ob = ?ob])
        (use True ob p fits base id m' in \<open>auto simp: Let_def same_object_def renewed_def\<close>)
  next
    case False
    let ?ob = "\<lparr>o_born = births I, o_alive = True, o_size = (if sz \<noteq> 0 then sz else o_size ob)\<rparr>"
    show ?thesis
      by (rule refines_blk [OF ref m'(3,4), where ob = ?ob])
        (use False ob p fits base id m' in \<open>auto simp: Let_def same_object_def renewed_def\<close>)
  qed
  then show ?thesis using m' p live by (auto simp: step_ok_def mem_step_def ctfe_mem_on_alloc_def simulates_def)
next
  case None
  let ?b = "\<lparr>b_base = p, b_size = sz, b_alive = True, b_id = g_next_id m\<rparr>"
  let ?ob = "\<lparr>o_born = births I, o_alive = True, o_size = sz\<rparr>"
  obtain r m' where m': "blk_alloc gr m p sz = Some (r, m')" "mem_ok m'" "same_provs m m'"
    "if g_disabled m' then CTFE_MEM_MAX_ENTRIES \<le> length (g_blk m) \<or> \<not> calloc_ok gr \<or> \<not> realloc_ok gr
     else blk_at m' = (blk_at m)(p \<mapsto> ?b) \<and> length (g_blk m') = Suc (length (g_blk m)) \<and> g_next_id m' = g_next_id m + 1"
    using blk_alloc_new [OF ok None live] by blast
  have id: "g_next_id m = of_nat (Suc (births I))" and len: "length (g_blk m) \<le> n" using ref by (simp_all add: refines_def)
  have step: "mem_step (gr, Alloc p sz) m = Some m'" using m'(1) p live by (simp add: mem_step_def ctfe_mem_on_alloc_def)
  show ?thesis
  proof (cases "g_disabled m'")
    case True
    then show ?thesis using m'(2,4) step live len by (auto simp: step_ok_def simulates_disabled)
  next
    case False
    then have at: "blk_at m' = (blk_at m)(p \<mapsto> ?b)" and rest: "length (g_blk m') = Suc (length (g_blk m))" "g_next_id m' = g_next_id m + 1"
      using m'(4) by simp_all
    have "refines (Suc n) m' (ideal_step (Alloc p sz) I)"
      by (rule refines_blk [OF ref m'(3) at, where ob = ?ob])
        (use no_blk_object [OF ref None] p fits id rest in \<open>auto simp: same_object_def\<close>)
    then show ?thesis using m'(2) step False live by (auto simp: step_ok_def simulates_def)
  qed
qed

lemma free_step:
  assumes ok: "mem_ok m" and ref: "\<not> g_disabled m \<longrightarrow> refines n m I"
  shows "step_ok n gr (Free p) m I"
proof -
  obtain m' where m': "ctfe_mem_on_free m p = Some m'" "mem_ok m'" "same_provs m m'" "length (g_blk m') = length (g_blk m)"
    "g_next_id m' = g_next_id m" "g_disabled m' = g_disabled m"
    "blk_at m' = (case blk_at m p of None \<Rightarrow> blk_at m | Some b \<Rightarrow> if p = 0 then blk_at m else (blk_at m)(p \<mapsto> b\<lparr>b_alive := False\<rparr>))"
    using on_free_ok [OF ok] by blast
  have "refines (Suc n) m' (ideal_step (Free p) I)" if live: "\<not> g_disabled m"
  proof (cases "blk_at m p = None \<or> p = 0")
    case True
    then have "blk_at m' = blk_at m" "ideal_step (Free p) I = I"
      using m'(7) no_blk_object [of n m I p] ref live by (auto split: option.splits)
    then show ?thesis using refines_Suc ref live m' by (simp add: refines_def same_provs_def)
  next
    case False
    then obtain b where b: "blk_at m p = Some b" by auto
    obtain ob where ob: "objects I p = Some ob" "same_object (births I) b ob" using blk_object [OF _ b] ref live by blast
    have at: "blk_at m' = (blk_at m)(p \<mapsto> b\<lparr>b_alive := False\<rparr>)" using m'(7) b False by simp
    have r: "refines n m I" using ref live by blast
    show ?thesis
      by (rule refines_blk [OF r m'(3) at, where ob = "ob\<lparr>o_alive := False\<rparr>"])
        (use False ob r m' in \<open>auto simp: same_object_def refines_def\<close>)
  qed
  then show ?thesis using m' by (auto simp: step_ok_def simulates_def mem_step_def)
qed

lemma note_step:
  assumes ok: "mem_ok m" and ref: "refines n m I" and live: "\<not> g_disabled m" and a: "a \<noteq> 0"
  shows "step_ok n gr (Note a p) m I"
proof -
  let ?o = "if p = 0 then None else map_option (\<lambda>ob. (p, o_born ob)) (objects I p)"
  let ?I = "I\<lparr>origin := (origin I)(a := ?o)\<rparr>"
  obtain own oid where no: "ctfe_mem_note_addr gr m a p = prov_intern gr m a own oid"
    "same_note ?I \<lparr>p_addr = a, p_owner = own, p_owner_id = oid\<rparr>"
  proof (cases "p = 0 \<or> blk_at m p = None")
    case True
    then have "ctfe_mem_note_addr gr m a p = prov_intern gr m a 0 0"
      using blks.find_none [OF ok, of p] a live by (auto simp: ctfe_mem_note_addr_def)
    moreover have "?o = None" using True no_blk_object [OF ref] by auto
    ultimately show ?thesis using that [of 0 0] by (auto simp: same_note_def)
  next
    case False
    then obtain b where b: "blk_at m p = Some b" by auto
    obtain ob where ob: "objects I p = Some ob" "same_object (births I) b ob" using blk_object [OF ref b] by blast
    obtain i where i: "i < length (g_blk m)" "blk_find m p = Some (Some i)" "g_blk m ! i = b" using blks.find_some [OF ok b] by blast
    show ?thesis using that [of p "b_id b"] False i ob a live by (auto simp: ctfe_mem_note_addr_def same_note_def same_object_def)
  qed
  obtain m' where m': "prov_intern gr m a own oid = Some m'" "mem_ok m'" "same_blks m m'" "length (g_prov m') \<le> Suc (length (g_prov m))"
    "if g_disabled m' then CTFE_MEM_MAX_ENTRIES \<le> length (g_prov m) \<or> \<not> calloc_ok gr \<or> \<not> realloc_ok gr
     else prov_at m' = (prov_at m)(a \<mapsto> \<lparr>p_addr = a, p_owner = own, p_owner_id = oid\<rparr>)"
    using prov_intern_ok [OF ok live] by blast
  have step: "mem_step (gr, Note a p) m = Some m'" "ideal_step (Note a p) I = ?I" using m'(1) no(1) a by (simp_all add: mem_step_def)
  have len: "length (g_prov m) \<le> n" using ref by (simp add: refines_def)
  show ?thesis
  proof (cases "g_disabled m'")
    case True
    then show ?thesis using m'(2,5) step live len by (auto simp: step_ok_def simulates_disabled)
  next
    case False
    then have at: "prov_at m' = (prov_at m)(a \<mapsto> \<lparr>p_addr = a, p_owner = own, p_owner_id = oid\<rparr>)" using m'(5) by simp
    have note_ok: "case prov_at m' c of None \<Rightarrow> origin ?I c = None | Some q \<Rightarrow> same_note ?I q" for c
    proof (cases "c = a")
      case True
      then show ?thesis using at no(2) by simp
    next
      case False
      have "case prov_at m c of None \<Rightarrow> origin I c = None | Some q \<Rightarrow> same_note I q" using ref by (simp add: refines_def)
      then show ?thesis using False at prov_at_addr [OF ok, of c] by (auto simp: same_note_def split: option.splits)
    qed
    have "refines (Suc n) m' ?I"
      using ref note_ok m'(3,4) by (auto simp: refines_def same_blks_def)
    then show ?thesis using m'(2) step False live by (auto simp: step_ok_def simulates_def)
  qed
qed

lemma mem_step_simulates:
  assumes sim: "simulates n m I" and "fits e"
  shows "step_ok n gr e m I"
proof -
  have ok: "mem_ok m" and ref: "\<not> g_disabled m \<longrightarrow> refines n m I" using sim by (simp_all add: simulates_def)
  have still: "simulates (Suc n) m I" using ok ref refines_Suc by (simp add: simulates_def)
  show ?thesis
  proof (cases e)
    case (Alloc p sz)
    show ?thesis
    proof (cases "g_disabled m \<or> p = 0")
      case True
      then show ?thesis using Alloc ok still
        by (auto simp: step_ok_def mem_step_def ctfe_mem_on_alloc_def simulates_disabled)
    next
      case False
      then show ?thesis using alloc_step [OF ok] ref assms(2) Alloc by simp
    qed
  next
    case (Free p)
    then show ?thesis using free_step [OF ok ref] by simp
  next
    case (Note a p)
    show ?thesis
    proof (cases "g_disabled m \<or> a = 0")
      case True
      then show ?thesis using Note ok still
        by (auto simp: step_ok_def mem_step_def ctfe_mem_note_addr_def simulates_disabled)
    next
      case False
      then show ?thesis using note_step [OF ok] ref Note by simp
    qed
  next
    case (Quarantine p)
    then show ?thesis using still
      by (auto simp: step_ok_def mem_step_def ctfe_mem_quarantine_def Let_def simulates_def mem_ok_def refines_def
          blk_keys_def prov_keys_def)
  next
    case (Allocator al)
    then show ?thesis using still
      by (auto simp: step_ok_def mem_step_def ctfe_mem_set_allocator_def simulates_def mem_ok_def refines_def
          blk_keys_def prov_keys_def)
  qed
qed

lemma id_eq:
  assumes "i < n" and "j < n" and "n < 2 ^ 32"
  shows "(of_nat (Suc i) :: 32 word) = of_nat (Suc j) \<longleftrightarrow> i = j"
proof -
  have "unat (of_nat (Suc i) :: 32 word) = Suc i" "unat (of_nat (Suc j) :: 32 word) = Suc j"
    using assms by (simp_all only: unat_of_nat) (simp_all add: less_trans_Suc)
  then show ?thesis by (metis Suc_inject)
qed

lemma in_range_lies:
  assumes "same_object n b ob" and "b_base b = p"
  shows "in_range a b \<longleftrightarrow> lies_in a p ob"
proof -
  have small: "unat p + b_size b < 2 ^ 64" and sz: "b_size b = o_size ob" using assms by (simp_all add: same_object_def)
  then have "unat (p + of_nat (b_size b)) = unat p + b_size b" by (simp add: unat_word_ariths unat_of_nat)
  then show ?thesis using assms(2) sz by (auto simp: in_range_def lies_in_def word_le_nat_alt word_less_nat_alt)
qed

text \<open>The first block of a kind that holds an address stands for an object of that kind.\<close>

lemma find_block:
  assumes ok: "mem_ok m" and ref: "refines n m I"
  shows "case List.find (\<lambda>b. b_alive b = al \<and> in_range a b) (g_blk m) of
      None \<Rightarrow> \<not> (\<exists>p ob. objects I p = Some ob \<and> o_alive ob = al \<and> lies_in a p ob)
    | Some b \<Rightarrow> \<exists>ob. objects I (b_base b) = Some ob \<and> o_alive ob = al \<and> lies_in a (b_base b) ob"
proof (cases "List.find (\<lambda>b. b_alive b = al \<and> in_range a b) (g_blk m)")
  case None
  have "\<not> lies_in a p ob" if obj: "objects I p = Some ob" "o_alive ob = al" for p ob
  proof -
    have "rel_option (same_object (births I)) (blk_at m p) (objects I p)" using ref by (simp add: refines_def)
    then obtain b where b: "blk_at m p = Some b" "same_object (births I) b ob"
      using obj(1) by (auto simp: option_rel_Some2)
    have "b \<in> set (g_blk m)" "b_base b = p" using blk_at_base [OF ok b(1)] by simp_all
    then show ?thesis using None b(2) obj(2) in_range_lies [OF b(2)] by (auto simp: find_None_iff same_object_def)
  qed
  then show ?thesis using None by auto
next
  case (Some b)
  then have b: "b \<in> set (g_blk m)" "b_alive b = al" "in_range a b" by (auto simp: find_Some_iff)
  then have at: "blk_at m (b_base b) = Some b" using entry_at_some [OF blks.keys_law [OF ok]] by blast
  obtain ob where "objects I (b_base b) = Some ob" "same_object (births I) b ob" using blk_object [OF ref at] by blast
  then show ?thesis using Some b in_range_lies [of _ b ob "b_base b" a] by (auto simp: same_object_def)
qed

lemma check_refines:
  assumes ok: "mem_ok m" and ref: "refines n m I" and live: "\<not> g_disabled m" and n: "n < 2 ^ 32"
  shows "\<exists>d. ctfe_mem_check m a = Some d \<and> (d = None \<longleftrightarrow> sound I a) \<and> (\<forall>x. d = Some x \<longrightarrow> explains I a x)"
proof (cases "a = 0")
  case True
  then show ?thesis by (simp add: ctfe_mem_check_def sound_def)
next
  case a: False
  have known: "case prov_at m a of None \<Rightarrow> origin I a = None | Some q \<Rightarrow> same_note I q" using ref by (simp add: refines_def)
  show ?thesis
  proof (cases "origin I a")
    case None
    have owner: "\<exists>pi. prov_find m a = Some pi \<and> (case pi of Some i \<Rightarrow> p_owner (g_prov m ! i) | None \<Rightarrow> 0) = 0"
    proof (cases "prov_at m a")
      case (Some q)
      obtain i where "prov_find m a = Some (Some i)" "g_prov m ! i = q" "p_addr q = a" using provs.find_some [OF ok Some] by blast
      then show ?thesis using known Some None by (auto simp: same_note_def)
    qed (use provs.find_none [OF ok] in auto)
    then have check: "ctfe_mem_check m a = Some (if range_in_alive m a \<noteq> None then None
        else map_option (\<lambda>b. In_released (b_base b)) (range_in_dead m a))"
      using a live by (auto simp: ctfe_mem_check_def Let_def)
    show ?thesis
      using find_block [OF ok ref, of True a] find_block [OF ok ref, of False a] a None check
      by (cases "range_in_alive m a"; cases "range_in_dead m a")
        (auto simp: sound_def range_in_alive_def range_in_dead_def)
  next
    case (Some pk)
    obtain p k where pk: "pk = (p, k)" by (cases pk)
    obtain q where q: "prov_at m a = Some q" using known Some by (cases "prov_at m a") auto
    obtain j where j: "prov_find m a = Some (Some j)" "g_prov m ! j = q" "p_addr q = a" using provs.find_some [OF ok q] by blast
    have q': "p_owner q = p" "p \<noteq> 0" "k < births I" "p_owner_id q = of_nat (Suc k)" "objects I p \<noteq> None"
      using known q Some pk j(3) by (auto simp: same_note_def)
    obtain b where b: "blk_at m p = Some b" using q'(5) no_blk_object [OF ref, of p] by (cases "blk_at m p") auto
    obtain ob where ob: "objects I p = Some ob" "same_object (births I) b ob" using blk_object [OF ref b] by blast
    obtain i where i: "blk_find m p = Some (Some i)" "g_blk m ! i = b" using blks.find_some [OF ok b] by blast
    have "births I < 2 ^ 32" using ref n by (simp add: refines_def)
    then have id: "b_id b = p_owner_id q \<longleftrightarrow> o_born ob = k" using id_eq [of "o_born ob" "births I" k] ob(2) q'(3,4)
      by (simp add: same_object_def)
    have "ctfe_mem_check m a = Some (if b_alive b \<and> b_id b = p_owner_id q then None
        else Some (if b_alive b then Reused p else Released p))"
      using a live j i q'(1,2) by (simp add: ctfe_mem_check_def)
    then show ?thesis using a ob Some pk id by (auto simp: sound_def same_object_def)
  qed
qed

lemma mem_run_simulates:
  assumes "simulates n m I" and "list_all (fits \<circ> snd) es"
  shows "\<exists>m'. mem_run es m = Some m' \<and> simulates (n + length es) m' (ideal_run es I) \<and> (g_disabled m \<longrightarrow> g_disabled m') \<and>
    (\<not> g_disabled m \<and> n + length es \<le> CTFE_MEM_MAX_ENTRIES \<and> list_all (\<lambda>(gr, _). calloc_ok gr \<and> realloc_ok gr) es \<longrightarrow> \<not> g_disabled m')"
  using assms
proof (induction es arbitrary: n m I)
  case Nil
  then show ?case by (simp add: ideal_run_def)
next
  case (Cons e es)
  obtain gr ev where e: "e = (gr, ev)" by (cases e)
  obtain m1 where m1: "mem_step (gr, ev) m = Some m1" "simulates (Suc n) m1 (ideal_step ev I)" "g_disabled m \<longrightarrow> g_disabled m1"
    "\<not> g_disabled m \<and> n < CTFE_MEM_MAX_ENTRIES \<and> calloc_ok gr \<and> realloc_ok gr \<longrightarrow> \<not> g_disabled m1"
    using mem_step_simulates [OF Cons.prems(1), of ev gr] Cons.prems(2) e by (auto simp: step_ok_def)
  show ?case using Cons.IH [OF m1(2)] Cons.prems(2) m1 e by (auto simp: ideal_run_def)
qed

section \<open>Properties\<close>

text \<open>
  C29 (refinement, termination, bounds). Whatever is registered, released, taken the address of or put
  into quarantine, and whatever requests for memory fail: every operation returns (no search of the
  open-addressing indexes runs forever or leaves its array). While the registry is not disabled,
  \<open>ctfe_mem_check\<close> passes exactly the addresses that the ideal registry, with unlimited tables and
  object numbers, takes for sound, and otherwise its diagnosis is true (it never names a block as
  untracked). A disabled registry diagnoses nothing. Up to two million operations with the memory
  granted do not disable it. The number of operations stays below the \<open>2 ^ 32\<close> identifiers.
\<close>

theorem ctfe_mem_check_correct:
  assumes "list_all (fits \<circ> snd) es" and "length es < 2 ^ 32"
  shows "\<exists>m. mem_run es mem_init = Some m \<and>
    (g_disabled m \<longrightarrow> ctfe_mem_check m a = Some None) \<and>
    (\<not> g_disabled m \<longrightarrow> (\<exists>d. ctfe_mem_check m a = Some d \<and>
       (d = None \<longleftrightarrow> sound (ideal_run es ideal_init) a) \<and>
       (\<forall>x. d = Some x \<longrightarrow> explains (ideal_run es ideal_init) a x))) \<and>
    (length es \<le> CTFE_MEM_MAX_ENTRIES \<and> list_all (\<lambda>(gr, _). calloc_ok gr \<and> realloc_ok gr) es \<longrightarrow> \<not> g_disabled m)"
proof -
  have init: "\<not> g_disabled mem_init" by (simp add: mem_init_def)
  obtain m where m: "mem_run es mem_init = Some m" "simulates (length es) m (ideal_run es ideal_init)"
    "length es \<le> CTFE_MEM_MAX_ENTRIES \<and> list_all (\<lambda>(gr, _). calloc_ok gr \<and> realloc_ok gr) es \<longrightarrow> \<not> g_disabled m"
    using mem_run_simulates [OF simulates_init assms(1)] init by auto
  show ?thesis
  proof (intro exI [of _ m] conjI)
    show "g_disabled m \<longrightarrow> ctfe_mem_check m a = Some None" by (simp add: ctfe_mem_check_def)
    show "\<not> g_disabled m \<longrightarrow> (\<exists>d. ctfe_mem_check m a = Some d \<and> (d = None \<longleftrightarrow> sound (ideal_run es ideal_init) a) \<and>
       (\<forall>x. d = Some x \<longrightarrow> explains (ideal_run es ideal_init) a x))"
      using check_refines [of m "length es"] m(2) assms(2) by (simp add: simulates_def)
  qed (use m in auto)
qed

lemma ideal_run_simps [simp]:
  "ideal_run [] I = I" "ideal_run (e # es) I = ideal_run es (ideal_step (snd e) I)"
  "ideal_run (es @ fs) I = ideal_run fs (ideal_run es I)"
  by (simp_all add: ideal_run_def)

definition granted :: grants where
  "granted = \<lparr>calloc_ok = True, realloc_ok = True\<rparr>"

theorem ctfe_mem_check_correct_witness:
  "\<exists>m. mem_run [(granted, Alloc 16 8), (granted, Note 20 16), (granted, Free 16), (granted, Alloc 16 8)] mem_init = Some m \<and>
     ctfe_mem_check m 20 = Some (Some (Reused 16))"
proof -
  let ?es = "[(granted, Alloc 16 8), (granted, Note 20 16), (granted, Free 16), (granted, Alloc 16 8)]"
  define I where "I = ideal_run ?es ideal_init"
  have o: "origin I 20 = Some (16, 0)" "objects I 16 = Some \<lparr>o_born = 1, o_alive = True, o_size = 8\<rparr>"
    by (simp_all add: I_def ideal_init_def Let_def)
  have bad: "\<not> sound I 20" by (simp add: sound_def o)
  have why: "x = Reused 16" if "explains I 20 x" for x
    using that by (cases x) (simp_all add: o)
  have "list_all (fits \<circ> snd) ?es" "length ?es < 2 ^ 32" by (simp_all)
  from ctfe_mem_check_correct [OF this, of 20] obtain m where m: "mem_run ?es mem_init = Some m" "\<not> g_disabled m"
    "\<exists>d. ctfe_mem_check m 20 = Some d \<and> (d = None \<longleftrightarrow> sound I 20) \<and> (\<forall>x. d = Some x \<longrightarrow> explains I 20 x)"
    unfolding I_def by (auto simp: granted_def CTFE_MEM_MAX_ENTRIES_def simp del: ideal_run_simps)
  then show ?thesis using bad why by (metis option.exhaust)
qed

section \<open>Escaped pointers\<close>

definition numbered :: "ideal \<Rightarrow> bool" where
  "numbered I \<longleftrightarrow> (\<forall>p ob. objects I p = Some ob \<longrightarrow> o_born ob < births I)"

lemma numbered_step: "numbered I \<Longrightarrow> numbered (ideal_step e I)"
  by (cases e) (auto simp: numbered_def Let_def less_Suc_eq split: option.splits)

lemma numbered_run: "numbered (ideal_run es ideal_init)"
proof -
  have "numbered I \<Longrightarrow> numbered (ideal_run es I)" for I
    by (induction es arbitrary: I) (simp_all add: numbered_step)
  then show ?thesis by (simp add: numbered_def ideal_init_def)
qed

lemma alive_run:
  assumes "objects I p = Some ob" and "o_alive ob" and "Free p \<notin> snd ` set es"
  shows "\<exists>ob'. objects (ideal_run es I) p = Some ob' \<and> o_alive ob' \<and> o_born ob' = o_born ob"
  using assms
proof (induction es arbitrary: I ob)
  case (Cons e es)
  have "\<exists>ob'. objects (ideal_step (snd e) I) p = Some ob' \<and> o_alive ob' \<and> o_born ob' = o_born ob"
    using Cons.prems by (cases "snd e") (auto simp: Let_def split: option.splits)
  then show ?case using Cons.IH Cons.prems(3) by fastforce
qed simp

text \<open>An object that was released stays gone: its place is dead, or taken by a younger object.\<close>

definition gone :: "ptr \<Rightarrow> nat \<Rightarrow> ideal \<Rightarrow> bool" where
  "gone p k I \<longleftrightarrow> k < births I \<and> (\<exists>ob. objects I p = Some ob \<and> (o_alive ob \<longrightarrow> o_born ob \<noteq> k))"

lemma gone_step: "gone p k I \<Longrightarrow> gone p k (ideal_step e I)"
  by (cases e) (auto simp: gone_def Let_def split: option.splits)

lemma gone_run: "gone p k I \<Longrightarrow> gone p k (ideal_run es I)"
  by (induction es arbitrary: I) (simp_all add: gone_step)

lemma origin_run: "\<forall>q. Note a q \<notin> snd ` set es \<Longrightarrow> origin (ideal_run es I) a = origin I a"
proof (induction es arbitrary: I)
  case (Cons e es)
  have "origin (ideal_step (snd e) I) a = origin I a"
    using Cons.prems by (cases "snd e") (auto simp: Let_def split: option.splits)
  then show ?case using Cons by auto
qed simp

lemma alloc_alive: "p \<noteq> 0 \<Longrightarrow> \<exists>ob. objects (ideal_step (Alloc p sz) I) p = Some ob \<and> o_alive ob"
  by (auto simp: Let_def split: option.splits)

lemma escape_ideal:
  assumes a: "a \<noteq> 0" "p \<noteq> 0" and zs: "Free p \<notin> snd ` set zs" and post: "\<forall>q. Note a q \<notin> snd ` set post"
    and I_def: "I = ideal_run (ys @ (g, Alloc p sz) # zs @ (gr, Note a p) # post) ideal_init"
  shows "\<exists>k. origin I a = Some (p, k) \<and>
    (if Free p \<in> snd ` set post then gone p k I
     else \<exists>ob. objects I p = Some ob \<and> o_alive ob \<and> o_born ob = k)"
proof -
  let ?I1 = "ideal_run (ys @ [(g, Alloc p sz)]) ideal_init"
  let ?I2 = "ideal_run (ys @ (g, Alloc p sz) # zs) ideal_init"
  obtain ob where "objects ?I1 p = Some ob" "o_alive ob" using alloc_alive [OF a(2)] by fastforce
  from alive_run [OF this zs] obtain ob where ob: "objects ?I2 p = Some ob" "o_alive ob" by auto
  let ?k = "o_born ob" and ?I3 = "ideal_step (Note a p) ?I2"
  have three: "objects ?I3 p = Some ob" "origin ?I3 a = Some (p, ?k)" using a ob(1) by (simp_all del: ideal_run_simps)
  have I: "I = ideal_run post ?I3" by (simp add: I_def)
  have org: "origin I a = Some (p, ?k)" using origin_run [OF post] three(2) I by simp
  show ?thesis
  proof (cases "Free p \<in> snd ` set post")
    case True
    then obtain e where "e \<in> set post" "snd e = Free p" by auto
    then obtain us vs where split: "post = us @ e # vs" by (auto simp: in_set_conv_decomp)
    let ?I4 = "ideal_run us ?I3"
    have "numbered ?I3" using numbered_run numbered_step by blast
    then have k: "?k < births ?I3" using three(1) by (simp add: numbered_def del: ideal_step.simps)
    have "births J \<le> births (ideal_step e J)" for e J by (cases e) (auto simp: Let_def split: option.splits)
    then have mono: "births J \<le> births (ideal_run us J)" for J
      by (induction us arbitrary: J) (auto intro: order_trans)
    have live: "objects J q \<noteq> None \<Longrightarrow> objects (ideal_step e J) q \<noteq> None" for e J q
      by (cases e) (auto simp: Let_def split: option.splits)
    have "objects J p \<noteq> None \<Longrightarrow> objects (ideal_run us J) p \<noteq> None" for J
    proof (induction us arbitrary: J)
      case (Cons e us)
      then show ?case using live [OF Cons.prems] by (simp del: ideal_step.simps)
    qed simp
    then obtain ob4 where "objects ?I4 p = Some ob4" using three(1) by (metis not_None_eq)
    then have "gone p ?k (ideal_step (snd e) ?I4)"
      using \<open>snd e = Free p\<close> a(2) k mono [of ?I3] by (auto simp: gone_def simp del: ideal_run_simps)
    then have "gone p ?k I" using gone_run I split by simp
    then show ?thesis using org True by auto
  next
    case False
    then show ?thesis using alive_run [OF three(1) ob(2) False] org I by auto
  qed
qed

text \<open>
  C30 (safety). An address taken from a live block: its dereference passes as long as the block is not
  released, and is diagnosed from its release on, even when another object has taken the place of
  the block, whatever else is registered in between.
\<close>

theorem escaped_pointer_diagnosed:
  assumes "list_all (fits \<circ> snd) (ys @ (g, Alloc p sz) # zs @ (gr, Note a p) # post)"
    and "length (ys @ (g, Alloc p sz) # zs @ (gr, Note a p) # post) < 2 ^ 32"
    and "a \<noteq> 0" and "p \<noteq> 0" and "Free p \<notin> snd ` set zs" and "\<forall>q. Note a q \<notin> snd ` set post"
    and "mem_run (ys @ (g, Alloc p sz) # zs @ (gr, Note a p) # post) mem_init = Some m" and "\<not> g_disabled m"
  shows "(ctfe_mem_check m a = Some None \<longleftrightarrow> Free p \<notin> snd ` set post) \<and>
    (Free p \<in> snd ` set post \<longrightarrow> ctfe_mem_check m a \<in> {Some (Some (Released p)), Some (Some (Reused p))})"
proof (intro conjI)
  let ?es = "ys @ (g, Alloc p sz) # zs @ (gr, Note a p) # post"
  let ?I = "ideal_run ?es ideal_init"
  have "simulates (length ?es) m ?I" using mem_run_simulates [OF simulates_init assms(1)] assms(7) by auto
  then obtain d where d: "ctfe_mem_check m a = Some d" "d = None \<longleftrightarrow> sound ?I a" "\<forall>x. d = Some x \<longrightarrow> explains ?I a x"
    using check_refines [of m "length ?es" ?I a] assms(2,8) by (auto simp: simulates_def simp del: ideal_run_simps)
  obtain k where k: "origin ?I a = Some (p, k)" "if Free p \<in> snd ` set post then gone p k ?I
     else \<exists>ob. objects ?I p = Some ob \<and> o_alive ob \<and> o_born ob = k"
    using escape_ideal [OF assms(3-6) refl] by blast
  then have "sound ?I a \<longleftrightarrow> Free p \<notin> snd ` set post"
    using assms(3) by (auto simp: sound_def gone_def simp del: ideal_run_simps split: if_splits)
  then show "ctfe_mem_check m a = Some None \<longleftrightarrow> Free p \<notin> snd ` set post" using d by simp
  have "x \<in> {Released p, Reused p}" if "explains ?I a x" for x
    using that k(1) by (cases x) (auto simp del: ideal_run_simps)
  then show "Free p \<in> snd ` set post \<longrightarrow> ctfe_mem_check m a \<in> {Some (Some (Released p)), Some (Some (Reused p))}"
    using d \<open>sound ?I a \<longleftrightarrow> _\<close> by (cases d) auto
qed

theorem escaped_pointer_diagnosed_witness:
  "\<exists>m. mem_run [(granted, Alloc 16 8), (granted, Note 20 16), (granted, Free 16)] mem_init = Some m \<and>
     ctfe_mem_check m 20 \<in> {Some (Some (Released 16)), Some (Some (Reused 16))}"
proof -
  let ?es = "[] @ (granted, Alloc 16 8) # [] @ (granted, Note 20 16) # [(granted, Free 16)]"
  have fit: "list_all (fits \<circ> snd) ?es" "length ?es < 2 ^ 32" by simp_all
  obtain m where m: "mem_run ?es mem_init = Some m" "\<not> g_disabled m"
    using mem_run_simulates [OF simulates_init fit(1)] by (auto simp: mem_init_def granted_def CTFE_MEM_MAX_ENTRIES_def)
  then show ?thesis using escaped_pointer_diagnosed [OF fit _ _ _ _ m] by simp
qed

end
