(* ===== verification/InitTdz.thy ===== *)
theory InitTdz
  imports Prelude
begin

text \<open>
  The field check of \<open>__init__\<close> and \<open>__init_copy__\<close> bodies (\<open>src/sema/init_tdz.c\<close>): a conservative
  data flow over the syntax tree that reports a field of \<open>self\<close> read before it is assigned, and a
  field not assigned at a return.

  The syntax tree keeps the node kinds the check distinguishes; \<open>Other\<close> and \<open>Other_stmt\<close> stand for
  every other kind, with the nodes below it, which the check does not visit. The children that the
  code tests for \<open>NULL\<close> are options. Lists of children are the \<open>next\<close> chains of the code. The arena
  is taken to have the memory for the copies of a state.
\<close>

section \<open>Syntax\<close>

datatype expr =
    Ident string
  | Member expr string
  | Addr expr
  | Call expr "expr list"
  | Binary expr expr
  | Unary expr
  | Index expr "expr list"
  | Deref expr
  | Assign_expr expr expr
  | Other "expr list"

datatype stmt =
    Block "stmt list"
  | Var_def "expr option"
  | Expr_stmt "expr option"
  | Assign expr "string option" expr
  | Return "expr option"
  | If expr "stmt option" "stmt option"
  | While expr "stmt option"
  | Break
  | Continue
  | Other_stmt "stmt list"

section \<open>State\<close>

text \<open>The names of the fields of the struct (\<open>None\<close> for a null pointer), and for each field whether
  it is surely assigned.\<close>

record tdz_state =
  t_fields :: "string option list"
  t_assigned :: "bool list"
  t_whole :: bool

text \<open>What is reported: a field used before its assignment, or not assigned before a return.\<close>

datatype tdz_diag = Used_early string | Not_assigned "string option"

fun first_index :: "string option list \<Rightarrow> string \<Rightarrow> nat option" where
  "first_index [] x = None"
| "first_index (f # fs) x = (if f = Some x then Some 0 else map_option Suc (first_index fs x))"

definition field_index :: "tdz_state \<Rightarrow> string \<Rightarrow> nat option" where
  "field_index st x = first_index (t_fields st) x"

fun is_self_ident :: "expr \<Rightarrow> bool" where
  "is_self_ident (Ident x) \<longleftrightarrow> x = ''self''"
| "is_self_ident _ \<longleftrightarrow> False"

fun is_self_ref :: "expr \<Rightarrow> bool" where
  "is_self_ref (Deref e) \<longleftrightarrow> is_self_ident e"
| "is_self_ref e \<longleftrightarrow> is_self_ident e"

section \<open>Reads\<close>

text \<open>
  \<open>check_reads st e rest target\<close>: the node \<open>e\<close> with the siblings \<open>rest\<close> that follow it in its chain.
  A node of a kind without a case of its own leads to the loop over the chain (\<open>check_siblings\<close>),
  which looks below the operators it meets and stops behind a call. \<open>check_chain\<close> is the loop over
  the arguments of a call or an index. The code compares nodes by address; the target of an
  assignment that it passes is never the node it compares it with (\<open>Some (Index o _)\<close> against \<open>o\<close>).
\<close>

function (sequential) check_reads :: "tdz_state \<Rightarrow> expr \<Rightarrow> expr list \<Rightarrow> expr option \<Rightarrow> tdz_diag list"
and check_siblings :: "tdz_state \<Rightarrow> expr list \<Rightarrow> tdz_diag list"
and check_chain :: "tdz_state \<Rightarrow> expr list \<Rightarrow> tdz_diag list"
where
  "check_reads st (Member obj f) rest target =
     (if is_self_ref obj then
        (case field_index st f of
           Some i \<Rightarrow> if \<not> t_whole st \<and> \<not> t_assigned st ! i \<and> target \<noteq> Some (Member obj f) then [Used_early f] else []
         | None \<Rightarrow> [])
      else check_reads st obj [] None)"
| "check_reads st (Addr e) rest target = []"
| "check_reads st (Call callee args) rest target = check_reads st callee [] None @ check_chain st args"
| "check_reads st (Assign_expr t v) rest target = []"
| "check_reads st e rest target = check_siblings st (e # rest)"
| "check_siblings st [] = []"
| "check_siblings st (Binary l r # rest) =
     check_reads st l [] None @ check_reads st r [] None @ check_siblings st rest"
| "check_siblings st (Unary e # rest) = check_reads st e [] None @ check_siblings st rest"
| "check_siblings st (Index e ix # rest) = check_reads st e [] None @ check_chain st ix @ check_siblings st rest"
| "check_siblings st (Deref e # rest) = check_reads st e [] None @ check_siblings st rest"
| "check_siblings st (Call _ _ # rest) = []"
| "check_siblings st (_ # rest) = check_siblings st rest"
| "check_chain st [] = []"
| "check_chain st (a # rest) = check_reads st a rest None @ check_chain st rest"
  by pat_completeness auto

termination
  by (relation "inv_image (less_than <*lex*> less_than) (\<lambda>x. case x of
       Inl (st, e, rest, t) \<Rightarrow> (Suc (size e + size_list size rest), Suc 0)
     | Inr (Inl (st, es)) \<Rightarrow> (size_list size es, 0)
     | Inr (Inr (st, es)) \<Rightarrow> (size_list size es, 2))") auto

section \<open>Assignments\<close>

definition set_assigned :: "tdz_state \<Rightarrow> nat option \<Rightarrow> tdz_state" where
  "set_assigned st i = (case i of Some i \<Rightarrow> st\<lparr>t_assigned := (t_assigned st)[i := True]\<rparr> | None \<Rightarrow> st)"

definition compound :: "string option \<Rightarrow> bool" where
  "compound op \<longleftrightarrow> op \<noteq> None \<and> op \<noteq> Some ''=''"

text \<open>The field of \<open>self\<close> that a member node names.\<close>

fun self_field :: "tdz_state \<Rightarrow> expr \<Rightarrow> nat option" where
  "self_field st (Member obj f) = (if is_self_ref obj then field_index st f else None)"
| "self_field st _ = None"

fun handle_assign :: "tdz_state \<Rightarrow> expr \<Rightarrow> string option \<Rightarrow> expr \<Rightarrow> tdz_state \<times> tdz_diag list" where
  "handle_assign st (Deref e) op v =
     (if is_self_ident e then
        (st\<lparr>t_whole := True, t_assigned := replicate (length (t_fields st)) True\<rparr>, check_reads st v [] None)
      else (st, check_reads st e [] None @ check_reads st v [] None))"
| "handle_assign st (Member obj f) op v =
     (if is_self_ref obj then
        let i = field_index st f;
            early = (case i of Some j \<Rightarrow> if compound op \<and> \<not> t_whole st \<and> \<not> t_assigned st ! j then [Used_early f] else [] | None \<Rightarrow> [])
        in (set_assigned st i, early @ check_reads st v [] None)
      else (st, check_reads st (Member obj f) [] None @ check_reads st v [] None))"
| "handle_assign st (Index e ix) op v =
     (set_assigned st (self_field st e),
      check_reads st e [] (Some (Index e ix)) @ check_chain st ix @ check_reads st v [] None)"
| "handle_assign st t op v = (st, check_reads st t [] None @ check_reads st v [] None)"

section \<open>Statements\<close>

definition state_meet :: "tdz_state \<Rightarrow> tdz_state \<Rightarrow> tdz_state \<Rightarrow> tdz_state" where
  "state_meet out a b =
     (let whole = t_whole a \<and> t_whole b
      in out\<lparr>t_whole := whole, t_assigned := map2 (\<lambda>x y. x \<and> y \<or> whole) (t_assigned a) (t_assigned b)\<rparr>)"

definition tdz_return_check :: "tdz_state \<Rightarrow> tdz_diag list" where
  "tdz_return_check st =
     (if t_whole st then []
      else case List.find (\<lambda>i. \<not> t_assigned st ! i) [0..<length (t_fields st)] of
        None \<Rightarrow> [] | Some i \<Rightarrow> [Not_assigned (t_fields st ! i)])"

definition opt_reads :: "tdz_state \<Rightarrow> expr option \<Rightarrow> tdz_diag list" where
  "opt_reads st e = (case e of None \<Rightarrow> [] | Some e \<Rightarrow> check_reads st e [] None)"

fun check_stmt :: "tdz_state \<Rightarrow> stmt \<Rightarrow> tdz_state \<times> tdz_diag list"
and check_block :: "tdz_state \<Rightarrow> stmt list \<Rightarrow> tdz_state \<times> tdz_diag list"
and check_opt :: "tdz_state \<Rightarrow> stmt option \<Rightarrow> tdz_state \<times> tdz_diag list"
where
  "check_stmt st (Block ss) = check_block st ss"
| "check_stmt st (Var_def init) = (st, opt_reads st init)"
| "check_stmt st (Expr_stmt e) = (st, opt_reads st e)"
| "check_stmt st (Assign t op v) = handle_assign st t op v"
| "check_stmt st (Return v) = (st, opt_reads st v @ tdz_return_check st)"
| "check_stmt st (If c th el) =
     (let (t2, ds) = check_opt st th; (e2, es) = check_opt st el
      in (state_meet st t2 e2, check_reads st c [] None @ ds @ es))"
| "check_stmt st (While c body) = (st, check_reads st c [] None @ snd (check_opt st body))"
| "check_stmt st Break = (st, [])"
| "check_stmt st Continue = (st, [])"
| "check_stmt st (Other_stmt ss) = (st, [])"
| "check_block st [] = (st, [])"
| "check_block st (s # ss) = (let (st, ds) = check_stmt st s; (st, es) = check_block st ss in (st, ds @ es))"
| "check_opt st None = (st, [])"
| "check_opt st (Some s) = check_stmt st s"

text \<open>The fields of the owner, \<open>None\<close> when the owner is no struct. The body ends with an implicit
  return.\<close>

definition sema_check_init_body :: "string option list option \<Rightarrow> stmt \<Rightarrow> tdz_diag list" where
  "sema_check_init_body owner body =
     (case owner of None \<Rightarrow> []
      | Some fs \<Rightarrow>
          if fs = [] then []
          else let st = \<lparr>t_fields = fs, t_assigned = replicate (length fs) False, t_whole = False\<rparr>;
                   (st, ds) = check_stmt st body
               in ds @ tdz_return_check st)"

end
