(* ===== verification/InitTdzRuns.thy ===== *)
theory InitTdzRuns
  imports InitTdz
begin

text \<open>
  What the field check of \<open>__init__\<close> bodies (\<open>src/sema/init_tdz.c\<close>) is about: the runs of a body as
  sequences of accesses to the fields of \<open>self\<close>, the syntax the check follows, and the soundness of the
  data flow along the runs.
\<close>

section \<open>Runs\<close>

text \<open>A run of a body as the sequence of its accesses to the fields of \<open>self\<close>, by index.\<close>

datatype access = Read nat | Write nat

text \<open>The fields that the evaluation of an expression reads, at most.\<close>

fun reads :: "string option list \<Rightarrow> expr \<Rightarrow> nat set" where
  "reads fs (Ident x) = {}"
| "reads fs (Member obj f) = (if is_self_ref obj then set_option (first_index fs f) else reads fs obj)"
| "reads fs (Addr e) = {}"
| "reads fs (Call c as) = reads fs c \<union> (\<Union>a \<in> set as. reads fs a)"
| "reads fs (Binary l r) = reads fs l \<union> reads fs r"
| "reads fs (Unary e) = reads fs e"
| "reads fs (Index e ix) = reads fs e \<union> (\<Union>a \<in> set ix. reads fs a)"
| "reads fs (Deref e) = (if is_self_ident e then {..<length fs} else reads fs e)"
| "reads fs (Assign_expr t v) = reads fs t \<union> reads fs v"
| "reads fs (Other es) = (\<Union>e \<in> set es. reads fs e)"

text \<open>
  The expressions the check follows: \<open>self\<close> occurs only below the access to one of its fields, an
  address is taken of a variable or a field, and the kinds it does not look into have nothing below
  them.
\<close>

fun place :: "string option list \<Rightarrow> expr \<Rightarrow> bool" where
  "place fs (Ident x) \<longleftrightarrow> x \<noteq> ''self''"
| "place fs (Member obj f) \<longleftrightarrow> (if is_self_ref obj then first_index fs f \<noteq> None else place fs obj)"
| "place fs _ \<longleftrightarrow> False"

fun tracked :: "string option list \<Rightarrow> expr \<Rightarrow> bool" where
  "tracked fs (Ident x) \<longleftrightarrow> x \<noteq> ''self''"
| "tracked fs (Member obj f) \<longleftrightarrow> (if is_self_ref obj then first_index fs f \<noteq> None else tracked fs obj)"
| "tracked fs (Addr e) \<longleftrightarrow> place fs e"
| "tracked fs (Call c as) \<longleftrightarrow> tracked fs c \<and> list_all (tracked fs) as"
| "tracked fs (Binary l r) \<longleftrightarrow> tracked fs l \<and> tracked fs r"
| "tracked fs (Unary e) \<longleftrightarrow> tracked fs e"
| "tracked fs (Index e ix) \<longleftrightarrow> tracked fs e \<and> list_all (tracked fs) ix"
| "tracked fs (Deref e) \<longleftrightarrow> tracked fs e"
| "tracked fs (Assign_expr t v) \<longleftrightarrow> False"
| "tracked fs (Other es) \<longleftrightarrow> es = []"

fun tracked_target :: "string option list \<Rightarrow> expr \<Rightarrow> bool" where
  "tracked_target fs (Deref e) \<longleftrightarrow> is_self_ident e \<or> tracked fs e"
| "tracked_target fs t \<longleftrightarrow> tracked fs t"

fun tracked_stmt :: "string option list \<Rightarrow> stmt \<Rightarrow> bool" where
  "tracked_stmt fs (Block ss) \<longleftrightarrow> list_all (tracked_stmt fs) ss"
| "tracked_stmt fs (Var_def e) \<longleftrightarrow> pred_option (tracked fs) e"
| "tracked_stmt fs (Expr_stmt e) \<longleftrightarrow> pred_option (tracked fs) e"
| "tracked_stmt fs (Assign t op v) \<longleftrightarrow> tracked_target fs t \<and> tracked fs v"
| "tracked_stmt fs (Return e) \<longleftrightarrow> pred_option (tracked fs) e"
| "tracked_stmt fs (If c th el) \<longleftrightarrow> tracked fs c \<and> pred_option (tracked_stmt fs) th \<and> pred_option (tracked_stmt fs) el"
| "tracked_stmt fs (While c b) \<longleftrightarrow> tracked fs c \<and> pred_option (tracked_stmt fs) b"
| "tracked_stmt fs Break \<longleftrightarrow> True"
| "tracked_stmt fs Continue \<longleftrightarrow> True"
| "tracked_stmt fs (Other_stmt ss) \<longleftrightarrow> False"

text \<open>
  The accesses of an assignment: what is read, then what is written. A compound assignment reads its
  field first; an element of an array field is stored through the field, which is read.
\<close>

fun target_reads :: "string option list \<Rightarrow> expr \<Rightarrow> string option \<Rightarrow> nat set" where
  "target_reads fs (Deref e) op = (if is_self_ident e then {} else reads fs e)"
| "target_reads fs (Member obj f) op =
     (if is_self_ref obj then (if compound op then set_option (first_index fs f) else {}) else reads fs obj)"
| "target_reads fs t op = reads fs t"

fun opt_list :: "'a option \<Rightarrow> 'a list" where
  "opt_list None = []" | "opt_list (Some x) = [x]"

lemma set_opt_list [simp]: "set (opt_list x) = set_option x"
  by (cases x) simp_all

fun target_writes :: "string option list \<Rightarrow> expr \<Rightarrow> nat list" where
  "target_writes fs (Deref e) = (if is_self_ident e then [0..<length fs] else [])"
| "target_writes fs (Member obj f) =
     (if is_self_ref obj then opt_list (first_index fs f) else [])"
| "target_writes fs t = []"

text \<open>How a run of a statement ends; \<open>Cut\<close> stands for a run that is watched up to some point only,
  which covers the runs that never end.\<close>

datatype outcome = Go | Returned | Broke | Continued | Cut

definition evals :: "nat set \<Rightarrow> access list \<Rightarrow> bool" where
  "evals R tr \<longleftrightarrow> set tr \<subseteq> Read ` R"

definition opt_set :: "('a \<Rightarrow> nat set) \<Rightarrow> 'a option \<Rightarrow> nat set" where
  "opt_set f x = (case x of None \<Rightarrow> {} | Some y \<Rightarrow> f y)"

inductive exec :: "string option list \<Rightarrow> stmt \<Rightarrow> access list \<Rightarrow> outcome \<Rightarrow> bool"
  and exec_list :: "string option list \<Rightarrow> stmt list \<Rightarrow> access list \<Rightarrow> outcome \<Rightarrow> bool"
  and exec_opt :: "string option list \<Rightarrow> stmt option \<Rightarrow> access list \<Rightarrow> outcome \<Rightarrow> bool"
  for fs :: "string option list"
where
  cut: "exec fs s [] Cut"
| block: "exec_list fs ss tr oc \<Longrightarrow> exec fs (Block ss) tr oc"
| var_def: "evals (opt_set (reads fs) e) tr \<Longrightarrow> exec fs (Var_def e) tr Go"
| expr_stmt: "evals (opt_set (reads fs) e) tr \<Longrightarrow> exec fs (Expr_stmt e) tr Go"
| assign: "evals (target_reads fs t op \<union> reads fs v) tr \<Longrightarrow>
    exec fs (Assign t op v) (tr @ map Write (target_writes fs t)) Go"
| return: "evals (opt_set (reads fs) e) tr \<Longrightarrow> exec fs (Return e) tr Returned"
| if_then: "evals (reads fs c) tr \<Longrightarrow> exec_opt fs th tr' oc \<Longrightarrow> exec fs (If c th el) (tr @ tr') oc"
| if_else: "evals (reads fs c) tr \<Longrightarrow> exec_opt fs el tr' oc \<Longrightarrow> exec fs (If c th el) (tr @ tr') oc"
| while_done: "evals (reads fs c) tr \<Longrightarrow> exec fs (While c b) tr Go"
| while_next: "evals (reads fs c) tr \<Longrightarrow> exec_opt fs b tr' oc' \<Longrightarrow> oc' \<in> {Go, Continued} \<Longrightarrow>
    exec fs (While c b) tr'' oc \<Longrightarrow> exec fs (While c b) (tr @ tr' @ tr'') oc"
| while_break: "evals (reads fs c) tr \<Longrightarrow> exec_opt fs b tr' Broke \<Longrightarrow> exec fs (While c b) (tr @ tr') Go"
| while_leave: "evals (reads fs c) tr \<Longrightarrow> exec_opt fs b tr' oc \<Longrightarrow> oc \<in> {Returned, Cut} \<Longrightarrow>
    exec fs (While c b) (tr @ tr') oc"
| break: "exec fs Break [] Broke"
| continue: "exec fs Continue [] Continued"
| nil: "exec_list fs [] [] Go"
| cons: "exec fs s tr Go \<Longrightarrow> exec_list fs ss tr' oc \<Longrightarrow> exec_list fs (s # ss) (tr @ tr') oc"
| stop: "exec fs s tr oc \<Longrightarrow> oc \<noteq> Go \<Longrightarrow> exec_list fs (s # ss) tr oc"
| none: "exec_opt fs None [] Go"
| some: "exec fs s tr oc \<Longrightarrow> exec_opt fs (Some s) tr oc"

text \<open>Every read comes after a write of its field, given the fields in \<open>A\<close> are written before.\<close>

fun ordered :: "nat set \<Rightarrow> access list \<Rightarrow> bool" where
  "ordered A [] \<longleftrightarrow> True"
| "ordered A (Read i # tr) \<longleftrightarrow> i \<in> A \<and> ordered A tr"
| "ordered A (Write i # tr) \<longleftrightarrow> ordered (insert i A) tr"

definition written :: "access list \<Rightarrow> nat set" where
  "written tr = {i. Write i \<in> set tr}"

lemma written_simps [simp]:
  "written [] = {}" "written (Read i # tr) = written tr" "written (Write i # tr) = insert i (written tr)"
  "written (tr @ tr') = written tr \<union> written tr'" "written (map Write is) = set is"
  by (auto simp: written_def)

lemma ordered_append: "ordered A (tr @ tr') \<longleftrightarrow> ordered A tr \<and> ordered (A \<union> written tr) tr'"
  by (induction A tr rule: ordered.induct) simp_all

lemma ordered_writes [simp]: "ordered A (map Write is)"
  by (induction "is" arbitrary: A) simp_all

lemma evals_ordered: "evals R tr \<Longrightarrow> R \<subseteq> A \<Longrightarrow> ordered A tr"
  by (induction tr) (auto simp: evals_def)

lemma evals_written [simp]: "evals R tr \<Longrightarrow> written tr = {}"
  by (auto simp: evals_def written_def)

text \<open>The meaning of \<open>ordered\<close>: before a read of a field there is a write of it.\<close>

lemma ordered_read:
  assumes "ordered {} (us @ Read i # vs)"
  shows "Write i \<in> set us"
  using assms by (simp add: ordered_append written_def)

section \<open>The data flow\<close>

definition got :: "tdz_state \<Rightarrow> nat set" where
  "got st = {i. t_whole st \<or> t_assigned st ! i}"

definition wf_state :: "string option list \<Rightarrow> tdz_state \<Rightarrow> bool" where
  "wf_state fs st \<longleftrightarrow> t_fields st = fs \<and> length (t_assigned st) = length fs"

lemma first_index_less: "first_index fs x = Some i \<Longrightarrow> i < length fs"
  by (induction fs arbitrary: i) (auto split: if_splits)

text \<open>The kinds that \<open>check_reads\<close> leaves to the loop over the chain.\<close>

fun chained :: "expr \<Rightarrow> bool" where
  "chained (Member _ _) \<longleftrightarrow> False" | "chained (Addr _) \<longleftrightarrow> False" | "chained (Call _ _) \<longleftrightarrow> False"
| "chained (Assign_expr _ _) \<longleftrightarrow> False" | "chained _ \<longleftrightarrow> True"

lemma self_ident_tracked [simp]: "tracked fs e \<Longrightarrow> \<not> is_self_ident e"
  by (cases e) simp_all

lemma accepted_reads:
  "check_reads st e rest tgt = [] \<Longrightarrow> tgt \<noteq> Some e \<Longrightarrow> tracked (t_fields st) e \<Longrightarrow> reads (t_fields st) e \<subseteq> got st"
  "check_siblings st es = [] \<Longrightarrow> es \<noteq> [] \<Longrightarrow> chained (hd es) \<Longrightarrow> tracked (t_fields st) (hd es) \<Longrightarrow>
     reads (t_fields st) (hd es) \<subseteq> got st"
  "check_chain st es = [] \<Longrightarrow> list_all (tracked (t_fields st)) es \<Longrightarrow> (\<Union>e \<in> set es. reads (t_fields st) e) \<subseteq> got st"
  by (induction st e rest tgt and st es and st es rule: check_reads_check_siblings_check_chain.induct)
    (auto simp: got_def field_index_def split: if_splits option.splits)

lemma covered_reads:
  "reads (t_fields st) e \<subseteq> got st \<Longrightarrow> \<forall>r \<in> set rest. reads (t_fields st) r \<subseteq> got st \<Longrightarrow>
     tracked (t_fields st) e \<Longrightarrow> list_all (tracked (t_fields st)) rest \<Longrightarrow> check_reads st e rest tgt = []"
  "\<forall>r \<in> set es. reads (t_fields st) r \<subseteq> got st \<Longrightarrow> list_all (tracked (t_fields st)) es \<Longrightarrow> check_siblings st es = []"
  "\<forall>r \<in> set es. reads (t_fields st) r \<subseteq> got st \<Longrightarrow> list_all (tracked (t_fields st)) es \<Longrightarrow> check_chain st es = []"
  by (induction st e rest tgt and st es and st es rule: check_reads_check_siblings_check_chain.induct)
    (auto simp: got_def field_index_def list_all_iff UN_subset_iff split: if_splits option.splits)

lemma check_reads_iff:
  "tracked (t_fields st) e \<Longrightarrow> tgt \<noteq> Some e \<Longrightarrow> check_reads st e [] tgt = [] \<longleftrightarrow> reads (t_fields st) e \<subseteq> got st"
  using accepted_reads(1) [of st e "[]" tgt] covered_reads(1) [of st e "[]" tgt] by auto

lemma check_chain_iff:
  "list_all (tracked (t_fields st)) es \<Longrightarrow> check_chain st es = [] \<longleftrightarrow> (\<Union>e \<in> set es. reads (t_fields st) e) \<subseteq> got st"
  using accepted_reads(3) [of st es] covered_reads(3) [of es st] by blast

lemma opt_reads_iff:
  "pred_option (tracked (t_fields st)) e \<Longrightarrow> opt_reads st e = [] \<longleftrightarrow> opt_set (reads (t_fields st)) e \<subseteq> got st"
  by (cases e) (simp_all add: opt_reads_def opt_set_def check_reads_iff)

lemma got_set_assigned:
  assumes "\<And>j. i = Some j \<Longrightarrow> j < length (t_assigned st)"
  shows "got (set_assigned st i) = got st \<union> set_option i"
  using assms by (cases i) (auto simp: got_def set_assigned_def nth_list_update)

lemma wf_set_assigned [simp]: "wf_state fs (set_assigned st i) \<longleftrightarrow> wf_state fs st"
  by (simp add: wf_state_def set_assigned_def split: option.split)

text \<open>An assignment is accepted when what it reads is assigned; its writes are then added.\<close>

lemma handle_assign_reads:
  assumes "wf_state fs st" and "tracked_target fs t" and "tracked fs v"
  shows "snd (handle_assign st t op v) = [] \<longleftrightarrow> target_reads fs t op \<union> reads fs v \<subseteq> got st"
  using assms
  by (cases t) (auto simp: wf_state_def check_reads_iff check_chain_iff field_index_def Let_def got_def
      split: option.splits if_splits)

lemma self_field_reads:
  assumes "wf_state fs st" and "self_field st e = Some i"
  shows "i < length fs \<and> i \<in> reads fs e"
  using assms first_index_less by (cases e) (simp_all add: wf_state_def field_index_def split: if_splits)

lemma handle_assign_state:
  assumes wf: "wf_state fs st" and t: "tracked_target fs t" and v: "tracked fs v"
    and ok: "snd (handle_assign st t op v) = []"
  shows "wf_state fs (fst (handle_assign st t op v)) \<and>
    got (fst (handle_assign st t op v)) \<inter> {..<length fs} = (got st \<union> set (target_writes fs t)) \<inter> {..<length fs}"
proof -
  have reads: "target_reads fs t op \<subseteq> got st" using handle_assign_reads [OF wf t v] ok by simp
  have len: "length (t_assigned st) = length fs" "t_fields st = fs" using wf by (simp_all add: wf_state_def)
  consider (member) obj f where "t = Member obj f" | (index) e ix where "t = Index e ix" | (deref) e where "t = Deref e"
    | (other) "target_writes fs t = []" "fst (handle_assign st t op v) = st"
    by (cases t) simp_all
  then show ?thesis
  proof cases
    case member
    have "\<And>j. first_index fs f = Some j \<Longrightarrow> j < length (t_assigned st)" using first_index_less len by simp
    then have "got (set_assigned st (first_index fs f)) = got st \<union> set_option (first_index fs f)" by (rule got_set_assigned)
    moreover have "field_index st f = first_index fs f" by (simp add: field_index_def len(2))
    then have "fst (handle_assign st t op v) = (if is_self_ref obj then set_assigned st (first_index fs f) else st)"
      by (simp add: member Let_def)
    moreover have "set (target_writes fs t) = (if is_self_ref obj then set_option (first_index fs f) else {})"
      by (cases "first_index fs f") (simp_all add: member)
    ultimately show ?thesis using wf by simp
  next
    case index
    have "\<And>j. self_field st e = Some j \<Longrightarrow> j < length (t_assigned st)" "set_option (self_field st e) \<subseteq> got st"
      using self_field_reads [OF wf, of e] reads index len by auto
    then have "got (set_assigned st (self_field st e)) = got st" using got_set_assigned by blast
    then show ?thesis using wf index by simp
  next
    case deref
    then show ?thesis using wf len by (auto simp: got_def wf_state_def)
  next
    case other
    then show ?thesis using wf by simp
  qed
qed

lemma return_check_iff:
  "wf_state fs st \<Longrightarrow> tdz_return_check st = [] \<longleftrightarrow> {..<length fs} \<subseteq> got st"
  by (auto simp: tdz_return_check_def wf_state_def got_def find_None_iff split: option.splits)
    (auto simp: find_Some_iff)

lemma state_meet_got:
  assumes "wf_state fs out" and "wf_state fs a" and "wf_state fs b"
  shows "wf_state fs (state_meet out a b)"
    and "got (state_meet out a b) \<inter> {..<length fs} \<subseteq> got a \<inter> got b"
  using assms by (auto simp: wf_state_def state_meet_def got_def Let_def)

section \<open>Soundness\<close>

text \<open>
  A run from a state whose sure fields are written, of a statement that is accepted there: its reads
  are ordered, it ends with the sure fields of the state behind the statement written, and with all
  of them at a return.
\<close>

definition flows :: "string option list \<Rightarrow> tdz_state \<times> tdz_diag list \<Rightarrow> nat set \<Rightarrow> access list \<Rightarrow> outcome \<Rightarrow> bool" where
  "flows fs r A tr oc \<longleftrightarrow> ordered A tr \<and>
     (oc = Go \<longrightarrow> got (fst r) \<inter> {..<length fs} \<subseteq> A \<union> written tr) \<and>
     (oc = Returned \<longrightarrow> {..<length fs} \<subseteq> A \<union> written tr)"

definition covers :: "string option list \<Rightarrow> tdz_state \<Rightarrow> nat set \<Rightarrow> bool" where
  "covers fs st A \<longleftrightarrow> got st \<inter> {..<length fs} \<subseteq> A"

lemma reads_bounded: "reads fs e \<subseteq> {..<length fs}"
  by (induction fs e rule: reads.induct) (auto dest: first_index_less split: if_splits)

lemma target_reads_bounded: "target_reads fs t op \<subseteq> {..<length fs}"
proof (cases t)
  case (Member obj f)
  then show ?thesis using reads_bounded [of fs obj] first_index_less [of fs f] by auto
next
  case (Deref e)
  then show ?thesis using reads_bounded [of fs e] by auto
qed (use reads_bounded [of fs t] in simp_all)

lemma covered_eval:
  assumes "covers fs st A" and "evals R tr" and "R \<subseteq> got st" and "R \<subseteq> {..<length fs}"
  shows "ordered A tr"
  using evals_ordered [OF assms(2), of A] assms by (auto simp: covers_def)

text \<open>The state after an accepted statement is well formed.\<close>

lemma check_wf:
  "wf_state fs st \<Longrightarrow> wf_state fs (fst (check_stmt st s))"
  "wf_state fs st \<Longrightarrow> wf_state fs (fst (check_block st ss))"
  "wf_state fs st \<Longrightarrow> wf_state fs (fst (check_opt st os))"
proof (induction st s and st ss and st os rule: check_stmt_check_block_check_opt.induct)
  case (4 st t op v)
  then show ?case by (cases t) (simp_all add: wf_state_def Let_def set_assigned_def split: option.splits)
qed (auto simp: Let_def wf_state_def state_meet_def split: prod.splits)

lemma opt_reads_flow:
  assumes "wf_state fs st" and "covers fs st A" and "pred_option (tracked fs) e" and "opt_reads st e = []"
    and "evals (opt_set (reads fs) e) tr"
  shows "ordered A tr"
  using assms opt_reads_iff [of st e] covered_eval [OF assms(2,5)] reads_bounded
  by (cases e) (auto simp: wf_state_def opt_set_def)

lemma cond_flow:
  assumes "wf_state fs st" and "covers fs st A" and "tracked fs c" and "check_reads st c [] None = []"
    and "evals (reads fs c) tr"
  shows "ordered A tr"
  using assms check_reads_iff [of st c None] covered_eval [OF assms(2,5)] reads_bounded by (auto simp: wf_state_def)

lemma sound_runs:
  "exec fs s tr oc \<Longrightarrow> wf_state fs st \<Longrightarrow> covers fs st A \<Longrightarrow> tracked_stmt fs s \<Longrightarrow> snd (check_stmt st s) = [] \<Longrightarrow>
     flows fs (check_stmt st s) A tr oc"
  "exec_list fs ss tr oc \<Longrightarrow> wf_state fs st \<Longrightarrow> covers fs st A \<Longrightarrow> list_all (tracked_stmt fs) ss \<Longrightarrow>
     snd (check_block st ss) = [] \<Longrightarrow> flows fs (check_block st ss) A tr oc"
  "exec_opt fs os tr oc \<Longrightarrow> wf_state fs st \<Longrightarrow> covers fs st A \<Longrightarrow> pred_option (tracked_stmt fs) os \<Longrightarrow>
     snd (check_opt st os) = [] \<Longrightarrow> flows fs (check_opt st os) A tr oc"
proof (induction arbitrary: st A and st A and st A rule: exec_exec_list_exec_opt.inducts)
  case (assign t op v tr)
  have reads: "target_reads fs t op \<union> reads fs v \<subseteq> got st"
    using handle_assign_reads assign.prems by simp
  have "ordered A tr"
    using covered_eval [OF assign.prems(2) assign(1) reads] reads_bounded target_reads_bounded by blast
  moreover have "got (fst (handle_assign st t op v)) \<inter> {..<length fs} \<subseteq> A \<union> set (target_writes fs t)"
    using handle_assign_state [of fs st t v op] assign.prems by (auto simp: covers_def)
  ultimately show ?case using assign(1) by (simp add: flows_def ordered_append)
next
  case (return e tr)
  then show ?case using opt_reads_flow [of fs st A e tr] return_check_iff [of fs st]
    by (auto simp: flows_def covers_def)
next
  case (if_then c tr th tr' oc el)
  have r: "check_reads st c [] None = []" "snd (check_opt st th) = []" "snd (check_opt st el) = []" and
    t: "tracked fs c" "pred_option (tracked_stmt fs) th"
    using if_then.prems by (auto simp: Let_def split: prod.splits)
  have "flows fs (check_opt st th) A tr' oc" using if_then(3) [OF if_then.prems(1,2) t(2) r(2)] .
  moreover have "ordered A tr" "written tr = {}"
    using cond_flow [OF if_then.prems(1,2) t(1) r(1) if_then(1)] if_then(1) by simp_all
  moreover have "got (fst (check_stmt st (If c th el))) \<inter> {..<length fs} \<subseteq> got (fst (check_opt st th))"
    using state_meet_got(2) [OF if_then.prems(1) check_wf(3) [OF if_then.prems(1), of th] check_wf(3) [OF if_then.prems(1), of el]]
    by (auto simp: Let_def split: prod.splits)
  ultimately show ?case by (auto simp: flows_def ordered_append)
next
  case (if_else c tr el tr' oc th)
  have r: "check_reads st c [] None = []" "snd (check_opt st th) = []" "snd (check_opt st el) = []" and
    t: "tracked fs c" "pred_option (tracked_stmt fs) el"
    using if_else.prems by (auto simp: Let_def split: prod.splits)
  have "flows fs (check_opt st el) A tr' oc" using if_else(3) [OF if_else.prems(1,2) t(2) r(3)] .
  moreover have "ordered A tr" "written tr = {}"
    using cond_flow [OF if_else.prems(1,2) t(1) r(1) if_else(1)] if_else(1) by simp_all
  moreover have "got (fst (check_stmt st (If c th el))) \<inter> {..<length fs} \<subseteq> got (fst (check_opt st el))"
    using state_meet_got(2) [OF if_else.prems(1) check_wf(3) [OF if_else.prems(1), of th] check_wf(3) [OF if_else.prems(1), of el]]
    by (auto simp: Let_def split: prod.splits)
  ultimately show ?case by (auto simp: flows_def ordered_append)
next
  case (while_next c tr b tr' oc' tr'' oc)
  have "ordered A tr" "written tr = {}" using cond_flow [of fs st A c tr] while_next.prems while_next(1) by auto
  moreover have "ordered A tr'" using while_next(3) [of st A] while_next.prems by (auto simp: flows_def)
  moreover have "covers fs st (A \<union> written tr')" using while_next.prems by (auto simp: covers_def)
  then have "flows fs (check_stmt st (While c b)) (A \<union> written tr') tr'' oc" using while_next(5) while_next.prems by blast
  ultimately show ?case by (auto simp: flows_def ordered_append Un_assoc)
next
  case (while_leave c tr b tr' oc)
  then show ?case using cond_flow [of fs st A c tr] by (fastforce simp: flows_def ordered_append)
next
  case (cons s tr ss tr' oc)
  let ?st = "fst (check_stmt st s)"
  have r: "snd (check_stmt st s) = []" "snd (check_block ?st ss) = []" "check_block st (s # ss) = check_block ?st ss"
    using cons.prems by (auto simp: Let_def split: prod.splits)
  have one: "flows fs (check_stmt st s) A tr Go" using cons(2) cons.prems r(1) by simp
  then have "covers fs ?st (A \<union> written tr)" by (simp add: flows_def covers_def)
  then have "flows fs (check_block ?st ss) (A \<union> written tr) tr' oc"
    using cons(4) [OF check_wf(1) [OF cons.prems(1)] _ _ r(2)] cons.prems(3) by simp
  then show ?case using one r(3) by (auto simp: flows_def ordered_append Un_assoc)
next
  case (stop s tr oc ss)
  then have "snd (check_stmt st s) = []" by (auto simp: Let_def split: prod.splits)
  then show ?case using stop(2) [OF stop.prems(1,2)] stop.prems(3) stop(3) by (simp add: flows_def)
qed (auto simp: flows_def ordered_append covers_def dest: opt_reads_flow cond_flow)

end
