(* ===== verification/InitTdzProps.thy ===== *)
theory InitTdzProps
  imports InitTdzRuns
begin

text \<open>
  The exactness of the field check of \<open>__init__\<close> bodies (\<open>src/sema/init_tdz.c\<close>) on structured bodies,
  and its properties.
\<close>

section \<open>Exactness\<close>

text \<open>Bodies whose control leaves every statement at its end.\<close>

fun structured :: "stmt \<Rightarrow> bool" where
  "structured (Block ss) \<longleftrightarrow> list_all structured ss"
| "structured (If c th el) \<longleftrightarrow> pred_option structured th \<and> pred_option structured el"
| "structured (While c b) \<longleftrightarrow> pred_option structured b"
| "structured (Return e) \<longleftrightarrow> False"
| "structured Break \<longleftrightarrow> False"
| "structured Continue \<longleftrightarrow> False"
| "structured (Other_stmt ss) \<longleftrightarrow> False"
| "structured _ \<longleftrightarrow> True"

definition whole_ok :: "tdz_state \<Rightarrow> bool" where
  "whole_ok st \<longleftrightarrow> (t_whole st \<longrightarrow> (\<forall>i < length (t_assigned st). t_assigned st ! i))"

definition breaks :: "nat \<Rightarrow> access list \<Rightarrow> bool" where
  "breaks i tr \<longleftrightarrow> (\<exists>us vs. tr = us @ Read i # vs \<and> i \<notin> written us)"

lemma breaks_append1: "breaks i tr \<Longrightarrow> breaks i (tr @ tr')"
  unfolding breaks_def by fastforce

lemma breaks_append2: "breaks i tr' \<Longrightarrow> i \<notin> written tr \<Longrightarrow> breaks i (tr @ tr')"
  unfolding breaks_def by (metis append.assoc UnE written_simps(4))

lemma breaks_ordered: "breaks i tr \<Longrightarrow> i \<notin> A \<Longrightarrow> \<not> ordered A tr"
  by (auto simp: breaks_def ordered_append)

lemma nth_update_True: "xs ! i \<Longrightarrow> xs[k := True] ! i"
  by (cases "k = i"; cases "k < length xs") (simp_all add: not_less list_update_beyond)

lemma check_whole:
  "wf_state fs st \<Longrightarrow> whole_ok st \<Longrightarrow> whole_ok (fst (check_stmt st s))"
  "wf_state fs st \<Longrightarrow> whole_ok st \<Longrightarrow> whole_ok (fst (check_block st ss))"
  "wf_state fs st \<Longrightarrow> whole_ok st \<Longrightarrow> whole_ok (fst (check_opt st os))"
proof (induction st s and st ss and st os rule: check_stmt_check_block_check_opt.induct)
  case (4 st t op v)
  then show ?case
    by (cases t) (auto simp: whole_ok_def wf_state_def Let_def set_assigned_def nth_update_True split: option.splits)
next
  case (6 st c th el)
  then show ?case by (auto simp: whole_ok_def state_meet_def Let_def split: prod.splits)
next
  case (12 st s ss)
  have "whole_ok (fst (check_block (fst (check_stmt st s)) ss))"
    using "12.IH"(1) "12.IH"(2) [OF refl prod.collapse] "12.prems" check_wf(1) [of fs st s] by simp
  then show ?case by (cases "check_stmt st s"; cases "check_block (fst (check_stmt st s)) ss") simp
qed (simp_all add: Let_def split: prod.splits)

text \<open>An expression that is not accepted has an evaluation that reads a field that is not sure.\<close>

lemma bad_eval:
  assumes "\<not> R \<subseteq> got st"
  shows "\<exists>i tr. i \<in> R \<and> i \<notin> got st \<and> evals R tr \<and> breaks i tr"
proof -
  obtain i where i: "i \<in> R" "i \<notin> got st" using assms by auto
  have "breaks i [Read i]" unfolding breaks_def by (rule exI [of _ "[]"]) simp
  then show ?thesis using i by (intro exI [of _ i] exI [of _ "[Read i]"]) (simp add: evals_def)
qed

lemma evals_nil [simp]: "evals R []"
  by (simp add: evals_def)

definition goes_wrong :: "string option list \<Rightarrow> tdz_state \<Rightarrow> (access list \<Rightarrow> outcome \<Rightarrow> bool) \<Rightarrow> bool" where
  "goes_wrong fs st run \<longleftrightarrow> (\<exists>i < length fs. \<exists>tr oc. i \<notin> got st \<and> run tr oc \<and> oc \<in> {Go, Cut} \<and> breaks i tr)"

definition avoids :: "string option list \<Rightarrow> tdz_state \<Rightarrow> tdz_state \<Rightarrow> (access list \<Rightarrow> outcome \<Rightarrow> bool) \<Rightarrow> bool" where
  "avoids fs st st' run \<longleftrightarrow> (\<forall>i < length fs. i \<notin> got st' \<longrightarrow> i \<notin> got st \<and> (\<exists>tr. run tr Go \<and> i \<notin> written tr))"

lemma run_mono:
  assumes "\<And>tr oc. run tr oc \<Longrightarrow> run' tr oc"
  shows "avoids fs st st' run \<Longrightarrow> avoids fs st st' run'" and "goes_wrong fs st run \<Longrightarrow> goes_wrong fs st run'"
  using assms unfolding avoids_def goes_wrong_def by blast+

lemma goes_wrongI:
  "\<not> R \<subseteq> got st \<Longrightarrow> R \<subseteq> {..<length fs} \<Longrightarrow> (\<And>tr. evals R tr \<Longrightarrow> \<exists>tr' oc. run (tr @ tr') oc \<and> oc \<in> {Go, Cut}) \<Longrightarrow> goes_wrong fs st run"
  using bad_eval [of R st] unfolding goes_wrong_def by (metis breaks_append1 lessThan_iff subsetD)

lemma cut_rest: "\<exists>oc \<in> {Go, Cut}. exec_list fs ss [] oc" "\<exists>oc \<in> {Go, Cut}. exec_opt fs os [] oc"
  by (cases ss; auto intro: exec_exec_list_exec_opt.intros) (cases os; auto intro: exec_exec_list_exec_opt.intros)

text \<open>What is shown of a construct whose check has the result \<open>r\<close>.\<close>

definition exact :: "string option list \<Rightarrow> tdz_state \<Rightarrow> tdz_state \<times> tdz_diag list \<Rightarrow> (access list \<Rightarrow> outcome \<Rightarrow> bool) \<Rightarrow> bool" where
  "exact fs st r run \<longleftrightarrow> (if snd r = [] then avoids fs st (fst r) run else goes_wrong fs st run)"

lemma exact_mono: "exact fs st r run \<Longrightarrow> (\<And>tr oc. run tr oc \<Longrightarrow> run' tr oc) \<Longrightarrow> exact fs st r run'"
  unfolding exact_def using run_mono [of run run'] by presburger

lemma exact_eval:
  assumes iff: "ds = [] \<longleftrightarrow> R \<subseteq> got st" and bound: "R \<subseteq> {..<length fs}" and run: "\<And>tr. evals R tr \<Longrightarrow> run (tr @ ws) Go"
    and state: "ds = [] \<Longrightarrow> got st' \<inter> {..<length fs} = (got st \<union> written ws) \<inter> {..<length fs}"
  shows "exact fs st (st', ds) run"
proof (cases "ds = []")
  case True
  have "run ws Go" using run [OF evals_nil] by simp
  then show ?thesis using True state by (fastforce simp: exact_def avoids_def)
next
  case False
  have "goes_wrong fs st run" by (rule goes_wrongI [OF _ bound]) (use False iff run in auto)
  then show ?thesis using False by (simp add: exact_def)
qed

lemma exact_assign:
  assumes "wf_state fs st" and "tracked_target fs t" and "tracked fs v"
  shows "exact fs st (handle_assign st t op v) (exec fs (Assign t op v))"
proof -
  have "exact fs st (fst (handle_assign st t op v), snd (handle_assign st t op v)) (exec fs (Assign t op v))"
  proof (rule exact_eval)
    show "snd (handle_assign st t op v) = [] \<longleftrightarrow> target_reads fs t op \<union> reads fs v \<subseteq> got st"
      by (rule handle_assign_reads [OF assms])
    show "target_reads fs t op \<union> reads fs v \<subseteq> {..<length fs}" using reads_bounded target_reads_bounded by blast
    show "exec fs (Assign t op v) (tr @ map Write (target_writes fs t)) Go" if "evals (target_reads fs t op \<union> reads fs v) tr" for tr
      by (rule assign [OF that])
    show "got (fst (handle_assign st t op v)) \<inter> {..<length fs} = (got st \<union> written (map Write (target_writes fs t))) \<inter> {..<length fs}"
      if "snd (handle_assign st t op v) = []" using handle_assign_state [OF assms that] by simp
  qed
  then show ?thesis by simp
qed

lemma exact_opt_reads:
  assumes "wf_state fs st" and "pred_option (tracked fs) e" and "\<And>tr. evals (opt_set (reads fs) e) tr \<Longrightarrow> run tr Go"
  shows "exact fs st (st, opt_reads st e) run"
proof (rule exact_eval [where ws = "[]"])
  show "opt_reads st e = [] \<longleftrightarrow> opt_set (reads fs) e \<subseteq> got st" using opt_reads_iff [of st e] assms by (simp add: wf_state_def)
  show "opt_set (reads fs) e \<subseteq> {..<length fs}" using reads_bounded by (cases e) (auto simp: opt_set_def)
qed (use assms(3) in simp_all)

lemma exact_if:
  assumes wf: "wf_state fs st" "whole_ok st" and tr: "tracked fs c"
    and t: "exact fs st (check_opt st th) (exec_opt fs th)" and e: "exact fs st (check_opt st el) (exec_opt fs el)"
  shows "exact fs st (check_stmt st (If c th el)) (exec fs (If c th el))"
proof -
  let ?run = "exec fs (If c th el)" and ?t = "check_opt st th" and ?e = "check_opt st el"
  have wfs: "wf_state fs (fst ?t)" "wf_state fs (fst ?e)" "whole_ok (fst ?t)" "whole_ok (fst ?e)"
    using check_wf(3) check_whole(3) wf by blast+
  have ds: "snd (check_stmt st (If c th el)) = check_reads st c [] None @ snd ?t @ snd ?e"
    "fst (check_stmt st (If c th el)) = state_meet st (fst ?t) (fst ?e)" by (simp_all add: Let_def split: prod.splits)
  have then_run: "?run tr oc" if "exec_opt fs th tr oc" for tr oc using if_then [OF evals_nil that, of c el] by simp
  have else_run: "?run tr oc" if "exec_opt fs el tr oc" for tr oc using if_else [OF evals_nil that, of c th] by simp
  have c: "check_reads st c [] None = [] \<longleftrightarrow> reads fs c \<subseteq> got st" using check_reads_iff [of st c None] tr wf by (simp add: wf_state_def)
  consider "\<not> reads fs c \<subseteq> got st" | "snd ?t \<noteq> []" | "snd ?e \<noteq> []" | "snd (check_stmt st (If c th el)) = []" using ds c by auto
  then show ?thesis
  proof cases
    case 1
    have "goes_wrong fs st ?run"
      by (rule goes_wrongI [OF 1 reads_bounded]) (use if_then cut_rest(2) in blast)
    then show ?thesis using 1 ds c by (simp add: exact_def)
  next
    case 2
    then have "goes_wrong fs st ?run" using t run_mono(2) [OF then_run] by (simp add: exact_def)
    then show ?thesis using 2 ds by (simp add: exact_def)
  next
    case 3
    then have "goes_wrong fs st ?run" using e run_mono(2) [OF else_run] by (simp add: exact_def)
    then show ?thesis using 3 ds by (simp add: exact_def)
  next
    case 4
    then have "avoids fs st (fst ?t) ?run" "avoids fs st (fst ?e) ?run"
      using t e ds run_mono(1) [OF then_run] run_mono(1) [OF else_run] by (simp_all add: exact_def)
    moreover have "i \<notin> got (fst ?t) \<or> i \<notin> got (fst ?e)" if "i < length fs" "i \<notin> got (state_meet st (fst ?t) (fst ?e))" for i
      using that wfs by (auto simp: got_def state_meet_def wf_state_def whole_ok_def Let_def)
    ultimately have "avoids fs st (state_meet st (fst ?t) (fst ?e)) ?run" unfolding avoids_def by blast
    then show ?thesis using 4 ds by (simp add: exact_def)
  qed
qed

lemma exact_while:
  assumes wf: "wf_state fs st" and tr: "tracked fs c" and b: "exact fs st (check_opt st b) (exec_opt fs b)"
  shows "exact fs st (check_stmt st (While c b)) (exec fs (While c b))"
proof -
  let ?run = "exec fs (While c b)"
  have c: "check_reads st c [] None = [] \<longleftrightarrow> reads fs c \<subseteq> got st" using check_reads_iff [of st c None] tr wf by (simp add: wf_state_def)
  consider "\<not> reads fs c \<subseteq> got st" | "snd (check_opt st b) \<noteq> []" | "snd (check_stmt st (While c b)) = []" using c by auto
  then show ?thesis
  proof cases
    case 1
    have "goes_wrong fs st ?run"
      by (rule goes_wrongI [OF 1 reads_bounded]) (metis append_Nil2 insertI1 while_done)
    then show ?thesis using 1 c by (simp add: exact_def)
  next
    case 2
    then obtain i tr oc where i: "i < length fs" "i \<notin> got st" "exec_opt fs b tr oc" "oc \<in> {Go, Cut}" "breaks i tr"
      using b by (auto simp: goes_wrong_def exact_def)
    have "?run ([] @ tr @ []) Cut" if "oc = Go" using while_next [OF evals_nil i(3) _ cut] that by blast
    moreover have "?run ([] @ tr) Cut" if "oc = Cut" using while_leave [OF evals_nil i(3)] that by blast
    ultimately have "?run tr Cut" using i(4) by auto
    then have "goes_wrong fs st ?run" using i unfolding goes_wrong_def by blast
    then show ?thesis using 2 by (simp add: exact_def)
  next
    case 3
    moreover have "?run [] Go" using while_done [OF evals_nil] .
    ultimately show ?thesis by (fastforce simp: exact_def avoids_def)
  qed
qed

lemma exact_cons:
  assumes s: "exact fs st (check_stmt st s) (exec fs s)"
    and ss: "exact fs (fst (check_stmt st s)) (check_block (fst (check_stmt st s)) ss) (exec_list fs ss)"
  shows "exact fs st (check_block st (s # ss)) (exec_list fs (s # ss))"
proof -
  let ?st = "fst (check_stmt st s)" and ?run = "exec_list fs (s # ss)"
  have ds: "snd (check_block st (s # ss)) = snd (check_stmt st s) @ snd (check_block ?st ss)"
    "fst (check_block st (s # ss)) = fst (check_block ?st ss)" by (simp_all add: Let_def split: prod.splits)
  show ?thesis
  proof (cases "snd (check_stmt st s) = []")
    case False
    then obtain i tr oc where i: "i < length fs" "i \<notin> got st" "exec fs s tr oc" "oc \<in> {Go, Cut}" "breaks i tr"
      using s by (auto simp: goes_wrong_def exact_def)
    have "\<exists>oc \<in> {Go, Cut}. ?run tr oc"
    proof (cases "oc = Go")
      case True
      obtain oc' where "oc' \<in> {Go, Cut}" "exec_list fs ss [] oc'" using cut_rest(1) by blast
      then show ?thesis using cons [of fs s tr ss "[]" oc'] i(3) True by auto
    next
      case False
      then show ?thesis using stop [OF i(3)] i(4) by blast
    qed
    then have "goes_wrong fs st ?run" using i unfolding goes_wrong_def by blast
    then show ?thesis using False ds by (simp add: exact_def)
  next
    case True
    have av: "i \<notin> got st \<and> (\<exists>tr. exec fs s tr Go \<and> i \<notin> written tr)" if "i < length fs" "i \<notin> got ?st" for i
      using s that True by (simp add: exact_def avoids_def)
    show ?thesis
    proof (cases "snd (check_block ?st ss) = []")
      case rest: True
      have "i \<notin> got st \<and> (\<exists>tr. ?run tr Go \<and> i \<notin> written tr)" if i: "i < length fs" "i \<notin> got (fst (check_block ?st ss))" for i
      proof -
        obtain tr' where tr': "i \<notin> got ?st" "exec_list fs ss tr' Go" "i \<notin> written tr'"
          using ss i rest by (auto simp: exact_def avoids_def)
        obtain tr where "i \<notin> got st" "exec fs s tr Go" "i \<notin> written tr" using av [OF i(1) tr'(1)] by blast
        then show ?thesis using cons [of fs s tr ss tr' Go] tr'(2,3) by (auto intro!: exI [of _ "tr @ tr'"])
      qed
      then show ?thesis using True rest ds by (simp add: exact_def avoids_def)
    next
      case False
      then obtain i tr' oc where i: "i < length fs" "i \<notin> got ?st" "exec_list fs ss tr' oc" "oc \<in> {Go, Cut}" "breaks i tr'"
        using ss by (auto simp: goes_wrong_def exact_def)
      obtain tr where "i \<notin> got st" "exec fs s tr Go" "i \<notin> written tr" using av [OF i(1,2)] by blast
      then have "goes_wrong fs st ?run"
        using i cons [of fs s tr ss tr' oc] breaks_append2 unfolding goes_wrong_def by blast
      then show ?thesis using False True ds by (simp add: exact_def)
    qed
  qed
qed

lemma complete_runs:
  "wf_state fs st \<Longrightarrow> whole_ok st \<Longrightarrow> tracked_stmt fs s \<Longrightarrow> structured s \<Longrightarrow> exact fs st (check_stmt st s) (exec fs s)"
  "wf_state fs st \<Longrightarrow> whole_ok st \<Longrightarrow> list_all (tracked_stmt fs) ss \<Longrightarrow> list_all structured ss \<Longrightarrow>
     exact fs st (check_block st ss) (exec_list fs ss)"
  "wf_state fs st \<Longrightarrow> whole_ok st \<Longrightarrow> pred_option (tracked_stmt fs) os \<Longrightarrow> pred_option structured os \<Longrightarrow>
     exact fs st (check_opt st os) (exec_opt fs os)"
proof (induction st s and st ss and st os rule: check_stmt_check_block_check_opt.induct)
  case (1 st ss)
  then show ?case using exact_mono [of fs st _ "exec_list fs ss" "exec fs (Block ss)"] block by simp
next
  case (2 st init)
  then show ?case using exact_opt_reads [of fs st init] var_def by simp
next
  case (3 st e)
  then show ?case using exact_opt_reads [of fs st e] expr_stmt by simp
next
  case (4 st t op v)
  then show ?case using exact_assign by simp
next
  case (6 st c th el)
  have "exact fs st (check_opt st th) (exec_opt fs th)" "exact fs st (check_opt st el) (exec_opt fs el)"
    using "6.IH"(1) "6.IH"(2) [OF refl prod.collapse] "6.prems" by simp_all
  then show ?case using exact_if "6.prems" by simp
next
  case (7 st c b)
  then show ?case using exact_while by simp
next
  case (11 st)
  show ?case using nil by (fastforce simp: exact_def avoids_def)
next
  case (12 st s ss)
  have wfs: "wf_state fs (fst (check_stmt st s))" "whole_ok (fst (check_stmt st s))"
    using check_wf(1) check_whole(1) "12.prems" by blast+
  have "exact fs st (check_stmt st s) (exec fs s)"
    "exact fs (fst (check_stmt st s)) (check_block (fst (check_stmt st s)) ss) (exec_list fs ss)"
    using "12.IH"(1) "12.IH"(2) [OF refl prod.collapse] "12.prems" wfs by simp_all
  then show ?case by (rule exact_cons)
next
  case (13 st)
  show ?case using none by (fastforce simp: exact_def avoids_def)
next
  case (14 st s)
  then show ?case using exact_mono [of fs st _ "exec fs s" "exec_opt fs (Some s)"] some by simp
qed simp_all

section \<open>Properties\<close>

definition init_state :: "string option list \<Rightarrow> tdz_state" where
  "init_state fs = \<lparr>t_fields = fs, t_assigned = replicate (length fs) False, t_whole = False\<rparr>"

lemma init_state_ok: "wf_state fs (init_state fs)" "whole_ok (init_state fs)" "got (init_state fs) \<inter> {..<length fs} = {}"
  by (auto simp: init_state_def wf_state_def whole_ok_def got_def)

lemma accepted_iff:
  assumes "fs \<noteq> []"
  shows "sema_check_init_body (Some fs) body = [] \<longleftrightarrow>
    snd (check_stmt (init_state fs) body) = [] \<and> {..<length fs} \<subseteq> got (fst (check_stmt (init_state fs) body))"
  using assms return_check_iff [OF check_wf(1) [OF init_state_ok(1)], of fs body]
  by (auto simp: sema_check_init_body_def init_state_def Let_def split: prod.splits)

lemma accepted_run:
  assumes "fs \<noteq> []" and "sema_check_init_body (Some fs) body = []" and "tracked_stmt fs body" and "exec fs body tr oc"
  shows "ordered {} tr" and "oc \<in> {Go, Returned} \<Longrightarrow> {..<length fs} \<subseteq> written tr"
proof -
  have "covers fs (init_state fs) {}" using init_state_ok(3) by (simp add: covers_def)
  then have "flows fs (check_stmt (init_state fs) body) {} tr oc"
    using sound_runs(1) [OF assms(4) init_state_ok(1) _ assms(3)] assms(1,2) accepted_iff by blast
  then show "ordered {} tr" and "oc \<in> {Go, Returned} \<Longrightarrow> {..<length fs} \<subseteq> written tr"
    using accepted_iff [OF assms(1)] assms(2) by (auto simp: flows_def)
qed

text \<open>
  C31 (safety). A body of \<open>__init__\<close> that is accepted, in the syntax the check follows (\<open>tracked_stmt\<close>):
  in every run of it, finished or not, through any branches and \<open>while\<close> loops with their returns, breaks
  and continues, every field that is read was written before, and when the run comes to a return or to
  the end of the body all fields are written. The hypothesis leaves out the bodies with a statement or
  an expression that the check passes over, where it does not hold: \<open>for\<close>, \<open>do\<close>, \<open>foreach\<close> and \<open>switch\<close>,
  conditional, construction and slice expressions that have operands, assignments used as expressions,
  and \<open>self\<close> other than in the access to one of its fields (passed to a function, its address taken).
\<close>

theorem init_body_sound:
  assumes "fs \<noteq> []" and "sema_check_init_body (Some fs) body = []" and "tracked_stmt fs body" and "exec fs body tr oc"
  shows "(\<forall>us i vs. tr = us @ Read i # vs \<longrightarrow> Write i \<in> set us) \<and>
    (oc \<in> {Go, Returned} \<longrightarrow> (\<forall>i < length fs. Write i \<in> set tr))"
  using accepted_run [OF assms] ordered_read by (auto simp: written_def subset_iff)

text \<open>\<open>self.x = 1; if (c) { self.y = self.x; return; } self.y = 2;\<close>\<close>

definition sample_body :: stmt where
  "sample_body = Block [Assign (Member (Ident ''self'') ''x'') (Some ''='') (Other []),
     If (Ident ''c'') (Some (Block [Assign (Member (Deref (Ident ''self'')) ''y'') (Some ''='') (Member (Ident ''self'') ''x''),
       Return None])) None,
     Assign (Member (Ident ''self'') ''y'') (Some ''='') (Other [])]"

theorem init_body_sound_witness:
  "sema_check_init_body (Some [Some ''x'', Some ''y'']) sample_body = [] \<and>
   exec [Some ''x'', Some ''y''] sample_body [Write 0, Read 0, Write 1] Returned \<and>
   Write 0 \<in> set [Write 0]"
proof -
  let ?fs = "[Some ''x'', Some ''y'']"
  have ok: "sema_check_init_body (Some ?fs) sample_body = []"
    by (simp add: sema_check_init_body_def sample_body_def field_index_def set_assigned_def tdz_return_check_def
        opt_reads_def state_meet_def compound_def)
  have tr: "tracked_stmt ?fs sample_body" by (simp add: sample_body_def)
  have a: "exec ?fs (Assign (Member (Ident ''self'') ''x'') (Some ''='') (Other [])) [Write 0] Go"
    using assign [of ?fs "Member (Ident ''self'') ''x''" "Some ''=''" "Other []" "[]"] by simp
  have b: "exec ?fs (Assign (Member (Deref (Ident ''self'')) ''y'') (Some ''='') (Member (Ident ''self'') ''x'')) [Read 0, Write 1] Go"
    using assign [of ?fs "Member (Deref (Ident ''self'')) ''y''" "Some ''=''" "Member (Ident ''self'') ''x''" "[Read 0]"]
    by (simp add: evals_def)
  have r: "exec ?fs (Return None) [] Returned" using return [of ?fs None "[]"] by simp
  have "exec_list ?fs [Assign (Member (Deref (Ident ''self'')) ''y'') (Some ''='') (Member (Ident ''self'') ''x''), Return None]
    ([Read 0, Write 1] @ []) Returned" using cons [OF b stop [OF r]] by simp
  then have "exec ?fs (If (Ident ''c'') (Some (Block [Assign (Member (Deref (Ident ''self'')) ''y'') (Some ''='')
      (Member (Ident ''self'') ''x''), Return None])) None) ([] @ [Read 0, Write 1]) Returned"
    by (intro if_then some block) simp_all
  from cons [OF a stop [OF this]] have "exec ?fs sample_body [Write 0, Read 0, Write 1] Returned"
    unfolding sample_body_def by (intro block) simp
  with init_body_sound [OF _ ok tr this] ok show ?thesis by auto
qed

text \<open>
  C32 (equivalence). For bodies without \<open>return\<close>, \<open>break\<close> and \<open>continue\<close> in the syntax the check
  follows (\<open>tracked_stmt\<close>, as for C31: without the statements and expressions it passes over) the check
  is exact: it accepts a body if and only if every run of the body, with any outcome of its conditions,
  reads only written fields and has written all fields when it comes to its end.
\<close>

theorem init_body_exact:
  assumes "fs \<noteq> []" and "tracked_stmt fs body" and "structured body"
  shows "sema_check_init_body (Some fs) body = [] \<longleftrightarrow>
    (\<forall>tr oc. exec fs body tr oc \<longrightarrow>
       (\<forall>us i vs. tr = us @ Read i # vs \<longrightarrow> Write i \<in> set us) \<and> (oc = Go \<longrightarrow> (\<forall>i < length fs. Write i \<in> set tr)))"
    (is "_ \<longleftrightarrow> (\<forall>tr oc. exec fs body tr oc \<longrightarrow> ?good tr oc)")
proof
  assume ok: "sema_check_init_body (Some fs) body = []"
  show "\<forall>tr oc. exec fs body tr oc \<longrightarrow> ?good tr oc"
    using accepted_run [OF assms(1) ok assms(2)] ordered_read by (fastforce simp: written_def)
next
  assume good: "\<forall>tr oc. exec fs body tr oc \<longrightarrow> ?good tr oc"
  let ?st = "init_state fs"
  have ex: "exact fs ?st (check_stmt ?st body) (exec fs body)"
    using complete_runs(1) [OF init_state_ok(1,2) assms(2,3)] .
  have ok: "snd (check_stmt ?st body) = []"
  proof (rule ccontr)
    assume "snd (check_stmt ?st body) \<noteq> []"
    then obtain i tr oc where "exec fs body tr oc" "breaks i tr" using ex by (auto simp: exact_def goes_wrong_def)
    then show False using good by (auto simp: breaks_def written_def)
  qed
  moreover have "i \<in> got (fst (check_stmt ?st body))" if "i < length fs" for i
  proof (rule ccontr)
    assume "i \<notin> got (fst (check_stmt ?st body))"
    then obtain tr where "exec fs body tr Go" "i \<notin> written tr" using ex ok \<open>i < length fs\<close> by (auto simp: exact_def avoids_def)
    then show False using good \<open>i < length fs\<close> by (auto simp: written_def)
  qed
  ultimately show "sema_check_init_body (Some fs) body = []" using accepted_iff [OF assms(1)] by auto
qed

text \<open>\<open>if (c) { self.x = 1; }\<close> is refused, so it has a run that goes wrong.\<close>

theorem init_body_exact_witness:
  "\<not> (\<forall>tr oc. exec [Some ''x''] (If (Ident ''c'') (Some (Assign (Member (Ident ''self'') ''x'') (Some ''='') (Other []))) None) tr oc \<longrightarrow>
     (\<forall>us i vs. tr = us @ Read i # vs \<longrightarrow> Write i \<in> set us) \<and> (oc = Go \<longrightarrow> (\<forall>i < length [Some ''x'']. Write i \<in> set tr)))"
proof -
  let ?s = "If (Ident ''c'') (Some (Assign (Member (Ident ''self'') ''x'') (Some ''='') (Other []))) None" and ?fs = "[Some ''x'']"
  have refused: "sema_check_init_body (Some ?fs) ?s \<noteq> []"
    by (simp add: sema_check_init_body_def field_index_def set_assigned_def tdz_return_check_def state_meet_def compound_def)
  have "?fs \<noteq> []" "tracked_stmt ?fs ?s" "structured ?s" by simp_all
  from init_body_exact [OF this] refused show ?thesis by blast
qed

text \<open>
  Statements of the other kinds are passed over: the returns and reads inside a \<open>for\<close>, a \<open>do\<close> loop or a
  \<open>switch\<close> are not checked, and an element of an array field cannot be the first thing assigned.
\<close>

lemma passed_over: "check_stmt st (Other_stmt ss) = (st, [])"
  by simp

lemma first_element_refused:
  assumes "wf_state fs st" and "first_index fs f = Some i" and "i \<notin> got st" and "tracked fs v" and "list_all (tracked fs) ix"
  shows "snd (check_stmt st (Assign (Index (Member (Ident ''self'') f) ix) (Some ''='') v)) \<noteq> []"
  using handle_assign_reads [OF assms(1), of "Index (Member (Ident ''self'') f) ix" v "Some ''=''"] assms by auto

end
