(* ===== verification/Scope.thy ===== *)
theory Scope
  imports Prelude
begin

text \<open>
  The lexical scopes of the virtual machine (\<open>src/vm/scope.c\<close>, and the push and pop of \<open>src/vm/vm.c\<close>):
  a tree of scopes on an explicit heap, each with its variables, the values it owns, its children and
  the deferred calls registered in it.

  Scopes and values have addresses, 0 is the null pointer; the address of a new object is an argument
  of the operation that makes it. A table of variables maps names to values, a vector is the list of
  its elements. A use of an address that is not allocated, which covers the release of an object that
  was released before and the call of a closure that is no longer there, has the result \<open>None\<close>. Of the
  type of a value the model keeps whether there is one, which a value loses when it is disposed of, and
  whether it is the type of errors. What happens to values and scopes in order is recorded in
  \<open>vm_trace\<close>; a deferred call (\<open>value_call\<close>) is recorded there with its closure, its own effects are not
  modelled.
\<close>

section \<open>State\<close>

type_synonym addr = nat

record vm_val =
  v_frame :: addr
  v_borrowed :: bool
  v_is_shadow :: bool
  v_typed :: bool
  v_error :: bool

record scope =
  s_parent :: addr
  s_vars :: "string \<rightharpoonup> addr"
  s_owned :: "addr list"
  s_children :: "addr list"
  s_defers :: "addr list"

text \<open>A deferred call, the release of a value (with or without its data block), and of a scope.\<close>

datatype vm_event = Called addr | Released_value addr bool | Released_scope addr

record vm =
  vm_scopes :: "addr \<rightharpoonup> scope"
  vm_vals :: "addr \<rightharpoonup> vm_val"
  vm_current :: addr
  vm_trace :: "vm_event list"

definition put_scope :: "vm \<Rightarrow> addr \<Rightarrow> scope \<Rightarrow> vm" where
  "put_scope h s sc = h\<lparr>vm_scopes := (vm_scopes h)(s \<mapsto> sc)\<rparr>"

section \<open>Vectors and tables\<close>

text \<open>The first element equal to \<open>x\<close> is replaced by the last one, and the vector shortened.\<close>

fun index_of :: "addr \<Rightarrow> addr list \<Rightarrow> nat option" where
  "index_of x [] = None"
| "index_of x (y # ys) = (if y = x then Some 0 else map_option Suc (index_of x ys))"

definition swap_out :: "addr \<Rightarrow> addr list \<Rightarrow> addr list" where
  "swap_out x xs = (case index_of x xs of None \<Rightarrow> xs | Some i \<Rightarrow> butlast (xs[i := last xs]))"

text \<open>\<open>strmap_get\<close> returns a null pointer for a key that is not there.\<close>

definition var_get :: "(string \<rightharpoonup> addr) \<Rightarrow> string \<Rightarrow> addr" where
  "var_get m k = (case m k of None \<Rightarrow> 0 | Some v \<Rightarrow> v)"

section \<open>Scopes\<close>

definition scope_new :: "vm \<Rightarrow> addr \<Rightarrow> addr \<Rightarrow> vm option" where
  "scope_new h a parent =
     (let h = put_scope h a \<lparr>s_parent = parent, s_vars = Map.empty, s_owned = [], s_children = [], s_defers = []\<rparr>
      in if parent = 0 then Some h
         else do { p \<leftarrow> vm_scopes h parent; Some (put_scope h parent (p\<lparr>s_children := s_children p @ [a]\<rparr>)) })"

definition scope_remove_from_parent :: "vm \<Rightarrow> addr \<Rightarrow> vm option" where
  "scope_remove_from_parent h s = do {
     sc \<leftarrow> vm_scopes h s;
     if s_parent sc = 0 then Some h
     else do { p \<leftarrow> vm_scopes h (s_parent sc); Some (put_scope h (s_parent sc) (p\<lparr>s_children := swap_out s (s_children p)\<rparr>)) } }"

text \<open>\<open>value_dispose\<close> and the release of the value itself.\<close>

definition free_value :: "vm \<Rightarrow> addr \<Rightarrow> vm option" where
  "free_value h v = do {
     x \<leftarrow> vm_vals h v;
     Some (h\<lparr>vm_vals := (vm_vals h)(v := None),
             vm_trace := vm_trace h @ [Released_value v (v_typed x \<and> \<not> v_is_shadow x \<and> \<not> v_borrowed x)]\<rparr>) }"

fun free_values :: "vm \<Rightarrow> addr list \<Rightarrow> vm option" where
  "free_values h [] = Some h"
| "free_values h (v # vs) = (if v = 0 then free_values h vs else do { h \<leftarrow> free_value h v; free_values h vs })"

definition scope_destroy :: "vm \<Rightarrow> addr \<Rightarrow> vm option" where
  "scope_destroy h s =
     (if s = 0 then Some h
      else do {
        h \<leftarrow> scope_remove_from_parent h s;
        sc \<leftarrow> vm_scopes h s;
        h \<leftarrow> free_values h (s_owned sc);
        Some (h\<lparr>vm_scopes := (vm_scopes h)(s := None), vm_trace := vm_trace h @ [Released_scope s]\<rparr>) })"

text \<open>
  The children are destroyed from the last one on, as long as there are any; then the deferred calls
  are made in reverse order and the scope itself is destroyed. The loop over the children is the
  recursion of the second call.
\<close>

fun call_closures :: "vm \<Rightarrow> addr list \<Rightarrow> vm option" where
  "call_closures h [] = Some h"
| "call_closures h (f # fs) =
     (if f = 0 then call_closures h fs
      else do { _ \<leftarrow> vm_vals h f; call_closures (h\<lparr>vm_trace := vm_trace h @ [Called f]\<rparr>) fs })"

definition call_defers :: "vm \<Rightarrow> addr list \<Rightarrow> vm option" where
  "call_defers h fs = call_closures h (rev fs)"

partial_function (option) scope_destroy_subtree :: "vm \<Rightarrow> addr \<Rightarrow> vm option" where
  "scope_destroy_subtree h s =
     (if s = 0 then Some h
      else do {
        sc \<leftarrow> vm_scopes h s;
        if s_children sc \<noteq> [] then do {
          h \<leftarrow> scope_destroy_subtree h (last (s_children sc));
          scope_destroy_subtree h s }
        else do {
          h \<leftarrow> call_defers h (s_defers sc);
          scope_destroy (put_scope h s (sc\<lparr>s_defers := []\<rparr>)) s } })"

declare scope_destroy_subtree.simps [code]

definition scope_register_defer :: "vm \<Rightarrow> addr \<Rightarrow> addr \<Rightarrow> vm option" where
  "scope_register_defer h s f =
     (if s = 0 \<or> f = 0 then Some h
      else do { sc \<leftarrow> vm_scopes h s; Some (put_scope h s (sc\<lparr>s_defers := s_defers sc @ [f]\<rparr>)) })"

section \<open>Values\<close>

definition scope_track :: "vm \<Rightarrow> addr \<Rightarrow> addr \<Rightarrow> vm option" where
  "scope_track h s v =
     (if s = 0 \<or> v = 0 then Some h
      else do {
        x \<leftarrow> vm_vals h v;
        if \<not> v_typed x then Some h
        else do { sc \<leftarrow> vm_scopes h s; Some (put_scope h s (sc\<lparr>s_owned := s_owned sc @ [v]\<rparr>)) } })"

text \<open>A new value belongs to the current scope.\<close>

definition value_new :: "vm \<Rightarrow> addr \<Rightarrow> bool \<Rightarrow> bool \<Rightarrow> bool \<Rightarrow> vm option" where
  "value_new h a borrowed shadow error =
     scope_track (h\<lparr>vm_vals := (vm_vals h)(a \<mapsto>
       \<lparr>v_frame = vm_current h, v_borrowed = borrowed, v_is_shadow = shadow, v_typed = True, v_error = error\<rparr>)\<rparr>) (vm_current h) a"

definition value_is_borrowed :: "vm_val \<Rightarrow> bool" where
  "value_is_borrowed x \<longleftrightarrow> \<not> v_is_shadow x \<and> v_borrowed x"

text \<open>A clone is a new value of the current scope and of the same type, a shadow of a shadow.\<close>

definition clone_value :: "vm \<Rightarrow> addr \<Rightarrow> addr \<Rightarrow> (addr \<times> vm) option" where
  "clone_value h v new =
     (if v = 0 then Some (0, h)
      else do {
        x \<leftarrow> vm_vals h v;
        if \<not> v_typed x then Some (v, h)
        else do { h \<leftarrow> value_new h new False (v_is_shadow x) (v_error x); Some (new, h) } })"

text \<open>\<open>value_make_error\<close>: a new value of the error type.\<close>

definition make_error_value :: "vm \<Rightarrow> addr \<Rightarrow> vm option" where
  "make_error_value h a = value_new h a False False True"

text \<open>The result of a definition is the value bound, or a new error value.\<close>

definition bind_var :: "vm \<Rightarrow> addr \<Rightarrow> string \<Rightarrow> addr \<Rightarrow> vm option" where
  "bind_var h s name v = do { sc \<leftarrow> vm_scopes h s; Some (put_scope h s (sc\<lparr>s_vars := (s_vars sc)(name \<mapsto> v)\<rparr>)) }"

definition adopts :: "vm \<Rightarrow> addr \<Rightarrow> addr \<Rightarrow> bool" where
  "adopts h s v \<longleftrightarrow> (case vm_vals h v of None \<Rightarrow> False | Some x \<Rightarrow> v \<noteq> 0 \<and> \<not> value_is_borrowed x \<and> v_frame x = s)"

definition scope_define :: "vm \<Rightarrow> addr \<Rightarrow> string \<Rightarrow> addr \<Rightarrow> addr \<Rightarrow> (addr \<times> vm) option" where
  "scope_define h s name v new =
     (if s = 0 then Some (0, h)
      else do {
        sc \<leftarrow> vm_scopes h s;
        if var_get (s_vars sc) name \<noteq> 0 then do { h \<leftarrow> make_error_value h new; Some (new, h) }
        else do {
          (stored, h) \<leftarrow>
            (if adopts h s v then Some (v, h)
             else do {
               (stored, h') \<leftarrow> clone_value (h\<lparr>vm_current := s\<rparr>) v new;
               Some (stored, h'\<lparr>vm_current := vm_current h\<rparr>) });
          h \<leftarrow> bind_var h s name stored;
          Some (stored, h) } })"

definition scope_remove_owned :: "vm \<Rightarrow> addr \<Rightarrow> addr \<Rightarrow> vm option" where
  "scope_remove_owned h s v = do {
     sc \<leftarrow> vm_scopes h s;
     free_value (put_scope h s (sc\<lparr>s_owned := swap_out v (s_owned sc)\<rparr>)) v }"

definition scope_set :: "vm \<Rightarrow> addr \<Rightarrow> string \<Rightarrow> addr \<Rightarrow> addr \<Rightarrow> (addr \<times> vm) option" where
  "scope_set h s name v new =
     (if s = 0 then Some (0, h)
      else do {
        sc \<leftarrow> vm_scopes h s;
        let old = var_get (s_vars sc) name in
        if old \<noteq> 0 then do {
          h \<leftarrow> scope_remove_owned (put_scope h s (sc\<lparr>s_vars := (s_vars sc)(name := None)\<rparr>)) s old;
          scope_define h s name v new }
        else scope_define h s name v new })"

text \<open>A name of 256 bytes or more does not fit the buffer of the search.\<close>

partial_function (option) scope_lookup :: "vm \<Rightarrow> addr \<Rightarrow> string \<Rightarrow> addr option" where
  "scope_lookup h s name =
     (if s = 0 then Some 0
      else do {
        sc \<leftarrow> vm_scopes h s;
        if length name < 256 \<and> var_get (s_vars sc) name \<noteq> 0 then Some (var_get (s_vars sc) name)
        else scope_lookup h (s_parent sc) name })"

declare scope_lookup.simps [code]

section \<open>The current scope\<close>

definition vm_push_scope :: "vm \<Rightarrow> addr \<Rightarrow> vm option" where
  "vm_push_scope h a = do { h \<leftarrow> scope_new h a (vm_current h); Some (h\<lparr>vm_current := a\<rparr>) }"

text \<open>\<open>Some (Inl _)\<close> is the panic on the global scope.\<close>

definition vm_pop_scope :: "vm \<Rightarrow> addr \<Rightarrow> (vm result) option" where
  "vm_pop_scope h global =
     (if vm_current h = 0 then Some (Inr h)
      else if vm_current h = global then Some (Inl (Panic ''vm: cannot pop the global scope''))
      else do {
        sc \<leftarrow> vm_scopes h (vm_current h);
        h' \<leftarrow> scope_destroy h (vm_current h);
        Some (Inr (h'\<lparr>vm_current := s_parent sc\<rparr>)) })"

end
