(* ===== verification/ScopeTree.thy ===== *)
theory ScopeTree
  imports Scope
begin

text \<open>
  The scopes of the virtual machine (\<open>src/vm/scope.c\<close>) as trees: the recursive destruction of a tree, and
  the tree below every scope of a well-formed machine.
\<close>

section \<open>Vectors\<close>

lemma index_of_some: "x \<in> set xs \<Longrightarrow> \<exists>i < length xs. index_of x xs = Some i \<and> xs ! i = x"
  by (induction xs) (fastforce simp: nth_Cons')+

lemma index_of_none: "x \<notin> set xs \<Longrightarrow> index_of x xs = None"
  by (induction xs) auto

lemma swap_out_last: "distinct (xs @ [x]) \<Longrightarrow> swap_out x (xs @ [x]) = xs"
proof -
  assume d: "distinct (xs @ [x])"
  obtain i where i: "i < length (xs @ [x])" "index_of x (xs @ [x]) = Some i" "(xs @ [x]) ! i = x"
    using index_of_some [of x "xs @ [x]"] by auto
  then have "i = length xs" using d nth_eq_iff_index_eq [OF d, of i "length xs"] by simp
  then show ?thesis using i by (simp add: swap_out_def)
qed

lemma swap_out_mset: "mset (swap_out x xs) = mset xs - {#x#}"
proof (cases "x \<in> set xs")
  case False
  then show ?thesis by (simp add: swap_out_def index_of_none diff_single_trivial)
next
  case True
  obtain i where i: "i < length xs" "index_of x xs = Some i" "xs ! i = x" using index_of_some [OF True] by blast
  then have ne: "xs \<noteq> []" by auto
  have "swap_out x xs = butlast (xs[i := last xs])" using i by (simp add: swap_out_def)
  also have "mset \<dots> = mset (xs[i := last xs]) - {#last (xs[i := last xs])#}"
    using ne by (metis append_butlast_last_id add_mset_remove_trivial add_mset_add_single list_update_nonempty mset_append mset_single_iff_right union_commute mset.simps add_cancel_right_left diff_union_cancelR)
  also have "last (xs[i := last xs]) = last xs" using ne by (simp add: last_list_update)
  also have "mset (xs[i := last xs]) = add_mset (last xs) (mset xs - {#x#})" using i by (simp add: mset_update)
  finally show ?thesis by simp
qed

lemma swap_out_distinct: "distinct xs \<Longrightarrow> distinct (swap_out x xs) \<and> set (swap_out x xs) = set xs - {x}"
proof -
  assume d: "distinct xs"
  have m: "mset (swap_out x xs) = mset xs - {#x#}" by (rule swap_out_mset)
  have c: "count (mset (swap_out x xs)) y = (if y \<in> set xs \<and> y \<noteq> x then 1 else 0)" for y
    using d by (simp add: m distinct_count_atmost_1)
  have s: "y \<in> set (swap_out x xs) \<longleftrightarrow> y \<in> set xs - {x}" for y
    using c [of y] by (metis (full_types) Diff_iff count_eq_zero_iff insert_iff set_mset_mset singletonD zero_neq_one empty_iff)
  then have "set (swap_out x xs) = set xs - {x}" by blast
  moreover have "distinct (swap_out x xs)" unfolding distinct_count_atmost_1 using c s by auto
  ultimately show ?thesis by blast
qed

section \<open>Trees of scopes\<close>

datatype stree = Node (troot: addr) (tkids: "stree list")

fun nodes :: "stree \<Rightarrow> addr list" where
  "nodes (Node s ts) = s # concat (map nodes ts)"

type_synonym scope_heap = "addr \<rightharpoonup> scope"

text \<open>The scopes below \<open>p\<close> from the root of a tree on are those of the tree.\<close>

fun tree_in :: "scope_heap \<Rightarrow> addr \<Rightarrow> stree \<Rightarrow> bool" where
  "tree_in m p (Node s ts) \<longleftrightarrow> s \<noteq> 0 \<and>
     (\<exists>sc. m s = Some sc \<and> s_parent sc = p \<and> s_children sc = map troot ts) \<and> (\<forall>t \<in> set ts. tree_in m s t)"

fun owned :: "scope_heap \<Rightarrow> stree \<Rightarrow> addr list" where
  "owned m (Node s ts) = s_owned (the (m s)) @ concat (map (owned m) ts)"

definition release :: "(addr \<rightharpoonup> vm_val) \<Rightarrow> addr \<Rightarrow> vm_event" where
  "release vals v = (let x = the (vals v) in Released_value v (v_typed x \<and> \<not> v_is_shadow x \<and> \<not> v_borrowed x))"

text \<open>What happens when a tree is destroyed: the children from the last on, then the deferred calls of
  the scope in reverse order, then its values, then the scope.\<close>

fun farewell :: "scope_heap \<Rightarrow> (addr \<rightharpoonup> vm_val) \<Rightarrow> stree \<Rightarrow> vm_event list" where
  "farewell m vals (Node s ts) =
     concat (rev (map (farewell m vals) ts)) @ map Called (filter (\<lambda>f. f \<noteq> 0) (rev (s_defers (the (m s))))) @
     map (release vals) (s_owned (the (m s))) @ [Released_scope s]"

text \<open>The closures that are called when a tree is destroyed, but the null pointers.\<close>

fun deferred :: "scope_heap \<Rightarrow> stree \<Rightarrow> addr set" where
  "deferred m (Node s ts) = set (s_defers (the (m s))) - {0} \<union> (\<Union>t \<in> set ts. deferred m t)"

text \<open>Each of them is there when it is called: it is no value of a scope that is destroyed before.\<close>

fun lasting :: "scope_heap \<Rightarrow> (addr \<rightharpoonup> vm_val) \<Rightarrow> stree \<Rightarrow> bool" where
  "lasting m vals (Node s ts) \<longleftrightarrow>
     (\<forall>f \<in> set (s_defers (the (m s))) - {0}. vals f \<noteq> None \<and> (\<forall>t \<in> set ts. f \<notin> set (owned m t))) \<and>
     (\<forall>t \<in> set ts. lasting m vals t) \<and>
     (\<forall>t \<in> set ts. \<forall>u \<in> set ts. t \<noteq> u \<longrightarrow> deferred m t \<inter> set (owned m u) = {})"

definition fits_in :: "vm \<Rightarrow> addr \<Rightarrow> stree \<Rightarrow> bool" where
  "fits_in h p T \<longleftrightarrow> tree_in (vm_scopes h) p T \<and> distinct (nodes T) \<and> distinct (owned (vm_scopes h) T) \<and>
     (\<forall>v \<in> set (owned (vm_scopes h) T). v \<noteq> 0 \<and> vm_vals h v \<noteq> None) \<and> p \<notin> set (nodes T) \<and>
     (p \<noteq> 0 \<longrightarrow> (\<exists>pc. vm_scopes h p = Some pc \<and> distinct (s_children pc) \<and> troot T \<in> set (s_children pc)))"

definition without_child :: "scope_heap \<Rightarrow> addr \<Rightarrow> addr \<Rightarrow> scope option" where
  "without_child m p s = map_option (\<lambda>pc. if p = 0 then pc else pc\<lparr>s_children := swap_out s (s_children pc)\<rparr>) (m p)"

definition scopes_without :: "scope_heap \<Rightarrow> addr \<Rightarrow> stree \<Rightarrow> scope_heap" where
  "scopes_without m p T =
     (\<lambda>x. if x \<in> set (nodes T) then None else if x = p then without_child m p (troot T) else m x)"

text \<open>The machine after a tree was destroyed.\<close>

definition destroyed :: "vm \<Rightarrow> addr \<Rightarrow> stree \<Rightarrow> vm" where
  "destroyed h p T = h\<lparr>
     vm_scopes := scopes_without (vm_scopes h) p T,
     vm_vals := vm_vals h |` (- set (owned (vm_scopes h) T)),
     vm_trace := vm_trace h @ farewell (vm_scopes h) (vm_vals h) T\<rparr>"

lemma tree_in_cong: "\<forall>x \<in> set (nodes T). m x = m' x \<Longrightarrow> tree_in m p T = tree_in m' p T"
proof (induction T arbitrary: p)
  case (Node s ts)
  have "tree_in m s t = tree_in m' s t" if "t \<in> set ts" for t using Node.IH [OF that] Node.prems that by auto
  then show ?case using Node.prems by simp
qed

lemma owned_cong: "\<forall>x \<in> set (nodes T). m x = m' x \<Longrightarrow> owned m T = owned m' T"
proof (induction T)
  case (Node s ts)
  have "owned m t = owned m' t" if "t \<in> set ts" for t using Node.IH [OF that] Node.prems that by auto
  then have "map (owned m) ts = map (owned m') ts" by simp
  then show ?case using Node.prems by (simp only: owned.simps nodes.simps list.set_intros)
qed

lemma farewell_cong:
  assumes "\<And>x. x \<in> set (nodes T) \<Longrightarrow> m x = m' x" and "\<And>v. v \<in> set (owned m T) \<Longrightarrow> vals v = vals' v"
  shows "farewell m vals T = farewell m' vals' T"
  using assms
proof (induction T)
  case (Node s ts)
  have "farewell m vals t = farewell m' vals' t" if "t \<in> set ts" for t
    using Node.IH [OF that] Node.prems that by fastforce
  then have "rev (map (farewell m vals) ts) = rev (map (farewell m' vals') ts)" by simp
  moreover have "release vals v = release vals' v" if "v \<in> set (s_owned (the (m s)))" for v
    using Node.prems(2) that by (simp add: release_def)
  then have "map (release vals) (s_owned (the (m s))) = map (release vals') (s_owned (the (m s)))" by simp
  moreover have "m s = m' s" using Node.prems(1) [of s] by simp
  ultimately show ?case by (simp only: farewell.simps)
qed

lemma deferred_cong: "\<forall>x \<in> set (nodes T). m x = m' x \<Longrightarrow> deferred m T = deferred m' T"
proof (induction T)
  case (Node s ts)
  have "deferred m t = deferred m' t" if "t \<in> set ts" for t using Node.IH [OF that] Node.prems that by auto
  then show ?case using Node.prems by simp
qed

lemma lasting_cong:
  assumes "\<forall>x \<in> set (nodes T). m x = m' x" and "\<forall>f \<in> deferred m T. vals f \<noteq> None \<longrightarrow> vals' f \<noteq> None" and "lasting m vals T"
  shows "lasting m' vals' T"
  using assms
proof (induction T)
  case (Node s ts)
  have same: "\<forall>x \<in> set (nodes t). m x = m' x" if "t \<in> set ts" for t using Node.prems(1) that by auto
  have "lasting m' vals' t" if "t \<in> set ts" for t
    using Node.IH [OF that same [OF that]] Node.prems(2,3) that by auto
  moreover have "owned m' t = owned m t" "deferred m' t = deferred m t" if "t \<in> set ts" for t
    using owned_cong [OF same [OF that]] deferred_cong [OF same [OF that]] by simp_all
  moreover have "m' s = m s" using Node.prems(1) by simp
  ultimately show ?case using Node.prems(2,3) by simp
qed

lemma call_closures_ok:
  assumes "\<forall>f \<in> set fs - {0}. vm_vals h f \<noteq> None"
  shows "call_closures h fs = Some (h\<lparr>vm_trace := vm_trace h @ map Called (filter (\<lambda>f. f \<noteq> 0) fs)\<rparr>)"
  using assms
proof (induction fs arbitrary: h)
  case (Cons f fs)
  show ?case
  proof (cases "f = 0")
    case True
    then show ?thesis using Cons by simp
  next
    case False
    then obtain x where "vm_vals h f = Some x" using Cons.prems by auto
    then show ?thesis using False Cons.prems Cons.IH [of "h\<lparr>vm_trace := vm_trace h @ [Called f]\<rparr>"] by simp
  qed
qed simp

lemma call_defers_ok:
  assumes "\<forall>f \<in> set fs - {0}. vm_vals h f \<noteq> None"
  shows "call_defers h fs = Some (h\<lparr>vm_trace := vm_trace h @ map Called (filter (\<lambda>f. f \<noteq> 0) (rev fs))\<rparr>)"
  using call_closures_ok [of "rev fs" h] assms by (simp add: call_defers_def)

text \<open>A closure that is not there cannot be called.\<close>

lemma call_defers_dangling:
  assumes "f \<in> set fs" and "f \<noteq> 0" and "vm_vals h f = None"
  shows "call_defers h fs = None"
proof -
  have "f \<in> set gs \<Longrightarrow> vm_vals k = vm_vals h \<Longrightarrow> call_closures k gs = None" for gs k
  proof (induction gs arbitrary: k)
    case (Cons g gs)
    then show ?case using assms(2,3) by (cases "g = 0"; cases "vm_vals k g") auto
  qed simp
  from this [of "rev fs" h] show ?thesis using assms(1) by (simp add: call_defers_def)
qed

lemma free_values_ok:
  assumes "distinct vs" and "\<forall>v \<in> set vs. v \<noteq> 0 \<and> vm_vals h v \<noteq> None"
  shows "free_values h vs = Some (h\<lparr>vm_vals := vm_vals h |` (- set vs),
    vm_trace := vm_trace h @ map (release (vm_vals h)) vs\<rparr>)"
  using assms
proof (induction vs arbitrary: h)
  case Nil
  then show ?case by simp
next
  case (Cons v vs)
  obtain x where x: "vm_vals h v = Some x" using Cons.prems(2) by auto
  let ?h = "h\<lparr>vm_vals := (vm_vals h)(v := None),
    vm_trace := vm_trace h @ [Released_value v (v_typed x \<and> \<not> v_is_shadow x \<and> \<not> v_borrowed x)]\<rparr>"
  have free: "free_value h v = Some ?h" using x by (simp add: free_value_def)
  have "free_values ?h vs = Some (?h\<lparr>vm_vals := vm_vals ?h |` (- set vs),
    vm_trace := vm_trace ?h @ map (release (vm_vals ?h)) vs\<rparr>)"
    by (rule Cons.IH) (use Cons.prems in auto)
  moreover have "map (release (vm_vals ?h)) vs = map (release (vm_vals h)) vs"
    using Cons.prems(1) by (auto simp: release_def)
  moreover have "release (vm_vals h) v = Released_value v (v_typed x \<and> \<not> v_is_shadow x \<and> \<not> v_borrowed x)"
    using x by (simp add: release_def)
  moreover have "((vm_vals h)(v := None)) |` (- set vs) = vm_vals h |` (- set (v # vs))"
    by (auto simp: restrict_map_def)
  moreover have "v \<noteq> 0" using Cons.prems(2) by simp
  ultimately show ?case using free by simp
qed

section \<open>Destroying a tree\<close>

lemma scope_destroy_leaf:
  assumes fit: "fits_in h p (Node s [])"
  shows "scope_destroy h s = Some (h\<lparr>vm_scopes := scopes_without (vm_scopes h) p (Node s []),
    vm_vals := vm_vals h |` (- set (owned (vm_scopes h) (Node s []))),
    vm_trace := vm_trace h @ map (release (vm_vals h)) (s_owned (the (vm_scopes h s))) @ [Released_scope s]\<rparr>)"
proof -
  obtain sc where sc: "vm_scopes h s = Some sc" "s_parent sc = p" "s_children sc = []" "s \<noteq> 0" and ps: "p \<noteq> s"
    using fit by (auto simp: fits_in_def)
  have vals: "distinct (s_owned sc)" "\<forall>v \<in> set (s_owned sc). v \<noteq> 0 \<and> vm_vals h v \<noteq> None"
    using fit sc(1) by (simp_all add: fits_in_def)
  define m where "m = (\<lambda>x. if x = p then without_child (vm_scopes h) p s else vm_scopes h x)"
  have cut: "scope_remove_from_parent h s = Some (h\<lparr>vm_scopes := m\<rparr>)"
  proof (cases "p = 0")
    case True
    then have "m = vm_scopes h" by (auto simp: m_def without_child_def option.map_ident)
    then show ?thesis using True sc by (simp add: scope_remove_from_parent_def)
  next
    case False
    then obtain pc where pc: "vm_scopes h p = Some pc" using fit by (auto simp: fits_in_def)
    then have "m = (vm_scopes h)(p \<mapsto> pc\<lparr>s_children := swap_out s (s_children pc)\<rparr>)"
      using False by (auto simp: m_def without_child_def)
    then show ?thesis using False sc pc by (simp add: scope_remove_from_parent_def put_scope_def)
  qed
  have "m s = Some sc" using ps sc by (simp add: m_def)
  moreover have "free_values (h\<lparr>vm_scopes := m\<rparr>) (s_owned sc) = Some (h\<lparr>vm_scopes := m, vm_vals := vm_vals h |` (- set (s_owned sc)),
      vm_trace := vm_trace h @ map (release (vm_vals h)) (s_owned sc)\<rparr>)"
    using free_values_ok [OF vals(1), of "h\<lparr>vm_scopes := m\<rparr>"] vals(2) by simp
  moreover have "m(s := None) = scopes_without (vm_scopes h) p (Node s [])"
    by (auto simp: m_def scopes_without_def)
  ultimately show ?thesis using cut sc(1,4) by (simp add: scope_destroy_def)
qed

lemma destroy_leaf:
  assumes fit: "fits_in h p (Node s [])" and last: "lasting (vm_scopes h) (vm_vals h) (Node s [])"
  shows "scope_destroy_subtree h s = Some (destroyed h p (Node s []))"
proof -
  obtain sc where sc: "vm_scopes h s = Some sc" "s_parent sc = p" "s_children sc = []" "s \<noteq> 0" and ps: "p \<noteq> s"
    using fit by (auto simp: fits_in_def)
  let ?c = "h\<lparr>vm_trace := vm_trace h @ map Called (filter (\<lambda>f. f \<noteq> 0) (rev (s_defers sc)))\<rparr>"
  let ?h = "put_scope ?c s (sc\<lparr>s_defers := []\<rparr>)"
  have "call_defers h (s_defers sc) = Some ?c" using call_defers_ok last sc(1) by simp
  then have "scope_destroy_subtree h s = scope_destroy ?h s" using sc by (subst scope_destroy_subtree.simps) simp
  moreover have "fits_in ?h p (Node s [])"
    using fit sc ps by (auto simp: fits_in_def put_scope_def)
  moreover have "scopes_without (vm_scopes ?h) p (Node s []) = scopes_without (vm_scopes h) p (Node s [])"
    using ps by (auto simp: scopes_without_def without_child_def put_scope_def)
  ultimately show ?thesis
    using sc by (simp add: scope_destroy_leaf destroyed_def put_scope_def)
qed

lemma troot_node: "troot u \<in> set (nodes u)"
  by (cases u) simp

lemma distinct_troots: "distinct (concat (map nodes ts)) \<Longrightarrow> distinct (map troot ts)"
proof (induction ts)
  case (Cons t ts)
  have "troot t \<noteq> troot u" if "u \<in> set ts" for u
    using Cons.prems that troot_node [of t] troot_node [of u] by auto
  then show ?case using Cons by auto
qed simp

lemma destroy_last_child:
  assumes fit: "fits_in h p (Node s (ts @ [t]))"
  shows "fits_in h s t" and "fits_in (destroyed h s t) p (Node s ts)"
    and "destroyed (destroyed h s t) p (Node s ts) = destroyed h p (Node s (ts @ [t]))"
    and "lasting (vm_scopes h) (vm_vals h) (Node s (ts @ [t])) \<Longrightarrow>
      lasting (vm_scopes h) (vm_vals h) t \<and> lasting (vm_scopes (destroyed h s t)) (vm_vals (destroyed h s t)) (Node s ts)"
proof -
  let ?m = "vm_scopes h" and ?h = "destroyed h s t" and ?T = "Node s (ts @ [t])"
  let ?m1 = "vm_scopes ?h"
  obtain sc where sc: "?m s = Some sc" "s_parent sc = p" "s_children sc = map troot (ts @ [t])" "s \<noteq> 0"
    and sub: "\<forall>u \<in> set (ts @ [t]). tree_in ?m s u" using fit by (auto simp: fits_in_def)
  have dn: "distinct (nodes ?T)" and do: "distinct (owned ?m ?T)" and own: "\<forall>v \<in> set (owned ?m ?T). v \<noteq> 0 \<and> vm_vals h v \<noteq> None"
    and p: "p \<notin> set (nodes ?T)" using fit by (simp_all add: fits_in_def)
  have kids: "distinct (map troot (ts @ [t]))" using dn by (intro distinct_troots) simp
  show one: "fits_in h s t"
    using dn do own sub sc kids by (auto simp: fits_in_def)
  have t_ts: "x \<notin> set (nodes t)" if "u \<in> set ts" "x \<in> set (nodes u)" for u x using dn that by auto
  have s_t: "s \<notin> set (nodes t)" "\<forall>u \<in> set ts. s \<notin> set (nodes u)" using dn by auto
  have m1_s: "?m1 s = Some (sc\<lparr>s_children := map troot ts\<rparr>)"
    using s_t sc swap_out_last [of "map troot ts" "troot t"] kids by (simp add: destroyed_def scopes_without_def without_child_def)
  have m1: "?m1 x = ?m x" if "x \<notin> set (nodes t)" "x \<noteq> s" for x using that by (simp add: destroyed_def scopes_without_def)
  have m1_t: "?m1 x = None" if "x \<in> set (nodes t)" for x using that by (simp add: destroyed_def scopes_without_def)
  have same: "\<forall>x \<in> set (nodes u). ?m x = ?m1 x" if "u \<in> set ts" for u
    using m1 t_ts [OF that] s_t(2) that by metis
  have owned1: "owned ?m1 (Node s ts) = s_owned sc @ concat (map (owned ?m) ts)"
  proof -
    have "map (owned ?m1) ts = map (owned ?m) ts" using owned_cong [OF same] by simp
    then show ?thesis using m1_s by (simp only: owned.simps option.sel scope.select_convs) simp
  qed
  have vals1: "vm_vals ?h = vm_vals h |` (- set (owned ?m t))" by (simp add: destroyed_def)
  have apart: "set (owned ?m1 (Node s ts)) \<inter> set (owned ?m t) = {}"
    unfolding owned1 using do sc(1) by auto
  show "lasting ?m (vm_vals h) t \<and> lasting ?m1 (vm_vals ?h) (Node s ts)" if last: "lasting ?m (vm_vals h) ?T"
  proof
    show "lasting ?m (vm_vals h) t" using last by simp
    have ne: "u \<noteq> t" if "u \<in> set ts" for u using t_ts [OF that, of "troot u"] by (cases u) auto
    have "lasting ?m1 (vm_vals ?h) u" if u: "u \<in> set ts" for u
    proof (rule lasting_cong [OF same [OF u]])
      have "deferred ?m u \<inter> set (owned ?m t) = {}" using last u ne [OF u] by simp
      then show "\<forall>f \<in> deferred ?m u. vm_vals h f \<noteq> None \<longrightarrow> vm_vals ?h f \<noteq> None" unfolding vals1 by (auto simp: restrict_map_def)
      show "lasting ?m (vm_vals h) u" using last u by simp
    qed
    moreover have "vm_vals ?h f \<noteq> None" if "f \<in> set (s_defers sc) - {0}" for f
      using last that sc(1) unfolding vals1 by (simp add: restrict_map_def)
    moreover have "owned ?m1 u = owned ?m u" "deferred ?m1 u = deferred ?m u" if "u \<in> set ts" for u
      using owned_cong [OF same [OF that]] deferred_cong [OF same [OF that]] by simp_all
    ultimately show "lasting ?m1 (vm_vals ?h) (Node s ts)" using last m1_s sc(1) by simp
  qed
  show "fits_in ?h p (Node s ts)"
    unfolding fits_in_def
  proof (intro conjI)
    show "tree_in ?m1 p (Node s ts)" using m1_s sc sub tree_in_cong [OF same] by auto
    show "distinct (nodes (Node s ts))" using dn by simp
    show "distinct (owned ?m1 (Node s ts))" unfolding owned1 using do sc(1) by auto
    show "\<forall>v \<in> set (owned ?m1 (Node s ts)). v \<noteq> 0 \<and> vm_vals ?h v \<noteq> None"
    proof
      fix v assume v: "v \<in> set (owned ?m1 (Node s ts))"
      then have "v \<in> set (owned ?m ?T)" unfolding owned1 using sc(1) by auto
      then show "v \<noteq> 0 \<and> vm_vals ?h v \<noteq> None" using own v apart by (auto simp: vals1 restrict_map_def simp del: owned.simps)
    qed
    show "p \<notin> set (nodes (Node s ts))" using p by simp
    show "p \<noteq> 0 \<longrightarrow> (\<exists>pc. ?m1 p = Some pc \<and> distinct (s_children pc) \<and> troot (Node s ts) \<in> set (s_children pc))"
      using fit p m1 [of p] by (simp add: fits_in_def)
  qed
  have trace: "farewell ?m1 (vm_vals ?h) (Node s ts) =
      concat (rev (map (farewell ?m (vm_vals h)) ts)) @ map Called (filter (\<lambda>f. f \<noteq> 0) (rev (s_defers sc))) @
      map (release (vm_vals h)) (s_owned sc) @ [Released_scope s]"
  proof -
    have "farewell ?m1 (vm_vals ?h) u = farewell ?m (vm_vals h) u" if u: "u \<in> set ts" for u
    proof (rule farewell_cong)
      fix v assume "v \<in> set (owned ?m1 u)"
      then have "v \<in> set (owned ?m1 (Node s ts))" using u by auto
      then show "vm_vals ?h v = vm_vals h v" using apart by (auto simp: vals1 restrict_map_def simp del: owned.simps)
    qed (use same [OF u] in simp)
    then have "rev (map (farewell ?m1 (vm_vals ?h)) ts) = rev (map (farewell ?m (vm_vals h)) ts)" by simp
    moreover have "release (vm_vals ?h) v = release (vm_vals h) v" if "v \<in> set (s_owned sc)" for v
    proof -
      have "v \<in> set (owned ?m1 (Node s ts))" unfolding owned1 using that by simp
      then show ?thesis using apart by (auto simp: vals1 restrict_map_def release_def simp del: owned.simps)
    qed
    then have "map (release (vm_vals ?h)) (s_owned sc) = map (release (vm_vals h)) (s_owned sc)" by simp
    ultimately show ?thesis using m1_s by (simp only: farewell.simps option.sel) simp
  qed
  have "(vm_vals h |` (- set (owned ?m t))) |` (- set (owned ?m1 (Node s ts))) = vm_vals h |` (- set (owned ?m ?T))"
    unfolding owned1 using sc(1) by (auto simp: restrict_map_def fun_eq_iff)
  moreover have "scopes_without ?m1 p (Node s ts) = scopes_without ?m p ?T"
  proof
    fix x
    have ps: "p \<noteq> s" "p \<notin> set (nodes t)" using p by auto
    then have "without_child ?m1 p s = without_child ?m p s" using m1 [of p] by (simp add: without_child_def)
    then show "scopes_without ?m1 p (Node s ts) x = scopes_without ?m p ?T x"
      using ps m1 [of x] m1_t [of x] by (simp add: scopes_without_def)
  qed
  moreover have "farewell ?m (vm_vals h) t @ farewell ?m1 (vm_vals ?h) (Node s ts) = farewell ?m (vm_vals h) ?T"
    using trace sc(1) by simp
  ultimately show "destroyed ?h p (Node s ts) = destroyed h p ?T" by (simp only: destroyed_def) (simp add: vals1)
qed

lemma destroy_tree: "fits_in h p T \<Longrightarrow> lasting (vm_scopes h) (vm_vals h) T \<Longrightarrow> scope_destroy_subtree h (troot T) = Some (destroyed h p T)"
proof (induction T arbitrary: h p)
  case (Node s ts)
  then show ?case
  proof (induction ts arbitrary: h rule: rev_induct)
    case Nil
    then show ?case using destroy_leaf by simp
  next
    case (snoc t ts)
    obtain sc where sc: "vm_scopes h s = Some sc" "s_children sc = map troot (ts @ [t])" "s \<noteq> 0"
      using snoc.prems(2) by (auto simp: fits_in_def)
    note parts = destroy_last_child [OF snoc.prems(2)]
    note lasts = parts(4) [OF snoc.prems(3)]
    have "scope_destroy_subtree h (troot t) = Some (destroyed h s t)"
      using snoc.prems(1) [OF _ parts(1)] lasts by simp
    moreover have "scope_destroy_subtree (destroyed h s t) s = Some (destroyed (destroyed h s t) p (Node s ts))"
      using snoc.IH [OF _ parts(2)] lasts snoc.prems(1) by simp
    ultimately show ?case using sc parts(3) by (subst scope_destroy_subtree.simps) simp
  qed
qed

section \<open>Well-formed machines\<close>

definition linked :: "scope_heap \<Rightarrow> bool" where
  "linked m \<longleftrightarrow> (\<forall>s sc. m s = Some sc \<longrightarrow> s \<noteq> 0 \<and> distinct (s_children sc) \<and>
     (\<forall>c \<in> set (s_children sc). \<exists>cc. m c = Some cc \<and> s_parent cc = s) \<and>
     (s_parent sc \<noteq> 0 \<longrightarrow> (\<exists>pc. m (s_parent sc) = Some pc \<and> s \<in> set (s_children pc))))"

definition ranked :: "scope_heap \<Rightarrow> (addr \<Rightarrow> nat) \<Rightarrow> bool" where
  "ranked m rank \<longleftrightarrow> finite (dom m) \<and>
     (\<forall>s sc. m s = Some sc \<longrightarrow> s_parent sc \<noteq> 0 \<longrightarrow> rank (s_parent sc) < rank s)"

text \<open>Every value of a scope is alive and knows its scope, every variable is a value of its scope, and no
  two variables of a scope share one; a value with a scope is one of its values.\<close>

definition owning :: "scope_heap \<Rightarrow> (addr \<rightharpoonup> vm_val) \<Rightarrow> bool" where
  "owning m vals \<longleftrightarrow> (\<forall>s sc. m s = Some sc \<longrightarrow> distinct (s_owned sc) \<and>
       (\<forall>v \<in> set (s_owned sc). v \<noteq> 0 \<and> (\<exists>x. vals v = Some x \<and> v_frame x = s \<and> v_typed x)) \<and>
       ran (s_vars sc) \<subseteq> set (s_owned sc) \<and> inj_on (s_vars sc) (dom (s_vars sc))) \<and>
     (\<forall>v x. vals v = Some x \<longrightarrow> v_frame x \<noteq> 0 \<longrightarrow> (\<exists>sc. m (v_frame x) = Some sc \<and> v \<in> set (s_owned sc)))"

definition good :: "vm \<Rightarrow> bool" where
  "good h \<longleftrightarrow> linked (vm_scopes h) \<and> (\<exists>rank. ranked (vm_scopes h) rank) \<and> owning (vm_scopes h) (vm_vals h) \<and>
     (vm_current h \<noteq> 0 \<longrightarrow> vm_scopes h (vm_current h) \<noteq> None)"

lemma linkedD:
  assumes "linked m" and "m s = Some sc"
  shows "s \<noteq> 0" and "distinct (s_children sc)"
    and "c \<in> set (s_children sc) \<Longrightarrow> \<exists>cc. m c = Some cc \<and> s_parent cc = s"
    and "s_parent sc \<noteq> 0 \<Longrightarrow> \<exists>pc. m (s_parent sc) = Some pc \<and> s \<in> set (s_children pc)"
  using assms unfolding linked_def by blast+

lemma owningD:
  assumes "owning m vals" and "m s = Some sc"
  shows "distinct (s_owned sc)"
    and "v \<in> set (s_owned sc) \<Longrightarrow> v \<noteq> 0 \<and> (\<exists>x. vals v = Some x \<and> v_frame x = s \<and> v_typed x)"
    and "ran (s_vars sc) \<subseteq> set (s_owned sc)" and "inj_on (s_vars sc) (dom (s_vars sc))"
  using assms unfolding owning_def by blast+

lemma owning_frame:
  "owning m vals \<Longrightarrow> vals v = Some x \<Longrightarrow> v_frame x \<noteq> 0 \<Longrightarrow> \<exists>sc. m (v_frame x) = Some sc \<and> v \<in> set (s_owned sc)"
  unfolding owning_def by blast

section \<open>The tree of a scope\<close>

lemma tree_list:
  "\<forall>c \<in> set cs. \<exists>t. troot t = c \<and> P t \<Longrightarrow> \<exists>ts. map troot ts = cs \<and> (\<forall>t \<in> set ts. P t)"
proof (induction cs)
  case (Cons c cs)
  then obtain t ts where "troot t = c" "P t" "map troot ts = cs" "\<forall>t \<in> set ts. P t" by auto
  then show ?case by (intro exI [of _ "t # ts"]) simp
qed simp

lemma tree_exists:
  assumes "linked m" and r: "ranked m rank" and "m s = Some sc"
  shows "\<exists>T. troot T = s \<and> tree_in m (s_parent sc) T"
proof -
  obtain b where b: "\<forall>s \<in> dom m. rank s < b"
    using r by (metis ranked_def finite_nat_set_iff_bounded finite_imageI imageI)
  show ?thesis
    using assms(3)
  proof (induction "b - rank s" arbitrary: s sc rule: less_induct)
    case less
    have s: "s \<noteq> 0" "rank s < b" using less.prems assms(1) b by (auto simp: linked_def)
    have "\<forall>c \<in> set (s_children sc). \<exists>t. troot t = c \<and> tree_in m s t"
    proof
      fix c assume "c \<in> set (s_children sc)"
      then obtain cc where cc: "m c = Some cc" "s_parent cc = s" using linkedD(3) [OF assms(1) less.prems] by blast
      then have "rank s < rank c" using r s(1) by (auto simp: ranked_def)
      then have "b - rank c < b - rank s" using s(2) by linarith
      then show "\<exists>t. troot t = c \<and> tree_in m s t" using less.hyps [OF _ cc(1)] cc(2) by simp
    qed
    then obtain ts where "map troot ts = s_children sc" "\<forall>t \<in> set ts. tree_in m s t" using tree_list by metis
    then show ?case using less.prems s(1) by (intro exI [of _ "Node s ts"]) simp
  qed
qed

lemma tree_root: "tree_in m p T \<Longrightarrow> troot T \<noteq> 0 \<and> (\<exists>sc. m (troot T) = Some sc \<and> s_parent sc = p)"
  by (cases T) auto

lemma tree_node:
  "tree_in m p T \<Longrightarrow> x \<in> set (nodes T) \<Longrightarrow> \<exists>sc. m x = Some sc \<and> x \<noteq> 0 \<and> (x = troot T \<or> s_parent sc \<in> set (nodes T))"
proof (induction T arbitrary: p)
  case (Node s ts)
  show ?case
  proof (cases "x = s")
    case True
    then show ?thesis using Node.prems by auto
  next
    case False
    then obtain t where t: "t \<in> set ts" "x \<in> set (nodes t)" using Node.prems(2) by auto
    then have tr: "tree_in m s t" using Node.prems(1) by auto
    obtain sc where sc: "m x = Some sc" "x \<noteq> 0" "x = troot t \<or> s_parent sc \<in> set (nodes t)" using Node.IH [OF t(1) tr t(2)] by blast
    then have "s_parent sc \<in> set (nodes (Node s ts))" using t(1) tree_root [OF tr] by auto
    then show ?thesis using sc by simp
  qed
qed

lemma tree_rank:
  assumes "ranked m rank"
  shows "tree_in m p T \<Longrightarrow> x \<in> set (nodes T) \<Longrightarrow> rank (troot T) \<le> rank x"
proof (induction T arbitrary: p)
  case (Node s ts)
  show ?case
  proof (cases "x = s")
    case False
    then obtain t where t: "t \<in> set ts" "x \<in> set (nodes t)" using Node.prems(2) by auto
    then have tr: "tree_in m s t" using Node.prems(1) by auto
    then have "rank s < rank (troot t)" using tree_root [OF tr] assms Node.prems(1) by (auto simp: ranked_def)
    then show ?thesis using Node.IH [OF t(1) tr t(2)] by simp
  qed simp
qed

lemma trees_apart:
  assumes r: "ranked m rank" and t: "tree_in m s t" "tree_in m s u" and ne: "troot t \<noteq> troot u" and s: "s \<noteq> 0"
  shows "x \<in> set (nodes t) \<Longrightarrow> x \<notin> set (nodes u)"
proof (induction "rank x" arbitrary: x rule: less_induct)
  case less
  have s_out: "s \<notin> set (nodes w)" if "tree_in m s w" for w
  proof
    assume "s \<in> set (nodes w)"
    moreover have "rank s < rank (troot w)" using tree_root [OF that] r s by (auto simp: ranked_def)
    ultimately show False using tree_rank [OF r that] by fastforce
  qed
  show ?case
  proof
    assume u: "x \<in> set (nodes u)"
    obtain sc where sc: "m x = Some sc" "x = troot t \<or> s_parent sc \<in> set (nodes t)" using tree_node [OF t(1) less.prems] by blast
    have sc': "x = troot u \<or> s_parent sc \<in> set (nodes u)" using tree_node [OF t(2) u] sc(1) by auto
    show False
    proof (cases "x = troot t \<or> x = troot u")
      case True
      then have "s_parent sc = s" using tree_root [OF t(1)] tree_root [OF t(2)] sc(1) by auto
      then show False using True sc(2) sc' ne s_out [OF t(1)] s_out [OF t(2)] by auto
    next
      case False
      then have both: "s_parent sc \<in> set (nodes t)" "s_parent sc \<in> set (nodes u)" using sc(2) sc' by auto
      then have "s_parent sc \<noteq> 0" using tree_node [OF t(1)] by blast
      then have "rank (s_parent sc) < rank x" using r sc(1) by (auto simp: ranked_def)
      then show False using less.hyps [OF _ both(1)] both(2) by blast
    qed
  qed
qed

lemma distinct_concat_map:
  "distinct (map f xs) \<Longrightarrow> (\<forall>x \<in> set xs. distinct (g x)) \<Longrightarrow>
     (\<forall>x \<in> set xs. \<forall>y \<in> set xs. f x \<noteq> f y \<longrightarrow> set (g x) \<inter> set (g y) = {}) \<Longrightarrow> distinct (concat (map g xs))"
proof (induction xs)
  case (Cons x xs)
  have "set (g x) \<inter> set (g y) = {}" if "y \<in> set xs" for y
  proof -
    have "f x \<noteq> f y" using Cons.prems(1) that by auto
    then show ?thesis using Cons.prems(3) that by simp
  qed
  then have "set (g x) \<inter> set (concat (map g xs)) = {}" by auto
  then show ?case using Cons by simp
qed simp

lemma concat_map_apart:
  "distinct (concat (map g xs)) \<Longrightarrow> x \<in> set xs \<Longrightarrow> y \<in> set xs \<Longrightarrow> x \<noteq> y \<Longrightarrow> set (g x) \<inter> set (g y) = {}"
  by (induction xs) auto

lemma concat_map_distinct: "distinct (concat (map g xs)) \<Longrightarrow> x \<in> set xs \<Longrightarrow> distinct (g x)"
  by (induction xs) auto

lemma tree_distinct:
  assumes l: "linked m" and r: "ranked m rank"
  shows "tree_in m p T \<Longrightarrow> distinct (nodes T)"
proof (induction T arbitrary: p)
  case (Node s ts)
  obtain sc where sc: "m s = Some sc" "s_children sc = map troot ts" "s \<noteq> 0" using Node.prems by auto
  have tr: "tree_in m s t" if "t \<in> set ts" for t using Node.prems that by simp
  have "distinct (map troot ts)" using linkedD(2) [OF l sc(1)] sc(2) by simp
  moreover have "set (nodes t) \<inter> set (nodes u) = {}" if "t \<in> set ts" "u \<in> set ts" "troot t \<noteq> troot u" for t u
    using trees_apart [OF r tr [OF that(1)] tr [OF that(2)] that(3) sc(3)] by blast
  moreover have "\<forall>t \<in> set ts. distinct (nodes t)" using Node.IH tr by blast
  ultimately have "distinct (concat (map nodes ts))" by (intro distinct_concat_map) blast+
  moreover have "s \<notin> set (nodes t)" if "t \<in> set ts" for t
    using tree_rank [OF r tr [OF that]] tree_root [OF tr [OF that]] r sc(3) by (force simp: ranked_def)
  ultimately show ?case by auto
qed

lemma owned_node: "v \<in> set (owned m T) \<Longrightarrow> \<exists>x \<in> set (nodes T). v \<in> set (s_owned (the (m x)))"
  by (induction T) auto

lemma tree_owned_distinct:
  assumes o: "owning m vals"
  shows "tree_in m p T \<Longrightarrow> distinct (nodes T) \<Longrightarrow> distinct (owned m T)"
proof (induction T arbitrary: p)
  case (Node s ts)
  obtain sc where sc: "m s = Some sc" using Node.prems by auto
  have tr: "tree_in m s t" if "t \<in> set ts" for t using Node.prems that by simp
  have frame: "\<exists>x y. vals v = Some x \<and> v_frame x = y \<and> y \<in> set (nodes t)" if tv: "t \<in> set ts" "v \<in> set (owned m t)" for t v
  proof -
    obtain x where x: "x \<in> set (nodes t)" "v \<in> set (s_owned (the (m x)))" using owned_node [OF tv(2)] by blast
    obtain xc where "m x = Some xc" using tree_node [OF tr [OF tv(1)] x(1)] by blast
    then show ?thesis using owningD(2) [OF o] x by fastforce
  qed
  have dn: "distinct (concat (map nodes ts))" "s \<notin> set (concat (map nodes ts))" using Node.prems(2) by simp_all
  have "distinct (map troot ts)" using dn(1) by (rule distinct_troots)
  moreover have "\<forall>t \<in> set ts. distinct (owned m t)"
    using Node.IH tr concat_map_distinct [OF dn(1)] by blast
  moreover have "set (owned m t) \<inter> set (owned m u) = {}" if "t \<in> set ts" "u \<in> set ts" "troot t \<noteq> troot u" for t u
  proof (rule ccontr)
    assume "set (owned m t) \<inter> set (owned m u) \<noteq> {}"
    then obtain v where "v \<in> set (owned m t)" "v \<in> set (owned m u)" by blast
    then have "set (nodes t) \<inter> set (nodes u) \<noteq> {}" using frame [OF that(1)] frame [OF that(2)] by fastforce
    then show False using concat_map_apart [OF dn(1) that(1,2)] that(3) by blast
  qed
  ultimately have "distinct (concat (map (owned m) ts))" by (intro distinct_concat_map) blast+
  moreover have "v \<notin> set (s_owned sc)" if "t \<in> set ts" "v \<in> set (owned m t)" for t v
  proof
    assume "v \<in> set (s_owned sc)"
    then obtain x where "vals v = Some x" "v_frame x = s" using owningD(2) [OF o sc] by blast
    then show False using frame [OF that] dn(2) that(1) by auto
  qed
  moreover have "distinct (s_owned sc)" using owningD(1) [OF o sc] .
  ultimately show ?case using sc by auto
qed

text \<open>Every scope of a well-formed machine is the root of a tree that can be destroyed.\<close>

lemma good_fits:
  assumes g: "good h" and s: "vm_scopes h s = Some sc"
  shows "\<exists>T. troot T = s \<and> fits_in h (s_parent sc) T"
proof -
  obtain rank where l: "linked (vm_scopes h)" and r: "ranked (vm_scopes h) rank" and o: "owning (vm_scopes h) (vm_vals h)"
    using g by (auto simp: good_def)
  obtain T where T: "troot T = s" "tree_in (vm_scopes h) (s_parent sc) T" using tree_exists [OF l r s] by blast
  have dn: "distinct (nodes T)" using tree_distinct [OF l r T(2)] .
  have "\<forall>v \<in> set (owned (vm_scopes h) T). v \<noteq> 0 \<and> vm_vals h v \<noteq> None"
  proof
    fix v assume "v \<in> set (owned (vm_scopes h) T)"
    then obtain x where x: "x \<in> set (nodes T)" "v \<in> set (s_owned (the (vm_scopes h x)))" using owned_node by blast
    then obtain xc where "vm_scopes h x = Some xc" using tree_node [OF T(2)] by blast
    then show "v \<noteq> 0 \<and> vm_vals h v \<noteq> None" using owningD(2) [OF o] x by fastforce
  qed
  moreover have "s_parent sc \<notin> set (nodes T)"
  proof
    assume p: "s_parent sc \<in> set (nodes T)"
    then have "s_parent sc \<noteq> 0" using tree_node [OF T(2)] by blast
    then have "rank (s_parent sc) < rank s" using r s by (auto simp: ranked_def)
    then show False using tree_rank [OF r T(2) p] T(1) by simp
  qed
  moreover have "\<exists>pc. vm_scopes h (s_parent sc) = Some pc \<and> distinct (s_children pc) \<and> troot T \<in> set (s_children pc)" if "s_parent sc \<noteq> 0"
    using linkedD(4) [OF l s that] linkedD(2) [OF l] T(1) by blast
  moreover have "distinct (owned (vm_scopes h) T)" using tree_owned_distinct [OF o T(2) dn] .
  ultimately show ?thesis using T dn unfolding fits_in_def by blast
qed

end
