(* ===== verification/ScopeOps.thy ===== *)
theory ScopeOps
  imports ScopeTree
begin

text \<open>
  Every operation on scopes (\<open>src/vm/scope.c\<close>) keeps a machine well formed and uses only scopes and
  values that are alive.
\<close>

section \<open>Operations keep machines well-formed\<close>

text \<open>Changes of the variables, values and deferred calls of scopes keep the links.\<close>

definition same_links :: "scope_heap \<Rightarrow> scope_heap \<Rightarrow> bool" where
  "same_links m m' \<longleftrightarrow> (\<forall>s. map_option s_parent (m s) = map_option s_parent (m' s) \<and> map_option s_children (m s) = map_option s_children (m' s))"

lemma same_links_put:
  "m s = Some sc \<Longrightarrow> s_parent sc' = s_parent sc \<Longrightarrow> s_children sc' = s_children sc \<Longrightarrow> same_links m (m(s \<mapsto> sc'))"
  by (auto simp: same_links_def)

lemma same_linksD:
  assumes "same_links m m'" and "m' s = Some sc'"
  obtains sc where "m s = Some sc" "s_parent sc' = s_parent sc" "s_children sc' = s_children sc"
proof (cases "m s")
  case None
  then show ?thesis using assms by (auto simp: same_links_def dest!: spec [of _ s])
next
  case (Some sc)
  then show ?thesis using that [OF Some] assms by (auto simp: same_links_def dest!: spec [of _ s])
qed

lemma same_links_sym: "same_links m m' \<Longrightarrow> same_links m' m"
  by (simp add: same_links_def)

lemma same_links_good:
  assumes sl: "same_links m m'" and l: "linked m" and r: "ranked m rank"
  shows "linked m' \<and> ranked m' rank"
proof -
  have dom: "dom m' = dom m" using sl unfolding same_links_def by (auto simp: dom_def) (metis map_option_is_None not_None_eq)+
  have "ranked m' rank" using r dom same_linksD [OF sl] unfolding ranked_def by metis
  moreover have "linked m'"
    unfolding linked_def
  proof (intro allI impI)
    fix s sc' assume "m' s = Some sc'"
    then obtain sc where sc: "m s = Some sc" "s_parent sc' = s_parent sc" "s_children sc' = s_children sc" using same_linksD [OF sl] by metis
    note lk = linkedD [OF l sc(1)]
    have "\<exists>cc. m' c = Some cc \<and> s_parent cc = s" if "c \<in> set (s_children sc)" for c
    proof -
      obtain cc where "m c = Some cc" "s_parent cc = s" using lk(3) \<open>c \<in> _\<close> by blast
      then show ?thesis using same_linksD [OF same_links_sym [OF sl]] by metis
    qed
    moreover have "\<exists>pc. m' (s_parent sc) = Some pc \<and> s \<in> set (s_children pc)" if "s_parent sc \<noteq> 0"
    proof -
      obtain pc where "m (s_parent sc) = Some pc" "s \<in> set (s_children pc)" using lk(4) \<open>s_parent sc \<noteq> 0\<close> by blast
      then show ?thesis using same_linksD [OF same_links_sym [OF sl]] by metis
    qed
    ultimately show "s \<noteq> 0 \<and> distinct (s_children sc') \<and> (\<forall>c \<in> set (s_children sc'). \<exists>cc. m' c = Some cc \<and> s_parent cc = s) \<and>
        (s_parent sc' \<noteq> 0 \<longrightarrow> (\<exists>pc. m' (s_parent sc') = Some pc \<and> s \<in> set (s_children pc)))"
      using lk(1,2) sc(2,3) by simp
  qed
  ultimately show ?thesis by simp
qed

lemma good_same_links:
  assumes "good h" and "same_links (vm_scopes h) (vm_scopes h')" and "owning (vm_scopes h') (vm_vals h')"
    and "vm_current h' = vm_current h"
  shows "good h'"
proof -
  have "vm_scopes h' (vm_current h) \<noteq> None" if "vm_scopes h (vm_current h) \<noteq> None"
    using assms(2) that unfolding same_links_def by (metis map_option_is_None)
  then show ?thesis using assms same_links_good [OF assms(2)] unfolding good_def by metis
qed

subsection \<open>New scopes\<close>

lemma scope_new_good:
  assumes g: "good h" and a: "a \<noteq> 0" "vm_scopes h a = None" and p: "p = 0 \<or> vm_scopes h p \<noteq> None"
  shows "\<exists>h'. scope_new h a p = Some h' \<and> good h' \<and> vm_scopes h' a \<noteq> None \<and> vm_current h' = vm_current h"
proof -
  let ?m = "vm_scopes h" and ?new = "\<lparr>s_parent = p, s_vars = Map.empty, s_owned = [], s_children = [], s_defers = []\<rparr>"
  define m' where "m' = (if p = 0 then ?m(a \<mapsto> ?new)
    else (?m(a \<mapsto> ?new))(p \<mapsto> (the (?m p))\<lparr>s_children := s_children (the (?m p)) @ [a]\<rparr>))"
  have pa: "p \<noteq> a" using p a by auto
  have run: "scope_new h a p = Some (h\<lparr>vm_scopes := m'\<rparr>)"
    using p pa by (auto simp: scope_new_def put_scope_def m'_def)
  obtain rank where l: "linked ?m" and r: "ranked ?m rank" and o: "owning ?m (vm_vals h)" using g by (auto simp: good_def)
  have at_a: "m' a = Some ?new" using pa by (simp add: m'_def)
  have old: "\<exists>sc. ?m s = Some sc \<and> s_parent sc' = s_parent sc \<and> s_owned sc' = s_owned sc \<and> s_vars sc' = s_vars sc \<and>
      s_children sc' = (if s = p then s_children sc @ [a] else s_children sc)" if "m' s = Some sc'" "s \<noteq> a" for s sc'
    using that p linkedD(1) [OF l] by (auto simp: m'_def split: if_splits)
  have keep: "\<exists>sc'. m' s = Some sc' \<and> s_parent sc' = s_parent sc \<and> s_owned sc' = s_owned sc \<and> set (s_children sc) \<subseteq> set (s_children sc')"
    if "?m s = Some sc" for s sc
    using that a by (auto simp: m'_def)
  have no_a: "a \<notin> set (s_children sc)" "s_parent sc \<noteq> a" if "?m s = Some sc" for s sc
    using linkedD(3,4) [OF l that] a by fastforce+
  have "linked m'"
    unfolding linked_def
  proof (intro allI impI)
    fix s sc' assume s: "m' s = Some sc'"
    show "s \<noteq> 0 \<and> distinct (s_children sc') \<and> (\<forall>c \<in> set (s_children sc'). \<exists>cc. m' c = Some cc \<and> s_parent cc = s) \<and>
        (s_parent sc' \<noteq> 0 \<longrightarrow> (\<exists>pc. m' (s_parent sc') = Some pc \<and> s \<in> set (s_children pc)))"
    proof (cases "s = a")
      case True
      then have "sc' = ?new" using s at_a by simp
      moreover have "\<exists>pc. m' p = Some pc \<and> a \<in> set (s_children pc)" if "p \<noteq> 0" using that by (simp add: m'_def)
      ultimately show ?thesis using True a by simp
    next
      case False
      obtain sc where sc: "?m s = Some sc" "s_parent sc' = s_parent sc" "s_children sc' = (if s = p then s_children sc @ [a] else s_children sc)"
        using old [OF s False] by blast
      note lk = linkedD [OF l sc(1)]
      have "\<exists>cc. m' c = Some cc \<and> s_parent cc = s" if "c \<in> set (s_children sc')" for c
      proof (cases "c = a")
        case True
        then have "s = p" using that sc(3) no_a(1) [OF sc(1)] by (auto split: if_splits)
        then show ?thesis using True at_a by simp
      next
        case False
        then have "c \<in> set (s_children sc)" using that sc(3) by (auto split: if_splits)
        then show ?thesis using lk(3) keep by metis
      qed
      moreover have "\<exists>pc. m' (s_parent sc) = Some pc \<and> s \<in> set (s_children pc)" if "s_parent sc \<noteq> 0"
        using lk(4) [OF that] keep by blast
      ultimately show ?thesis using lk(1,2) sc(2,3) no_a(1) [OF sc(1)] by (auto split: if_splits)
    qed
  qed
  moreover have "ranked m' (rank(a := Suc (rank p)))"
    unfolding ranked_def
  proof (intro conjI allI impI)
    have "dom m' \<subseteq> insert a (dom ?m)" using p by (auto simp: m'_def split: if_splits)
    then show "finite (dom m')" using r by (auto simp: ranked_def intro: finite_subset)
    fix s sc' assume s: "m' s = Some sc'" "s_parent sc' \<noteq> 0"
    show "(rank(a := Suc (rank p))) (s_parent sc') < (rank(a := Suc (rank p))) s"
    proof (cases "s = a")
      case True
      then have "s_parent sc' = p" using s(1) at_a by auto
      then show ?thesis using True pa by simp
    next
      case False
      then obtain sc where "?m s = Some sc" "s_parent sc' = s_parent sc" using old [OF s(1)] by blast
      then show ?thesis using False r s(2) no_a(2) by (auto simp: ranked_def)
    qed
  qed
  moreover have "owning m' (vm_vals h)"
    unfolding owning_def
  proof (intro conjI allI impI)
    fix s sc' assume s: "m' s = Some sc'"
    have "distinct (s_owned sc') \<and> (\<forall>v \<in> set (s_owned sc'). v \<noteq> 0 \<and> (\<exists>x. vm_vals h v = Some x \<and> v_frame x = s \<and> v_typed x)) \<and>
       ran (s_vars sc') \<subseteq> set (s_owned sc') \<and> inj_on (s_vars sc') (dom (s_vars sc'))"
    proof (cases "s = a")
      case True
      then have "s_owned sc' = []" "s_vars sc' = Map.empty" using s at_a by auto
      then show ?thesis by simp
    next
      case False
      then show ?thesis using old [OF s] owningD [OF o] by fastforce
    qed
    then show "distinct (s_owned sc')" "\<forall>v \<in> set (s_owned sc'). v \<noteq> 0 \<and> (\<exists>x. vm_vals h v = Some x \<and> v_frame x = s \<and> v_typed x)"
      "ran (s_vars sc') \<subseteq> set (s_owned sc')" "inj_on (s_vars sc') (dom (s_vars sc'))" by blast+
  next
    fix v x assume "vm_vals h v = Some x" "v_frame x \<noteq> 0"
    then show "\<exists>sc. m' (v_frame x) = Some sc \<and> v \<in> set (s_owned sc)" using owning_frame [OF o] keep by metis
  qed
  moreover have "vm_scopes h (vm_current h) \<noteq> None \<Longrightarrow> m' (vm_current h) \<noteq> None" using keep by blast
  ultimately have "good (h\<lparr>vm_scopes := m'\<rparr>)" using g by (auto simp: good_def)
  then show ?thesis using run at_a by auto
qed

subsection \<open>Destruction\<close>

lemma tree_child:
  "tree_in m p T \<Longrightarrow> x \<in> set (nodes T) \<Longrightarrow> m x = Some sc \<Longrightarrow> c \<in> set (s_children sc) \<Longrightarrow> c \<in> set (nodes T)"
proof (induction T arbitrary: p)
  case (Node s ts)
  show ?case
  proof (cases "x = s")
    case True
    then have "c \<in> troot ` set ts" using Node.prems by auto
    then show ?thesis using troot_node by fastforce
  next
    case False
    then obtain t where t: "t \<in> set ts" "x \<in> set (nodes t)" using Node.prems(2) by auto
    then show ?thesis using Node.IH [OF t(1) _ t(2) Node.prems(3,4)] Node.prems(1) by auto
  qed
qed

lemma node_owned: "tree_in m p T \<Longrightarrow> x \<in> set (nodes T) \<Longrightarrow> m x = Some sc \<Longrightarrow> set (s_owned sc) \<subseteq> set (owned m T)"
proof (induction T arbitrary: p)
  case (Node s ts)
  show ?case
  proof (cases "x = s")
    case True
    then show ?thesis using Node.prems by auto
  next
    case False
    then obtain t where t: "t \<in> set ts" "x \<in> set (nodes t)" using Node.prems(2) by auto
    then show ?thesis using Node.IH [OF t(1) _ t(2) Node.prems(3)] Node.prems(1) by auto
  qed
qed

lemma destroyed_good:
  assumes g: "good h" and fit: "fits_in h p T" and cur: "vm_current h \<notin> set (nodes T)"
    and sc': "vm_scopes h' = scopes_without (vm_scopes h) p T" and vals': "vm_vals h' = vm_vals h |` (- set (owned (vm_scopes h) T))"
    and cur': "vm_current h' = vm_current h"
  shows "good h'"
proof -
  let ?m = "vm_scopes h" and ?m' = "vm_scopes h'"
  obtain rank where l: "linked ?m" and r: "ranked ?m rank" and o: "owning ?m (vm_vals h)" using g by (auto simp: good_def)
  have tr: "tree_in ?m p T" and p: "p \<notin> set (nodes T)" using fit by (simp_all add: fits_in_def)
  have old: "\<exists>sc. ?m s = Some sc \<and> s \<notin> set (nodes T) \<and> s_parent sc' = s_parent sc \<and> s_owned sc' = s_owned sc \<and> s_vars sc' = s_vars sc \<and>
      s_children sc' = (if s = p then swap_out (troot T) (s_children sc) else s_children sc)" if s: "?m' s = Some sc'" for s sc'
  proof -
    have out: "s \<notin> set (nodes T)" using s by (auto simp: sc' scopes_without_def split: if_splits)
    show ?thesis
    proof (cases "s = p")
      case True
      then obtain pc where pc: "?m p = Some pc" using s out by (auto simp: sc' scopes_without_def without_child_def)
      then have "sc' = pc\<lparr>s_children := swap_out (troot T) (s_children pc)\<rparr>"
        using True s out linkedD(1) [OF l pc] by (simp add: sc' scopes_without_def without_child_def)
      then show ?thesis using True pc out by simp
    next
      case False
      then show ?thesis using s out by (simp add: sc' scopes_without_def)
    qed
  qed
  have keep: "\<exists>sc'. ?m' s = Some sc' \<and> s_parent sc' = s_parent sc \<and> s_owned sc' = s_owned sc \<and>
      s_children sc' = (if s = p then swap_out (troot T) (s_children sc) else s_children sc)"
    if "?m s = Some sc" "s \<notin> set (nodes T)" for s sc
    using that linkedD(1) [OF l that(1)] by (auto simp: sc' scopes_without_def without_child_def)
  have up: "s_parent sc \<notin> set (nodes T)" if ss: "?m s = Some sc" "s \<notin> set (nodes T)" for s sc
  proof
    assume in_T: "s_parent sc \<in> set (nodes T)"
    then have "s_parent sc \<noteq> 0" using tree_node [OF tr] by blast
    then obtain pc where "?m (s_parent sc) = Some pc" "s \<in> set (s_children pc)" using linkedD(4) [OF l ss(1)] by blast
    then show False using tree_child [OF tr in_T] ss(2) by blast
  qed
  have root: "s_parent sc = p" if "?m (troot T) = Some sc" for sc using tree_root [OF tr] that by auto
  have "linked ?m'"
    unfolding linked_def
  proof (intro allI impI)
    fix s sc' assume "?m' s = Some sc'"
    then obtain sc where sc: "?m s = Some sc" "s \<notin> set (nodes T)" "s_parent sc' = s_parent sc"
      "s_children sc' = (if s = p then swap_out (troot T) (s_children sc) else s_children sc)" using old by blast
    note lk = linkedD [OF l sc(1)]
    have d: "distinct (s_children sc')" "set (s_children sc') = (if s = p then set (s_children sc) - {troot T} else set (s_children sc))"
      using swap_out_distinct [OF lk(2), of "troot T"] lk(2) by (simp_all add: sc(4))
    have "\<exists>cc. ?m' c = Some cc \<and> s_parent cc = s" if c: "c \<in> set (s_children sc')" for c
    proof -
      have "c \<in> set (s_children sc)" using c d(2) by (auto split: if_splits)
      then obtain cc where cc: "?m c = Some cc" "s_parent cc = s" using lk(3) by blast
      have "c \<notin> set (nodes T)"
      proof
        assume "c \<in> set (nodes T)"
        then have "c = troot T" using tree_node [OF tr] cc sc(2) by fastforce
        then show False using root cc c d(2) by auto
      qed
      then show ?thesis using keep [OF cc(1)] cc(2) by auto
    qed
    moreover have "\<exists>pc. ?m' (s_parent sc) = Some pc \<and> s \<in> set (s_children pc)" if nz: "s_parent sc \<noteq> 0"
    proof -
      obtain pc where pc: "?m (s_parent sc) = Some pc" "s \<in> set (s_children pc)" using lk(4) [OF nz] by blast
      have "s \<noteq> troot T" using sc(2) troot_node [of T] by auto
      then have "s \<in> set (swap_out (troot T) (s_children pc))"
        using pc swap_out_distinct [OF linkedD(2) [OF l pc(1)]] by auto
      then show ?thesis using keep [OF pc(1) up [OF sc(1,2)]] pc(2) by fastforce
    qed
    ultimately show "s \<noteq> 0 \<and> distinct (s_children sc') \<and> (\<forall>c \<in> set (s_children sc'). \<exists>cc. ?m' c = Some cc \<and> s_parent cc = s) \<and>
        (s_parent sc' \<noteq> 0 \<longrightarrow> (\<exists>pc. ?m' (s_parent sc') = Some pc \<and> s \<in> set (s_children pc)))"
      using lk(1) d(1) sc(3) by simp
  qed
  moreover have "ranked ?m' rank"
  proof -
    have "dom ?m' \<subseteq> dom ?m" using old by blast
    then have "finite (dom ?m')" using r by (auto simp: ranked_def intro: finite_subset)
    moreover have "rank (s_parent sc') < rank s" if ss: "?m' s = Some sc'" "s_parent sc' \<noteq> 0" for s sc'
    proof -
      obtain sc where "?m s = Some sc" "s_parent sc' = s_parent sc" using old [OF ss(1)] by blast
      then show ?thesis using r ss(2) by (simp add: ranked_def)
    qed
    ultimately show ?thesis by (simp add: ranked_def)
  qed
  moreover have "owning ?m' (vm_vals h')"
    unfolding owning_def
  proof (intro conjI allI impI)
    fix s sc' assume "?m' s = Some sc'"
    then obtain sc where sc: "?m s = Some sc" "s \<notin> set (nodes T)" "s_owned sc' = s_owned sc" "s_vars sc' = s_vars sc" using old by blast
    note ow = owningD [OF o sc(1)]
    show "distinct (s_owned sc')" "ran (s_vars sc') \<subseteq> set (s_owned sc')" "inj_on (s_vars sc') (dom (s_vars sc'))" using ow sc(3,4) by simp_all
    show "\<forall>v \<in> set (s_owned sc'). v \<noteq> 0 \<and> (\<exists>x. vm_vals h' v = Some x \<and> v_frame x = s \<and> v_typed x)"
    proof
      fix v assume "v \<in> set (s_owned sc')"
      then obtain x where x: "v \<noteq> 0" "vm_vals h v = Some x" "v_frame x = s" "v_typed x" using ow(2) sc(3) by auto
      have "v \<notin> set (owned ?m T)"
      proof
        assume "v \<in> set (owned ?m T)"
        then obtain y where y: "y \<in> set (nodes T)" "v \<in> set (s_owned (the (?m y)))" using owned_node by blast
        then obtain yc where "?m y = Some yc" using tree_node [OF tr] by blast
        then show False using owningD(2) [OF o] y x(2,3) sc(2) by fastforce
      qed
      then show "v \<noteq> 0 \<and> (\<exists>x. vm_vals h' v = Some x \<and> v_frame x = s \<and> v_typed x)" using x by (simp add: vals')
    qed
  next
    fix v x assume v: "vm_vals h' v = Some x" "v_frame x \<noteq> 0"
    then have v': "vm_vals h v = Some x" "v \<notin> set (owned ?m T)" by (auto simp: vals' restrict_map_def split: if_splits)
    then obtain sc where sc: "?m (v_frame x) = Some sc" "v \<in> set (s_owned sc)" using owning_frame [OF o _ v(2)] by blast
    then have "v_frame x \<notin> set (nodes T)" using node_owned [OF tr] v'(2) by blast
    then show "\<exists>sc. ?m' (v_frame x) = Some sc \<and> v \<in> set (s_owned sc)" using keep [OF sc(1)] sc(2) by auto
  qed
  moreover have "?m' (vm_current h') \<noteq> None" if nz: "vm_current h' \<noteq> 0"
  proof -
    have "?m (vm_current h) \<noteq> None" using g nz cur' by (simp add: good_def)
    then show ?thesis using keep cur cur' by fastforce
  qed
  ultimately show ?thesis unfolding good_def by blast
qed

subsection \<open>Values and variables\<close>

lemma owning_put:
  assumes o: "owning m vals" and s: "m s = Some sc"
    and other: "\<And>v x. vals v = Some x \<Longrightarrow> v_frame x \<noteq> s \<Longrightarrow> vals' v = vals v"
    and sc': "distinct (s_owned sc')" "\<forall>v \<in> set (s_owned sc'). v \<noteq> 0 \<and> (\<exists>x. vals' v = Some x \<and> v_frame x = s \<and> v_typed x)"
      "ran (s_vars sc') \<subseteq> set (s_owned sc')" "inj_on (s_vars sc') (dom (s_vars sc'))"
    and frame: "\<And>v x. vals' v = Some x \<Longrightarrow> v_frame x \<noteq> 0 \<Longrightarrow> if v_frame x = s then v \<in> set (s_owned sc') else vals v = Some x"
  shows "owning (m(s \<mapsto> sc')) vals'"
  unfolding owning_def
proof (intro conjI allI impI)
  fix q qc assume q: "(m(s \<mapsto> sc')) q = Some qc"
  have *: "distinct (s_owned qc) \<and> (\<forall>v \<in> set (s_owned qc). v \<noteq> 0 \<and> (\<exists>x. vals' v = Some x \<and> v_frame x = q \<and> v_typed x)) \<and>
     ran (s_vars qc) \<subseteq> set (s_owned qc) \<and> inj_on (s_vars qc) (dom (s_vars qc))"
  proof (cases "q = s")
    case True
    then show ?thesis using q sc' by simp
  next
    case False
    then have "m q = Some qc" using q by simp
    note ow = owningD [OF o this]
    have "\<exists>x. vals' v = Some x \<and> v_frame x = q \<and> v_typed x" if "v \<in> set (s_owned qc)" for v
      using ow(2) [OF that] other False by metis
    then show ?thesis using ow by blast
  qed
  show "distinct (s_owned qc)" "\<forall>v \<in> set (s_owned qc). v \<noteq> 0 \<and> (\<exists>x. vals' v = Some x \<and> v_frame x = q \<and> v_typed x)"
    "ran (s_vars qc) \<subseteq> set (s_owned qc)" "inj_on (s_vars qc) (dom (s_vars qc))" using * by blast+
next
  fix v x assume v: "vals' v = Some x" "v_frame x \<noteq> 0"
  show "\<exists>qc. (m(s \<mapsto> sc')) (v_frame x) = Some qc \<and> v \<in> set (s_owned qc)"
  proof (cases "v_frame x = s")
    case True
    then show ?thesis using frame [OF v] by simp
  next
    case False
    then have "vals v = Some x" using frame [OF v] by simp
    then show ?thesis using owning_frame [OF o _ v(2)] False by simp
  qed
qed

lemma goodD:
  assumes "good h"
  shows "linked (vm_scopes h)" and "owning (vm_scopes h) (vm_vals h)"
    and "vm_current h \<noteq> 0 \<Longrightarrow> vm_scopes h (vm_current h) \<noteq> None"
  using assms by (auto simp: good_def)

lemma good_current: "good h \<Longrightarrow> c = 0 \<or> vm_scopes h c \<noteq> None \<Longrightarrow> good (h\<lparr>vm_current := c\<rparr>)"
  by (auto simp: good_def)

text \<open>One scope gets other variables, values or deferred calls.\<close>

lemma good_put:
  assumes g: "good h" and s: "vm_scopes h s = Some sc" and links: "s_parent sc' = s_parent sc" "s_children sc' = s_children sc"
    and o: "owning ((vm_scopes h)(s \<mapsto> sc')) vals'" and h': "vm_scopes h' = (vm_scopes h)(s \<mapsto> sc')" "vm_vals h' = vals'" "vm_current h' = vm_current h"
  shows "good h'"
proof (rule good_same_links [OF g])
  show "same_links (vm_scopes h) (vm_scopes h')" unfolding h'(1) 
    by (rule same_links_put [where m = "vm_scopes h" and s = s and sc = sc]) (use s links in simp_all)
qed (use o h' in simp_all)

definition fresh_value :: "vm \<Rightarrow> addr \<Rightarrow> bool" where
  "fresh_value h v \<longleftrightarrow> v \<noteq> 0 \<and> vm_vals h v = None"

lemma value_new_run:
  assumes v: "v \<noteq> 0" and s: "vm_current h = s" "vm_scopes h s = Some sc" "s \<noteq> 0"
  shows "value_new h v b sh er = Some (h\<lparr>vm_vals := (vm_vals h)(v \<mapsto> \<lparr>v_frame = s, v_borrowed = b, v_is_shadow = sh, v_typed = True, v_error = er\<rparr>),
    vm_scopes := (vm_scopes h)(s \<mapsto> sc\<lparr>s_owned := s_owned sc @ [v]\<rparr>)\<rparr>)"
  using assms by (simp add: value_new_def scope_track_def put_scope_def)

lemma owning_new:
  assumes o: "owning m vals" and s: "m s = Some sc" "s \<noteq> 0" and v: "v \<noteq> 0" "vals v = None" and x: "v_frame x = s" "v_typed x"
  shows "owning (m(s \<mapsto> sc\<lparr>s_owned := s_owned sc @ [v]\<rparr>)) (vals(v \<mapsto> x))"
proof -
  note ow = owningD [OF o s(1)]
  have new: "v \<notin> set (s_owned sc)" using ow(2) v(2) by force
  show ?thesis
  proof (rule owning_put [OF o s(1)])
    show "ran (s_vars (sc\<lparr>s_owned := s_owned sc @ [v]\<rparr>)) \<subseteq> set (s_owned (sc\<lparr>s_owned := s_owned sc @ [v]\<rparr>))" using ow(3) by auto
    show "\<forall>u \<in> set (s_owned (sc\<lparr>s_owned := s_owned sc @ [v]\<rparr>)). u \<noteq> 0 \<and> (\<exists>y. (vals(v \<mapsto> x)) u = Some y \<and> v_frame y = s \<and> v_typed y)"
      using ow(2) v x new by auto
    fix u y assume u: "(vals(v \<mapsto> x)) u = Some y" "v_frame y \<noteq> 0"
    show "if v_frame y = s then u \<in> set (s_owned (sc\<lparr>s_owned := s_owned sc @ [v]\<rparr>)) else vals u = Some y"
    proof (cases "u = v")
      case False
      then have old: "vals u = Some y" using u by simp
      then show ?thesis using owning_frame [OF o old u(2)] s(1) by auto
    qed (use u x in auto)
  qed (use ow new v in auto)
qed

lemma value_new_good:
  assumes g: "good h" and v: "fresh_value h v"
  shows "\<exists>h'. value_new h v b sh er = Some h' \<and> good h' \<and> vm_current h' = vm_current h \<and>
    vm_vals h' = (vm_vals h)(v \<mapsto> \<lparr>v_frame = vm_current h, v_borrowed = b, v_is_shadow = sh, v_typed = True, v_error = er\<rparr>) \<and>
    (\<forall>s. map_option s_vars (vm_scopes h' s) = map_option s_vars (vm_scopes h s) \<and>
         map_option s_parent (vm_scopes h' s) = map_option s_parent (vm_scopes h s))"
proof (cases "vm_current h = 0")
  case True
  let ?x = "\<lparr>v_frame = 0, v_borrowed = b, v_is_shadow = sh, v_typed = True, v_error = er\<rparr>"
  have o: "owning (vm_scopes h) ((vm_vals h)(v \<mapsto> ?x))"
    unfolding owning_def
  proof (intro conjI allI impI)
    fix s sc assume s: "vm_scopes h s = Some sc"
    note ow = owningD [OF goodD(2) [OF g] s]
    show "distinct (s_owned sc)" "ran (s_vars sc) \<subseteq> set (s_owned sc)" "inj_on (s_vars sc) (dom (s_vars sc))" by (fact ow)+
    show "\<forall>u \<in> set (s_owned sc). u \<noteq> 0 \<and> (\<exists>x. ((vm_vals h)(v \<mapsto> ?x)) u = Some x \<and> v_frame x = s \<and> v_typed x)"
      using ow(2) v by (fastforce simp: fresh_value_def)
  next
    fix u x assume "((vm_vals h)(v \<mapsto> ?x)) u = Some x" "v_frame x \<noteq> 0"
    then show "\<exists>sc. vm_scopes h (v_frame x) = Some sc \<and> u \<in> set (s_owned sc)"
      using owning_frame [OF goodD(2) [OF g]] by (auto split: if_splits)
  qed
  have "good (h\<lparr>vm_vals := (vm_vals h)(v \<mapsto> ?x)\<rparr>)"
    by (rule good_same_links [OF g]) (use o in \<open>simp_all add: same_links_def\<close>)
  then show ?thesis using True by (simp add: value_new_def scope_track_def)
next
  case False
  obtain sc where sc: "vm_scopes h (vm_current h) = Some sc" using goodD(3) [OF g False] by auto
  have o: "owning ((vm_scopes h)(vm_current h \<mapsto> sc\<lparr>s_owned := s_owned sc @ [v]\<rparr>))
      ((vm_vals h)(v \<mapsto> \<lparr>v_frame = vm_current h, v_borrowed = b, v_is_shadow = sh, v_typed = True, v_error = er\<rparr>))"
    by (rule owning_new [OF goodD(2) [OF g] sc False]) (use v in \<open>simp_all add: fresh_value_def\<close>)
  show ?thesis
    using value_new_run [OF _ refl sc False, of v b sh er] good_put [OF g sc _ _ o] sc v by (auto simp: fresh_value_def)
qed

lemma bind_good:
  assumes g: "good h" and s: "vm_scopes h s = Some sc" and v: "v \<in> set (s_owned sc)" "v \<notin> ran (s_vars sc)" and name: "s_vars sc name = None"
  shows "good (put_scope h s (sc\<lparr>s_vars := (s_vars sc)(name \<mapsto> v)\<rparr>))"
proof -
  let ?sc = "sc\<lparr>s_vars := (s_vars sc)(name \<mapsto> v)\<rparr>"
  note o = goodD(2) [OF g]
  note ow = owningD [OF o s]
  have "inj_on (s_vars ?sc) (dom (s_vars ?sc))"
    using ow(4) v(2) name by (auto simp: inj_on_def ran_def dom_def)
  moreover have "ran (s_vars ?sc) \<subseteq> set (s_owned ?sc)" using ow(3) v(1) name by (auto simp: ran_def)
  moreover have "if v_frame x = s then u \<in> set (s_owned ?sc) else vm_vals h u = Some x" if "vm_vals h u = Some x" "v_frame x \<noteq> 0" for u x
    using owning_frame [OF o that] that s by auto
  moreover have "distinct (s_owned ?sc)" "\<forall>u \<in> set (s_owned ?sc). u \<noteq> 0 \<and> (\<exists>x. vm_vals h u = Some x \<and> v_frame x = s \<and> v_typed x)"
    using ow(1,2) by simp_all
  ultimately have "owning ((vm_scopes h)(s \<mapsto> ?sc)) (vm_vals h)"
    by (intro owning_put [OF o s refl])
  then show ?thesis using good_put [OF g s, where sc' = ?sc and h' = "put_scope h s ?sc"] by (simp add: put_scope_def)
qed

lemma var_get_good: "good h \<Longrightarrow> vm_scopes h s = Some sc \<Longrightarrow> var_get (s_vars sc) name = 0 \<longleftrightarrow> s_vars sc name = None"
proof -
  assume g: "good h" and s: "vm_scopes h s = Some sc"
  have "v \<noteq> 0" if "s_vars sc name = Some v" for v
  proof -
    have "v \<in> set (s_owned sc)" using owningD(3) [OF goodD(2) [OF g] s] ranI [of "s_vars sc", OF that] by blast
    then show ?thesis using owningD(2) [OF goodD(2) [OF g] s] by blast
  qed
  then show ?thesis by (auto simp: var_get_def split: option.splits)
qed

text \<open>What a definition needs of the value it binds: it is alive and not bound in the scope.\<close>

definition bindable :: "vm \<Rightarrow> addr \<Rightarrow> addr \<Rightarrow> bool" where
  "bindable h s v \<longleftrightarrow> v \<noteq> 0 \<and> (\<exists>x. vm_vals h v = Some x \<and> v_typed x) \<and> (\<forall>sc. vm_scopes h s = Some sc \<longrightarrow> v \<notin> ran (s_vars sc))"

lemma define_run:
  assumes g: "good h" and s: "vm_scopes h s = Some sc" and v: "bindable h s v" and new: "fresh_value h new"
    and free: "s_vars sc name = None"
  shows "\<exists>h' sc'. scope_define h s name v new = Some (if adopts h s v then v else new, h') \<and> good h' \<and> vm_current h' = vm_current h \<and>
    (\<exists>x. vm_vals h v = Some x \<and> vm_vals h' = (if adopts h s v then vm_vals h else (vm_vals h)(new \<mapsto>
       \<lparr>v_frame = s, v_borrowed = False, v_is_shadow = v_is_shadow x, v_typed = True, v_error = v_error x\<rparr>))) \<and>
    vm_scopes h' = (vm_scopes h)(s \<mapsto> sc') \<and> s_parent sc' = s_parent sc \<and>
    s_vars sc' = (s_vars sc)(name \<mapsto> if adopts h s v then v else new)"
proof -
  note o = goodD(2) [OF g]
  have s0: "s \<noteq> 0" using linkedD(1) [OF goodD(1) [OF g] s] .
  obtain x where x: "v \<noteq> 0" "vm_vals h v = Some x" "v_typed x" "v \<notin> ran (s_vars sc)" using v s by (auto simp: bindable_def)
  have unset: "var_get (s_vars sc) name = 0" using free by (simp add: var_get_def)
  show ?thesis
  proof (cases "adopts h s v")
    case True
    then have "v_frame x = s" using x by (simp add: adopts_def)
    then have own: "v \<in> set (s_owned sc)" using owning_frame [OF o x(2)] s0 s by auto
    have "scope_define h s name v new = Some (v, put_scope h s (sc\<lparr>s_vars := (s_vars sc)(name \<mapsto> v)\<rparr>))"
      using True s s0 unset by (simp add: scope_define_def bind_var_def)
    then show ?thesis using True bind_good [OF g s own x(4) free] x(2) by (auto simp: put_scope_def)
  next
    case False
    let ?x = "\<lparr>v_frame = s, v_borrowed = False, v_is_shadow = v_is_shadow x, v_typed = True, v_error = v_error x\<rparr>"
    let ?sc = "sc\<lparr>s_owned := s_owned sc @ [new]\<rparr>"
    let ?h = "h\<lparr>vm_vals := (vm_vals h)(new \<mapsto> ?x), vm_scopes := (vm_scopes h)(s \<mapsto> ?sc)\<rparr>"
    have n: "new \<noteq> 0" "vm_vals h new = None" using new by (simp_all add: fresh_value_def)
    have "value_new (h\<lparr>vm_current := s\<rparr>) new False (v_is_shadow x) (v_error x) = Some (?h\<lparr>vm_current := s\<rparr>)"
      using value_new_run [OF n(1), of "h\<lparr>vm_current := s\<rparr>" s sc False "v_is_shadow x" "v_error x"] s s0 by simp
    then have clone: "clone_value (h\<lparr>vm_current := s\<rparr>) v new = Some (new, ?h\<lparr>vm_current := s\<rparr>)"
      using x by (simp add: clone_value_def)
    have g1: "good ?h"
      using good_put [OF g s _ _ owning_new [OF o s s0 n, of ?x], of ?h] by simp
    have "new \<notin> ran (s_vars sc)" using owningD(2,3) [OF o s] n(2) by (metis option.distinct(1) subsetD)
    then have g2: "good (put_scope ?h s (?sc\<lparr>s_vars := (s_vars sc)(name \<mapsto> new)\<rparr>))"
      using bind_good [OF g1, of s ?sc new name] free by simp
    have "scope_define h s name v new = Some (new, put_scope ?h s (?sc\<lparr>s_vars := (s_vars sc)(name \<mapsto> new)\<rparr>))"
      using False s s0 unset clone by (simp add: scope_define_def bind_var_def put_scope_def)
    then show ?thesis using False g2 x(2) by (auto simp: put_scope_def)
  qed
qed

lemma define_good:
  assumes g: "good h" and s: "vm_scopes h s \<noteq> None" and v: "bindable h s v" and new: "fresh_value h new"
  shows "\<exists>r h'. scope_define h s name v new = Some (r, h') \<and> good h'"
proof -
  obtain sc where sc: "vm_scopes h s = Some sc" using s by auto
  show ?thesis
  proof (cases "s_vars sc name")
    case None
    then show ?thesis using define_run [OF g sc v new] by blast
  next
    case (Some old)
    then have "var_get (s_vars sc) name \<noteq> 0" using var_get_good [OF g sc] by simp
    then show ?thesis using value_new_good [OF g new, of False False True] sc linkedD(1) [OF goodD(1) [OF g] sc]
      by (auto simp: scope_define_def make_error_value_def)
  qed
qed

lemma set_good:
  assumes g: "good h" and s: "vm_scopes h s \<noteq> None" and v: "bindable h s v" and new: "fresh_value h new"
  shows "\<exists>r h'. scope_set h s name v new = Some (r, h') \<and> good h'"
proof -
  obtain sc where sc: "vm_scopes h s = Some sc" using s by auto
  have s0: "s \<noteq> 0" using linkedD(1) [OF goodD(1) [OF g] sc] .
  show ?thesis
  proof (cases "s_vars sc name")
    case None
    then have "var_get (s_vars sc) name = 0" by (simp add: var_get_def)
    then show ?thesis using define_good [OF g s v new] sc s0 by (simp add: scope_set_def)
  next
    case (Some old)
    note o = goodD(2) [OF g]
    note ow = owningD [OF o sc]
    have old: "old \<in> set (s_owned sc)" "old \<in> ran (s_vars sc)" using Some ow(3) by (auto intro: ranI)
    obtain x where x: "vm_vals h old = Some x" "v_frame x = s" "old \<noteq> 0" using ow(2) [OF old(1)] by blast
    have get: "var_get (s_vars sc) name = old" using Some by (simp add: var_get_def)
    let ?sc = "sc\<lparr>s_vars := (s_vars sc)(name := None), s_owned := swap_out old (s_owned sc)\<rparr>"
    let ?h = "h\<lparr>vm_scopes := (vm_scopes h)(s \<mapsto> ?sc), vm_vals := (vm_vals h)(old := None),
      vm_trace := vm_trace h @ [Released_value old (v_typed x \<and> \<not> v_is_shadow x \<and> \<not> v_borrowed x)]\<rparr>"
    have swap: "distinct (s_owned ?sc)" "set (s_owned ?sc) = set (s_owned sc) - {old}" using swap_out_distinct [OF ow(1)] by simp_all
    have remove: "scope_remove_owned (put_scope h s (sc\<lparr>s_vars := (s_vars sc)(name := None)\<rparr>)) s old = Some ?h"
      using x by (simp add: scope_remove_owned_def put_scope_def free_value_def)
    have o': "owning ((vm_scopes h)(s \<mapsto> ?sc)) ((vm_vals h)(old := None))"
    proof (rule owning_put [OF o sc])
      show "distinct (s_owned ?sc)" by (fact swap(1))
      show "\<forall>u \<in> set (s_owned ?sc). u \<noteq> 0 \<and> (\<exists>y. ((vm_vals h)(old := None)) u = Some y \<and> v_frame y = s \<and> v_typed y)"
        using ow(2) unfolding swap(2) by simp
      show "ran (s_vars ?sc) \<subseteq> set (s_owned ?sc)"
      proof
        fix u assume "u \<in> ran (s_vars ?sc)"
        then obtain k where k: "s_vars sc k = Some u" "k \<noteq> name" by (auto simp: ran_def split: if_splits)
        then have "u \<noteq> old" using ow(4) Some by (metis domI inj_on_def)
        then show "u \<in> set (s_owned ?sc)" unfolding swap(2) using ow(3) k by (auto intro: ranI)
      qed
      show "inj_on (s_vars ?sc) (dom (s_vars ?sc))" using ow(4) by (auto simp: inj_on_def dom_def)
      show "((vm_vals h)(old := None)) u = vm_vals h u" if "vm_vals h u = Some y" "v_frame y \<noteq> s" for u y
        using that x by auto
      fix u y assume u: "((vm_vals h)(old := None)) u = Some y" "v_frame y \<noteq> 0"
      then have vals: "vm_vals h u = Some y" "u \<noteq> old" by (auto split: if_splits)
      obtain qc where "vm_scopes h (v_frame y) = Some qc" "u \<in> set (s_owned qc)" using owning_frame [OF o vals(1) u(2)] by blast
      then show "if v_frame y = s then u \<in> set (s_owned ?sc) else vm_vals h u = Some y" unfolding swap(2) using vals sc by auto
    qed
    have "good ?h" using good_put [OF g sc _ _ o', of ?h] by simp
    moreover have "bindable ?h s v"
    proof -
      have "v \<noteq> old" using v sc old(2) by (auto simp: bindable_def)
      moreover have "ran ((s_vars sc)(name := None)) \<subseteq> ran (s_vars sc)" by (auto simp: ran_def)
      ultimately show ?thesis using v sc by (auto simp: bindable_def)
    qed
    moreover have "fresh_value ?h new" using new by (simp add: fresh_value_def)
    ultimately obtain r h' where "scope_define ?h s name v new = Some (r, h')" "good h'" using define_good [of ?h s v new name] by auto
    then show ?thesis using remove sc s0 get x(3) by (simp add: scope_set_def Let_def)
  qed
qed

end
