(* ===== verification/ScopeProps.thy ===== *)
theory ScopeProps
  imports ScopeOps
begin

text \<open>
  The machines that the operations on scopes (\<open>src/vm/scope.c\<close>) lead to, lookup along the path to the
  root, and the properties of scopes.
\<close>

section \<open>Reachable machines\<close>

text \<open>The scopes from \<open>s\<close> to the root.\<close>

fun path :: "scope_heap \<Rightarrow> addr \<Rightarrow> addr list \<Rightarrow> bool" where
  "path m s [] \<longleftrightarrow> s = 0"
| "path m s (c # cs) \<longleftrightarrow> s = c \<and> c \<noteq> 0 \<and> (\<exists>sc. m c = Some sc \<and> path m (s_parent sc) cs)"

text \<open>\<open>within h s x\<close>: \<open>x\<close> is a scope of the tree below \<open>s\<close>.\<close>

definition within :: "vm \<Rightarrow> addr \<Rightarrow> addr \<Rightarrow> bool" where
  "within h s x \<longleftrightarrow> (\<exists>p T. tree_in (vm_scopes h) p T \<and> troot T = s \<and> x \<in> set (nodes T))"

text \<open>
  What the destruction of a scope needs of the deferred calls in its subtree: the closure is alive and a
  value of the scope it is deferred in or of a scope around it, so that it is still there when the call
  is made.
\<close>

definition keeps_closures :: "vm \<Rightarrow> addr \<Rightarrow> bool" where
  "keeps_closures h s \<longleftrightarrow> (\<forall>x sc f. within h s x \<and> vm_scopes h x = Some sc \<and> f \<in> set (s_defers sc) \<and> f \<noteq> 0 \<longrightarrow>
     (\<exists>v cs. vm_vals h f = Some v \<and> path (vm_scopes h) x cs \<and> (v_frame v = 0 \<or> v_frame v \<in> set cs)))"

datatype vm_op =
    New addr addr | Push addr | Pop | Enter addr | Make addr bool bool bool | Register addr addr
  | Define addr string addr addr | Set_var addr string addr addr | Destroy addr

definition live :: "vm \<Rightarrow> addr \<Rightarrow> bool" where
  "live h s \<longleftrightarrow> vm_scopes h s \<noteq> None"

text \<open>
  What the callers see to: a new object has an address of its own, scopes and values in use are alive,
  a value that is bound is not bound in the same scope already, the scope that is popped has no children
  left, and when a scope is destroyed the current scope is not below it and the closures deferred there
  are kept.
\<close>

fun allowed :: "vm \<Rightarrow> vm_op \<Rightarrow> bool" where
  "allowed h (New a p) \<longleftrightarrow> a \<noteq> 0 \<and> \<not> live h a \<and> (p = 0 \<or> live h p)"
| "allowed h (Push a) \<longleftrightarrow> a \<noteq> 0 \<and> \<not> live h a"
| "allowed h Pop \<longleftrightarrow> (\<forall>sc. vm_scopes h (vm_current h) = Some sc \<longrightarrow> s_children sc = [])"
| "allowed h (Enter s) \<longleftrightarrow> s = 0 \<or> live h s"
| "allowed h (Make v b sh er) \<longleftrightarrow> fresh_value h v"
| "allowed h (Register s f) \<longleftrightarrow> live h s"
| "allowed h (Define s k v new) \<longleftrightarrow> live h s \<and> bindable h s v \<and> fresh_value h new"
| "allowed h (Set_var s k v new) \<longleftrightarrow> live h s \<and> bindable h s v \<and> fresh_value h new"
| "allowed h (Destroy s) \<longleftrightarrow> live h s \<and> \<not> within h s (vm_current h) \<and> keeps_closures h s"

fun vm_do :: "vm \<Rightarrow> vm_op \<Rightarrow> vm option" where
  "vm_do h (New a p) = scope_new h a p"
| "vm_do h (Push a) = vm_push_scope h a"
| "vm_do h Pop = (case vm_pop_scope h 0 of Some (Inr h') \<Rightarrow> Some h' | _ \<Rightarrow> None)"
| "vm_do h (Enter s) = Some (h\<lparr>vm_current := s\<rparr>)"
| "vm_do h (Make v b sh er) = value_new h v b sh er"
| "vm_do h (Register s f) = scope_register_defer h s f"
| "vm_do h (Define s k v new) = map_option snd (scope_define h s k v new)"
| "vm_do h (Set_var s k v new) = map_option snd (scope_set h s k v new)"
| "vm_do h (Destroy s) = scope_destroy_subtree h s"

definition vm_empty :: vm where
  "vm_empty = \<lparr>vm_scopes = Map.empty, vm_vals = Map.empty, vm_current = 0, vm_trace = []\<rparr>"

inductive reachable :: "vm \<Rightarrow> bool" where
  start: "reachable vm_empty"
| step: "reachable h \<Longrightarrow> allowed h op \<Longrightarrow> vm_do h op = Some h' \<Longrightarrow> reachable h'"

inductive_cases reachable_stepE: "reachable h"

lemma good_empty: "good vm_empty"
  by (auto simp: good_def linked_def ranked_def owning_def vm_empty_def)

lemma fits_within:
  assumes "fits_in h p T" and "troot T = s" and "\<not> within h s x"
  shows "x \<notin> set (nodes T)"
  using assms by (auto simp: within_def fits_in_def)

lemma path_rank: "ranked m rank \<Longrightarrow> path m x cs \<Longrightarrow> y \<in> set cs \<Longrightarrow> rank y \<le> rank x"
proof (induction cs arbitrary: x)
  case (Cons c cs)
  obtain sc where sc: "x = c" "c \<noteq> 0" "m c = Some sc" "path m (s_parent sc) cs" using Cons.prems(2) by auto
  show ?case
  proof (cases "y = c")
    case False
    then have y: "y \<in> set cs" using Cons.prems(3) by simp
    then have "s_parent sc \<noteq> 0" using sc(4) by (cases cs) auto
    then have "rank (s_parent sc) < rank c" using Cons.prems(1) sc(3) by (simp add: ranked_def)
    then show ?thesis using Cons.IH [OF Cons.prems(1) sc(4) y] sc(1) by simp
  qed (use sc in simp)
qed simp

text \<open>A scope around one of a tree is in the tree or around the tree.\<close>

lemma path_up:
  assumes r: "ranked m rank" and t: "tree_in m p t"
  shows "path m x cs \<Longrightarrow> x \<in> set (nodes t) \<Longrightarrow> y \<in> set cs \<Longrightarrow> y \<in> set (nodes t) \<or> rank y \<le> rank p"
proof (induction cs arbitrary: x)
  case (Cons c cs)
  obtain sc where sc: "x = c" "c \<noteq> 0" "m c = Some sc" "path m (s_parent sc) cs" using Cons.prems(1) by auto
  show ?case
  proof (cases "y = c")
    case True
    then show ?thesis using Cons.prems(2) sc(1) by simp
  next
    case False
    then have y: "y \<in> set cs" using Cons.prems(3) by simp
    have "x = troot t \<or> s_parent sc \<in> set (nodes t)" using tree_node [OF t Cons.prems(2)] sc by auto
    then show ?thesis
    proof
      assume "x = troot t"
      then have "s_parent sc = p" using tree_root [OF t] sc by auto
      then show ?thesis using path_rank [OF r sc(4) y] by simp
    next
      assume "s_parent sc \<in> set (nodes t)"
      then show ?thesis using Cons.IH [OF sc(4) _ y] by blast
    qed
  qed
qed simp

lemma deferred_node: "f \<in> deferred m T \<Longrightarrow> \<exists>x \<in> set (nodes T). f \<in> set (s_defers (the (m x))) \<and> f \<noteq> 0"
  by (induction T) auto

lemma kept_lasting:
  assumes l: "linked m" and r: "ranked m rank" and o: "owning m vals"
  shows "tree_in m p T \<Longrightarrow> distinct (nodes T) \<Longrightarrow>
    (\<And>x f. x \<in> set (nodes T) \<Longrightarrow> f \<in> set (s_defers (the (m x))) \<Longrightarrow> f \<noteq> 0 \<Longrightarrow>
       \<exists>v cs. vals f = Some v \<and> path m x cs \<and> (v_frame v = 0 \<or> v_frame v \<in> set cs)) \<Longrightarrow> lasting m vals T"
proof (induction T arbitrary: p)
  case (Node s ts)
  have tr: "tree_in m s t" if "t \<in> set ts" for t using Node.prems(1) that by simp
  have s0: "s \<noteq> 0" using Node.prems(1) by simp
  have dn: "distinct (concat (map nodes ts))" using Node.prems(2) by simp
  have above: "rank s < rank x" if "t \<in> set ts" "x \<in> set (nodes t)" for t x
  proof -
    have "rank s < rank (troot t)" using tree_root [OF tr [OF that(1)]] r s0 by (auto simp: ranked_def)
    then show ?thesis using tree_rank [OF r tr [OF that(1)] that(2)] by simp
  qed
  have frame: "v_frame v \<in> set (nodes u) \<and> v_frame v \<noteq> 0" if fu: "u \<in> set ts" "f \<in> set (owned m u)" "vals f = Some v" for u f v
  proof -
    obtain x where x: "x \<in> set (nodes u)" "f \<in> set (s_owned (the (m x)))" using owned_node [OF fu(2)] by blast
    obtain xc where xc: "m x = Some xc" "x \<noteq> 0" using tree_node [OF tr [OF fu(1)] x(1)] by blast
    then have "v_frame v = x" using owningD(2) [OF o xc(1), of f] x(2) fu(3) by auto
    then show ?thesis using x(1) xc(2) by simp
  qed
  have here: "vals f \<noteq> None \<and> (\<forall>t \<in> set ts. f \<notin> set (owned m t))" if f: "f \<in> set (s_defers (the (m s)))" "f \<noteq> 0" for f
  proof -
    obtain v cs where v: "vals f = Some v" "path m s cs" "v_frame v = 0 \<or> v_frame v \<in> set cs"
      using Node.prems(3) [of s f] f by auto
    have "f \<notin> set (owned m t)" if t: "t \<in> set ts" for t
    proof
      assume "f \<in> set (owned m t)"
      then have "v_frame v \<in> set (nodes t)" "v_frame v \<noteq> 0" using frame [OF t _ v(1)] by simp_all
      then show False using above [OF t] path_rank [OF r v(2), of "v_frame v"] v(3) by fastforce
    qed
    then show ?thesis using v(1) by simp
  qed
  have apart: "deferred m t \<inter> set (owned m u) = {}" if tu: "t \<in> set ts" "u \<in> set ts" "t \<noteq> u" for t u
  proof (rule ccontr)
    assume "deferred m t \<inter> set (owned m u) \<noteq> {}"
    then obtain f where f: "f \<in> deferred m t" "f \<in> set (owned m u)" by blast
    obtain x where x: "x \<in> set (nodes t)" "f \<in> set (s_defers (the (m x)))" "f \<noteq> 0" using deferred_node [OF f(1)] by blast
    obtain v cs where v: "vals f = Some v" "path m x cs" "v_frame v = 0 \<or> v_frame v \<in> set cs"
      using Node.prems(3) [of x f] x tu(1) by auto
    have y: "v_frame v \<in> set (nodes u)" "v_frame v \<noteq> 0" using frame [OF tu(2) f(2) v(1)] by simp_all
    then have "v_frame v \<in> set (nodes t) \<or> rank (v_frame v) \<le> rank s"
      using path_up [OF r tr [OF tu(1)] v(2) x(1), of "v_frame v"] v(3) by simp
    moreover have "rank s < rank (v_frame v)" using above [OF tu(2) y(1)] .
    moreover have "v_frame v \<notin> set (nodes t)" using concat_map_apart [OF dn tu] y(1) by blast
    ultimately show False by simp
  qed
  have "lasting m vals t" if t: "t \<in> set ts" for t
  proof (rule Node.IH [OF t tr [OF t] concat_map_distinct [OF dn t]])
    fix x f assume x: "x \<in> set (nodes t)" "f \<in> set (s_defers (the (m x)))" "f \<noteq> 0"
    then have "x \<in> set (nodes (Node s ts))" using t by auto
    from Node.prems(3) [OF this x(2,3)]
    show "\<exists>v cs. vals f = Some v \<and> path m x cs \<and> (v_frame v = 0 \<or> v_frame v \<in> set cs)" .
  qed
  then show ?case using here apart by auto
qed

lemma pop_good:
  assumes g: "good h" and leaf: "allowed h Pop"
  shows "\<exists>h'. vm_do h Pop = Some h' \<and> good h'"
proof (cases "vm_current h = 0")
  case True
  then show ?thesis using g by (simp add: vm_pop_scope_def)
next
  case False
  let ?s = "vm_current h"
  obtain sc where sc: "vm_scopes h ?s = Some sc" using goodD(3) [OF g False] by auto
  have kids: "s_children sc = []" using leaf sc by simp
  obtain T where T: "troot T = ?s" "fits_in h (s_parent sc) T" using good_fits [OF g sc] by blast
  then have "T = Node ?s []" using sc kids by (cases T) (auto simp: fits_in_def)
  then have fit: "fits_in h (s_parent sc) (Node ?s [])" using T(2) by simp
  note run = scope_destroy_leaf [OF fit]
  have p: "s_parent sc = 0 \<or> vm_scopes h (s_parent sc) \<noteq> None" using linkedD(4) [OF goodD(1) [OF g] sc] by auto
  have notin: "s_parent sc \<noteq> ?s" using fit by (simp add: fits_in_def)
  let ?h' = "h\<lparr>vm_scopes := scopes_without (vm_scopes h) (s_parent sc) (Node ?s []), vm_vals := vm_vals h |` (- set (owned (vm_scopes h) (Node ?s []))),
    vm_trace := vm_trace h @ map (release (vm_vals h)) (s_owned (the (vm_scopes h ?s))) @ [Released_scope ?s], vm_current := s_parent sc\<rparr>"
  have g0: "good (h\<lparr>vm_current := s_parent sc\<rparr>)" using good_current [OF g p] .
  have "good ?h'"
    by (rule destroyed_good [OF g0, of "s_parent sc" "Node ?s []"]) (use fit notin in \<open>simp_all add: fits_in_def\<close>)
  moreover have "vm_do h Pop = Some ?h'" using False sc run by (simp add: vm_pop_scope_def)
  ultimately show ?thesis by blast
qed

lemma register_good:
  assumes g: "good h" and s: "live h s"
  shows "\<exists>h'. scope_register_defer h s f = Some h' \<and> good h'"
proof -
  obtain sc where sc: "vm_scopes h s = Some sc" using s by (auto simp: live_def)
  let ?sc = "sc\<lparr>s_defers := s_defers sc @ [f]\<rparr>"
  note o = goodD(2) [OF g]
  note ow = owningD [OF o sc]
  have "owning ((vm_scopes h)(s \<mapsto> ?sc)) (vm_vals h)"
  proof (rule owning_put [OF o sc refl])
    fix v x assume "vm_vals h v = Some x" "v_frame x \<noteq> 0"
    then show "if v_frame x = s then v \<in> set (s_owned ?sc) else vm_vals h v = Some x" using owning_frame [OF o] sc by fastforce
  qed (use ow in auto)
  then have "good (put_scope h s ?sc)" using good_put [OF g sc, where sc' = ?sc and h' = "put_scope h s ?sc"] by (simp add: put_scope_def)
  then show ?thesis using g sc by (simp add: scope_register_defer_def)
qed

lemma destroy_good:
  assumes g: "good h" and s: "vm_scopes h s = Some sc" and cur: "\<not> within h s (vm_current h)"
    and keep: "keeps_closures h s"
  shows "\<exists>T. troot T = s \<and> fits_in h (s_parent sc) T \<and> scope_destroy_subtree h s = Some (destroyed h (s_parent sc) T) \<and>
    good (destroyed h (s_parent sc) T)"
proof -
  obtain T where T: "troot T = s" "fits_in h (s_parent sc) T" using good_fits [OF g s] by blast
  have "good (destroyed h (s_parent sc) T)"
    by (rule destroyed_good [OF g T(2)]) (use fits_within [OF T(2,1) cur] in \<open>simp_all add: destroyed_def\<close>)
  moreover have "lasting (vm_scopes h) (vm_vals h) T"
  proof -
    obtain rank where r: "linked (vm_scopes h)" "ranked (vm_scopes h) rank" "owning (vm_scopes h) (vm_vals h)"
      using g by (auto simp: good_def)
    have tree: "tree_in (vm_scopes h) (s_parent sc) T" "distinct (nodes T)" using T(2) by (simp_all add: fits_in_def)
    show ?thesis
    proof (rule kept_lasting [OF r tree])
      fix x f assume x: "x \<in> set (nodes T)" "f \<in> set (s_defers (the (vm_scopes h x)))" "f \<noteq> 0"
      obtain xc where "vm_scopes h x = Some xc" using tree_node [OF tree(1) x(1)] by blast
      moreover have "within h s x" using x(1) tree(1) T(1) unfolding within_def by blast
      ultimately show "\<exists>v cs. vm_vals h f = Some v \<and> path (vm_scopes h) x cs \<and> (v_frame v = 0 \<or> v_frame v \<in> set cs)"
        using keep x(2,3) unfolding keeps_closures_def by fastforce
    qed
  qed
  ultimately show ?thesis using T destroy_tree [OF T(2)] by blast
qed

lemma op_good:
  assumes g: "good h" and a: "allowed h op"
  shows "\<exists>h'. vm_do h op = Some h' \<and> good h'"
proof (cases op)
  case (New a p)
  then show ?thesis using scope_new_good [OF g] a by (auto simp: live_def)
next
  case (Push b)
  have "vm_current h = 0 \<or> vm_scopes h (vm_current h) \<noteq> None" using goodD(3) [OF g] by blast
  then obtain h' where "scope_new h b (vm_current h) = Some h'" "good h'" "vm_scopes h' b \<noteq> None"
    using scope_new_good [OF g, of b "vm_current h"] a Push by (auto simp: live_def)
  then show ?thesis using Push good_current [of h' b] by (simp add: vm_push_scope_def)
next
  case Pop
  then show ?thesis using pop_good [OF g] a by simp
next
  case (Enter s)
  then show ?thesis using good_current [OF g, of s] a by (simp add: live_def)
next
  case (Make v b sh er)
  then show ?thesis using value_new_good [OF g, of v b sh er] a by auto
next
  case (Register s f)
  then show ?thesis using register_good [OF g] a by simp
next
  case (Define s k v new)
  then show ?thesis using define_good [OF g, of s v new k] a by (auto simp: live_def)
next
  case (Set_var s k v new)
  then show ?thesis using set_good [OF g, of s v new k] a by (auto simp: live_def)
next
  case (Destroy s)
  then show ?thesis using destroy_good [OF g] a by (fastforce simp: live_def)
qed

lemma reachable_good: "reachable h \<Longrightarrow> good h"
proof (induction rule: reachable.induct)
  case (step h op h')
  then show ?case using op_good [of h op] by auto
qed (rule good_empty)

section \<open>Lookup\<close>

lemma path_exists:
  assumes l: "linked m" and r: "ranked m rank"
  shows "m s = Some sc \<Longrightarrow> \<exists>cs. path m s cs"
proof (induction "rank s" arbitrary: s sc rule: less_induct)
  case less
  have "\<exists>cs. path m (s_parent sc) cs"
  proof (cases "s_parent sc = 0")
    case True
    then show ?thesis using path.simps(1) by metis
  next
    case False
    then obtain pc where "m (s_parent sc) = Some pc" using linkedD(4) [OF l less.prems] by blast
    moreover have "rank (s_parent sc) < rank s" using r less.prems False by (simp add: ranked_def)
    ultimately show ?thesis using less.hyps by blast
  qed
  then show ?case using less.prems linkedD(1) [OF l less.prems] path.simps(2) by metis
qed

definition visible :: "scope_heap \<Rightarrow> addr list \<Rightarrow> string \<Rightarrow> addr" where
  "visible m cs name = (case List.find (\<lambda>c. var_get (s_vars (the (m c))) name \<noteq> 0) cs of
     None \<Rightarrow> 0 | Some c \<Rightarrow> var_get (s_vars (the (m c))) name)"

lemma lookup_path:
  "path (vm_scopes h) s cs \<Longrightarrow>
     scope_lookup h s name = Some (if length name < 256 then visible (vm_scopes h) cs name else 0)"
proof (induction cs arbitrary: s)
  case Nil
  then show ?case by (subst scope_lookup.simps) (simp add: visible_def)
next
  case (Cons c cs)
  then obtain sc where "s = c" "c \<noteq> 0" "vm_scopes h c = Some sc" "path (vm_scopes h) (s_parent sc) cs" by auto
  then show ?case using Cons.IH [of "s_parent sc"] by (subst scope_lookup.simps) (simp add: visible_def)
qed

lemma path_cong: "\<forall>x. map_option s_parent (m' x) = map_option s_parent (m x) \<Longrightarrow> path m s cs = path m' s cs"
proof (induction cs arbitrary: s)
  case (Cons c cs)
  have "map_option s_parent (m' c) = map_option s_parent (m c)" using Cons.prems by blast
  then show ?case using Cons.IH [OF Cons.prems] by (cases "m c"; cases "m' c") auto
qed simp

lemma path_live: "path m s cs \<Longrightarrow> c \<in> set cs \<Longrightarrow> \<exists>sc. m c = Some sc"
  by (induction cs arbitrary: s) auto

lemma visible_cong:
  assumes "\<And>c. c \<in> set cs \<Longrightarrow> var_get (s_vars (the (m' c))) k = var_get (s_vars (the (m c))) k"
  shows "visible m' cs k = visible m cs k"
  using assms by (induction cs) (simp_all add: visible_def)

lemma lookup_cong:
  assumes p: "path (vm_scopes h) q cs" and par: "\<forall>x. map_option s_parent (vm_scopes h' x) = map_option s_parent (vm_scopes h x)"
    and vars: "\<And>c sc sc'. vm_scopes h c = Some sc \<Longrightarrow> vm_scopes h' c = Some sc' \<Longrightarrow> s_vars sc' k = s_vars sc k"
  shows "scope_lookup h' q k = scope_lookup h q k"
proof -
  have "var_get (s_vars (the (vm_scopes h' c))) k = var_get (s_vars (the (vm_scopes h c))) k" if "c \<in> set cs" for c
  proof -
    obtain sc where sc: "vm_scopes h c = Some sc" using path_live [OF p \<open>c \<in> set cs\<close>] by blast
    have "map_option s_parent (vm_scopes h' c) = map_option s_parent (vm_scopes h c)" using par by blast
    then obtain sc' where "vm_scopes h' c = Some sc'" using sc by (cases "vm_scopes h' c") auto
    then show ?thesis using vars [OF sc] sc by (simp add: var_get_def)
  qed
  then have "visible (vm_scopes h') cs k = visible (vm_scopes h) cs k" by (rule visible_cong)
  moreover have p': "path (vm_scopes h') q cs" using path_cong [OF par, of q cs] p by simp
  ultimately show ?thesis using lookup_path [OF p, of k] lookup_path [OF p', of k] by simp
qed

lemma farewell_calls:
  "x \<in> set (nodes T) \<Longrightarrow> f \<in> set (s_defers (the (m x))) \<Longrightarrow> f \<noteq> 0 \<Longrightarrow> Called f \<in> set (farewell m vals T)"
  by (induction T) auto

section \<open>Properties\<close>

text \<open>
  C33 (liveness, safety). In a machine that comes from the empty one by any operations whose arguments are
  in order (\<open>allowed\<close>), every further such operation returns and uses no released scope or value. The
  destruction of a subtree whose deferred closures are alive and belong to the scope they are deferred
  in, or to one around it, comes to its end: the scopes of the subtree are released and no others, each
  of their values is released, once, and every deferred call registered in the subtree is made, inner
  scopes first and within a scope the last one first. A deferred closure that is not there any more is
  no call that is left out: the destruction of its scope reads it, and has no result.
\<close>

theorem scopes_are_destroyed:
  assumes "reachable h"
  shows "(\<forall>op. allowed h op \<longrightarrow> (\<exists>h'. vm_do h op = Some h' \<and> reachable h')) \<and>
    (\<forall>s sc. vm_scopes h s = Some sc \<and> \<not> within h s (vm_current h) \<and> keeps_closures h s \<longrightarrow>
       (\<exists>T h'. troot T = s \<and> tree_in (vm_scopes h) (s_parent sc) T \<and> distinct (nodes T) \<and> distinct (owned (vm_scopes h) T) \<and>
          scope_destroy_subtree h s = Some h' \<and>
          (\<forall>x. live h' x \<longleftrightarrow> live h x \<and> x \<notin> set (nodes T)) \<and>
          (\<forall>v. vm_vals h' v = (if v \<in> set (owned (vm_scopes h) T) then None else vm_vals h v)) \<and>
          vm_trace h' = vm_trace h @ farewell (vm_scopes h) (vm_vals h) T \<and>
          (\<forall>x \<in> set (nodes T). \<forall>f \<in> set (s_defers (the (vm_scopes h x))). f \<noteq> 0 \<longrightarrow> Called f \<in> set (vm_trace h')))) \<and>
    (\<forall>s sc f. vm_scopes h s = Some sc \<and> s_children sc = [] \<and> f \<in> set (s_defers sc) \<and> f \<noteq> 0 \<and> vm_vals h f = None \<longrightarrow>
       scope_destroy_subtree h s = None)"
proof (intro conjI allI impI)
  fix op assume "allowed h op"
  then show "\<exists>h'. vm_do h op = Some h' \<and> reachable h'" using op_good reachable_good assms step by blast
next
  fix s sc f assume s: "vm_scopes h s = Some sc \<and> s_children sc = [] \<and> f \<in> set (s_defers sc) \<and> f \<noteq> 0 \<and> vm_vals h f = None"
  moreover from s have "s \<noteq> 0" using linkedD(1) [OF goodD(1) [OF reachable_good [OF assms]]] by blast
  ultimately show "scope_destroy_subtree h s = None"
    using call_defers_dangling [of f "s_defers sc" h] by (subst scope_destroy_subtree.simps) simp
next
  fix s sc assume s: "vm_scopes h s = Some sc \<and> \<not> within h s (vm_current h) \<and> keeps_closures h s"
  have g: "good h" by (rule reachable_good [OF assms])
  obtain T where T: "troot T = s" "fits_in h (s_parent sc) T" "scope_destroy_subtree h s = Some (destroyed h (s_parent sc) T)"
    using destroy_good [OF g] s by blast
  let ?h = "destroyed h (s_parent sc) T"
  have fit: "tree_in (vm_scopes h) (s_parent sc) T" "distinct (nodes T)" "distinct (owned (vm_scopes h) T)" using T(2) by (simp_all add: fits_in_def)
  have "live ?h x \<longleftrightarrow> live h x \<and> x \<notin> set (nodes T)" for x
    by (auto simp: live_def destroyed_def scopes_without_def without_child_def)
  moreover have "vm_vals ?h v = (if v \<in> set (owned (vm_scopes h) T) then None else vm_vals h v)" for v
    by (simp add: destroyed_def restrict_map_def)
  moreover have "vm_trace ?h = vm_trace h @ farewell (vm_scopes h) (vm_vals h) T" by (simp add: destroyed_def)
  moreover have "\<forall>x \<in> set (nodes T). \<forall>f \<in> set (s_defers (the (vm_scopes h x))). f \<noteq> 0 \<longrightarrow> Called f \<in> set (vm_trace ?h)"
    using farewell_calls by (auto simp: destroyed_def)
  ultimately show "\<exists>T h'. troot T = s \<and> tree_in (vm_scopes h) (s_parent sc) T \<and> distinct (nodes T) \<and> distinct (owned (vm_scopes h) T) \<and>
          scope_destroy_subtree h s = Some h' \<and>
          (\<forall>x. live h' x \<longleftrightarrow> live h x \<and> x \<notin> set (nodes T)) \<and>
          (\<forall>v. vm_vals h' v = (if v \<in> set (owned (vm_scopes h) T) then None else vm_vals h v)) \<and>
          vm_trace h' = vm_trace h @ farewell (vm_scopes h) (vm_vals h) T \<and>
          (\<forall>x \<in> set (nodes T). \<forall>f \<in> set (s_defers (the (vm_scopes h x))). f \<noteq> 0 \<longrightarrow> Called f \<in> set (vm_trace h'))"
    using T(1,3) fit by blast
qed

text \<open>Two nested scopes with deferred calls of values of theirs, and a value more in the inner one.\<close>

abbreviation a_value :: "addr \<Rightarrow> vm_val" where
  "a_value s \<equiv> \<lparr>v_frame = s, v_borrowed = False, v_is_shadow = False, v_typed = True, v_error = False\<rparr>"

abbreviation a_scope :: "addr \<Rightarrow> addr list \<Rightarrow> addr list \<Rightarrow> addr list \<Rightarrow> scope" where
  "a_scope p vs cs fs \<equiv> \<lparr>s_parent = p, s_vars = Map.empty, s_owned = vs, s_children = cs, s_defers = fs\<rparr>"

definition two_scopes :: vm where
  "two_scopes = \<lparr>vm_scopes = [1 \<mapsto> a_scope 0 [7] [2] [7], 2 \<mapsto> a_scope 1 [5, 8] [] [8, 7]],
   vm_vals = [7 \<mapsto> a_value 1, 5 \<mapsto> a_value 2, 8 \<mapsto> a_value 2], vm_current = 0, vm_trace = []\<rparr>"

lemma two_scopes_reachable: "reachable two_scopes"
proof -
  let ?h1 = "\<lparr>vm_scopes = [1 \<mapsto> a_scope 0 [7] [] []], vm_vals = [7 \<mapsto> a_value 1], vm_current = 1, vm_trace = []\<rparr>"
  let ?h2 = "\<lparr>vm_scopes = [1 \<mapsto> a_scope 0 [7] [2] [], 2 \<mapsto> a_scope 1 [5] [] []],
    vm_vals = [7 \<mapsto> a_value 1, 5 \<mapsto> a_value 2], vm_current = 2, vm_trace = []\<rparr>"
  let ?h3 = "\<lparr>vm_scopes = [1 \<mapsto> a_scope 0 [7] [2] [], 2 \<mapsto> a_scope 1 [5, 8] [] []],
    vm_vals = [7 \<mapsto> a_value 1, 5 \<mapsto> a_value 2, 8 \<mapsto> a_value 2], vm_current = 2, vm_trace = []\<rparr>"
  have "reachable \<lparr>vm_scopes = [1 \<mapsto> a_scope 0 [] [] []], vm_vals = Map.empty, vm_current = 1, vm_trace = []\<rparr>"
    by (rule step [OF start, of "Push 1"]) (simp_all add: vm_empty_def live_def vm_push_scope_def scope_new_def put_scope_def)
  then have "reachable ?h1"
    by (rule step [of _ "Make 7 False False False"]) (simp_all add: fresh_value_def value_new_def scope_track_def put_scope_def)
  then have "reachable \<lparr>vm_scopes = [1 \<mapsto> a_scope 0 [7] [2] [], 2 \<mapsto> a_scope 1 [] [] []],
    vm_vals = [7 \<mapsto> a_value 1], vm_current = 2, vm_trace = []\<rparr>"
    by (rule step [of _ "Push 2"]) (simp_all add: live_def vm_push_scope_def scope_new_def put_scope_def fun_upd_twist)
  then have "reachable ?h2"
    by (rule step [of _ "Make 5 False False False"])
      (simp_all add: fresh_value_def value_new_def scope_track_def put_scope_def fun_upd_twist)
  then have "reachable ?h3"
    by (rule step [of _ "Make 8 False False False"])
      (simp_all add: fresh_value_def value_new_def scope_track_def put_scope_def fun_upd_twist)
  then have "reachable (?h3\<lparr>vm_current := 0\<rparr>)" by (rule step [of _ "Enter 0"]) simp_all
  then have "reachable (the (vm_do (?h3\<lparr>vm_current := 0\<rparr>) (Register 1 7)))"
    by (rule step [of _ "Register 1 7"]) (simp_all add: live_def scope_register_defer_def)
  then have "reachable (the (vm_do (the (vm_do (?h3\<lparr>vm_current := 0\<rparr>) (Register 1 7))) (Register 2 8)))"
    by (rule step [of _ "Register 2 8"]) (simp_all add: live_def scope_register_defer_def put_scope_def)
  then have "reachable (the (vm_do (the (vm_do (the (vm_do (?h3\<lparr>vm_current := 0\<rparr>) (Register 1 7))) (Register 2 8))) (Register 2 7)))"
    by (rule step [of _ "Register 2 7"]) (simp_all add: live_def scope_register_defer_def put_scope_def)
  then show ?thesis by (simp add: two_scopes_def scope_register_defer_def put_scope_def fun_upd_twist)
qed

lemma two_scopes_tree:
  assumes "troot T = 1" and "tree_in (vm_scopes two_scopes) p T"
  shows "T = Node 1 [Node 2 []]"
proof -
  obtain ts where ts: "T = Node 1 ts" "map troot ts = [2]" "\<forall>t \<in> set ts. tree_in (vm_scopes two_scopes) 1 t"
    using assms by (cases T) (auto simp: two_scopes_def)
  then obtain t where t: "ts = [t]" "troot t = 2" "tree_in (vm_scopes two_scopes) 1 t" by (cases ts) auto
  have "t = Node 2 []" using t(2,3) by (cases t) (auto simp: two_scopes_def)
  then show ?thesis using ts(1) t(1) by simp
qed

lemma two_scopes_kept: "\<not> within two_scopes 1 0" "keeps_closures two_scopes 1"
proof -
  have w: "within two_scopes 1 x \<Longrightarrow> x = 1 \<or> x = 2" for x
    using two_scopes_tree by (fastforce simp: within_def)
  then show "\<not> within two_scopes 1 0" by fastforce
  have p1: "path (vm_scopes two_scopes) 1 [1]" and p2: "path (vm_scopes two_scopes) 2 [2, 1]" by (simp_all add: two_scopes_def)
  have "\<exists>v cs. vm_vals two_scopes f = Some v \<and> path (vm_scopes two_scopes) x cs \<and> (v_frame v = 0 \<or> v_frame v \<in> set cs)"
    if xf: "within two_scopes 1 x" "vm_scopes two_scopes x = Some sc" "f \<in> set (s_defers sc)" for x sc f
  proof (cases "x = 1")
    case True
    then have "f = 7" using xf(2,3) by (auto simp: two_scopes_def)
    then show ?thesis using p1 True by (intro exI [of _ "a_value 1"] exI [of _ "[1]"]) (simp add: two_scopes_def)
  next
    case False
    then have x: "x = 2" using w xf(1) by blast
    then have "f = 8 \<or> f = 7" using xf(2,3) by (auto simp: two_scopes_def)
    then show ?thesis using p2 x by (intro exI [of _ "a_value (if f = 7 then 1 else 2)"] exI [of _ "[2, 1]"]) (auto simp: two_scopes_def)
  qed
  then show "keeps_closures two_scopes 1" unfolding keeps_closures_def by blast
qed

theorem scopes_are_destroyed_witness:
  "\<exists>h'. scope_destroy_subtree two_scopes 1 = Some h' \<and> \<not> live h' 1 \<and> \<not> live h' 2 \<and> vm_vals h' 5 = None \<and>
     vm_trace h' = [Called 7, Called 8, Released_value 5 True, Released_value 8 True, Released_scope 2,
       Called 7, Released_value 7 True, Released_scope 1]"
proof -
  let ?h = two_scopes
  have sc: "vm_scopes ?h 1 = Some (a_scope 0 [7] [2] [7])" by (simp add: two_scopes_def)
  have cur: "\<not> within ?h 1 (vm_current ?h)" using two_scopes_kept(1) by (simp add: two_scopes_def)
  note all = scopes_are_destroyed [OF two_scopes_reachable, THEN conjunct2, THEN conjunct1, rule_format,
      of 1, OF conjI [OF sc conjI [OF cur two_scopes_kept(2)]]]
  then obtain T h' where T: "troot T = 1" "tree_in (vm_scopes ?h) 0 T"
    "scope_destroy_subtree ?h 1 = Some h'" "\<forall>x. live h' x \<longleftrightarrow> live ?h x \<and> x \<notin> set (nodes T)"
    "\<forall>v. vm_vals h' v = (if v \<in> set (owned (vm_scopes ?h) T) then None else vm_vals ?h v)"
    "vm_trace h' = vm_trace ?h @ farewell (vm_scopes ?h) (vm_vals ?h) T" by (elim exE conjE) simp
  have "T = Node 1 [Node 2 []]" using two_scopes_tree [OF T(1,2)] .
  then show ?thesis using T(3-6) by (simp add: two_scopes_def release_def)
qed

text \<open>
  C34 (functional). A definition in a scope of a reachable machine: a name that is free there gets the
  value itself when it belongs to the scope and is no borrowed view, a new copy otherwise, which is a
  value of the scope, no view, and of the error type or a shadow exactly when the value defined is; looked
  up from the scope it is found, unless it has 256 bytes or more, which no lookup ever finds; every other
  name is found as before from every scope. A name that is taken gives a new error value, which belongs
  to the current scope, and changes no lookup and no other value.
\<close>

theorem scope_define_lookup:
  assumes reach: "reachable h" and s: "vm_scopes h s = Some sc" and v: "bindable h s v" and new: "fresh_value h new"
  shows "\<exists>r h'. scope_define h s name v new = Some (r, h') \<and> reachable h' \<and>
    (\<forall>q k. live h q \<and> (k \<noteq> name \<or> s_vars sc name \<noteq> None) \<longrightarrow> scope_lookup h' q k = scope_lookup h q k) \<and>
    (if s_vars sc name = None
     then r = (if adopts h s v then v else new) \<and> scope_lookup h' s name = Some (if length name < 256 then r else 0) \<and>
       (\<exists>x y. vm_vals h v = Some x \<and> vm_vals h' r = Some y \<and> v_error y = v_error x \<and> v_is_shadow y = v_is_shadow x \<and>
          v_frame y = s \<and> \<not> value_is_borrowed y)
     else r = new \<and> vm_vals h' = (vm_vals h)(new \<mapsto>
       \<lparr>v_frame = vm_current h, v_borrowed = False, v_is_shadow = False, v_typed = True, v_error = True\<rparr>))"
proof -
  have g: "good h" by (rule reachable_good [OF reach])
  obtain rank where r: "ranked (vm_scopes h) rank" and l: "linked (vm_scopes h)" using g by (auto simp: good_def)
  have paths: "\<exists>cs. path (vm_scopes h) q cs" if "live h q" for q
    using path_exists [OF l r] that by (auto simp: live_def)
  have al: "allowed h (Define s name v new)" using s v new by (simp add: live_def)
  show ?thesis
  proof (cases "s_vars sc name")
    case None
    let ?r = "if adopts h s v then v else new"
    obtain h' sc' where h': "scope_define h s name v new = Some (?r, h')" "vm_scopes h' = (vm_scopes h)(s \<mapsto> sc')"
      "s_parent sc' = s_parent sc" "s_vars sc' = (s_vars sc)(name \<mapsto> ?r)"
      and vals: "\<exists>x. vm_vals h v = Some x \<and> vm_vals h' = (if adopts h s v then vm_vals h else (vm_vals h)(new \<mapsto>
        \<lparr>v_frame = s, v_borrowed = False, v_is_shadow = v_is_shadow x, v_typed = True, v_error = v_error x\<rparr>))"
      using define_run [OF g s v new None] by blast
    have kind: "\<exists>x y. vm_vals h v = Some x \<and> vm_vals h' ?r = Some y \<and> v_error y = v_error x \<and> v_is_shadow y = v_is_shadow x \<and>
        v_frame y = s \<and> \<not> value_is_borrowed y"
      using vals by (cases "adopts h s v") (auto simp: adopts_def value_is_borrowed_def)
    have reach': "reachable h'" using step [OF reach al] h'(1) by simp
    have par: "\<forall>x. map_option s_parent (vm_scopes h' x) = map_option s_parent (vm_scopes h x)" using h'(2,3) s by simp
    have others: "scope_lookup h' q k = scope_lookup h q k" if q: "live h q" "k \<noteq> name" for q k
    proof -
      obtain cs where cs: "path (vm_scopes h) q cs" using paths q(1) by blast
      show ?thesis by (rule lookup_cong [OF cs par]) (use q(2) h' s in \<open>auto split: if_splits\<close>)
    qed
    have "scope_lookup h' s name = Some (if length name < 256 then ?r else 0)"
    proof -
      obtain cs where cs: "path (vm_scopes h) s cs" using paths s by (auto simp: live_def)
      have s0: "s \<noteq> 0" using linkedD(1) [OF l s] .
      obtain cs' where cs': "cs = s # cs'" using cs s0 by (cases cs) auto
      have "?r \<noteq> 0" using v new by (simp add: bindable_def fresh_value_def)
      then have "visible (vm_scopes h') cs name = ?r" using h'(2,4) by (simp add: visible_def cs' var_get_def)
      moreover have "path (vm_scopes h') s cs" using path_cong [OF par, of s cs] cs by simp
      ultimately show ?thesis using lookup_path [of h' s cs name] by simp
    qed
    then show ?thesis using h'(1) reach' others None kind
      by (intro exI [of _ ?r] exI [of _ h'] conjI) (simp_all only: if_True simp_thms refl, blast)
  next
    case (Some old)
    then have "var_get (s_vars sc) name \<noteq> 0" using var_get_good [OF g s] by simp
    moreover obtain h' where h': "value_new h new False False True = Some h'"
      "\<forall>s. map_option s_vars (vm_scopes h' s) = map_option s_vars (vm_scopes h s) \<and>
         map_option s_parent (vm_scopes h' s) = map_option s_parent (vm_scopes h s)"
      "vm_vals h' = (vm_vals h)(new \<mapsto> \<lparr>v_frame = vm_current h, v_borrowed = False, v_is_shadow = False, v_typed = True, v_error = True\<rparr>)"
      using value_new_good [OF g new] by blast
    ultimately have def: "scope_define h s name v new = Some (new, h')"
      using s linkedD(1) [OF l s] by (simp add: scope_define_def make_error_value_def)
    have "scope_lookup h' q k = scope_lookup h q k" if "live h q" for q k
    proof -
      obtain cs where cs: "path (vm_scopes h) q cs" using paths \<open>live h q\<close> by blast
      have vars: "s_vars sc' k = s_vars sc k" if "vm_scopes h c = Some sc" "vm_scopes h' c = Some sc'" for c sc sc'
        using h'(2) [rule_format, of c] that by simp
      show ?thesis by (rule lookup_cong [OF cs _ vars]) (use h'(2) in blast)+
    qed
    then show ?thesis using def Some step [OF reach al] h'(3) by simp
  qed
qed

theorem scope_define_lookup_witness:
  "\<exists>h'. scope_define two_scopes 2 ''x'' 5 6 = Some (5, h') \<and> scope_lookup h' 2 ''x'' = Some 5"
proof -
  have "bindable two_scopes 2 5" "fresh_value two_scopes 6" "adopts two_scopes 2 5"
    by (simp_all add: bindable_def fresh_value_def adopts_def two_scopes_def value_is_borrowed_def)
  then show ?thesis
    using scope_define_lookup [OF two_scopes_reachable, of 2 _ 5 6 "''x''"] by (auto simp: two_scopes_def)
qed

end
