(* ===== verification/Ast.thy ===== *)
theory Ast
  imports Literals
begin

text \<open>
  The syntax tree of the parser (\<open>src/include/parser/ast_*.h\<close>). A node has the range of tokens it
  comes from, the mark of an export, and its kind with the fields that the parser sets; a chain of
  siblings is a list, an operator token is its text, an absent child is \<open>None\<close>. The members that
  later passes fill in are left out.
\<close>

datatype 'n ast_func_def = Func_def
  (fd_name: strslice) (fd_captures: "'n list") (fd_params: "'n list") (fd_return: "'n option")
  (fd_body: "'n option") (fd_comptime: bool) (fd_cfunc: bool) (fd_extern: bool) (fd_variadic: bool)
  (fd_lib: strslice) (fd_decorators: "'n list") (fd_generic: "'n list")

datatype 'n ast_var_def = Var_def
  (vd_name: strslice) (vd_type: "'n option") (vd_init: "'n option") (vd_comptime: bool)
  (vd_extern: bool) (vd_lib: strslice) (vd_decorators: "'n list") (vd_using: bool)

datatype ast_bitfield_field = Bitfield_field (bf_name: strslice) (bf_offset: "32 word") (bf_width: "32 word")

datatype 'n ast_bitfield = Bitfield (bit_underlying: 'n) (bit_word_bits: "32 word")
  (bit_total_bits: "32 word") (bit_word_count: "32 word") (bit_fields: "ast_bitfield_field list")

datatype 'n ast_struct_def = Struct_def
  (sd_name: strslice) (sd_fields: "'n list") (sd_members: "'n list") (sd_embeds: "'n list")
  (sd_generic: "'n list") (sd_implements: "'n list") (sd_bitfield: "'n ast_bitfield option")
  (sd_decorators: "'n list")

datatype 'n op_kind =
    AST_ASSIGN 'n strslice 'n
  | AST_BINARY strslice 'n 'n
  | AST_UNARY strslice 'n
  | AST_TERNARY 'n 'n 'n
  | AST_CALL 'n "'n list"
  | AST_MEMBER 'n strslice
  | AST_INDEX 'n "'n list"
  | AST_SLICE 'n "'n option" "'n option"
  | AST_UNWRAP 'n strslice
  | AST_ADDR 'n
  | AST_DEREF 'n
  | AST_SCOPE_REF 'n strslice
  | AST_SPREAD 'n
  | AST_MAKE 'n 'n
  | AST_SIZEOF 'n
  | AST_ALIGNOF 'n
  | AST_TYPEOF 'n

datatype 'n atom_kind =
    AST_IDENT strslice
  | AST_INT_LIT "64 word" strslice
  | AST_FLOAT_LIT string strslice
  | AST_BOOL_LIT bool
  | AST_STRING_LIT strslice bool
  | AST_CHAR_LIT "32 word"
  | AST_UNDEF
  | AST_NIL
  | AST_CONSTRUCT "'n option" "'n list"
  | AST_CONSTRUCT_FIELD strslice 'n
  | AST_FILL 'n 'n

datatype 'n type_kind =
    AST_CONST 'n
  | AST_VOLATILE 'n
  | AST_OPTION 'n
  | AST_ARRAY 'n 'n
  | AST_TUPLE "'n list"
  | AST_SLICE_TYPE 'n
  | AST_PTR 'n
  | AST_FUNC_TYPE "'n list" 'n "'n list" bool
  | AST_PACK_TYPE strslice

datatype 'n pat_kind =
    AST_PAT_WILD
  | AST_PAT_OR 'n 'n
  | AST_PAT_AND 'n 'n
  | AST_PAT_PTR bool 'n
  | AST_PAT_SLICE 'n
  | AST_PAT_ARRAY "'n option" 'n
  | AST_PAT_TUPLE "'n list" bool
  | AST_PAT_NAME strslice strslice "'n list"
  | AST_PAT_FUNC "'n list" 'n
  | AST_PAT_QUAL bool 'n

datatype 'n stmt_kind =
    AST_IF 'n 'n "'n option"
  | AST_COMPTIME_IF 'n 'n "'n option"
  | AST_STATIC_ASSERT 'n 'n
  | AST_FOREACH strslice nat "'n option" 'n 'n bool bool
  | AST_SWITCH 'n "'n list" "'n option"
  | AST_SWITCH_CASE "'n list" 'n
  | AST_WHILE 'n 'n
  | AST_DOWHILE 'n 'n
  | AST_FOR "'n option" "'n option" "'n option" 'n
  | AST_RETURN "'n option"
  | AST_BREAK
  | AST_CONTINUE
  | AST_BLOCK "'n list"
  | AST_EXPR_STMT 'n
  | AST_EMPTY_STMT
  | AST_DEFER "'n ast_func_def"

datatype 'n decl_kind =
    AST_PROGRAM "'n list"
  | AST_FUNC_DEF "'n ast_func_def"
  | AST_VAR_DEF "'n ast_var_def"
  | AST_TYPE_DEF strslice 'n "'n list" "'n list"
  | AST_ENUM_DEF strslice 'n "'n list" "'n list" "'n list"
  | AST_ENUM_VARIANT strslice 'n
  | AST_STRUCT_DEF "'n ast_struct_def"
  | AST_STRUCT_FIELD strslice 'n "'n list"
  | AST_STRUCT_EMBED strslice "'n option" nat
  | AST_UNION_DEF strslice "'n list" "'n list" "'n list"
  | AST_CUNION_DEF strslice "'n list" "'n list"
  | AST_INTERFACE_DEF strslice "'n list" "'n list" "'n list"
  | AST_GENERIC_PARAM strslice bool bool "'n option" "'n option" "'n option"
  | AST_TEST strslice 'n
  | AST_IMPORT strslice strslice
  | AST_REEXPORT strslice
  | AST_EXTERN_LIB strslice strslice strslice

datatype 'n kind = AST_ERROR | Op "'n op_kind" | Atom "'n atom_kind" | Ty "'n type_kind" | Pat "'n pat_kind" | Stmt "'n stmt_kind" | Decl "'n decl_kind"

datatype node = Node (tok_begin: nat) (tok_end: nat) (is_exported: bool) (kind_of: "node kind")

end
