(* ===== verification/ParserCore.thy ===== *)
theory ParserCore
  imports Ast
begin

text \<open>
  What the functions of the parser share (\<open>src/parser/*.c\<close>): the results, the ways to leave a
  function early, loops, and the leaves of the syntax tree. The functions call each other in cycles;
  a cycle goes through one of the entry points \<open>nonterm\<close>, and every function takes the parser of
  the entry points as an argument; \<open>parse_at\<close> in \<open>ParseProgram\<close> ties the knot.

  A function returns a node, an error node or \<open>NULL\<close>. The text of an error message is left out; an
  error node has its range of tokens. \<open>Stuck\<close> stands for a run that does not return: the depth of
  calls or the count of iterations is used up, or a write goes past a buffer.
\<close>

datatype nonterm = Expr_prec int | Unary | Type_prefix | Raw_type_atom | Pattern_atom | Pattern_or
  | Block | If | Comptime_if

datatype 'a flow = Stuck | Return "node option" parser | Next 'a parser | Break 'a parser

type_synonym knot = "nonterm \<Rightarrow> parser \<Rightarrow> unit flow"

definition mk :: "nat \<Rightarrow> parser \<Rightarrow> node kind \<Rightarrow> node" where
  "mk tb p k = Node tb (pr_pos p) False k"

definition is_error :: "node \<Rightarrow> bool" where
  "is_error n \<longleftrightarrow> (case kind_of n of AST_ERROR \<Rightarrow> True | _ \<Rightarrow> False)"

abbreviation missing :: "parser \<Rightarrow> 'a flow" where
  "missing p \<equiv> Return None p"

definition give :: "nat \<Rightarrow> node kind \<Rightarrow> parser \<Rightarrow> 'a flow" where
  "give tb k p = Return (Some (mk tb p k)) p"

text \<open>\<open>ast_error_new\<close> on the tokens from \<open>tb\<close> to the cursor.\<close>

definition ast_error_new :: "nat \<Rightarrow> parser \<Rightarrow> 'a flow" where
  "ast_error_new tb p = give tb AST_ERROR p"

definition step :: "parser \<Rightarrow> parser" where
  "step p = snd (advance p)"

definition skip :: "parser \<Rightarrow> parser" where
  "skip p = skip_trivia (step p)"

definition expect :: "string \<Rightarrow> nat \<Rightarrow> parser \<Rightarrow> (parser \<Rightarrow> 'a flow) \<Rightarrow> 'a flow" where
  "expect sy tb p k = (let (ok, p) = expect_symbol p sy in if ok then k p else ast_error_new tb p)"

definition expect_kw :: "string \<Rightarrow> nat \<Rightarrow> parser \<Rightarrow> (parser \<Rightarrow> 'a flow) \<Rightarrow> 'a flow" where
  "expect_kw kw tb p k = (let (ok, p) = expect_keyword p kw in if ok then k p else ast_error_new tb p)"

text \<open>
  The ways in which a caller takes a result: a missing node is an error of the caller at its first
  token (\<open>need\<close>) or at the cursor (\<open>need_here\<close>), is passed on (\<open>pass\<close>), or means that the next
  alternative is tried (\<open>first_of\<close>). An error node is always passed on.
\<close>

definition need :: "nat \<Rightarrow> unit flow \<Rightarrow> (node \<Rightarrow> parser \<Rightarrow> 'a flow) \<Rightarrow> 'a flow" where
  "need tb r k = (case r of
      Return (Some n) p \<Rightarrow> if is_error n then Return (Some n) p else k n p
    | Return None p \<Rightarrow> ast_error_new tb p
    | _ \<Rightarrow> Stuck)"

definition pass :: "unit flow \<Rightarrow> (node \<Rightarrow> parser \<Rightarrow> 'a flow) \<Rightarrow> 'a flow" where
  "pass r k = (case r of
      Return (Some n) p \<Rightarrow> if is_error n then Return (Some n) p else k n p
    | Return None p \<Rightarrow> missing p
    | _ \<Rightarrow> Stuck)"

definition need_here :: "unit flow \<Rightarrow> (node \<Rightarrow> parser \<Rightarrow> 'a flow) \<Rightarrow> 'a flow" where
  "need_here r k = (case r of
      Return (Some n) p \<Rightarrow> if is_error n then Return (Some n) p else k n p
    | Return None p \<Rightarrow> ast_error_new (pr_pos p) p
    | _ \<Rightarrow> Stuck)"

definition first_of :: "unit flow \<Rightarrow> (parser \<Rightarrow> 'a flow) \<Rightarrow> 'a flow" where
  "first_of r k = (case r of
      Return (Some n) p \<Rightarrow> Return (Some n) p
    | Return None p \<Rightarrow> k p
    | _ \<Rightarrow> Stuck)"

text \<open>Loops: \<open>Next\<close> is the next round, \<open>Break\<close> leaves the loop, \<open>Return\<close> the function.\<close>

primrec loop :: "nat \<Rightarrow> ('a \<Rightarrow> parser \<Rightarrow> 'a flow) \<Rightarrow> 'a \<Rightarrow> parser \<Rightarrow> 'a flow" where
  "loop 0 body a p = Stuck"
| "loop (Suc n) body a p = (case body a p of Next a p \<Rightarrow> loop n body a p | r \<Rightarrow> r)"

definition iterate :: "('a \<Rightarrow> parser \<Rightarrow> 'a flow) \<Rightarrow> 'a \<Rightarrow> parser \<Rightarrow> ('a \<Rightarrow> parser \<Rightarrow> 'b flow) \<Rightarrow> 'b flow" where
  "iterate body a p k =
     (case loop (Suc (length (pr_tokens p))) body a p of
        Break a p \<Rightarrow> k a p
      | Return v p \<Rightarrow> Return v p
      | _ \<Rightarrow> Stuck)"

text \<open>\<open>while (check_symbol(p, ",")) { advance; skip_trivia; item; append; skip_trivia }\<close>\<close>

definition comma_loop :: "nat \<Rightarrow> (parser \<Rightarrow> unit flow) \<Rightarrow> node list \<Rightarrow> parser \<Rightarrow> (node list \<Rightarrow> parser \<Rightarrow> 'b flow) \<Rightarrow> 'b flow" where
  "comma_loop tb item acc p k =
     iterate (\<lambda>acc p. if check_symbol p '','' then need tb (item (skip p)) (\<lambda>n p. Next (acc @ [n]) (skip_trivia p))
                      else Break acc p) acc p k"

text \<open>\<open>for (;;) { item; append; skip_trivia; if (!check_symbol(p, ",")) break; advance; skip_trivia }\<close>\<close>

definition comma_list :: "nat \<Rightarrow> string \<Rightarrow> (parser \<Rightarrow> unit flow) \<Rightarrow> parser \<Rightarrow> (node list \<Rightarrow> parser \<Rightarrow> 'b flow) \<Rightarrow> 'b flow" where
  "comma_list tb sep item p k =
     iterate (\<lambda>acc p. need tb (item p) (\<lambda>n p. let p = skip_trivia p; acc = acc @ [n] in
                if check_symbol p sep then Next acc (skip p) else Break acc p)) [] p k"

section \<open>Leaves\<close>

definition reserved_name :: "parser \<Rightarrow> (parser \<Rightarrow> 'a flow) \<Rightarrow> 'a flow" where
  "reserved_name p k = (case parse_reserved_ident_error p (cur_token p) of
      (Some _, p) \<Rightarrow> Return (Some (Node (pr_pos p) (pr_pos p + 1) False AST_ERROR)) p
    | (None, p) \<Rightarrow> k p)"

definition lit_node :: "lit \<Rightarrow> node option" where
  "lit_node l = (case l of No_match \<Rightarrow> None
    | Int_lit tb te v ty \<Rightarrow> Some (Node tb te False (Atom (AST_INT_LIT v ty)))
    | Char_lit tb te v \<Rightarrow> Some (Node tb te False (Atom (AST_CHAR_LIT v)))
    | String_lit tb te s \<Rightarrow> Some (Node tb te False (Atom (AST_STRING_LIT s False)))
    | Out_of_range tb te v ty \<Rightarrow> Some (Node tb te False AST_ERROR))"

definition int_lit :: "parser \<Rightarrow> unit flow" where
  "int_lit p = (let (l, p) = parse_int_lit p in Return (lit_node l) p)"

definition char_lit :: "parser \<Rightarrow> unit flow" where
  "char_lit p = (let (l, p) = parse_char_lit p in Return (lit_node l) p)"

definition string_lit :: "parser \<Rightarrow> unit flow" where
  "string_lit p = (case parse_string_lit p of Inr (l, p) \<Rightarrow> Return (lit_node l) p | Inl _ \<Rightarrow> Stuck)"

definition parse_bool_lit :: "parser \<Rightarrow> unit flow" where
  "parse_bool_lit p =
     (let tb = pr_pos p in
      if \<not> check_keyword p ''true'' \<and> \<not> check_keyword p ''false'' then missing (p\<lparr>pr_pos := tb\<rparr>)
      else let value = check_keyword p ''true''; p = step p in give tb (Atom (AST_BOOL_LIT value)) p)"

text \<open>
  Float literals. The value is kept as the text that goes to \<open>strtod\<close>, at most 63 bytes of it;
  \<open>over s ty\<close> says that the number \<open>strtod\<close> reads from \<open>s\<close> exceeds the bound of the type \<open>ty\<close>.
\<close>

definition find_float_type :: "strslice \<Rightarrow> bool" where
  "find_float_type s \<longleftrightarrow> strslice_eq s ''f32'' \<or> strslice_eq s ''f64''"

definition peek_float_type_suffix :: "parser \<Rightarrow> bool" where
  "peek_float_type_suffix p =
     (let p = skip p in check_kind p TOKEN_TYPE_KEYWORD \<and> find_float_type (token_strslice (cur_token p)))"

definition float_text :: "strslice \<Rightarrow> string" where
  "float_text s = (let copy_len = (if length s < 63 then length s else 63) in take copy_len s)"

definition parse_float_lit :: "(string \<Rightarrow> string \<Rightarrow> bool) \<Rightarrow> parser \<Rightarrow> unit flow" where
  "parse_float_lit over p =
     (let tb = pr_pos p in
      if \<not> check_kind p TOKEN_TYPE_NUMERIC then missing (p\<lparr>pr_pos := tb\<rparr>)
      else let txt = token_strslice (cur_token p) in
        if \<not> numeric_is_float txt \<and> \<not> peek_float_type_suffix p then missing (p\<lparr>pr_pos := tb\<rparr>)
        else let p = skip p; value = float_text txt; nx = token_strslice (cur_token p) in
          if check_kind p TOKEN_TYPE_KEYWORD \<and> find_float_type nx then
            if over value nx then ast_error_new tb (step p)
            else give tb (Atom (AST_FLOAT_LIT value nx)) (step p)
          else give tb (Atom (AST_FLOAT_LIT value [])) p)"

definition parse_ident :: "parser \<Rightarrow> unit flow" where
  "parse_ident p =
     (let tb = pr_pos p in
      if \<not> check_kind p TOKEN_TYPE_IDENTIFIER then missing (p\<lparr>pr_pos := tb\<rparr>)
      else let probe = token_strslice (cur_token p);
               found = (\<lambda>p. let name = token_strslice (cur_token p); p = step p in give tb (Atom (AST_IDENT name)) p) in
        if length probe \<ge> 2 \<and> probe ! 0 = CHR ''_'' \<and> probe ! 1 = CHR ''_'' then reserved_name p found
        else found p)"

definition parse_undef :: "parser \<Rightarrow> unit flow" where
  "parse_undef p =
     (let tb = pr_pos p in
      if \<not> check_keyword p ''undefined'' then missing (p\<lparr>pr_pos := tb\<rparr>) else give tb (Atom AST_UNDEF) (step p))"

definition parse_nil :: "parser \<Rightarrow> unit flow" where
  "parse_nil p =
     (let tb = pr_pos p in
      if \<not> check_keyword p ''nil'' then missing (p\<lparr>pr_pos := tb\<rparr>) else give tb (Atom AST_NIL) (step p))"

definition name_here :: "parser \<Rightarrow> strslice" where
  "name_here p = token_strslice (cur_token p)"

end
