(* ===== verification/ParsePattern.thy ===== *)
theory ParsePattern
  imports ParserCore
begin

text \<open>
  Patterns after \<open>extends\<close> (\<open>src/parser/parse_pattern.c\<close>), type prefixes (\<open>parse_utils.c\<close>), generic
  parameters (\<open>parse_generic.c\<close>), parameters and captures (\<open>parse_func_def.c\<close>).
\<close>

section \<open>Patterns\<close>

definition is_pattern_name_token :: "parser \<Rightarrow> bool" where
  "is_pattern_name_token p \<longleftrightarrow> check_kind p TOKEN_TYPE_IDENTIFIER \<or> check_kind p TOKEN_TYPE_KEYWORD"

definition parse_pattern_array :: "knot \<Rightarrow> nat \<Rightarrow> parser \<Rightarrow> unit flow" where
  "parse_pattern_array rec tb p =
     (let rest = (\<lambda>len p. expect '']'' tb p (\<lambda>p.
                    need tb (rec Pattern_atom (skip_trivia p)) (\<lambda>elem p.
                    give tb (Pat (AST_PAT_ARRAY len elem)) p))) in
      if check_symbol p ''?'' then rest None (skip p)
      else (let (l, p) = parse_int_lit p in
            case lit_node l of None \<Rightarrow> ast_error_new tb p | Some n \<Rightarrow> rest (Some n) (skip_trivia p)))"

definition parse_pattern_tuple :: "knot \<Rightarrow> nat \<Rightarrow> parser \<Rightarrow> unit flow" where
  "parse_pattern_tuple rec tb p =
     (let p = skip p;
          close = (\<lambda>elems p. expect ''>'' tb p (\<lambda>p. give tb (Pat (AST_PAT_TUPLE elems False)) (skip_trivia p)));
          elements = (\<lambda>p. if check_symbol p ''>'' then close [] p
                          else comma_list tb '','' (rec Pattern_or) p close) in
      if check_symbol p ''?'' then
        let q = skip p in
        if check_symbol q ''>'' then give tb (Pat (AST_PAT_TUPLE [] True)) (skip q)
        else elements (skip_trivia p)
      else elements p)"

definition parse_pattern_func :: "knot \<Rightarrow> nat \<Rightarrow> parser \<Rightarrow> unit flow" where
  "parse_pattern_func rec tb p =
     (let p = skip p;
          close = (\<lambda>params p. expect '')'' tb p (\<lambda>p. expect ''->'' tb (skip_trivia p) (\<lambda>p.
                     need tb (rec Pattern_atom (skip_trivia p)) (\<lambda>r p. give tb (Pat (AST_PAT_FUNC params r)) p)))) in
      expect ''('' tb p (\<lambda>p. let p = skip_trivia p in
        if check_symbol p '')'' then close [] p else comma_list tb '','' (rec Pattern_or) p close))"

text \<open>A named pattern, with a module in front of it and with arguments.\<close>

definition parse_pattern_name :: "knot \<Rightarrow> nat \<Rightarrow> parser \<Rightarrow> unit flow" where
  "parse_pattern_name rec tb p =
     (let name = name_here p; p = skip p;
          close = (\<lambda>q n args p. expect '']'' tb p (\<lambda>p. give tb (Pat (AST_PAT_NAME q n args)) (skip_trivia p)));
          finish = (\<lambda>q n p.
            if check_symbol p ''['' then
              let p = skip p in
              if check_symbol p '']'' then close q n [] p else comma_list tb '','' (rec Pattern_or) p (close q n)
            else give tb (Pat (AST_PAT_NAME q n [])) p) in
      if check_symbol p ''::'' then
        let p = skip p in
        if \<not> is_pattern_name_token p then ast_error_new tb p
        else finish name (name_here p) (skip p)
      else finish [] name p)"

definition parse_pattern_atom :: "knot \<Rightarrow> parser \<Rightarrow> unit flow" where
  "parse_pattern_atom rec p =
     (let p = skip_trivia p; tb = pr_pos p in
      if check_symbol p ''('' then
        pass (rec Pattern_or (skip p)) (\<lambda>inner p. expect '')'' tb (skip_trivia p) (\<lambda>p. Return (Some inner) (skip_trivia p)))
      else if check_symbol p ''?'' then
        let p = skip p in
        if check_symbol p ''*'' then
          need tb (rec Pattern_atom (skip p)) (\<lambda>base p. give tb (Pat (AST_PAT_PTR True base)) p)
        else give tb (Pat AST_PAT_WILD) p
      else if check_symbol p ''*'' then
        need tb (rec Pattern_atom (skip p)) (\<lambda>base p. give tb (Pat (AST_PAT_PTR False base)) p)
      else if check_symbol p ''['' then
        let p = skip p in
        if check_symbol p '']'' then
          need tb (rec Pattern_atom (skip p)) (\<lambda>elem p. give tb (Pat (AST_PAT_SLICE elem)) p)
        else parse_pattern_array rec tb p
      else if check_symbol p ''<'' then parse_pattern_tuple rec tb p
      else if check_keyword p ''func'' \<or> check_keyword p ''cfunc'' then parse_pattern_func rec tb p
      else if check_keyword p ''const'' \<or> check_keyword p ''volatile'' then
        let is_vol = check_keyword p ''volatile'' in
        need tb (rec Pattern_atom (skip p)) (\<lambda>sub p. give tb (Pat (AST_PAT_QUAL is_vol sub)) p)
      else if is_pattern_name_token p then parse_pattern_name rec tb p
      else ast_error_new tb p)"

text \<open>\<open>parse_pattern_and\<close> and \<open>parse_pattern_or\<close>: a chain of operands with one operator.\<close>

definition pattern_chain :: "string \<Rightarrow> (node \<Rightarrow> node \<Rightarrow> node pat_kind) \<Rightarrow> (parser \<Rightarrow> unit flow) \<Rightarrow> parser \<Rightarrow> unit flow" where
  "pattern_chain sy build operand p =
     pass (operand p) (\<lambda>lhs p.
       iterate (\<lambda>lhs p. let p = skip_trivia p in
          if \<not> check_symbol p sy then Break lhs p
          else let tb = tok_begin lhs in
            need tb (operand (skip p)) (\<lambda>rhs p. Next (mk tb p (Pat (build lhs rhs))) p)) lhs p
       (\<lambda>lhs p. Return (Some lhs) p))"

definition parse_pattern_and :: "knot \<Rightarrow> parser \<Rightarrow> unit flow" where
  "parse_pattern_and rec = pattern_chain ''&'' AST_PAT_AND (rec Pattern_atom)"

definition parse_pattern_or :: "knot \<Rightarrow> parser \<Rightarrow> unit flow" where
  "parse_pattern_or rec = pattern_chain ''|'' AST_PAT_OR (parse_pattern_and rec)"

definition parse_pattern :: "knot \<Rightarrow> parser \<Rightarrow> unit flow" where
  "parse_pattern rec = rec Pattern_or"

section \<open>Type prefixes\<close>

definition parse_type_prefix :: "knot \<Rightarrow> parser \<Rightarrow> unit flow" where
  "parse_type_prefix rec p =
     (let tb = pr_pos p; q = skip p in
      if check_symbol p ''*'' then
        need tb (rec Type_prefix q) (\<lambda>base p. give tb (Ty (AST_PTR base)) p)
      else if check_symbol p ''['' \<and> check_symbol q '']'' then
        need tb (rec Type_prefix (skip q)) (\<lambda>elem p. give tb (Ty (AST_SLICE_TYPE elem)) p)
      else if check_symbol p ''?'' \<and> (check_symbol q ''*'' \<or> check_symbol q ''['') then
        pass (rec Type_prefix q) (\<lambda>sub p. give tb (Ty (AST_OPTION sub)) p)
      else rec (Expr_prec 1) p)"

definition parse_raw_type_atom :: "knot \<Rightarrow> parser \<Rightarrow> unit flow" where
  "parse_raw_type_atom rec p =
     (let tb = pr_pos p; q = skip p in
      if check_symbol p ''?'' then
        pass (rec Raw_type_atom q) (\<lambda>sub p. give tb (Ty (AST_OPTION sub)) p)
      else if check_symbol p ''*'' then
        need tb (rec Raw_type_atom q) (\<lambda>base p. give tb (Ty (AST_PTR base)) p)
      else if check_symbol p ''['' \<and> check_symbol q '']'' then
        need tb (rec Raw_type_atom (skip q)) (\<lambda>elem p. give tb (Ty (AST_SLICE_TYPE elem)) p)
      else rec (Expr_prec 22) p)"

end
