(* ===== verification/ParseFunc.thy ===== *)
theory ParseFunc
  imports ParsePattern
begin

text \<open>
  Generic parameters (\<open>src/parser/parse_generic.c\<close>), parameters, captures and the one entry for
  function definitions, function literals and function types (\<open>parse_func_def.c\<close>). A function that
  fills a list through a pointer hands the list to the rest of its caller.
\<close>

section \<open>Generic parameters\<close>

definition param_name :: "node \<Rightarrow> strslice" where
  "param_name n = (case kind_of n of Decl (AST_GENERIC_PARAM name _ _ _ _ _) \<Rightarrow> name | _ \<Rightarrow> [])"

definition generic_type :: "knot \<Rightarrow> nat \<Rightarrow> parser \<Rightarrow> (node option \<Rightarrow> parser \<Rightarrow> 'a flow) \<Rightarrow> 'a flow" where
  "generic_type rec pb p k =
     (if check_symbol p '':'' then
        let p = skip p in
        if \<not> check_keyword p ''comptime'' then ast_error_new pb p
        else need pb (rec Type_prefix (skip p)) (\<lambda>t p. k (Some t) (skip_trivia p))
      else k None p)"

definition generic_constraint :: "knot \<Rightarrow> nat \<Rightarrow> bool \<Rightarrow> parser \<Rightarrow> (node option \<Rightarrow> parser \<Rightarrow> 'a flow) \<Rightarrow> 'a flow" where
  "generic_constraint rec pb is_comptime p k =
     (if check_keyword p ''extends'' then
        if is_comptime then ast_error_new pb p
        else need pb (parse_pattern rec (skip p)) (\<lambda>c p. k (Some c) (skip_trivia p))
      else k None p)"

definition generic_default :: "knot \<Rightarrow> nat \<Rightarrow> parser \<Rightarrow> (node option \<Rightarrow> parser \<Rightarrow> 'a flow) \<Rightarrow> 'a flow" where
  "generic_default rec pb p k =
     (if check_symbol p ''='' then need pb (rec (Expr_prec 1) (skip p)) (\<lambda>d p. k (Some d) (skip_trivia p))
      else k None p)"

definition generic_param :: "knot \<Rightarrow> node list \<Rightarrow> parser \<Rightarrow> node list flow" where
  "generic_param rec acc p =
     (let pb = pr_pos p; is_pack = check_symbol p ''...''; p = (if is_pack then skip p else p) in
      if \<not> check_kind p TOKEN_TYPE_IDENTIFIER then ast_error_new pb p
      else reserved_name p (\<lambda>p. let name = name_here p; p = skip p in
        if list_ex (\<lambda>q. strslice_eq (param_name q) name) acc then ast_error_new pb p
        else generic_type rec pb p (\<lambda>ty p. generic_constraint rec pb (ty \<noteq> None) p (\<lambda>c p. generic_default rec pb p (\<lambda>d p.
          let acc = acc @ [mk pb p (Decl (AST_GENERIC_PARAM name (ty \<noteq> None) is_pack ty c d))] in
          if check_symbol p '','' then
            if is_pack then ast_error_new pb p
            else let p = skip p in
              if check_symbol p '']'' then ast_error_new pb p else Next acc p
          else if \<not> check_symbol p '']'' then ast_error_new pb p
          else Break acc (skip p))))))"

definition parse_generic_params :: "knot \<Rightarrow> parser \<Rightarrow> (node list \<Rightarrow> parser \<Rightarrow> 'a flow) \<Rightarrow> 'a flow" where
  "parse_generic_params rec p k =
     (let tb = pr_pos p in
      if \<not> check_symbol p ''['' then ast_error_new tb p
      else let p = skip p in
        if check_symbol p '']'' then ast_error_new tb p
        else iterate (generic_param rec) [] p k)"

text \<open>The list where a declaration allows one.\<close>

definition opt_generic :: "knot \<Rightarrow> parser \<Rightarrow> (node list \<Rightarrow> parser \<Rightarrow> 'a flow) \<Rightarrow> 'a flow" where
  "opt_generic rec p k = (if check_symbol p ''['' then parse_generic_params rec p k else k [] p)"

section \<open>Parameters and captures\<close>

definition var_node :: "nat \<Rightarrow> parser \<Rightarrow> strslice \<Rightarrow> node option \<Rightarrow> node option \<Rightarrow> node" where
  "var_node tb p name ty init = mk tb p (Decl (AST_VAR_DEF (Var_def name ty init False False [] [] False)))"

definition parse_param :: "knot \<Rightarrow> parser \<Rightarrow> unit flow" where
  "parse_param rec p =
     (let tb = pr_pos p in
      if \<not> check_kind p TOKEN_TYPE_IDENTIFIER then ast_error_new tb p
      else reserved_name p (\<lambda>p. let name = name_here p; p = skip p in
        expect '':'' tb p (\<lambda>p. let p = skip_trivia p in
          if check_symbol p ''...'' then
            let pb = pr_pos p; p = skip p in
            if \<not> check_kind p TOKEN_TYPE_IDENTIFIER then ast_error_new pb p
            else reserved_name p (\<lambda>p. let pack_name = name_here p; p = skip p in
              Return (Some (var_node tb p name (Some (mk pb p (Ty (AST_PACK_TYPE pack_name)))) None)) p)
          else need tb (rec Type_prefix p) (\<lambda>ty p. Return (Some (var_node tb p name (Some ty) None)) p))))"

definition parse_func_param_item :: "knot \<Rightarrow> parser \<Rightarrow> unit flow" where
  "parse_func_param_item rec p =
     (if check_kind p TOKEN_TYPE_IDENTIFIER \<and> pr_pos p + 1 < length (pr_tokens p)
         \<and> tk_kind (pr_tokens p ! (pr_pos p + 1)) = TOKEN_TYPE_SYMBOL
         \<and> tk_text (pr_tokens p ! (pr_pos p + 1)) = '':''
      then parse_param rec p
      else rec Type_prefix p)"

text \<open>A run with \<open>stop_at_pipe\<close> raised by one.\<close>

definition at_pipe :: "(parser \<Rightarrow> unit flow) \<Rightarrow> parser \<Rightarrow> unit flow" where
  "at_pipe f p =
     (case f (p\<lparr>pr_pipe := pr_pipe p + 1\<rparr>) of
        Return v p \<Rightarrow> Return v (p\<lparr>pr_pipe := pr_pipe p - 1\<rparr>)
      | r \<Rightarrow> r)"

definition capture_init :: "knot \<Rightarrow> nat \<Rightarrow> parser \<Rightarrow> unit flow" where
  "capture_init rec tb p =
     (if \<not> check_kind p TOKEN_TYPE_IDENTIFIER then ast_error_new tb p
      else reserved_name p (\<lambda>p. let name = name_here p; p = skip p;
        rest = (\<lambda>ty p. expect ''='' tb p (\<lambda>p. need_here (rec (Expr_prec 1) (skip_trivia p)) (\<lambda>i p.
                 expect '')'' tb p (\<lambda>p. let p = skip_trivia p in Return (Some (var_node tb p name ty (Some i))) p)))) in
        if check_symbol p '':'' then need tb (rec Raw_type_atom (skip p)) (\<lambda>ty p. rest (Some ty) p)
        else rest None p))"

definition parse_capture_item :: "knot \<Rightarrow> parser \<Rightarrow> unit flow" where
  "parse_capture_item rec p =
     (let tb = pr_pos p in
      if check_symbol p ''('' then capture_init rec tb (skip p)
      else if \<not> check_kind p TOKEN_TYPE_IDENTIFIER then ast_error_new tb p
      else let name = name_here p; p = skip p in
        if check_symbol p '':'' then
          need tb (at_pipe (rec Raw_type_atom) (skip p)) (\<lambda>ty p. let p = skip_trivia p in
            Return (Some (var_node tb p name (Some ty) None)) p)
        else Return (Some (var_node tb p name None None)) p)"

definition parse_capture_list :: "knot \<Rightarrow> parser \<Rightarrow> (node list \<Rightarrow> parser \<Rightarrow> 'a flow) \<Rightarrow> 'a flow" where
  "parse_capture_list rec p k =
     (let tb = pr_pos p; p = skip p;
          close = (\<lambda>caps p. expect ''|'' tb p (\<lambda>p. k caps (skip_trivia p))) in
      if check_symbol p ''|'' then close [] p
      else need tb (parse_capture_item rec p) (\<lambda>cap p.
             comma_loop tb (parse_capture_item rec) [cap] (skip_trivia p) close))"

section \<open>Functions\<close>

definition is_var_def :: "node \<Rightarrow> bool" where
  "is_var_def n \<longleftrightarrow> (case kind_of n of Decl (AST_VAR_DEF _) \<Rightarrow> True | _ \<Rightarrow> False)"

definition is_undef :: "node \<Rightarrow> bool" where
  "is_undef n \<longleftrightarrow> (case kind_of n of Atom AST_UNDEF \<Rightarrow> True | _ \<Rightarrow> False)"

text \<open>A capture of a closure type: a name and a type, no initializer.\<close>

definition type_capture :: "node \<Rightarrow> bool" where
  "type_capture n \<longleftrightarrow> (case kind_of n of
      Decl (AST_VAR_DEF v) \<Rightarrow> vd_type v \<noteq> None \<and> (case vd_init v of None \<Rightarrow> True | Some i \<Rightarrow> is_undef i)
    | _ \<Rightarrow> False)"

text \<open>The parameters up to the closing parenthesis; the flag is the mark of a variadic list.\<close>

definition more_params :: "knot \<Rightarrow> nat \<Rightarrow> strslice \<Rightarrow> node list \<times> bool \<Rightarrow> parser \<Rightarrow> (node list \<times> bool) flow" where
  "more_params rec tb pre_lib st p =
     (case st of (acc, variadic) \<Rightarrow>
      if check_symbol p '','' then
        let p = skip p in
        if check_symbol p ''...'' then
          if pre_lib = [] then ast_error_new tb p else Break (acc, True) (skip p)
        else need tb (parse_func_param_item rec p) (\<lambda>n p. Next (acc @ [n], variadic) (skip_trivia p))
      else Break (acc, variadic) p)"

definition func_params :: "knot \<Rightarrow> nat \<Rightarrow> strslice \<Rightarrow> parser \<Rightarrow> (node list \<times> bool \<Rightarrow> parser \<Rightarrow> 'a flow) \<Rightarrow> 'a flow" where
  "func_params rec tb pre_lib p k =
     expect ''('' tb p (\<lambda>p. let p = skip_trivia p;
       params = (\<lambda>variadic p.
         if check_symbol p '')'' then k ([], variadic) p
         else need tb (parse_func_param_item rec p) (\<lambda>n p.
                iterate (more_params rec tb pre_lib) ([n], variadic) (skip_trivia p) k)) in
       if check_symbol p ''...'' then
         if pre_lib = [] then ast_error_new tb p else params True (skip p)
       else params False p)"

text \<open>The return type and the body, after the colon was asked for.\<close>

definition func_rest :: "knot \<Rightarrow> nat \<Rightarrow> strslice \<Rightarrow> strslice \<Rightarrow> node list \<Rightarrow> node list \<Rightarrow> node list \<times> bool \<Rightarrow> parser \<Rightarrow> unit flow" where
  "func_rest rec tb pre_lib name captures generic params p =
     (let finish = (\<lambda>ty body p. give tb (Decl (AST_FUNC_DEF (Func_def name captures (fst params) (Some ty) body
                      False False False (snd params) [] [] generic))) p) in
      expect '':'' tb p (\<lambda>p. need tb (rec Type_prefix (skip_trivia p)) (\<lambda>ty p.
        if pre_lib \<noteq> [] then expect '';'' tb p (\<lambda>p. finish ty None p)
        else need tb (rec Block p) (\<lambda>body p. finish ty (Some body) p))))"

definition func_type_rest :: "knot \<Rightarrow> nat \<Rightarrow> node list \<Rightarrow> node list \<Rightarrow> node list \<Rightarrow> parser \<Rightarrow> unit flow" where
  "func_type_rest rec tb captures generic params p =
     (if generic \<noteq> [] then ast_error_new tb p
      else if list_ex (\<lambda>c. \<not> type_capture c) captures then ast_error_new tb p
      else if list_ex is_var_def params then ast_error_new tb p
      else need tb (rec Type_prefix (skip p)) (\<lambda>ty p. give tb (Ty (AST_FUNC_TYPE params ty captures False)) p))"

text \<open>The captures before the name, the name, and the generic parameters with the captures after them.\<close>

definition func_name :: "strslice \<Rightarrow> parser \<Rightarrow> (strslice \<Rightarrow> parser \<Rightarrow> 'a flow) \<Rightarrow> 'a flow" where
  "func_name pre_name p k =
     (if pre_name = [] \<and> check_kind p TOKEN_TYPE_IDENTIFIER \<and> \<not> check_symbol p ''('' then
        let found = (\<lambda>p. let name = name_here p in k name (skip p)) in
        if \<not> pr_magic p then reserved_name p found else found p
      else k pre_name p)"

definition func_generic :: "knot \<Rightarrow> nat \<Rightarrow> string option \<Rightarrow> strslice \<Rightarrow> node list \<Rightarrow> parser \<Rightarrow>
    (node list \<Rightarrow> node list \<Rightarrow> parser \<Rightarrow> 'a flow) \<Rightarrow> 'a flow" where
  "func_generic rec tb kw pre_lib captures p k =
     (if check_symbol p ''['' then
        parse_generic_params rec p (\<lambda>generic p.
          if kw = Some ''cfunc'' \<or> pre_lib \<noteq> [] then ast_error_new tb p
          else if captures = [] \<and> check_symbol p ''|'' then
            parse_capture_list rec p (\<lambda>captures p. k generic captures (skip_trivia p))
          else k generic captures p)
      else k [] captures p)"

definition parse_func_like_ex :: "knot \<Rightarrow> bool \<Rightarrow> string option \<Rightarrow> strslice \<Rightarrow> strslice \<Rightarrow> parser \<Rightarrow> unit flow" where
  "parse_func_like_ex rec is_type kw pre_name pre_lib p =
     (let tb = pr_pos p;
          body = (\<lambda>captures p. func_name pre_name p (\<lambda>name p. func_generic rec tb kw pre_lib captures p (\<lambda>generic captures p.
            func_params rec tb pre_lib p (\<lambda>params p. expect '')'' tb p (\<lambda>p. let p = skip_trivia p in
              if check_symbol p ''->'' then
                if \<not> is_type then ast_error_new tb p
                else func_type_rest rec tb captures generic (fst params) p
              else if \<not> is_type \<and> name = [] then ast_error_new tb p
              else if list_ex (\<lambda>n. \<not> is_var_def n) (fst params) then ast_error_new tb p
              else func_rest rec tb pre_lib name captures generic params p)))));
          start = (\<lambda>p. let p = skip_trivia p in
            if check_symbol p ''|'' then
              if pre_lib \<noteq> [] then ast_error_new tb p else parse_capture_list rec p body
            else body [] p) in
      case kw of None \<Rightarrow> start p
      | Some w \<Rightarrow> if \<not> check_keyword p w then missing (p\<lparr>pr_pos := tb\<rparr>) else start (step p))"

definition parse_func_like :: "knot \<Rightarrow> bool \<Rightarrow> string \<Rightarrow> parser \<Rightarrow> unit flow" where
  "parse_func_like rec is_type kw = parse_func_like_ex rec is_type (Some kw) [] []"

definition parse_func_def :: "knot \<Rightarrow> parser \<Rightarrow> unit flow" where
  "parse_func_def rec = parse_func_like rec False ''func''"

text \<open>A change of the node that a function returns, unless it is an error.\<close>

definition change :: "(node \<Rightarrow> node) \<Rightarrow> unit flow \<Rightarrow> unit flow" where
  "change f r = (case r of Return (Some n) p \<Rightarrow> Return (Some (if is_error n then n else f n)) p | r \<Rightarrow> r)"

definition change_func :: "(node ast_func_def \<Rightarrow> node ast_func_def) \<Rightarrow> node \<Rightarrow> node" where
  "change_func f n = (case kind_of n of
      Decl (AST_FUNC_DEF d) \<Rightarrow> Node (tok_begin n) (tok_end n) (is_exported n) (Decl (AST_FUNC_DEF (f d)))
    | _ \<Rightarrow> n)"

definition change_var :: "(node ast_var_def \<Rightarrow> node ast_var_def) \<Rightarrow> node \<Rightarrow> node" where
  "change_var f n = (case kind_of n of
      Decl (AST_VAR_DEF d) \<Rightarrow> Node (tok_begin n) (tok_end n) (is_exported n) (Decl (AST_VAR_DEF (f d)))
    | _ \<Rightarrow> n)"

primrec as_cfunc :: "node ast_func_def \<Rightarrow> node ast_func_def" where
  "as_cfunc (Func_def n c ps r b ct cf ex va lib ds g) = Func_def n c ps r b ct True ex va lib ds g"

primrec as_extern :: "strslice \<Rightarrow> node ast_func_def \<Rightarrow> node ast_func_def" where
  "as_extern l (Func_def n c ps r b ct cf ex va lib ds g) = Func_def n c ps r b ct cf True va l ds g"

definition parse_cfunc_def :: "knot \<Rightarrow> parser \<Rightarrow> unit flow" where
  "parse_cfunc_def rec p = change (change_func as_cfunc) (parse_func_like rec False ''cfunc'' p)"

text \<open>\<open>extern cfunc lib::name(...)\<close> and \<open>extern var lib::name: T;\<close> after the word \<open>extern\<close>.\<close>

definition extern_name :: "nat \<Rightarrow> parser \<Rightarrow> (strslice \<Rightarrow> strslice \<Rightarrow> parser \<Rightarrow> 'a flow) \<Rightarrow> 'a flow" where
  "extern_name tb p k =
     (if \<not> check_kind p TOKEN_TYPE_IDENTIFIER then ast_error_new tb p
      else let lib = name_here p in expect ''::'' tb (skip p) (\<lambda>p. let p = skip_trivia p in
        if \<not> check_kind p TOKEN_TYPE_IDENTIFIER then ast_error_new tb p
        else let name = name_here p in k lib name (skip p)))"

definition parse_extern_cfunc :: "knot \<Rightarrow> nat \<Rightarrow> parser \<Rightarrow> unit flow" where
  "parse_extern_cfunc rec tb p =
     expect_kw ''cfunc'' tb p (\<lambda>p. extern_name tb (skip_trivia p) (\<lambda>lib fname p.
       change (change_func (as_extern lib)) (parse_func_like_ex rec False None fname lib p)))"

definition parse_extern_var :: "knot \<Rightarrow> nat \<Rightarrow> parser \<Rightarrow> unit flow" where
  "parse_extern_var rec tb p =
     expect_kw ''var'' tb p (\<lambda>p. extern_name tb (skip_trivia p) (\<lambda>lib vname p.
       expect '':'' tb p (\<lambda>p. need tb (rec Type_prefix (skip_trivia p)) (\<lambda>ty p. let p = skip_trivia p in
         if \<not> check_symbol p '';'' then ast_error_new tb p
         else give tb (Decl (AST_VAR_DEF (Var_def vname (Some ty) None False True lib [] False))) (step p)))))"

end
