(* ===== verification/ParseExpr.thy ===== *)
theory ParseExpr
  imports ParseFunc
begin

text \<open>
  The expression parser (\<open>src/parser/parse_expr.c\<close>): operators by binding power, with types as
  expressions.
\<close>

section \<open>Operators\<close>

definition infix_binding :: "token_kind \<Rightarrow> strslice \<Rightarrow> (int \<times> int) option" where
  "infix_binding kind s =
     (if kind \<noteq> TOKEN_TYPE_SYMBOL \<and> kind \<noteq> TOKEN_TYPE_KEYWORD then None
      else if s = ''as'' then Some (21, 22)
      else if s = ''is'' then Some (21, 22)
      else if s = ''extends'' then Some (11, 12)
      else if s = ''||'' then Some (1, 2)
      else if s = ''&&'' then Some (3, 4)
      else if s = ''=='' then Some (11, 12)
      else if s = ''!='' then Some (11, 12)
      else if s = ''<='' then Some (13, 14)
      else if s = ''>='' then Some (13, 14)
      else if s = ''<<'' then Some (15, 16)
      else if s = ''>>'' then Some (15, 16)
      else if s = ''|'' then Some (5, 6)
      else if s = ''^'' then Some (7, 8)
      else if s = ''&'' then Some (9, 10)
      else if s = ''<'' then Some (13, 14)
      else if s = ''>'' then Some (13, 14)
      else if s = ''+'' then Some (17, 18)
      else if s = ''-'' then Some (17, 18)
      else if s = ''*'' then Some (19, 20)
      else if s = ''/'' then Some (19, 20)
      else if s = ''%'' then Some (19, 20)
      else None)"

definition is_assign_op_token :: "token option \<Rightarrow> bool" where
  "is_assign_op_token t \<longleftrightarrow>
     (if token_get_kind t \<noteq> TOKEN_TYPE_SYMBOL then False
      else let s = token_strslice t in
        if length s = 1 \<and> s ! 0 = CHR ''='' then True
        else if length s = 2 \<and> s ! 1 = CHR ''='' then s ! 0 \<in> set ''+-*/%''
        else False)"

definition is_ident_node :: "node \<Rightarrow> bool" where
  "is_ident_node n \<longleftrightarrow> (case kind_of n of Atom (AST_IDENT _) \<Rightarrow> True | _ \<Rightarrow> False)"

definition is_scope_ref :: "node \<Rightarrow> bool" where
  "is_scope_ref n \<longleftrightarrow> (case kind_of n of Op (AST_SCOPE_REF _ _) \<Rightarrow> True | _ \<Rightarrow> False)"

definition index_of_ident :: "node \<Rightarrow> bool" where
  "index_of_ident n \<longleftrightarrow> (case kind_of n of Op (AST_INDEX ob _) \<Rightarrow> is_ident_node ob \<or> is_scope_ref ob | _ \<Rightarrow> False)"

definition assign_target :: "node \<Rightarrow> bool" where
  "assign_target n \<longleftrightarrow> (case kind_of n of
      Atom (AST_IDENT _) \<Rightarrow> True
    | Op (AST_INDEX _ _) \<Rightarrow> True | Op (AST_MEMBER _ _) \<Rightarrow> True | Op (AST_DEREF _) \<Rightarrow> True | Op (AST_SCOPE_REF _ _) \<Rightarrow> True
    | _ \<Rightarrow> False)"

section \<open>Atoms\<close>

text \<open>\<open>...expr\<close>, as an argument of a call or of a constructor.\<close>

definition parse_spread :: "knot \<Rightarrow> parser \<Rightarrow> unit flow" where
  "parse_spread rec p =
     (let tb = pr_pos p in
      need tb (rec (Expr_prec 0) (skip p)) (\<lambda>operand p. give tb (Op (AST_SPREAD operand)) p))"

definition parse_fill :: "knot \<Rightarrow> parser \<Rightarrow> unit flow" where
  "parse_fill rec p =
     (let fb = pr_pos p in
      need fb (rec (Expr_prec 0) (skip p)) (\<lambda>value p. expect '','' fb (skip_trivia p) (\<lambda>p.
      need fb (rec (Expr_prec 15) (skip_trivia p)) (\<lambda>count p. expect ''>'' fb (skip_trivia p) (\<lambda>p.
      give fb (Atom (AST_FILL value count)) p)))))"

definition parse_construct_field :: "knot \<Rightarrow> parser \<Rightarrow> unit flow" where
  "parse_construct_field rec p =
     (let p = skip_trivia p in
      if check_symbol p ''...'' then parse_spread rec p
      else if check_symbol p ''<'' then parse_fill rec p
      else let fb = pr_pos p; q = skip p; r = skip q in
        if check_symbol p ''.'' \<and> check_kind q TOKEN_TYPE_IDENTIFIER \<and> check_symbol r ''='' then
          let name = name_here q in
          need fb (rec (Expr_prec 0) (skip r)) (\<lambda>value p. give fb (Atom (AST_CONSTRUCT_FIELD name value)) p)
        else rec (Expr_prec 0) p)"

definition parse_tuple_elem :: "knot \<Rightarrow> parser \<Rightarrow> unit flow" where
  "parse_tuple_elem rec p =
     (if check_symbol p ''...'' then
        let sb = pr_pos p; p = skip p in
        if \<not> check_kind p TOKEN_TYPE_IDENTIFIER then ast_error_new sb p
        else let name = name_here p; p = step p; operand = mk sb p (Atom (AST_IDENT name));
                 sp = mk sb p (Op (AST_SPREAD operand)) in Return (Some sp) (skip_trivia p)
      else rec Unary p)"

definition parse_group :: "knot \<Rightarrow> parser \<Rightarrow> unit flow" where
  "parse_group rec p =
     (let tb = pr_pos p in
      need tb (rec (Expr_prec 0) (skip p)) (\<lambda>inner p. expect '')'' tb (skip_trivia p) (\<lambda>p. Return (Some inner) p)))"

definition parse_array_type :: "knot \<Rightarrow> parser \<Rightarrow> unit flow" where
  "parse_array_type rec p =
     (let tb = pr_pos p; p = skip p in
      if check_symbol p '']'' then
        need tb (rec Unary (skip p)) (\<lambda>elem p. give tb (Ty (AST_SLICE_TYPE elem)) p)
      else need tb (rec (Expr_prec 0) p) (\<lambda>len p. expect '']'' tb (skip_trivia p) (\<lambda>p.
        need tb (rec Raw_type_atom (skip_trivia p)) (\<lambda>base p. give tb (Ty (AST_ARRAY base len)) p))))"

definition parse_tuple_type :: "knot \<Rightarrow> parser \<Rightarrow> unit flow" where
  "parse_tuple_type rec p =
     (let tb = pr_pos p; p = skip p;
          close = (\<lambda>elems p. expect ''>'' tb p (\<lambda>p. give tb (Ty (AST_TUPLE elems)) p)) in
      if check_symbol p ''>'' then close [] p
      else need tb (parse_tuple_elem rec p) (\<lambda>et p. comma_loop tb (parse_tuple_elem rec) [et] (skip_trivia p) close))"

definition parse_make :: "knot \<Rightarrow> parser \<Rightarrow> unit flow" where
  "parse_make rec p =
     (let mb = pr_pos p in
      expect ''('' mb (skip p) (\<lambda>p. need mb (rec (Expr_prec 0) (skip_trivia p)) (\<lambda>ptr p.
      expect '','' mb (skip_trivia p) (\<lambda>p. need mb (rec (Expr_prec 0) (skip_trivia p)) (\<lambda>len p.
      expect '')'' mb (skip_trivia p) (\<lambda>p. give mb (Op (AST_MAKE ptr len)) p))))))"

definition as_c_abi :: "node \<Rightarrow> node" where
  "as_c_abi n = (case kind_of n of
      Ty (AST_FUNC_TYPE ps r cs _) \<Rightarrow> Node (tok_begin n) (tok_end n) (is_exported n) (Ty (AST_FUNC_TYPE ps r cs True))
    | _ \<Rightarrow> n)"

definition parse_primary :: "knot \<Rightarrow> (string \<Rightarrow> string \<Rightarrow> bool) \<Rightarrow> parser \<Rightarrow> unit flow" where
  "parse_primary rec over p =
     first_of (if check_keyword p ''func'' then parse_func_like rec True ''func'' p else missing p) (\<lambda>p.
     first_of (if check_keyword p ''cfunc'' then change as_c_abi (parse_func_like rec True ''cfunc'' p) else missing p) (\<lambda>p.
     first_of (parse_bool_lit p) (\<lambda>p. first_of (parse_float_lit over p) (\<lambda>p. first_of (int_lit p) (\<lambda>p.
     first_of (string_lit p) (\<lambda>p. first_of (char_lit p) (\<lambda>p. first_of (parse_ident p) (\<lambda>p.
     first_of (parse_undef p) (\<lambda>p. first_of (parse_nil p) (\<lambda>p.
       if check_symbol p ''('' then parse_group rec p
       else if check_symbol p ''['' then parse_array_type rec p
       else if check_symbol p ''<'' then parse_tuple_type rec p
       else if check_keyword p ''make'' then parse_make rec p
       else if check_kind p TOKEN_TYPE_KEYWORD then
         let tb = pr_pos p; name = name_here p; p = step p in give tb (Atom (AST_IDENT name)) p
       else missing p))))))))))"

section \<open>Prefix operators\<close>

text \<open>\<open>sizeof\<close> and \<open>alignof\<close> take a type with a leading star, \<open>typeof\<close> does not.\<close>

definition parse_of :: "knot \<Rightarrow> bool \<Rightarrow> (node \<Rightarrow> node op_kind) \<Rightarrow> parser \<Rightarrow> unit flow" where
  "parse_of rec star build p =
     (let kb = pr_pos p in
      expect ''('' kb (skip p) (\<lambda>p. let p = skip_trivia p in
      need kb (if star \<and> check_symbol p ''*'' then rec Type_prefix p else rec (Expr_prec 0) p) (\<lambda>operand p.
      expect '')'' kb (skip_trivia p) (\<lambda>p. give kb (Op (build operand)) p))))"

definition more_fields :: "knot \<Rightarrow> nat \<Rightarrow> node list \<Rightarrow> parser \<Rightarrow> node list flow" where
  "more_fields rec tb acc p =
     (if check_symbol p '','' then
        let p = skip p in
        if check_symbol p ''}'' then Break acc p
        else need tb (parse_construct_field rec p) (\<lambda>f p. Next (acc @ [f]) (skip_trivia p))
      else Break acc p)"

definition construct_fields :: "knot \<Rightarrow> nat \<Rightarrow> node option \<Rightarrow> parser \<Rightarrow> unit flow" where
  "construct_fields rec tb ty p =
     (let p = skip p; close = (\<lambda>fs p. expect ''}'' tb p (\<lambda>p. give tb (Atom (AST_CONSTRUCT ty fs)) p)) in
      if check_symbol p ''}'' then close [] p
      else need tb (parse_construct_field rec p) (\<lambda>f p. iterate (more_fields rec tb) [f] (skip_trivia p) close))"

definition parse_construct :: "knot \<Rightarrow> parser \<Rightarrow> unit flow" where
  "parse_construct rec p =
     (let tb = pr_pos p; p = skip p in
      if check_symbol p ''{'' then construct_fields rec tb None p
      else need tb (rec Raw_type_atom p) (\<lambda>ty p. let p = skip_trivia p in
        if \<not> check_symbol p ''{'' then ast_error_new tb p
        else construct_fields rec tb (Some ty) p))"

definition unary_kind :: "strslice \<Rightarrow> node \<Rightarrow> node kind" where
  "unary_kind s operand =
     (if s = ''const'' then Ty (AST_CONST operand)
      else if s = ''volatile'' then Ty (AST_VOLATILE operand)
      else if s = ''?'' then Ty (AST_OPTION operand)
      else Op (AST_UNARY s operand))"

definition parse_unary :: "knot \<Rightarrow> (string \<Rightarrow> string \<Rightarrow> bool) \<Rightarrow> parser \<Rightarrow> unit flow" where
  "parse_unary rec over p =
     (let tb = pr_pos p in
      if check_keyword p ''sizeof'' then parse_of rec True AST_SIZEOF p
      else if check_keyword p ''alignof'' then parse_of rec True AST_ALIGNOF p
      else if check_keyword p ''typeof'' then parse_of rec False AST_TYPEOF p
      else if check_symbol p ''.'' then parse_construct rec p
      else if check_symbol p ''!'' \<or> check_symbol p ''~'' \<or> check_symbol p ''-'' \<or> check_symbol p ''?''
              \<or> check_keyword p ''const'' \<or> check_keyword p ''volatile'' then
        let s = name_here p in
        need tb (rec (Expr_prec 23) (skip p)) (\<lambda>operand p. give tb (unary_kind s operand) p)
      else parse_primary rec over p)"

section \<open>Types with arguments\<close>

definition qualified_loop :: "node \<Rightarrow> parser \<Rightarrow> node flow" where
  "qualified_loop t p =
     (let p = skip_trivia p in
      if \<not> check_symbol p ''::'' then Break t p
      else if \<not> is_ident_node t \<and> \<not> is_scope_ref t then ast_error_new (tok_begin t) p
      else let stb = pr_pos p; p = skip p in
        if \<not> check_kind p TOKEN_TYPE_IDENTIFIER then ast_error_new stb p
        else let variant = name_here p; p = step p in Next (mk stb p (Op (AST_SCOPE_REF t variant))) p)"

definition type_args_loop :: "knot \<Rightarrow> node \<Rightarrow> parser \<Rightarrow> node flow" where
  "type_args_loop rec t p =
     (let p = skip_trivia p in
      if \<not> check_symbol p ''['' then Break t p
      else let tb = pr_pos p; p = skip p;
               close = (\<lambda>ixs p. expect '']'' tb p (\<lambda>p. Next (mk tb p (Op (AST_INDEX t ixs))) (skip_trivia p))) in
        if check_symbol p '']'' then close [] p
        else need tb (rec Raw_type_atom p) (\<lambda>i p. comma_loop tb (rec Raw_type_atom) [i] (skip_trivia p) close))"

definition parse_type_with_index :: "knot \<Rightarrow> parser \<Rightarrow> unit flow" where
  "parse_type_with_index rec p =
     pass (rec Unary p) (\<lambda>t p. iterate qualified_loop t p (\<lambda>t p.
       iterate (type_args_loop rec) t p (\<lambda>t p. Return (Some t) p)))"

section \<open>Postfix operators\<close>

definition parse_call_arg :: "knot \<Rightarrow> parser \<Rightarrow> unit flow" where
  "parse_call_arg rec p =
     (let p = skip_trivia p in if check_symbol p ''...'' then parse_spread rec p else rec (Expr_prec 0) p)"

text \<open>
  \<open>assert(expr)\<close> gets the text of its argument as a second one. The text between two tokens of the
  pool is that of the tokens between them.
\<close>

definition is_blank :: "char \<Rightarrow> bool" where
  "is_blank c \<longleftrightarrow> c = CHR '' '' \<or> c = CHR 0x09 \<or> c = CHR 0x0A \<or> c = CHR 0x0D"

definition trim_blanks :: "string \<Rightarrow> string" where
  "trim_blanks s = rev (dropWhile is_blank (rev (dropWhile is_blank s)))"

definition assert_open :: "token list \<Rightarrow> nat \<Rightarrow> nat \<Rightarrow> nat option" where
  "assert_open ts a b =
     find (\<lambda>i. i < length ts \<and> tk_kind (ts ! i) = TOKEN_TYPE_SYMBOL \<and> token_is (ts ! i) ''('') [a ..< b]"

definition rewrite_assert_call :: "parser \<Rightarrow> node \<Rightarrow> node list \<Rightarrow> node list" where
  "rewrite_assert_call p callee args =
     (case (kind_of callee, args) of
        (Atom (AST_IDENT name), [arg]) \<Rightarrow>
          if name \<noteq> ''assert'' \<or> is_error arg \<or> tok_end arg \<le> tok_begin arg \<or> length (pr_tokens p) < tok_end arg then args
          else (case assert_open (pr_tokens p) (tok_begin callee + 1) (tok_end arg) of
                  None \<Rightarrow> args
                | Some i \<Rightarrow>
                    if i = tok_end arg - 1 then args
                    else let txt = concat (map tk_text (slice (pr_tokens p) (i + 1) (tok_end arg - (i + 1)))) in
                      [arg, Node (tok_begin arg) (tok_end arg) False (Atom (AST_STRING_LIT (trim_blanks txt) True))])
      | _ \<Rightarrow> args)"

definition postfix_scope :: "node \<Rightarrow> parser \<Rightarrow> node flow" where
  "postfix_scope lhs p =
     (if \<not> is_ident_node lhs \<and> \<not> is_scope_ref lhs \<and> \<not> index_of_ident lhs then ast_error_new (tok_begin lhs) p
      else let tb = pr_pos p; p = skip p in
        if \<not> check_kind p TOKEN_TYPE_IDENTIFIER then ast_error_new tb p
        else let variant = name_here p; p = step p in Next (mk tb p (Op (AST_SCOPE_REF lhs variant))) p)"

definition postfix_call :: "knot \<Rightarrow> node \<Rightarrow> parser \<Rightarrow> node flow" where
  "postfix_call rec lhs p =
     (let tb = pr_pos p; p = skip p;
          close = (\<lambda>args p. expect '')'' tb p (\<lambda>p. Next (mk tb p (Op (AST_CALL lhs (rewrite_assert_call p lhs args)))) p)) in
      if check_symbol p '')'' then close [] p
      else need tb (parse_call_arg rec p) (\<lambda>arg p. comma_loop tb (parse_call_arg rec) [arg] (skip_trivia p) close))"

definition postfix_dot :: "node \<Rightarrow> parser \<Rightarrow> node flow" where
  "postfix_dot lhs p =
     (let tb = pr_pos p; p = skip p in
      if check_symbol p ''!'' \<or> check_symbol p ''?'' then
        let s = name_here p; p = step p in Next (mk tb p (Op (AST_UNWRAP lhs s))) p
      else if check_symbol p ''&'' then let p = step p in Next (mk tb p (Op (AST_ADDR lhs))) p
      else if check_symbol p ''*'' then let p = step p in Next (mk tb p (Op (AST_DEREF lhs))) p
      else if \<not> check_kind p TOKEN_TYPE_IDENTIFIER then ast_error_new tb p
      else let field = name_here p; p = step p in Next (mk tb p (Op (AST_MEMBER lhs field))) p)"

text \<open>The part of a slice after the colon.\<close>

definition slice_high :: "knot \<Rightarrow> nat \<Rightarrow> node \<Rightarrow> node option \<Rightarrow> parser \<Rightarrow> node flow" where
  "slice_high rec tb lhs low p =
     (let p = skip p;
          close = (\<lambda>high p. expect '']'' tb (skip_trivia p) (\<lambda>p. Next (mk tb p (Op (AST_SLICE lhs low high))) p)) in
      if check_symbol p '']'' then close None p
      else need tb (rec (Expr_prec 0) p) (\<lambda>high p. close (Some high) p))"

definition postfix_index :: "knot \<Rightarrow> node \<Rightarrow> parser \<Rightarrow> node flow" where
  "postfix_index rec lhs p =
     (let tb = pr_pos p; p = skip p in
      if check_symbol p '':'' then slice_high rec tb lhs None p
      else if check_symbol p '']'' then let p = skip p in Next (mk tb p (Op (AST_INDEX lhs []))) p
      else need tb (rec (Expr_prec 0) p) (\<lambda>i p. let p = skip_trivia p in
        if check_symbol p '':'' then slice_high rec tb lhs (Some i) p
        else comma_loop tb (rec (Expr_prec 0)) [i] p (\<lambda>ixs p.
               expect '']'' tb p (\<lambda>p. Next (mk tb p (Op (AST_INDEX lhs ixs))) p))))"

definition postfix_loop :: "knot \<Rightarrow> node \<Rightarrow> parser \<Rightarrow> node flow" where
  "postfix_loop rec lhs p =
     (let p = skip_trivia p in
      if check_symbol p ''::'' then postfix_scope lhs p
      else if check_symbol p ''('' then postfix_call rec lhs p
      else if check_symbol p ''.'' then postfix_dot lhs p
      else if check_symbol p ''['' then postfix_index rec lhs p
      else Break lhs p)"

definition parse_postfix :: "knot \<Rightarrow> node \<Rightarrow> parser \<Rightarrow> unit flow" where
  "parse_postfix rec lhs p = iterate (postfix_loop rec) lhs p (\<lambda>lhs p. Return (Some lhs) p)"

section \<open>Infix operators\<close>

definition infix_ternary :: "knot \<Rightarrow> node \<Rightarrow> parser \<Rightarrow> node flow" where
  "infix_ternary rec left p =
     (let op_pos = pr_pos p in
      need op_pos (rec (Expr_prec 0) (skip p)) (\<lambda>t p. expect '':'' op_pos (skip_trivia p) (\<lambda>p.
      need op_pos (rec (Expr_prec 0) (skip_trivia p)) (\<lambda>e p.
      Next (mk (tok_begin left) p (Op (AST_TERNARY left t e))) p))))"

definition infix_assign :: "knot \<Rightarrow> node \<Rightarrow> parser \<Rightarrow> node flow" where
  "infix_assign rec left p =
     (let op_tok = name_here p; op_pos = pr_pos p in
      if \<not> assign_target left then ast_error_new (tok_begin left) p
      else need op_pos (rec (Expr_prec 0) (skip p)) (\<lambda>value p.
        Next (mk (tok_begin left) p (Op (AST_ASSIGN left op_tok value))) p))"

text \<open>The right side of a cast: a type atom.\<close>

definition cast_type :: "knot \<Rightarrow> parser \<Rightarrow> unit flow" where
  "cast_type rec p =
     (let tb = pr_pos p; q = skip p in
      if check_symbol p ''*'' then
        pass (rec (Expr_prec 22) q) (\<lambda>base p. give tb (Ty (AST_PTR base)) p)
      else if check_symbol p ''['' \<and> check_symbol q '']'' then
        pass (rec (Expr_prec 22) (skip q)) (\<lambda>elem p. give tb (Ty (AST_SLICE_TYPE elem)) p)
      else rec (Expr_prec 22) p)"

definition infix_binary :: "knot \<Rightarrow> strslice \<Rightarrow> bool \<Rightarrow> int \<Rightarrow> node \<Rightarrow> parser \<Rightarrow> node flow" where
  "infix_binary rec op_tok syn rp left p =
     (let op_pos = pr_pos p; p = (if syn then skip (skip p) else skip p) in
      need op_pos (if op_tok = ''extends'' then parse_pattern rec p
                   else if op_tok = ''as'' then cast_type rec p
                   else rec (Expr_prec rp) p) (\<lambda>rhs p.
      Next (mk op_pos p (Op (AST_BINARY op_tok left rhs))) p))"

definition infix_loop :: "knot \<Rightarrow> int \<Rightarrow> node \<Rightarrow> parser \<Rightarrow> node flow" where
  "infix_loop rec min_prec left p =
     (let p = skip_trivia p in
      if check_symbol p ''?'' then if 0 < min_prec then Break left p else infix_ternary rec left p
      else if is_assign_op_token (cur_token p) then if 0 < min_prec then Break left p else infix_assign rec left p
      else if check_symbol p ''('' \<or> check_symbol p ''.'' \<or> check_symbol p ''['' \<or> check_symbol p ''::'' then
        if 25 < min_prec then Break left p
        else pass (parse_postfix rec left p) (\<lambda>left p. Next left p)
      else let syn = (if check_symbol p ''<'' \<or> check_symbol p ''>'' then synthesize_shift_token p else None);
               op_tok = (case syn of Some (s, _) \<Rightarrow> s | None \<Rightarrow> name_here p);
               kind = (case syn of Some _ \<Rightarrow> TOKEN_TYPE_SYMBOL | None \<Rightarrow> token_get_kind (cur_token p)) in
        if pr_pipe p > 0 \<and> check_symbol p ''|'' then Break left p
        else (case infix_binding kind op_tok of
            None \<Rightarrow> Break left p
          | Some (lp, rp) \<Rightarrow>
              if lp < min_prec then Break left p
              else infix_binary rec op_tok (syn \<noteq> None) rp left p))"

definition parse_expr_prec :: "knot \<Rightarrow> int \<Rightarrow> parser \<Rightarrow> unit flow" where
  "parse_expr_prec rec min_prec p =
     pass (rec Unary p) (\<lambda>left p. iterate (infix_loop rec min_prec) left p (\<lambda>left p. Return (Some left) p))"

end
