(* ===== verification/ParseDecl.thy ===== *)
theory ParseDecl
  imports ParseExpr
begin

text \<open>
  Declarations: decorators (\<open>src/parser/parser.c\<close>), variables, type names, enumerations, structures,
  unions, bit fields and interfaces (\<open>parse_*_def.c\<close>, \<open>parse_bitfield.c\<close>, \<open>parse_interface.c\<close>).
\<close>

section \<open>Decorators\<close>

text \<open>
  The chain of the decorators in front of a declaration; a decorator that is not closed gives a chain
  of one error node.
\<close>

definition error_chain :: "node list \<Rightarrow> bool" where
  "error_chain ds \<longleftrightarrow> (case ds of [] \<Rightarrow> False | d # _ \<Rightarrow> is_error d)"

definition decorator_loop :: "knot \<Rightarrow> node list \<Rightarrow> parser \<Rightarrow> node list flow" where
  "decorator_loop rec acc p =
     (let p = skip_trivia p; tb = pr_pos p; q = skip p in
      if \<not> check_symbol p ''['' then Break acc p
      else if \<not> check_symbol q ''['' then Break acc p
      else (case rec (Expr_prec 0) (skip q) of
          Return (Some expr) p \<Rightarrow>
            if is_error expr then Break acc p
            else let p = skip_trivia p in
              if \<not> check_symbol p '']'' then Break [mk tb p AST_ERROR] p
              else let p = skip p in
                if \<not> check_symbol p '']'' then Break [mk tb p AST_ERROR] p
                else Next (acc @ [Node tb (tok_end expr) (is_exported expr) (kind_of expr)]) (step p)
        | Return None p \<Rightarrow> Break acc p
        | _ \<Rightarrow> Stuck))"

definition parse_decorator_prefixes :: "knot \<Rightarrow> parser \<Rightarrow> (node list \<Rightarrow> parser \<Rightarrow> 'a flow) \<Rightarrow> 'a flow" where
  "parse_decorator_prefixes rec p k = iterate (decorator_loop rec) [] p k"

primrec func_decorators :: "node list \<Rightarrow> node ast_func_def \<Rightarrow> node ast_func_def" where
  "func_decorators d (Func_def n c ps r b ct cf ex va lib ds g) = Func_def n c ps r b ct cf ex va lib d g"

primrec var_decorators :: "node list \<Rightarrow> node ast_var_def \<Rightarrow> node ast_var_def" where
  "var_decorators d (Var_def n t i ct ex lib ds us) = Var_def n t i ct ex lib d us"

primrec struct_decorators :: "node list \<Rightarrow> node ast_struct_def \<Rightarrow> node ast_struct_def" where
  "struct_decorators d (Struct_def n fs ms es g im b ds) = Struct_def n fs ms es g im b d"

text \<open>The declaration with its decorators, where its kind has them.\<close>

definition decorate :: "node list \<Rightarrow> node \<Rightarrow> node option" where
  "decorate d n =
     (let new = (\<lambda>k. Some (Node (tok_begin n) (tok_end n) (is_exported n) (Decl k))) in
      case kind_of n of
        Decl (AST_FUNC_DEF f) \<Rightarrow> new (AST_FUNC_DEF (func_decorators d f))
      | Decl (AST_VAR_DEF v) \<Rightarrow> new (AST_VAR_DEF (var_decorators d v))
      | Decl (AST_STRUCT_DEF s) \<Rightarrow> new (AST_STRUCT_DEF (struct_decorators d s))
      | Decl (AST_ENUM_DEF name u vs g _) \<Rightarrow> new (AST_ENUM_DEF name u vs g d)
      | Decl (AST_UNION_DEF name fs g _) \<Rightarrow> new (AST_UNION_DEF name fs g d)
      | Decl (AST_CUNION_DEF name fs _) \<Rightarrow> new (AST_CUNION_DEF name fs d)
      | Decl (AST_TYPE_DEF name e g _) \<Rightarrow> new (AST_TYPE_DEF name e g d)
      | _ \<Rightarrow> None)"

definition decorate_member :: "node list \<Rightarrow> node \<Rightarrow> node" where
  "decorate_member d n = (if d = [] then n else case decorate d n of Some m \<Rightarrow> m | None \<Rightarrow> n)"

section \<open>Variables and type names\<close>

text \<open>A declared name: an identifier that is not reserved.\<close>

definition declared_name :: "nat \<Rightarrow> parser \<Rightarrow> (strslice \<Rightarrow> parser \<Rightarrow> 'a flow) \<Rightarrow> 'a flow" where
  "declared_name tb p k =
     (if \<not> check_kind p TOKEN_TYPE_IDENTIFIER then ast_error_new tb p
      else reserved_name p (\<lambda>p. let name = name_here p in k name (skip p)))"

definition opt_type :: "knot \<Rightarrow> nat \<Rightarrow> parser \<Rightarrow> (node option \<Rightarrow> parser \<Rightarrow> 'a flow) \<Rightarrow> 'a flow" where
  "opt_type rec tb p k =
     (if check_symbol p '':'' then need tb (rec Type_prefix (skip p)) (\<lambda>ty p. k (Some ty) p) else k None p)"

definition parse_var_like :: "knot \<Rightarrow> string \<Rightarrow> bool \<Rightarrow> parser \<Rightarrow> unit flow" where
  "parse_var_like rec kw is_using p =
     (let tb = pr_pos p in
      if \<not> check_keyword p kw then missing p
      else declared_name tb (skip p) (\<lambda>name p. opt_type rec tb p (\<lambda>ty p.
        if \<not> check_symbol p ''='' then ast_error_new tb p
        else need_here (rec (Expr_prec 0) (skip p)) (\<lambda>i p. expect '';'' tb (skip_trivia p) (\<lambda>p.
          give tb (Decl (AST_VAR_DEF (Var_def name ty (Some i) False False [] [] is_using))) p)))))"

definition parse_var_def :: "knot \<Rightarrow> parser \<Rightarrow> unit flow" where
  "parse_var_def rec = parse_var_like rec ''var'' False"

definition parse_using :: "knot \<Rightarrow> parser \<Rightarrow> unit flow" where
  "parse_using rec = parse_var_like rec ''using'' True"

definition parse_type_def :: "knot \<Rightarrow> parser \<Rightarrow> unit flow" where
  "parse_type_def rec p =
     (let tb = pr_pos p in
      if \<not> check_keyword p ''type'' then missing p
      else declared_name tb (skip p) (\<lambda>name p. opt_generic rec p (\<lambda>generic p.
        if \<not> check_symbol p ''='' then ast_error_new tb p
        else let p = skip p in
          need_here (if check_symbol p ''*'' then rec Raw_type_atom p else rec (Expr_prec 0) p) (\<lambda>e p.
          expect '';'' tb (skip_trivia p) (\<lambda>p. give tb (Decl (AST_TYPE_DEF name e generic [])) p)))))"

section \<open>Enumerations\<close>

definition enum_variant :: "knot \<Rightarrow> nat \<Rightarrow> node list \<Rightarrow> parser \<Rightarrow> node list flow" where
  "enum_variant rec tb acc p =
     (let vb = pr_pos p in
      declared_name tb p (\<lambda>vname p.
        if \<not> check_symbol p ''='' then ast_error_new vb p
        else need_here (rec (Expr_prec 0) (skip p)) (\<lambda>val p. let p = skip_trivia p;
          acc = acc @ [mk vb p (Decl (AST_ENUM_VARIANT vname val))] in
          if check_symbol p '','' then
            let p = skip p in if check_symbol p ''}'' then Break acc p else Next acc p
          else Break acc p)))"

definition parse_enum_def :: "knot \<Rightarrow> parser \<Rightarrow> unit flow" where
  "parse_enum_def rec p =
     (let tb = pr_pos p in
      if \<not> check_keyword p ''enum'' then missing p
      else declared_name tb (skip p) (\<lambda>name p. opt_generic rec p (\<lambda>generic p.
        if \<not> check_symbol p '':'' then ast_error_new tb p
        else need_here (rec (Expr_prec 0) (skip p)) (\<lambda>underlying p. expect ''{'' tb (skip_trivia p) (\<lambda>p.
          let p = skip_trivia p in
          if check_symbol p ''}'' then ast_error_new tb p
          else iterate (enum_variant rec tb) [] p (\<lambda>vs p. expect ''}'' tb p (\<lambda>p.
            give tb (Decl (AST_ENUM_DEF name underlying vs generic [])) p)))))))"

section \<open>Structures and unions\<close>

text \<open>A field \<open>name: type\<close>; \<open>k\<close> goes on after it.\<close>

definition struct_field :: "knot \<Rightarrow> nat \<Rightarrow> node list \<Rightarrow> parser \<Rightarrow> (node \<Rightarrow> parser \<Rightarrow> 'a flow) \<Rightarrow> 'a flow" where
  "struct_field rec tb ds p k =
     (let fb = pr_pos p in
      declared_name tb p (\<lambda>fname p.
        if \<not> check_symbol p '':'' then ast_error_new fb p
        else need_here (rec Raw_type_atom (skip p)) (\<lambda>ftype p. let p = skip_trivia p in
          k (mk fb p (Decl (AST_STRUCT_FIELD fname ftype ds))) p)))"

text \<open>The loop over the fields of \<open>union\<close> and \<open>cunion\<close>.\<close>

definition union_field :: "knot \<Rightarrow> nat \<Rightarrow> node list \<Rightarrow> parser \<Rightarrow> node list flow" where
  "union_field rec tb acc p =
     (if check_symbol p ''}'' then Break acc p
      else struct_field rec tb [] p (\<lambda>f p.
        if check_symbol p '';'' then Next (acc @ [f]) (skip p) else Break (acc @ [f]) p))"

definition parse_union_def :: "knot \<Rightarrow> parser \<Rightarrow> unit flow" where
  "parse_union_def rec p =
     (let tb = pr_pos p in
      if \<not> check_keyword p ''union'' then missing p
      else declared_name tb (skip p) (\<lambda>name p. opt_generic rec p (\<lambda>generic p. expect ''{'' tb p (\<lambda>p.
        let p = skip_trivia p in
        if check_symbol p ''}'' then ast_error_new tb p
        else iterate (union_field rec tb) [] p (\<lambda>fs p. expect ''}'' tb p (\<lambda>p.
          give tb (Decl (AST_UNION_DEF name fs generic [])) p))))))"

definition parse_cunion_def :: "knot \<Rightarrow> parser \<Rightarrow> unit flow" where
  "parse_cunion_def rec p =
     (let tb = pr_pos p in
      if \<not> check_keyword p ''cunion'' then missing p
      else declared_name tb (skip p) (\<lambda>name p.
        if check_symbol p ''['' then ast_error_new tb p
        else expect ''{'' tb p (\<lambda>p.
          iterate (union_field rec tb) [] (skip_trivia p) (\<lambda>fs p. expect ''}'' tb p (\<lambda>p.
            give tb (Decl (AST_CUNION_DEF name fs [])) p)))))"

text \<open>A member function may have a name that starts with two underscores.\<close>

definition with_magic :: "(parser \<Rightarrow> unit flow) \<Rightarrow> parser \<Rightarrow> unit flow" where
  "with_magic f p =
     (case f (p\<lparr>pr_magic := True\<rparr>) of
        Return v q \<Rightarrow> Return v (q\<lparr>pr_magic := pr_magic p\<rparr>)
      | r \<Rightarrow> r)"

type_synonym members = "node list \<times> node list \<times> node list"

definition struct_embed :: "members \<Rightarrow> parser \<Rightarrow> members flow" where
  "struct_embed st p =
     (case st of (fs, ms, es) \<Rightarrow>
      let eb = pr_pos p in
      declared_name eb (skip p) (\<lambda>ename p.
        let es = es @ [mk eb p (Decl (AST_STRUCT_EMBED ename None (length fs)))] in
        if check_symbol p '';'' then Next (fs, ms, es) (skip p) else Break (fs, ms, es) p))"

definition struct_member :: "knot \<Rightarrow> nat \<Rightarrow> members \<Rightarrow> parser \<Rightarrow> members flow" where
  "struct_member rec tb st p =
     (case st of (fs, ms, es) \<Rightarrow>
      let p = skip_trivia p in
      if check_symbol p ''}'' then Break st p
      else parse_decorator_prefixes rec p (\<lambda>ds p.
        if error_chain ds then Return (Some (hd ds)) p
        else let p = skip_trivia p in
          if check_symbol p ''}'' then
            if ds \<noteq> [] then ast_error_new (tok_begin (hd ds)) p else Break st p
          else if check_symbol p ''...'' then struct_embed st p
          else if check_keyword p ''var'' then
            pass (parse_var_def rec p) (\<lambda>m p. Next (fs, ms @ [decorate_member ds m], es) p)
          else if check_keyword p ''func'' then
            pass (with_magic (parse_func_def rec) p) (\<lambda>m p. Next (fs, ms @ [decorate_member ds m], es) p)
          else struct_field rec tb ds p (\<lambda>f p.
            if check_symbol p '';'' then Next (fs @ [f], ms, es) (skip p) else Break (fs @ [f], ms, es) p)))"

definition implements_list :: "knot \<Rightarrow> nat \<Rightarrow> parser \<Rightarrow> (node list \<Rightarrow> parser \<Rightarrow> 'a flow) \<Rightarrow> 'a flow" where
  "implements_list rec tb p k =
     (if check_keyword p ''implements'' then comma_list tb ''&'' (parse_type_with_index rec) (skip p) k else k [] p)"

definition parse_struct_def :: "knot \<Rightarrow> parser \<Rightarrow> unit flow" where
  "parse_struct_def rec p =
     (let tb = pr_pos p in
      if \<not> check_keyword p ''struct'' then missing p
      else declared_name tb (skip p) (\<lambda>name p. opt_generic rec p (\<lambda>generic p. implements_list rec tb p (\<lambda>im p.
        expect ''{'' tb p (\<lambda>p.
          iterate (struct_member rec tb) ([], [], []) (skip_trivia p) (\<lambda>(fs, ms, es) p. expect ''}'' tb p (\<lambda>p.
            give tb (Decl (AST_STRUCT_DEF (Struct_def name fs ms es generic im None []))) p)))))))"

section \<open>Bit fields\<close>

definition word_bits_of :: "strslice \<Rightarrow> 32 word" where
  "word_bits_of s = (if s = ''u8'' then 8 else if s = ''u16'' then 16 else if s = ''u32'' then 32
     else if s = ''u64'' then 64 else 0)"

definition bitfield_field :: "nat \<Rightarrow> 32 word \<Rightarrow> ast_bitfield_field list \<times> 64 word \<Rightarrow> parser \<Rightarrow> (ast_bitfield_field list \<times> 64 word) flow" where
  "bitfield_field tb word_bits st p =
     (case st of (bf, bits) \<Rightarrow>
      if check_symbol p ''}'' then Break st p
      else if length bf \<ge> 128 then ast_error_new tb p
      else if \<not> check_kind p TOKEN_TYPE_IDENTIFIER then Return (Some (Node (pr_pos p) (pr_pos p + 1) False AST_ERROR)) p
      else reserved_name p (\<lambda>p. let fname = name_here p in
        expect '':'' tb (skip p) (\<lambda>p.
          case parse_int_lit (skip_trivia p) of
            (Int_lit b e width _, p) \<Rightarrow>
              if width = 0 \<or> width > ucast word_bits then Return (Some (Node b e False AST_ERROR)) p
              else if list_ex (\<lambda>f. bf_name f = fname) bf then Return (Some (Node b e False AST_ERROR)) p
              else if bits + width > 4294967295 then ast_error_new tb p
              else let bf = bf @ [Bitfield_field fname (ucast bits) (ucast width)]; p = skip_trivia p in
                Next (bf, bits + width) (if check_symbol p '';'' then skip p else p)
          | (_, p) \<Rightarrow> ast_error_new tb p)))"

definition parse_bitfield_def :: "parser \<Rightarrow> unit flow" where
  "parse_bitfield_def p =
     (let tb = pr_pos p in
      declared_name tb (skip p) (\<lambda>name p. expect '':'' tb p (\<lambda>p. let p = skip_trivia p in
        if \<not> check_kind p TOKEN_TYPE_IDENTIFIER \<and> \<not> check_kind p TOKEN_TYPE_KEYWORD then ast_error_new tb p
        else let uname = name_here p; word_bits = word_bits_of uname;
                 underlying = Node (pr_pos p) (pr_pos p + 1) False (Atom (AST_IDENT uname)) in
          if word_bits = 0 then ast_error_new tb p
          else expect ''{'' tb (skip p) (\<lambda>p.
            iterate (bitfield_field tb word_bits) ([], 0) (skip_trivia p) (\<lambda>(bf, bits) p.
              if length bf = 0 then ast_error_new tb p
              else expect ''}'' tb p (\<lambda>p. let wc = (bits + ucast word_bits - 1) div ucast word_bits in
                if wc = 0 \<or> wc > 4294967295 then ast_error_new tb p
                else let len = mk tb p (Atom (AST_INT_LIT (ucast (ucast wc :: 32 word)) ''u64''));
                         arr = mk tb p (Ty (AST_ARRAY underlying len));
                         hfield = mk tb p (Decl (AST_STRUCT_FIELD ''__bits'' arr [])) in
                  give tb (Decl (AST_STRUCT_DEF (Struct_def name [hfield] [] [] [] []
                    (Some (Bitfield underlying word_bits (ucast bits) (ucast wc) bf)) []))) p))))))"

section \<open>Interfaces\<close>

definition parse_iface_func :: "knot \<Rightarrow> nat \<Rightarrow> parser \<Rightarrow> unit flow" where
  "parse_iface_func rec tb p =
     (let p = skip_trivia p in
      if \<not> check_kind p TOKEN_TYPE_IDENTIFIER then ast_error_new tb p
      else let name = name_here p in expect ''('' tb (skip p) (\<lambda>p. let p = skip_trivia p;
        close = (\<lambda>params p. expect '')'' tb p (\<lambda>p. let p = skip_trivia p;
          finish = (\<lambda>ret p. expect '';'' tb p (\<lambda>p.
            give tb (Decl (AST_FUNC_DEF (Func_def name [] params ret None False False False False [] [] []))) p)) in
          if check_symbol p '':'' then need tb (rec Type_prefix (skip p)) (\<lambda>r p. finish (Some r) (skip_trivia p))
          else finish None p)) in
        if check_symbol p '')'' then close [] p else comma_list tb '','' (parse_param rec) p close))"

definition parse_iface_var :: "knot \<Rightarrow> nat \<Rightarrow> parser \<Rightarrow> unit flow" where
  "parse_iface_var rec tb p =
     (let p = skip_trivia p in
      if \<not> check_kind p TOKEN_TYPE_IDENTIFIER then ast_error_new tb p
      else let name = name_here p in expect '':'' tb (skip p) (\<lambda>p.
        need tb (rec Type_prefix (skip_trivia p)) (\<lambda>ty p. expect '';'' tb (skip_trivia p) (\<lambda>p.
          Return (Some (var_node tb p name (Some ty) None)) p))))"

definition embed_name :: "node \<Rightarrow> strslice" where
  "embed_name et = (case kind_of et of
      Atom (AST_IDENT name) \<Rightarrow> name
    | Op (AST_INDEX ob _) \<Rightarrow> (case kind_of ob of Atom (AST_IDENT name) \<Rightarrow> name | _ \<Rightarrow> [])
    | _ \<Rightarrow> [])"

definition interface_member :: "knot \<Rightarrow> nat \<Rightarrow> node list \<times> node list \<Rightarrow> parser \<Rightarrow> (node list \<times> node list) flow" where
  "interface_member rec tb st p =
     (case st of (ms, es) \<Rightarrow>
      let p = skip_trivia p in
      if check_symbol p ''}'' then Break st p
      else if check_symbol p ''...'' then
        let eb = pr_pos p in
        need eb (parse_type_with_index rec (skip p)) (\<lambda>et p. expect '';'' eb (skip_trivia p) (\<lambda>p.
          Next (ms, es @ [mk eb p (Decl (AST_STRUCT_EMBED (embed_name et) (Some et) 0))]) p))
      else if check_keyword p ''comptime'' then ast_error_new tb p
      else if check_keyword p ''var'' then
        pass (parse_iface_var rec tb (step p)) (\<lambda>m p. Next (ms @ [m], es) p)
      else if check_keyword p ''func'' then
        let fb = pr_pos p in
        pass (parse_iface_func rec fb (step p)) (\<lambda>m p.
          Next (ms @ [Node fb (tok_end m) (is_exported m) (kind_of m)], es) p)
      else ast_error_new tb p)"

definition parse_interface_def :: "knot \<Rightarrow> parser \<Rightarrow> unit flow" where
  "parse_interface_def rec p =
     (let tb = pr_pos p in
      if \<not> check_keyword p ''interface'' then missing p
      else let p = skip p in
        if \<not> check_kind p TOKEN_TYPE_IDENTIFIER then ast_error_new tb p
        else let name = name_here p in opt_generic rec (skip p) (\<lambda>generic p. expect ''{'' tb p (\<lambda>p.
          iterate (interface_member rec tb) ([], []) (skip_trivia p) (\<lambda>(ms, es) p. expect ''}'' tb p (\<lambda>p.
            give tb (Decl (AST_INTERFACE_DEF name generic ms es)) p)))))"

end
