(* ===== verification/ParseStmt.thy ===== *)
theory ParseStmt
  imports ParseDecl
begin

text \<open>Statements (\<open>src/parser/parse_stmt.c\<close> and the files of its statements).\<close>

section \<open>Conditionals and loops\<close>

text \<open>A condition in parentheses; the position after the closing one has its trivia skipped.\<close>

definition condition :: "knot \<Rightarrow> nat \<Rightarrow> parser \<Rightarrow> (node \<Rightarrow> parser \<Rightarrow> 'a flow) \<Rightarrow> 'a flow" where
  "condition rec tb p k =
     expect ''('' tb p (\<lambda>p. need tb (rec (Expr_prec 0) (skip_trivia p)) (\<lambda>c p.
     expect '')'' tb (skip_trivia p) (\<lambda>p. k c (skip_trivia p))))"

definition parse_if :: "knot \<Rightarrow> parser \<Rightarrow> unit flow" where
  "parse_if rec p =
     (let tb = pr_pos p in
      if \<not> check_keyword p ''if'' then missing p
      else condition rec tb (skip p) (\<lambda>c p. need tb (rec Block p) (\<lambda>t p.
        let after_then = pr_pos p; p = skip_trivia p in
        if check_keyword p ''else'' then
          let p = skip p in
          need tb (if check_keyword p ''if'' then rec If p else rec Block p) (\<lambda>e p.
            give tb (Stmt (AST_IF c t (Some e))) p)
        else Return (Some (Node tb after_then False (Stmt (AST_IF c t None)))) p)))"

definition parse_comptime_if :: "knot \<Rightarrow> parser \<Rightarrow> unit flow" where
  "parse_comptime_if rec p =
     (let tb = pr_pos p in
      if \<not> check_keyword p ''if'' then missing p
      else condition rec tb (skip p) (\<lambda>c p. need tb (rec Block p) (\<lambda>t p.
        let q = skip_trivia p in
        if check_keyword q ''else'' then
          let q = skip q in
          need tb (if check_keyword q ''comptime'' then rec Comptime_if (skip q)
                   else if check_keyword q ''if'' then rec Comptime_if q
                   else rec Block q) (\<lambda>e p. give tb (Stmt (AST_COMPTIME_IF c t (Some e))) p)
        else give tb (Stmt (AST_COMPTIME_IF c t None)) p)))"

definition parse_while :: "knot \<Rightarrow> parser \<Rightarrow> unit flow" where
  "parse_while rec p =
     (let tb = pr_pos p in
      if \<not> check_keyword p ''while'' then missing p
      else condition rec tb (skip p) (\<lambda>c p. need tb (rec Block p) (\<lambda>b p. give tb (Stmt (AST_WHILE c b)) p)))"

definition parse_dowhile :: "knot \<Rightarrow> parser \<Rightarrow> unit flow" where
  "parse_dowhile rec p =
     (let tb = pr_pos p in
      if \<not> check_keyword p ''do'' then missing p
      else need tb (rec Block (skip p)) (\<lambda>b p. let p = skip_trivia p in
        if \<not> check_keyword p ''while'' then ast_error_new tb p
        else condition rec tb (skip p) (\<lambda>c p. expect '';'' tb p (\<lambda>p. give tb (Stmt (AST_DOWHILE c b)) p))))"

definition parse_assign_or_expr_stmt :: "knot \<Rightarrow> parser \<Rightarrow> unit flow" where
  "parse_assign_or_expr_stmt rec p =
     (let tb = pr_pos p in
      pass (rec (Expr_prec 0) p) (\<lambda>e p. expect '';'' tb (skip_trivia p) (\<lambda>p.
        case kind_of e of
          Op (AST_ASSIGN _ _ _) \<Rightarrow> Return (Some e) p
        | _ \<Rightarrow> give tb (Stmt (AST_EXPR_STMT e)) p)))"

text \<open>The clauses of a \<open>for\<close>: each may be absent.\<close>

definition for_init :: "knot \<Rightarrow> nat \<Rightarrow> parser \<Rightarrow> (node option \<Rightarrow> parser \<Rightarrow> 'a flow) \<Rightarrow> 'a flow" where
  "for_init rec tb p k =
     (if \<not> check_symbol p '';'' then
        need tb (if check_keyword p ''var'' then parse_var_def rec p else parse_assign_or_expr_stmt rec p)
          (\<lambda>i p. k (Some i) (skip_trivia p))
      else k None (skip p))"

definition for_clause :: "knot \<Rightarrow> nat \<Rightarrow> string \<Rightarrow> parser \<Rightarrow> (node option \<Rightarrow> parser \<Rightarrow> 'a flow) \<Rightarrow> 'a flow" where
  "for_clause rec tb sy p k =
     (let close = (\<lambda>c p. expect sy tb (skip_trivia p) (\<lambda>p. k c (skip_trivia p))) in
      if \<not> check_symbol p sy then need tb (rec (Expr_prec 0) p) (\<lambda>c p. close (Some c) p) else close None p)"

definition parse_for :: "knot \<Rightarrow> parser \<Rightarrow> unit flow" where
  "parse_for rec p =
     (let tb = pr_pos p in
      if \<not> check_keyword p ''for'' then missing p
      else expect ''('' tb (skip p) (\<lambda>p. for_init rec tb (skip_trivia p) (\<lambda>i p.
        for_clause rec tb '';'' p (\<lambda>c p. for_clause rec tb '')'' p (\<lambda>u p.
        need tb (rec Block p) (\<lambda>b p. give tb (Stmt (AST_FOR i c u b)) p))))))"

definition foreach_type :: "knot \<Rightarrow> nat \<Rightarrow> bool \<Rightarrow> parser \<Rightarrow> (node option \<Rightarrow> parser \<Rightarrow> 'a flow) \<Rightarrow> 'a flow" where
  "foreach_type rec tb is_decl p k =
     (if check_symbol p '':'' then
        let p = skip p in
        if \<not> is_decl then ast_error_new tb p
        else need tb (rec Type_prefix p) (\<lambda>ty p. k (Some ty) (skip_trivia p))
      else k None p)"

definition parse_foreach :: "knot \<Rightarrow> parser \<Rightarrow> unit flow" where
  "parse_foreach rec p =
     (let tb = pr_pos p in
      if \<not> check_keyword p ''foreach'' then missing p
      else expect ''('' tb (skip p) (\<lambda>p. let p = skip_trivia p; is_decl = check_keyword p ''var'';
        p = (if is_decl then skip p else p) in
        if \<not> check_kind p TOKEN_TYPE_IDENTIFIER then ast_error_new tb p
        else reserved_name p (\<lambda>p. let name = name_here p; name_tok = pr_pos p in
          foreach_type rec tb is_decl (skip p) (\<lambda>ty p.
          if \<not> check_keyword p ''of'' then ast_error_new tb p
          else need tb (rec (Expr_prec 0) (skip p)) (\<lambda>it p. expect '')'' tb (skip_trivia p) (\<lambda>p.
            need tb (rec Block (skip_trivia p)) (\<lambda>b p.
              give tb (Stmt (AST_FOREACH name name_tok ty it b is_decl False)) (skip_trivia p))))))))"

section \<open>Switch\<close>

definition switch_case :: "knot \<Rightarrow> parser \<Rightarrow> (node \<Rightarrow> parser \<Rightarrow> 'a flow) \<Rightarrow> 'a flow" where
  "switch_case rec p k =
     (let case_tb = pr_pos p; p = skip p in
      if check_symbol p '')'' then ast_error_new case_tb p
      else comma_list case_tb '','' (\<lambda>p. rec (Expr_prec 0) (skip_trivia p)) p (\<lambda>pats p.
        expect '')'' case_tb p (\<lambda>p. expect ''->'' case_tb (skip_trivia p) (\<lambda>p.
        need case_tb (rec Block (skip_trivia p)) (\<lambda>b p. k (mk case_tb p (Stmt (AST_SWITCH_CASE pats b))) p)))))"

definition switch_item :: "knot \<Rightarrow> nat \<Rightarrow> node list \<times> node option \<Rightarrow> parser \<Rightarrow> (node list \<times> node option) flow" where
  "switch_item rec tb st p =
     (case st of (cases, default_body) \<Rightarrow>
      if check_symbol p ''}'' then Break st p
      else let p = skip_trivia p in
        if check_keyword p ''default'' then
          if default_body \<noteq> None then ast_error_new tb p
          else expect ''->'' tb (skip p) (\<lambda>p. need tb (rec Block (skip_trivia p)) (\<lambda>b p. Next (cases, Some b) (skip_trivia p)))
        else if check_symbol p ''('' then
          switch_case rec p (\<lambda>c p. Next (cases @ [c], default_body) (skip_trivia p))
        else ast_error_new tb p)"

definition parse_switch :: "knot \<Rightarrow> parser \<Rightarrow> unit flow" where
  "parse_switch rec p =
     (let tb = pr_pos p in
      if \<not> check_keyword p ''switch'' then missing p
      else condition rec tb (skip p) (\<lambda>c p. expect ''{'' tb p (\<lambda>p.
        iterate (switch_item rec tb) ([], None) (skip_trivia p) (\<lambda>(cases, d) p. expect ''}'' tb p (\<lambda>p.
          give tb (Stmt (AST_SWITCH c cases d)) p)))))"

section \<open>Other statements\<close>

definition parse_return :: "knot \<Rightarrow> parser \<Rightarrow> unit flow" where
  "parse_return rec p =
     (let tb = pr_pos p; close = (\<lambda>v p. expect '';'' tb p (\<lambda>p. give tb (Stmt (AST_RETURN v)) p)) in
      if \<not> check_keyword p ''return'' then missing p
      else let p = skip p in
        if \<not> check_symbol p '';'' then need tb (rec (Expr_prec 0) p) (\<lambda>v p. close (Some v) (skip_trivia p))
        else close None p)"

definition parse_defer :: "knot \<Rightarrow> parser \<Rightarrow> unit flow" where
  "parse_defer rec p =
     (let tb = pr_pos p;
          body = (\<lambda>caps p. need tb (rec Block p) (\<lambda>b p.
            give tb (Stmt (AST_DEFER (Func_def [] caps [] None (Some b) False False False False [] [] []))) p)) in
      if \<not> check_keyword p ''defer'' then missing p
      else let p = skip p in
        if check_symbol p ''||'' then body [] (skip p)
        else if check_symbol p ''|'' then parse_capture_list rec p body
        else body [] p)"

definition parse_static_assert :: "knot \<Rightarrow> parser \<Rightarrow> unit flow" where
  "parse_static_assert rec p =
     (let tb = pr_pos p in
      expect ''('' tb (skip p) (\<lambda>p. need tb (rec (Expr_prec 0) (skip_trivia p)) (\<lambda>c p.
      expect '','' tb (skip_trivia p) (\<lambda>p. need tb (rec (Expr_prec 0) (skip_trivia p)) (\<lambda>m p.
      expect '')'' tb (skip_trivia p) (\<lambda>p. expect '';'' tb p (\<lambda>p.
      give tb (Stmt (AST_STATIC_ASSERT c m)) p)))))))"

primrec func_comptime :: "node ast_func_def \<Rightarrow> node ast_func_def" where
  "func_comptime (Func_def n c ps r b ct cf ex va lib ds g) = Func_def n c ps r b True cf ex va lib ds g"

primrec var_comptime :: "node ast_var_def \<Rightarrow> node ast_var_def" where
  "var_comptime (Var_def n t i ct ex lib ds us) = Var_def n t i True ex lib ds us"

definition foreach_comptime :: "node \<Rightarrow> node" where
  "foreach_comptime n = (case kind_of n of
      Stmt (AST_FOREACH name nt ty it b d _) \<Rightarrow> Node (tok_begin n) (tok_end n) (is_exported n) (Stmt (AST_FOREACH name nt ty it b d True))
    | _ \<Rightarrow> n)"

definition parse_comptime_stmt :: "knot \<Rightarrow> parser \<Rightarrow> unit flow" where
  "parse_comptime_stmt rec p =
     (let tb = pr_pos p in
      if \<not> check_keyword p ''comptime'' then missing p
      else let p = skip p in
        if check_keyword p ''var'' then change (change_var var_comptime) (parse_var_def rec p)
        else if check_keyword p ''func'' then change (change_func func_comptime) (parse_func_def rec p)
        else if check_keyword p ''if'' then rec Comptime_if p
        else if check_keyword p ''foreach'' then change foreach_comptime (parse_foreach rec p)
        else ast_error_new tb p)"

definition parse_break :: "parser \<Rightarrow> unit flow" where
  "parse_break p =
     (let tb = pr_pos p in
      if \<not> check_keyword p ''break'' then missing p
      else expect '';'' tb (skip p) (\<lambda>p. give tb (Stmt AST_BREAK) p))"

definition parse_continue :: "parser \<Rightarrow> unit flow" where
  "parse_continue p =
     (let tb = pr_pos p in
      if \<not> check_keyword p ''continue'' then missing p
      else expect '';'' tb (skip p) (\<lambda>p. give tb (Stmt AST_CONTINUE) p))"

definition parse_stmt :: "knot \<Rightarrow> parser \<Rightarrow> unit flow" where
  "parse_stmt rec p =
     (let tb = pr_pos p in
      if check_symbol p ''['' \<and> check_symbol (skip p) ''['' then
        parse_decorator_prefixes rec p (\<lambda>_ p. ast_error_new tb (skip_trivia p))
      else if check_keyword p ''cfunc'' then ast_error_new tb (skip p)
      else if check_keyword p ''static_assert'' then parse_static_assert rec p
      else if check_keyword p ''comptime'' then parse_comptime_stmt rec p
      else if check_keyword p ''foreach'' then parse_foreach rec p
      else if check_keyword p ''var'' then parse_var_def rec p
      else if check_keyword p ''using'' then parse_using rec p
      else if check_keyword p ''func'' then parse_func_def rec p
      else if check_keyword p ''type'' then parse_type_def rec p
      else if check_keyword p ''enum'' then parse_enum_def rec p
      else if check_keyword p ''struct'' then parse_struct_def rec p
      else if check_keyword p ''union'' then parse_union_def rec p
      else if check_keyword p ''cunion'' then parse_cunion_def rec p
      else if check_keyword p ''if'' then rec If p
      else if check_keyword p ''switch'' then parse_switch rec p
      else if check_keyword p ''while'' then parse_while rec p
      else if check_keyword p ''do'' then parse_dowhile rec p
      else if check_keyword p ''for'' then parse_for rec p
      else if check_keyword p ''return'' then parse_return rec p
      else if check_keyword p ''break'' then parse_break p
      else if check_keyword p ''continue'' then parse_continue p
      else if check_keyword p ''defer'' then parse_defer rec p
      else if check_symbol p '';'' then give tb (Stmt AST_EMPTY_STMT) (step p)
      else if check_symbol p ''{'' then rec Block p
      else parse_assign_or_expr_stmt rec p)"

definition block_stmt :: "knot \<Rightarrow> nat \<Rightarrow> node list \<Rightarrow> parser \<Rightarrow> node list flow" where
  "block_stmt rec tb acc p =
     (if check_symbol p ''}'' then Break acc p
      else (case parse_stmt rec p of
          Return (Some s) p \<Rightarrow> if is_error s then Return (Some s) p else Next (acc @ [s]) (skip_trivia p)
        | Return None p \<Rightarrow> if pr_error p then missing p else ast_error_new tb p
        | _ \<Rightarrow> Stuck))"

definition parse_block :: "knot \<Rightarrow> parser \<Rightarrow> unit flow" where
  "parse_block rec p =
     (let tb = pr_pos p in
      if \<not> check_symbol p ''{'' then missing p
      else iterate (block_stmt rec tb) [] (skip p) (\<lambda>stmts p. expect ''}'' tb p (\<lambda>p.
        give tb (Stmt (AST_BLOCK stmts)) p)))"

end
