(* ===== verification/ParseProgram.thy ===== *)
theory ParseProgram
  imports FfiCond ParseStmt
begin

text \<open>
  Top-level declarations (\<open>src/parser/parser.c\<close>, \<open>parse_import.c\<close>, \<open>parse_test.c\<close>) and the parser
  of the entry points, by the depth of calls.
\<close>

section \<open>Imports and libraries\<close>

definition strip_quotes :: "strslice \<Rightarrow> strslice" where
  "strip_quotes s = (if length s \<ge> 2 \<and> s ! 0 = CHR 0x22 then slice s 1 (length s - 2) else s)"

definition parse_from_path :: "nat \<Rightarrow> parser \<Rightarrow> (strslice \<Rightarrow> parser \<Rightarrow> 'a flow) \<Rightarrow> 'a flow" where
  "parse_from_path tb p k =
     expect_kw ''from'' tb p (\<lambda>p. let p = skip_trivia p in
       if \<not> check_kind p TOKEN_TYPE_STRING then ast_error_new tb p
       else let path_text = name_here p in k (strip_quotes path_text) (skip p))"

definition parse_import :: "parser \<Rightarrow> unit flow" where
  "parse_import p =
     (let tb = pr_pos p; p = skip p in
      if \<not> check_kind p TOKEN_TYPE_IDENTIFIER then ast_error_new tb p
      else reserved_name p (\<lambda>p. reserved_name p (\<lambda>p. let alias = name_here p in
        parse_from_path tb (skip p) (\<lambda>path p. expect '';'' tb p (\<lambda>p. give tb (Decl (AST_IMPORT alias path)) p)))))"

definition parse_reexport :: "parser \<Rightarrow> unit flow" where
  "parse_reexport p =
     (let tb = pr_pos p in
      if \<not> check_symbol p ''*'' then missing p
      else parse_from_path tb (skip p) (\<lambda>path p. expect '';'' tb p (\<lambda>p. give tb (Decl (AST_REEXPORT path)) p)))"

definition cur_is_soft_keyword :: "parser \<Rightarrow> string \<Rightarrow> bool" where
  "cur_is_soft_keyword p kw \<longleftrightarrow>
     pr_pos p < length (pr_tokens p) \<and> (check_kind p TOKEN_TYPE_IDENTIFIER \<or> check_kind p TOKEN_TYPE_KEYWORD)
     \<and> name_here p = kw"

definition is_trivia_kind :: "token_kind \<Rightarrow> bool" where
  "is_trivia_kind k \<longleftrightarrow> k = TOKEN_TYPE_WHITESPACE \<or> k = TOKEN_TYPE_COMMENT \<or> k = TOKEN_TYPE_MULTILINE_COMMENT"

text \<open>The index of the parenthesis that closes the condition, from the tokens at index \<open>i\<close> on.\<close>

fun assert_close :: "token list \<Rightarrow> nat \<Rightarrow> int \<Rightarrow> nat option" where
  "assert_close [] i depth = None"
| "assert_close (t # ts) i depth =
     (if is_trivia_kind (tk_kind t) then assert_close ts (i + 1) depth
      else if tk_kind t = TOKEN_TYPE_EOF then None
      else if tk_kind t = TOKEN_TYPE_SYMBOL \<and> tk_text t = ''('' then assert_close ts (i + 1) (depth + 1)
      else if tk_kind t = TOKEN_TYPE_SYMBOL \<and> tk_text t = '')'' then
        if depth = 0 then Some i else assert_close ts (i + 1) (depth - 1)
      else assert_close ts (i + 1) depth)"

text \<open>The text of the condition: one blank between two tokens, none inside the parentheses.\<close>

fun assert_text :: "token list \<Rightarrow> string \<Rightarrow> bool \<Rightarrow> string" where
  "assert_text [] buf prev_open = buf"
| "assert_text (t # ts) buf prev_open =
     (if is_trivia_kind (tk_kind t) then assert_text ts buf prev_open
      else let s = tk_text t; is_close = (s = '')'');
               buf = (if buf \<noteq> [] \<and> \<not> prev_open \<and> \<not> is_close then buf @ '' '' else buf)
           in assert_text ts (buf @ s) (s = ''(''))"

definition parse_assert_cond :: "nat \<Rightarrow> parser \<Rightarrow> (strslice \<Rightarrow> parser \<Rightarrow> 'a flow) \<Rightarrow> 'a flow" where
  "parse_assert_cond tb p k =
     (let start = pr_pos p in
      case assert_close (drop start (pr_tokens p)) start 0 of
        None \<Rightarrow> ast_error_new tb p
      | Some c \<Rightarrow>
          let buf = assert_text (slice (pr_tokens p) start (c - start)) [] False in
          (case ffi_cond_validate (Some (takeWhile (\<lambda>c. c \<noteq> CHR 0x00) buf)) of
             Inr _ \<Rightarrow> k buf (p\<lparr>pr_pos := c + 1\<rparr>)
           | Inl _ \<Rightarrow> ast_error_new tb p))"

definition lib_cond :: "nat \<Rightarrow> parser \<Rightarrow> (strslice \<Rightarrow> parser \<Rightarrow> 'a flow) \<Rightarrow> 'a flow" where
  "lib_cond tb p k =
     (if cur_is_soft_keyword p ''assert'' then
        expect ''('' tb (skip p) (\<lambda>p. parse_assert_cond tb p (\<lambda>c p. k c (skip_trivia p)))
      else k [] p)"

definition parse_extern_lib :: "nat \<Rightarrow> parser \<Rightarrow> unit flow" where
  "parse_extern_lib tb p =
     expect_kw ''lib'' tb p (\<lambda>p. let p = skip_trivia p in
       if check_kind p TOKEN_TYPE_STRING then ast_error_new tb p
       else if \<not> check_kind p TOKEN_TYPE_IDENTIFIER then ast_error_new tb p
       else let alias = name_here p in
         expect_kw ''from'' tb (skip p) (\<lambda>p. let p = skip_trivia p in
           if \<not> check_kind p TOKEN_TYPE_STRING then ast_error_new tb p
           else let name = strip_quotes (name_here p); p = skip p in
             if length name = 0 then ast_error_new tb p
             else lib_cond tb p (\<lambda>c p. expect '';'' tb p (\<lambda>p. give tb (Decl (AST_EXTERN_LIB alias name c)) p))))"

section \<open>Top-level declarations\<close>

definition parse_test_block :: "knot \<Rightarrow> parser \<Rightarrow> unit flow" where
  "parse_test_block rec p =
     (let tb = pr_pos p;
          failed = (\<lambda>v p. if v = None \<and> pr_error p then missing p else ast_error_new tb p) in
      case string_lit (skip p) of
        Return (Some n) p \<Rightarrow>
          (case kind_of n of
             Atom (AST_STRING_LIT name _) \<Rightarrow>
               if length name = 0 then ast_error_new tb p
               else (case rec Block (skip_trivia p) of
                   Return (Some b) p \<Rightarrow> if is_error b then failed (Some b) p else give tb (Decl (AST_TEST name b)) p
                 | Return None p \<Rightarrow> failed None p
                 | _ \<Rightarrow> Stuck)
           | _ \<Rightarrow> failed (Some n) p)
      | Return None p \<Rightarrow> failed None p
      | _ \<Rightarrow> Stuck)"

definition at_test_block :: "parser \<Rightarrow> bool" where
  "at_test_block p \<longleftrightarrow> token_text_is (cur_token p) ''test'' \<and> check_kind (skip p) TOKEN_TYPE_STRING"

definition export_node :: "node \<Rightarrow> node" where
  "export_node n = Node (tok_begin n) (tok_end n) True (kind_of n)"

definition begin_at :: "nat \<Rightarrow> node \<Rightarrow> node" where
  "begin_at tb n = Node tb (tok_end n) (is_exported n) (kind_of n)"

text \<open>After \<open>comptime\<close>, \<open>extern\<close> and \<open>export\<close>.\<close>

definition comptime_decl :: "knot \<Rightarrow> nat \<Rightarrow> parser \<Rightarrow> unit flow" where
  "comptime_decl rec ctb p =
     (if check_keyword p ''func'' then change (change_func func_comptime) (parse_func_def rec p)
      else if check_keyword p ''var'' then change (change_var var_comptime) (parse_var_def rec p)
      else ast_error_new ctb p)"

definition extern_decl :: "knot \<Rightarrow> bool \<Rightarrow> nat \<Rightarrow> parser \<Rightarrow> unit flow" where
  "extern_decl rec lib_allowed xtb p =
     (if lib_allowed \<and> check_keyword p ''lib'' then parse_extern_lib xtb p
      else if check_keyword p ''cfunc'' then parse_extern_cfunc rec xtb p
      else if check_keyword p ''func'' then ast_error_new xtb (step p)
      else if check_keyword p ''var'' then parse_extern_var rec xtb p
      else ast_error_new xtb p)"

definition export_decl :: "knot \<Rightarrow> parser \<Rightarrow> unit flow" where
  "export_decl rec p =
     (let etb = pr_pos p; p = skip p in
      if check_symbol p ''*'' then change (begin_at etb) (parse_reexport p)
      else change export_node
       (if check_keyword p ''func'' then parse_func_def rec p
        else if check_keyword p ''cfunc'' then parse_cfunc_def rec p
        else if check_keyword p ''extern'' then extern_decl rec False (pr_pos p) (skip p)
        else if check_keyword p ''comptime'' then comptime_decl rec (pr_pos p) (skip p)
        else if check_keyword p ''var'' then parse_var_def rec p
        else if check_keyword p ''type'' then parse_type_def rec p
        else if check_keyword p ''enum'' then parse_enum_def rec p
        else if check_keyword p ''struct'' then parse_struct_def rec p
        else if check_keyword p ''union'' then parse_union_def rec p
        else if check_keyword p ''cunion'' then parse_cunion_def rec p
        else if check_keyword p ''interface'' then parse_interface_def rec p
        else ast_error_new etb p))"

definition top_decl :: "knot \<Rightarrow> parser \<Rightarrow> unit flow" where
  "top_decl rec p =
     (if at_test_block p then parse_test_block rec p
      else if check_keyword p ''comptime'' then comptime_decl rec (pr_pos p) (skip p)
      else if check_keyword p ''cfunc'' then parse_cfunc_def rec p
      else if check_keyword p ''import'' then parse_import p
      else if check_keyword p ''extern'' then extern_decl rec True (pr_pos p) (skip p)
      else if check_keyword p ''export'' then export_decl rec p
      else if check_keyword p ''type'' then parse_type_def rec p
      else if check_keyword p ''enum'' then parse_enum_def rec p
      else if check_keyword p ''bitfield'' then parse_bitfield_def p
      else if check_keyword p ''struct'' then parse_struct_def rec p
      else if check_keyword p ''union'' then parse_union_def rec p
      else if check_keyword p ''cunion'' then parse_cunion_def rec p
      else if check_keyword p ''interface'' then parse_interface_def rec p
      else if check_keyword p ''var'' then parse_var_def rec p
      else parse_func_def rec p)"

text \<open>The declaration together with the decorators in front of it.\<close>

definition with_decorators :: "node list \<Rightarrow> node option \<Rightarrow> parser \<Rightarrow> node option" where
  "with_decorators ds func p =
     (if error_chain ds then Some (hd ds)
      else case func of
        None \<Rightarrow> None
      | Some n \<Rightarrow>
          if ds = [] \<or> is_error n then Some n
          else (case decorate ds n of Some m \<Rightarrow> Some m | None \<Rightarrow> Some (mk (tok_begin n) p AST_ERROR)))"

definition program_item :: "knot \<Rightarrow> nat \<Rightarrow> node list \<Rightarrow> parser \<Rightarrow> node list flow" where
  "program_item rec tb funcs p =
     (if parser_at_end p then Break funcs p
      else parse_decorator_prefixes rec p (\<lambda>ds p.
        if parser_at_end p then Break funcs p
        else if \<not> at_test_block p \<and> check_symbol p '';'' then Next funcs (skip p)
        else (case top_decl rec p of
            Return func p \<Rightarrow>
              (case with_decorators ds func p of
                 None \<Rightarrow> if pr_recover p then Break funcs (p\<lparr>pr_error := True\<rparr>) else ast_error_new tb p
               | Some n \<Rightarrow>
                   if is_error n then
                     if pr_recover p then Break funcs (p\<lparr>pr_error := True\<rparr>) else Return (Some n) p
                   else Next (funcs @ [n]) (skip_trivia p))
          | _ \<Rightarrow> Stuck)))"

definition parse_program :: "knot \<Rightarrow> parser \<Rightarrow> unit flow" where
  "parse_program rec p =
     (let tb = pr_pos p in
      iterate (program_item rec tb) [] (skip_trivia p) (\<lambda>funcs p. give tb (Decl (AST_PROGRAM funcs)) p))"

section \<open>The entry points\<close>

definition entry :: "knot \<Rightarrow> (string \<Rightarrow> string \<Rightarrow> bool) \<Rightarrow> knot" where
  "entry rec over nt =
     (case nt of
        Expr_prec m \<Rightarrow> parse_expr_prec rec m
      | Unary \<Rightarrow> parse_unary rec over
      | Type_prefix \<Rightarrow> parse_type_prefix rec
      | Raw_type_atom \<Rightarrow> parse_raw_type_atom rec
      | Pattern_atom \<Rightarrow> parse_pattern_atom rec
      | Pattern_or \<Rightarrow> parse_pattern_or rec
      | Block \<Rightarrow> parse_block rec
      | If \<Rightarrow> parse_if rec
      | Comptime_if \<Rightarrow> parse_comptime_if rec)"

primrec parse_at :: "(string \<Rightarrow> string \<Rightarrow> bool) \<Rightarrow> nat \<Rightarrow> knot" where
  "parse_at over 0 nt p = Stuck"
| "parse_at over (Suc n) nt p = entry (parse_at over n) over nt p"

text \<open>The depth of calls that is enough for a pool of \<open>n\<close> tokens.\<close>

definition call_depth :: "nat \<Rightarrow> nat" where
  "call_depth n = 3 * n + 6"

definition parser_create :: "token list \<Rightarrow> parser" where
  "parser_create ts = \<lparr>pr_tokens = ts, pr_pos = 0, pr_error = False, pr_recover = False, pr_pipe = 0, pr_magic = False\<rparr>"

definition has_lexical_errors :: "parser \<Rightarrow> bool" where
  "has_lexical_errors p \<longleftrightarrow> list_ex (\<lambda>t. tk_kind t = TOKEN_TYPE_ERROR) (pr_tokens p)"

definition parser_parse :: "(string \<Rightarrow> string \<Rightarrow> bool) \<Rightarrow> parser \<Rightarrow> unit flow" where
  "parser_parse over p =
     (if has_lexical_errors p then missing (p\<lparr>pr_error := True\<rparr>)
      else parse_program (parse_at over (call_depth (length (pr_tokens p)))) p)"

end
