(* ===== verification/ParserFlow.thy ===== *)
theory ParserFlow
  imports ParseProgram LiteralProps
begin

text \<open>
  Every function of the parser returns: it moves the cursor forward, leaves the other settings alone,
  and a node that is no error has taken at least one token. The rules of \<open>flows\<close> follow a function
  from its start \<open>s\<close> through its early exits.
\<close>

named_theorems flow_rules
named_theorems flow_elims
named_theorems starts

section \<open>Moves of the cursor\<close>

definition later :: "parser \<Rightarrow> parser \<Rightarrow> bool" where
  "later s p \<longleftrightarrow> pr_tokens p = pr_tokens s \<and> pr_tokens s \<noteq> [] \<and> tk_kind (last (pr_tokens s)) = TOKEN_TYPE_EOF
     \<and> pr_pos s \<le> pr_pos p \<and> pr_pos p \<le> length (pr_tokens s)
     \<and> pr_recover p = pr_recover s \<and> pr_pipe p = pr_pipe s \<and> pr_magic p = pr_magic s \<and> (pr_error s \<longrightarrow> pr_error p)"

lemma later_trans [trans]: "later s p \<Longrightarrow> later p q \<Longrightarrow> later s q"
  by (auto simp: later_def)

lemma later_refl: "later s p \<Longrightarrow> later p p"
  by (auto simp: later_def)

lemma later_pos: "later s p \<Longrightarrow> pr_pos s \<le> pr_pos p"
  by (simp add: later_def)

lemma later_at: "later s p \<Longrightarrow> later s q \<Longrightarrow> pr_pos p \<le> pr_pos q \<Longrightarrow> (pr_error p \<longrightarrow> pr_error q) \<Longrightarrow> later p q"
  by (auto simp: later_def)

lemma step_eq: "step p = p\<lparr>pr_pos := (if pr_pos p < length (pr_tokens p) then pr_pos p + 1 else pr_pos p)\<rparr>"
  by (simp add: step_def advance_def)

lemma skip_trivia_le: "pr_pos p \<le> length (pr_tokens p) \<Longrightarrow> pr_pos (skip_trivia p) \<le> length (pr_tokens p)"
proof -
  assume le: "pr_pos p \<le> length (pr_tokens p)"
  have "length (takeWhile trivia (drop (pr_pos p) (pr_tokens p))) \<le> length (drop (pr_pos p) (pr_tokens p))"
    by (rule length_takeWhile_le)
  then show ?thesis using le by (simp add: skip_trivia_pos)
qed

definition past :: "parser \<Rightarrow> parser \<Rightarrow> bool" where
  "past s p \<longleftrightarrow> later s p \<and> pr_pos s < pr_pos p"

lemma past_later: "past p q \<Longrightarrow> later s p \<Longrightarrow> later s q"
  by (auto simp: past_def intro: later_trans)

lemma past_past: "past p q \<Longrightarrow> later s p \<Longrightarrow> past s q"
  by (auto simp: past_def intro: later_trans dest: later_pos)

lemma later_past: "later p q \<Longrightarrow> past s p \<Longrightarrow> past s q"
  by (auto simp: past_def intro: later_trans dest: later_pos)

lemma later_step: "later s p \<Longrightarrow> later s (step p)"
  by (auto simp: later_def step_eq)

lemma later_skip_trivia: "later s p \<Longrightarrow> later s (skip_trivia p)"
  using skip_trivia_le [of p] by (auto simp: later_def skip_trivia_pos)

lemma later_skip: "later s p \<Longrightarrow> later s (skip p)"
  by (simp add: skip_def later_skip_trivia later_step)

lemma past_step: "past s p \<Longrightarrow> past s (step p)"
  by (auto simp: past_def step_eq later_def)

lemma past_skip_trivia: "past s p \<Longrightarrow> past s (skip_trivia p)"
  using later_skip_trivia [of s p] by (auto simp: past_def skip_trivia_pos)

lemma past_skip: "past s p \<Longrightarrow> past s (skip p)"
  by (simp add: skip_def past_skip_trivia past_step)

text \<open>The cursor is before the end where the token is not the last one.\<close>

lemma kind_pos:
  assumes "later s p" "token_get_kind (cur_token p) \<noteq> TOKEN_TYPE_EOF"
  shows "pr_pos p < length (pr_tokens p)"
proof (rule ccontr)
  assume "\<not> pr_pos p < length (pr_tokens p)"
  then have "cur_token p = Some (last (pr_tokens p))"
    using assms(1) by (auto simp: later_def cur_token_def last_conv_nth)
  then show False using assms by (auto simp: later_def token_get_kind_def)
qed

definition there :: "parser \<Rightarrow> bool" where
  "there p \<longleftrightarrow> token_get_kind (cur_token p) \<noteq> TOKEN_TYPE_EOF"

lemma step_pos: "later s p \<Longrightarrow> there p \<Longrightarrow> pr_pos (step p) = Suc (pr_pos p)"
  using kind_pos [of s p] by (simp add: step_eq there_def)

lemma past_step_there: "later s p \<Longrightarrow> there p \<Longrightarrow> past s (step p)"
  using later_pos [of s p] by (simp add: past_def step_pos later_step)

lemma past_skip_there: "later s p \<Longrightarrow> there p \<Longrightarrow> past s (skip p)"
  by (simp add: skip_def past_step_there past_skip_trivia)

lemma there_symbol: "check_symbol p x \<Longrightarrow> there p"
  by (simp add: there_def check_symbol_def)

lemma there_keyword: "check_keyword p x \<Longrightarrow> there p"
  by (simp add: there_def check_keyword_def)

lemma there_kind: "check_kind p k \<Longrightarrow> k \<noteq> TOKEN_TYPE_EOF \<Longrightarrow> there p"
  by (simp add: there_def check_kind_def)

lemma there_plain_kind:
  "check_kind p TOKEN_TYPE_IDENTIFIER \<Longrightarrow> there p" "check_kind p TOKEN_TYPE_KEYWORD \<Longrightarrow> there p"
  "check_kind p TOKEN_TYPE_STRING \<Longrightarrow> there p" "check_kind p TOKEN_TYPE_NUMERIC \<Longrightarrow> there p"
  "check_kind p TOKEN_TYPE_CHARACTER \<Longrightarrow> there p" "\<not> \<not> check_kind p TOKEN_TYPE_IDENTIFIER \<Longrightarrow> there p"
  "\<not> \<not> check_symbol p x \<Longrightarrow> there p" "\<not> \<not> check_keyword p x \<Longrightarrow> there p"
  by (auto intro: there_kind there_symbol there_keyword)

lemmas there_rules = there_symbol there_keyword there_plain_kind

text \<open>A new token is taken: the check that was made first gives it.\<close>

lemma new_token:
  "there p \<Longrightarrow> later s p \<Longrightarrow> past s (step p)"
  "there p \<Longrightarrow> later s p \<Longrightarrow> past s (skip p)"
  by (rule past_step_there past_skip_there; assumption)+

lemma later_later: "later p q \<Longrightarrow> later s p \<Longrightarrow> later s q"
  by (rule later_trans)

lemmas origins = past_later past_past later_later later_past

section \<open>Rules\<close>

definition flows :: "parser \<Rightarrow> ('a \<Rightarrow> parser \<Rightarrow> bool) \<Rightarrow> ('a \<Rightarrow> parser \<Rightarrow> bool) \<Rightarrow> 'a flow \<Rightarrow> bool" where
  "flows s N B r \<longleftrightarrow> (case r of
      Stuck \<Rightarrow> False
    | Return v q \<Rightarrow> later s q \<and> (\<forall>n. v = Some n \<and> \<not> is_error n \<longrightarrow> past s q)
    | Next a q \<Rightarrow> N a q
    | Break a q \<Rightarrow> B a q)"

definition returns :: "parser \<Rightarrow> unit flow \<Rightarrow> bool" where
  "returns s r \<longleftrightarrow> flows s (\<lambda>_ _. False) (\<lambda>_ _. False) r"

lemma flows_if [flow_rules]: "(c \<Longrightarrow> flows s N B x) \<Longrightarrow> (\<not> c \<Longrightarrow> flows s N B y) \<Longrightarrow> flows s N B (if c then x else y)"
  by simp

lemma flows_missing [flow_rules]: "later s p \<Longrightarrow> flows s N B (missing p)"
  by (simp add: flows_def)

lemma flows_node: "past s p \<Longrightarrow> flows s N B (Return (Some n) p)"
  by (simp add: flows_def past_def)

lemma flows_fault: "later s p \<Longrightarrow> is_error n \<Longrightarrow> flows s N B (Return (Some n) p)"
  by (simp add: flows_def)

lemma flows_give [flow_rules]: "past s p \<Longrightarrow> flows s N B (give tb k p)"
  by (simp add: flows_def give_def past_def)

lemma flows_error [flow_rules]: "later s p \<Longrightarrow> flows s N B (ast_error_new tb p)"
  by (simp add: flows_def give_def ast_error_new_def is_error_def mk_def)

lemma flows_next [flow_rules]: "N a q \<Longrightarrow> flows s N B (Next a q)"
  by (simp add: flows_def)

lemma flows_break [flow_rules]: "B a q \<Longrightarrow> flows s N B (Break a q)"
  by (simp add: flows_def)

lemma flows_expect [flow_rules]:
  assumes "later s p" "\<And>q. past p q \<Longrightarrow> flows s N B (k q)"
  shows "flows s N B (expect sy tb p k)"
  using assms(2) [of "step p"] assms(1) later_refl [OF assms(1)]
  by (auto simp: expect_def expect_symbol_def step_def [symmetric] flows_error later_step
      intro: past_step_there there_symbol)

lemma flows_expect_kw [flow_rules]:
  assumes "later s p" "\<And>q. past p q \<Longrightarrow> flows s N B (k q)"
  shows "flows s N B (expect_kw kw tb p k)"
  using assms(2) [of "step p"] assms(1) later_refl [OF assms(1)]
  by (auto simp: expect_kw_def expect_keyword_def step_def [symmetric] flows_error later_step
      intro: past_step_there there_keyword)

lemma returnsE:
  assumes "returns p r" "later s p"
  obtains v q where "r = Return v q" "later s q" "later p q" "\<And>n. v = Some n \<Longrightarrow> \<not> is_error n \<Longrightarrow> past p q"
  using assms by (cases r) (auto simp: returns_def flows_def dest: later_trans later_pos)

lemma flows_need [flow_rules]:
  assumes "returns p r" "later s p" "\<And>n q. past p q \<Longrightarrow> flows s N B (k n q)"
  shows "flows s N B (need tb r k)"
  using assms(1,2) by (rule returnsE) (auto simp: need_def flows_error flows_fault assms(3) split: option.split)

lemma flows_need_here [flow_rules]:
  assumes "returns p r" "later s p" "\<And>n q. past p q \<Longrightarrow> flows s N B (k n q)"
  shows "flows s N B (need_here r k)"
  using assms(1,2) by (rule returnsE) (auto simp: need_here_def flows_error flows_fault assms(3) split: option.split)

lemma flows_pass [flow_rules]:
  assumes "returns p r" "later s p" "\<And>n q. past p q \<Longrightarrow> flows s N B (k n q)"
  shows "flows s N B (pass r k)"
  using assms(1,2) by (rule returnsE) (auto simp: pass_def flows_missing flows_fault assms(3) split: option.split)

lemma flows_result: "later s q \<Longrightarrow> (\<not> is_error n \<Longrightarrow> past s q) \<Longrightarrow> flows s N B (Return (Some n) q)"
  by (auto simp: flows_def)

lemma flows_first [flow_rules]:
  assumes "returns p r" "later s p" "\<And>q. later p q \<Longrightarrow> flows s N B (k q)"
  shows "flows s N B (first_of r k)"
  using assms(1,2) by (rule returnsE)
    (auto simp: first_of_def assms(3) split: option.split intro!: flows_result intro: past_past assms(2))

lemma flows_reserved [flow_rules]:
  assumes "later s p" "there p" "\<And>q. later p q \<Longrightarrow> there q \<Longrightarrow> flows s N B (k q)"
  shows "flows s N B (reserved_name p k)"
proof -
  obtain w q where r: "parse_reserved_ident_error p (cur_token p) = (w, q)" by fastforce
  have "q = p \<or> q = p\<lparr>pr_error := True\<rparr>"
    using r by (simp add: parse_reserved_ident_error_def Let_def split: if_split_asm)
  then have q: "later s q" "later p q" "there q"
    using assms(1,2) by (auto simp: later_def cur_token_def there_def)
  have e: "is_error (Node b e x AST_ERROR)" for b e x by (simp add: is_error_def)
  show ?thesis
    by (cases w) (simp_all add: reserved_name_def r flows_fault e q assms(3))
qed

text \<open>Loops: every round moves the cursor.\<close>

lemma flows_loop:
  assumes body: "\<And>a q. I a q \<Longrightarrow> later s q \<Longrightarrow>
      flows s (\<lambda>a' q'. past q q' \<and> I a' q') (\<lambda>a' q'. later s q' \<and> J a' q') (body a q)"
  shows "later s p \<Longrightarrow> I a p \<Longrightarrow> length (pr_tokens s) - pr_pos p < n \<Longrightarrow>
     flows s (\<lambda>_ _. False) (\<lambda>a' q'. later s q' \<and> J a' q') (loop n body a p)"
proof (induction n arbitrary: a p)
  case (Suc n)
  have f: "flows s (\<lambda>a' q'. past p q' \<and> I a' q') (\<lambda>a' q'. later s q' \<and> J a' q') (body a p)"
    using Suc.prems(2,1) by (rule body)
  show ?case
  proof (cases "body a p")
    case (Next a' q')
    then have q: "later s q'" "pr_pos p < pr_pos q'" "I a' q'"
      using f Suc.prems(1) by (auto simp: flows_def past_def intro: later_trans)
    then have "pr_pos q' \<le> length (pr_tokens s)" by (simp add: later_def)
    then have m: "length (pr_tokens s) - pr_pos q' < n" using q(2) Suc.prems(3) by linarith
    show ?thesis using Suc.IH [OF q(1) q(3) m] Next by simp
  next
    case Stuck
    then show ?thesis using f by (simp add: flows_def)
  next
    case (Return v q')
    then show ?thesis using f by (simp add: flows_def)
  next
    case (Break a' q')
    then show ?thesis using f by (simp add: flows_def)
  qed
qed simp

lemma flows_iterate:
  assumes "later s p" "I a p"
    and body: "\<And>a q. I a q \<Longrightarrow> later s q \<Longrightarrow>
      flows s (\<lambda>a' q'. past q q' \<and> I a' q') (\<lambda>a' q'. later s q' \<and> J a' q') (body a q)"
    and k: "\<And>a q. later s q \<Longrightarrow> J a q \<Longrightarrow> flows s N B (k a q)"
  shows "flows s N B (iterate body a p k)"
proof -
  have "pr_tokens p = pr_tokens s" using assms(1) by (simp add: later_def)
  then have "flows s (\<lambda>_ _. False) (\<lambda>a' q'. later s q' \<and> J a' q') (loop (Suc (length (pr_tokens p))) body a p)"
    by (intro flows_loop [where I = I] body) (use assms(1,2) in auto)
  then show ?thesis
    by (cases "loop (Suc (length (pr_tokens p))) body a p") (simp_all add: iterate_def flows_def [of s "\<lambda>_ _. False"] flows_missing flows_node k del: loop.simps,
      simp add: flows_def)
qed

lemma flows_rounds [flow_rules]:
  assumes "later s p"
    and body: "\<And>a q. later p q \<Longrightarrow> later q q \<Longrightarrow> flows s (\<lambda>a' q'. past q q') (\<lambda>a' q'. later q q') (body a q)"
    and k: "\<And>a q. later p q \<Longrightarrow> flows s N B (k a q)"
  shows "flows s N B (iterate body a p k)"
proof (rule flows_iterate [where I = "\<lambda>_ q. later p q" and J = "\<lambda>_ q. later p q"])
  fix a q assume q: "later p q" "later s q"
  then show "flows s (\<lambda>a' q'. past q q' \<and> later p q')
      (\<lambda>a' q'. later s q' \<and> later p q') (body a q)"
    using body [of q a] later_refl [OF q(1)] by (auto simp: flows_def past_def intro: later_trans split: flow.splits)
qed (use assms later_refl in auto)

section \<open>Calls of the entry points\<close>

text \<open>
  What a function may call: an entry point past its own start (\<open>deep\<close>), or at its own start as well
  (\<open>here\<close>). The settings of the callee are free, as some callers change them.
\<close>

definition ahead :: "parser \<Rightarrow> parser \<Rightarrow> bool" where
  "ahead s q \<longleftrightarrow> pr_tokens q = pr_tokens s \<and> pr_pos s < pr_pos q \<and> later q q"

definition deep :: "knot \<Rightarrow> parser \<Rightarrow> bool" where
  "deep rec s \<longleftrightarrow> (\<forall>nt q. ahead s q \<longrightarrow> returns q (rec nt q))"

definition here :: "knot \<Rightarrow> parser \<Rightarrow> bool" where
  "here rec s \<longleftrightarrow> deep rec s \<and> (\<forall>nt q. later s q \<longrightarrow> returns q (rec nt q))"

lemma past_ahead: "past s q \<Longrightarrow> ahead s q"
  by (auto simp: past_def ahead_def later_def)

lemma later_ahead: "later s p \<Longrightarrow> ahead p q \<Longrightarrow> ahead s q"
  by (auto simp: ahead_def later_def)

lemma deep_call: "deep rec s \<Longrightarrow> past s q \<Longrightarrow> returns q (rec nt q)"
  by (simp add: deep_def past_ahead)

lemma here_call: "here rec s \<Longrightarrow> later s q \<Longrightarrow> returns q (rec nt q)"
  by (simp add: here_def)

lemma here_deep: "here rec s \<Longrightarrow> deep rec s"
  by (simp add: here_def)

lemma deep_deep: "deep rec s \<Longrightarrow> later s p \<Longrightarrow> deep rec p"
  using later_ahead by (auto simp: deep_def)

lemma deep_here: "deep rec s \<Longrightarrow> past s p \<Longrightarrow> here rec p"
  unfolding here_def using deep_call later_past deep_deep past_def by blast

lemma here_here: "here rec s \<Longrightarrow> later s p \<Longrightarrow> here rec p"
  by (auto simp: here_def intro: deep_deep later_trans)

lemma returnsI: "flows s (\<lambda>_ _. False) (\<lambda>_ _. False) r \<Longrightarrow> returns s r"
  by (simp add: returns_def)

lemma flows_let [flow_rules]: "flows s N B (f x) \<Longrightarrow> flows s N B (Let x f)"
  by simp

lemma flows_tail: "returns q r \<Longrightarrow> later s q \<Longrightarrow> flows s N B r"
  by (auto simp: returns_def flows_def intro: later_trans past_past split: flow.splits)

lemma deep_tail: "deep rec s \<Longrightarrow> past s q \<Longrightarrow> flows s N B (rec nt q)"
  by (rule flows_tail [OF deep_call]) (auto simp: past_def)

lemma here_tail: "here rec s \<Longrightarrow> later s q \<Longrightarrow> flows s N B (rec nt q)"
  by (rule flows_tail [OF here_call])

lemma flows_prod [flow_rules]: "(\<And>a b. x = (a, b) \<Longrightarrow> flows s N B (f a b)) \<Longrightarrow> flows s N B (case x of (a, b) \<Rightarrow> f a b)"
  by (cases x) simp

lemma flows_prod_app [flow_rules]:
  "(\<And>a b. x = (a, b) \<Longrightarrow> flows s N B (f a b q)) \<Longrightarrow> flows s N B ((case x of (a, b) \<Rightarrow> f a b) q)"
  by (cases x) simp

lemma flows_option [flow_rules]:
  "(x = None \<Longrightarrow> flows s N B f) \<Longrightarrow> (\<And>a. x = Some a \<Longrightarrow> flows s N B (g a)) \<Longrightarrow> flows s N B (case x of None \<Rightarrow> f | Some a \<Rightarrow> g a)"
  by (cases x) simp_all

lemma flows_error_node [flow_rules]: "later s p \<Longrightarrow> flows s N B (Return (Some (Node b e x AST_ERROR)) p)"
  by (simp add: flows_fault is_error_def)

lemma flows_some [flow_rules]: "past s p \<Longrightarrow> flows s N B (Return (Some n) p)"
  by (rule flows_node)

text \<open>
  A function is proved from \<open>avail\<close> (it calls an entry point at its own start) or \<open>below\<close> (only past
  it); the rules carry both to the start of a callee.
\<close>


definition avail :: "knot \<Rightarrow> parser \<Rightarrow> bool" where
  "avail rec p \<longleftrightarrow> here rec p \<and> later p p"

definition below :: "knot \<Rightarrow> parser \<Rightarrow> bool" where
  "below rec p \<longleftrightarrow> deep rec p \<and> later p p"

lemma allowed:
  "deep rec s \<Longrightarrow> past s p \<Longrightarrow> avail rec p" "here rec s \<Longrightarrow> later s p \<Longrightarrow> avail rec p"
  "deep rec s \<Longrightarrow> later s p \<Longrightarrow> below rec p" "here rec s \<Longrightarrow> later s p \<Longrightarrow> below rec p"
  by (auto simp: avail_def below_def past_def intro: later_refl deep_here here_here here_deep deep_deep)

lemma avail_below: "avail rec p \<Longrightarrow> below rec p"
  by (simp add: avail_def below_def here_deep)

lemma begin_avail: "avail rec p \<Longrightarrow> (here rec p \<Longrightarrow> later p p \<Longrightarrow> flows p (\<lambda>_ _. False) (\<lambda>_ _. False) r) \<Longrightarrow> returns p r"
  by (simp add: avail_def returnsI)

lemma begin_below: "below rec p \<Longrightarrow> (deep rec p \<Longrightarrow> later p p \<Longrightarrow> flows p (\<lambda>_ _. False) (\<lambda>_ _. False) r) \<Longrightarrow> returns p r"
  by (simp add: below_def returnsI)

lemma begin_alone: "later p p \<Longrightarrow> (later p p \<Longrightarrow> flows p (\<lambda>_ _. False) (\<lambda>_ _. False) r) \<Longrightarrow> returns p r"
  by (simp add: returnsI)

lemma begin_flows:
  "avail rec p \<Longrightarrow> (here rec p \<Longrightarrow> later p p \<Longrightarrow> flows s N B r) \<Longrightarrow> flows s N B r"
  "below rec p \<Longrightarrow> (deep rec p \<Longrightarrow> later p p \<Longrightarrow> flows s N B r) \<Longrightarrow> flows s N B r"
  by (simp_all add: avail_def below_def)

text \<open>A function that calls no entry point only needs a cursor in the pool.\<close>

definition ready :: "parser \<Rightarrow> bool" where
  "ready p \<longleftrightarrow> later p p"

lemma readyI [flow_rules]: "later p p \<Longrightarrow> ready p"
  by (simp add: ready_def)

lemma begin_ready:
  "ready p \<Longrightarrow> (later p p \<Longrightarrow> flows p (\<lambda>_ _. False) (\<lambda>_ _. False) r) \<Longrightarrow> returns p r"
  "ready p \<Longrightarrow> (later p p \<Longrightarrow> flows s N B r') \<Longrightarrow> flows s N B r'"
  by (simp_all add: ready_def returnsI)

text \<open>The rest of the caller, which a function goes on with.\<close>

definition goes :: "(parser \<Rightarrow> bool) \<Rightarrow> parser \<Rightarrow> ('a \<Rightarrow> parser \<Rightarrow> bool) \<Rightarrow> ('a \<Rightarrow> parser \<Rightarrow> bool) \<Rightarrow> ('b \<Rightarrow> parser \<Rightarrow> 'a flow) \<Rightarrow> bool" where
  "goes R s N B k \<longleftrightarrow> (\<forall>x q. R q \<longrightarrow> flows s N B (k x q))"

lemma goesI [flow_rules]: "(\<And>x q. R q \<Longrightarrow> flows s N B (k x q)) \<Longrightarrow> goes R s N B k"
  by (simp add: goes_def)

lemma goes_on: "goes R s N B k \<Longrightarrow> R q \<Longrightarrow> flows s N B (k x q)"
  by (simp add: goes_def)

definition goes2 :: "(parser \<Rightarrow> bool) \<Rightarrow> parser \<Rightarrow> ('a \<Rightarrow> parser \<Rightarrow> bool) \<Rightarrow> ('a \<Rightarrow> parser \<Rightarrow> bool) \<Rightarrow> ('b \<Rightarrow> 'c \<Rightarrow> parser \<Rightarrow> 'a flow) \<Rightarrow> bool" where
  "goes2 R s N B k \<longleftrightarrow> (\<forall>x y q. R q \<longrightarrow> flows s N B (k x y q))"

lemma goes2I [flow_rules]: "(\<And>x y q. R q \<Longrightarrow> flows s N B (k x y q)) \<Longrightarrow> goes2 R s N B k"
  by (simp add: goes2_def)

lemma goes2_on: "goes2 R s N B k \<Longrightarrow> R q \<Longrightarrow> flows s N B (k x y q)"
  by (simp add: goes2_def)

lemmas tokens = new_token [OF there_symbol] new_token [OF there_keyword]
  new_token [OF there_plain_kind(1)] new_token [OF there_plain_kind(2)] new_token [OF there_plain_kind(3)]
  new_token [OF there_plain_kind(6)] new_token [OF there_plain_kind(7)] new_token [OF there_plain_kind(8)] new_token

text \<open>The start of a callee.\<close>

lemma past_refl: "past s p \<Longrightarrow> later p p"
  by (auto simp: past_def intro: later_refl)

lemma self_moves:
  "later p p \<Longrightarrow> later (step p) (step p)" "later p p \<Longrightarrow> later (skip p) (skip p)"
  "later p p \<Longrightarrow> later (skip_trivia p) (skip_trivia p)"
  "later p p \<Longrightarrow> later q q \<Longrightarrow> later (if c then p else q) (if c then p else q)"
  by (simp_all add: later_refl [OF later_step] later_refl [OF later_skip] later_refl [OF later_skip_trivia])

lemma move_if:
  "(c \<Longrightarrow> later s p) \<Longrightarrow> (\<not> c \<Longrightarrow> later s q) \<Longrightarrow> later s (if c then p else q)"
  "(c \<Longrightarrow> past s p) \<Longrightarrow> (\<not> c \<Longrightarrow> past s q) \<Longrightarrow> past s (if c then p else q)"
  by simp_all

lemma later_error: "later s p \<Longrightarrow> later s (p\<lparr>pr_error := True\<rparr>)"
  by (simp add: later_def)

lemmas moves = self_moves later_step later_skip later_skip_trivia past_step past_skip past_skip_trivia move_if later_error

text \<open>
  The proofs below follow a function from its start: \<open>starts\<close> unfold what a function may assume,
  \<open>flow_rules\<close> take its next step, \<open>flow_elims\<close> use a call or a test that was made, and a position
  is traced back to the start by \<open>moves\<close> and \<open>origins\<close>.
\<close>

declare begin_avail [starts] begin_below [starts] begin_flows [starts] begin_ready [starts] goes_on [starts] goes2_on [starts]
declare deep_call [flow_elims] here_call [flow_elims] deep_tail [flow_elims] here_tail [flow_elims] allowed [flow_elims]
  conjE [flow_elims] disjE [flow_elims] there_rules [flow_elims] tokens [flow_elims] later_refl [flow_elims] past_refl [flow_elims]

lemma flows_comma_loop [flow_rules]:
  assumes "later s p" "\<And>q. past p q \<Longrightarrow> returns q (item q)" "\<And>acc q. later p q \<Longrightarrow> flows s N B (k acc q)"
  shows "flows s N B (comma_loop tb item acc p k)"
  unfolding comma_loop_def
  by (assumption | rule assms | rule flow_rules | erule flow_elims | rule moves | erule origins)+

lemma flows_comma_list [flow_rules]:
  assumes "later s p" "\<And>q. later p q \<Longrightarrow> returns q (item q)" "\<And>acc q. past p q \<Longrightarrow> flows s N B (k acc q)"
  shows "flows s N B (comma_list tb sep item p k)"
  unfolding comma_list_def
proof (rule flows_iterate [where I = "\<lambda>_ q. later p q" and J = "\<lambda>_ q. past p q"])
  fix a q assume q: "later p q" "later s q"
  have qq: "later q q" using q(1) by (rule later_refl)
  show "flows s (\<lambda>a' q'. past q q' \<and> later p q') (\<lambda>a' q'. later s q' \<and> past p q')
      (need tb (item q) (\<lambda>n p. let p = skip_trivia p; acc = a @ [n] in if check_symbol p sep then Next acc (skip p) else Break acc p))"
    using q qq by - (assumption | rule assms conjI | rule flow_rules | erule flow_elims | rule moves | erule origins)+
qed (use assms later_refl in auto)

lemma returns_if [flow_rules]: "(c \<Longrightarrow> returns p x) \<Longrightarrow> (\<not> c \<Longrightarrow> returns p y) \<Longrightarrow> returns p (if c then x else y)"
  by simp

lemma returns_missing [flow_rules]: "later p p \<Longrightarrow> returns p (missing p)"
  by (simp add: returns_def flows_missing)

lemma flows_missing_here [flow_rules]: "later s p \<Longrightarrow> flows s N B (missing (p\<lparr>pr_pos := pr_pos p\<rparr>))"
  by (simp add: flows_missing)

lemma returns_change [flow_rules]: "returns p r \<Longrightarrow> returns p (change f r)"
  by (auto simp: change_def returns_def flows_def split: flow.splits option.splits)

section \<open>Leaves\<close>

lemma flows_lit:
  assumes "later s p" "\<And>n. lit_node l = Some n \<Longrightarrow> past s p"
  shows "flows s N B (Return (lit_node l) p)"
  using assms by (cases "lit_node l") (auto simp: flows_def past_def)

lemma cursor_same: "p\<lparr>pr_pos := pr_pos p\<rparr> = p"
  by simp

lemma flows_there [flow_rules]:
  "(check_kind p k \<Longrightarrow> there p \<Longrightarrow> flows s N B x) \<Longrightarrow> (\<not> check_kind p k \<Longrightarrow> flows s N B y) \<Longrightarrow> k \<noteq> TOKEN_TYPE_EOF \<Longrightarrow>
   flows s N B (if check_kind p k then x else y)"
  by (simp add: there_kind)

lemma int_lit_moves:
  assumes "parse_int_lit p = (l, q)" "later s p"
  shows "later s q \<and> (\<forall>n. lit_node l = Some n \<longrightarrow> past p q)"
proof (cases "check_kind p TOKEN_TYPE_NUMERIC")
  case True
  then have "there p" by (rule there_plain_kind)
  then have "past p (skip p)" using assms(2) by (intro past_skip_there later_refl)
  then show ?thesis using assms
    by (auto simp: parse_int_lit_def Let_def skip_def [symmetric] step_def [symmetric] lit_node_def
        intro: moves past_step split: if_split_asm option.split_asm)
next
  case False
  then show ?thesis using assms by (simp add: parse_int_lit_def lit_node_def Let_def)
qed

lemma int_lit_returns [flow_rules]: "later p p \<Longrightarrow> returns p (int_lit p)"
  using int_lit_moves [of p _ _ p] by (auto simp: int_lit_def returns_def intro: flows_lit split: prod.split)

lemma char_lit_returns [flow_rules]: "later p p \<Longrightarrow> returns p (char_lit p)"
  by (auto simp: char_lit_def parse_char_lit_def returns_def Let_def step_def [symmetric] lit_node_def
      intro: flow_rules past_step_there there_kind)

lemma string_len_add: "string_len p e i (a + b) = a + string_len p e i b"
proof (induction "e - i" arbitrary: i b rule: less_induct)
  case less
  show ?case
  proof (cases "i < e")
    case True
    then have "string_len p e (i + 1 + k) (a + x) = a + string_len p e (i + 1 + k) x" for k x
      using less [of "i + 1 + k" x] by simp
    from this [of 0 "b + 1"] this show ?thesis using True
      by (subst (1 2) string_len.simps) (simp add: add.assoc split: prod.split)
  next
    case False
    then show ?thesis by (simp add: string_len.simps)
  qed
qed

lemma string_fill_returns:
  "pos + string_len p e i 0 \<le> length buf \<Longrightarrow> \<exists>r. string_fill p e i buf pos = Inr r"
proof (induction "e - i" arbitrary: i buf pos rule: less_induct)
  case less
  show ?case
  proof (cases "i < e")
    case True
    have IH: "\<exists>r. string_fill p e (i + 1 + k) b q = Inr r" if "q + string_len p e (i + 1 + k) 0 \<le> length b" for k b q
      by (rule less(1)) (use True that in simp_all)
    have len: "string_len p e (i + 1 + k) x = x + string_len p e (i + 1 + k) 0" for k x
      using string_len_add [of p e "i + 1 + k" x 0] by simp
    obtain cp k where esc: "parse_escape_seq (slice p (i + 1) (e - (i + 1))) = (cp, k)"
      by (cases "parse_escape_seq (slice p (i + 1) (e - (i + 1)))") (rule that)
    show ?thesis
    proof (cases "p ! i = CHR 0x5C")
      case bs: True
      have l: "string_len p e i 0 = utf8_encode_len cp + string_len p e (i + 1 + k) 0"
        using True bs esc len [of k "utf8_encode_len cp"] by (subst string_len.simps) simp
      have "\<exists>r. string_fill p e (i + 1 + k) (blit buf pos (utf8_encode cp)) (pos + utf8_encode_len cp) = Inr r"
        using less(2) l by (intro IH) (simp add: utf8_length length_blit)
      then show ?thesis using True bs esc less(2) l by (subst string_fill.simps) (simp add: utf8_length)
    next
      case False
      have l: "string_len p e i 0 = 1 + string_len p e (i + 1) 0"
        using True False len [of 0 1] by (subst string_len.simps) simp
      have "\<exists>r. string_fill p e (i + 1) (blit buf pos [p ! i]) (pos + 1) = Inr r"
        using less(2) l IH [of "pos + 1" 0 "blit buf pos [p ! i]"] by (simp add: length_blit)
      then show ?thesis using True False less(2) l by (subst string_fill.simps) simp
    qed
  next
    case False
    then show ?thesis by (simp add: string_fill.simps)
  qed
qed

lemma string_value_returns: "\<exists>r. parse_string_value t = Inr r"
  using string_fill_returns [of 0 t] by (auto simp: parse_string_value_def Let_def)

lemma string_lit_returns [flow_rules]: "later p p \<Longrightarrow> returns p (string_lit p)"
  using string_value_returns [of "token_strslice (cur_token p)"]
  by (auto simp: string_lit_def parse_string_lit_def returns_def Let_def step_def [symmetric] lit_node_def flows_missing
      intro!: flows_some past_step_there intro: there_plain_kind(3))

lemma bool_lit_returns [flow_rules]: "later p p \<Longrightarrow> returns p (parse_bool_lit p)"
  by (auto simp: parse_bool_lit_def returns_def Let_def flows_missing
      intro!: flows_give past_step_there intro: there_keyword)

lemma undef_returns [flow_rules]: "later p p \<Longrightarrow> returns p (parse_undef p)"
  by (auto simp: parse_undef_def returns_def Let_def flows_missing
      intro!: flows_give past_step_there intro: there_keyword)

lemma nil_returns [flow_rules]: "later p p \<Longrightarrow> returns p (parse_nil p)"
  by (auto simp: parse_nil_def returns_def Let_def flows_missing
      intro!: flows_give past_step_there intro: there_keyword)

lemma float_lit_returns [flow_rules]: "later p p \<Longrightarrow> returns p (parse_float_lit over p)"
  by (auto simp: parse_float_lit_def returns_def Let_def flows_missing there_plain_kind
      intro!: flows_give flows_error past_step past_skip_there later_step later_skip)

lemma ident_returns [flow_rules]: "later p p \<Longrightarrow> returns p (parse_ident p)"
  by (auto simp: parse_ident_def returns_def Let_def flows_missing there_plain_kind later_past past_step_there
      intro!: flow_rules)

end
