(* ===== verification/ParseExprTotal.thy ===== *)
theory ParseExprTotal
  imports ParserFlow
begin

text \<open>
  Patterns, function definitions and expressions return (\<open>ParsePattern\<close>, \<open>ParseFunc\<close>,
  \<open>ParseExpr\<close>).
\<close>

section \<open>Patterns\<close>

lemma there_pattern_name [flow_elims]: "is_pattern_name_token p \<Longrightarrow> there p"
  by (auto simp: is_pattern_name_token_def there_plain_kind)

lemma flows_int_lit [flow_rules]:
  assumes "later s p" "\<And>l q. later p q \<Longrightarrow> lit_node l = None \<Longrightarrow> flows s N B (f q)"
    "\<And>l q n. past p q \<Longrightarrow> lit_node l = Some n \<Longrightarrow> flows s N B (g n q)"
  shows "flows s N B (case parse_int_lit p of (l, q) \<Rightarrow> case lit_node l of None \<Rightarrow> f q | Some n \<Rightarrow> g n q)"
  using assms int_lit_moves [of p "fst (parse_int_lit p)" "snd (parse_int_lit p)" p] later_refl [of s p]
  by (cases "parse_int_lit p"; cases "lit_node (fst (parse_int_lit p))") auto

lemma pattern_array_flows [flow_rules]: "below rec p \<Longrightarrow> past p q \<Longrightarrow> flows p N B (parse_pattern_array rec tb q)"
  unfolding parse_pattern_array_def
  by (assumption | erule starts | rule flow_rules | erule flow_elims | rule moves | erule origins | rule flows_tail)+

lemma pattern_parts_return [flow_rules]:
  "below rec p \<Longrightarrow> there p \<Longrightarrow> returns p (parse_pattern_tuple rec tb p)"
  "below rec p \<Longrightarrow> there p \<Longrightarrow> returns p (parse_pattern_func rec tb p)"
  "below rec p \<Longrightarrow> there p \<Longrightarrow> returns p (parse_pattern_name rec tb p)"
  unfolding parse_pattern_tuple_def parse_pattern_func_def parse_pattern_name_def
  by (assumption | erule starts | rule flow_rules | erule flow_elims | rule moves | erule origins | rule flows_tail)+

lemma parse_pattern_atom_returns [flow_rules]:
  "below rec p \<Longrightarrow> returns p (parse_pattern_atom rec p)"
  unfolding parse_pattern_atom_def
  by (assumption | erule starts | rule flow_rules | erule flow_elims | rule moves | erule origins | rule flows_tail)+

lemma pattern_chain_returns:
  assumes "later p p" "\<And>q. later p q \<Longrightarrow> returns q (operand q)"
  shows "returns p (pattern_chain sy build operand p)"
  using assms(1) unfolding pattern_chain_def
  by - (rule returnsI, (assumption | rule assms(2) | erule starts | rule flow_rules | erule flow_elims | rule moves | erule origins | rule flows_tail)+)

lemma pattern_or_returns:
  assumes "later p p" "\<And>q. later p q \<Longrightarrow> returns q (rec Pattern_atom q)"
  shows "returns p (parse_pattern_or rec p)"
  unfolding parse_pattern_or_def parse_pattern_and_def
  by (intro pattern_chain_returns assms) (auto intro: later_refl later_trans)

lemma pattern_returns [flow_rules]: "avail rec p \<Longrightarrow> returns p (parse_pattern rec p)"
  by (auto simp: parse_pattern_def avail_def dest: here_call)

lemma type_prefix_returns:
  assumes "below rec p" "returns p (rec (Expr_prec 1) p)"
  shows "returns p (parse_type_prefix rec p)"
  using assms(1) unfolding parse_type_prefix_def
  by - (assumption | rule flows_tail [OF assms(2)] | erule starts | rule flow_rules | erule flow_elims | rule moves | erule origins | rule flows_tail)+

lemma raw_type_atom_returns:
  assumes "below rec p" "returns p (rec (Expr_prec 22) p)"
  shows "returns p (parse_raw_type_atom rec p)"
  using assms(1) unfolding parse_raw_type_atom_def
  by - (assumption | rule flows_tail [OF assms(2)] | erule starts | rule flow_rules | erule flow_elims | rule moves | erule origins | rule flows_tail)+

section \<open>Functions\<close>

lemma generic_parts_flow [flow_rules]:
  "below rec p \<Longrightarrow> later s p \<Longrightarrow> goes (later p) s N B k \<Longrightarrow> flows s N B (generic_type rec pb p k)"
  "below rec p \<Longrightarrow> later s p \<Longrightarrow> goes (later p) s N B k1 \<Longrightarrow> flows s N B (generic_constraint rec pb ic p k1)"
  "below rec p \<Longrightarrow> later s p \<Longrightarrow> goes (later p) s N B k2 \<Longrightarrow> flows s N B (generic_default rec pb p k2)"
  unfolding generic_type_def generic_constraint_def generic_default_def
  by (assumption | erule starts | rule flow_rules | erule flow_elims | rule moves | erule origins | rule flows_tail)+

lemma generic_param_round [flow_rules]:
  "below rec p \<Longrightarrow> later s p \<Longrightarrow> later r p \<Longrightarrow> flows s (\<lambda>_ q. past r q) (\<lambda>_ q. later r q) (generic_param rec acc p)"
  unfolding generic_param_def
  by (assumption | erule starts | rule flow_rules | erule flow_elims | rule moves | erule origins | rule flows_tail)+

lemma parse_generic_params_flows [flow_rules]:
  "below rec p \<Longrightarrow> later s p \<Longrightarrow> goes (past p) s N B k1 \<Longrightarrow> flows s N B (parse_generic_params rec p k1)"
  unfolding parse_generic_params_def
  by (assumption | erule starts | rule flow_rules | erule flow_elims | rule moves | erule origins | rule flows_tail)+

lemma opt_generic_flows [flow_rules]:
  "below rec p \<Longrightarrow> later s p \<Longrightarrow> goes (later p) s N B k1 \<Longrightarrow> flows s N B (opt_generic rec p k1)"
  unfolding opt_generic_def
  by (assumption | erule starts | rule flow_rules | erule flow_elims | rule moves | erule origins | rule flows_tail)+

lemma at_pipe_call [flow_elims]: "deep rec s \<Longrightarrow> past s p \<Longrightarrow> returns p (at_pipe (rec nt) p)"
proof -
  assume d: "deep rec s" and p: "past s p"
  let ?q = "p\<lparr>pr_pipe := pr_pipe p + 1\<rparr>"
  have "ahead s ?q" using p by (auto simp: ahead_def past_def later_def)
  then have "returns ?q (rec nt ?q)" using d by (simp add: deep_def)
  then show ?thesis
    by (auto simp: at_pipe_def returns_def flows_def later_def past_def split: flow.split)
qed

lemma names_flow [flow_rules]:
  "ready p \<Longrightarrow> later s p \<Longrightarrow> goes (past p) s N B k \<Longrightarrow> flows s N B (declared_name tb p k)"
  "ready p \<Longrightarrow> later s p \<Longrightarrow> goes2 (past p) s N B k1 \<Longrightarrow> flows s N B (extern_name tb p k1)"
  "ready p \<Longrightarrow> later s p \<Longrightarrow> goes (later p) s N B k2 \<Longrightarrow> flows s N B (func_name nm p k2)"
  unfolding declared_name_def extern_name_def func_name_def
  by (assumption | erule starts | rule flow_rules | erule flow_elims | rule moves | erule origins | rule flows_tail)+

lemma params_return [flow_rules]:
  "below rec p \<Longrightarrow> returns p (parse_param rec p)"
  "below rec p \<Longrightarrow> returns p (capture_init rec tb p)"
  unfolding parse_param_def capture_init_def
  by (assumption | erule starts | rule flow_rules | erule flow_elims | rule moves | erule origins | rule flows_tail)+

lemma items_return [flow_rules]:
  "avail rec p \<Longrightarrow> returns p (parse_func_param_item rec p)"
  "below rec p \<Longrightarrow> returns p (parse_capture_item rec p)"
  unfolding parse_func_param_item_def parse_capture_item_def
  by (assumption | erule starts | rule flow_rules | erule flow_elims | rule moves | erule origins | rule flows_tail)+

lemma lists_flow [flow_rules]:
  "below rec p \<Longrightarrow> later s p \<Longrightarrow> there p \<Longrightarrow> goes (past p) s N B k \<Longrightarrow> flows s N B (parse_capture_list rec p k)"
  "below rec p \<Longrightarrow> later s p \<Longrightarrow> later r p \<Longrightarrow> flows s (\<lambda>_ q. past r q) (\<lambda>_ q. later r q) (more_params rec tb l st p)"
  unfolding parse_capture_list_def more_params_def
  by (assumption | erule starts | rule flow_rules | erule flow_elims | rule moves | erule origins | rule flows_tail)+

lemma func_parts_flow [flow_rules]:
  "below rec p \<Longrightarrow> later s p \<Longrightarrow> goes (past p) s N B k \<Longrightarrow> flows s N B (func_params rec tb l p k)"
  "below rec p \<Longrightarrow> returns p (func_rest rec tb l name cs g ps p)"
  "below rec p \<Longrightarrow> there p \<Longrightarrow> returns p (func_type_rest rec tb cs g qs p)"
  "below rec p \<Longrightarrow> later s p \<Longrightarrow> goes2 (later p) s N B k3 \<Longrightarrow> flows s N B (func_generic rec tb kw l cs p k3)"
  unfolding func_params_def func_rest_def func_type_rest_def func_generic_def
  by (assumption | erule starts | rule flow_rules | erule flow_elims | rule moves | erule origins | rule flows_tail)+

lemma parse_func_like_ex_returns [flow_rules]:
  "below rec p \<Longrightarrow> returns p (parse_func_like_ex rec t kw nm l p)"
  unfolding parse_func_like_ex_def
  by (assumption | erule starts | rule flow_rules | erule flow_elims | rule moves | erule origins | rule flows_tail)+

lemma parse_func_like_returns [flow_rules]:
  "below rec p \<Longrightarrow> returns p (parse_func_like rec t kw p)"
  unfolding parse_func_like_def
  by (assumption | erule starts | rule flow_rules | erule flow_elims | rule moves | erule origins | rule flows_tail)+

lemma func_defs_return [flow_rules]:
  "below rec p \<Longrightarrow> returns p (parse_func_def rec p)"
  "below rec p \<Longrightarrow> returns p (parse_cfunc_def rec p)"
  "below rec p \<Longrightarrow> returns p (parse_extern_cfunc rec tb p)"
  "below rec p \<Longrightarrow> returns p (parse_extern_var rec tb p)"
  unfolding parse_func_def_def parse_cfunc_def_def parse_extern_cfunc_def parse_extern_var_def
  by (assumption | erule starts | rule flow_rules | erule flow_elims | rule moves | erule origins | rule flows_tail)+

section \<open>Expressions\<close>

lemma operands_return [flow_rules]:
  "below rec p \<Longrightarrow> there p \<Longrightarrow> returns p (parse_spread rec p)"
  "below rec p \<Longrightarrow> there p \<Longrightarrow> returns p (parse_fill rec p)"
  "avail rec p \<Longrightarrow> returns p (parse_tuple_elem rec p)"
  "below rec p \<Longrightarrow> there p \<Longrightarrow> returns p (parse_group rec p)"
  "below rec p \<Longrightarrow> there p \<Longrightarrow> returns p (parse_array_type rec p)"
  "below rec p \<Longrightarrow> there p \<Longrightarrow> returns p (parse_make rec p)"
  "below rec p \<Longrightarrow> there p \<Longrightarrow> returns p (parse_of rec st bd p)"
  "avail rec p \<Longrightarrow> returns p (cast_type rec p)"
  unfolding parse_spread_def parse_fill_def parse_tuple_elem_def parse_group_def parse_array_type_def
    parse_make_def parse_of_def cast_type_def
  by (assumption | erule starts | rule flow_rules | erule flow_elims | rule moves | erule origins | rule flows_tail)+

lemma fields_return [flow_rules]:
  "avail rec p \<Longrightarrow> returns p (parse_construct_field rec p)"
  "below rec p \<Longrightarrow> there p \<Longrightarrow> returns p (parse_tuple_type rec p)"
  "avail rec p \<Longrightarrow> returns p (parse_call_arg rec p)"
  unfolding parse_construct_field_def parse_tuple_type_def parse_call_arg_def
  by (assumption | erule starts | rule flow_rules | erule flow_elims | rule moves | erule origins | rule flows_tail)+

lemma parse_primary_returns [flow_rules]:
  "below rec p \<Longrightarrow> returns p (parse_primary rec over p)"
  "below rec p \<Longrightarrow> later s p \<Longrightarrow> later r p \<Longrightarrow> flows s (\<lambda>_ q. past r q) (\<lambda>_ q. later r q) (more_fields rec tb acc p)"
  unfolding parse_primary_def more_fields_def
  by (assumption | erule starts | rule flow_rules | erule flow_elims | rule moves | erule origins | rule flows_tail)+

lemma construct_fields_returns [flow_rules]:
  "below rec p \<Longrightarrow> there p \<Longrightarrow> returns p (construct_fields rec tb ty p)"
  unfolding construct_fields_def
  by (assumption | erule starts | rule flow_rules | erule flow_elims | rule moves | erule origins | rule flows_tail)+

lemma parse_construct_returns [flow_rules]:
  "below rec p \<Longrightarrow> there p \<Longrightarrow> returns p (parse_construct rec p)"
  unfolding parse_construct_def
  by (assumption | erule starts | rule flow_rules | erule flow_elims | rule moves | erule origins | rule flows_tail)+

lemma parse_unary_returns [flow_rules]:
  "below rec p \<Longrightarrow> returns p (parse_unary rec over p)"
  unfolding parse_unary_def
  by (assumption | erule starts | rule flow_rules | erule flow_elims | rule moves | erule origins | rule flows_tail)+

lemma type_arguments_flow [flow_rules]:
  "ready p \<Longrightarrow> later s p \<Longrightarrow> later r p \<Longrightarrow> flows s (\<lambda>_ q. past r q) (\<lambda>_ q. later r q) (qualified_loop t p)"
  "below rec p \<Longrightarrow> later s p \<Longrightarrow> later r p \<Longrightarrow> flows s (\<lambda>_ q. past r q) (\<lambda>_ q. later r q) (type_args_loop rec t p)"
  unfolding qualified_loop_def type_args_loop_def
  by (assumption | erule starts | rule flow_rules | erule flow_elims | rule moves | erule origins | rule flows_tail)+

lemma parse_type_with_index_returns [flow_rules]:
  "avail rec p \<Longrightarrow> returns p (parse_type_with_index rec p)"
  unfolding parse_type_with_index_def
  by (assumption | erule starts | rule flow_rules | erule flow_elims | rule moves | erule origins | rule flows_tail)+

lemma postfix_parts_flow [flow_rules]:
  "ready p \<Longrightarrow> later s p \<Longrightarrow> later r p \<Longrightarrow> there p \<Longrightarrow> flows s (\<lambda>_ q. past r q) J (postfix_scope lhs p)"
  "below rec p \<Longrightarrow> later s p \<Longrightarrow> later r p \<Longrightarrow> there p \<Longrightarrow> flows s (\<lambda>_ q. past r q) J (postfix_call rec lhs p)"
  "ready p \<Longrightarrow> later s p \<Longrightarrow> later r p \<Longrightarrow> there p \<Longrightarrow> flows s (\<lambda>_ q. past r q) J (postfix_dot lhs p)"
  "below rec p \<Longrightarrow> later s p \<Longrightarrow> later r p \<Longrightarrow> there p \<Longrightarrow> flows s (\<lambda>_ q. past r q) J (slice_high rec tb lhs low p)"
  unfolding postfix_scope_def postfix_call_def postfix_dot_def slice_high_def
  by (assumption | erule starts | rule flow_rules | erule flow_elims | rule moves | erule origins | rule flows_tail)+

lemma postfix_index_flow [flow_rules]:
  "below rec p \<Longrightarrow> later s p \<Longrightarrow> later r p \<Longrightarrow> there p \<Longrightarrow> flows s (\<lambda>_ q. past r q) J (postfix_index rec lhs p)"
  unfolding postfix_index_def
  by (assumption | erule starts | rule flow_rules | erule flow_elims | rule moves | erule origins | rule flows_tail)+

lemma postfix_loop_flow [flow_rules]:
  "below rec p \<Longrightarrow> later s p \<Longrightarrow> later r p \<Longrightarrow> flows s (\<lambda>_ q. past r q) (\<lambda>_ q. later r q) (postfix_loop rec lhs p)"
  unfolding postfix_loop_def
  by (assumption | erule starts | rule flow_rules | erule flow_elims | rule moves | erule origins | rule flows_tail)+

text \<open>The first round of the postfix loop takes a token, so the whole loop does.\<close>

lemma at_symbol: "check_symbol p sy \<Longrightarrow> later p p \<Longrightarrow> skip_trivia p = p"
  by (subst skip_trivia.simps) (auto simp: check_symbol_def cur_token_def token_get_kind_def split: if_split_asm option.split_asm)

definition postfix_start :: "parser \<Rightarrow> bool" where
  "postfix_start p \<longleftrightarrow> check_symbol p ''('' \<or> check_symbol p ''.'' \<or> check_symbol p ''['' \<or> check_symbol p ''::''"

lemma postfix_round:
  assumes "below rec p" "later s p" "postfix_start p"
  shows "flows s (\<lambda>_ q. past p q) (\<lambda>_ q. past p q) (postfix_loop rec lhs p)"
proof -
  have pp: "later p p" using assms(2) by (rule later_refl)
  have "skip_trivia p = p" "there p"
    using assms(3) at_symbol [OF _ pp] there_symbol by (auto simp: postfix_start_def)
  then show ?thesis
    using assms(3) postfix_parts_flow(1) [OF readyI [OF pp] assms(2) pp] postfix_parts_flow(2) [OF assms(1,2) pp]
      postfix_parts_flow(3) [OF readyI [OF pp] assms(2) pp] postfix_index_flow [OF assms(1,2) pp]
    by (auto simp: postfix_loop_def postfix_start_def Let_def)
qed

lemma postfix_returns [flow_rules]:
  assumes "below rec p" "postfix_start p"
  shows "returns p (parse_postfix rec lhs p)"
  unfolding parse_postfix_def
proof (rule returnsI, rule flows_iterate [where I = "\<lambda>_ q. q = p \<or> past p q" and J = "\<lambda>_ q. past p q"])
  have d: "deep rec p" and p: "later p p" using assms(1) by (simp_all add: below_def)
  show "later p p" by (rule p)
  show "flows p (\<lambda>_ q'. past q q' \<and> (q' = p \<or> past p q')) (\<lambda>_ q'. later p q' \<and> past p q') (postfix_loop rec a q)"
    if "q = p \<or> past p q" "later p q" for a q
  proof (cases "q = p")
    case True
    then show ?thesis using postfix_round [OF assms(1) p assms(2), of a]
      by (auto simp: flows_def past_def split: flow.splits)
  next
    case False
    then have "past p q" using that by simp
    moreover have "flows p (\<lambda>_ q'. past q q') (\<lambda>_ q'. later q q') (postfix_loop rec a q)"
      using that(2) d by (intro postfix_loop_flow) (auto intro: allowed later_refl)
    ultimately show ?thesis
      by (auto simp: flows_def past_def split: flow.splits dest: later_trans later_pos)
  qed
qed (auto intro: flows_some)

lemma postfix_startI [flow_rules]: "check_symbol p ''('' \<or> check_symbol p ''.'' \<or> check_symbol p ''['' \<or> check_symbol p ''::'' \<Longrightarrow> postfix_start p"
  by (simp add: postfix_start_def)

lemma there_assign [flow_elims]: "is_assign_op_token (cur_token p) \<Longrightarrow> there p"
  by (auto simp: is_assign_op_token_def there_def split: if_split_asm)

lemma there_infix [flow_elims]:
  "infix_binding (case if check_symbol p ''<'' \<or> check_symbol p ''>'' then synthesize_shift_token p else None of
      None \<Rightarrow> token_get_kind (cur_token p) | Some x \<Rightarrow> TOKEN_TYPE_SYMBOL) s = Some b \<Longrightarrow> there p"
  using there_symbol [of p]
  by (cases "check_symbol p ''<'' \<or> check_symbol p ''>''") (auto simp: infix_binding_def there_def split: if_split_asm)

lemma infix_parts_flow [flow_rules]:
  "below rec p \<Longrightarrow> later s p \<Longrightarrow> later r p \<Longrightarrow> there p \<Longrightarrow> flows s (\<lambda>_ q. past r q) J (infix_ternary rec lhs p)"
  "below rec p \<Longrightarrow> later s p \<Longrightarrow> later r p \<Longrightarrow> there p \<Longrightarrow> flows s (\<lambda>_ q. past r q) J (infix_assign rec lhs p)"
  "below rec p \<Longrightarrow> later s p \<Longrightarrow> later r p \<Longrightarrow> there p \<Longrightarrow> flows s (\<lambda>_ q. past r q) J (infix_binary rec ot syn rp lhs p)"
  unfolding infix_ternary_def infix_assign_def infix_binary_def
  by (assumption | erule starts | rule flow_rules | erule flow_elims | rule moves | erule origins | rule flows_tail)+

lemma infix_loop_flow [flow_rules]:
  "below rec p \<Longrightarrow> later s p \<Longrightarrow> later r p \<Longrightarrow> flows s (\<lambda>_ q. past r q) (\<lambda>_ q. later r q) (infix_loop rec m lhs p)"
  unfolding infix_loop_def
  by (assumption | erule starts | rule flow_rules | erule flow_elims | rule moves | erule origins | rule flows_tail)+

lemma expr_prec_returns:
  assumes "below rec p" "\<And>q. later p q \<Longrightarrow> returns q (rec Unary q)"
  shows "returns p (parse_expr_prec rec m p)"
  using assms(1) unfolding parse_expr_prec_def
  by - (assumption | rule assms(2) | erule starts | rule flow_rules | erule flow_elims | rule moves | erule origins | rule flows_tail)+

end
