(* ===== verification/ParseDeclTotal.thy ===== *)
theory ParseDeclTotal
  imports ParseExprTotal
begin

text \<open>Declarations return (\<open>ParseDecl\<close>).\<close>

lemma flows_run:
  assumes "returns p r" "later s p" "\<And>n q. later p q \<Longrightarrow> is_error n \<or> past p q \<Longrightarrow> flows s N B (f n q)"
    "\<And>q. later p q \<Longrightarrow> flows s N B (g q)"
  shows "flows s N B (case r of Return (Some n) q \<Rightarrow> f n q | Return None q \<Rightarrow> g q | _ \<Rightarrow> Stuck)"
  using assms(1,2) by (rule returnsE) (auto simp: assms(4) split: option.split intro!: assms(3))

lemma decorator_loop_round [flow_rules]:
  "below rec p \<Longrightarrow> later s p \<Longrightarrow> later r p \<Longrightarrow> flows s (\<lambda>_ q. past r q) (\<lambda>_ q. later r q) (decorator_loop rec acc p)"
  unfolding decorator_loop_def
  by (rule flows_run | assumption | erule starts | rule flow_rules | erule flow_elims | rule moves | erule origins | rule flows_tail)+

lemma parse_decorator_prefixes_flows [flow_rules]:
  "below rec p \<Longrightarrow> later s p \<Longrightarrow> goes (later p) s N B k \<Longrightarrow> flows s N B (parse_decorator_prefixes rec p k)"
  "below rec p \<Longrightarrow> later s p \<Longrightarrow> goes (later p) s N B k1 \<Longrightarrow> flows s N B (opt_type rec tb p k1)"
  unfolding parse_decorator_prefixes_def opt_type_def
  by (assumption | erule starts | rule flow_rules | erule flow_elims | rule moves | erule origins | rule flows_tail)+

lemma parse_var_like_returns [flow_rules]:
  "below rec p \<Longrightarrow> returns p (parse_var_like rec kw u p)"
  unfolding parse_var_like_def
  by (assumption | erule starts | rule flow_rules | erule flow_elims | rule moves | erule origins | rule flows_tail)+

lemma parse_var_def_returns [flow_rules]:
  "below rec p \<Longrightarrow> returns p (parse_var_def rec p)"
  "below rec p \<Longrightarrow> returns p (parse_using rec p)"
  "below rec p \<Longrightarrow> returns p (parse_type_def rec p)"
  "below rec p \<Longrightarrow> later s p \<Longrightarrow> later r p \<Longrightarrow> flows s (\<lambda>_ q. past r q) (\<lambda>_ q. later r q) (enum_variant rec tb acc p)"
  unfolding parse_var_def_def parse_using_def parse_type_def_def enum_variant_def
  by (assumption | erule starts | rule flow_rules | erule flow_elims | rule moves | erule origins | rule flows_tail)+

lemma parse_enum_def_returns [flow_rules]:
  "below rec p \<Longrightarrow> returns p (parse_enum_def rec p)"
  "below rec p \<Longrightarrow> later s p \<Longrightarrow> goes (past p) s N B k1 \<Longrightarrow> flows s N B (struct_field rec tb ds p k1)"
  unfolding parse_enum_def_def struct_field_def
  by (assumption | erule starts | rule flow_rules | erule flow_elims | rule moves | erule origins | rule flows_tail)+

lemma union_field_round [flow_rules]:
  "below rec p \<Longrightarrow> later s p \<Longrightarrow> later r p \<Longrightarrow> flows s (\<lambda>_ q. past r q) (\<lambda>_ q. later r q) (union_field rec tb acc p)"
  unfolding union_field_def
  by (assumption | erule starts | rule flow_rules | erule flow_elims | rule moves | erule origins | rule flows_tail)+

lemma parse_union_def_returns [flow_rules]:
  "below rec p \<Longrightarrow> returns p (parse_union_def rec p)"
  "below rec p \<Longrightarrow> returns p (parse_cunion_def rec p)"
  unfolding parse_union_def_def parse_cunion_def_def
  by (assumption | erule starts | rule flow_rules | erule flow_elims | rule moves | erule origins | rule flows_tail)+

lemma flows_error_chain [starts]: "error_chain ds \<Longrightarrow> later s p \<Longrightarrow> flows s N B (Return (Some (hd ds)) p)"
  by (auto simp: error_chain_def flows_fault split: list.splits)

lemma struct_embed_round [flow_rules]:
  "ready p \<Longrightarrow> later s p \<Longrightarrow> later r p \<Longrightarrow> there p \<Longrightarrow> flows s (\<lambda>_ q. past r q) (\<lambda>_ q. later r q) (struct_embed st p)"
  unfolding struct_embed_def
  by (assumption | erule starts | rule flow_rules | erule flow_elims | rule moves | erule origins | rule flows_tail)+

lemma with_magic_call [flow_elims]: "deep rec s \<Longrightarrow> later s p \<Longrightarrow> returns p (with_magic (parse_func_def rec) p)"
proof -
  assume d: "deep rec s" and p: "later s p"
  let ?q = "p\<lparr>pr_magic := True\<rparr>"
  have pp: "later p p" and q: "later ?q ?q" using p by (auto simp: later_def)
  have "deep rec p" using d p by (rule deep_deep)
  then have "below rec ?q" using q by (simp add: below_def deep_def ahead_def)
  then have "returns ?q (parse_func_def rec ?q)" by (rule func_defs_return(1))
  then show ?thesis
    by (auto simp: with_magic_def returns_def flows_def later_def past_def split: flow.split)
qed

lemma struct_member_round [flow_rules]:
  "below rec p \<Longrightarrow> later s p \<Longrightarrow> later r p \<Longrightarrow> flows s (\<lambda>_ q. past r q) (\<lambda>_ q. later r q) (struct_member rec tb st p)"
  "below rec p \<Longrightarrow> later s p \<Longrightarrow> goes (later p) s N B k1 \<Longrightarrow> flows s N B (implements_list rec tb p k1)"
  unfolding struct_member_def implements_list_def
  by (assumption | erule starts | rule flow_rules | erule flow_elims | rule moves | erule origins | rule flows_tail)+

lemma parse_struct_def_returns [flow_rules]:
  "below rec p \<Longrightarrow> returns p (parse_struct_def rec p)"
  unfolding parse_struct_def_def
  by (assumption | erule starts | rule flow_rules | erule flow_elims | rule moves | erule origins | rule flows_tail)+

lemma flows_width [starts]:
  assumes "parse_int_lit p = (l, q)" "later s p" "\<And>b e v t. past p q \<Longrightarrow> flows s N B (f b e v t)" "later p q \<Longrightarrow> flows s N B g"
  shows "flows s N B (case l of Int_lit b e v t \<Rightarrow> f b e v t | _ \<Rightarrow> g)"
  using int_lit_moves [OF assms(1) later_refl [OF assms(2)]] assms(3,4)
  by (cases l) (auto simp: lit_node_def)

lemma bitfield_field_round [flow_rules]:
  "ready p \<Longrightarrow> later s p \<Longrightarrow> later r p \<Longrightarrow> flows s (\<lambda>_ q. past r q) (\<lambda>_ q. later r q) (bitfield_field tb w st p)"
  unfolding bitfield_field_def
  by (assumption | erule starts | rule flow_rules | erule flow_elims | rule moves | erule origins | rule flows_tail)+

lemma parse_bitfield_def_returns [flow_rules]:
  "ready p \<Longrightarrow> there p \<Longrightarrow> returns p (parse_bitfield_def p)"
  "below rec p \<Longrightarrow> returns p (parse_iface_func rec tb p)"
  "below rec p \<Longrightarrow> returns p (parse_iface_var rec tb p)"
  unfolding parse_bitfield_def_def parse_iface_func_def parse_iface_var_def
  by (assumption | erule starts | rule flow_rules | erule flow_elims | rule moves | erule origins | rule flows_tail)+

lemma interface_member_round [flow_rules]:
  "below rec p \<Longrightarrow> later s p \<Longrightarrow> later r p \<Longrightarrow> flows s (\<lambda>_ q. past r q) (\<lambda>_ q. later r q) (interface_member rec tb st p)"
  unfolding interface_member_def
  by (assumption | erule starts | rule flow_rules | erule flow_elims | rule moves | erule origins | rule flows_tail)+

lemma parse_interface_def_returns [flow_rules]:
  "below rec p \<Longrightarrow> returns p (parse_interface_def rec p)"
  unfolding parse_interface_def_def
  by (assumption | erule starts | rule flow_rules | erule flow_elims | rule moves | erule origins | rule flows_tail)+

end
