(* ===== verification/ParseStmtTotal.thy ===== *)
theory ParseStmtTotal
  imports ParseDeclTotal
begin

text \<open>Statements return (\<open>ParseStmt\<close>).\<close>

lemma flows_run_node [flow_rules]:
  assumes "returns p r" "later s p" "\<And>n q. is_error n \<Longrightarrow> later p q \<Longrightarrow> flows s N B (e n q)"
    "\<And>n q. past p q \<Longrightarrow> flows s N B (f n q)" "\<And>q. later p q \<Longrightarrow> flows s N B (g q)"
  shows "flows s N B (case r of Return (Some n) q \<Rightarrow> if is_error n then e n q else f n q | Return None q \<Rightarrow> g q | _ \<Rightarrow> Stuck)"
  using assms(1,2) by (rule returnsE) (auto simp: assms(3-5) split: option.split)

lemma flows_error_result [starts]: "is_error n \<Longrightarrow> later s p \<Longrightarrow> flows s N B (Return (Some n) p)"
  by (rule flows_fault)

lemma flows_assign_case [flow_rules]:
  "flows s N B f \<Longrightarrow> flows s N B g \<Longrightarrow> flows s N B (case kind_of e of Op (AST_ASSIGN a b c) \<Rightarrow> f | _ \<Rightarrow> g)"
  by (auto split: kind.split op_kind.split)

lemma deep_from: "deep rec s \<Longrightarrow> past s q \<Longrightarrow> later p q \<Longrightarrow> returns p (rec nt q)"
  by (auto simp: returns_def intro: flows_tail deep_call)

lemma need_own: "returns s r \<Longrightarrow> later s s \<Longrightarrow> (\<And>n q. past s q \<Longrightarrow> flows s N B (k n q)) \<Longrightarrow> flows s N B (need tb r k)"
  by (rule flows_need)

lemma condition_flows [flow_rules]:
  "below rec p \<Longrightarrow> later s p \<Longrightarrow> goes (past p) s N B k \<Longrightarrow> flows s N B (condition rec tb p k)"
  unfolding condition_def
  by (assumption | erule starts | rule flow_rules | erule flow_elims | rule moves | erule origins | rule flows_tail)+

lemma parse_if_returns [flow_rules]:
  "below rec p \<Longrightarrow> returns p (parse_if rec p)"
  unfolding parse_if_def
  by (assumption | erule starts | rule flow_rules | erule flow_elims | rule moves | erule origins | rule flows_tail)+

lemma parse_comptime_if_returns [flow_rules]: "below rec p \<Longrightarrow> returns p (parse_comptime_if rec p)"
  unfolding parse_comptime_if_def
  by (assumption | rule need_own | erule deep_from | erule starts | rule flow_rules | erule flow_elims | rule moves | erule origins | rule flows_tail)+

lemma parse_while_returns [flow_rules]:
  "below rec p \<Longrightarrow> returns p (parse_while rec p)"
  "below rec p \<Longrightarrow> returns p (parse_dowhile rec p)"
  "avail rec p \<Longrightarrow> returns p (parse_assign_or_expr_stmt rec p)"
  unfolding parse_while_def parse_dowhile_def parse_assign_or_expr_stmt_def
  by (assumption | erule starts | rule flow_rules | erule flow_elims | rule moves | erule origins | rule flows_tail)+

lemma for_init_flows [flow_rules]:
  "avail rec p \<Longrightarrow> later s p \<Longrightarrow> goes (later p) s N B k3 \<Longrightarrow> flows s N B (for_init rec tb p k3)"
  "avail rec p \<Longrightarrow> later s p \<Longrightarrow> goes (later p) s N B k1 \<Longrightarrow> flows s N B (for_clause rec tb sy p k1)"
  unfolding for_init_def for_clause_def
  by (assumption | erule starts | rule flow_rules | erule flow_elims | rule moves | erule origins | rule flows_tail)+

lemma parse_for_returns [flow_rules]:
  "below rec p \<Longrightarrow> returns p (parse_for rec p)"
  "below rec p \<Longrightarrow> later s p \<Longrightarrow> goes (later p) s N B k1 \<Longrightarrow> flows s N B (foreach_type rec tb d p k1)"
  unfolding parse_for_def foreach_type_def
  by (assumption | erule starts | rule flow_rules | erule flow_elims | rule moves | erule origins | rule flows_tail)+

lemma parse_foreach_returns [flow_rules]:
  "below rec p \<Longrightarrow> returns p (parse_foreach rec p)"
  unfolding parse_foreach_def
  by (assumption | erule starts | rule flow_rules | erule flow_elims | rule moves | erule origins | rule flows_tail)+

lemma switch_case_flow [flow_rules]:
  "below rec p \<Longrightarrow> later s p \<Longrightarrow> there p \<Longrightarrow> goes (past p) s N B k \<Longrightarrow> flows s N B (switch_case rec p k)"
  unfolding switch_case_def
  by (assumption | erule deep_from | erule starts | rule flow_rules | erule flow_elims | rule moves | erule origins | rule flows_tail)+

lemma switch_item_round [flow_rules]:
  "below rec p \<Longrightarrow> later s p \<Longrightarrow> later r p \<Longrightarrow> flows s (\<lambda>_ q. past r q) (\<lambda>_ q. later r q) (switch_item rec tb st p)"
  unfolding switch_item_def
  by (assumption | erule starts | rule flow_rules | erule flow_elims | rule moves | erule origins | rule flows_tail)+

lemma parse_switch_returns [flow_rules]:
  "below rec p \<Longrightarrow> returns p (parse_switch rec p)"
  "below rec p \<Longrightarrow> returns p (parse_return rec p)"
  "below rec p \<Longrightarrow> returns p (parse_defer rec p)"
  "below rec p \<Longrightarrow> there p \<Longrightarrow> returns p (parse_static_assert rec p)"
  "below rec p \<Longrightarrow> returns p (parse_comptime_stmt rec p)"
  "ready p \<Longrightarrow> returns p (parse_break p)"
  "ready p \<Longrightarrow> returns p (parse_continue p)"
  unfolding parse_switch_def parse_return_def parse_defer_def parse_static_assert_def
    parse_comptime_stmt_def parse_break_def parse_continue_def
  by (assumption | erule starts | rule flow_rules | erule flow_elims | rule moves | erule origins | rule flows_tail)+

lemma parse_stmt_returns [flow_rules]:
  "avail rec p \<Longrightarrow> returns p (parse_stmt rec p)"
  unfolding parse_stmt_def
  by (assumption | erule starts | rule flow_rules | erule flow_elims | rule moves | erule origins | rule flows_tail)+

lemma block_stmt_round [flow_rules]:
  "avail rec p \<Longrightarrow> later s p \<Longrightarrow> later r p \<Longrightarrow> flows s (\<lambda>_ q. past r q) (\<lambda>_ q. later r q) (block_stmt rec tb acc p)"
  unfolding block_stmt_def
  by (assumption | erule starts | rule flow_rules | erule flow_elims | rule moves | erule origins | rule flows_tail)+

lemma parse_block_returns [flow_rules]:
  "below rec p \<Longrightarrow> returns p (parse_block rec p)"
  unfolding parse_block_def
  by (assumption | erule starts | rule flow_rules | erule flow_elims | rule moves | erule origins | rule flows_tail)+

end
