(* ===== verification/ParserTotal.thy ===== *)
theory ParserTotal
  imports ParseStmtTotal
begin

text \<open>Top-level declarations, the program and the entry points return (\<open>ParseProgram\<close>).\<close>

section \<open>Top-level declarations\<close>

lemma parse_from_path_flows [flow_rules]:
  "ready p \<Longrightarrow> later s p \<Longrightarrow> goes (past p) s N B k \<Longrightarrow> flows s N B (parse_from_path tb p k)"
  unfolding parse_from_path_def
  by (assumption | erule starts | rule flow_rules | erule flow_elims | rule moves | erule origins | rule flows_tail)+

lemma parse_import_returns [flow_rules]:
  "ready p \<Longrightarrow> there p \<Longrightarrow> returns p (parse_import p)"
  "ready p \<Longrightarrow> returns p (parse_reexport p)"
  unfolding parse_import_def parse_reexport_def
  by (assumption | erule starts | rule flow_rules | erule flow_elims | rule moves | erule origins | rule flows_tail)+

lemma there_soft_keyword [flow_elims]: "cur_is_soft_keyword p kw \<Longrightarrow> there p"
  by (auto simp: cur_is_soft_keyword_def there_plain_kind)

lemma assert_close_bounds: "assert_close ts i d = Some c \<Longrightarrow> i \<le> c \<and> c < i + length ts"
proof (induction ts arbitrary: i d)
  case (Cons t ts)
  show ?case
    using Cons.prems Cons.IH [of "i + 1" d] Cons.IH [of "i + 1" "d + 1"] Cons.IH [of "i + 1" "d - 1"]
    by (auto split: if_split_asm)
qed simp

lemma flows_parse_assert_cond [flow_rules]:
  assumes "later s p" "\<And>x q. past p q \<Longrightarrow> flows s N B (k x q)"
  shows "flows s N B (parse_assert_cond tb p k)"
proof (cases "assert_close (drop (pr_pos p) (pr_tokens p)) (pr_pos p) 0")
  case None
  then show ?thesis using assms(1) by (simp add: parse_assert_cond_def flows_error)
next
  case (Some c)
  then have "past p (p\<lparr>pr_pos := c + 1\<rparr>)"
    using assert_close_bounds [OF Some] assms(1) by (auto simp: past_def later_def)
  then show ?thesis
    using Some assms by (auto simp: parse_assert_cond_def flows_error Let_def split: sum.split)
qed

lemma lib_cond_flows [flow_rules]:
  "ready p \<Longrightarrow> later s p \<Longrightarrow> goes (later p) s N B k \<Longrightarrow> flows s N B (lib_cond tb p k)"
  unfolding lib_cond_def
  by (assumption | erule starts | rule flow_rules | erule flow_elims | rule moves | erule origins | rule flows_tail)+

lemma parse_extern_lib_returns [flow_rules]:
  "ready p \<Longrightarrow> returns p (parse_extern_lib tb p)"
  unfolding parse_extern_lib_def
  by (assumption | erule starts | rule flow_rules | erule flow_elims | rule moves | erule origins | rule flows_tail)+

lemma past_test [starts]: "at_test_block p \<Longrightarrow> later s p \<Longrightarrow> past s (skip p)"
proof -
  assume t: "at_test_block p" and p: "later s p"
  have "pr_pos p < length (pr_tokens p)"
  proof (rule ccontr)
    assume "\<not> pr_pos p < length (pr_tokens p)"
    then have "skip p = p" "cur_token p = Some (last (pr_tokens p))"
      using p by (auto simp: skip_def step_eq later_def cur_token_def last_conv_nth intro: skip_trivia.simps [THEN trans])
    then show False using t p by (simp add: at_test_block_def check_kind_def token_get_kind_def later_def)
  qed
  then have "past s (step p)" using p by (auto simp: past_def later_def step_eq)
  then show ?thesis unfolding skip_def by (rule past_skip_trivia)
qed

lemma flows_string_name [flow_rules]:
  "(\<And>name. flows s N B (f name)) \<Longrightarrow> flows s N B g \<Longrightarrow>
   flows s N B (case kind_of n of Atom (AST_STRING_LIT name x) \<Rightarrow> f name | _ \<Rightarrow> g)"
  by (auto split: kind.split atom_kind.split)

lemma parse_test_block_returns [flow_rules]: "below rec p \<Longrightarrow> at_test_block p \<Longrightarrow> returns p (parse_test_block rec p)"
  unfolding parse_test_block_def
  by (rule flows_run_node flows_run | assumption | erule starts | rule flow_rules | erule flow_elims | rule moves | erule origins | rule flows_tail)+

lemma comptime_decl_returns [flow_rules]:
  "below rec p \<Longrightarrow> returns p (comptime_decl rec tb p)"
  "below rec p \<Longrightarrow> returns p (extern_decl rec la tb p)"
  unfolding comptime_decl_def extern_decl_def
  by (assumption | erule starts | rule flow_rules | erule flow_elims | rule moves | erule origins | rule flows_tail)+

lemma change_own: "returns s r \<Longrightarrow> later s s \<Longrightarrow> flows s N B (change f r)"
  by (rule flows_tail [OF returns_change])

lemma returns_error: "later p q \<Longrightarrow> returns p (ast_error_new tb q)"
  by (simp add: returns_def flows_error)

lemma returns_tail: "returns q r \<Longrightarrow> later p q \<Longrightarrow> returns p r"
  by (auto simp: returns_def intro: flows_tail)

lemma parse_export_returns [flow_rules]: "below rec p \<Longrightarrow> there p \<Longrightarrow> returns p (export_decl rec p)"
  unfolding export_decl_def
  by (rule change_own | assumption | erule starts | rule flow_rules | erule flow_elims | rule moves | erule origins | rule flows_tail | rule returns_error | rule returns_tail)+

lemma top_decl_returns [flow_rules]:
  "below rec p \<Longrightarrow> returns p (top_decl rec p)"
  unfolding top_decl_def
  by (assumption | erule starts | rule flow_rules | erule flow_elims | rule moves | erule origins | rule flows_tail)+

section \<open>The program\<close>

lemma flows_value [flow_rules]:
  assumes "returns p r" "later s p"
    "\<And>v q. later p q \<Longrightarrow> \<forall>n. v = Some n \<and> \<not> is_error n \<longrightarrow> past p q \<Longrightarrow> flows s N B (f v q)"
  shows "flows s N B (case r of Return v q \<Rightarrow> f v q | _ \<Rightarrow> Stuck)"
  using assms(1,2) by (rule returnsE) (auto intro!: assms(3))

lemma with_decorators_node:
  "with_decorators ds v p = Some n \<Longrightarrow> \<not> is_error n \<Longrightarrow> \<exists>m. v = Some m \<and> \<not> is_error m"
  by (auto simp: with_decorators_def error_chain_def split: if_split_asm list.splits option.splits)

lemma flows_item_end:
  assumes "later q p" "\<forall>n. v = Some n \<and> \<not> is_error n \<longrightarrow> past q p" "later s q" "later r q"
  shows "flows s (\<lambda>_ q. past r q) (\<lambda>_ q. later r q)
     (case with_decorators ds v p of
        None \<Rightarrow> if pr_recover p then Break funcs (p\<lparr>pr_error := True\<rparr>) else ast_error_new tb p
      | Some n \<Rightarrow>
          if is_error n then if pr_recover p then Break funcs (p\<lparr>pr_error := True\<rparr>) else Return (Some n) p
          else Next (funcs @ [n]) (skip_trivia p))"
  using with_decorators_node [of ds v p] later_trans [OF assms(3,1)] later_trans [OF assms(4,1)] past_past [OF _ assms(4), of p] assms(2)
  by (auto split: option.split intro!: flows_break flows_error flows_fault flows_next later_error past_skip_trivia)

lemma program_item_round [flow_rules]:
  "avail rec p \<Longrightarrow> later s p \<Longrightarrow> later r p \<Longrightarrow> flows s (\<lambda>_ q. past r q) (\<lambda>_ q. later r q) (program_item rec tb funcs p)"
  unfolding program_item_def
  by (rule flows_item_end | assumption | erule starts | rule flow_rules | erule flow_elims | rule moves | erule origins | rule flows_tail)+

lemma program_returns:
  assumes "avail rec p"
  shows "\<exists>v q. parse_program rec p = Return v q \<and> later p q"
proof -
  have p: "later p p" and d: "here rec p" using assms by (simp_all add: avail_def)
  have "flows p (\<lambda>_ _. False) (\<lambda>_ q. later p q \<and> True)
      (loop (Suc (length (pr_tokens p))) (program_item rec (pr_pos p)) [] (skip_trivia p))"
  proof (rule flows_loop [where I = "\<lambda>_ q. True"])
    fix a q assume q: "later p q"
    have "flows p (\<lambda>_ q'. past q q') (\<lambda>_ q'. later q q') (program_item rec (pr_pos p) a q)"
      using q d by (intro program_item_round) (auto simp: avail_def intro: here_here later_refl)
    then show "flows p (\<lambda>_ q'. past q q' \<and> True) (\<lambda>_ q'. later p q' \<and> True) (program_item rec (pr_pos p) a q)"
      using q by (auto simp: flows_def intro: later_trans split: flow.splits)
  qed (use p in \<open>auto intro: later_skip_trivia\<close>)
  moreover have "pr_tokens (skip_trivia p) = pr_tokens p" using later_skip_trivia [OF p] by (simp add: later_def)
  ultimately show ?thesis
    by (auto simp: parse_program_def iterate_def flows_def give_def Let_def split: flow.splits simp del: loop.simps)
qed

section \<open>The entry points\<close>

definition rank :: "nonterm \<Rightarrow> nat" where
  "rank nt = (case nt of Type_prefix \<Rightarrow> 2 | Raw_type_atom \<Rightarrow> 2 | Expr_prec _ \<Rightarrow> 1 | Pattern_or \<Rightarrow> 1 | _ \<Rightarrow> 0)"

text \<open>The tokens that are left bound the depth of calls: a call at the same position goes down in rank.\<close>

definition height :: "nonterm \<Rightarrow> parser \<Rightarrow> nat" where
  "height nt p = 3 * (length (pr_tokens p) - pr_pos p) + rank nt"

lemma height_ahead: "ahead p q \<Longrightarrow> height nt' q < height nt p"
  by (cases nt') (auto simp: height_def rank_def ahead_def later_def)

lemma height_later: "later p q \<Longrightarrow> rank nt' < rank nt \<Longrightarrow> height nt' q < height nt p"
  by (auto simp: height_def later_def)

lemma entry_returns:
  assumes "later p p" and rec: "\<And>nt' q. later q q \<Longrightarrow> height nt' q < height nt p \<Longrightarrow> returns q (rec nt' q)"
  shows "returns p (entry rec over nt p)"
proof -
  have b: "below rec p"
    using assms(1) by (auto simp: below_def deep_def ahead_def intro!: rec height_ahead [unfolded ahead_def])
  have same: "later p q \<Longrightarrow> rank nt' < rank nt \<Longrightarrow> returns q (rec nt' q)" for nt' q
    by (rule rec) (auto intro: later_refl height_later)
  show ?thesis
    using b assms(1)
    by (cases nt) (auto simp: entry_def rank_def intro!: expr_prec_returns parse_unary_returns type_prefix_returns
        raw_type_atom_returns parse_pattern_atom_returns pattern_or_returns parse_block_returns parse_if_returns
        parse_comptime_if_returns same)
qed

lemma parse_at_returns: "later p p \<Longrightarrow> height nt p < n \<Longrightarrow> returns p (parse_at over n nt p)"
proof (induction n arbitrary: nt p)
  case (Suc n)
  then show ?case by (auto intro!: entry_returns)
qed simp

section \<open>The parser\<close>

lemma pool_start:
  "pr_tokens p \<noteq> [] \<Longrightarrow> tk_kind (last (pr_tokens p)) = TOKEN_TYPE_EOF \<Longrightarrow> pr_pos p \<le> length (pr_tokens p) \<Longrightarrow> later p p"
  by (simp add: later_def)

lemma parse_at_avail: "later p p \<Longrightarrow> avail (parse_at over (call_depth (length (pr_tokens p)))) p"
  by (auto simp: avail_def here_def deep_def ahead_def later_def call_depth_def height_def rank_def
      intro!: parse_at_returns split: nonterm.split)

text \<open>
  C36 (liveness). A source text always comes to a result: either the lexer reports an error, or its pool has
  no error token and the parser returns on it with the cursor in the pool.
\<close>

theorem front_end_total:
  assumes "icu_ok icu" and "length data < 2 ^ 31"
  shows "(\<exists>t. driver_pool icu [] (lexer_create icu (istream_open \<lparr>ms_data = data, ms_pos = 0\<rparr>) filename) = Some (Inl t) \<and>
      tk_kind t = TOKEN_TYPE_ERROR) \<or>
    (\<exists>ts v q. driver_pool icu [] (lexer_create icu (istream_open \<lparr>ms_data = data, ms_pos = 0\<rparr>) filename) = Some (Inr ts) \<and>
      \<not> has_lexical_errors (parser_create ts) \<and> parser_parse over (parser_create ts) = Return v q \<and>
      pr_tokens q = ts \<and> pr_pos q \<le> length ts)"
proof -
  let ?lx = "lexer_create icu (istream_open \<lparr>ms_data = data, ms_pos = 0\<rparr>) filename"
  note c = create_ok [OF assms, of filename]
  consider (err) t where "driver_pool icu [] ?lx = Some (Inl t)" "tk_kind t = TOKEN_TYPE_ERROR"
    | (ok) ts where "driver_pool icu [] ?lx = Some (Inr ts)" "pool_spec ?lx ts"
    using pool_runs [OF assms(1) c(1), of "[]"] c(4) by auto
  then show ?thesis
  proof cases
    case err
    then show ?thesis by blast
  next
    case ok
    obtain body eof where ts: "ts = body @ [eof]" "tk_kind eof = TOKEN_TYPE_EOF"
        "\<forall>t \<in> set body. tk_kind t \<noteq> TOKEN_TYPE_EOF \<and> tk_kind t \<noteq> TOKEN_TYPE_ERROR \<and> tk_text t \<noteq> []"
      using ok(2) unfolding pool_spec_def by blast
    have p: "later (parser_create ts) (parser_create ts)" using ts by (simp add: later_def parser_create_def)
    have clean: "\<not> has_lexical_errors (parser_create ts)"
      using ts by (auto simp: has_lexical_errors_def parser_create_def list_ex_iff)
    obtain v q where "parser_parse over (parser_create ts) = Return v q" "later (parser_create ts) q"
      using program_returns [OF parse_at_avail [OF p, of over]] clean by (auto simp: parser_parse_def)
    then show ?thesis using ok(1) clean by (auto simp: later_def parser_create_def)
  qed
qed

theorem front_end_total_witness:
  "\<exists>ts v q. driver_pool latin_icu [] (lexer_create latin_icu (istream_open \<lparr>ms_data = ''var x = 1;'', ms_pos = 0\<rparr>) ''f'') = Some (Inr ts) \<and>
     parser_parse (\<lambda>_ _. False) (parser_create ts) = Return v q \<and> pr_pos q \<le> length ts"
proof -
  let ?lx = "lexer_create latin_icu (istream_open \<lparr>ms_data = ''var x = 1;'', ms_pos = 0\<rparr>) ''f''"
  have "case driver_pool latin_icu [] ?lx of Some (Inr _) \<Rightarrow> True | _ \<Rightarrow> False" by code_simp
  then show ?thesis using front_end_total [OF latin_icu_ok, of "''var x = 1;''" "''f''" "\<lambda>_ _. False"] by auto
qed

end
