(* ===== verification/ParserDepth.thy ===== *)
theory ParserDepth
  imports ParserTotal
begin

text \<open>
  A greater depth of calls does not change a result: the functions of the parser are monotone in the
  entry points they call, where a run that is stuck is below every other.
\<close>

named_theorems le_rules
named_theorems le_elims

definition le :: "'a flow \<Rightarrow> 'a flow \<Rightarrow> bool" where
  "le r r' \<longleftrightarrow> r = Stuck \<or> r = r'"

definition refines :: "knot \<Rightarrow> knot \<Rightarrow> bool" where
  "refines rec rec' \<longleftrightarrow> (\<forall>nt p. le (rec nt p) (rec' nt p))"

definition rest :: "('b \<Rightarrow> parser \<Rightarrow> 'a flow) \<Rightarrow> ('b \<Rightarrow> parser \<Rightarrow> 'a flow) \<Rightarrow> bool" where
  "rest k k' \<longleftrightarrow> (\<forall>x q. le (k x q) (k' x q))"

definition rest2 :: "('b \<Rightarrow> 'c \<Rightarrow> parser \<Rightarrow> 'a flow) \<Rightarrow> ('b \<Rightarrow> 'c \<Rightarrow> parser \<Rightarrow> 'a flow) \<Rightarrow> bool" where
  "rest2 k k' \<longleftrightarrow> (\<forall>x y q. le (k x y q) (k' x y q))"

lemma le_refl: "le r r"
  by (simp add: le_def)

lemma refines_call [le_elims]: "refines rec rec' \<Longrightarrow> le (rec nt p) (rec' nt p)"
  by (simp add: refines_def)

lemma rest_on [le_elims]: "rest k k' \<Longrightarrow> le (k x q) (k' x q)" "rest2 k2 k2' \<Longrightarrow> le (k2 x y q) (k2' x y q)"
  by (simp_all add: rest_def rest2_def)

lemma restI [le_rules]: "(\<And>x q. le (k x q) (k' x q)) \<Longrightarrow> rest k k'" "(\<And>x y q. le (k2 x y q) (k2' x y q)) \<Longrightarrow> rest2 k2 k2'"
  by (simp_all add: rest_def rest2_def)

lemma le_if [le_rules]: "le x x' \<Longrightarrow> le y y' \<Longrightarrow> le (if c then x else y) (if c then x' else y')"
  by simp

lemma le_let [le_rules]: "le (f x) (f' x') \<Longrightarrow> le (Let x f) (Let x' f')"
  by simp

lemma le_split [le_rules]:
  "(\<And>a b. le (f a b) (f' a b)) \<Longrightarrow> le (case x of (a, b) \<Rightarrow> f a b) (case x of (a, b) \<Rightarrow> f' a b)"
  "(\<And>a b. le (g a b q) (g' a b q)) \<Longrightarrow> le ((case x of (a, b) \<Rightarrow> g a b) q) ((case x of (a, b) \<Rightarrow> g' a b) q)"
  "le n n' \<Longrightarrow> (\<And>v. le (s v) (s' v)) \<Longrightarrow> le (case y of None \<Rightarrow> n | Some v \<Rightarrow> s v) (case y of None \<Rightarrow> n' | Some v \<Rightarrow> s' v)"
  by (cases x; simp; fail | cases y; simp)+

lemma le_takes [le_rules]:
  "le r r' \<Longrightarrow> (\<And>n q. le (k n q) (k' n q)) \<Longrightarrow> le (need tb r k) (need tb r' k')"
  "le r r' \<Longrightarrow> (\<And>n q. le (k n q) (k' n q)) \<Longrightarrow> le (need_here r k) (need_here r' k')"
  "le r r' \<Longrightarrow> (\<And>n q. le (k n q) (k' n q)) \<Longrightarrow> le (pass r k) (pass r' k')"
  "le r r' \<Longrightarrow> (\<And>q. le (j q) (j' q)) \<Longrightarrow> le (first_of r j) (first_of r' j')"
  "(\<And>q. le (j q) (j' q)) \<Longrightarrow> le (expect sy tb p j) (expect sy tb p j')"
  "(\<And>q. le (j q) (j' q)) \<Longrightarrow> le (expect_kw sy tb p j) (expect_kw sy tb p j')"
  "(\<And>q. le (j q) (j' q)) \<Longrightarrow> le (reserved_name p j) (reserved_name p j')"
  by (auto simp: le_def need_def need_here_def pass_def first_of_def expect_def expect_kw_def reserved_name_def
      split: flow.split option.split prod.split)

lemma le_case [le_rules]:
  "le r r' \<Longrightarrow> (\<And>v q. le (f v q) (f' v q)) \<Longrightarrow>
   le (case r of Return v q \<Rightarrow> f v q | _ \<Rightarrow> Stuck) (case r' of Return v q \<Rightarrow> f' v q | _ \<Rightarrow> Stuck)"
  by (auto simp: le_def split: flow.split)

lemma le_string_name [le_rules]:
  "(\<And>name. le (f name) (f' name)) \<Longrightarrow> le (case kind_of n of Atom (AST_STRING_LIT name x) \<Rightarrow> f name | _ \<Rightarrow> g)
     (case kind_of n of Atom (AST_STRING_LIT name x) \<Rightarrow> f' name | _ \<Rightarrow> g)"
  by (auto simp: le_refl split: kind.split atom_kind.split)

lemma le_wrap [le_rules]:
  "le r r' \<Longrightarrow> le (change g r) (change g r')"
  "le (f (p\<lparr>pr_pipe := pr_pipe p + 1\<rparr>)) (f' (p\<lparr>pr_pipe := pr_pipe p + 1\<rparr>)) \<Longrightarrow> le (at_pipe f p) (at_pipe f' p)"
  "le (f (p\<lparr>pr_magic := True\<rparr>)) (f' (p\<lparr>pr_magic := True\<rparr>)) \<Longrightarrow> le (with_magic f p) (with_magic f' p)"
  by (auto simp: le_def change_def at_pipe_def with_magic_def)

lemma le_loop: "(\<And>a q. le (b a q) (b' a q)) \<Longrightarrow> le (loop n b a p) (loop n b' a p)"
proof (induction n arbitrary: a p)
  case (Suc n)
  then have step: "le (b a p) (b' a p)" and IH: "le (loop n b x q) (loop n b' x q)" for x q by blast+
  show ?case using step IH by (cases "b' a p") (auto simp: le_def, metis)
qed (simp add: le_def)

lemma le_iterate [le_rules]:
  assumes "\<And>a q. le (b a q) (b' a q)" "\<And>a q. le (k a q) (k' a q)"
  shows "le (iterate b a p k) (iterate b' a p k')"
  using le_loop [of b b' "Suc (length (pr_tokens p))" a p, OF assms(1)] assms(2)
  by (auto simp: le_def iterate_def split: flow.split simp del: loop.simps) metis

lemma le_commas [le_rules]:
  "(\<And>q. le (i q) (i' q)) \<Longrightarrow> (\<And>a q. le (k a q) (k' a q)) \<Longrightarrow> le (comma_loop tb i acc p k) (comma_loop tb i' acc p k')"
  "(\<And>q. le (i q) (i' q)) \<Longrightarrow> (\<And>a q. le (k a q) (k' a q)) \<Longrightarrow> le (comma_list tb sy i p k) (comma_list tb sy i' p k')"
  "(\<And>q. le (i q) (i' q)) \<Longrightarrow> le (pattern_chain sy bd i p) (pattern_chain sy bd i' p)"
  unfolding comma_loop_def comma_list_def pattern_chain_def
  by (assumption | rule le_rules le_refl)+

lemma parse_pattern_array_le [le_rules]:
  "refines rec rec' \<Longrightarrow> le (parse_pattern_array rec x0b p) (parse_pattern_array rec' x0b p)"
  "refines rec rec' \<Longrightarrow> le (parse_pattern_tuple rec x1b p) (parse_pattern_tuple rec' x1b p)"
  "refines rec rec' \<Longrightarrow> le (parse_pattern_func rec x2b p) (parse_pattern_func rec' x2b p)"
  "refines rec rec' \<Longrightarrow> le (parse_pattern_name rec x3b p) (parse_pattern_name rec' x3b p)"
  unfolding parse_pattern_array_def parse_pattern_tuple_def parse_pattern_func_def parse_pattern_name_def
  by (assumption | rule le_rules | erule le_elims | rule le_refl)+

lemma parse_pattern_atom_le [le_rules]:
  "refines rec rec' \<Longrightarrow> le (parse_pattern_atom rec p) (parse_pattern_atom rec' p)"
  "refines rec rec' \<Longrightarrow> le (parse_pattern_and rec p) (parse_pattern_and rec' p)"
  unfolding parse_pattern_atom_def parse_pattern_and_def
  by (assumption | rule le_rules | erule le_elims | rule le_refl)+

lemma parse_pattern_or_le [le_rules]:
  "refines rec rec' \<Longrightarrow> le (parse_pattern_or rec p) (parse_pattern_or rec' p)"
  "refines rec rec' \<Longrightarrow> le (parse_pattern rec p) (parse_pattern rec' p)"
  "refines rec rec' \<Longrightarrow> le (parse_type_prefix rec p) (parse_type_prefix rec' p)"
  "refines rec rec' \<Longrightarrow> le (parse_raw_type_atom rec p) (parse_raw_type_atom rec' p)"
  "refines rec rec' \<Longrightarrow> rest k4 k4' \<Longrightarrow> le (generic_type rec x4b p k4) (generic_type rec' x4b p k4')"
  unfolding parse_pattern_or_def parse_pattern_def parse_type_prefix_def parse_raw_type_atom_def
    generic_type_def
  by (assumption | rule le_rules | erule le_elims | rule le_refl)+

lemma generic_constraint_le [le_rules]:
  "refines rec rec' \<Longrightarrow> rest k0 k0' \<Longrightarrow> le (generic_constraint rec x0b x0c p k0) (generic_constraint rec' x0b x0c p k0')"
  "refines rec rec' \<Longrightarrow> rest k1 k1' \<Longrightarrow> le (generic_default rec x1b p k1) (generic_default rec' x1b p k1')"
  unfolding generic_constraint_def generic_default_def
  by (assumption | rule le_rules | erule le_elims | rule le_refl)+

lemma generic_param_le [le_rules]:
  "refines rec rec' \<Longrightarrow> le (generic_param rec x0b p) (generic_param rec' x0b p)"
  unfolding generic_param_def
  by (assumption | rule le_rules | erule le_elims | rule le_refl)+

lemma parse_generic_params_le [le_rules]:
  "refines rec rec' \<Longrightarrow> rest k0 k0' \<Longrightarrow> le (parse_generic_params rec p k0) (parse_generic_params rec' p k0')"
  unfolding parse_generic_params_def
  by (assumption | rule le_rules | erule le_elims | rule le_refl)+

lemma opt_generic_le [le_rules]:
  "refines rec rec' \<Longrightarrow> rest k0 k0' \<Longrightarrow> le (opt_generic rec p k0) (opt_generic rec' p k0')"
  "refines rec rec' \<Longrightarrow> le (parse_param rec p) (parse_param rec' p)"
  unfolding opt_generic_def parse_param_def
  by (assumption | rule le_rules | erule le_elims | rule le_refl)+

lemma parse_func_param_item_le [le_rules]:
  "refines rec rec' \<Longrightarrow> le (parse_func_param_item rec p) (parse_func_param_item rec' p)"
  "refines rec rec' \<Longrightarrow> le (capture_init rec x1b p) (capture_init rec' x1b p)"
  unfolding parse_func_param_item_def capture_init_def
  by (assumption | rule le_rules | erule le_elims | rule le_refl)+

lemma parse_capture_item_le [le_rules]:
  "refines rec rec' \<Longrightarrow> le (parse_capture_item rec p) (parse_capture_item rec' p)"
  unfolding parse_capture_item_def
  by (assumption | rule le_rules | erule le_elims | rule le_refl)+

lemma parse_capture_list_le [le_rules]:
  "refines rec rec' \<Longrightarrow> rest k0 k0' \<Longrightarrow> le (parse_capture_list rec p k0) (parse_capture_list rec' p k0')"
  "refines rec rec' \<Longrightarrow> le (more_params rec x1b x1c x1d p) (more_params rec' x1b x1c x1d p)"
  unfolding parse_capture_list_def more_params_def
  by (assumption | rule le_rules | erule le_elims | rule le_refl)+

lemma func_params_le [le_rules]:
  "refines rec rec' \<Longrightarrow> rest k0 k0' \<Longrightarrow> le (func_params rec x0b x0c p k0) (func_params rec' x0b x0c p k0')"
  "refines rec rec' \<Longrightarrow> le (func_rest rec x1b x1c x1d x1e x1f x1g p) (func_rest rec' x1b x1c x1d x1e x1f x1g p)"
  "refines rec rec' \<Longrightarrow> le (func_type_rest rec x2b x2c x2d x2e p) (func_type_rest rec' x2b x2c x2d x2e p)"
  "rest k3 k3' \<Longrightarrow> le (func_name x3a p k3) (func_name x3a p k3')"
  "refines rec rec' \<Longrightarrow> rest2 k4 k4' \<Longrightarrow> le (func_generic rec x4b x4c x4d x4e p k4) (func_generic rec' x4b x4c x4d x4e p k4')"
  unfolding func_params_def func_rest_def func_type_rest_def func_name_def func_generic_def
  by (assumption | rule le_rules | erule le_elims | rule le_refl)+

lemma parse_func_like_ex_le [le_rules]:
  "refines rec rec' \<Longrightarrow> le (parse_func_like_ex rec x0b x0c x0d x0e p) (parse_func_like_ex rec' x0b x0c x0d x0e p)"
  unfolding parse_func_like_ex_def
  by (assumption | rule le_rules | erule le_elims | rule le_refl)+

lemma parse_func_like_le [le_rules]:
  "refines rec rec' \<Longrightarrow> le (parse_func_like rec x0b x0c p) (parse_func_like rec' x0b x0c p)"
  unfolding parse_func_like_def
  by (assumption | rule le_rules | erule le_elims | rule le_refl)+

lemma parse_func_def_le [le_rules]:
  "refines rec rec' \<Longrightarrow> le (parse_func_def rec p) (parse_func_def rec' p)"
  "refines rec rec' \<Longrightarrow> le (parse_cfunc_def rec p) (parse_cfunc_def rec' p)"
  "rest2 k2 k2' \<Longrightarrow> le (extern_name x2a p k2) (extern_name x2a p k2')"
  unfolding parse_func_def_def parse_cfunc_def_def extern_name_def
  by (assumption | rule le_rules | erule le_elims | rule le_refl)+

lemma parse_extern_cfunc_le [le_rules]:
  "refines rec rec' \<Longrightarrow> le (parse_extern_cfunc rec x0b p) (parse_extern_cfunc rec' x0b p)"
  "refines rec rec' \<Longrightarrow> le (parse_extern_var rec x1b p) (parse_extern_var rec' x1b p)"
  "refines rec rec' \<Longrightarrow> le (parse_spread rec p) (parse_spread rec' p)"
  "refines rec rec' \<Longrightarrow> le (parse_fill rec p) (parse_fill rec' p)"
  unfolding parse_extern_cfunc_def parse_extern_var_def parse_spread_def parse_fill_def
  by (assumption | rule le_rules | erule le_elims | rule le_refl)+

lemma parse_construct_field_le [le_rules]:
  "refines rec rec' \<Longrightarrow> le (parse_construct_field rec p) (parse_construct_field rec' p)"
  "refines rec rec' \<Longrightarrow> le (parse_tuple_elem rec p) (parse_tuple_elem rec' p)"
  "refines rec rec' \<Longrightarrow> le (parse_group rec p) (parse_group rec' p)"
  "refines rec rec' \<Longrightarrow> le (parse_array_type rec p) (parse_array_type rec' p)"
  unfolding parse_construct_field_def parse_tuple_elem_def parse_group_def parse_array_type_def
  by (assumption | rule le_rules | erule le_elims | rule le_refl)+

lemma parse_tuple_type_le [le_rules]:
  "refines rec rec' \<Longrightarrow> le (parse_tuple_type rec p) (parse_tuple_type rec' p)"
  "refines rec rec' \<Longrightarrow> le (parse_make rec p) (parse_make rec' p)"
  unfolding parse_tuple_type_def parse_make_def
  by (assumption | rule le_rules | erule le_elims | rule le_refl)+

lemma parse_primary_le [le_rules]:
  "refines rec rec' \<Longrightarrow> le (parse_primary rec x0b p) (parse_primary rec' x0b p)"
  "refines rec rec' \<Longrightarrow> le (parse_of rec x1b x1c p) (parse_of rec' x1b x1c p)"
  "refines rec rec' \<Longrightarrow> le (more_fields rec x2b x2c p) (more_fields rec' x2b x2c p)"
  unfolding parse_primary_def parse_of_def more_fields_def
  by (assumption | rule le_rules | erule le_elims | rule le_refl)+

lemma construct_fields_le [le_rules]:
  "refines rec rec' \<Longrightarrow> le (construct_fields rec x0b x0c p) (construct_fields rec' x0b x0c p)"
  unfolding construct_fields_def
  by (assumption | rule le_rules | erule le_elims | rule le_refl)+

lemma parse_construct_le [le_rules]:
  "refines rec rec' \<Longrightarrow> le (parse_construct rec p) (parse_construct rec' p)"
  unfolding parse_construct_def
  by (assumption | rule le_rules | erule le_elims | rule le_refl)+

lemma parse_unary_le [le_rules]:
  "refines rec rec' \<Longrightarrow> le (parse_unary rec x0b p) (parse_unary rec' x0b p)"
  "refines rec rec' \<Longrightarrow> le (type_args_loop rec x1b p) (type_args_loop rec' x1b p)"
  unfolding parse_unary_def type_args_loop_def
  by (assumption | rule le_rules | erule le_elims | rule le_refl)+

lemma parse_type_with_index_le [le_rules]:
  "refines rec rec' \<Longrightarrow> le (parse_type_with_index rec p) (parse_type_with_index rec' p)"
  "refines rec rec' \<Longrightarrow> le (parse_call_arg rec p) (parse_call_arg rec' p)"
  unfolding parse_type_with_index_def parse_call_arg_def
  by (assumption | rule le_rules | erule le_elims | rule le_refl)+

lemma postfix_call_le [le_rules]:
  "refines rec rec' \<Longrightarrow> le (postfix_call rec x0b p) (postfix_call rec' x0b p)"
  "refines rec rec' \<Longrightarrow> le (slice_high rec x1b x1c x1d p) (slice_high rec' x1b x1c x1d p)"
  unfolding postfix_call_def slice_high_def
  by (assumption | rule le_rules | erule le_elims | rule le_refl)+

lemma postfix_index_le [le_rules]:
  "refines rec rec' \<Longrightarrow> le (postfix_index rec x0b p) (postfix_index rec' x0b p)"
  unfolding postfix_index_def
  by (assumption | rule le_rules | erule le_elims | rule le_refl)+

lemma postfix_loop_le [le_rules]:
  "refines rec rec' \<Longrightarrow> le (postfix_loop rec x0b p) (postfix_loop rec' x0b p)"
  unfolding postfix_loop_def
  by (assumption | rule le_rules | erule le_elims | rule le_refl)+

lemma parse_postfix_le [le_rules]:
  "refines rec rec' \<Longrightarrow> le (parse_postfix rec x0b p) (parse_postfix rec' x0b p)"
  "refines rec rec' \<Longrightarrow> le (infix_ternary rec x1b p) (infix_ternary rec' x1b p)"
  "refines rec rec' \<Longrightarrow> le (infix_assign rec x2b p) (infix_assign rec' x2b p)"
  "refines rec rec' \<Longrightarrow> le (cast_type rec p) (cast_type rec' p)"
  unfolding parse_postfix_def infix_ternary_def infix_assign_def cast_type_def
  by (assumption | rule le_rules | erule le_elims | rule le_refl)+

lemma infix_binary_le [le_rules]:
  "refines rec rec' \<Longrightarrow> le (infix_binary rec x0b x0c x0d x0e p) (infix_binary rec' x0b x0c x0d x0e p)"
  unfolding infix_binary_def
  by (assumption | rule le_rules | erule le_elims | rule le_refl)+

lemma infix_loop_le [le_rules]:
  "refines rec rec' \<Longrightarrow> le (infix_loop rec x0b x0c p) (infix_loop rec' x0b x0c p)"
  unfolding infix_loop_def
  by (assumption | rule le_rules | erule le_elims | rule le_refl)+

lemma parse_expr_prec_le [le_rules]:
  "refines rec rec' \<Longrightarrow> le (parse_expr_prec rec x0b p) (parse_expr_prec rec' x0b p)"
  "refines rec rec' \<Longrightarrow> le (decorator_loop rec x1b p) (decorator_loop rec' x1b p)"
  unfolding parse_expr_prec_def decorator_loop_def
  by (assumption | rule le_rules | erule le_elims | rule le_refl)+

lemma parse_decorator_prefixes_le [le_rules]:
  "refines rec rec' \<Longrightarrow> rest k0 k0' \<Longrightarrow> le (parse_decorator_prefixes rec p k0) (parse_decorator_prefixes rec' p k0')"
  "rest k1 k1' \<Longrightarrow> le (declared_name x1a p k1) (declared_name x1a p k1')"
  "refines rec rec' \<Longrightarrow> rest k2 k2' \<Longrightarrow> le (opt_type rec x2b p k2) (opt_type rec' x2b p k2')"
  unfolding parse_decorator_prefixes_def declared_name_def opt_type_def
  by (assumption | rule le_rules | erule le_elims | rule le_refl)+

lemma parse_var_like_le [le_rules]:
  "refines rec rec' \<Longrightarrow> le (parse_var_like rec x0b x0c p) (parse_var_like rec' x0b x0c p)"
  unfolding parse_var_like_def
  by (assumption | rule le_rules | erule le_elims | rule le_refl)+

lemma parse_var_def_le [le_rules]:
  "refines rec rec' \<Longrightarrow> le (parse_var_def rec p) (parse_var_def rec' p)"
  "refines rec rec' \<Longrightarrow> le (parse_using rec p) (parse_using rec' p)"
  "refines rec rec' \<Longrightarrow> le (parse_type_def rec p) (parse_type_def rec' p)"
  "refines rec rec' \<Longrightarrow> le (enum_variant rec x3b x3c p) (enum_variant rec' x3b x3c p)"
  unfolding parse_var_def_def parse_using_def parse_type_def_def enum_variant_def
  by (assumption | rule le_rules | erule le_elims | rule le_refl)+

lemma parse_enum_def_le [le_rules]:
  "refines rec rec' \<Longrightarrow> le (parse_enum_def rec p) (parse_enum_def rec' p)"
  "refines rec rec' \<Longrightarrow> rest k1 k1' \<Longrightarrow> le (struct_field rec x1b x1c p k1) (struct_field rec' x1b x1c p k1')"
  unfolding parse_enum_def_def struct_field_def
  by (assumption | rule le_rules | erule le_elims | rule le_refl)+

lemma union_field_le [le_rules]:
  "refines rec rec' \<Longrightarrow> le (union_field rec x0b x0c p) (union_field rec' x0b x0c p)"
  unfolding union_field_def
  by (assumption | rule le_rules | erule le_elims | rule le_refl)+

lemma parse_union_def_le [le_rules]:
  "refines rec rec' \<Longrightarrow> le (parse_union_def rec p) (parse_union_def rec' p)"
  "refines rec rec' \<Longrightarrow> le (parse_cunion_def rec p) (parse_cunion_def rec' p)"
  "refines rec rec' \<Longrightarrow> le (struct_member rec x2b x2c p) (struct_member rec' x2b x2c p)"
  "refines rec rec' \<Longrightarrow> rest k3 k3' \<Longrightarrow> le (implements_list rec x3b p k3) (implements_list rec' x3b p k3')"
  unfolding parse_union_def_def parse_cunion_def_def struct_member_def implements_list_def
  by (assumption | rule le_rules | erule le_elims | rule le_refl)+

lemma parse_struct_def_le [le_rules]:
  "refines rec rec' \<Longrightarrow> le (parse_struct_def rec p) (parse_struct_def rec' p)"
  "refines rec rec' \<Longrightarrow> le (parse_iface_func rec x1b p) (parse_iface_func rec' x1b p)"
  "refines rec rec' \<Longrightarrow> le (parse_iface_var rec x2b p) (parse_iface_var rec' x2b p)"
  unfolding parse_struct_def_def parse_iface_func_def parse_iface_var_def
  by (assumption | rule le_rules | erule le_elims | rule le_refl)+

lemma interface_member_le [le_rules]:
  "refines rec rec' \<Longrightarrow> le (interface_member rec x0b x0c p) (interface_member rec' x0b x0c p)"
  unfolding interface_member_def
  by (assumption | rule le_rules | erule le_elims | rule le_refl)+

lemma parse_interface_def_le [le_rules]:
  "refines rec rec' \<Longrightarrow> le (parse_interface_def rec p) (parse_interface_def rec' p)"
  "refines rec rec' \<Longrightarrow> rest k1 k1' \<Longrightarrow> le (condition rec x1b p k1) (condition rec' x1b p k1')"
  unfolding parse_interface_def_def condition_def
  by (assumption | rule le_rules | erule le_elims | rule le_refl)+

lemma parse_if_le [le_rules]:
  "refines rec rec' \<Longrightarrow> le (parse_if rec p) (parse_if rec' p)"
  "refines rec rec' \<Longrightarrow> le (parse_comptime_if rec p) (parse_comptime_if rec' p)"
  "refines rec rec' \<Longrightarrow> le (parse_while rec p) (parse_while rec' p)"
  "refines rec rec' \<Longrightarrow> le (parse_dowhile rec p) (parse_dowhile rec' p)"
  "refines rec rec' \<Longrightarrow> le (parse_assign_or_expr_stmt rec p) (parse_assign_or_expr_stmt rec' p)"
  unfolding parse_if_def parse_comptime_if_def parse_while_def parse_dowhile_def
    parse_assign_or_expr_stmt_def
  by (assumption | rule le_rules | erule le_elims | rule le_refl)+

lemma for_init_le [le_rules]:
  "refines rec rec' \<Longrightarrow> rest k0 k0' \<Longrightarrow> le (for_init rec x0b p k0) (for_init rec' x0b p k0')"
  "refines rec rec' \<Longrightarrow> rest k1 k1' \<Longrightarrow> le (for_clause rec x1b x1c p k1) (for_clause rec' x1b x1c p k1')"
  unfolding for_init_def for_clause_def
  by (assumption | rule le_rules | erule le_elims | rule le_refl)+

lemma parse_for_le [le_rules]:
  "refines rec rec' \<Longrightarrow> le (parse_for rec p) (parse_for rec' p)"
  "refines rec rec' \<Longrightarrow> rest k1 k1' \<Longrightarrow> le (foreach_type rec x1b x1c p k1) (foreach_type rec' x1b x1c p k1')"
  unfolding parse_for_def foreach_type_def
  by (assumption | rule le_rules | erule le_elims | rule le_refl)+

lemma parse_foreach_le [le_rules]:
  "refines rec rec' \<Longrightarrow> le (parse_foreach rec p) (parse_foreach rec' p)"
  "refines rec rec' \<Longrightarrow> rest k1 k1' \<Longrightarrow> le (switch_case rec p k1) (switch_case rec' p k1')"
  unfolding parse_foreach_def switch_case_def
  by (assumption | rule le_rules | erule le_elims | rule le_refl)+

lemma switch_item_le [le_rules]:
  "refines rec rec' \<Longrightarrow> le (switch_item rec x0b x0c p) (switch_item rec' x0b x0c p)"
  unfolding switch_item_def
  by (assumption | rule le_rules | erule le_elims | rule le_refl)+

lemma parse_switch_le [le_rules]:
  "refines rec rec' \<Longrightarrow> le (parse_switch rec p) (parse_switch rec' p)"
  "refines rec rec' \<Longrightarrow> le (parse_return rec p) (parse_return rec' p)"
  "refines rec rec' \<Longrightarrow> le (parse_defer rec p) (parse_defer rec' p)"
  "refines rec rec' \<Longrightarrow> le (parse_static_assert rec p) (parse_static_assert rec' p)"
  "refines rec rec' \<Longrightarrow> le (parse_comptime_stmt rec p) (parse_comptime_stmt rec' p)"
  unfolding parse_switch_def parse_return_def parse_defer_def parse_static_assert_def
    parse_comptime_stmt_def
  by (assumption | rule le_rules | erule le_elims | rule le_refl)+

lemma parse_stmt_le [le_rules]:
  "refines rec rec' \<Longrightarrow> le (parse_stmt rec p) (parse_stmt rec' p)"
  unfolding parse_stmt_def
  by (assumption | rule le_rules | erule le_elims | rule le_refl)+

lemma block_stmt_le [le_rules]:
  "refines rec rec' \<Longrightarrow> le (block_stmt rec x0b x0c p) (block_stmt rec' x0b x0c p)"
  unfolding block_stmt_def
  by (assumption | rule le_rules | erule le_elims | rule le_refl)+

lemma parse_block_le [le_rules]:
  "refines rec rec' \<Longrightarrow> le (parse_block rec p) (parse_block rec' p)"
  "refines rec rec' \<Longrightarrow> le (parse_test_block rec p) (parse_test_block rec' p)"
  "refines rec rec' \<Longrightarrow> le (comptime_decl rec x2b p) (comptime_decl rec' x2b p)"
  "refines rec rec' \<Longrightarrow> le (extern_decl rec x3b x3c p) (extern_decl rec' x3b x3c p)"
  unfolding parse_block_def parse_test_block_def comptime_decl_def extern_decl_def
  by (assumption | rule le_rules | erule le_elims | rule le_refl)+

lemma export_decl_le [le_rules]:
  "refines rec rec' \<Longrightarrow> le (export_decl rec p) (export_decl rec' p)"
  unfolding export_decl_def
  by (assumption | rule le_rules | erule le_elims | rule le_refl)+

lemma top_decl_le [le_rules]:
  "refines rec rec' \<Longrightarrow> le (top_decl rec p) (top_decl rec' p)"
  unfolding top_decl_def
  by (assumption | rule le_rules | erule le_elims | rule le_refl)+

lemma program_item_le [le_rules]:
  "refines rec rec' \<Longrightarrow> le (program_item rec x0b x0c p) (program_item rec' x0b x0c p)"
  unfolding program_item_def
  by (assumption | rule le_rules | erule le_elims | rule le_refl)+

lemma parse_program_le [le_rules]:
  "refines rec rec' \<Longrightarrow> le (parse_program rec p) (parse_program rec' p)"
  unfolding parse_program_def
  by (assumption | rule le_rules | erule le_elims | rule le_refl)+


lemma entry_le: "refines rec rec' \<Longrightarrow> le (entry rec over nt p) (entry rec' over nt p)"
  by (cases nt) (auto simp: entry_def intro: le_rules)

lemma parse_at_le: "n \<le> m \<Longrightarrow> le (parse_at over n nt p) (parse_at over m nt p)"
proof (induction n arbitrary: m nt p)
  case 0
  then show ?case by (simp add: le_def)
next
  case (Suc n)
  then obtain k where "m = Suc k" "n \<le> k" by (cases m) auto
  then show ?case using Suc.IH by (auto simp: refines_def intro: entry_le)
qed

lemma depth_irrelevant:
  assumes "later p p" and "call_depth (length (pr_tokens p)) \<le> n"
  shows "parse_at over n nt p = parse_at over (call_depth (length (pr_tokens p))) nt p"
    and "parse_program (parse_at over n) p = parse_program (parse_at over (call_depth (length (pr_tokens p)))) p"
proof -
  let ?rec = "parse_at over (call_depth (length (pr_tokens p)))"
  have a: "avail ?rec p" using assms(1) by (rule parse_at_avail)
  have "returns p (?rec nt p)" using a assms(1) by (simp add: avail_def here_def)
  then have "?rec nt p \<noteq> Stuck" by (auto simp: returns_def flows_def)
  then show "parse_at over n nt p = ?rec nt p"
    using parse_at_le [OF assms(2), of over nt p] by (auto simp: le_def)
  have "refines ?rec (parse_at over n)" using parse_at_le [OF assms(2)] by (simp add: refines_def)
  then have "le (parse_program ?rec p) (parse_program (parse_at over n) p)" by (rule le_rules)
  moreover have "parse_program ?rec p \<noteq> Stuck" using program_returns [OF a] by auto
  ultimately show "parse_program (parse_at over n) p = parse_program ?rec p" by (auto simp: le_def)
qed

text \<open>
  C35 (termination). On every pool that ends with the end token the parser returns, and a greater depth
  of calls than \<open>call_depth\<close> gives does not change its result. The same holds for every entry point: the
  cursor only moves forward and stays in the pool, the marks for captures, member names and recovery
  are as before, an error that was recorded stays recorded, and a node that is no error has taken at
  least one token.
\<close>

theorem parser_total:
  assumes "pr_tokens p \<noteq> []" and "tk_kind (last (pr_tokens p)) = TOKEN_TYPE_EOF" and "pr_pos p \<le> length (pr_tokens p)"
  shows "(\<exists>v q. parser_parse over p = Return v q \<and> pr_tokens q = pr_tokens p \<and> pr_pos p \<le> pr_pos q \<and> pr_pos q \<le> length (pr_tokens p)) \<and>
    (\<forall>n \<ge> call_depth (length (pr_tokens p)). \<not> has_lexical_errors p \<longrightarrow> parse_program (parse_at over n) p = parser_parse over p) \<and>
    (\<exists>v q. (\<forall>n \<ge> call_depth (length (pr_tokens p)). parse_at over n nt p = Return v q) \<and> pr_tokens q = pr_tokens p \<and>
       pr_pos p \<le> pr_pos q \<and> pr_pos q \<le> length (pr_tokens p) \<and>
       pr_pipe q = pr_pipe p \<and> pr_magic q = pr_magic p \<and> pr_recover q = pr_recover p \<and> (pr_error p \<longrightarrow> pr_error q) \<and>
       (\<forall>n. v = Some n \<and> \<not> is_error n \<longrightarrow> pr_pos p < pr_pos q))"
proof -
  let ?d = "call_depth (length (pr_tokens p))"
  have p: "later p p" using assms by (rule pool_start)
  have a: "avail (parse_at over ?d) p" using p by (rule parse_at_avail)
  have "returns p (parse_at over ?d nt p)" using a p by (simp add: avail_def here_def)
  from this p obtain v q where r: "parse_at over ?d nt p = Return v q" "later p q"
      "\<forall>n. v = Some n \<and> \<not> is_error n \<longrightarrow> past p q" by (rule returnsE) blast
  have entry: "parse_at over n nt p = Return v q" if "?d \<le> n" for n
    using depth_irrelevant(1) [OF p that] r(1) by (rule trans)
  have program: "parse_program (parse_at over n) p = parser_parse over p" if "?d \<le> n" "\<not> has_lexical_errors p" for n
    unfolding parser_parse_def if_not_P [OF that(2)] using that(1) by (rule depth_irrelevant(2) [OF p])
  have "\<exists>v q. parser_parse over p = Return v q \<and> later p q"
    using program_returns [OF a] later_refl [OF p] unfolding parser_parse_def by (auto simp: later_def)
  then show ?thesis
    using entry program r(2,3) unfolding later_def past_def by blast
qed

theorem parser_total_witness:
  "\<exists>v q. parser_parse (\<lambda>_ _. False) (parser_create [tok TOKEN_TYPE_KEYWORD ''var'', tok TOKEN_TYPE_IDENTIFIER ''x'',
      tok TOKEN_TYPE_SYMBOL ''='', tok TOKEN_TYPE_NUMERIC ''1'', tok TOKEN_TYPE_EOF []]) = Return v q \<and> pr_pos q \<le> 5"
  using parser_total [of "parser_create [tok TOKEN_TYPE_KEYWORD ''var'', tok TOKEN_TYPE_IDENTIFIER ''x'',
      tok TOKEN_TYPE_SYMBOL ''='', tok TOKEN_TYPE_NUMERIC ''1'', tok TOKEN_TYPE_EOF []]" "\<lambda>_ _. False" Block]
  by (auto simp: parser_create_def tok_simps)

end
