(* ===== verification/Sha256.thy ===== *)
theory Sha256
  imports Prelude
begin

text \<open>
  SHA-256 (\<open>src/core/sha256.c\<close>), which the lock files of packages use: the compression function on
  32-bit words, the buffer that collects the bytes of a message, padding, and the hexadecimal text.
  The table of constants is written in decimal.
\<close>

unbundle bit_operations_syntax

type_synonym byte = "8 word"

record sha256_ctx =
  c_h :: "32 word list"
  c_buf :: "byte list"
  c_buflen :: nat
  c_total :: "64 word"

definition rotr :: "32 word \<Rightarrow> nat \<Rightarrow> 32 word" where
  "rotr x n = drop_bit n x OR push_bit (32 - n) x"

definition K :: "32 word list" where
  "K = [
    1116352408, 1899447441, 3049323471, 3921009573, 961987163, 1508970993,
    2453635748, 2870763221, 3624381080, 310598401, 607225278, 1426881987,
    1925078388, 2162078206, 2614888103, 3248222580, 3835390401, 4022224774,
    264347078, 604807628, 770255983, 1249150122, 1555081692, 1996064986,
    2554220882, 2821834349, 2952996808, 3210313671, 3336571891, 3584528711,
    113926993, 338241895, 666307205, 773529912, 1294757372, 1396182291,
    1695183700, 1986661051, 2177026350, 2456956037, 2730485921, 2820302411,
    3259730800, 3345764771, 3516065817, 3600352804, 4094571909, 275423344,
    430227734, 506948616, 659060556, 883997877, 958139571, 1322822218,
    1537002063, 1747873779, 1955562222, 2024104815, 2227730452, 2361852424,
    2428436474, 2756734187, 3204031479, 3329325298]"

section \<open>The compression function\<close>

definition load_word :: "byte list \<Rightarrow> nat \<Rightarrow> 32 word" where
  "load_word block i =
     push_bit 24 (ucast (block ! (i * 4))) OR push_bit 16 (ucast (block ! (i * 4 + 1)))
     OR push_bit 8 (ucast (block ! (i * 4 + 2))) OR ucast (block ! (i * 4 + 3))"

definition expand :: "nat \<Rightarrow> 32 word list \<Rightarrow> 32 word list" where
  "expand i w =
     (let s0 = rotr (w ! (i - 15)) 7 XOR rotr (w ! (i - 15)) 18 XOR drop_bit 3 (w ! (i - 15));
          s1 = rotr (w ! (i - 2)) 17 XOR rotr (w ! (i - 2)) 19 XOR drop_bit 10 (w ! (i - 2))
      in w @ [w ! (i - 16) + s0 + w ! (i - 7) + s1])"

definition message_words :: "byte list \<Rightarrow> 32 word list" where
  "message_words block = fold expand [16..<64] (map (load_word block) [0..<16])"

type_synonym regs = "32 word \<times> 32 word \<times> 32 word \<times> 32 word \<times> 32 word \<times> 32 word \<times> 32 word \<times> 32 word"

definition mix :: "32 word list \<Rightarrow> nat \<Rightarrow> regs \<Rightarrow> regs" where
  "mix w i r = (case r of (a, b, cc, d, e, f, g, h) \<Rightarrow>
     let s1 = rotr e 6 XOR rotr e 11 XOR rotr e 25;
         ch = (e AND f) XOR (NOT e AND g);
         t1 = h + s1 + ch + K ! i + w ! i;
         s0 = rotr a 2 XOR rotr a 13 XOR rotr a 22;
         maj = (a AND b) XOR (a AND cc) XOR (b AND cc);
         t2 = s0 + maj
     in (t1 + t2, a, b, cc, d + t1, e, f, g))"

definition regs_of :: "32 word list \<Rightarrow> regs" where
  "regs_of hs = (hs ! 0, hs ! 1, hs ! 2, hs ! 3, hs ! 4, hs ! 5, hs ! 6, hs ! 7)"

definition add_regs :: "32 word list \<Rightarrow> regs \<Rightarrow> 32 word list" where
  "add_regs hs r = (case r of (a, b, cc, d, e, f, g, h) \<Rightarrow> map2 (+) hs [a, b, cc, d, e, f, g, h])"

definition sha256_transform :: "sha256_ctx \<Rightarrow> byte list \<Rightarrow> sha256_ctx" where
  "sha256_transform c block =
     c\<lparr>c_h := add_regs (c_h c) (fold (mix (message_words block)) [0..<64] (regs_of (c_h c)))\<rparr>"

section \<open>The buffer\<close>

definition sha256_init :: "byte list \<Rightarrow> sha256_ctx" where
  "sha256_init buf = \<lparr>c_h = [
    1779033703, 3144134277, 1013904242, 2773480762,
    1359893119, 2600822924, 528734635, 1541459225],
     c_buf = buf, c_buflen = 0, c_total = 0\<rparr>"

text \<open>
  The loop ends when all bytes are taken. It would not end on a full buffer, hence the option; the
  contents of the buffer before the first byte are whatever the stack held.
\<close>

partial_function (option) update_loop :: "sha256_ctx \<Rightarrow> byte list \<Rightarrow> sha256_ctx option" where
  "update_loop c data =
     (if data = [] then Some c
      else let n = min (64 - c_buflen c) (length data);
               c = c\<lparr>c_buf := blit (c_buf c) (c_buflen c) (take n data), c_buflen := c_buflen c + n\<rparr>;
               c = (if c_buflen c = 64 then (sha256_transform c (c_buf c))\<lparr>c_buflen := 0\<rparr> else c)
           in update_loop c (drop n data))"

declare update_loop.simps [code]

definition sha256_update :: "sha256_ctx \<Rightarrow> byte list \<Rightarrow> sha256_ctx option" where
  "sha256_update c data = update_loop (c\<lparr>c_total := c_total c + of_nat (length data)\<rparr>) data"

definition length_bytes :: "64 word \<Rightarrow> byte list" where
  "length_bytes bits = map (\<lambda>i. ucast (drop_bit (56 - i * 8) bits)) [0..<8]"

definition store_word :: "32 word \<Rightarrow> byte list" where
  "store_word x = [ucast (drop_bit 24 x), ucast (drop_bit 16 x), ucast (drop_bit 8 x), ucast x]"

definition sha256_final :: "sha256_ctx \<Rightarrow> byte list option" where
  "sha256_final c =
     (let bits = c_total c * 8;
          pad = 0x80 # replicate 127 0;
          padlen = (if c_buflen c < 56 then 56 - c_buflen c else 120 - c_buflen c)
      in do {
        c \<leftarrow> sha256_update c (take padlen pad);
        c \<leftarrow> sha256_update c (length_bytes bits);
        Some (concat (map store_word (c_h c))) })"

section \<open>The entry points\<close>

definition clux_sha256 :: "byte list \<Rightarrow> byte list \<Rightarrow> byte list option" where
  "clux_sha256 buf data = do { c \<leftarrow> sha256_update (sha256_init buf) data; sha256_final c }"

text \<open>
  A file answers to \<open>fopen\<close> or not, and then gives the blocks that \<open>fread\<close> returns until the first
  empty one, and whether there was an error. The outer option is a run that does not end, the inner
  one is \<open>false\<close>.
\<close>

primrec update_all :: "sha256_ctx \<Rightarrow> byte list list \<Rightarrow> sha256_ctx option" where
  "update_all c [] = Some c"
| "update_all c (b # bs) = do { c \<leftarrow> sha256_update c b; update_all c bs }"

definition clux_sha256_file :: "byte list \<Rightarrow> (byte list list \<times> bool) option \<Rightarrow> byte list option option" where
  "clux_sha256_file buf file = (case file of
      None \<Rightarrow> Some None
    | Some (bs, failed) \<Rightarrow> do {
        c \<leftarrow> update_all (sha256_init buf) bs;
        if failed then Some None else do { out \<leftarrow> sha256_final c; Some (Some out) } })"

definition to_hex :: "byte list \<Rightarrow> string" where
  "to_hex bs = concat (map (\<lambda>b. [''0123456789abcdef'' ! unat (drop_bit 4 b), ''0123456789abcdef'' ! unat (b AND 0xF)]) bs)"

definition clux_sha256_hex :: "byte list \<Rightarrow> byte list \<Rightarrow> string option" where
  "clux_sha256_hex buf data = do { digest \<leftarrow> clux_sha256 buf data; Some (to_hex digest) }"

definition clux_sha256_file_hex :: "byte list \<Rightarrow> (byte list list \<times> bool) option \<Rightarrow> string option option" where
  "clux_sha256_file_hex buf file = do {
     r \<leftarrow> clux_sha256_file buf file;
     case r of None \<Rightarrow> Some None | Some digest \<Rightarrow> Some (Some (to_hex digest)) }"

end
