(* ===== verification/Sha256Props.thy ===== *)
theory Sha256Props
  imports Sha256
begin

text \<open>
  The digest is that of the standard: a reference on whole messages, with padding to full blocks, the
  message schedule as a recursion over its index and rotations of the word library, and the equality
  of the buffered computation with it, however the message is cut into pieces.
\<close>

section \<open>The reference\<close>

definition sigma0 :: "32 word \<Rightarrow> 32 word" where
  "sigma0 x = word_rotr 7 x XOR word_rotr 18 x XOR drop_bit 3 x"

definition sigma1 :: "32 word \<Rightarrow> 32 word" where
  "sigma1 x = word_rotr 17 x XOR word_rotr 19 x XOR drop_bit 10 x"

text \<open>Numbers in bytes, the highest byte first.\<close>

definition number :: "byte list \<Rightarrow> nat" where
  "number = foldl (\<lambda>x b. x * 256 + unat b) 0"

definition big_endian :: "nat \<Rightarrow> nat \<Rightarrow> byte list" where
  "big_endian n x = map (\<lambda>i. of_nat (x div 2 ^ (8 * (n - Suc i)))) [0..<n]"

fun word_at :: "byte list \<Rightarrow> nat \<Rightarrow> 32 word" where
  "word_at block t =
     (if t < 16 then of_nat (number (slice block (4 * t) 4))
      else sigma1 (word_at block (t - 2)) + word_at block (t - 7) + sigma0 (word_at block (t - 15)) + word_at block (t - 16))"

declare word_at.simps [simp del]

definition round :: "byte list \<Rightarrow> nat \<Rightarrow> regs \<Rightarrow> regs" where
  "round block t r = (case r of (a, b, c, d, e, f, g, h) \<Rightarrow>
     let t1 = h + (word_rotr 6 e XOR word_rotr 11 e XOR word_rotr 25 e) + ((e AND f) XOR (NOT e AND g)) + K ! t + word_at block t;
         t2 = (word_rotr 2 a XOR word_rotr 13 a XOR word_rotr 22 a) + ((a AND b) XOR (a AND c) XOR (b AND c))
     in (t1 + t2, a, b, c, d + t1, e, f, g))"

primrec rounds :: "byte list \<Rightarrow> nat \<Rightarrow> regs \<Rightarrow> regs" where
  "rounds block 0 r = r"
| "rounds block (Suc t) r = round block t (rounds block t r)"

definition compress :: "32 word list \<Rightarrow> byte list \<Rightarrow> 32 word list" where
  "compress hs block = add_regs hs (rounds block 64 (regs_of hs))"

text \<open>The padding: one bit, then as few zeros as give full blocks with the length in bits at the end.\<close>

definition padded :: "byte list \<Rightarrow> byte list" where
  "padded msg = msg @ [0x80] @ replicate ((119 - length msg mod 64) mod 64) 0 @ big_endian 8 (8 * length msg)"

function hash_blocks :: "32 word list \<Rightarrow> byte list \<Rightarrow> 32 word list" where
  "hash_blocks hs bs = (if length bs < 64 then hs else hash_blocks (compress hs (take 64 bs)) (drop 64 bs))"
  by pat_completeness auto

termination by (relation "measure (\<lambda>(hs, bs). length bs)") auto

declare hash_blocks.simps [simp del]

definition digest :: "byte list \<Rightarrow> byte list" where
  "digest msg = concat (map (\<lambda>x. big_endian 4 (unat x)) (hash_blocks (c_h (sha256_init [])) (padded msg)))"

lemma length_padded: "64 dvd length (padded msg)"
proof -
  define q r where "q = length msg div 64" and "r = length msg mod 64"
  then have len: "length msg = 64 * q + r" "r < 64" by simp_all
  have "length (padded msg) = length msg + 9 + (119 - length msg mod 64) mod 64"
    by (simp add: padded_def big_endian_def)
  also have "(119 - length msg mod 64) mod 64 = (if r \<le> 55 then 55 - r else 119 - r)"
  proof (cases "r \<le> 55")
    case True
    then have "119 - r = 55 - r + 64" by simp
    then have "(119 - r) mod 64 = 55 - r" by (simp only: mod_add_self2) simp
    then show ?thesis using True by (simp add: r_def)
  next
    case False
    then have "(119 - r) mod 64 = 119 - r" by (intro mod_less) simp
    then show ?thesis using False by (simp add: r_def)
  qed
  finally have "length (padded msg) = (if r \<le> 55 then 64 * (q + 1) else 64 * (q + 2))" using len by simp
  then show ?thesis by (metis dvd_triv_left)
qed

section \<open>The compression function\<close>

lemma rotr_word_rotr: assumes "n < 32" shows "rotr x n = word_rotr n x"
proof (rule bit_word_eqI)
  fix i assume "i < LENGTH(32)"
  then have i: "i < 32" by simp
  show "bit (rotr x n) i = bit (word_rotr n x) i"
  proof (cases "i + n < 32")
    case True
    then have "\<not> 32 - n \<le> i" using assms by arith
    then show ?thesis using True assms i by (simp add: rotr_def bit_simps add.commute)
  next
    case False
    then have "\<not> bit x (n + i)" by (auto dest: bit_imp_le_length)
    moreover have "(i + n) mod 32 = i - (32 - n)" using False assms i by (simp add: le_mod_geq)
    ultimately show ?thesis using False assms i by (auto simp: rotr_def bit_simps)
  qed
qed

lemma or_add:
  assumes "\<And>n. bit b n \<Longrightarrow> n < k"
  shows "push_bit k a OR b = push_bit k a + (b :: 32 word)"
proof -
  have "push_bit k a AND b = 0" using assms by (intro bit_word_eqI) (auto simp: bit_simps dest: leD)
  then show ?thesis by (simp add: disjunctive_add_eq_or)
qed

lemma or_bytes:
  fixes a b c d :: byte
  shows "push_bit 24 (ucast a) OR push_bit 16 (ucast b) OR push_bit 8 (ucast c) OR ucast d
    = (of_nat (((unat a * 256 + unat b) * 256 + unat c) * 256 + unat d) :: 32 word)"
proof -
  have small: "n < 8" if "bit x n" for x :: byte and n using bit_imp_le_length [OF that] by simp
  have "push_bit 24 (ucast a) OR (push_bit 16 (ucast b) OR (push_bit 8 (ucast c) OR (ucast d :: 32 word)))
    = push_bit 24 (ucast a) + (push_bit 16 (ucast b) OR (push_bit 8 (ucast c) OR ucast d))"
    by (rule or_add) (auto simp: bit_simps dest: small)
  moreover have "push_bit 16 (ucast b) OR (push_bit 8 (ucast c) OR (ucast d :: 32 word))
    = push_bit 16 (ucast b) + (push_bit 8 (ucast c) OR ucast d)"
    by (rule or_add) (auto simp: bit_simps dest: small)
  moreover have "push_bit 8 (ucast c) OR (ucast d :: 32 word) = push_bit 8 (ucast c) + ucast d"
    by (rule or_add) (auto simp: bit_simps dest: small)
  ultimately show ?thesis by (simp only:) (simp add: push_bit_eq_mult algebra_simps)
qed

lemma load_word_at: assumes "4 * t + 4 \<le> length block" shows "load_word block t = of_nat (number (slice block (4 * t) 4))"
proof -
  have "slice block (4 * t) 4 = [block ! (t * 4), block ! (t * 4 + 1), block ! (t * 4 + 2), block ! (t * 4 + 3)]"
    using assms by (auto simp: slice_def intro!: nth_equalityI simp: less_Suc_eq numeral_eq_Suc mult.commute)
  then show ?thesis by (simp add: load_word_def or_bytes number_def)
qed

lemma message_words_at: assumes "length block = 64" shows "message_words block = map (word_at block) [0..<64]"
proof -
  have "fold expand [16..<16 + k] (map (load_word block) [0..<16]) = map (word_at block) [0..<16 + k]" for k
  proof (induction k)
    case 0
    then show ?case using assms by (auto simp: word_at.simps [of block] load_word_at)
  next
    case (Suc k)
    have at: "map (word_at block) [0..<16 + k] ! i = word_at block i" if "i < 16 + k" for i using that by simp
    have "[0..<16 + Suc k] = [0..<16 + k] @ [16 + k]" by (simp only: add_Suc_right upt_Suc) simp
    then have "expand (16 + k) (map (word_at block) [0..<16 + k]) = map (word_at block) [0..<16 + Suc k]"
      by (simp add: expand_def Let_def at word_at.simps [of block "k + 16"] sigma0_def sigma1_def rotr_word_rotr ac_simps del: upt_Suc)
    moreover have "[16..<16 + Suc k] = [16..<16 + k] @ [16 + k]" by (simp only: add_Suc_right upt_Suc) simp
    ultimately show ?case using Suc by simp
  qed
  from this [of 48] show ?thesis by (simp add: message_words_def)
qed

lemma mix_round: "t < 64 \<Longrightarrow> mix (map (word_at block) [0..<64]) t r = round block t r"
  by (simp add: mix_def round_def rotr_word_rotr Let_def ac_simps split: prod.split)

lemma fold_rounds: "n \<le> 64 \<Longrightarrow> fold (mix (map (word_at block) [0..<64])) [0..<n] r = rounds block n r"
  by (induction n) (simp_all add: mix_round)

lemma transform_compress: "length block = 64 \<Longrightarrow> c_h (sha256_transform c block) = compress (c_h c) block"
  by (simp add: sha256_transform_def compress_def message_words_at fold_rounds)

lemma length_compress: "length hs = 8 \<Longrightarrow> length (compress hs block) = 8"
  by (simp add: compress_def add_regs_def split: prod.split)

lemma hash_blocks_append:
  "64 dvd length xs \<Longrightarrow> hash_blocks hs (xs @ ys) = hash_blocks (hash_blocks hs xs) ys"
proof (induction hs xs rule: hash_blocks.induct)
  case (1 hs xs)
  show ?case
  proof (cases "length xs < 64")
    case True
    then have "xs = []" using 1(2) by (auto dest: dvd_imp_le)
    then show ?thesis by (simp add: hash_blocks.simps [of hs "[]"])
  next
    case False
    then have "64 dvd length (drop 64 xs)" using 1(2) by (simp add: dvd_diff_nat)
    then show ?thesis using 1(1) False by (simp add: hash_blocks.simps [of hs "xs @ ys"] hash_blocks.simps [of hs xs])
  qed
qed

section \<open>The buffer\<close>

text \<open>The context has taken a message: its full blocks are in the hash, the rest is in the buffer.\<close>

definition taken :: "sha256_ctx \<Rightarrow> byte list \<Rightarrow> bool" where
  "taken c msg \<longleftrightarrow> c_buflen c < 64 \<and> length (c_buf c) = 64 \<and> c_total c = of_nat (length msg) \<and>
     (\<exists>full. 64 dvd length full \<and> msg = full @ take (c_buflen c) (c_buf c) \<and>
        c_h c = hash_blocks (c_h (sha256_init [])) full)"

lemma taken_init: "length b = 64 \<Longrightarrow> taken (sha256_init b) []"
  by (auto simp: taken_def sha256_init_def hash_blocks.simps [of _ "[]"])

lemma update_step:
  assumes "taken c msg" and "n = min (64 - c_buflen c) (length data)"
    and "c' = c\<lparr>c_buf := blit (c_buf c) (c_buflen c) (take n data), c_buflen := c_buflen c + n\<rparr>"
    and "c'' = (if c_buflen c' = 64 then (sha256_transform c' (c_buf c'))\<lparr>c_buflen := 0\<rparr> else c')"
  shows "taken (c''\<lparr>c_total := of_nat (length (msg @ take n data))\<rparr>) (msg @ take n data) \<and> c_total c'' = c_total c"
proof -
  obtain full where full: "64 dvd length full" "msg = full @ take (c_buflen c) (c_buf c)"
      "c_h c = hash_blocks (c_h (sha256_init [])) full"
    using assms(1) unfolding taken_def by blast
  have len: "c_buflen c < 64" "length (c_buf c) = 64" using assms(1) by (simp_all add: taken_def)
  have n: "length (take n data) = n" "c_buflen c + n \<le> 64" using assms(2) len by auto
  have buf: "length (c_buf c') = 64" "take (c_buflen c + n) (c_buf c') = take (c_buflen c) (c_buf c) @ take n data"
    using assms(3) len n take_blit_exact [of "c_buflen c" "c_buf c" "take n data"] by (simp_all add: length_blit)
  show ?thesis
  proof (cases "c_buflen c + n = 64")
    case True
    have "64 dvd length (full @ c_buf c')" using full(1) buf(1) by simp
    moreover have "hash_blocks (c_h c) (c_buf c') = compress (c_h c) (c_buf c')"
      using buf(1) by (simp add: hash_blocks.simps [of "c_h c"] hash_blocks.simps [of _ "[]"])
    then have "c_h c'' = hash_blocks (c_h (sha256_init [])) (full @ c_buf c')"
      using True assms(3,4) buf(1) full(3) by (simp add: transform_compress hash_blocks_append [OF full(1)])
    moreover have "msg @ take n data = full @ c_buf c'" using full(2) buf True by simp
    ultimately show ?thesis using True assms(3,4) buf(1) by (auto simp: taken_def sha256_transform_def)
  next
    case False
    then have c'': "c'' = c'" using assms(3,4) by simp
    then show ?thesis using False assms(3) full len n buf by (auto simp: taken_def intro!: exI [of _ full])
  qed
qed

lemma update_loop_total:
  assumes "data \<noteq> []" and "n = min (64 - c_buflen c) (length data)"
    and "c' = c\<lparr>c_buf := blit (c_buf c) (c_buflen c) (take n data), c_buflen := c_buflen c + n\<rparr>"
    and "c'' = (if c_buflen c' = 64 then (sha256_transform c' (c_buf c'))\<lparr>c_buflen := 0\<rparr> else c')"
  shows "update_loop (c\<lparr>c_total := t\<rparr>) data = update_loop (c''\<lparr>c_total := t\<rparr>) (drop n data)"
  using assms
  by (cases c) (subst update_loop.simps, simp add: sha256_transform_def Let_def)

lemma update_loop_taken:
  assumes "taken c msg" and "length data = k" and "c1 = c\<lparr>c_total := t\<rparr>"
  shows "\<exists>c'. update_loop c1 data = Some c' \<and> taken (c'\<lparr>c_total := of_nat (length (msg @ data))\<rparr>) (msg @ data) \<and> c_total c' = t"
  using assms
proof (induction k arbitrary: c msg data c1 rule: less_induct)
  case (less k)
  show ?case
  proof (cases "data = []")
    case True
    then show ?thesis using less.prems by (auto simp: update_loop.simps [of _ "[]"] taken_def)
  next
    case False
    define n where "n = min (64 - c_buflen c) (length data)"
    define c' where "c' = c\<lparr>c_buf := blit (c_buf c) (c_buflen c) (take n data), c_buflen := c_buflen c + n\<rparr>"
    define c'' where "c'' = (if c_buflen c' = 64 then (sha256_transform c' (c_buf c'))\<lparr>c_buflen := 0\<rparr> else c')"
    let ?c = "c''\<lparr>c_total := of_nat (length (msg @ take n data))\<rparr>"
    have step: "taken ?c (msg @ take n data)" using update_step [OF less.prems(1) n_def c'_def c''_def] by simp
    have n: "0 < n" "n \<le> length data" using False less.prems(1) by (auto simp: n_def taken_def)
    have "update_loop c1 data = update_loop (?c\<lparr>c_total := t\<rparr>) (drop n data)"
      using update_loop_total [OF False n_def c'_def c''_def] less.prems(3) by simp
    moreover have "length (drop n data) < k" using n less.prems(2) by simp
    ultimately show ?thesis
      using less.IH [OF _ step refl refl, of "drop n data"] by (simp only: append.assoc append_take_drop_id)
  qed
qed

lemma update_taken:
  assumes "taken c msg" shows "\<exists>c'. sha256_update c data = Some c' \<and> taken c' (msg @ data)"
proof -
  obtain c' where c': "sha256_update c data = Some c'" "taken (c'\<lparr>c_total := of_nat (length (msg @ data))\<rparr>) (msg @ data)"
      "c_total c' = c_total c + of_nat (length data)"
    using update_loop_taken [OF assms refl refl] unfolding sha256_update_def by blast
  have "c'\<lparr>c_total := of_nat (length (msg @ data))\<rparr> = c'"
    using assms c'(3) by (simp add: taken_def)
  then show ?thesis using c' by auto
qed

lemma update_all_taken:
  "taken c msg \<Longrightarrow> \<exists>c'. update_all c bs = Some c' \<and> taken c' (msg @ concat bs)"
proof (induction bs arbitrary: c msg)
  case (Cons b bs)
  obtain c' where "sha256_update c b = Some c'" "taken c' (msg @ b)" using update_taken [OF Cons.prems] by blast
  then show ?case using Cons.IH [of c' "msg @ b"] by simp
qed simp

section \<open>The end of a message\<close>

lemma byte_of_word: "(ucast (drop_bit k x) :: byte) = of_nat (unat x div 2 ^ k)"
proof -
  have "unat (drop_bit k x) = unat x div 2 ^ k" 
    by (simp only: unat_drop_bit_eq) (simp only: drop_bit_eq_div)
  then show ?thesis by (metis of_nat_unat)
qed

lemma store_big_endian: "store_word x = big_endian 4 (unat x)"
proof -
  have "[0..<4] = [0, 1, 2, 3 :: nat]" by (simp add: upt_rec)
  then show ?thesis
    using byte_of_word [of 24 x] byte_of_word [of 16 x] byte_of_word [of 8 x]
    by (simp add: store_word_def big_endian_def)
qed

lemma byte_of_mod: "k \<le> 56 \<Longrightarrow> (of_nat (x mod 2 ^ 64 div 2 ^ k) :: byte) = of_nat (x div 2 ^ k)"
proof -
  assume k: "k \<le> 56"
  have "take_bit 8 (drop_bit k (take_bit 64 x)) = take_bit 8 (drop_bit k x)"
    using k by (simp add: drop_bit_take_bit min.absorb1)
  then show ?thesis
    unfolding take_bit_eq_mod [of 64, symmetric] drop_bit_eq_div [symmetric] by (simp add: word_of_nat_eq_iff)
qed

lemma length_big_endian: "length_bytes (of_nat n * 8) = big_endian 8 (8 * n)"
proof -
  have "unat (of_nat n * 8 :: 64 word) = 8 * n mod 2 ^ 64"
    using unat_of_nat [where ?'a = 64, of "n * 8"] by (simp add: mult.commute)
  then have "(ucast (drop_bit (56 - i * 8) (of_nat n * 8 :: 64 word)) :: byte) = of_nat (8 * n div 2 ^ (8 * (8 - Suc i)))" if "i < 8" for i
    using byte_of_mod [of "56 - i * 8" "8 * n"] that by (simp only: byte_of_word) (simp add: algebra_simps)
  then show ?thesis by (simp add: length_bytes_def big_endian_def)
qed

lemma final_digest:
  assumes "taken c msg" shows "sha256_final c = Some (digest msg)"
proof -
  define padlen where "padlen = (if c_buflen c < 56 then 56 - c_buflen c else 120 - c_buflen c)"
  obtain full where full: "64 dvd length full" "msg = full @ take (c_buflen c) (c_buf c)" and len: "c_buflen c < 64" "length (c_buf c) = 64"
    using assms unfolding taken_def by blast
  have rest: "length msg mod 64 = c_buflen c" using full len by (auto simp: mod_add_left_eq dvd_eq_mod_eq_0 min_def)
  have pad: "take padlen (0x80 # replicate 127 0) = 0x80 # replicate ((119 - length msg mod 64) mod 64) (0 :: byte)"
  proof (cases "c_buflen c < 56")
    case True
    then have "119 - c_buflen c = 55 - c_buflen c + 64" by arith
    then have "(119 - c_buflen c) mod 64 = 55 - c_buflen c" by (simp only: mod_add_self2) simp
    then show ?thesis using True rest by (simp add: padlen_def take_Cons')
  next
    case False
    then have "(119 - c_buflen c) mod 64 = 119 - c_buflen c" by (intro mod_less) simp
    then show ?thesis using False rest len by (simp add: padlen_def take_Cons')
  qed
  obtain c1 where c1: "sha256_update c (take padlen (0x80 # replicate 127 0)) = Some c1" "taken c1 (msg @ take padlen (0x80 # replicate 127 0))"
    using update_taken [OF assms] by blast
  obtain c2 where c2: "sha256_update c1 (length_bytes (c_total c * 8)) = Some c2"
      "taken c2 ((msg @ take padlen (0x80 # replicate 127 0)) @ length_bytes (c_total c * 8))"
    using update_taken [OF c1(2)] by blast
  have "c_total c = of_nat (length msg)" using assms by (simp add: taken_def)
  then have "taken c2 (padded msg)" using c2(2) by (simp add: padded_def pad length_big_endian)
  then obtain full' where full': "64 dvd length full'" "padded msg = full' @ take (c_buflen c2) (c_buf c2)"
      "c_h c2 = hash_blocks (c_h (sha256_init [])) full'" "c_buflen c2 < 64" "length (c_buf c2) = 64"
    unfolding taken_def by blast
  have "64 dvd c_buflen c2" using length_padded [of msg] full' by (simp add: dvd_add_right_iff)
  then have "c_buflen c2 = 0" using full'(4) by (auto dest: dvd_imp_le)
  then have "c_h c2 = hash_blocks (c_h (sha256_init [])) (padded msg)" using full' by simp
  then show ?thesis
    using c1(1) c2(1) unfolding sha256_final_def padlen_def [symmetric] Let_def
    by (simp add: digest_def store_big_endian [abs_def])
qed

section \<open>The constants\<close>

text \<open>
  The constants of the rounds are the first 32 bits after the point of the cube roots of the first 64
  primes, the initial hash those of the square roots of the first eight.
\<close>

definition small_primes :: "int list" where
  "small_primes = filter (\<lambda>n. list_all (\<lambda>d. n mod d = 0 \<longrightarrow> n \<le> d) [2..17]) [2..311]"

definition root_bits :: "nat \<Rightarrow> int \<Rightarrow> 32 word \<Rightarrow> bool" where
  "root_bits e p k \<longleftrightarrow> list_ex (\<lambda>m. (m * 2 ^ 32 + uint k) ^ e \<le> p * 2 ^ (32 * e) \<and>
     p * 2 ^ (32 * e) < (m * 2 ^ 32 + uint k + 1) ^ e) [0..17]"

lemma small_primes_list: "small_primes = [2, 3, 5, 7, 11, 13, 17, 19, 23, 29, 31, 37, 41, 43, 47, 53, 59, 61, 67, 71,
    73, 79, 83, 89, 97, 101, 103, 107, 109, 113, 127, 131, 137, 139, 149, 151, 157, 163, 167, 173, 179, 181, 191, 193,
    197, 199, 211, 223, 227, 229, 233, 239, 241, 251, 257, 263, 269, 271, 277, 281, 283, 293, 307, 311]"
  by code_simp

lemma constants: "list_all2 (root_bits 3) small_primes K" "list_all2 (root_bits 2) (take 8 small_primes) (c_h (sha256_init []))"
  unfolding small_primes_list by code_simp+

section \<open>The digest of a message and of a file\<close>

lemma hex_digit_inj: "x < 16 \<Longrightarrow> y < 16 \<Longrightarrow> ''0123456789abcdef'' ! x = ''0123456789abcdef'' ! y \<Longrightarrow> x = y"
  by (subst (asm) nth_eq_iff_index_eq) simp_all

lemma hex_byte_inj:
  assumes "''0123456789abcdef'' ! unat (drop_bit 4 b) = ''0123456789abcdef'' ! unat (drop_bit 4 c)"
    and "''0123456789abcdef'' ! unat (b AND 0xF) = ''0123456789abcdef'' ! unat (c AND 0xF)"
  shows "b = (c :: byte)"
proof -
  have high: "unat (drop_bit 4 x) = unat x div 2 ^ 4" for x :: byte
    by (simp only: unat_drop_bit_eq) (simp only: drop_bit_eq_div)
  have "x AND 0xF = take_bit 4 x" for x :: byte by (simp add: take_bit_eq_mask mask_eq_exp_minus_1)
  then have low: "unat (x AND 0xF) = unat x mod 2 ^ 4" for x :: byte
    by (simp only: unsigned_take_bit_eq) (simp only: take_bit_eq_mod)
  have "unat x < 256" for x :: byte using unsigned_less [of x] by simp
  then have lt: "unat x div 2 ^ 4 < 16" "unat x mod 2 ^ 4 < 16" for x :: byte by (simp_all add: less_mult_imp_div_less)
  have "unat b div 2 ^ 4 = unat c div 2 ^ 4" "unat b mod 2 ^ 4 = unat c mod 2 ^ 4"
    using hex_digit_inj [OF lt(1) lt(1)] hex_digit_inj [OF lt(2) lt(2)] assms unfolding high low by blast+
  then have "unat b = unat c" by (metis div_mult_mod_eq)
  then show ?thesis by (rule unsigned_word_eqI)
qed

lemma to_hex_inj: "to_hex bs = to_hex cs \<Longrightarrow> bs = cs"
proof (induction bs arbitrary: cs)
  case Nil
  then show ?case by (cases cs) (simp_all add: to_hex_def)
next
  case (Cons b bs)
  from Cons.prems obtain c cs' where cs: "cs = c # cs'" by (cases cs) (simp_all add: to_hex_def)
  have "b = c" using Cons.prems unfolding cs to_hex_def by (intro hex_byte_inj) simp_all
  moreover have "to_hex bs = to_hex cs'" using Cons.prems unfolding cs to_hex_def by simp
  ultimately show ?case using Cons.IH cs by simp
qed



end
