(* ===== verification/ModulePath.thy ===== *)
theory ModulePath
  imports Prelude
begin

text \<open>
  Paths of imported modules (\<open>src/module/module_path.c\<close>): the kinds of import, lexical normalization,
  resolution against the importing file, and the search for a package in \<open>deps\<close>. The file system is
  a parameter, by the test whether a file can be opened, and so is the loader of package manifests.
  Memory for the copies is taken to be there.
\<close>

datatype import_kind = MODULE_IMPORT_MODULE | MODULE_IMPORT_NON_PATH

definition starts_with :: "string \<Rightarrow> string \<Rightarrow> bool" where
  "starts_with s prefix \<longleftrightarrow> length prefix \<le> length s \<and> take (length prefix) s = prefix"

definition module_import_classify :: "string \<Rightarrow> import_kind" where
  "module_import_classify raw =
     (if starts_with raw ''./'' \<or> starts_with raw [CHR ''.'', CHR 0x5C]
         \<or> starts_with raw ''../'' \<or> starts_with raw [CHR ''.'', CHR ''.'', CHR 0x5C]
      then MODULE_IMPORT_MODULE else MODULE_IMPORT_NON_PATH)"

section \<open>Normalization\<close>

text \<open>The index of the last slash before index \<open>i\<close>.\<close>

primrec last_slash :: "string \<Rightarrow> nat \<Rightarrow> nat option" where
  "last_slash out 0 = None"
| "last_slash out (Suc i) = (if out ! i = CHR ''/'' then Some i else last_slash out i)"

definition is_letter :: "char \<Rightarrow> bool" where
  "is_letter c \<longleftrightarrow> (let n = (of_char c :: nat) in 65 \<le> n \<and> n \<le> 90 \<or> 97 \<le> n \<and> n \<le> 122)"

definition append_segment :: "string \<Rightarrow> string \<Rightarrow> string" where
  "append_segment out seg = (if length out > 0 \<and> out ! (length out - 1) \<noteq> CHR ''/'' then out @ ''/'' else out) @ seg"

definition normalize_segment :: "bool \<Rightarrow> string \<Rightarrow> string \<Rightarrow> string" where
  "normalize_segment absolute out seg =
     (if seg = ''.'' then out
      else if seg = ''..'' then
        let kept = (if absolute then out else append_segment out seg) in
        (case last_slash out (length out) of
           Some slash \<Rightarrow>
             if slash + 1 < length out then
               let prev_is_dotdot = (length out - (slash + 1) = 2 \<and> out ! (slash + 1) = CHR ''.'' \<and> out ! (slash + 2) = CHR ''.'') in
               if \<not> prev_is_dotdot then take slash out else kept
             else kept
         | None \<Rightarrow> kept)
      else append_segment out seg)"

lemma dropWhile_shorter: "p \<noteq> [] \<Longrightarrow> P (hd p) \<Longrightarrow> length (dropWhile P p) < length p"
  by (cases p) (auto simp: le_imp_less_Suc length_dropWhile_le)

lemma segment_shorter:
  assumes "dropWhile (\<lambda>c. c = CHR ''/'') p \<noteq> []"
  shows "length (dropWhile (\<lambda>c. c \<noteq> CHR ''/'') (dropWhile (\<lambda>c. c = CHR ''/'') p)) < length p"
proof -
  have "hd (dropWhile (\<lambda>c. c = CHR ''/'') p) \<noteq> CHR ''/''" using hd_dropWhile [OF assms] by simp
  then have "length (dropWhile (\<lambda>c. c \<noteq> CHR ''/'') (dropWhile (\<lambda>c. c = CHR ''/'') p)) < length (dropWhile (\<lambda>c. c = CHR ''/'') p)"
    using assms by (intro dropWhile_shorter) simp_all
  then show ?thesis using length_dropWhile_le [of "\<lambda>c. c = CHR ''/''" p] by (rule less_le_trans)
qed

function normalize_loop :: "bool \<Rightarrow> string \<Rightarrow> string \<Rightarrow> string" where
  "normalize_loop absolute p out =
     (let p = dropWhile (\<lambda>c. c = CHR ''/'') p in
      if p = [] then out
      else normalize_loop absolute (dropWhile (\<lambda>c. c \<noteq> CHR ''/'') p)
             (normalize_segment absolute out (takeWhile (\<lambda>c. c \<noteq> CHR ''/'') p)))"
  by pat_completeness auto

termination by (relation "measure (\<lambda>(absolute, p, out). length p)") (simp_all add: segment_shorter)

declare normalize_loop.simps [simp del]

definition has_drive :: "string \<Rightarrow> bool" where
  "has_drive path \<longleftrightarrow> length path \<ge> 2 \<and> path ! 1 = CHR '':'' \<and> is_letter (path ! 0)"

definition normalize_copy :: "string \<Rightarrow> string" where
  "normalize_copy path =
     (if has_drive path then normalize_loop True (drop 2 path) (take 2 path)
      else if path \<noteq> [] \<and> path ! 0 = CHR ''/'' then normalize_loop True (dropWhile (\<lambda>c. c = CHR ''/'') path) ''/''
      else normalize_loop False path [])"

definition to_slash :: "char \<Rightarrow> char" where
  "to_slash c = (if c = CHR 0x5C then CHR ''/'' else c)"

definition module_path_normalize :: "string \<Rightarrow> string" where
  "module_path_normalize path = normalize_copy (map to_slash path)"

section \<open>Resolution\<close>

definition is_separator :: "char \<Rightarrow> bool" where
  "is_separator c \<longleftrightarrow> c = CHR ''/'' \<or> c = CHR 0x5C"

primrec dir_prefix :: "string \<Rightarrow> nat \<Rightarrow> nat" where
  "dir_prefix path 0 = 0"
| "dir_prefix path (Suc i) = (if is_separator (path ! i) then i + 1 else dir_prefix path i)"

definition dir_prefix_len :: "string \<Rightarrow> nat" where
  "dir_prefix_len path = dir_prefix path (length path)"

primrec has_ext :: "string \<Rightarrow> nat \<Rightarrow> bool" where
  "has_ext path 0 = False"
| "has_ext path (Suc i) =
     (if is_separator (path ! i) then False else if path ! i = CHR ''.'' then True else has_ext path i)"

definition last_segment_has_ext :: "string \<Rightarrow> bool" where
  "last_segment_has_ext path = has_ext path (length path)"

definition module_path_resolve :: "string \<Rightarrow> string option \<Rightarrow> string option" where
  "module_path_resolve raw importer_path =
     (if module_import_classify raw \<noteq> MODULE_IMPORT_MODULE then None
      else let rel = map to_slash raw;
               ext = (if last_segment_has_ext rel then [] else ''.cx'');
               dir = (case importer_path of None \<Rightarrow> [] | Some f \<Rightarrow> take (dir_prefix_len f) f)
           in Some (normalize_copy (dir @ rel @ ext)))"

section \<open>Packages\<close>

definition strip_separators :: "string \<Rightarrow> string" where
  "strip_separators s = rev (dropWhile is_separator (rev s))"

text \<open>The directory above: up to the last separator; \<open>None\<close> when there is none.\<close>

definition parent_dir :: "string \<Rightarrow> string option" where
  "parent_dir cur =
     (if list_ex is_separator cur then
        let last_sep = dir_prefix_len cur - 1;
            up = (if last_sep = 1 \<and> cur ! 1 = CHR '':'' then take 2 cur
                  else if last_sep = 0 \<and> cur ! 0 = CHR ''/'' then take 1 cur
                  else take last_sep cur)
        in Some (if up = [] then ''.'' else up)
      else None)"

primrec find_root :: "(string \<Rightarrow> bool) \<Rightarrow> nat \<Rightarrow> string \<Rightarrow> string option" where
  "find_root readable 0 cur = None"
| "find_root readable (Suc hop) cur =
     (let cur = strip_separators cur in
      if cur = [] then None
      else if length cur + 10 \<ge> 4096 then None
      else if readable (cur @ ''/clux.mod'') then Some cur
      else case parent_dir cur of None \<Rightarrow> None | Some up \<Rightarrow> find_root readable hop up)"

definition find_pkg_root :: "(string \<Rightarrow> bool) \<Rightarrow> string \<Rightarrow> string option" where
  "find_pkg_root readable importer = find_root readable 64 (take 4095 importer)"

datatype pkg_entry = PKG_ENTRY_SINGLE string | PKG_ENTRY_MULTI "(string \<times> string) list"

definition entry_path :: "pkg_entry \<Rightarrow> string \<Rightarrow> string" where
  "entry_path e raw = (case e of
      PKG_ENTRY_SINGLE p \<Rightarrow> p
    | PKG_ENTRY_MULTI es \<Rightarrow> (case find (\<lambda>(n, p). n = raw) es of Some (n, p) \<Rightarrow> p | None \<Rightarrow> []))"

definition module_resolve_import :: "(string \<Rightarrow> bool) \<Rightarrow> (string \<Rightarrow> pkg_entry option) \<Rightarrow> string \<Rightarrow> string option \<Rightarrow> string option" where
  "module_resolve_import readable package_load raw importer_path =
     (if module_import_classify raw = MODULE_IMPORT_MODULE then module_path_resolve raw importer_path
      else case importer_path of None \<Rightarrow> None | Some importer \<Rightarrow> do {
        root \<leftarrow> find_pkg_root readable importer;
        let dep_name = takeWhile (\<lambda>c. \<not> is_separator c) raw;
        if length root + 6 + length dep_name + 1 \<ge> 4096 then None
        else do {
          let dep_dir = root @ ''/deps/'' @ dep_name;
          desc \<leftarrow> package_load dep_dir;
          let ep = entry_path desc raw;
          if ep = [] then None else Some (module_path_normalize (dep_dir @ ''/'' @ ep)) } })"

end
