(* ===== verification/ModulePathProps.thy ===== *)
theory ModulePathProps
  imports ModulePath
begin

text \<open>
  What a path denotes is a walk over directories; normalization keeps it for relative paths and for
  paths with a drive, and for rooted paths as long as the walk does not come back to the root.
\<close>

section \<open>Segments and walks\<close>

primrec splits :: "string \<Rightarrow> string list" where
  "splits [] = [[]]"
| "splits (c # cs) = (if c = CHR ''/'' then [] # splits cs else (c # hd (splits cs)) # tl (splits cs))"

definition segments :: "string \<Rightarrow> string list" where
  "segments p = filter (\<lambda>s. s \<noteq> []) (splits p)"

definition enter :: "string list \<Rightarrow> string \<Rightarrow> string list" where
  "enter st s = (if s = ''.'' then st else if s = ''..'' then tl st else s # st)"

definition walk :: "string list \<Rightarrow> string list \<Rightarrow> string list" where
  "walk = foldl enter"

fun join :: "string list \<Rightarrow> string" where
  "join [] = []"
| "join [x] = x"
| "join (x # y # ys) = x @ CHR ''/'' # join (y # ys)"

definition proper :: "string \<Rightarrow> bool" where
  "proper s \<longleftrightarrow> s \<noteq> [] \<and> CHR ''/'' \<notin> set s \<and> s \<noteq> ''.''"

definition named :: "string \<Rightarrow> bool" where
  "named s \<longleftrightarrow> proper s \<and> s \<noteq> ''..''"

lemma splits_nonempty [simp]: "splits p \<noteq> []"
  by (cases p) auto

lemma splits_prefix: "CHR ''/'' \<notin> set xs \<Longrightarrow> splits (xs @ ys) = (xs @ hd (splits ys)) # tl (splits ys)"
  by (induction xs) auto

lemma splits_slash: "splits (xs @ CHR ''/'' # ys) = splits xs @ splits ys"
proof (induction xs)
  case (Cons c xs)
  then show ?case by (cases "splits xs") auto
qed simp

lemma segments_simps [simp]:
  "segments [] = []"
  "segments (CHR ''/'' # p) = segments p"
  "segments (xs @ CHR ''/'' # ys) = segments xs @ segments ys"
  by (simp_all add: segments_def splits_slash)

lemma segments_single: "CHR ''/'' \<notin> set s \<Longrightarrow> s \<noteq> [] \<Longrightarrow> segments s = [s]"
  using splits_prefix [of s "[]"] by (simp add: segments_def)

lemma segments_proper: "s \<in> set (segments p) \<Longrightarrow> s \<noteq> [] \<and> CHR ''/'' \<notin> set s"
proof -
  have "CHR ''/'' \<notin> set s" if "s \<in> set (splits p)" for s p
    using that
  proof (induction p arbitrary: s)
    case (Cons c p)
    have "hd (splits p) \<in> set (splits p)" "set (tl (splits p)) \<subseteq> set (splits p)"
      using list.set_sel(2) [of "splits p"] by auto
    then show ?case using Cons by (auto split: if_splits)
  qed simp
  then show "s \<in> set (segments p) \<Longrightarrow> s \<noteq> [] \<and> CHR ''/'' \<notin> set s" unfolding segments_def by auto
qed

lemma segments_dropWhile: "segments (dropWhile (\<lambda>c. c = CHR ''/'') p) = segments p"
  by (induction p) auto

lemma segments_first:
  assumes "q \<noteq> []" "hd q \<noteq> CHR ''/''"
  shows "segments q = takeWhile (\<lambda>c. c \<noteq> CHR ''/'') q # segments (dropWhile (\<lambda>c. c \<noteq> CHR ''/'') q)"
proof -
  let ?t = "takeWhile (\<lambda>c. c \<noteq> CHR ''/'') q" and ?d = "dropWhile (\<lambda>c. c \<noteq> CHR ''/'') q"
  have t: "CHR ''/'' \<notin> set ?t" "?t \<noteq> []" using assms by (auto dest: set_takeWhileD simp: takeWhile_eq_Nil_iff)
  have q: "q = ?t @ ?d" by simp
  show ?thesis
  proof (cases "?d")
    case Nil
    then have "segments q = segments ?t" using q by (metis append_Nil2)
    then show ?thesis using segments_single [OF t] Nil by (metis segments_simps(1))
  next
    case (Cons c d)
    then have "c = CHR ''/''" using hd_dropWhile [of "\<lambda>c. c \<noteq> CHR ''/''" q] by simp
    then have "segments q = segments ?t @ segments d" using q Cons segments_simps(3) by metis
    then show ?thesis using segments_single [OF t] Cons \<open>c = CHR ''/''\<close> by simp
  qed
qed

lemma normalize_loop_segments:
  "normalize_loop a p out = fold (\<lambda>s out. normalize_segment a out s) (segments p) out"
proof (induction a p out rule: normalize_loop.induct)
  case (1 a p out)
  let ?q = "dropWhile (\<lambda>c. c = CHR ''/'') p"
  show ?case
  proof (cases "?q = []")
    case True
    then have "segments p = []" using segments_dropWhile [of p] by (metis segments_simps(1))
    then show ?thesis using True by (simp add: normalize_loop.simps [of a p])
  next
    case False
    then have "segments p = takeWhile (\<lambda>c. c \<noteq> CHR ''/'') ?q # segments (dropWhile (\<lambda>c. c \<noteq> CHR ''/'') ?q)"
      using segments_first [of ?q] hd_dropWhile [OF False] segments_dropWhile [of p] by simp
    then show ?thesis
      unfolding normalize_loop.simps [of a p] Let_def if_not_P [OF False] using 1 [OF refl False] by simp
  qed
qed

section \<open>The last slash\<close>

lemma last_slash_upto: "i \<le> length xs \<Longrightarrow> last_slash (xs @ ys) i = last_slash xs i"
  by (induction i) (simp_all add: nth_append)

lemma last_slash_skip:
  "CHR ''/'' \<notin> set s \<Longrightarrow> k \<le> length s \<Longrightarrow> last_slash (xs @ s) (length xs + k) = last_slash (xs @ s) (length xs)"
proof (induction k)
  case (Suc k)
  then have "s ! k \<noteq> CHR ''/''" by (metis Suc_le_lessD nth_mem)
  then show ?case using Suc by (simp add: nth_append)
qed simp

lemma last_slash_none: "CHR ''/'' \<notin> set s \<Longrightarrow> last_slash s (length s) = None"
  using last_slash_skip [of s "length s" "[]"] by simp

lemma last_slash_some:
  assumes "CHR ''/'' \<notin> set s" shows "last_slash (xs @ CHR ''/'' # s) (length (xs @ CHR ''/'' # s)) = Some (length xs)"
  using last_slash_skip [of s "length s" "xs @ [CHR ''/'']"] last_slash_upto [of "Suc (length xs)" "xs @ [CHR ''/'']" s] assms
  by (simp add: nth_append)

lemma pop_segment:
  assumes "proper l"
  shows "normalize_segment a (xs @ CHR ''/'' # l) ''..'' =
    (if l = ''..'' then if a then xs @ CHR ''/'' # l else append_segment (xs @ CHR ''/'' # l) ''..'' else xs)"
proof -
  have "length l = 2 \<and> l ! 0 = CHR ''.'' \<and> l ! 1 = CHR ''.'' \<longleftrightarrow> l = ''..''"
    by (auto simp: length_Suc_conv numeral_2_eq_2)
  moreover have "(xs @ CHR ''/'' # l) ! (length xs + 1) = l ! 0" "(xs @ CHR ''/'' # l) ! (length xs + 2) = l ! 1"
    by (simp_all add: nth_append)
  ultimately show ?thesis
    using assms last_slash_some [of l xs] unfolding normalize_segment_def by (auto simp: proper_def Let_def)
qed

lemma append_segment_slash: "out \<noteq> [] \<Longrightarrow> last out \<noteq> CHR ''/'' \<Longrightarrow> append_segment out s = out @ CHR ''/'' # s"
  by (simp add: append_segment_def last_conv_nth)

section \<open>Relative paths\<close>

text \<open>Normalization on lists of segments: the first one is never taken back.\<close>

definition norm_list :: "string list \<Rightarrow> string \<Rightarrow> string list" where
  "norm_list os s =
     (if s = ''.'' then os
      else if s = ''..'' \<and> 2 \<le> length os \<and> last os \<noteq> ''..'' then butlast os
      else os @ [s])"

definition settled :: "string list \<Rightarrow> bool" where
  "settled os \<longleftrightarrow> list_all proper os \<and> (\<forall>i. 2 \<le> i \<and> i < length os \<and> os ! i = ''..'' \<longrightarrow> os ! (i - 1) = ''..'')"

lemma join_snoc: "join (os @ [s]) = (if os = [] then s else join os @ CHR ''/'' # s)"
  by (induction os rule: join.induct) auto

lemma join_end: "list_all proper os \<Longrightarrow> os \<noteq> [] \<Longrightarrow> join os \<noteq> [] \<and> last (join os) \<noteq> CHR ''/''"
  by (induction os rule: rev_induct) (auto simp: join_snoc proper_def dest: last_in_set)

lemma append_join: "list_all proper os \<Longrightarrow> append_segment (join os) s = join (os @ [s])"
  using join_end [of os] append_segment_slash [of "join os" s] by (cases "os = []") (auto simp: join_snoc append_segment_def)

lemma proper_dotdot: "proper ''..''"
  by (simp add: proper_def)

lemma relative_step:
  assumes "list_all proper os" and "s = ''.'' \<or> proper s"
  shows "normalize_segment False (join os) s = join (norm_list os s)"
proof (cases "s = ''..''")
  case True
  consider "length os \<le> 1" | ys l where "os = ys @ [l]" "ys \<noteq> []" "proper l" "list_all proper ys"
    using assms(1) by (cases os rule: rev_cases) auto
  then show ?thesis
  proof cases
    case 1
    then have "os = [] \<or> (\<exists>x. os = [x] \<and> proper x)" using assms(1) by (cases os) auto
    then have "last_slash (join os) (length (join os)) = None" by (auto simp: proper_def intro: last_slash_none)
    then show ?thesis using True 1 append_join [OF assms(1)] by (simp add: normalize_segment_def norm_list_def)
  next
    case 2
    then have "join os = join ys @ CHR ''/'' # l" by (simp add: join_snoc)
    then show ?thesis
      using True 2 pop_segment [OF 2(3), of False "join ys"] append_join [OF assms(1), of "''..''"]
      by (auto simp: norm_list_def Suc_le_eq)
  qed
next
  case False
  then show ?thesis using append_join [OF assms(1)] by (simp add: normalize_segment_def norm_list_def)
qed

lemma norm_list_settled: "settled os \<Longrightarrow> s = ''.'' \<or> proper s \<Longrightarrow> settled (norm_list os s)"
proof (cases "s = ''..'' \<and> 2 \<le> length os \<and> last os \<noteq> ''..''")
  case True
  assume "settled os"
  then show ?thesis using True by (auto simp: settled_def norm_list_def nth_butlast list_all_iff dest: in_set_butlastD)
next
  case False
  assume os: "settled os" and s: "s = ''.'' \<or> proper s"
  show ?thesis
  proof (cases "s = ''.''")
    case True
    then show ?thesis using os by (simp add: norm_list_def)
  next
    case s': False
    then have "norm_list os s = os @ [s]" using False unfolding norm_list_def by argo
    moreover have "os ! (length os - 1) = ''..''" if "2 \<le> length os" "s = ''..''" using that False by (cases os rule: rev_cases) auto
    ultimately show ?thesis using os s s' by (auto simp: settled_def nth_append less_Suc_eq)
  qed
qed

lemma settled_snoc: "settled (os @ [s]) \<Longrightarrow> settled os \<and> proper s \<and> norm_list os s = os @ [s]"
proof -
  assume a: "settled (os @ [s])"
  have "settled os"
    unfolding settled_def
  proof (intro conjI allI impI)
    show "list_all proper os" using a by (simp add: settled_def)
    fix i assume "2 \<le> i \<and> i < length os \<and> os ! i = ''..''"
    moreover from this have "i - 1 < length os" by arith
    ultimately show "os ! (i - 1) = ''..''" using a unfolding settled_def by (auto simp: nth_append dest!: spec [of _ i])
  qed
  moreover have "proper s" using a by (simp add: settled_def)
  moreover have "last os = ''..''" if "2 \<le> length os" "s = ''..''"
    using a that unfolding settled_def by (cases os rule: rev_cases) (auto simp: nth_append dest!: spec [of _ "length os"])
  ultimately show ?thesis by (auto simp: norm_list_def proper_def)
qed

lemma settled_stays: "settled os \<Longrightarrow> foldl norm_list [] os = os"
proof (induction os rule: rev_induct)
  case (snoc s os)
  then show ?case using settled_snoc [of os s] by simp
qed simp

lemma walk_norm_list: "settled os \<Longrightarrow> walk st (norm_list os s) = enter (walk st os) s"
proof (cases "s = ''..'' \<and> 2 \<le> length os \<and> last os \<noteq> ''..''")
  case True
  assume os: "settled os"
  obtain ys l where l: "os = ys @ [l]" using True by (cases os rule: rev_cases) auto
  then have "l \<noteq> ''.''" "l \<noteq> ''..''" using os True by (auto simp: settled_def proper_def)
  then show ?thesis using True l by (simp add: norm_list_def walk_def enter_def)
next
  case False
  then show ?thesis by (auto simp: norm_list_def walk_def enter_def)
qed

lemma relative_path:
  "\<exists>os. normalize_loop False p [] = join os \<and> settled os \<and> os = foldl norm_list [] (segments p) \<and> (\<forall>st. walk st os = walk st (segments p))"
proof -
  have "fold (\<lambda>s out. normalize_segment False out s) ss [] = join (foldl norm_list [] ss) \<and> settled (foldl norm_list [] ss)
      \<and> (\<forall>st. walk st (foldl norm_list [] ss) = walk st ss)"
    if "\<forall>s \<in> set ss. s = ''.'' \<or> proper s" for ss
    using that
  proof (induction ss rule: rev_induct)
    case (snoc s ss)
    then have "settled (foldl norm_list [] ss)" by simp
    then show ?case
      using snoc relative_step [of "foldl norm_list [] ss" s] norm_list_settled walk_norm_list
      by (auto simp: settled_def walk_def)
  qed (simp add: settled_def)
  moreover have "\<forall>s \<in> set (segments p). s = ''.'' \<or> proper s" using segments_proper by (auto simp: proper_def)
  ultimately show ?thesis by (auto simp: normalize_loop_segments)
qed

lemma segments_join: "list_all proper os \<Longrightarrow> segments (join os) = os"
  by (induction os rule: join.induct) (auto simp: proper_def segments_single)

section \<open>Drives and roots\<close>

definition stem :: "string \<Rightarrow> string list \<Rightarrow> string" where
  "stem pre os = pre @ concat (map (\<lambda>s. CHR ''/'' # s) os)"

lemma stem_snoc: "stem pre (os @ [s]) = stem pre os @ CHR ''/'' # s"
  by (simp add: stem_def)

lemma stem_join: "os \<noteq> [] \<Longrightarrow> stem [] os = CHR ''/'' # join os"
  by (induction os rule: join.induct) (simp_all add: stem_def)

lemma stem_end: "list_all named os \<Longrightarrow> stem pre os \<noteq> [] \<Longrightarrow> os \<noteq> [] \<or> last pre \<noteq> CHR ''/'' \<Longrightarrow> last (stem pre os) \<noteq> CHR ''/''"
  by (cases os rule: rev_cases) (auto simp: stem_snoc named_def proper_def stem_def dest: last_in_set)

lemma list_all_tl: "list_all P xs \<Longrightarrow> list_all P (tl xs)"
  by (cases xs) simp_all

lemma walk_named: "\<forall>s \<in> set ss. s = ''.'' \<or> proper s \<Longrightarrow> list_all named st \<Longrightarrow> list_all named (walk st ss)"
  by (induction ss arbitrary: st) (auto simp: walk_def enter_def named_def intro: list_all_tl)

lemma stem_push:
  assumes "list_all named os" "stem pre os \<noteq> []" "os \<noteq> [] \<or> last pre \<noteq> CHR ''/''" "s \<noteq> ''.''" "s \<noteq> ''..''"
  shows "normalize_segment True (stem pre os) s = stem pre (os @ [s])"
  using stem_end [OF assms(1-3)] assms(2,4,5) by (simp add: normalize_segment_def append_segment_slash stem_snoc)

lemma stem_pop: "named l \<Longrightarrow> normalize_segment True (stem pre (os @ [l])) ''..'' = stem pre os"
  using pop_segment [of l True "stem pre os"] by (simp add: stem_snoc named_def)

lemma drive_step:
  assumes "pre \<noteq> []" "CHR ''/'' \<notin> set pre" "list_all named st" "s = ''.'' \<or> proper s"
  shows "normalize_segment True (stem pre (rev st)) s = stem pre (rev (enter st s))"
proof -
  have pre: "stem pre (rev st) \<noteq> []" "last pre \<noteq> CHR ''/''" using assms(1,2) by (auto simp: stem_def dest: last_in_set)
  consider "s = ''.''" | "s = ''..''" "st = []" | l st' where "s = ''..''" "st = l # st'" | "s \<noteq> ''.''" "s \<noteq> ''..''"
    by (cases st) auto
  then show ?thesis
  proof cases
    case 2
    then show ?thesis using assms(2) by (simp add: normalize_segment_def enter_def stem_def last_slash_none)
  next
    case 3
    then show ?thesis using assms(3) by (simp add: enter_def stem_pop)
  next
    case 4
    then show ?thesis using pre assms(3) stem_push [of "rev st" pre s] by (simp add: enter_def)
  qed (simp add: normalize_segment_def enter_def)
qed

lemma drive_path:
  assumes "pre \<noteq> []" "CHR ''/'' \<notin> set pre"
  shows "normalize_loop True p pre = stem pre (rev (walk [] (segments p)))"
proof -
  have "fold (\<lambda>s out. normalize_segment True out s) ss (stem pre (rev st)) = stem pre (rev (walk st ss))"
    if "list_all named st" "\<forall>s \<in> set ss. s = ''.'' \<or> proper s" for ss st
    using that
  proof (induction ss arbitrary: st)
    case (Cons s ss)
    then have "list_all named (enter st s)" using walk_named [of "[s]" st] by (simp add: walk_def)
    then show ?case using Cons drive_step [OF assms Cons.prems(1), of s] by (simp add: walk_def)
  qed (simp add: walk_def)
  from this [of "[]" "segments p"] show ?thesis
    using segments_proper by (auto simp: normalize_loop_segments stem_def proper_def)
qed

text \<open>Below the root; the first segment must not be taken back.\<close>

definition root_path :: "string list \<Rightarrow> string" where
  "root_path os = (if os = [] then ''/'' else stem [] os)"

lemma root_step:
  assumes "list_all named st" "s = ''.'' \<or> proper s" "s = ''..'' \<Longrightarrow> length st \<noteq> 1"
  shows "normalize_segment True (root_path (rev st)) s = root_path (rev (enter st s))"
proof -
  consider "s = ''.''" | "s = ''..''" "st = []" | l st' where "s = ''..''" "st = l # st'" "st' \<noteq> []"
    | "s \<noteq> ''.''" "s \<noteq> ''..''" "st = []" | "s \<noteq> ''.''" "s \<noteq> ''..''" "st \<noteq> []"
    using assms(3) by (cases st) auto
  then show ?thesis
  proof cases
    case 2
    then show ?thesis by (simp add: normalize_segment_def enter_def root_path_def)
  next
    case 3
    then show ?thesis using assms(1) by (simp add: enter_def stem_pop root_path_def)
  next
    case 4
    then show ?thesis by (simp add: normalize_segment_def append_segment_def enter_def root_path_def stem_def)
  next
    case 5
    then have "stem [] (rev st) \<noteq> []" using assms(1) by (simp add: stem_join)
    then show ?thesis using 5 assms(1) stem_push [of "rev st" "[]" s] by (simp add: enter_def root_path_def)
  qed (simp add: normalize_segment_def enter_def)
qed

lemma root_walk:
  assumes "list_all named st" "\<forall>s \<in> set ss. s = ''.'' \<or> proper s"
    "\<forall>n < length ss. ss ! n = ''..'' \<longrightarrow> length (walk st (take n ss)) \<noteq> 1"
  shows "fold (\<lambda>s out. normalize_segment True out s) ss (root_path (rev st)) = root_path (rev (walk st ss))"
  using assms
proof (induction ss arbitrary: st)
  case (Cons s ss)
  have "list_all named (enter st s)" using Cons.prems walk_named [of "[s]" st] by (simp add: walk_def)
  moreover have "length (walk (enter st s) (take n ss)) \<noteq> 1" if "n < length ss" "ss ! n = ''..''" for n
    using Cons.prems(3) that by (auto simp: walk_def dest!: spec [of _ "Suc n"])
  moreover have "s = ''..'' \<Longrightarrow> length st \<noteq> 1" using Cons.prems(3) by (auto simp: walk_def dest!: spec [of _ 0])
  ultimately show ?case using Cons root_step [OF Cons.prems(1), of s] by (simp add: walk_def)
qed (simp add: walk_def)

section \<open>The size of the copy\<close>

lemma length_segment: "length (normalize_segment a out s) \<le> length out + 1 + length s"
  by (auto simp: normalize_segment_def append_segment_def Let_def split: option.split)

lemma length_segments: "sum_list (map (\<lambda>s. length s + 1) (segments p)) \<le> length p + 1"
proof -
  have "sum_list (map (\<lambda>s. length s + 1) (splits p)) = length p + 1"
  proof (induction p)
    case (Cons c p)
    then show ?case by (cases "splits p") auto
  qed simp
  moreover have "sum_list (map f (filter P xs)) \<le> sum_list (map f xs)" for f :: "string \<Rightarrow> nat" and P xs
    by (induction xs) auto
  ultimately show ?thesis unfolding segments_def by (metis (no_types, lifting))
qed

lemma length_loop: "length (normalize_loop a p out) \<le> length out + length p + 1"
proof -
  have "length (fold (\<lambda>s out. normalize_segment a out s) ss out) \<le> length out + sum_list (map (\<lambda>s. length s + 1) ss)" for ss
  proof (induction ss arbitrary: out)
    case (Cons s ss)
    show ?case using Cons [of "normalize_segment a out s"] length_segment [of a out s] by simp
  qed simp
  from this [of "segments p"] show ?thesis using length_segments [of p] by (simp add: normalize_loop_segments)
qed

lemma length_normalize_copy: "length (normalize_copy p) < length p + 2"
proof -
  have "length (dropWhile (\<lambda>c. c = CHR ''/'') p) < length p" if "p \<noteq> []" "p ! 0 = CHR ''/''"
    using dropWhile_shorter [of p "\<lambda>c. c = CHR ''/''"] that by (simp add: hd_conv_nth)
  then show ?thesis
    using length_loop [of True "drop 2 p" "take 2 p"] length_loop [of False p "[]"]
      length_loop [of True "dropWhile (\<lambda>c. c = CHR ''/'') p" "''/''"]
    by (auto simp: normalize_copy_def has_drive_def)
qed

section \<open>The theorems\<close>

definition rooted :: "string \<Rightarrow> bool" where
  "rooted q \<longleftrightarrow> q \<noteq> [] \<and> hd q = CHR ''/''"

lemma copy_relative:
  assumes "\<not> has_drive q" "\<not> rooted q"
  shows "\<exists>os. normalize_copy q = join os \<and> settled os \<and> os = foldl norm_list [] (segments q) \<and> (\<forall>st. walk st os = walk st (segments q))"
  using relative_path [of q] assms by (auto simp: normalize_copy_def rooted_def hd_conv_nth)

lemma copy_drive: "has_drive q \<Longrightarrow> normalize_copy q = stem (take 2 q) (rev (walk [] (segments (drop 2 q))))"
proof -
  assume d: "has_drive q"
  then obtain a r where q: "q = a # CHR '':'' # r" "is_letter a"
    by (cases q; cases "tl q") (auto simp: has_drive_def)
  then have "CHR ''/'' \<notin> set (take 2 q)" "take 2 q \<noteq> []" by (auto simp: is_letter_def)
  then show ?thesis using d drive_path [of "take 2 q" "drop 2 q"] by (simp add: normalize_copy_def)
qed

lemma copy_rooted:
  assumes "rooted q" "\<forall>n < length (segments q). segments q ! n = ''..'' \<longrightarrow> length (walk [] (take n (segments q))) \<noteq> 1"
  shows "normalize_copy q = root_path (rev (walk [] (segments q)))"
proof -
  have "\<not> has_drive q" using assms(1) by (cases q) (auto simp: has_drive_def rooted_def is_letter_def)
  then show ?thesis
    using assms root_walk [of "[]" "segments q"] segments_proper segments_dropWhile [of q]
    by (auto simp: normalize_copy_def rooted_def hd_conv_nth normalize_loop_segments root_path_def proper_def)
qed

lemma set_join: "set (join os) \<subseteq> insert (CHR ''/'') (\<Union> (set ` set os))"
  by (induction os rule: join.induct) auto

lemma set_splits: "s \<in> set (splits p) \<Longrightarrow> set s \<subseteq> set p"
proof (induction p arbitrary: s)
  case (Cons c p)
  have "hd (splits p) \<in> set (splits p)" "set (tl (splits p)) \<subseteq> set (splits p)"
    using list.set_sel(2) [of "splits p"] by auto
  moreover have "s = [] \<or> s \<in> set (splits p) \<or> s = c # hd (splits p) \<or> s \<in> set (tl (splits p))"
    using Cons.prems by (auto split: if_splits)
  ultimately show ?case using Cons.IH [of s] Cons.IH [of "hd (splits p)"] by auto
qed simp

lemma set_norm_list: "set (foldl norm_list [] ss) \<subseteq> set ss"
  by (induction ss rule: rev_induct) (auto simp: norm_list_def dest: in_set_butlastD)

lemma no_backslash:
  assumes "CHR 0x5C \<notin> set q" shows "CHR 0x5C \<notin> set (join (foldl norm_list [] (segments q)))"
proof
  assume "CHR 0x5C \<in> set (join (foldl norm_list [] (segments q)))"
  then obtain s where "s \<in> set (foldl norm_list [] (segments q))" "CHR 0x5C \<in> set s"
    using set_join [of "foldl norm_list [] (segments q)"] by auto
  then have "s \<in> set (splits q)" "CHR 0x5C \<in> set s" using set_norm_list [of "segments q"] by (auto simp: segments_def)
  then show False using set_splits assms by blast
qed

lemma to_slash_id: "CHR 0x5C \<notin> set q \<Longrightarrow> map to_slash q = q"
  by (auto simp: to_slash_def intro: map_idI)

lemma join_rel: "list_all proper os \<Longrightarrow> \<not> rooted (join os)"
  by (cases os rule: join.cases) (auto simp: rooted_def proper_def hd_append dest: hd_in_set)

text \<open>
  C37 (equivalence). A normalized relative path has no empty segment and no \<open>.\<close>, a \<open>..\<close> only at its
  start or after its first segment, leads from every directory where the path itself leads, and is
  its own normal form; a path with a drive becomes the drive with the directories that the walk from
  its root enters; so does a path below the root when its walk does not come back to the root. The
  copy fits the buffer of two bytes more than the path.
\<close>

theorem module_path_normalize_correct:
  fixes path
  defines "q \<equiv> map to_slash path"
  shows "(\<not> has_drive q \<and> \<not> rooted q \<longrightarrow>
      (\<exists>os. module_path_normalize path = join os \<and> settled os \<and> (\<forall>st. walk st os = walk st (segments q)) \<and>
        (\<not> has_drive (join os) \<longrightarrow> module_path_normalize (join os) = join os))) \<and>
    (has_drive q \<longrightarrow> module_path_normalize path = stem (take 2 q) (rev (walk [] (segments (drop 2 q))))) \<and>
    (rooted q \<and> (\<forall>n < length (segments q). segments q ! n = ''..'' \<longrightarrow> length (walk [] (take n (segments q))) \<noteq> 1) \<longrightarrow>
      module_path_normalize path = root_path (rev (walk [] (segments q)))) \<and>
    length (module_path_normalize path) < length path + 2"
proof -
  have "\<exists>os. normalize_copy q = join os \<and> settled os \<and> (\<forall>st. walk st os = walk st (segments q)) \<and>
      (\<not> has_drive (join os) \<longrightarrow> module_path_normalize (join os) = join os)" if rel: "\<not> has_drive q" "\<not> rooted q"
  proof -
    obtain os where os: "normalize_copy q = join os" "settled os" "os = foldl norm_list [] (segments q)"
        "\<forall>st. walk st os = walk st (segments q)"
      using copy_relative [OF rel] by blast
    have "CHR 0x5C \<notin> set q" by (auto simp: q_def to_slash_def)
    then have "map to_slash (join os) = join os" using no_backslash os(3) to_slash_id by simp
    moreover have "\<not> rooted (join os)" "segments (join os) = os"
      using os(2) join_rel segments_join by (simp_all add: settled_def)
    ultimately have "module_path_normalize (join os) = join os" if "\<not> has_drive (join os)"
      using copy_relative [OF that] settled_stays [OF os(2)] by (auto simp: module_path_normalize_def)
    then show ?thesis using os by blast
  qed
  moreover have "length (normalize_copy q) < length path + 2" using length_normalize_copy [of q] by (simp add: q_def)
  moreover have "module_path_normalize path = normalize_copy q" by (simp add: module_path_normalize_def q_def)
  ultimately show ?thesis using copy_drive [of q] copy_rooted [of q] by simp
qed

theorem module_path_normalize_correct_witness:
  "module_path_normalize ''C:/a/../../b/./c'' = ''C:/b/c''"
proof -
  have "has_drive (map to_slash ''C:/a/../../b/./c'')" by code_simp
  moreover have "stem (take 2 (map to_slash ''C:/a/../../b/./c'')) (rev (walk [] (segments (drop 2 (map to_slash ''C:/a/../../b/./c''))))) = ''C:/b/c''"
    by code_simp
  ultimately show ?thesis using module_path_normalize_correct [of "''C:/a/../../b/./c''"] by simp
qed

text \<open>
  C38 (error). Where that ends: a path that comes back to the root loses it and becomes relative, and
  the first segment of a relative path is never taken back, so that two paths to one file keep two
  names.
\<close>

theorem module_path_normalize_defects:
  assumes "named x" "named y" "CHR 0x5C \<notin> set x" "CHR 0x5C \<notin> set y" "CHR '':'' \<notin> set x"
  shows "module_path_normalize (CHR ''/'' # x @ ''/../'' @ y) = y \<and>
    module_path_normalize (x @ ''/../'' @ y) = x @ ''/../'' @ y \<and>
    (\<forall>st. walk st (segments (x @ ''/../'' @ y)) = walk st (segments y))"
proof -
  define P where "P = x @ ''/../'' @ y"
  have seg: "segments P = [x, ''..'', y]"
    using assms(1,2) segments_simps(3) [of x "''../'' @ y"] segments_simps(3) [of "''..''" y]
    by (simp add: P_def segments_single named_def proper_def)
  have slash: "map to_slash P = P" using assms(3,4) unfolding P_def by (intro to_slash_id) auto
  have drive: "\<not> has_drive P" "\<not> has_drive (CHR ''/'' # P)" "\<not> rooted P"
    using assms(1,5) unfolding P_def
    by (cases x; cases "tl x"; auto simp: has_drive_def is_letter_def named_def proper_def rooted_def)+
  have "dropWhile (\<lambda>c. c = CHR ''/'') P = P" using drive(3) by (cases P) (auto simp: rooted_def)
  then have root: "module_path_normalize (CHR ''/'' # P) = fold (\<lambda>s out. normalize_segment True out s) [x, ''..'', y] ''/''"
    using drive(2) slash seg
    by (simp add: module_path_normalize_def normalize_copy_def normalize_loop_segments to_slash_def)
  obtain os where "normalize_copy P = join os" "os = foldl norm_list [] (segments P)"
    using copy_relative [OF drive(1,3)] by blast
  moreover have "foldl norm_list [] [x, ''..'', y] = [x, ''..'', y]" using assms(1,2) by (simp add: norm_list_def named_def proper_def)
  moreover have "join [x, ''..'', y] = P" by (simp add: P_def)
  ultimately have kept: "module_path_normalize P = P"
    unfolding module_path_normalize_def slash by (simp only: seg)
  have "normalize_segment True ''/'' x = ''/'' @ x" "normalize_segment True [] y = y"
    using assms(1,2) by (simp_all add: normalize_segment_def append_segment_def named_def proper_def)
  moreover have "normalize_segment True (''/'' @ x) ''..'' = []"
    using pop_segment [of x True "[]"] assms(1) by (simp add: named_def)
  moreover have "walk st [x, ''..'', y] = walk st [y]" for st using assms(1) by (simp add: walk_def enter_def named_def proper_def)
  moreover have "segments y = [y]" using assms(2) by (simp add: named_def proper_def segments_single)
  ultimately have "module_path_normalize (CHR ''/'' # P) = y" "\<forall>st. walk st (segments P) = walk st (segments y)"
    using root by (simp_all add: seg)
  then show ?thesis using kept unfolding P_def by simp
qed

theorem module_path_normalize_defects_witness:
  "module_path_normalize ''/a/../b'' = ''b'' \<and> module_path_normalize ''a/../b'' = ''a/../b''"
  using module_path_normalize_defects [of "''a''" "''b''"] by (simp add: named_def proper_def)

text \<open>The directory of the importing file, with its separator.\<close>

lemma dir_prefix_slash: "i \<le> length f \<Longrightarrow> CHR 0x5C \<notin> set f \<Longrightarrow> dir_prefix f i = 0 \<or> (\<exists>d. take (dir_prefix f i) f = d @ ''/'')"
proof (induction i)
  case (Suc i)
  show ?case
  proof (cases "is_separator (f ! i)")
    case True
    moreover have "f ! i \<noteq> CHR 0x5C" using Suc.prems by (metis Suc_le_lessD nth_mem)
    ultimately show ?thesis using Suc.prems by (auto simp: is_separator_def take_Suc_conv_app_nth)
  next
    case False
    then show ?thesis using Suc by simp
  qed
qed simp



end
