(* ===== verification/Spec2Isabelle.thy ===== *)
theory Spec2Isabelle
  imports FfiCond RBTreeStore Vec StrMapStore LexerProps LiteralProps IntValues CtfeMemProps InitTdzProps ScopeProps ParserDepth
    Sha256Props ModulePathProps
begin

text \<open>
  A verification library for the clux compiler (C sources under \<open>src/src\<close>, headers under
  \<open>src/include\<close>).

  \<^bold>\<open>The program.\<close> The driver reads a source file through an input stream (\<open>core/stream.c\<close>) into a
  pool of tokens (\<open>parser/lexer.c\<close>, \<open>driver/driver.c\<close>); the recursive-descent parser (\<open>parser/*.c\<close>) turns
  the pool into a syntax tree. Semantic analysis (\<open>sema/*.c\<close>) annotates the tree and evaluates constant
  expressions with a virtual machine (\<open>vm/*.c\<close>) and an interpreter (\<open>ctfe/*.c\<close>); the C backend
  (\<open>cbackend/*.c\<close>) lowers the result. Imports are resolved to module paths (\<open>module/module_path.c\<close>) and
  packages are pinned by digests (\<open>core/sha256.c\<close>). All passes rest on the containers of \<open>core\<close>.

  \<^bold>\<open>What models what.\<close> Every definition keeps the name of the function it translates, and its loops,
  guards and early returns in their order; parts of a function that have a name of their own here are
  introduced where they are defined.

  \<^item> \<open>Prelude\<close>: strings, sizes, raw copies, and the lemmas and simp rules that all theories share.
  \<^item> \<open>FfiCond\<close>: \<open>core/ffi_cond.c\<close>, the table of keys and the language of FFI conditions.
  \<^item> \<open>RBTree\<close>: \<open>core/rbtree.c\<close> on a heap of nodes with parent pointers. \<open>RBTreeShape\<close> has the abstract
    trees and zippers, \<open>RBTreeInsert\<close> and \<open>RBTreeDelete\<close> the two fixups, \<open>RBTreeOps\<close>, \<open>RBTreeRemove\<close> and
    \<open>RBTreeMisc\<close> the operations, \<open>RBTreeStore\<close> the contract: the locales \<open>total_cmp\<close> of a comparison and
    \<open>ordered_store\<close> of a store for it, and the tree as an instance.
  \<^item> \<open>Vec\<close>: \<open>core/vec.c\<close> on arrays with uninitialised cells.
  \<^item> \<open>StrMap\<close>, \<open>StrMapStore\<close>: \<open>core/strmap.c\<close>, a client of the tree (through the contract) and the vector.
  \<^item> \<open>Stream_In\<close>: the input half of \<open>core/stream.c\<close> over a memory source.
  \<^item> \<open>Lexer\<close>: \<open>parser/lexer.c\<close> and the pool loop of \<open>driver/driver.c\<close>. \<open>LexerScan\<close> and \<open>LexerProps\<close> relate
    every scanner to a reference scanner on the bytes.
  \<^item> \<open>Literals\<close>, \<open>LiteralProps\<close>: \<open>core/strslice.h\<close>, the cursor of \<open>parser/parse_utils.c\<close>, and the integer,
    character and string literals.
  \<^item> \<open>Ast\<close>: the node kinds of \<open>parser/ast_*.h\<close> with the members that the parser sets.
  \<^item> \<open>ParserCore\<close>, \<open>ParsePattern\<close>, \<open>ParseFunc\<close>, \<open>ParseExpr\<close>, \<open>ParseDecl\<close>, \<open>ParseStmt\<close>, \<open>ParseProgram\<close>: every
    function of \<open>parser/parse_*.c\<close> and \<open>parser/parser.c\<close>. \<open>ParserFlow\<close> has the rules for the movement of
    the cursor, \<open>ParseExprTotal\<close>, \<open>ParseDeclTotal\<close>, \<open>ParseStmtTotal\<close> and \<open>ParserTotal\<close> apply them function by
    function, \<open>ParserDepth\<close> shows that the depth of calls does not matter.
  \<^item> \<open>Values\<close>: the scalar types of \<open>vm/value.c\<close>, \<open>type.c\<close>, \<open>type_int.c\<close>, \<open>type_bool.c\<close>, \<open>type_float.c\<close>,
    \<open>type_const.c\<close> and \<open>type_volatile.c\<close>, on values and on shadow values. \<open>ValueTypes\<close> relates the two,
    \<open>IntValues\<close> gives the integers their numbers.
  \<^item> \<open>CtfeMem\<close>, \<open>CtfeTables\<close>, \<open>CtfeMemProps\<close>: \<open>vm/ctfe_mem.c\<close>, its two tables (the locale \<open>keyed_table\<close>,
    interpreted for each) and its contract as an ideal registry of objects.
  \<^item> \<open>InitTdz\<close>, \<open>InitTdzRuns\<close>, \<open>InitTdzProps\<close>: \<open>sema/init_tdz.c\<close>, the runs of a body, and the check against
    them.
  \<^item> \<open>Scope\<close>, \<open>ScopeTree\<close>, \<open>ScopeOps\<close>, \<open>ScopeProps\<close>: \<open>vm/scope.c\<close> with the push and pop of \<open>vm/vm.c\<close>, as
    operations on a tree of scopes in a heap.
  \<^item> \<open>Sha256\<close>, \<open>Sha256Props\<close>: \<open>core/sha256.c\<close> and the standard it implements.
  \<^item> \<open>ModulePath\<close>, \<open>ModulePathProps\<close>: \<open>module/module_path.c\<close> and the walk that a path denotes.

  \<^bold>\<open>What the lemmas show.\<close> The containers refine lists and finite maps, with exactly the memory they
  need, and are driven from their initial state by any sequence of operations. The lexer returns the
  tokens of the reference scanners, and the texts of a pool put together are the source. Literals have
  the value they are written with. The parser returns on every pool that ends with the end token. The
  run on shadow values predicts the types and errors of the run on values but for one kind of cast, and
  the integer operators compute those on numbers. The registry passes the addresses that are sound. The
  check of \<open>__init__\<close> bodies is sound in the syntax it follows, and exact on the structured bodies there.
  Scopes are destroyed once, with their deferred calls in order, as long as the closures live. Digests are those of the standard; normalized paths lead where the path leads. Where the
  code falls short of what it means to do, the theorem states what it does: keys that are cut, short
  escapes, literals modulo \<open>2 ^ 64\<close>, operands under qualifiers, sums that C leaves undefined, long
  names that are not found, paths that lose their root.

  \<^bold>\<open>Effects and errors.\<close> A heap maps live addresses to their contents, so that a use of a freed or null
  pointer has no result, \<open>None\<close>; loops that might not end are partial functions with values in \<open>option\<close>,
  or count their rounds. Panics and diagnoses are values. The properties include that the results are
  there.

  \<^bold>\<open>Bounds.\<close> The parser takes the depth of its calls as an argument, and is stuck when it is used up;
  \<open>call_depth n = 3 * n + 6\<close> is enough for a pool of \<open>n\<close> tokens, because a call of an entry point either
  comes after a token that was taken or goes to an entry point of a lower rank, and there are three
  ranks between two tokens (\<open>ParserTotal\<close>); \<open>ParserDepth.parser_total\<close> shows that every greater depth has
  the same result, so the bound is not part of the meaning. The loops of the parser make at most one
  round more than the pool has tokens, as each round takes a token. The condition parser of \<open>FfiCond\<close>
  takes fuel from the length of its text, with the same two results. Sizes are below \<open>2 ^ 31\<close> in the
  stream, and written out modulo \<open>2 ^ 64\<close> where the code relies on it.

  \<^bold>\<open>Parameters.\<close> Code that is not in the repository is an argument: the functions of ICU (with
  \<open>icu_ok\<close>, what the stream relies on), floating-point arithmetic (\<open>fpu\<close>), whether \<open>strtod\<close> passes
  the bound of a suffix (\<open>over\<close>), the answers of the allocator and the addresses of new objects, the
  files that can be read and their blocks, the loader of package manifests, the comparison function of
  a tree and the clone callbacks of a container.

  \<^bold>\<open>Not modelled.\<close> Semantic analysis but for the field check, the interpreter, and the C backend work
  on one shared mutable tree with symbol tables, generic instances and compound types that all passes
  fill in together; no function of them stands apart with a contract of its own, so that a part of
  them would be a model of invented surroundings. Compound types of the machine copy raw storage under
  layouts that semantic analysis computes. The formatter, the tree walk and desugaring read members
  that are left out here. The output stream, diagnostics, processes, files and option parsing are
  input and output. Manifests, lock files and JSON, the ordered map, the arena and the allocators are
  left for a later extension.
\<close>

end
